(* ===== verification/Prelude.thy ===== *)
theory Prelude
  imports Main "HOL-Library.Sublist" "HOL-Library.Word" "HOL-Library.AList"
begin

text \<open>
  Shared ground of the development: the parts of Go's standard library the modelled
  packages use (\<^verbatim>\<open>strings\<close>, \<^verbatim>\<open>path\<close>, \<^verbatim>\<open>encoding/binary\<close>, maps), the generic
  lemmas the component theories rest on, and the collections their proofs cite.

  A Go \<^verbatim>\<open>string\<close> is a byte sequence and so is a HOL \<open>string\<close> (a \<open>char\<close> is eight
  bits), so the translation keeps lengths and indices.  A Go map that is only looked
  up is a HOL map; one that is also iterated or counted is an association list.
\<close>

named_theorems go_strings \<open>the modelled functions of package strings, unfolded\<close>

subsection \<open>Package strings\<close>

definition HasPrefix :: "string \<Rightarrow> string \<Rightarrow> bool" where
  "HasPrefix s p = prefix p s"

definition HasSuffix :: "string \<Rightarrow> string \<Rightarrow> bool" where
  "HasSuffix s p = suffix p s"

definition TrimPrefix :: "string \<Rightarrow> string \<Rightarrow> string" where
  "TrimPrefix s p = (if HasPrefix s p then drop (length p) s else s)"

definition TrimSuffix :: "string \<Rightarrow> string \<Rightarrow> string" where
  "TrimSuffix s p = (if HasSuffix s p then take (length s - length p) s else s)"

text \<open>\<^verbatim>\<open>strings.TrimRight(s, c)\<close> and \<^verbatim>\<open>strings.Trim(s, c)\<close> for a one-byte cutset.\<close>

definition TrimRight :: "char \<Rightarrow> string \<Rightarrow> string" where
  "TrimRight c s = rev (dropWhile (\<lambda>x. x = c) (rev s))"

definition TrimLeft :: "char \<Rightarrow> string \<Rightarrow> string" where
  "TrimLeft c s = dropWhile (\<lambda>x. x = c) s"

text \<open>\<^verbatim>\<open>strings.Split\<close> with a one-byte separator, and \<^verbatim>\<open>strings.Join\<close>.\<close>

fun Split :: "char \<Rightarrow> string \<Rightarrow> string list" where
  "Split c [] = [[]]"
| "Split c (x # xs) =
     (if x = c then [] # Split c xs
      else (case Split c xs of [] \<Rightarrow> [[x]] | y # ys \<Rightarrow> (x # y) # ys))"

fun Join :: "char \<Rightarrow> string list \<Rightarrow> string" where
  "Join c [] = []"
| "Join c [s] = s"
| "Join c (s # t # ss) = s @ c # Join c (t # ss)"

text \<open>\<^verbatim>\<open>unicode.IsSpace\<close> on the ASCII bytes, as \<^verbatim>\<open>strings.TrimSpace\<close> uses it.\<close>

definition is_space :: "char \<Rightarrow> bool" where
  "is_space c = (c \<in> set [CHR '' '', CHR 0x09, CHR 0x0A, CHR 0x0B, CHR 0x0C, CHR 0x0D])"

definition TrimSpace :: "string \<Rightarrow> string" where
  "TrimSpace s = rev (dropWhile is_space (rev (dropWhile is_space s)))"

definition Contains :: "string \<Rightarrow> string \<Rightarrow> bool" where
  "Contains s sub = sublist sub s"

definition to_lower :: "char \<Rightarrow> char" where
  "to_lower c = (if 65 \<le> (of_char c :: nat) \<and> (of_char c :: nat) \<le> 90
                 then char_of ((of_char c :: nat) + 32) else c)"

definition EqualFold :: "string \<Rightarrow> string \<Rightarrow> bool" where
  "EqualFold s t = (map to_lower s = map to_lower t)"

lemmas go_strings_defs [go_strings] =
  HasPrefix_def HasSuffix_def TrimPrefix_def TrimSuffix_def Contains_def

lemma Split_not_Nil [simp]: "Split c s \<noteq> []"
  by (cases s) (auto split: list.splits)

lemma Split_no_sep: "t \<in> set (Split c s) \<Longrightarrow> c \<notin> set t"
  by (induction s arbitrary: t) (auto split: if_splits list.splits)

lemma Join_Split [simp]: "Join c (Split c s) = s"
proof (induction s)
  case (Cons x xs)
  then show ?case
    by (cases "Split c xs"; cases "tl (Split c xs)") auto
qed simp

lemma Split_no_sep_single: "c \<notin> set s \<Longrightarrow> Split c s = [s]"
  by (induction s) auto

lemma Split_append_sep: "c \<notin> set s \<Longrightarrow> Split c (s @ c # t) = s # Split c t"
  by (induction s) auto

lemma Split_append: "Split c (s @ c # t) = Split c s @ Split c t"
  by (induction s) (auto split: list.splits)

lemma Split_Join:
  "ss \<noteq> [] \<Longrightarrow> \<forall>s \<in> set ss. c \<notin> set s \<Longrightarrow> Split c (Join c ss) = ss"
  by (induction c ss rule: Join.induct) (auto simp: Split_no_sep_single Split_append_sep)

lemma Join_Cons: "ss \<noteq> [] \<Longrightarrow> Join c (s # ss) = s @ c # Join c ss"
  by (cases ss) auto

lemma Join_append: "xs \<noteq> [] \<Longrightarrow> ys \<noteq> [] \<Longrightarrow> Join c (xs @ ys) = Join c xs @ c # Join c ys"
  by (induction c xs rule: Join.induct) (auto simp: Join_Cons)

lemma takeWhile_upto: "c \<notin> set s \<Longrightarrow> takeWhile (\<lambda>x. x \<noteq> c) (s @ c # t) = s"
  by (induction s) auto

lemma TrimSuffix_append [simp]: "TrimSuffix (s @ t) t = s"
  by (simp add: TrimSuffix_def HasSuffix_def suffix_def)

lemma HasSuffix_append [simp]: "HasSuffix (s @ t) t"
  by (simp add: HasSuffix_def suffix_def)

lemma HasSuffixE:
  assumes "HasSuffix s t" obtains u where "s = u @ t"
  using assms by (auto simp: HasSuffix_def suffix_def)

subsection \<open>Package path: lexical cleaning\<close>

text \<open>
  \<^verbatim>\<open>path.Clean\<close> works on the elements between slashes, keeping a stack of those kept
  so far (last one first): empty and \<^verbatim>\<open>.\<close> elements vanish, \<^verbatim>\<open>..\<close> pops the last real
  element, is dropped at the root of a rooted path and kept at the front of a
  relative one.
\<close>

abbreviation slash :: char where "slash \<equiv> CHR ''/''"

definition clean_step :: "bool \<Rightarrow> string list \<Rightarrow> string \<Rightarrow> string list" where
  "clean_step rooted stk seg =
     (if seg = [] \<or> seg = ''.'' then stk
      else if seg = ''..'' then
        (case stk of
           [] \<Rightarrow> if rooted then [] else [''..'']
         | x # xs \<Rightarrow> if x = ''..'' then ''..'' # stk else xs)
      else seg # stk)"

definition clean_segs :: "bool \<Rightarrow> string list \<Rightarrow> string list" where
  "clean_segs rooted segs = rev (foldl (clean_step rooted) [] segs)"

definition path_Clean :: "string \<Rightarrow> string" where
  "path_Clean p =
     (if p = [] then ''.''
      else if hd p = slash then slash # Join slash (clean_segs True (Split slash p))
      else (let ss = clean_segs False (Split slash p)
            in if ss = [] then ''.'' else Join slash ss))"

text \<open>\<^verbatim>\<open>path.Join(a, b)\<close>: the non-empty elements joined by a slash, then cleaned.\<close>

definition path_Join :: "string \<Rightarrow> string \<Rightarrow> string" where
  "path_Join a b =
     (if a = [] \<and> b = [] then []
      else if a = [] then path_Clean b
      else if b = [] then path_Clean a
      else path_Clean (a @ slash # b))"

text \<open>\<^verbatim>\<open>path.Dir\<close>: everything up to and including the last slash, cleaned.\<close>

definition path_Dir :: "string \<Rightarrow> string" where
  "path_Dir p = path_Clean (rev (dropWhile (\<lambda>c. c \<noteq> slash) (rev p)))"

text \<open>\<^verbatim>\<open>path.Base\<close>: the last element after removing trailing slashes.\<close>

definition path_Base :: "string \<Rightarrow> string" where
  "path_Base p =
     (if p = [] then ''.''
      else let q = TrimRight slash p
           in if q = [] then [slash] else rev (takeWhile (\<lambda>c. c \<noteq> slash) (rev q)))"

text \<open>An ordinary path element, one that cleaning keeps.\<close>

definition real_seg :: "string \<Rightarrow> bool" where
  "real_seg s \<longleftrightarrow> s \<noteq> [] \<and> s \<noteq> ''.'' \<and> s \<noteq> ''..'' \<and> slash \<notin> set s"

text \<open>The rooted path with the given elements: the shape of every cleaned absolute path.\<close>

definition abs_path :: "string list \<Rightarrow> string" where
  "abs_path segs = slash # Join slash segs"

lemma clean_step_real:
  assumes "\<forall>s \<in> set stk. real_seg s" and "slash \<notin> set seg"
  shows "\<forall>s \<in> set (clean_step True stk seg). real_seg s"
  using assms by (cases stk) (auto simp: clean_step_def real_seg_def)

lemma foldl_clean_real:
  assumes "\<forall>s \<in> set stk. real_seg s" and "\<forall>s \<in> set segs. slash \<notin> set s"
  shows "\<forall>s \<in> set (foldl (clean_step True) stk segs). real_seg s"
  using assms
proof (induction segs arbitrary: stk)
  case (Cons x xs)
  then have "\<forall>s \<in> set (clean_step True stk x). real_seg s"
    by (intro clean_step_real) auto
  with Cons show ?case by simp
qed simp

lemma clean_segs_real: "\<forall>s \<in> set (clean_segs True (Split slash p)). real_seg s"
  using foldl_clean_real [of "[]" "Split slash p"] Split_no_sep [of _ slash p]
  by (auto simp: clean_segs_def)

lemma foldl_clean_id:
  assumes "\<forall>s \<in> set segs. real_seg s"
  shows "foldl (clean_step r) stk segs = rev segs @ stk"
  using assms by (induction segs arbitrary: stk) (auto simp: clean_step_def real_seg_def)

lemma clean_segs_id: "\<forall>s \<in> set segs. real_seg s \<Longrightarrow> clean_segs r segs = segs"
  by (simp add: clean_segs_def foldl_clean_id)

lemma clean_segs_Nil [simp]: "clean_segs r ([] # segs) = clean_segs r segs"
  by (simp add: clean_segs_def clean_step_def)

lemma path_Clean_rooted:
  "path_Clean (slash # p) = abs_path (clean_segs True (Split slash p))"
  by (simp add: path_Clean_def abs_path_def)

lemma Split_Join_real:
  assumes "\<forall>s \<in> set segs. real_seg s" and "segs \<noteq> []"
  shows "Split slash (Join slash segs) = segs"
  using assms by (intro Split_Join) (auto simp: real_seg_def)

lemma path_Clean_abs_path:
  assumes "\<forall>s \<in> set segs. real_seg s"
  shows "path_Clean (abs_path segs) = abs_path segs"
proof (cases "segs = []")
  case True
  then show ?thesis by (simp add: path_Clean_def abs_path_def clean_segs_def clean_step_def)
next
  case False
  then have "clean_segs True (Split slash (Join slash segs)) = segs"
    using assms Split_Join_real clean_segs_id by metis
  then show ?thesis
    by (simp add: path_Clean_rooted abs_path_def)
qed

lemma path_Clean_idem_rooted: "path_Clean (path_Clean (slash # p)) = path_Clean (slash # p)"
  unfolding path_Clean_rooted by (rule path_Clean_abs_path [OF clean_segs_real])

lemma path_Clean_rooted_ex:
  obtains segs where "path_Clean (slash # p) = abs_path segs" "\<forall>s \<in> set segs. real_seg s"
  using path_Clean_rooted clean_segs_real by blast

lemma clean_segs_append_real: "\<forall>s \<in> set ys. real_seg s \<Longrightarrow> clean_segs r (xs @ ys) = clean_segs r xs @ ys"
  by (simp add: clean_segs_def foldl_clean_id)

text \<open>Joining a rooted directory and a cleaned path puts the elements one after the other.\<close>

lemma path_Clean_append:
  assumes "\<forall>s \<in> set segs. real_seg s"
  shows "path_Clean (slash # d @ abs_path segs) = abs_path (clean_segs True (Split slash d) @ segs)"
proof (cases "segs = []")
  case True
  then show ?thesis
    by (simp add: path_Clean_rooted abs_path_def Split_append) (simp add: clean_segs_def clean_step_def)
next
  case False
  then show ?thesis
    using assms by (simp add: path_Clean_rooted abs_path_def [of segs] Split_append Split_Join_real clean_segs_append_real)
qed

lemma foldl_clean_no_Nil: "[] \<notin> set stk \<Longrightarrow> [] \<notin> set (foldl (clean_step r) stk segs)"
proof (induction segs arbitrary: stk)
  case (Cons x xs)
  have "[] \<notin> set (clean_step r stk x)"
    using Cons.prems by (cases stk) (auto simp: clean_step_def)
  with Cons.IH show ?case by simp
qed simp

lemma path_Clean_not_Nil [simp]: "path_Clean p \<noteq> []"
proof -
  have n: "[] \<notin> set (clean_segs False segs)" for segs
    using foldl_clean_no_Nil [of "[]" False segs] by (simp add: clean_segs_def)
  have j: "zs \<noteq> [] \<Longrightarrow> [] \<notin> set zs \<Longrightarrow> Join slash zs \<noteq> []" for zs
    by (cases zs; cases "tl zs") auto
  show ?thesis using j [OF _ n] by (simp add: path_Clean_def Let_def)
qed

text \<open>Cleaning never makes a path longer.\<close>

definition seg_weight :: "string list \<Rightarrow> nat" where
  "seg_weight ss = sum_list (map (\<lambda>s. Suc (length s)) ss)"

lemma seg_weight_simps [simp]:
  "seg_weight [] = 0" "seg_weight (s # ss) = Suc (length s + seg_weight ss)"
  "seg_weight (xs @ ys) = seg_weight xs + seg_weight ys" "seg_weight (rev xs) = seg_weight xs"
  by (simp_all add: seg_weight_def rev_map [symmetric])

lemma length_Join: "ss \<noteq> [] \<Longrightarrow> Suc (length (Join c ss)) = seg_weight ss"
  by (induction c ss rule: Join.induct) auto

lemma seg_weight_Split: "seg_weight (Split c s) = Suc (length s)"
  using length_Join [of "Split c s" c] by simp

lemma foldl_clean_weight: "seg_weight (foldl (clean_step r) stk segs) \<le> seg_weight stk + seg_weight segs"
proof (induction segs arbitrary: stk)
  case (Cons x xs)
  have "seg_weight (clean_step r stk x) \<le> seg_weight stk + Suc (length x)"
    by (cases stk) (auto simp: clean_step_def)
  with Cons.IH [of "clean_step r stk x"] show ?case by simp
qed simp

lemma clean_segs_weight: "seg_weight (clean_segs r segs) \<le> seg_weight segs"
  using foldl_clean_weight [of r "[]" segs] by (simp add: clean_segs_def)

lemma length_path_Clean: "p \<noteq> [] \<Longrightarrow> length (path_Clean p) \<le> length p"
proof -
  have bound: "length (Join slash ss) \<le> n" if "seg_weight ss \<le> Suc n" for ss :: "string list" and n
    using that length_Join [of ss slash] by (cases "ss = []") auto
  assume p: "p \<noteq> []"
  show ?thesis
  proof (cases "hd p = slash")
    case True
    then obtain q where q: "p = slash # q" using p by (cases p) auto
    have "seg_weight (clean_segs True (Split slash q)) \<le> Suc (length q)"
      using clean_segs_weight [of True "Split slash q"] by (simp add: seg_weight_Split)
    then show ?thesis using bound [of _ "length q"] by (simp add: q path_Clean_def)
  next
    case False
    have "seg_weight (clean_segs False (Split slash p)) \<le> Suc (length p)"
      using clean_segs_weight [of False "Split slash p"] by (simp add: seg_weight_Split)
    then show ?thesis
      using bound [of _ "length p"] False p by (cases p) (auto simp: path_Clean_def Let_def)
  qed
qed

lemma clean_segs_skip: "clean_segs r (xs @ [] # ys) = clean_segs r (xs @ ys)"
  by (simp add: clean_segs_def clean_step_def)

lemma path_Clean_append_slash:
  assumes "\<forall>s \<in> set segs. real_seg s"
  shows "path_Clean (slash # d @ slash # abs_path segs) = abs_path (clean_segs True (Split slash d) @ segs)"
proof -
  have "Split slash (d @ slash # abs_path segs) = Split slash d @ [] # Split slash (Join slash segs)"
    by (simp add: Split_append abs_path_def)
  moreover have "Split slash (d @ abs_path segs) = Split slash d @ Split slash (Join slash segs)"
    by (simp add: Split_append abs_path_def)
  ultimately show ?thesis
    using path_Clean_append [OF assms, of d] by (simp add: path_Clean_rooted clean_segs_skip)
qed

lemma abs_path_inj:
  assumes "\<forall>s \<in> set xs. real_seg s" "\<forall>s \<in> set ys. real_seg s" "abs_path xs = abs_path ys"
  shows "xs = ys"
proof -
  have j: "Join slash xs = Join slash ys" using assms(3) by (simp add: abs_path_def)
  have ne: "zs \<noteq> [] \<Longrightarrow> \<forall>s \<in> set zs. real_seg s \<Longrightarrow> Join slash zs \<noteq> []" for zs
    by (cases zs; cases "tl zs") (auto simp: real_seg_def)
  show ?thesis
  proof (cases "xs = [] \<or> ys = []")
    case True
    with j ne assms(1,2) show ?thesis by (metis Join.simps(1))
  next
    case False
    with j assms(1,2) Split_Join_real show ?thesis by metis
  qed
qed

lemma prefix_Join:
  assumes "\<forall>s \<in> set xs. slash \<notin> set s" "\<forall>s \<in> set ys. slash \<notin> set s" "xs \<noteq> []"
  shows "prefix (Join slash xs @ [slash]) (Join slash ys) \<longleftrightarrow> strict_prefix xs ys"
proof
  assume "strict_prefix xs ys"
  then obtain zs where "ys = xs @ zs" "zs \<noteq> []" by (auto simp: strict_prefix_def prefix_def)
  with assms(3) show "prefix (Join slash xs @ [slash]) (Join slash ys)"
    by (simp add: Join_append prefix_def)
next
  assume "prefix (Join slash xs @ [slash]) (Join slash ys)"
  then obtain t where t: "Join slash ys = Join slash xs @ slash # t" by (auto simp: prefix_def)
  have "ys \<noteq> []" using t by auto
  then have "ys = Split slash (Join slash xs @ slash # t)"
    using t Split_Join assms(2) by metis
  also have "\<dots> = Split slash (Join slash (xs @ Split slash t))"
    using assms(3) by (simp add: Join_append)
  also have "\<dots> = xs @ Split slash t"
    using assms(1,3) Split_no_sep by (intro Split_Join) auto
  finally show "strict_prefix xs ys" by (auto simp: strict_prefix_def)
qed

lemma path_Dir_abs_path:
  assumes "\<forall>s \<in> set t. real_seg s" "t \<noteq> []" shows "path_Dir (abs_path t) = abs_path (butlast t)"
proof -
  obtain xs x where t: "t = xs @ [x]" using assms(2) by (cases t rule: rev_cases) auto
  have x: "slash \<notin> set x" and xs: "\<forall>s \<in> set xs. real_seg s" using assms(1) by (auto simp: t real_seg_def)
  have drop: "rev (dropWhile (\<lambda>c. c \<noteq> slash) (rev (u @ slash # x))) = u @ [slash]" for u
  proof -
    have "dropWhile (\<lambda>c. c \<noteq> slash) (rev x @ slash # rev u) = slash # rev u"
      using x by (subst dropWhile_append2) auto
    then show ?thesis by simp
  qed
  show ?thesis
  proof (cases "xs = []")
    case True
    have "path_Dir (abs_path t) = path_Clean [slash]" using drop [of "[]"] by (simp add: path_Dir_def abs_path_def t True)
    then show ?thesis by (simp add: t True path_Clean_def clean_segs_def clean_step_def abs_path_def)
  next
    case False
    have "path_Dir (abs_path t) = path_Clean (abs_path xs @ [slash])"
      using drop [of "abs_path xs"] by (simp add: path_Dir_def abs_path_def t Join_append False)
    also have "\<dots> = abs_path (clean_segs True (Split slash (Join slash xs) @ [[]]))"
      by (simp add: abs_path_def path_Clean_rooted [unfolded abs_path_def] Split_append)
    also have "\<dots> = abs_path xs"
      using clean_segs_skip [of True "Split slash (Join slash xs)" "[]"] xs False by (simp add: Split_Join_real clean_segs_id)
    finally show ?thesis by (simp add: t)
  qed
qed

section \<open>Step systems\<close>

text \<open>
  The states a step relation reaches from its initial states, and the interface of an
  inductive invariant: a component supplies the relation and the predicate, proves the
  two laws, and obtains the predicate in every reachable state.
\<close>

inductive reachable :: "('s \<Rightarrow> bool) \<Rightarrow> ('s \<Rightarrow> 's \<Rightarrow> bool) \<Rightarrow> 's \<Rightarrow> bool" for init step where
  reach_init: "init s \<Longrightarrow> reachable init step s"
| reach_next: "reachable init step s \<Longrightarrow> step s t \<Longrightarrow> reachable init step t"

lemma reachable_star: "step\<^sup>*\<^sup>* s t \<Longrightarrow> reachable init step s \<Longrightarrow> reachable init step t"
  by (induction rule: rtranclp_induct) (auto intro: reach_next)

locale invariant_system =
  fixes init :: "'s \<Rightarrow> bool" and step :: "'s \<Rightarrow> 's \<Rightarrow> bool" and inv :: "'s \<Rightarrow> bool"
  assumes init_inv: "init s \<Longrightarrow> inv s"
    and step_inv: "step s t \<Longrightarrow> inv s \<Longrightarrow> inv t"
begin

lemma reach_inv: "reachable init step s \<Longrightarrow> inv s"
  by (induction rule: reachable.induct) (auto intro: init_inv step_inv)

lemma star_inv: "step\<^sup>*\<^sup>* s t \<Longrightarrow> inv s \<Longrightarrow> inv t"
  by (induction rule: rtranclp_induct) (auto intro: step_inv)

end

end
