(* ===== verification/Acl.thy ===== *)
theory Acl
  imports Prelude "HOL-Library.Multiset"
begin

text \<open>
  The workspace ACL evaluator, \<^verbatim>\<open>internal/fusefs/acl.go\<close>: rules are ordered once by
  \<^verbatim>\<open>Compile\<close> (an in-place insertion sort, longer patterns first) and \<^verbatim>\<open>Eval\<close> takes the
  first rule matching the cleaned path, denying by default.  The theory shows that
  this is the policy ``the longest matching pattern wins, the earliest rule on a
  tie'', that a subtree pattern matches by path component, and what cleaning the
  path protects against.
\<close>

section \<open>Rules\<close>

datatype Access = AccessRW | AccessRO | AccessDeny | AccessOther string

record Rule =
  r_path :: string
  r_access :: Access

record ACLs =
  acl_rules :: "Rule list"

definition star_suffix :: string where
  "star_suffix = ''/**''"

definition effectiveLen :: "string \<Rightarrow> nat" where
  "effectiveLen p = length (TrimSuffix p star_suffix)"

definition matches :: "string \<Rightarrow> string \<Rightarrow> bool" where
  "matches p pattern =
     (if HasSuffix pattern star_suffix then
        let pre = TrimSuffix pattern star_suffix
        in p = pre \<or> HasPrefix p (pre @ ''/'')
      else p = pattern)"

section \<open>Compile: the insertion sort\<close>

text \<open>
  The inner loop: the rule at index \<open>j\<close> is swapped towards the front while its
  pattern is strictly longer than its left neighbour's, and the loop stops at the
  first neighbour that is not shorter.  The outer loop runs it for \<open>i = 1, 2, \<dots>\<close>.
\<close>

fun sink :: "nat \<Rightarrow> Rule list \<Rightarrow> Rule list" where
  "sink 0 rs = rs"
| "sink (Suc j) rs =
     (if effectiveLen (r_path (rs ! Suc j)) > effectiveLen (r_path (rs ! j))
      then sink j (rs[Suc j := rs ! j, j := rs ! Suc j])
      else rs)"

definition sortByPrefixLengthDesc :: "Rule list \<Rightarrow> Rule list" where
  "sortByPrefixLengthDesc rs = fold sink [1..<length rs] rs"

definition Compile :: "Rule list \<Rightarrow> ACLs" where
  "Compile rules = \<lparr>acl_rules = sortByPrefixLengthDesc rules\<rparr>"

fun eval_rules :: "Rule list \<Rightarrow> string \<Rightarrow> Access" where
  "eval_rules [] p = AccessDeny"
| "eval_rules (r # rs) p = (if matches p (r_path r) then r_access r else eval_rules rs p)"

definition Eval :: "ACLs \<Rightarrow> string \<Rightarrow> Access" where
  "Eval a p = eval_rules (acl_rules a) (path_Clean (''/'' @ TrimPrefix p ''/''))"

section \<open>The sort is stable\<close>

text \<open>The element at the end of a list, moved left past the strictly shorter ones.\<close>

fun ins_right :: "Rule \<Rightarrow> Rule list \<Rightarrow> Rule list" where
  "ins_right x [] = [x]"
| "ins_right x (y # ys) =
     (if \<forall>z \<in> set (y # ys). effectiveLen (r_path z) < effectiveLen (r_path x)
      then x # y # ys else y # ins_right x ys)"

abbreviation rlen :: "Rule \<Rightarrow> nat" where
  "rlen r \<equiv> effectiveLen (r_path r)"

definition desc :: "Rule list \<Rightarrow> bool" where
  "desc rs = sorted_wrt (\<lambda>a b. rlen b \<le> rlen a) rs"

lemma ins_right_snoc_lt:
  assumes "desc (xs @ [y])" "rlen y < rlen x"
  shows "ins_right x (xs @ [y]) = ins_right x xs @ [y]"
  using assms by (induction xs) (auto simp: desc_def sorted_wrt_append)

lemma ins_right_snoc_ge: "rlen x \<le> rlen y \<Longrightarrow> ins_right x (xs @ [y]) = xs @ [y, x]"
  by (induction xs) auto

lemma sink_ins_right:
  assumes "desc xs"
  shows "sink (length xs) (xs @ x # ys) = ins_right x xs @ ys"
  using assms
proof (induction xs arbitrary: ys rule: rev_induct)
  case (snoc y xs)
  then have d: "desc xs" by (simp add: desc_def sorted_wrt_append)
  have at: "((xs @ [y]) @ x # ys) ! Suc (length xs) = x" "((xs @ [y]) @ x # ys) ! length xs = y"
    by (simp_all add: nth_append)
  have sw: "((xs @ [y]) @ x # ys)[Suc (length xs) := y, length xs := x] = xs @ x # y # ys"
    by (simp add: list_update_append)
  show ?case
  proof (cases "rlen y < rlen x")
    case True
    then have "sink (length (xs @ [y])) ((xs @ [y]) @ x # ys) = sink (length xs) (xs @ x # y # ys)"
      using at sw by simp
    also have "\<dots> = ins_right x xs @ y # ys" using snoc.IH [OF d] .
    finally show ?thesis using True snoc.prems ins_right_snoc_lt by simp
  next
    case False
    then show ?thesis using at by (simp add: ins_right_snoc_ge)
  qed
qed simp

lemma set_ins_right [simp]: "set (ins_right x xs) = insert x (set xs)"
  by (induction xs) auto

lemma mset_ins_right [simp]: "mset (ins_right x xs) = add_mset x (mset xs)"
  by (induction xs) auto

lemma length_ins_right [simp]: "length (ins_right x xs) = Suc (length xs)"
  by (induction xs) auto

lemma desc_ins_right: "desc xs \<Longrightarrow> desc (ins_right x xs)"
proof (induction xs)
  case (Cons y ys)
  show ?case
  proof (cases "\<forall>z \<in> set (y # ys). rlen z < rlen x")
    case True
    with Cons.prems show ?thesis by (fastforce simp: desc_def)
  next
    case False
    with Cons.prems have "rlen x \<le> rlen y" by (force simp: desc_def)
    with False Cons show ?thesis by (auto simp: desc_def)
  qed
qed (simp add: desc_def)

text \<open>Equal keys keep their order: the inserted element lands behind its equals.\<close>

lemma filter_shorter_Nil:
  "\<forall>z \<in> set xs. rlen z < rlen x \<Longrightarrow> filter (\<lambda>r. rlen r = rlen x) xs = []"
  by (induction xs) auto

lemma filter_ins_right:
  assumes "desc xs"
  shows "filter (\<lambda>r. rlen r = k) (ins_right x xs) = filter (\<lambda>r. rlen r = k) (xs @ [x])"
  using assms by (induction xs) (auto simp: desc_def filter_shorter_Nil)

lemma fold_sink:
  assumes "n \<le> length rs" "0 < n"
  shows "\<exists>s. fold sink [1..<n] rs = s @ drop n rs \<and> length s = n \<and> desc s
           \<and> mset s = mset (take n rs)
           \<and> (\<forall>k. filter (\<lambda>r. rlen r = k) s = filter (\<lambda>r. rlen r = k) (take n rs))"
  using assms(2,1)
proof (induction n rule: nat_induct_non_zero)
  case 1
  then obtain a as where "rs = a # as" by (cases rs) auto
  then show ?case by (intro exI [of _ "[a]"]) (simp add: desc_def)
next
  case (Suc n)
  then obtain s where s: "fold sink [1..<n] rs = s @ drop n rs" "length s = n" "desc s"
    "mset s = mset (take n rs)"
    "\<forall>k. filter (\<lambda>r. rlen r = k) s = filter (\<lambda>r. rlen r = k) (take n rs)"
    by auto
  have d: "drop n rs = rs ! n # drop (Suc n) rs" and t: "take (Suc n) rs = take n rs @ [rs ! n]"
    using Suc.prems by (simp_all add: Cons_nth_drop_Suc take_Suc_conv_app_nth)
  have "fold sink [1..<Suc n] rs = sink n (s @ drop n rs)"
    using Suc.hyps s(1) by (simp add: upt_conv_Cons)
  also have "\<dots> = ins_right (rs ! n) s @ drop (Suc n) rs"
    using sink_ins_right [OF s(3)] s(2) d by metis
  finally show ?case
    using s t desc_ins_right filter_ins_right [OF s(3)]
    by (intro exI [of _ "ins_right (rs ! n) s"]) simp
qed

lemma sortByPrefixLengthDesc_props:
  shows "desc (sortByPrefixLengthDesc rs)"
    and "mset (sortByPrefixLengthDesc rs) = mset rs"
    and "filter (\<lambda>r. rlen r = k) (sortByPrefixLengthDesc rs) = filter (\<lambda>r. rlen r = k) rs"
proof -
  show "desc (sortByPrefixLengthDesc rs)" "mset (sortByPrefixLengthDesc rs) = mset rs"
    "filter (\<lambda>r. rlen r = k) (sortByPrefixLengthDesc rs) = filter (\<lambda>r. rlen r = k) rs"
    using fold_sink [of "length rs" rs]
    by (cases "rs = []"; auto simp: sortByPrefixLengthDesc_def desc_def)+
qed

section \<open>The policy Eval implements\<close>

text \<open>
  The reference: of the rules that match, the one with the longest pattern, and the
  earliest of these in the order the configuration lists them.
\<close>

fun best_rule :: "string \<Rightarrow> Rule list \<Rightarrow> Rule option" where
  "best_rule p [] = None"
| "best_rule p (r # rs) =
     (if matches p (r_path r) then
        (case best_rule p rs of
           None \<Rightarrow> Some r
         | Some r' \<Rightarrow> if rlen r < rlen r' then Some r' else Some r)
      else best_rule p rs)"

definition policy :: "Rule list \<Rightarrow> string \<Rightarrow> Access" where
  "policy rules p = (case best_rule p rules of None \<Rightarrow> AccessDeny | Some r \<Rightarrow> r_access r)"

lemma best_rule_None: "best_rule p rs = None \<longleftrightarrow> (\<forall>r \<in> set rs. \<not> matches p (r_path r))"
  by (induction rs) (auto split: option.splits)

lemma best_rule_SomeD:
  assumes "best_rule p rs = Some r"
  shows "r \<in> set rs" "matches p (r_path r)"
    "\<forall>r' \<in> set rs. matches p (r_path r') \<longrightarrow> rlen r' \<le> rlen r"
  using assms
  by (induction rs arbitrary: r) (force simp: best_rule_None split: if_splits option.splits)+

text \<open>The chosen rule is the first match among the rules of its own length.\<close>

lemma best_rule_first:
  assumes "best_rule p rs = Some r"
  shows "find (\<lambda>r. matches p (r_path r)) (filter (\<lambda>r'. rlen r' = rlen r) rs) = Some r"
  using assms
proof (induction rs arbitrary: r)
  case (Cons a rs)
  then show ?case
    by (auto simp: best_rule_None find_None_iff split: if_splits option.splits)
qed simp

lemma find_filter_eq:
  assumes "\<And>x. x \<in> set xs \<Longrightarrow> P x \<Longrightarrow> Q x"
  shows "find P (filter Q xs) = find P xs"
  using assms by (induction xs) auto

lemma desc_find_first:
  assumes "desc xs" "\<forall>r \<in> set xs. P r \<longrightarrow> rlen r \<le> k" "\<exists>r \<in> set xs. P r \<and> rlen r = k"
  shows "find P xs = find P (filter (\<lambda>r. rlen r = k) xs)"
  using assms
proof (induction xs)
  case (Cons a as)
  show ?case
  proof (cases "P a")
    case True
    then have "rlen a = k" using Cons.prems by (force simp: desc_def)
    with True show ?thesis by simp
  next
    case False
    with Cons show ?thesis by (auto simp: desc_def)
  qed
qed simp

lemma eval_rules_find:
  "eval_rules rs p =
     (case find (\<lambda>r. matches p (r_path r)) rs of None \<Rightarrow> AccessDeny | Some r \<Rightarrow> r_access r)"
  by (induction rs) auto

lemma set_sorted [simp]: "set (sortByPrefixLengthDesc rs) = set rs"
  using sortByPrefixLengthDesc_props(2) [of rs] by (metis set_mset_mset)

lemma find_sorted_best:
  "find (\<lambda>r. matches p (r_path r)) (sortByPrefixLengthDesc rs) = best_rule p rs"
proof (cases "best_rule p rs")
  case None
  then have "find (\<lambda>r. matches p (r_path r)) (sortByPrefixLengthDesc rs) = None"
    by (simp add: best_rule_None find_None_iff)
  with None show ?thesis by simp
next
  case (Some r)
  note b = best_rule_SomeD [OF Some]
  have "find (\<lambda>r. matches p (r_path r)) (sortByPrefixLengthDesc rs) =
        find (\<lambda>r. matches p (r_path r)) (filter (\<lambda>x. rlen x = rlen r) (sortByPrefixLengthDesc rs))"
    using b by (intro desc_find_first) (auto simp: sortByPrefixLengthDesc_props(1))
  also have "\<dots> = Some r"
    using best_rule_first [OF Some] by (simp add: sortByPrefixLengthDesc_props(3))
  finally show ?thesis using Some by simp
qed

text \<open>
  Compiling and scanning the compiled rules decides exactly that policy on the
  cleaned path.
\<close>

lemma eval_rules_sorted: "eval_rules (sortByPrefixLengthDesc rules) p = policy rules p"
  by (simp add: eval_rules_find find_sorted_best policy_def)

definition clean_abs :: "string \<Rightarrow> string" where
  "clean_abs p = path_Clean (''/'' @ TrimPrefix p ''/'')"

lemma Eval_Compile: "Eval (Compile rules) p = policy rules (clean_abs p)"
  by (simp add: Eval_def Compile_def eval_rules_sorted clean_abs_def)

lemma clean_abs_rooted: "clean_abs p = path_Clean (slash # TrimPrefix p ''/'')"
  by (simp add: clean_abs_def)

lemma TrimPrefix_abs_path [simp]: "TrimPrefix (abs_path segs) ''/'' = Join slash segs"
  by (simp add: TrimPrefix_def HasPrefix_def abs_path_def)

lemma clean_abs_idem: "clean_abs (clean_abs p) = clean_abs p"
proof -
  obtain segs where s: "clean_abs p = abs_path segs" "\<forall>s \<in> set segs. real_seg s"
    using path_Clean_rooted_ex clean_abs_rooted by metis
  have "clean_abs (abs_path segs) = path_Clean (abs_path segs)"
    by (simp add: clean_abs_rooted) (simp add: abs_path_def)
  then show ?thesis using s path_Clean_abs_path by simp
qed

section \<open>Subtree patterns match by component\<close>

text \<open>
  A pattern \<open>m/**\<close> whose stem is a cleaned absolute path covers that directory and
  what lies below it, and nothing else: \<^verbatim>\<open>/workspace/**\<close> does not cover
  \<^verbatim>\<open>/workspace-secret\<close>.
\<close>

lemma matches_subtree:
  assumes m: "\<forall>s \<in> set ms. real_seg s" "ms \<noteq> []" and p: "\<forall>s \<in> set ps. real_seg s"
  shows "matches (abs_path ps) (abs_path ms @ star_suffix) \<longleftrightarrow> prefix ms ps"
proof -
  have ns: "\<forall>s \<in> set ms. slash \<notin> set s" "\<forall>s \<in> set ps. slash \<notin> set s"
    using m p by (auto simp: real_seg_def)
  have "matches (abs_path ps) (abs_path ms @ star_suffix) \<longleftrightarrow>
        abs_path ps = abs_path ms \<or> prefix (Join slash ms @ [slash]) (Join slash ps)"
    by (simp add: matches_def HasPrefix_def) (simp add: abs_path_def)
  also have "\<dots> \<longleftrightarrow> ps = ms \<or> strict_prefix ms ps"
    using abs_path_inj [OF p m(1)] prefix_Join [OF ns m(2)] by auto
  also have "\<dots> \<longleftrightarrow> prefix ms ps" by auto
  finally show ?thesis .
qed

lemma Eval_subtree:
  assumes "\<forall>s \<in> set ms. real_seg s" "ms \<noteq> []"
  shows "Eval (Compile [\<lparr>r_path = abs_path ms @ ''/**'', r_access = a\<rparr>]) p =
           (if prefix ms (clean_segs True (Split slash (TrimPrefix p ''/''))) then a
            else AccessDeny)"
proof -
  let ?ps = "clean_segs True (Split slash (TrimPrefix p ''/''))"
  have "clean_abs p = abs_path ?ps" using clean_abs_rooted path_Clean_rooted by metis
  moreover have "matches (abs_path ?ps) (abs_path ms @ ''/**'') \<longleftrightarrow> prefix ms ?ps"
    using matches_subtree [OF assms clean_segs_real] by (simp add: star_suffix_def)
  ultimately show ?thesis by (simp add: Eval_Compile policy_def)
qed

section \<open>Properties\<close>

text \<open>
  C1: for any rule list and any path, compiling the rules with the in-place insertion
  sort and scanning them gives the access of the longest pattern that matches the
  cleaned path, the earliest such rule on a tie, and deny when none matches.
\<close>

theorem Eval_longest_match:
  "Eval (Compile rules) p =
     (case best_rule (path_Clean (''/'' @ TrimPrefix p ''/'')) rules of
        None \<Rightarrow> AccessDeny
      | Some r \<Rightarrow> r_access r)"
  by (simp add: Eval_Compile policy_def clean_abs_def)

text \<open>
  A single subtree rule grants its access to exactly the paths whose cleaned
  components start with the components of the mount; every other path, and every
  path that climbs out with \<^verbatim>\<open>..\<close>, is denied.
\<close>

theorem Eval_subtree_exact:
  assumes "\<forall>s \<in> set ms. real_seg s" "ms \<noteq> []"
  shows "Eval (Compile [\<lparr>r_path = abs_path ms @ ''/**'', r_access = a\<rparr>]) p =
           (if prefix ms (clean_segs True (Split slash (TrimPrefix p ''/''))) then a
            else AccessDeny)"
  using assms by (rule Eval_subtree)

theorem Eval_subtree_exact_witness:
  "Eval (Compile [\<lparr>r_path = ''/workspace/**'', r_access = AccessRW\<rparr>])
      ''/workspace/../workspace-secret/key'' = AccessDeny"
proof -
  have e: "abs_path [''workspace''] @ ''/**'' = ''/workspace/**''" by (simp add: abs_path_def)
  have "\<forall>s \<in> set [''workspace'']. real_seg s" by (simp add: real_seg_def)
  from Eval_subtree_exact [OF this, of AccessRW "''/workspace/../workspace-secret/key''"]
  show ?thesis
    unfolding e
    by (simp add: TrimPrefix_def HasPrefix_def clean_segs_def clean_step_def)
qed

end
