(* ===== verification/Glob.thy ===== *)
theory Glob
  imports Prelude "HOL-Library.While_Combinator"
begin

text \<open>
  The wildcard matchers of the egress proxy (\<^verbatim>\<open>internal/proxy/proxy.go\<close>): \<^verbatim>\<open>globMatch\<close>
  for host patterns, \<^verbatim>\<open>matchSegment\<close> (the two-pointer match with backtracking) and
  \<^verbatim>\<open>matchSegments\<close> for path patterns, where a whole segment \<^verbatim>\<open>**\<close> spans any number
  of segments.  Each is proved equal to a declarative definition of what the pattern
  means.
\<close>

section \<open>What a wildcard pattern means\<close>

text \<open>\<open>wild pat s\<close>: a star stands for any run of bytes, every other byte for itself.\<close>

inductive wild :: "string \<Rightarrow> string \<Rightarrow> bool" where
  wild_Nil: "wild [] []"
| wild_char: "c \<noteq> CHR ''*'' \<Longrightarrow> wild pat s \<Longrightarrow> wild (c # pat) (c # s)"
| wild_star: "wild pat t \<Longrightarrow> wild (CHR ''*'' # pat) (u @ t)"

inductive_simps wild_Nil_left [simp]: "wild [] s"
inductive_simps wild_Cons_simp: "wild (c # pat) s"

lemma wild_char_iff: "c \<noteq> CHR ''*'' \<Longrightarrow> wild (c # pat) s \<longleftrightarrow> (\<exists>t. s = c # t \<and> wild pat t)"
  by (auto simp: wild_Cons_simp)

lemma wild_star_iff: "wild (CHR ''*'' # pat) s \<longleftrightarrow> (\<exists>u t. s = u @ t \<and> wild pat t)"
  by (auto simp: wild_Cons_simp)

lemma wild_star_drop: "wild (CHR ''*'' # pat) s \<longleftrightarrow> (\<exists>j \<le> length s. wild pat (drop j s))"
  by (metis wild_star_iff append_eq_conv_conj append_take_drop_id le_add1 length_append)

lemma wild_star_Cons: "wild (CHR ''*'' # pat) (x # s) \<longleftrightarrow> wild pat (x # s) \<or> wild (CHR ''*'' # pat) s"
proof
  assume "wild (CHR ''*'' # pat) (x # s)"
  then obtain u t where ut: "x # s = u @ t" "wild pat t" by (auto simp: wild_star_iff)
  then show "wild pat (x # s) \<or> wild (CHR ''*'' # pat) s"
    by (cases u) (auto simp: wild_star_iff)
next
  assume "wild pat (x # s) \<or> wild (CHR ''*'' # pat) s"
  then show "wild (CHR ''*'' # pat) (x # s)"
    by (metis append_Cons append_Nil wild_star_iff)
qed

lemma wild_star_Nil: "wild (CHR ''*'' # pat) [] \<longleftrightarrow> wild pat []"
  by (auto simp: wild_star_iff)

lemma wild_literal: "CHR ''*'' \<notin> set l \<Longrightarrow> wild (l @ pat) s \<longleftrightarrow> (\<exists>t. s = l @ t \<and> wild pat t)"
  by (induction l arbitrary: s) (auto simp: wild_char_iff)

lemma wild_no_star: "CHR ''*'' \<notin> set pat \<Longrightarrow> wild pat s \<longleftrightarrow> s = pat"
  using wild_literal [of pat "[]" s] by auto

section \<open>globMatch\<close>

text \<open>\<^verbatim>\<open>strings.IndexByte(pat, '*')\<close> is the length of the literal prefix, or \<open>-1\<close> (\<open>None\<close>).\<close>

definition IndexByte :: "string \<Rightarrow> char \<Rightarrow> nat option" where
  "IndexByte s c = (if c \<in> set s then Some (length (takeWhile (\<lambda>x. x \<noteq> c) s)) else None)"

function globMatch :: "string \<Rightarrow> string \<Rightarrow> bool" where
  "globMatch pat s =
     (case IndexByte pat (CHR ''*'') of
        None \<Rightarrow> pat = s
      | Some i \<Rightarrow>
          if \<not> HasPrefix s (take i pat) then False
          else list_ex (\<lambda>j. globMatch (drop (Suc i) pat) (drop j (drop i s)))
                 [0..<Suc (length (drop i s))])"
  by pat_completeness auto
termination
  by (relation "measure (\<lambda>(pat, s). length pat)")
     (auto simp: IndexByte_def dest: length_pos_if_in_set split: if_splits)

declare globMatch.simps [simp del]

lemma takeWhile_shorter: "\<exists>x \<in> set s. \<not> P x \<Longrightarrow> length (takeWhile P s) < length s"
  by (induction s) auto

lemma IndexByte_Some:
  assumes "IndexByte s c = Some i"
  shows "s = take i s @ c # drop (Suc i) s" "c \<notin> set (take i s)" "i < length s"
proof -
  from assms have c: "c \<in> set s" and i: "i = length (takeWhile (\<lambda>x. x \<noteq> c) s)"
    by (auto simp: IndexByte_def split: if_splits)
  let ?l = "takeWhile (\<lambda>x. x \<noteq> c) s"
  have t: "take i s = ?l" using i by (metis takeWhile_eq_take)
  have "s ! i = c" "i < length s"
    using c i nth_length_takeWhile [of "\<lambda>x. x \<noteq> c" s] takeWhile_shorter [of s "\<lambda>x. x \<noteq> c"]
    by auto
  then show "s = take i s @ c # drop (Suc i) s" "i < length s"
    by (metis id_take_nth_drop, simp)
  show "c \<notin> set (take i s)" using t set_takeWhileD by metis
qed

lemma globMatch_wild: "globMatch pat s \<longleftrightarrow> wild pat s"
proof (induction pat s rule: globMatch.induct)
  case (1 pat s)
  show ?case
  proof (cases "IndexByte pat (CHR ''*'')")
    case None
    then have "CHR ''*'' \<notin> set pat" by (auto simp: IndexByte_def split: if_splits)
    with None show ?thesis by (auto simp: globMatch.simps [of pat s] wild_no_star)
  next
    case (Some i)
    let ?l = "take i pat" and ?r = "drop (Suc i) pat"
    note ib = IndexByte_Some [OF Some]
    have w: "wild pat s \<longleftrightarrow> (\<exists>t. s = ?l @ t \<and> wild (CHR ''*'' # ?r) t)"
      using wild_literal [OF ib(2), of "CHR ''*'' # ?r" s] ib(1) by metis
    show ?thesis
    proof (cases "HasPrefix s ?l")
      case False
      then show ?thesis using Some w
        by (auto simp: globMatch.simps [of pat s] HasPrefix_def prefix_def)
    next
      case True
      then have s: "s = ?l @ drop i s"
        using ib(3) by (auto simp: HasPrefix_def prefix_def)
      have up: "set [0..<Suc n] = {j. j \<le> n}" for n by auto
      have "globMatch pat s \<longleftrightarrow> (\<exists>j \<in> set [0..<Suc (length (drop i s))]. globMatch ?r (drop j (drop i s)))"
        using Some True by (simp add: globMatch.simps [of pat s] list_ex_iff)
      also have "\<dots> \<longleftrightarrow> (\<exists>j \<in> set [0..<Suc (length (drop i s))]. wild ?r (drop j (drop i s)))"
        using "1.IH" [OF Some] True by blast
      also have "\<dots> \<longleftrightarrow> wild (CHR ''*'' # ?r) (drop i s)"
        unfolding wild_star_drop up by blast
      also have "\<dots> \<longleftrightarrow> wild pat s" using w s by (metis same_append_eq)
      finally show ?thesis .
    qed
  qed
qed

section \<open>matchSegment: two pointers and one backtrack point\<close>

text \<open>
  The loop state is \<open>(s, p, star, matched, failed)\<close>: the two read positions, the
  position of the last star (\<open>None\<close> is the source's \<open>-1\<close>), the text position it has
  been extended to, and whether the \<^verbatim>\<open>default: return false\<close> branch was taken.
\<close>

type_synonym seg_state = "nat \<times> nat \<times> nat option \<times> nat \<times> bool"

definition seg_more :: "string \<Rightarrow> seg_state \<Rightarrow> bool" where
  "seg_more seg = (\<lambda>(s, p, star, matched, failed). s < length seg \<and> \<not> failed)"

definition seg_step :: "string \<Rightarrow> string \<Rightarrow> seg_state \<Rightarrow> seg_state" where
  "seg_step pat seg = (\<lambda>(s, p, star, matched, failed).
     if p < length pat \<and> pat ! p = CHR ''*'' then (s, Suc p, Some p, s, False)
     else if p < length pat \<and> pat ! p = seg ! s then (Suc s, Suc p, star, matched, False)
     else (case star of
             Some st \<Rightarrow> (Suc matched, Suc st, star, Suc matched, False)
           | None \<Rightarrow> (s, p, star, matched, True)))"

text \<open>The result is \<open>None\<close> only if the loop never ends.\<close>

definition matchSegment :: "string \<Rightarrow> string \<Rightarrow> bool option" where
  "matchSegment pat seg =
     (if \<not> Contains pat ''*'' then Some (pat = seg)
      else (case while_option (seg_more seg) (seg_step pat seg) (0, 0, None, 0, False) of
              None \<Rightarrow> None
            | Some (s, p, star, matched, failed) \<Rightarrow>
                Some (\<not> failed \<and>
                  p + length (takeWhile (\<lambda>c. c = CHR ''*'') (drop p pat)) = length pat)))"

text \<open>The part of the text between the backtrack point and the read position was matched
  literally, and the whole match is decided by what is left from the backtrack point.\<close>

definition seg_inv :: "string \<Rightarrow> string \<Rightarrow> seg_state \<Rightarrow> bool" where
  "seg_inv pat seg = (\<lambda>(s, p, star, matched, failed).
     p \<le> length pat \<and> s \<le> length seg \<and>
     (failed \<longrightarrow> \<not> wild pat seg) \<and>
     (\<not> failed \<longrightarrow> (case star of
        None \<Rightarrow> matched = 0 \<and> (wild pat seg \<longleftrightarrow> wild (drop p pat) (drop s seg))
      | Some st \<Rightarrow> \<exists>l. CHR ''*'' \<notin> set l
            \<and> st < p \<and> drop st pat = CHR ''*'' # l @ drop p pat
            \<and> matched \<le> s \<and> drop matched seg = l @ drop s seg
            \<and> (wild pat seg \<longleftrightarrow> wild (drop st pat) (drop matched seg)))))"

lemma wild_star_mono:
  assumes "wild (CHR ''*'' # r) t"
  shows "wild (CHR ''*'' # r) (u @ t)"
proof -
  from assms obtain a b where "t = a @ b" "wild r b" by (auto simp: wild_star_iff)
  then have "wild (CHR ''*'' # r) ((u @ a) @ b)" by (intro wild_star)
  with \<open>t = a @ b\<close> show ?thesis by simp
qed

text \<open>Committing to the leftmost occurrence of a literal before the next star loses nothing.\<close>

lemma wild_leftmost:
  assumes "CHR ''*'' \<notin> set l"
  shows "wild (CHR ''*'' # l @ CHR ''*'' # r) (l @ t) \<longleftrightarrow> wild (CHR ''*'' # r) t"
proof
  assume "wild (CHR ''*'' # l @ CHR ''*'' # r) (l @ t)"
  then obtain u v where uv: "l @ t = u @ l @ v" "wild (CHR ''*'' # r) v"
    using wild_literal [OF assms] by (auto simp: wild_star_iff [of "l @ _"])
  from uv(1) have "l @ t = (u @ l) @ v" by simp
  then obtain w where w: "l = (u @ l) @ w \<and> w @ t = v \<or> l @ w = u @ l \<and> t = w @ v"
    unfolding append_eq_append_conv2 by blast
  have "t = w @ v"
  proof (rule disjE [OF w])
    assume a: "l = (u @ l) @ w \<and> w @ t = v"
    then have "length l = length ((u @ l) @ w)" by (intro arg_cong [where f = length]) blast
    then have "w = []" by simp
    with a show ?thesis by simp
  qed simp
  with uv(2) show "wild (CHR ''*'' # r) t" by (simp add: wild_star_mono)
next
  assume "wild (CHR ''*'' # r) t"
  then have "wild (l @ CHR ''*'' # r) (l @ t)" using wild_literal [OF assms] by blast
  then show "wild (CHR ''*'' # l @ CHR ''*'' # r) (l @ t)" using wild_star [of _ _ "[]"] by simp
qed

lemma wild_star_end:
  assumes "CHR ''*'' \<notin> set l"
  shows "wild (CHR ''*'' # l @ y) l \<longleftrightarrow> wild y []"
proof
  assume "wild (CHR ''*'' # l @ y) l"
  then obtain u v where uv: "l = u @ l @ v" "wild y v"
    using wild_literal [OF assms] by (auto simp: wild_star_iff)
  then have "length l = length u + length l + length v" by (metis add.assoc length_append)
  then have "v = []" by simp
  with uv(2) show "wild y []" by simp
next
  assume "wild y []"
  then show "wild (CHR ''*'' # l @ y) l"
    using wild_literal [OF assms, of y l] wild_star [of "l @ y" l "[]"] by simp
qed

lemma wild_Nil_right: "wild y [] \<longleftrightarrow> (\<forall>c \<in> set y. c = CHR ''*'')"
proof (induction y)
  case (Cons c y)
  then show ?case by (cases "c = CHR ''*''") (auto simp: wild_char_iff wild_star_Nil)
qed simp

lemma takeWhile_all_length: "length (takeWhile P xs) = length xs \<longleftrightarrow> (\<forall>c \<in> set xs. P c)"
  by (induction xs) auto

lemma all_star_takeWhile:
  assumes "p \<le> length pat"
  shows "p + length (takeWhile (\<lambda>c. c = CHR ''*'') (drop p pat)) = length pat
         \<longleftrightarrow> (\<forall>c \<in> set (drop p pat). c = CHR ''*'')"
proof -
  let ?P = "\<lambda>c. c = CHR ''*''" and ?xs = "drop p pat"
  have "length (takeWhile ?P ?xs) = length ?xs \<longleftrightarrow> (\<forall>c \<in> set ?xs. ?P c)"
    by (rule takeWhile_all_length)
  moreover have "p + n = length pat \<longleftrightarrow> n = length ?xs" for n using assms by auto
  ultimately show ?thesis by (simp only:)
qed

lemma drop_nth: "p < length xs \<Longrightarrow> drop p xs = xs ! p # drop (Suc p) xs"
  by (simp add: Cons_nth_drop_Suc)

lemma seg_inv_step:
  assumes I: "seg_inv pat seg st" and B: "seg_more seg st"
  shows "seg_inv pat seg (seg_step pat seg st)"
proof -
  obtain s p star m f where st: "st = (s, p, star, m, f)" by (cases st)
  from I B st have bd: "p \<le> length pat" "s < length seg" "\<not> f"
    by (auto simp: seg_inv_def seg_more_def)
  note ds = drop_nth [OF bd(2)]
  consider (star) "p < length pat" "pat ! p = CHR ''*''"
    | (eq) "p < length pat" "pat ! p \<noteq> CHR ''*''" "pat ! p = seg ! s"
    | (ne) "p < length pat \<Longrightarrow> pat ! p \<noteq> CHR ''*'' \<and> pat ! p \<noteq> seg ! s" by blast
  then show ?thesis
  proof cases
    case star
    then have dp: "drop p pat = CHR ''*'' # drop (Suc p) pat" using drop_nth by metis
    have "wild pat seg \<longleftrightarrow> wild (drop p pat) (drop s seg)"
      using I bd unfolding st seg_inv_def
      by (auto simp: dp wild_leftmost split: option.splits)
    then show ?thesis using star bd dp
      by (auto simp: st seg_inv_def seg_step_def intro!: exI [of _ "[]"])
  next
    case eq
    then have dp: "drop p pat = seg ! s # drop (Suc p) pat" using drop_nth by metis
    show ?thesis
    proof (cases star)
      case None
      then show ?thesis using I eq bd dp ds
        by (auto simp: st seg_inv_def seg_step_def wild_char_iff)
    next
      case (Some q)
      then obtain l where l: "CHR ''*'' \<notin> set l" "q < p" "drop q pat = CHR ''*'' # l @ drop p pat"
        "m \<le> s" "drop m seg = l @ drop s seg"
        "wild pat seg \<longleftrightarrow> wild (drop q pat) (drop m seg)"
        using I bd unfolding st seg_inv_def by auto
      then have "drop q pat = CHR ''*'' # (l @ [seg ! s]) @ drop (Suc p) pat"
        "drop m seg = (l @ [seg ! s]) @ drop (Suc s) seg" using dp ds by simp_all
      then show ?thesis using Some l eq bd
        unfolding st seg_inv_def seg_step_def
        by (auto intro!: exI [of _ "l @ [seg ! s]"])
    qed
  next
    case ne
    have no: "\<not> wild (drop p pat) (drop s seg)"
    proof (cases "p < length pat")
      case True
      with ne drop_nth [OF True] ds show ?thesis by (auto simp: wild_char_iff)
    next
      case False
      with bd ds show ?thesis by simp
    qed
    show ?thesis
    proof (cases star)
      case None
      then show ?thesis using I ne bd no by (auto simp: st seg_inv_def seg_step_def)
    next
      case (Some q)
      then obtain l where l: "CHR ''*'' \<notin> set l" "q < p" "drop q pat = CHR ''*'' # l @ drop p pat"
        "m \<le> s" "drop m seg = l @ drop s seg"
        "wild pat seg \<longleftrightarrow> wild (drop q pat) (drop m seg)"
        using I bd unfolding st seg_inv_def by auto
      have dm: "drop m seg = seg ! m # drop (Suc m) seg" using l(4) bd by (simp add: drop_nth)
      have "\<not> wild (l @ drop p pat) (drop m seg)" using l(1,5) no wild_literal by auto
      then have "wild pat seg \<longleftrightarrow> wild (drop q pat) (drop (Suc m) seg)"
        using l(3,6) dm wild_star_Cons by metis
      moreover have "drop (Suc q) pat = l @ drop p pat" using l(3) by (metis drop_Suc list.sel(3) tl_drop)
      ultimately show ?thesis using Some l ne bd
        by (auto simp: st seg_inv_def seg_step_def intro!: exI [of _ "[]"])
    qed
  qed
qed

text \<open>Termination: the star moves right, or the backtrack point does, or the read position does.\<close>

definition seg_measures :: "string \<Rightarrow> string \<Rightarrow> (seg_state \<times> seg_state) set" where
  "seg_measures pat seg = measures
     [\<lambda>(s, p, star, m, f). (case star of None \<Rightarrow> Suc (length pat) | Some q \<Rightarrow> length pat - q),
      \<lambda>(s, p, star, m, f). length seg - m,
      \<lambda>(s, p, star, m, f). length seg - s,
      \<lambda>(s, p, star, m, f). if f then 0 else 1]"

lemma seg_step_decreases:
  assumes "seg_inv pat seg st" "seg_more seg st"
  shows "(seg_step pat seg st, st) \<in> seg_measures pat seg"
  using assms
  by (cases st)
     (auto simp: seg_inv_def seg_more_def seg_step_def seg_measures_def split: option.splits)

lemma seg_loop_ends:
  "\<exists>t. while_option (seg_more seg) (seg_step pat seg) (0, 0, None, 0, False) = Some t"
proof (rule wf_while_option_Some [where P = "seg_inv pat seg"])
  show "wf {(t, s). (seg_inv pat seg s \<and> seg_more seg s) \<and> t = seg_step pat seg s}"
    by (rule wf_subset [of "seg_measures pat seg"])
       (simp add: seg_measures_def, auto intro: seg_step_decreases)
qed (auto intro: seg_inv_step, simp add: seg_inv_def)

lemma matchSegment_wild: "matchSegment pat seg = Some (wild pat seg)"
proof (cases "Contains pat ''*''")
  case False
  then have "CHR ''*'' \<notin> set pat" by (auto simp: Contains_def sublist_def in_set_conv_decomp)
  with False show ?thesis by (auto simp: matchSegment_def wild_no_star)
next
  case True
  obtain s p star m f where w:
    "while_option (seg_more seg) (seg_step pat seg) (0, 0, None, 0, False) = Some (s, p, star, m, f)"
    using seg_loop_ends by (metis prod_cases5)
  have inv: "seg_inv pat seg (s, p, star, m, f)"
    by (rule while_option_rule [where P = "seg_inv pat seg", OF _ w])
       (auto intro: seg_inv_step, simp add: seg_inv_def)
  have stop: "\<not> (s < length seg \<and> \<not> f)"
    using while_option_stop [OF w] by (simp add: seg_more_def)
  have "f \<Longrightarrow> \<not> wild pat seg" using inv by (simp add: seg_inv_def)
  moreover have "\<not> f \<Longrightarrow> wild pat seg \<longleftrightarrow> wild (drop p pat) []"
    using inv stop unfolding seg_inv_def
    by (auto simp: wild_star_end split: option.splits)
  ultimately show ?thesis
    using True w inv all_star_takeWhile [of p pat]
    by (auto simp: matchSegment_def wild_Nil_right seg_inv_def)
qed

section \<open>matchSegments and matchGlob\<close>

text \<open>
  The loop over pattern segments.  \<^verbatim>\<open>matchSegment\<close> always returns (shown above), so its
  result is read with \<open>the\<close>.
\<close>

fun matchSegments :: "string list \<Rightarrow> string list \<Rightarrow> bool" where
  "matchSegments [] seg = (seg = [])"
| "matchSegments (p # pat) seg =
     (if p = ''**'' then list_ex (\<lambda>i. matchSegments pat (drop i seg)) [0..<Suc (length seg)]
      else (case seg of
              [] \<Rightarrow> False
            | x # xs \<Rightarrow> the (matchSegment p x) \<and> matchSegments pat xs))"

definition matchGlob :: "string \<Rightarrow> string \<Rightarrow> bool" where
  "matchGlob pattern path = matchSegments (Split slash pattern) (Split slash path)"

text \<open>
  The meaning of a path pattern, as a relation on segments: a whole-segment \<^verbatim>\<open>**\<close>
  spans any number of segments, any other segment exactly one.
\<close>

inductive wild_segs :: "string list \<Rightarrow> string list \<Rightarrow> bool" where
  segs_Nil: "wild_segs [] []"
| segs_one: "p \<noteq> ''**'' \<Longrightarrow> wild p x \<Longrightarrow> wild_segs pat xs \<Longrightarrow> wild_segs (p # pat) (x # xs)"
| segs_many: "wild_segs pat ys \<Longrightarrow> wild_segs (''**'' # pat) (xs @ ys)"

inductive_simps wild_segs_Nil [simp]: "wild_segs [] xs"
inductive_simps wild_segs_Cons: "wild_segs (p # pat) xs"

lemma matchSegments_wild: "matchSegments pat seg \<longleftrightarrow> wild_segs pat seg"
proof (induction pat arbitrary: seg)
  case (Cons p pat)
  have up: "set [0..<Suc n] = {j. j \<le> n}" for n by auto
  show ?case
  proof (cases "p = ''**''")
    case True
    have "(\<exists>i \<le> length seg. wild_segs pat (drop i seg)) \<longleftrightarrow> (\<exists>xs ys. seg = xs @ ys \<and> wild_segs pat ys)"
      by (metis append_eq_conv_conj append_take_drop_id le_add1 length_append)
    moreover have "matchSegments (p # pat) seg \<longleftrightarrow> (\<exists>i \<le> length seg. wild_segs pat (drop i seg))"
      unfolding matchSegments.simps list_ex_iff up using True Cons.IH by simp
    ultimately have "matchSegments (p # pat) seg \<longleftrightarrow> (\<exists>xs ys. seg = xs @ ys \<and> wild_segs pat ys)"
      by blast
    moreover have "wild_segs (p # pat) seg \<longleftrightarrow> (\<exists>xs ys. seg = xs @ ys \<and> wild_segs pat ys)"
      using True by (auto simp: wild_segs_Cons)
    ultimately show ?thesis by blast
  next
    case False
    then show ?thesis using Cons
      by (cases seg) (auto simp: wild_segs_Cons matchSegment_wild)
  qed
qed auto

text \<open>A pattern ending in \<^verbatim>\<open>/**\<close> with no other wildcard covers exactly a subtree.\<close>

lemma wild_segs_literal:
  assumes "\<forall>s \<in> set ms. CHR ''*'' \<notin> set s"
  shows "wild_segs (ms @ pat) xs \<longleftrightarrow> (\<exists>ys. xs = ms @ ys \<and> wild_segs pat ys)"
  using assms
proof (induction ms arbitrary: xs)
  case (Cons m ms)
  then have "m \<noteq> ''**''" by auto
  with Cons show ?case by (auto simp: wild_segs_Cons wild_no_star)
qed simp

lemma wild_segs_many_last: "wild_segs [''**''] xs"
  using segs_many [OF segs_Nil, of xs] by simp

section \<open>Properties\<close>

text \<open>
  C2: the host matcher accepts exactly the hosts the pattern denotes: each star stands
  for any run of bytes, dots included, and every other byte for itself.
\<close>

theorem globMatch_correct: "globMatch pat s \<longleftrightarrow> wild pat s"
  by (rule globMatch_wild)

text \<open>
  C3: the two-pointer matcher with one backtrack point always returns, and returns
  exactly whether the segment is denoted by the pattern.
\<close>

theorem matchSegment_total_correct: "matchSegment pat seg = Some (wild pat seg)"
  by (rule matchSegment_wild)

text \<open>
  A path pattern matches exactly when its segments can be laid over the path's
  segments, a whole-segment \<^verbatim>\<open>**\<close> covering any number of them and no other
  wildcard crossing a slash.
\<close>

theorem matchGlob_correct:
  "matchGlob pattern path \<longleftrightarrow> wild_segs (Split slash pattern) (Split slash path)"
  by (simp add: matchGlob_def matchSegments_wild)

end
