(* ===== verification/Netaddr.thy ===== *)
theory Netaddr
  imports Prelude
begin

text \<open>
  Host and port handling of the egress proxy (\<^verbatim>\<open>internal/proxy/proxy.go\<close>:
  \<^verbatim>\<open>splitHostPort\<close>, \<^verbatim>\<open>upstreamAddr\<close>, \<^verbatim>\<open>srcIPOf\<close>) over the standard
  library's \<^verbatim>\<open>net.SplitHostPort\<close>, \<^verbatim>\<open>net.JoinHostPort\<close>, \<^verbatim>\<open>strconv.Atoi\<close> and
  \<^verbatim>\<open>strconv.Itoa\<close>.  The theory shows that joining and splitting are inverse and what
  address is dialled.
\<close>

section \<open>strconv\<close>

definition digit_val :: "char \<Rightarrow> nat option" where
  "digit_val c = (let n = of_char c :: nat in if 48 \<le> n \<and> n \<le> 57 then Some (n - 48) else None)"

fun digits_val :: "nat \<Rightarrow> string \<Rightarrow> nat option" where
  "digits_val acc [] = Some acc"
| "digits_val acc (c # cs) =
     (case digit_val c of None \<Rightarrow> None | Some d \<Rightarrow> digits_val (10 * acc + d) cs)"

text \<open>\<^verbatim>\<open>strconv.Atoi\<close>: an optional sign, at least one digit, and the 64-bit range.\<close>

definition int64_range :: "int \<Rightarrow> bool" where
  "int64_range v \<longleftrightarrow> - (2 ^ 63) \<le> v \<and> v < 2 ^ 63"

definition Atoi :: "string \<Rightarrow> int option" where
  "Atoi s =
     (let neg = (s \<noteq> [] \<and> hd s = CHR ''-'');
          ds = (if s \<noteq> [] \<and> (hd s = CHR ''-'' \<or> hd s = CHR ''+'') then tl s else s)
      in if ds = [] then None
         else (case digits_val 0 ds of
                 None \<Rightarrow> None
               | Some n \<Rightarrow> let v = (if neg then - int n else int n)
                          in if int64_range v then Some v else None))"

definition digit_char :: "nat \<Rightarrow> char" where
  "digit_char d = ''0123456789'' ! d"

fun itoa_nat :: "nat \<Rightarrow> string" where
  "itoa_nat n = (if n < 10 then [digit_char n]
                 else itoa_nat (n div 10) @ [digit_char (n mod 10)])"

declare itoa_nat.simps [simp del]

definition Itoa :: "int \<Rightarrow> string" where
  "Itoa v = (if v < 0 then CHR ''-'' # itoa_nat (nat (- v)) else itoa_nat (nat v))"

lemma of_char_digit: "d < 10 \<Longrightarrow> (of_char (digit_char d) :: nat) = 48 + d"
proof -
  assume "d < 10"
  then have "d \<in> {0, 1, 2, 3, 4, 5, 6, 7, 8, 9}" by auto
  then show ?thesis by (auto simp: digit_char_def)
qed

lemma digit_val_digit_char: "d < 10 \<Longrightarrow> digit_val (digit_char d) = Some d"
  by (simp add: digit_val_def of_char_digit)

lemma digits_val_append:
  "digits_val acc (xs @ ys) =
     (case digits_val acc xs of None \<Rightarrow> None | Some a \<Rightarrow> digits_val a ys)"
  by (induction xs arbitrary: acc) (auto split: option.splits)

lemma digits_val_itoa_nat: "digits_val 0 (itoa_nat n) = Some n"
proof (induction n rule: itoa_nat.induct)
  case (1 n)
  then show ?case
    by (auto simp: itoa_nat.simps [of n] digits_val_append digit_val_digit_char)
qed

lemma itoa_nat_digits: "c \<in> set (itoa_nat n) \<Longrightarrow> \<exists>d < 10. c = digit_char d"
proof (induction n rule: itoa_nat.induct)
  case (1 n)
  show ?case
  proof (cases "n < 10")
    case True
    with "1.prems" show ?thesis by (auto simp: itoa_nat.simps [of n])
  next
    case False
    with 1 consider "c \<in> set (itoa_nat (n div 10))" | "c = digit_char (n mod 10)"
      by (auto simp: itoa_nat.simps [of n])
    then show ?thesis using 1 False by cases (blast, auto intro!: exI [of _ "n mod 10"])
  qed
qed

lemma itoa_nat_not_Nil [simp]: "itoa_nat n \<noteq> []"
  by (subst itoa_nat.simps) simp

lemma itoa_nat_no: "(of_char c :: nat) < 48 \<or> 57 < (of_char c :: nat) \<Longrightarrow> c \<notin> set (itoa_nat n)"
  using itoa_nat_digits [of c n] by (auto simp: of_char_digit)

lemma Itoa_no_colon [simp]:
  "CHR '':'' \<notin> set (Itoa v)" "CHR '']'' \<notin> set (Itoa v)" "CHR ''['' \<notin> set (Itoa v)"
  by (auto simp: Itoa_def itoa_nat_no)

lemma Atoi_Itoa:
  assumes "int64_range v"
  shows "Atoi (Itoa v) = Some v"
proof (cases "v < 0")
  case True
  then show ?thesis using assms by (simp add: Atoi_def Itoa_def digits_val_itoa_nat)
next
  case False
  have "hd (itoa_nat (nat v)) \<in> set (itoa_nat (nat v))" by simp
  moreover have "CHR ''-'' \<notin> set (itoa_nat (nat v))" "CHR ''+'' \<notin> set (itoa_nat (nat v))"
    by (simp_all add: itoa_nat_no)
  ultimately have "hd (itoa_nat (nat v)) \<noteq> CHR ''-''" "hd (itoa_nat (nat v)) \<noteq> CHR ''+''"
    by metis+
  then show ?thesis using False assms by (simp add: Atoi_def Itoa_def digits_val_itoa_nat)
qed

section \<open>net.SplitHostPort and net.JoinHostPort\<close>

text \<open>Positions of a byte: the last one for the port separator, the first one for \<^verbatim>\<open>]\<close>.\<close>

definition last_index :: "string \<Rightarrow> char \<Rightarrow> nat option" where
  "last_index s c =
     (if c \<in> set s then Some (length s - 1 - length (takeWhile (\<lambda>x. x \<noteq> c) (rev s))) else None)"

definition first_index :: "string \<Rightarrow> char \<Rightarrow> nat option" where
  "first_index s c = (if c \<in> set s then Some (length (takeWhile (\<lambda>x. x \<noteq> c) s)) else None)"

text \<open>\<open>None\<close> stands for the address error, whose text no caller inspects.\<close>

definition net_SplitHostPort :: "string \<Rightarrow> (string \<times> string) option" where
  "net_SplitHostPort hp =
     (case last_index hp (CHR '':'') of
        None \<Rightarrow> None
      | Some i \<Rightarrow>
          if hd hp = CHR ''['' then
            (case first_index hp (CHR '']'') of
               None \<Rightarrow> None
             | Some e \<Rightarrow>
                 if Suc e \<noteq> i then None
                 else if CHR ''['' \<in> set (drop 1 hp) \<or> CHR '']'' \<in> set (drop (Suc e) hp) then None
                 else Some (drop 1 (take e hp), drop (Suc i) hp))
          else
            (if CHR '':'' \<in> set (take i hp) then None
             else if CHR ''['' \<in> set hp \<or> CHR '']'' \<in> set hp then None
             else Some (take i hp, drop (Suc i) hp)))"

definition net_JoinHostPort :: "string \<Rightarrow> string \<Rightarrow> string" where
  "net_JoinHostPort host port =
     (if CHR '':'' \<in> set host then ''['' @ host @ '']:'' @ port
      else host @ '':'' @ port)"

lemma last_index_append:
  assumes "c \<notin> set t"
  shows "last_index (s @ c # t) c = Some (length s)"
proof -
  have "takeWhile (\<lambda>x. x \<noteq> c) (rev t @ c # rev s) = rev t"
    using assms by (simp add: takeWhile_upto)
  then show ?thesis by (simp add: last_index_def)
qed

lemma first_index_append: "c \<notin> set s \<Longrightarrow> first_index (s @ c # t) c = Some (length s)"
  by (simp add: first_index_def takeWhile_upto)

lemma SplitHostPort_plain:
  assumes "\<forall>c \<in> {CHR '':'', CHR ''['', CHR '']''}. c \<notin> set h \<and> c \<notin> set p"
  shows "net_SplitHostPort (h @ '':'' @ p) = Some (h, p)"
proof -
  have "hd (h @ CHR '':'' # p) \<noteq> CHR ''[''" using assms by (cases h) auto
  moreover have "last_index (h @ CHR '':'' # p) (CHR '':'') = Some (length h)"
    using assms by (intro last_index_append) auto
  ultimately show ?thesis using assms by (simp add: net_SplitHostPort_def)
qed

lemma SplitHostPort_bracket:
  assumes "CHR ''['' \<notin> set h" "CHR '']'' \<notin> set h"
    "\<forall>c \<in> {CHR '':'', CHR ''['', CHR '']''}. c \<notin> set p"
  shows "net_SplitHostPort (''['' @ h @ '']:'' @ p) = Some (h, p)"
proof -
  let ?s = "''['' @ h @ '']:'' @ p"
  have "last_index ((CHR ''['' # h @ ['']'' ! 0]) @ CHR '':'' # p) (CHR '':'') = Some (Suc (Suc (length h)))"
    using assms(3) by (subst last_index_append) auto
  then have l: "last_index ?s (CHR '':'') = Some (Suc (Suc (length h)))" by simp
  have "first_index ((CHR ''['' # h) @ CHR '']'' # CHR '':'' # p) (CHR '']'') = Some (Suc (length h))"
    using assms(2) by (subst first_index_append) auto
  then have f: "first_index ?s (CHR '']'') = Some (Suc (length h))" by simp
  show ?thesis using l f assms by (simp add: net_SplitHostPort_def)
qed

text \<open>Splitting undoes joining for every host without brackets, IPv6 literals included.\<close>

lemma Split_JoinHostPort:
  assumes "CHR ''['' \<notin> set h" "CHR '']'' \<notin> set h"
  shows "net_SplitHostPort (net_JoinHostPort h (Itoa v)) = Some (h, Itoa v)"
  using assms SplitHostPort_plain [of h "Itoa v"] SplitHostPort_bracket [of h "Itoa v"]
  by (auto simp: net_JoinHostPort_def)

section \<open>The proxy's address functions\<close>

definition splitHostPort :: "string \<Rightarrow> string \<Rightarrow> int \<Rightarrow> string \<times> int" where
  "splitHostPort urlHost reqHost defaultPort =
     (let h = (if urlHost = [] then reqHost else urlHost)
      in case last_index h (CHR '':'') of
           Some i \<Rightarrow>
             if CHR '']'' \<notin> set (drop i h) then
               (case net_SplitHostPort h of
                  Some (host, portStr) \<Rightarrow>
                    (case Atoi portStr of Some port \<Rightarrow> (host, port) | None \<Rightarrow> (host, defaultPort))
                | None \<Rightarrow> (h, defaultPort))
             else (h, defaultPort)
         | None \<Rightarrow> (h, defaultPort))"

definition srcIPOf :: "string \<Rightarrow> string" where
  "srcIPOf remoteAddr =
     (case net_SplitHostPort remoteAddr of Some (host, _) \<Rightarrow> host | None \<Rightarrow> remoteAddr)"

definition upstreamAddr :: "string \<Rightarrow> string \<Rightarrow> string" where
  "upstreamAddr host origDst =
     (let hostOnly = fst (splitHostPort [] host 0);
          port = snd (splitHostPort [] origDst 0)
      in if hostOnly = [] \<or> port = 0 then origDst
         else net_JoinHostPort hostOnly (Itoa port))"

lemma splitHostPort_join:
  assumes "CHR ''['' \<notin> set h" "CHR '']'' \<notin> set h" "int64_range v"
  shows "splitHostPort [] (net_JoinHostPort h (Itoa v)) d = (h, v)"
proof -
  let ?a = "net_JoinHostPort h (Itoa v)"
  obtain pre where pre: "?a = pre @ CHR '':'' # Itoa v"
    by (cases "CHR '':'' \<in> set h") (auto simp: net_JoinHostPort_def)
  then have "last_index ?a (CHR '':'') = Some (length pre)" by (simp add: last_index_append)
  moreover have "CHR '']'' \<notin> set (drop (length pre) ?a)" using pre by simp
  moreover have "?a \<noteq> []" using pre by simp
  ultimately show ?thesis
    using Split_JoinHostPort [OF assms(1,2), of v] assms(3)
    by (simp add: splitHostPort_def Atoi_Itoa)
qed

lemma SplitHostPort_splits:
  assumes "net_SplitHostPort v = Some (h, p)" "Atoi p = Some port"
  shows "splitHostPort [] v d = (h, port)"
proof -
  obtain i where i: "last_index v (CHR '':'') = Some i"
    using assms(1) by (auto simp: net_SplitHostPort_def split: option.splits)
  have "CHR '']'' \<notin> set (drop i v)"
    using assms(1) i by (auto simp: net_SplitHostPort_def split: option.splits if_splits dest: in_set_dropD)
  then show ?thesis using assms i by (simp add: splitHostPort_def)
qed

lemma splitHostPort_no_colon: "CHR '':'' \<notin> set h \<Longrightarrow> splitHostPort [] h d = (h, d)"
  by (simp add: splitHostPort_def last_index_def)

section \<open>Properties\<close>

text \<open>
  Parsing an address the proxy composed gives back the host and the port, for
  host names, IPv4 and IPv6 literals and any 64-bit port number.
\<close>

theorem splitHostPort_roundtrip:
  assumes "CHR ''['' \<notin> set h" "CHR '']'' \<notin> set h" "int64_range v"
  shows "splitHostPort [] (net_JoinHostPort h (Itoa v)) d = (h, v)"
  using assms by (rule splitHostPort_join)

theorem splitHostPort_roundtrip_witness:
  "splitHostPort [] ''[::1]:8443'' 80 = (''::1'', 8443)"
proof -
  have "net_JoinHostPort ''::1'' (Itoa 8443) = ''[::1]:8443''"
    by (simp add: net_JoinHostPort_def Itoa_def itoa_nat.simps digit_char_def)
  then show ?thesis
    using splitHostPort_roundtrip [of "''::1''" 8443 80] by (simp add: int64_range_def)
qed

end
