(* ===== verification/Egress.thy ===== *)
theory Egress
  imports Glob Netaddr
begin

text \<open>
  The egress policy of the proxy (\<^verbatim>\<open>internal/proxy/proxy.go\<close>): the rules and their
  matching (\<^verbatim>\<open>MatchEgress\<close>), the per-source rule map, the address that is dialled, and
  the deny grace period of \<^verbatim>\<open>awaitEgress\<close> as a step relation between the waiting
  request and concurrent policy updates.
\<close>

section \<open>Rules\<close>

text \<open>
  The body of an override as decoded: a JSON string, a JSON object with its members unparsed, or
  something else, which is ignored.
\<close>

datatype body_override = NoBody | BodyText string | BodyObject "(string \<times> string) list" | BodyIgnored

record EgressOverride =
  ov_Host :: string
  ov_PrefixPath :: string
  ov_Query :: "(string \<times> string) list"
  ov_Headers :: "(string \<times> string) list"
  ov_Body :: body_override
  ov_BodyStrategy :: string

record EgressRule =
  e_Access :: string
  e_Host :: string
  e_Ports :: "int list"
  e_Methods :: "string list"
  e_Paths :: "string list"
  e_Override :: "EgressOverride option"
  e_OverrideScript :: string
  e_Passthrough :: bool

definition matchHost :: "string \<Rightarrow> string \<Rightarrow> bool" where
  "matchHost pat host =
     (let pat = TrimSpace pat
      in if pat = [] \<or> host = [] then False else globMatch pat host)"

definition matchPort :: "int list \<Rightarrow> int \<Rightarrow> bool" where
  "matchPort allowed port = (allowed = [] \<or> list_ex (\<lambda>a. a = port) allowed)"

definition matchMethod :: "string list \<Rightarrow> string \<Rightarrow> bool" where
  "matchMethod allowed method = (allowed = [] \<or> list_ex (\<lambda>a. EqualFold a method) allowed)"

definition matchPath :: "string list \<Rightarrow> string \<Rightarrow> bool" where
  "matchPath allowed path = (allowed = [] \<or> list_ex (\<lambda>a. matchGlob a path) allowed)"

fun match_rules :: "EgressRule list \<Rightarrow> string \<Rightarrow> string \<Rightarrow> int \<Rightarrow> string \<Rightarrow> EgressRule option" where
  "match_rules [] method host port path = None"
| "match_rules (r # rs) method host port path =
     (if \<not> matchHost (e_Host r) host then match_rules rs method host port path
      else if \<not> matchPort (e_Ports r) port then match_rules rs method host port path
      else if path = [] then
        (if e_Access r = ''deny'' \<and> e_Paths r \<noteq> [] then match_rules rs method host port path
         else Some r)
      else if \<not> matchMethod (e_Methods r) method then match_rules rs method host port path
      else if \<not> matchPath (e_Paths r) path then match_rules rs method host port path
      else Some r)"

definition MatchEgress :: "EgressRule list \<Rightarrow> string \<Rightarrow> string \<Rightarrow> int \<Rightarrow> string \<Rightarrow> EgressRule option" where
  "MatchEgress rules method host port path =
     (if host = [] then None else match_rules rules method host port path)"

text \<open>What one rule covers, stated over the meaning of its patterns.\<close>

definition covers :: "EgressRule \<Rightarrow> string \<Rightarrow> string \<Rightarrow> int \<Rightarrow> string \<Rightarrow> bool" where
  "covers r method host port path \<longleftrightarrow>
     TrimSpace (e_Host r) \<noteq> [] \<and> host \<noteq> [] \<and> wild (TrimSpace (e_Host r)) host \<and>
     (e_Ports r = [] \<or> port \<in> set (e_Ports r)) \<and>
     (if path = [] then \<not> (e_Access r = ''deny'' \<and> e_Paths r \<noteq> [])
      else (e_Methods r = [] \<or> (\<exists>m \<in> set (e_Methods r). EqualFold m method)) \<and>
           (e_Paths r = [] \<or>
            (\<exists>p \<in> set (e_Paths r). wild_segs (Split slash p) (Split slash path))))"

lemma match_rules_find:
  "host \<noteq> [] \<Longrightarrow>
   match_rules rules method host port path = find (\<lambda>r. covers r method host port path) rules"
  by (induction rules)
     (auto simp: covers_def matchHost_def matchPort_def matchMethod_def matchPath_def
       Let_def list_ex_iff globMatch_wild matchGlob_def matchSegments_wild)

lemma covers_host: "covers r method host port path \<Longrightarrow> host \<noteq> []"
  by (simp add: covers_def)

lemma MatchEgress_find:
  "MatchEgress rules method host port path = find (\<lambda>r. covers r method host port path) rules"
  by (auto simp: MatchEgress_def match_rules_find covers_def find_None_iff2)

section \<open>The decision for one request\<close>

text \<open>The closure \<^verbatim>\<open>match\<close> of \<^verbatim>\<open>awaitEgress\<close>: the first match, if it is an allow rule.\<close>

definition match_allow :: "EgressRule list \<Rightarrow> string \<Rightarrow> string \<Rightarrow> int \<Rightarrow> string \<Rightarrow> EgressRule option" where
  "match_allow rules method host port path =
     (case MatchEgress rules method host port path of
        Some r \<Rightarrow> if e_Access r = ''allow'' then Some r else None
      | None \<Rightarrow> None)"

lemma match_allow_Some:
  assumes "match_allow rules method host port path = Some r"
  shows "r \<in> set rules" "e_Access r = ''allow''" "covers r method host port path"
    "MatchEgress rules method host port path = Some r"
  using assms
  by (auto simp: match_allow_def MatchEgress_find find_Some_iff split: option.splits if_splits)

text \<open>
  Decomposition at the first match: the rules before it do not cover the request.
\<close>

lemma match_allow_split:
  assumes "match_allow rules method host port path = Some r"
  obtains pre post where "rules = pre @ r # post"
    "\<forall>q \<in> set pre. \<not> covers q method host port path"
    "covers r method host port path" "e_Access r = ''allow''"
proof -
  have f: "find (\<lambda>r. covers r method host port path) rules = Some r"
    using match_allow_Some(4) [OF assms] by (simp add: MatchEgress_find)
  then obtain i where i: "i < length rules" "rules ! i = r"
    "\<forall>j < i. \<not> covers (rules ! j) method host port path"
    by (auto simp: find_Some_iff)
  have "rules = take i rules @ r # drop (Suc i) rules"
    using id_take_nth_drop [OF i(1)] i(2) by simp
  moreover have "\<forall>q \<in> set (take i rules). \<not> covers q method host port path"
    using i by (auto simp: in_set_conv_nth)
  ultimately show thesis using that match_allow_Some [OF assms] by blast
qed

text \<open>
  A deny rule that restricts methods but not paths cannot be postponed to the HTTP
  level: at connection level it is taken as it stands.
\<close>

definition postponable :: "EgressRule \<Rightarrow> bool" where
  "postponable r \<longleftrightarrow> (e_Access r = ''deny'' \<and> e_Methods r \<noteq> [] \<longrightarrow> e_Paths r \<noteq> [])"

definition known_access :: "EgressRule \<Rightarrow> bool" where
  "known_access r \<longleftrightarrow> e_Access r = ''allow'' \<or> e_Access r = ''deny''"

text \<open>
  Widening a rule to connection level: a deny rule with a path list is skipped, a deny
  rule without one covers at connection level only what it covers at every path.
\<close>

lemma covers_connection:
  assumes "covers r m host port p" "p \<noteq> []" "e_Access r = ''allow''"
  shows "covers r m' host port []"
  using assms by (auto simp: covers_def)

lemma covers_connection_deny:
  assumes "covers r m' host port []" "e_Access r = ''deny''" "postponable r" "p \<noteq> []"
  shows "covers r m host port p"
  using assms by (auto simp: covers_def postponable_def split: if_splits)

lemma find_first_of:
  assumes "rules = pre @ r # post" "\<forall>q \<in> set pre. P q \<longrightarrow> R q" "P r" "R r"
  shows "\<exists>q. find P rules = Some q \<and> R q"
  using assms by (induction pre arbitrary: rules) auto

lemma connection_not_blocked:
  assumes "match_allow rules m host port p = Some r" "p \<noteq> []"
    and "\<forall>q \<in> set rules. known_access q \<and> postponable q"
  shows "\<exists>q. match_allow rules m' host port [] = Some q"
proof -
  obtain pre post where d: "rules = pre @ r # post"
    "\<forall>q \<in> set pre. \<not> covers q m host port p" "covers r m host port p" "e_Access r = ''allow''"
    using match_allow_split [OF assms(1)] .
  have "\<forall>q \<in> set pre. covers q m' host port [] \<longrightarrow> e_Access q = ''allow''"
  proof (intro ballI impI)
    fix q assume q: "q \<in> set pre" "covers q m' host port []"
    then have "known_access q" "postponable q" using d(1) assms(3) by auto
    then show "e_Access q = ''allow''"
      using q d(2) covers_connection_deny [OF q(2) _ _ assms(2)] by (auto simp: known_access_def)
  qed
  then obtain q where "find (\<lambda>r. covers r m' host port []) rules = Some q" "e_Access q = ''allow''"
    using find_first_of [OF d(1), of "\<lambda>r. covers r m' host port []" "\<lambda>q. e_Access q = ''allow''"]
      covers_connection [OF d(3) assms(2) d(4)] d(4) by auto
  then show ?thesis by (auto simp: match_allow_def MatchEgress_find)
qed

section \<open>Rules by source\<close>

text \<open>The policy pointers: \<open>None\<close> is the nil pointer before the first store.\<close>

record policy_state =
  bySource :: "(string \<rightharpoonup> EgressRule list) option"
  denyWait :: "(string \<rightharpoonup> int) option"

definition SetRulesBySource :: "(string \<rightharpoonup> EgressRule list) \<Rightarrow> policy_state \<Rightarrow> policy_state" where
  "SetRulesBySource m p = p\<lparr>bySource := Some m\<rparr>"

definition SetRules :: "EgressRule list \<Rightarrow> policy_state \<Rightarrow> policy_state" where
  "SetRules rules p = SetRulesBySource [[] \<mapsto> rules] p"

definition SetDenyWaitBySource :: "(string \<rightharpoonup> int) \<Rightarrow> policy_state \<Rightarrow> policy_state" where
  "SetDenyWaitBySource m p = p\<lparr>denyWait := Some m\<rparr>"

definition rulesForSource :: "policy_state \<Rightarrow> string \<Rightarrow> EgressRule list" where
  "rulesForSource p srcIP =
     (case bySource p of
        None \<Rightarrow> []
      | Some m \<Rightarrow> (case m srcIP of
                    Some rs \<Rightarrow> rs
                  | None \<Rightarrow> (case m [] of Some rs \<Rightarrow> rs | None \<Rightarrow> [])))"

definition denyWaitForSource :: "policy_state \<Rightarrow> string \<Rightarrow> int" where
  "denyWaitForSource p srcIP =
     (case denyWait p of
        None \<Rightarrow> 0
      | Some m \<Rightarrow> (case m srcIP of
                    Some d \<Rightarrow> d
                  | None \<Rightarrow> (case m [] of Some d \<Rightarrow> d | None \<Rightarrow> 0)))"

text \<open>\<^verbatim>\<open>dialTarget\<close>: the upstream substituted by \<^verbatim>\<open>override.host\<close>.\<close>

definition dialTarget :: "EgressRule option \<Rightarrow> string \<Rightarrow> string" where
  "dialTarget rule dflt =
     (case rule of
        None \<Rightarrow> dflt
      | Some r \<Rightarrow>
          (case e_Override r of
             None \<Rightarrow> dflt
           | Some ov \<Rightarrow>
               if ov_Host ov = [] then dflt
               else (let (host, port0) = splitHostPort [] (ov_Host ov) 0;
                         port = (if port0 = 0 then snd (splitHostPort [] dflt 0) else port0)
                     in if host = [] then dflt
                        else if port = 0 then host
                        else net_JoinHostPort host (Itoa port))))"

section \<open>awaitEgress: waiting for a policy change\<close>

text \<open>
  The request's program counter: before its first match, after it missed and before
  the grace period is read, at the top of the loop, between capturing the broadcast
  channel and matching, in the \<^verbatim>\<open>select\<close>, and returned.  Concurrently
  \<^verbatim>\<open>SetRulesBySource\<close> stores new rules and then closes the channel
  (\<^verbatim>\<open>notifyPolicyChange\<close>), as two separate steps.  The broadcast channel is represented
  by the number of times it has been closed and replaced: a captured channel is closed
  once that number has grown past the captured one.
\<close>

record egress_request =
  q_src :: string
  q_method :: string
  q_host :: string
  q_port :: int
  q_path :: string

datatype deny_event = DenyRequest | DenyResponse

datatype await_pc = AwStart | AwDecide | AwLoop | AwMatch | AwSelect | AwDone "EgressRule option"

record await_state =
  aw_policy :: policy_state
  aw_gen :: nat
  aw_stored :: nat
  aw_pc :: await_pc
  aw_cap :: nat
  aw_log :: "deny_event list"

definition allowed_now :: "egress_request \<Rightarrow> policy_state \<Rightarrow> EgressRule option" where
  "allowed_now q p =
     match_allow (rulesForSource p (q_src q)) (q_method q) (q_host q) (q_port q) (q_path q)"

definition await_init :: "policy_state \<Rightarrow> await_state" where
  "await_init p = \<lparr>aw_policy = p, aw_gen = 0, aw_stored = 0, aw_pc = AwStart, aw_cap = 0, aw_log = []\<rparr>"

inductive await_step :: "egress_request \<Rightarrow> await_state \<Rightarrow> await_state \<Rightarrow> bool" for q where
  aw_store: "await_step q s (s\<lparr>aw_policy := SetRulesBySource m (aw_policy s), aw_stored := Suc (aw_stored s)\<rparr>)"
| aw_notify: "aw_stored s = Suc n \<Longrightarrow> await_step q s (s\<lparr>aw_stored := n, aw_gen := Suc (aw_gen s)\<rparr>)"
| aw_set_wait: "await_step q s (s\<lparr>aw_policy := SetDenyWaitBySource w (aw_policy s)\<rparr>)"
| aw_start_hit: "aw_pc s = AwStart \<Longrightarrow> allowed_now q (aw_policy s) = Some r \<Longrightarrow>
     await_step q s (s\<lparr>aw_pc := AwDone (Some r)\<rparr>)"
| aw_start_miss: "aw_pc s = AwStart \<Longrightarrow> allowed_now q (aw_policy s) = None \<Longrightarrow>
     await_step q s (s\<lparr>aw_pc := AwDecide\<rparr>)"
| aw_deny: "aw_pc s = AwDecide \<Longrightarrow> denyWaitForSource (aw_policy s) (q_src q) \<le> 0 \<Longrightarrow>
     await_step q s (s\<lparr>aw_pc := AwDone None, aw_log := aw_log s @ [DenyRequest, DenyResponse]\<rparr>)"
| aw_hold: "aw_pc s = AwDecide \<Longrightarrow> 0 < denyWaitForSource (aw_policy s) (q_src q) \<Longrightarrow>
     await_step q s (s\<lparr>aw_pc := AwLoop, aw_log := aw_log s @ [DenyRequest]\<rparr>)"
| aw_capture: "aw_pc s = AwLoop \<Longrightarrow> await_step q s (s\<lparr>aw_pc := AwMatch, aw_cap := aw_gen s\<rparr>)"
| aw_hit: "aw_pc s = AwMatch \<Longrightarrow> allowed_now q (aw_policy s) = Some r \<Longrightarrow>
     await_step q s (s\<lparr>aw_pc := AwDone (Some r)\<rparr>)"
| aw_miss: "aw_pc s = AwMatch \<Longrightarrow> allowed_now q (aw_policy s) = None \<Longrightarrow>
     await_step q s (s\<lparr>aw_pc := AwSelect\<rparr>)"
| aw_wake: "aw_pc s = AwSelect \<Longrightarrow> aw_cap s < aw_gen s \<Longrightarrow> await_step q s (s\<lparr>aw_pc := AwLoop\<rparr>)"
| aw_expire: "aw_pc s = AwSelect \<Longrightarrow>
     await_step q s (s\<lparr>aw_pc := AwDone None, aw_log := aw_log s @ [DenyResponse]\<rparr>)"

text \<open>The audit events emitted at each point, and the rule a successful wait returns.\<close>

definition await_log_ok :: "egress_request \<Rightarrow> await_state \<Rightarrow> bool" where
  "await_log_ok q s \<longleftrightarrow>
     (case aw_pc s of
        AwStart \<Rightarrow> aw_log s = []
      | AwDecide \<Rightarrow> aw_log s = []
      | AwLoop \<Rightarrow> aw_log s = [DenyRequest]
      | AwMatch \<Rightarrow> aw_log s = [DenyRequest]
      | AwSelect \<Rightarrow> aw_log s = [DenyRequest]
      | AwDone None \<Rightarrow> aw_log s = [DenyRequest, DenyResponse]
      | AwDone (Some r) \<Rightarrow>
          (aw_log s = [] \<or> aw_log s = [DenyRequest]) \<and> e_Access r = ''allow'' \<and>
          covers r (q_method q) (q_host q) (q_port q) (q_path q))"

text \<open>No wake-up is lost: a request parked under a policy that would now admit it has
  its channel closed already, or the store that changed the policy is about to close it.\<close>

definition await_no_lost :: "egress_request \<Rightarrow> await_state \<Rightarrow> bool" where
  "await_no_lost q s \<longleftrightarrow>
     aw_cap s \<le> aw_gen s \<and>
     (aw_pc s = AwSelect \<and> allowed_now q (aw_policy s) \<noteq> None \<longrightarrow>
        aw_cap s < aw_gen s \<or> 0 < aw_stored s)"

lemma allowed_now_Some:
  assumes "allowed_now q p = Some r"
  shows "e_Access r = ''allow''" "covers r (q_method q) (q_host q) (q_port q) (q_path q)"
    "r \<in> set (rulesForSource p (q_src q))"
  using match_allow_Some [OF assms [unfolded allowed_now_def]] by auto

lemma allowed_now_wait [simp]: "allowed_now q (SetDenyWaitBySource w p) = allowed_now q p"
  by (simp add: allowed_now_def SetDenyWaitBySource_def rulesForSource_def)

lemma await_step_log:
  assumes "await_step q s t" "await_log_ok q s"
  shows "await_log_ok q t"
  using assms
  by (cases rule: await_step.cases; cases "aw_pc s")
     (auto simp: await_log_ok_def allowed_now_Some split: option.splits)

lemma await_step_no_lost: "await_step q s t \<Longrightarrow> await_no_lost q s \<Longrightarrow> await_no_lost q t"
  by (induction rule: await_step.induct) (auto simp: await_no_lost_def)

interpretation await: invariant_system
  "\<lambda>s. \<exists>p. s = await_init p" "await_step q" "\<lambda>s. await_log_ok q s \<and> await_no_lost q s" for q
proof
  show "await_log_ok q s \<and> await_no_lost q s" if "\<exists>p. s = await_init p" for s
    using that by (auto simp: await_init_def await_log_ok_def await_no_lost_def)
qed (auto intro: await_step_log await_step_no_lost)

section \<open>Properties\<close>

text \<open>The policy the concrete instances below are taken at.\<close>

definition sample_deny :: EgressRule where
  "sample_deny = \<lparr>e_Access = ''deny'', e_Host = ''*.b.io'', e_Ports = [443], e_Methods = [''POST''],
     e_Paths = [''/x''], e_Override = None, e_OverrideScript = [], e_Passthrough = False\<rparr>"

definition sample_allow :: EgressRule where
  "sample_allow = \<lparr>e_Access = ''allow'', e_Host = ''*.b.io'', e_Ports = [80, 443], e_Methods = [''get''],
     e_Paths = [], e_Override = None, e_OverrideScript = [], e_Passthrough = False\<rparr>"

definition sample_request :: egress_request where
  "sample_request = \<lparr>q_src = ''10.0.0.2'', q_method = ''GET'', q_host = ''a.b.io'', q_port = 443, q_path = ''/''\<rparr>"

lemmas sample_defs = sample_deny_def sample_allow_def sample_request_def

lemma sample_method: "EqualFold ''get'' ''GET''" "\<not> EqualFold ''POST'' ''GET''"
  by code_simp+

lemma sample_host: "matchHost ''*.b.io'' ''a.b.io''"
  by code_simp

lemma sample_match:
  "match_allow [sample_deny, sample_allow] ''GET'' ''a.b.io'' 443 ''/'' = Some sample_allow"
  by (simp add: sample_defs match_allow_def MatchEgress_def sample_host sample_method
    matchPort_def matchMethod_def matchPath_def)

text \<open>A run of the waiting request up to the announcement of the rules that admit it.\<close>

definition sample_wait :: policy_state where
  "sample_wait = \<lparr>bySource = None, denyWait = Some [''10.0.0.2'' \<mapsto> 5]\<rparr>"

definition sample_parked :: await_state where
  "sample_parked = (await_init (SetRulesBySource [''10.0.0.2'' \<mapsto> [sample_deny, sample_allow]] sample_wait))
     \<lparr>aw_pc := AwSelect, aw_gen := 1, aw_log := [DenyRequest]\<rparr>"

lemma sample_allowed:
  "allowed_now sample_request (aw_policy sample_parked) = Some sample_allow"
  "allowed_now sample_request sample_wait = None"
  using sample_match
  by (simp_all add: sample_parked_def await_init_def allowed_now_def rulesForSource_def
    SetRulesBySource_def sample_request_def sample_wait_def match_allow_def MatchEgress_def)

lemma sample_wait_pos: "0 < denyWaitForSource sample_wait (q_src sample_request)"
  by (simp add: denyWaitForSource_def sample_wait_def sample_request_def)

lemma sample_run: "(await_step sample_request)\<^sup>*\<^sup>* (await_init sample_wait) sample_parked"
proof -
  let ?q = sample_request and ?s0 = "await_init sample_wait"
  let ?s1 = "?s0\<lparr>aw_pc := AwDecide\<rparr>"
  let ?s2 = "?s1\<lparr>aw_pc := AwLoop, aw_log := aw_log ?s1 @ [DenyRequest]\<rparr>"
  let ?s3 = "?s2\<lparr>aw_pc := AwMatch, aw_cap := aw_gen ?s2\<rparr>"
  let ?s4 = "?s3\<lparr>aw_pc := AwSelect\<rparr>"
  let ?s5 = "?s4\<lparr>aw_policy := SetRulesBySource [''10.0.0.2'' \<mapsto> [sample_deny, sample_allow]] (aw_policy ?s4),
               aw_stored := Suc (aw_stored ?s4)\<rparr>"
  let ?s6 = "?s5\<lparr>aw_stored := 0, aw_gen := Suc (aw_gen ?s5)\<rparr>"
  have st: "await_step ?q ?s0 ?s1" "await_step ?q ?s1 ?s2" "await_step ?q ?s2 ?s3" "await_step ?q ?s3 ?s4"
    "await_step ?q ?s4 ?s5" "await_step ?q ?s5 ?s6"
    by (rule await_step.intros; simp add: await_init_def sample_allowed sample_wait_pos)+
  have "?s6 = sample_parked" by (simp add: sample_parked_def await_init_def)
  with st show ?thesis by (auto intro!: converse_rtranclp_into_rtranclp)
qed

lemma sample_reach:
  "reachable (\<lambda>s. \<exists>p. s = await_init p) (await_step sample_request) sample_parked"
  by (rule reachable_star [OF sample_run]) (blast intro: reach_init)

text \<open>
  C4: the rule chosen for a request is the first of the list whose host pattern, port
  list and (once a path is known) method and path lists cover it; at connection level,
  where the path is still unknown, a deny rule with a path list is passed over.
\<close>

theorem MatchEgress_first_covering:
  "MatchEgress rules method host port path = find (\<lambda>r. covers r method host port path) rules"
  by (rule MatchEgress_find)

text \<open>
  A request the HTTP-level check admits is never blocked by the connection-level
  check that precedes it, whatever method label that check uses, when every deny rule
  that lists methods also lists paths.
\<close>

theorem connection_level_permits:
  assumes "match_allow rules m host port p = Some r" "p \<noteq> []"
    and "\<forall>q \<in> set rules. (e_Access q = ''allow'' \<or> e_Access q = ''deny'')
           \<and> (e_Access q = ''deny'' \<and> e_Methods q \<noteq> [] \<longrightarrow> e_Paths q \<noteq> [])"
  shows "\<exists>q. match_allow rules m' host port [] = Some q"
  using connection_not_blocked [OF assms(1,2)] assms(3)
  by (simp add: known_access_def postponable_def)

theorem connection_level_permits_witness:
  "\<exists>q. match_allow [sample_deny, sample_allow] ''CONNECT'' ''a.b.io'' 443 [] = Some q"
  by (rule connection_level_permits [OF sample_match]) (simp_all add: sample_defs)

text \<open>
  In every interleaving of a held request with policy stores and notifications, a
  denied request emits exactly one request deny followed by one response deny, an
  admitted one emits no response deny and is admitted by an allow rule covering it,
  and no policy change that admits a parked request is ever missed.
\<close>

theorem awaitEgress_invariant:
  assumes "reachable (\<lambda>s. \<exists>p. s = await_init p) (await_step q) s"
  shows "await_log_ok q s \<and> await_no_lost q s"
  using assms by (rule await.reach_inv)

theorem awaitEgress_invariant_witness:
  "await_log_ok sample_request sample_parked \<and> await_no_lost sample_request sample_parked"
  by (rule awaitEgress_invariant [OF sample_reach])

text \<open>
  C10: a parked request whose policy now admits it, with the change announced, reaches
  the allow rule in three of its own steps (wake, capture, match).
\<close>

theorem awaitEgress_wakes:
  assumes "reachable (\<lambda>s. \<exists>p. s = await_init p) (await_step q) s" "aw_pc s = AwSelect" "aw_stored s = 0"
    and "allowed_now q (aw_policy s) = Some r"
  shows "\<exists>s1 s2 s3. await_step q s s1 \<and> await_step q s1 s2 \<and> await_step q s2 s3
           \<and> aw_pc s3 = AwDone (Some r) \<and> aw_log s3 = [DenyRequest]"
proof -
  have "aw_cap s < aw_gen s" "aw_log s = [DenyRequest]"
    using await.reach_inv [OF assms(1)] assms(2-4) by (auto simp: await_no_lost_def await_log_ok_def)
  define s1 where "s1 = s\<lparr>aw_pc := AwLoop\<rparr>"
  define s2 where "s2 = s1\<lparr>aw_pc := AwMatch, aw_cap := aw_gen s1\<rparr>"
  have "await_step q s s1" unfolding s1_def by (rule aw_wake) fact+
  moreover have "await_step q s1 s2" unfolding s2_def by (rule aw_capture) (simp add: s1_def)
  moreover have "await_step q s2 (s2\<lparr>aw_pc := AwDone (Some r)\<rparr>)"
    by (rule aw_hit) (simp_all add: s1_def s2_def assms(4))
  ultimately show ?thesis
    using \<open>aw_log s = [DenyRequest]\<close>
    by (intro exI [of _ s1] exI [of _ s2] exI [of _ "s2\<lparr>aw_pc := AwDone (Some r)\<rparr>"])
       (simp add: s1_def s2_def)
qed

theorem awaitEgress_wakes_witness:
  "\<exists>s1 s2 s3. await_step sample_request sample_parked s1 \<and> await_step sample_request s1 s2
     \<and> await_step sample_request s2 s3
     \<and> aw_pc s3 = AwDone (Some sample_allow) \<and> aw_log s3 = [DenyRequest]"
  by (rule awaitEgress_wakes [OF sample_reach _ _ sample_allowed(1)])
     (simp_all add: sample_parked_def await_init_def)

text \<open>
  On a per-source rule map without an all-sources bucket, a source is governed by
  its own bucket only: replacing any other source's rules leaves every decision for it
  unchanged, and a source with no bucket is denied everything.
\<close>

theorem per_source_isolation:
  assumes "m [] = None" "src \<noteq> other" "other \<noteq> []"
  shows "rulesForSource (SetRulesBySource (m(other \<mapsto> rs)) p) src =
           rulesForSource (SetRulesBySource m p) src
       \<and> (m src = None \<longrightarrow>
            match_allow (rulesForSource (SetRulesBySource m p) src) method host port path = None)"
  using assms
  by (auto simp: rulesForSource_def SetRulesBySource_def match_allow_def MatchEgress_def
    split: option.splits)

theorem per_source_isolation_witness:
  "rulesForSource (SetRulesBySource ([''10.0.0.2'' \<mapsto> [sample_deny], ''10.0.0.3'' \<mapsto> [sample_allow]]) sample_wait) ''10.0.0.2''
     = rulesForSource (SetRulesBySource [''10.0.0.2'' \<mapsto> [sample_deny]] sample_wait) ''10.0.0.2''"
  using per_source_isolation [of "[''10.0.0.2'' \<mapsto> [sample_deny]]" "''10.0.0.2''" "''10.0.0.3''"
    "[sample_allow]" sample_wait] by simp

text \<open>
  An override host without a port keeps the port that would have been dialled and
  one with a port replaces both; a rule without an override changes nothing.
\<close>

theorem dialTarget_override:
  assumes "o_host \<noteq> []" "\<forall>c \<in> {CHR '':'', CHR ''['', CHR '']''}. c \<notin> set o_host"
    and "CHR ''['' \<notin> set d_host" "CHR '']'' \<notin> set d_host"
    and "int64_range v" "int64_range w" "v \<noteq> 0" "w \<noteq> 0"
    and "e_Override r = Some ov"
  shows "dialTarget (Some (r\<lparr>e_Override := None\<rparr>)) d = d
       \<and> (ov_Host ov = o_host \<longrightarrow>
            dialTarget (Some r) (net_JoinHostPort d_host (Itoa v)) = net_JoinHostPort o_host (Itoa v))
       \<and> (ov_Host ov = net_JoinHostPort o_host (Itoa w) \<longrightarrow>
            dialTarget (Some r) d = net_JoinHostPort o_host (Itoa w))"
proof -
  have ne: "net_JoinHostPort o_host (Itoa w) \<noteq> []" by (simp add: net_JoinHostPort_def)
  show ?thesis
    using assms ne splitHostPort_join [of d_host v] splitHostPort_join [of o_host w]
      splitHostPort_no_colon [of o_host 0]
    by (simp add: dialTarget_def)
qed

theorem dialTarget_override_witness:
  "dialTarget (Some (sample_allow\<lparr>e_Override := Some \<lparr>ov_Host = ''mirror'', ov_PrefixPath = [],
      ov_Query = [], ov_Headers = [], ov_Body = NoBody, ov_BodyStrategy = []\<rparr>\<rparr>)) (net_JoinHostPort ''a.b.io'' (Itoa 443))
   = net_JoinHostPort ''mirror'' (Itoa 443)"
  using dialTarget_override [of "''mirror''" "''a.b.io''" 443 8080
    "sample_allow\<lparr>e_Override := Some \<lparr>ov_Host = ''mirror'', ov_PrefixPath = [],
      ov_Query = [], ov_Headers = [], ov_Body = NoBody, ov_BodyStrategy = []\<rparr>\<rparr>" _ "[]"]
  by (simp add: int64_range_def)

end
