(* ===== verification/Bytes.thy ===== *)
theory Bytes
  imports Prelude
begin

unbundle bit_operations_syntax

text \<open>
  Byte streams as the framed protocols use them: \<^verbatim>\<open>io.Reader\<close> as the bytes still to come
  (the stream ends after them), \<^verbatim>\<open>io.ReadFull\<close> with its two end-of-stream errors,
  \<^verbatim>\<open>io.Writer\<close> as the bytes written so far with an optional point at which the
  destination stops accepting, and \<^verbatim>\<open>encoding/binary\<close>'s big-endian integers.
\<close>

type_synonym byte = "8 word"

datatype io_error = EOF | ErrUnexpectedEOF | WriteFailed

section \<open>Readers and writers\<close>

definition ReadFull :: "byte list \<Rightarrow> nat \<Rightarrow> (io_error + byte list) \<times> byte list" where
  "ReadFull r n =
     (if n = 0 then (Inr [], r)
      else if r = [] then (Inl EOF, [])
      else if length r < n then (Inl ErrUnexpectedEOF, [])
      else (Inr (take n r), drop n r))"

lemma ReadFull_append [simp]: "length d = n \<Longrightarrow> ReadFull (d @ rest) n = (Inr d, rest)"
  by (auto simp: ReadFull_def)

lemma ReadFull_InrD: "ReadFull r n = (Inr d, r') \<Longrightarrow> r = d @ r' \<and> length d = n"
  by (auto simp: ReadFull_def split: if_splits)

lemma ReadFull_InlD: "ReadFull r n = (Inl e, r') \<Longrightarrow> length r < n \<and> r' = [] \<and> e = (if r = [] then EOF else ErrUnexpectedEOF)"
  by (auto simp: ReadFull_def split: if_splits)

record writer =
  w_out :: "byte list"
  w_cap :: "nat option"

definition Write :: "writer \<Rightarrow> byte list \<Rightarrow> io_error option \<times> writer" where
  "Write w p =
     (case w_cap w of
        None \<Rightarrow> (None, w\<lparr>w_out := w_out w @ p\<rparr>)
      | Some c \<Rightarrow>
          if length (w_out w @ p) \<le> c then (None, w\<lparr>w_out := w_out w @ p\<rparr>)
          else (Some WriteFailed, w\<lparr>w_out := w_out w @ take (c - length (w_out w)) p\<rparr>))"

text \<open>How much of a byte sequence the destination still accepts.\<close>

definition accepts :: "writer \<Rightarrow> byte list \<Rightarrow> bool" where
  "accepts w p \<longleftrightarrow> (case w_cap w of None \<Rightarrow> True | Some c \<Rightarrow> length (w_out w) + length p \<le> c)"

lemma Write_accepts: "accepts w p \<Longrightarrow> Write w p = (None, w\<lparr>w_out := w_out w @ p\<rparr>)"
  by (auto simp: accepts_def Write_def split: option.splits)

lemma accepts_prefix: "accepts w (p @ q) \<Longrightarrow> accepts w p"
  by (auto simp: accepts_def split: option.splits)

lemma accepts_rest: "accepts w (p @ q) \<Longrightarrow> accepts (w\<lparr>w_out := w_out w @ p\<rparr>) q"
  by (auto simp: accepts_def split: option.splits)

text \<open>A write adds a prefix of what it was given, all of it when it reports no error.\<close>

lemma Write_out:
  assumes "Write w p = (e, w')"
  shows "\<exists>q. w_out w' = w_out w @ q \<and> prefix q p \<and> (e = None \<longrightarrow> q = p) \<and> w_cap w' = w_cap w"
  using assms by (auto simp: Write_def take_is_prefix split: option.splits if_splits)

section \<open>Big-endian integers\<close>

definition PutUint16 :: "16 word \<Rightarrow> byte list" where
  "PutUint16 v = [ucast (drop_bit 8 v), ucast v]"

definition Uint16 :: "byte list \<Rightarrow> 16 word" where
  "Uint16 b = ucast (b ! 1) OR push_bit 8 (ucast (b ! 0))"

definition PutUint32 :: "32 word \<Rightarrow> byte list" where
  "PutUint32 v = [ucast (drop_bit 24 v), ucast (drop_bit 16 v), ucast (drop_bit 8 v), ucast v]"

definition Uint32 :: "byte list \<Rightarrow> 32 word" where
  "Uint32 b = ucast (b ! 3) OR push_bit 8 (ucast (b ! 2)) OR push_bit 16 (ucast (b ! 1))
     OR push_bit 24 (ucast (b ! 0))"

definition PutUint64 :: "64 word \<Rightarrow> byte list" where
  "PutUint64 v = [ucast (drop_bit 56 v), ucast (drop_bit 48 v), ucast (drop_bit 40 v), ucast (drop_bit 32 v),
     ucast (drop_bit 24 v), ucast (drop_bit 16 v), ucast (drop_bit 8 v), ucast v]"

definition Uint64 :: "byte list \<Rightarrow> 64 word" where
  "Uint64 b = ucast (b ! 7) OR push_bit 8 (ucast (b ! 6)) OR push_bit 16 (ucast (b ! 5))
     OR push_bit 24 (ucast (b ! 4)) OR push_bit 32 (ucast (b ! 3)) OR push_bit 40 (ucast (b ! 2))
     OR push_bit 48 (ucast (b ! 1)) OR push_bit 56 (ucast (b ! 0))"

lemma length_PutUint [simp]:
  "length (PutUint16 a) = 2" "length (PutUint32 b) = 4" "length (PutUint64 c) = 8"
  by (simp_all add: PutUint16_def PutUint32_def PutUint64_def)

lemma Uint16_PutUint16 [simp]: "Uint16 (PutUint16 v) = v"
  unfolding Uint16_def PutUint16_def by (rule bit_word_eqI) (auto simp: bit_simps)

text \<open>The byte a bit position lies in, with its offset there.\<close>

lemma bit_byte: obtains k m where "n = 8 * k + m" "m < (8::nat)" "k = n div 8"
  using that [of "n div 8" "n mod 8"] by simp

lemma Uint32_PutUint32 [simp]: "Uint32 (PutUint32 v) = v"
proof (rule bit_word_eqI)
  fix n :: nat assume "n < LENGTH(32)"
  moreover obtain k m where km: "n = 8 * k + m" "m < (8::nat)" by (rule bit_byte)
  ultimately have "k \<in> {0, 1, 2, 3}" by auto
  with km show "bit (Uint32 (PutUint32 v)) n = bit v n"
    by (elim insertE) (simp_all add: Uint32_def PutUint32_def bit_simps)
qed

lemma Uint64_PutUint64 [simp]: "Uint64 (PutUint64 v) = v"
proof (rule bit_word_eqI)
  fix n :: nat assume "n < LENGTH(64)"
  moreover obtain k m where km: "n = 8 * k + m" "m < (8::nat)" by (rule bit_byte)
  ultimately have "k \<in> {0, 1, 2, 3, 4, 5, 6, 7}" by auto
  with km show "bit (Uint64 (PutUint64 v)) n = bit v n"
    by (elim insertE) (simp_all add: Uint64_def PutUint64_def bit_simps)
qed

lemma bit_byte_high: "8 \<le> n \<Longrightarrow> \<not> bit (b :: byte) n"
  using bit_imp_le_length [of b n] by auto

lemma PutUint32_Uint32: "length b = 4 \<Longrightarrow> PutUint32 (Uint32 b) = b"
proof -
  assume "length b = 4"
  then obtain b0 b1 b2 b3 where b: "b = [b0, b1, b2, b3]"
    by (auto simp: length_Suc_conv numeral_eq_Suc)
  show ?thesis
    unfolding b PutUint32_def Uint32_def
    by (auto intro!: bit_word_eqI simp: bit_simps bit_byte_high)
qed

lemma unat_of_nat_small: "n < 2 ^ LENGTH('a) \<Longrightarrow> unat (of_nat n :: 'a::len word) = n"
  by (simp add: unat_of_nat)

end
