(* ===== verification/Vsock.thy ===== *)
theory Vsock
  imports Bytes
begin

text \<open>
  The framed protocols between host and guest agent: \<^verbatim>\<open>internal/vsockexec/proto.go\<close> (exec
  sessions) and \<^verbatim>\<open>internal/vsockfile/proto.go\<close> (file operations).  Both packages define
  their own frame types and their own \<^verbatim>\<open>WriteFrame\<close> and \<^verbatim>\<open>ReadFrame\<close>; the locale
  \<open>frame_codec\<close> states what a session relies on and is interpreted for each.
\<close>

section \<open>The codec interface\<close>

datatype frame_error =
    FrameIO io_error
  | FrameTooLarge string nat nat
  | FrameLength string nat nat
  | FrameMarshal string

type_synonym frame = "byte \<times> byte list"

text \<open>Writing frames in order stops at the first error; reading stops at the first error,
  which for a session ending on a frame boundary is the clean end of the stream.\<close>

fun write_frames :: "(writer \<Rightarrow> byte \<Rightarrow> byte list \<Rightarrow> frame_error option \<times> writer)
    \<Rightarrow> writer \<Rightarrow> frame list \<Rightarrow> frame_error option \<times> writer" where
  "write_frames put w [] = (None, w)"
| "write_frames put w ((t, p) # fs) =
     (case put w t p of
        (None, w') \<Rightarrow> write_frames put w' fs
      | (Some e, w') \<Rightarrow> (Some e, w'))"

fun read_frames :: "(byte list \<Rightarrow> (frame_error + frame) \<times> byte list)
    \<Rightarrow> nat \<Rightarrow> byte list \<Rightarrow> frame list \<times> frame_error option" where
  "read_frames get 0 r = ([], None)"
| "read_frames get (Suc n) r =
     (case get r of
        (Inl e, r') \<Rightarrow> ([], Some e)
      | (Inr f, r') \<Rightarrow> (let (fs, e) = read_frames get n r' in (f # fs, e)))"

locale frame_codec =
  fixes put :: "writer \<Rightarrow> byte \<Rightarrow> byte list \<Rightarrow> frame_error option \<times> writer"
    and get :: "byte list \<Rightarrow> (frame_error + frame) \<times> byte list"
    and enc :: "byte \<Rightarrow> byte list \<Rightarrow> byte list"
    and limit :: nat
  assumes put_ok: "length p \<le> limit \<Longrightarrow> accepts w (enc t p) \<Longrightarrow>
      put w t p = (None, w\<lparr>w_out := w_out w @ enc t p\<rparr>)"
    and put_large: "limit < length p \<Longrightarrow> \<exists>e. put w t p = (Some e, w)"
    and get_enc: "length p \<le> limit \<Longrightarrow> get (enc t p @ rest) = (Inr (t, p), rest)"
    and get_InrD: "get r = (Inr (t, p), r') \<Longrightarrow> r = enc t p @ r' \<and> length p \<le> limit"
    and get_end: "get [] = (Inl (FrameIO EOF), [])"
    and get_EOF: "get r = (Inl (FrameIO EOF), r') \<Longrightarrow>
      r = [] \<or> (\<exists>t p. p \<noteq> [] \<and> length p \<le> limit \<and> enc t p = r @ p)"
begin

definition encs :: "frame list \<Rightarrow> byte list" where
  "encs fs = concat (map (\<lambda>(t, p). enc t p) fs)"

lemma encs_Nil [simp]: "encs [] = []"
  by (simp add: encs_def)

lemma encs_Cons [simp]: "encs ((t, p) # fs) = enc t p @ encs fs"
  by (simp add: encs_def)

lemma write_frames_ok:
  "\<forall>(t, p) \<in> set fs. length p \<le> limit \<Longrightarrow> accepts w (encs fs) \<Longrightarrow>
   write_frames put w fs = (None, w\<lparr>w_out := w_out w @ encs fs\<rparr>)"
proof (induction fs arbitrary: w)
  case (Cons f fs)
  obtain t p where f: "f = (t, p)" by force
  have a: "accepts w (enc t p @ encs fs)" using Cons.prems(2) by (simp add: f)
  show ?case
    using Cons.prems put_ok [OF _ accepts_prefix [OF a]] Cons.IH [OF _ accepts_rest [OF a]]
    by (simp add: f)
qed simp

lemma read_frames_encs:
  "\<forall>(t, p) \<in> set fs. length p \<le> limit \<Longrightarrow> length fs < n \<Longrightarrow>
   read_frames get n (encs fs) = (fs, Some (FrameIO EOF))"
proof (induction fs arbitrary: n)
  case Nil
  then show ?case by (cases n) (simp_all add: get_end)
next
  case (Cons f fs)
  obtain t p where f: "f = (t, p)" by force
  obtain k where "n = Suc k" using Cons.prems(2) by (cases n) auto
  then show ?case using Cons.prems Cons.IH [of k] by (simp add: f get_enc)
qed

lemma read_frames_sound:
  "read_frames get n r = (fs, Some (FrameIO EOF)) \<Longrightarrow>
   \<exists>rest. r = encs fs @ rest \<and> (\<forall>(t, p) \<in> set fs. length p \<le> limit) \<and>
     (rest = [] \<or> (\<exists>t p. p \<noteq> [] \<and> length p \<le> limit \<and> enc t p = rest @ p))"
proof (induction n arbitrary: r fs)
  case (Suc n)
  obtain x r' where g: "get r = (x, r')" by force
  show ?case
  proof (cases x)
    case (Inl e)
    then show ?thesis using Suc.prems g get_EOF by auto
  next
    case (Inr f)
    obtain t p where f: "f = (t, p)" by force
    obtain gs e where rec: "read_frames get n r' = (gs, e)" by force
    have "fs = f # gs" "e = Some (FrameIO EOF)" using Suc.prems g Inr rec by auto
    then show ?thesis using Suc.IH [of r' gs] rec get_InrD [of r t p r'] g Inr f by auto
  qed
qed simp

text \<open>A session written to an accepting destination is read back frame by frame.  A stream
  that reads to a clean end is the encoding of what was read, followed at most by the
  header of one more frame whose payload never arrived.\<close>

lemma session_roundtrip:
  assumes "\<forall>(t, p) \<in> set fs. length p \<le> limit" "w_cap w = None"
  shows "fst (write_frames put w fs) = None"
    "w_out w = [] \<Longrightarrow> read_frames get (Suc (length fs)) (w_out (snd (write_frames put w fs)))
       = (fs, Some (FrameIO EOF))"
  using assms write_frames_ok [OF assms(1), of w] read_frames_encs [OF assms(1), of "Suc (length fs)"]
  by (auto simp: accepts_def simp del: read_frames.simps)

end

section \<open>vsockexec\<close>

definition FrameStart :: byte where "FrameStart = 0x00"
definition FrameStdin :: byte where "FrameStdin = 0x01"
definition FrameStdout :: byte where "FrameStdout = 0x02"
definition FrameStderr :: byte where "FrameStderr = 0x03"
definition FrameResize :: byte where "FrameResize = 0x04"
definition FrameExit :: byte where "FrameExit = 0x05"
definition FrameStdinClose :: byte where "FrameStdinClose = 0x06"

definition exec_maxFrame :: nat where "exec_maxFrame = 1048576"

definition exec_WriteFrame :: "writer \<Rightarrow> byte \<Rightarrow> byte list \<Rightarrow> frame_error option \<times> writer" where
  "exec_WriteFrame w t payload =
     (if length payload > exec_maxFrame
      then (Some (FrameTooLarge ''vsockexec'' (length payload) exec_maxFrame), w)
      else let hdr = t # PutUint32 (of_nat (length payload)) in
        case Write w hdr of
          (Some err, w1) \<Rightarrow> (Some (FrameIO err), w1)
        | (None, w1) \<Rightarrow>
            if length payload > 0 then
              (case Write w1 payload of
                 (Some err, w2) \<Rightarrow> (Some (FrameIO err), w2)
               | (None, w2) \<Rightarrow> (None, w2))
            else (None, w1))"

definition exec_WriteJSON :: "('v \<Rightarrow> string + byte list) \<Rightarrow> writer \<Rightarrow> byte \<Rightarrow> 'v \<Rightarrow> frame_error option \<times> writer" where
  "exec_WriteJSON json_Marshal w t v =
     (case json_Marshal v of
        Inl err \<Rightarrow> (Some (FrameMarshal err), w)
      | Inr b \<Rightarrow> exec_WriteFrame w t b)"

definition exec_ReadFrame :: "byte list \<Rightarrow> (frame_error + frame) \<times> byte list" where
  "exec_ReadFrame r =
     (case ReadFull r 5 of
        (Inl err, r1) \<Rightarrow> (Inl (FrameIO err), r1)
      | (Inr hdr, r1) \<Rightarrow>
          let n = unat (Uint32 (drop 1 hdr)) in
          if n > exec_maxFrame then (Inl (FrameLength ''vsockexec'' n exec_maxFrame), r1)
          else if n > 0 then
            (case ReadFull r1 n of
               (Inl err, r2) \<Rightarrow> (Inl (FrameIO err), r2)
             | (Inr payload, r2) \<Rightarrow> (Inr (hdr ! 0, payload), r2))
          else (Inr (hdr ! 0, []), r1))"

section \<open>vsockfile\<close>

definition FrameRequest :: byte where "FrameRequest = 0x00"
definition FrameResult :: byte where "FrameResult = 0x01"
definition FrameData :: byte where "FrameData = 0x02"
definition FrameEnd :: byte where "FrameEnd = 0x03"

definition file_maxFrame :: nat where "file_maxFrame = 1048576"

definition file_WriteFrame :: "writer \<Rightarrow> byte \<Rightarrow> byte list \<Rightarrow> frame_error option \<times> writer" where
  "file_WriteFrame w t payload =
     (if length payload > file_maxFrame
      then (Some (FrameTooLarge ''vsockfile'' (length payload) file_maxFrame), w)
      else let hdr = t # PutUint32 (of_nat (length payload)) in
        case Write w hdr of
          (Some err, w1) \<Rightarrow> (Some (FrameIO err), w1)
        | (None, w1) \<Rightarrow>
            if length payload > 0 then
              (case Write w1 payload of
                 (Some err, w2) \<Rightarrow> (Some (FrameIO err), w2)
               | (None, w2) \<Rightarrow> (None, w2))
            else (None, w1))"

definition file_WriteJSON :: "('v \<Rightarrow> string + byte list) \<Rightarrow> writer \<Rightarrow> byte \<Rightarrow> 'v \<Rightarrow> frame_error option \<times> writer" where
  "file_WriteJSON json_Marshal w t v =
     (case json_Marshal v of
        Inl err \<Rightarrow> (Some (FrameMarshal err), w)
      | Inr b \<Rightarrow> file_WriteFrame w t b)"

definition file_ReadFrame :: "byte list \<Rightarrow> (frame_error + frame) \<times> byte list" where
  "file_ReadFrame r =
     (case ReadFull r 5 of
        (Inl err, r1) \<Rightarrow> (Inl (FrameIO err), r1)
      | (Inr hdr, r1) \<Rightarrow>
          let n = unat (Uint32 (drop 1 hdr)) in
          if n > file_maxFrame then (Inl (FrameLength ''vsockfile'' n file_maxFrame), r1)
          else if n > 0 then
            (case ReadFull r1 n of
               (Inl err, r2) \<Rightarrow> (Inl (FrameIO err), r2)
             | (Inr payload, r2) \<Rightarrow> (Inr (hdr ! 0, payload), r2))
          else (Inr (hdr ! 0, []), r1))"

section \<open>Both packages implement the codec\<close>

definition frame_bytes :: "byte \<Rightarrow> byte list \<Rightarrow> byte list" where
  "frame_bytes t p = t # PutUint32 (of_nat (length p)) @ p"

lemma unat_frame_length: "n \<le> exec_maxFrame \<Longrightarrow> unat (of_nat n :: 32 word) = n"
  by (rule unat_of_nat_small) (simp add: exec_maxFrame_def)

lemma file_maxFrame_eq: "file_maxFrame = exec_maxFrame"
  by (simp add: file_maxFrame_def exec_maxFrame_def)

lemmas codec_defs = exec_WriteFrame_def file_WriteFrame_def exec_ReadFrame_def file_ReadFrame_def
  file_maxFrame_eq frame_bytes_def

lemma frame_put_ok:
  assumes "length p \<le> exec_maxFrame" "accepts w (frame_bytes t p)"
  shows "exec_WriteFrame w t p = (None, w\<lparr>w_out := w_out w @ frame_bytes t p\<rparr>)"
    "file_WriteFrame w t p = (None, w\<lparr>w_out := w_out w @ frame_bytes t p\<rparr>)"
proof -
  have a: "accepts w ((t # PutUint32 (of_nat (length p))) @ p)"
    using assms(2) by (simp add: frame_bytes_def)
  note ok = Write_accepts [OF accepts_prefix [OF a]] Write_accepts [OF accepts_rest [OF a]]
  show "exec_WriteFrame w t p = (None, w\<lparr>w_out := w_out w @ frame_bytes t p\<rparr>)"
    "file_WriteFrame w t p = (None, w\<lparr>w_out := w_out w @ frame_bytes t p\<rparr>)"
    using assms(1) ok by (auto simp: codec_defs)
qed

lemma frame_get_enc:
  assumes "length p \<le> exec_maxFrame"
  shows "exec_ReadFrame (frame_bytes t p @ rest) = (Inr (t, p), rest)"
    "file_ReadFrame (frame_bytes t p @ rest) = (Inr (t, p), rest)"
  using assms ReadFull_append [of "t # PutUint32 (of_nat (length p))" 5 "p @ rest"]
  by (simp_all add: codec_defs unat_frame_length Let_def)

text \<open>A header of five bytes is the type byte followed by the length it decodes to.\<close>

lemma frame_header:
  assumes "length hdr = 5" "n = unat (Uint32 (drop 1 hdr))" "length p = n"
  shows "hdr @ p = frame_bytes (hdr ! 0) p"
proof -
  have "hdr = hdr ! 0 # drop 1 hdr" using assms(1) by (cases hdr) auto
  moreover have "PutUint32 (of_nat n) = drop 1 hdr"
    using assms(1,2) by (simp add: PutUint32_Uint32)
  ultimately show ?thesis using assms(3) by (metis append_Cons frame_bytes_def)
qed

lemma frame_get_InrD:
  assumes "exec_ReadFrame r = (Inr (t, p), r') \<or> file_ReadFrame r = (Inr (t, p), r')"
  shows "r = frame_bytes t p @ r' \<and> length p \<le> exec_maxFrame"
proof -
  obtain hdr r1 where h: "ReadFull r 5 = (Inr hdr, r1)"
    using assms by (cases "ReadFull r 5"; cases "fst (ReadFull r 5)") (auto simp: codec_defs)
  let ?n = "unat (Uint32 (drop 1 hdr))"
  have le: "?n \<le> exec_maxFrame" and t: "t = hdr ! 0"
    and p: "if ?n > 0 then ReadFull r1 ?n = (Inr p, r') else p = [] \<and> r1 = r'"
    using assms h by (auto simp: codec_defs Let_def split: if_splits prod.splits sum.splits)
  have "r1 = p @ r' \<and> length p = ?n" using p ReadFull_InrD by (auto split: if_splits)
  moreover have "r = hdr @ r1" "length hdr = 5" using ReadFull_InrD [OF h] by auto
  ultimately show ?thesis using frame_header [of hdr ?n p] le t by auto
qed

lemma ReadFull_header: "length h = 5 \<Longrightarrow> r = h \<Longrightarrow> ReadFull r 5 = (Inr h, [])"
  using ReadFull_append [of h 5 "[]"] by simp

text \<open>The end of the stream is reported on a frame boundary, and also when a header arrived
  and nothing of its non-empty payload did.\<close>

lemma frame_get_EOF:
  assumes "exec_ReadFrame r = (Inl (FrameIO EOF), r') \<or> file_ReadFrame r = (Inl (FrameIO EOF), r')"
  shows "r = [] \<or> (\<exists>t p. p \<noteq> [] \<and> length p \<le> exec_maxFrame \<and> frame_bytes t p = r @ p)"
proof (cases "ReadFull r 5")
  case (Pair x r1)
  show ?thesis
  proof (cases x)
    case (Inl e)
    then show ?thesis
      using assms Pair ReadFull_InlD [of r 5 e r1] by (auto simp: codec_defs split: if_splits)
  next
    case (Inr hdr)
    let ?n = "unat (Uint32 (drop 1 hdr))"
    have h: "r = hdr @ r1" "length hdr = 5" using ReadFull_InrD Pair Inr by auto
    have n: "0 < ?n" "?n \<le> exec_maxFrame" and "ReadFull r1 ?n = (Inl EOF, r')"
      using assms Pair Inr by (auto simp: codec_defs Let_def split: if_splits prod.splits sum.splits)
    then have "r1 = []" using ReadFull_InlD [of r1 ?n EOF r'] by (auto split: if_splits)
    moreover have "hdr @ replicate ?n 0 = frame_bytes (hdr ! 0) (replicate ?n 0)"
      by (rule frame_header) (use h in auto)
    ultimately have "frame_bytes (hdr ! 0) (replicate ?n 0) = r @ replicate ?n 0" using h by simp
    then show ?thesis using n by (intro disjI2 exI [of _ "hdr ! 0"] exI [of _ "replicate ?n 0"]) simp
  qed
qed

lemma frame_get_end:
  "exec_ReadFrame [] = (Inl (FrameIO EOF), [])" "file_ReadFrame [] = (Inl (FrameIO EOF), [])"
  by (simp_all add: codec_defs ReadFull_def)

lemma frame_put_large:
  "exec_maxFrame < length p \<Longrightarrow>
     exec_WriteFrame w t p = (Some (FrameTooLarge ''vsockexec'' (length p) exec_maxFrame), w)"
  "exec_maxFrame < length p \<Longrightarrow>
     file_WriteFrame w t p = (Some (FrameTooLarge ''vsockfile'' (length p) exec_maxFrame), w)"
  by (simp_all add: codec_defs)

lemmas frame_InrD = frame_get_InrD [OF disjI1] frame_get_InrD [OF disjI2]
lemmas frame_EOF = frame_get_EOF [OF disjI1] frame_get_EOF [OF disjI2]

interpretation execp: frame_codec exec_WriteFrame exec_ReadFrame frame_bytes exec_maxFrame
proof
  show "\<exists>e. exec_WriteFrame w t p = (Some e, w)" if "exec_maxFrame < length p" for p w t
    using frame_put_large [OF that] by blast
qed (auto simp: frame_put_ok frame_get_enc frame_get_end dest: frame_InrD frame_EOF)

interpretation filep: frame_codec file_WriteFrame file_ReadFrame frame_bytes file_maxFrame
  unfolding file_maxFrame_eq
proof
  show "\<exists>e. file_WriteFrame w t p = (Some e, w)" if "exec_maxFrame < length p" for p w t
    using frame_put_large [OF that] by blast
qed (auto simp: frame_put_ok frame_get_enc frame_get_end dest: frame_InrD frame_EOF)

section \<open>Properties\<close>

text \<open>
  C18: every exec session and every file operation written frame by frame, each payload
  within the frame limit, is read back as the same sequence of types and payloads
  followed by a clean end of stream.
\<close>

theorem vsock_session_roundtrip:
  assumes "\<forall>(t, p) \<in> set fs. length p \<le> 1048576"
  shows "read_frames exec_ReadFrame (Suc (length fs))
           (w_out (snd (write_frames exec_WriteFrame \<lparr>w_out = [], w_cap = None\<rparr> fs)))
           = (fs, Some (FrameIO EOF))
       \<and> read_frames file_ReadFrame (Suc (length fs))
           (w_out (snd (write_frames file_WriteFrame \<lparr>w_out = [], w_cap = None\<rparr> fs)))
           = (fs, Some (FrameIO EOF))"
  using execp.session_roundtrip(2) [of fs "\<lparr>w_out = [], w_cap = None\<rparr>"]
    filep.session_roundtrip(2) [of fs "\<lparr>w_out = [], w_cap = None\<rparr>"] assms
  by (simp add: exec_maxFrame_def file_maxFrame_def del: read_frames.simps write_frames.simps)

theorem vsock_session_roundtrip_witness:
  "read_frames exec_ReadFrame 3
     (w_out (snd (write_frames exec_WriteFrame \<lparr>w_out = [], w_cap = None\<rparr>
       [(FrameStdout, [1, 2]), (FrameExit, [])])))
   = ([(FrameStdout, [1, 2]), (FrameExit, [])], Some (FrameIO EOF))"
  using vsock_session_roundtrip [of "[(FrameStdout, [1, 2]), (FrameExit, [])]"]
  by (simp add: numeral_3_eq_3 del: read_frames.simps write_frames.simps)

text \<open>
  A frame over one mebibyte is neither written nor, whatever length its header
  announces, read: the writer reports the size and leaves the destination untouched, and
  no read returns a payload beyond the limit or different from the bytes on the stream.
\<close>

theorem vsock_frame_limit:
  "(1048576 < length p \<longrightarrow>
      exec_WriteFrame w t p = (Some (FrameTooLarge ''vsockexec'' (length p) 1048576), w) \<and>
      file_WriteFrame w t p = (Some (FrameTooLarge ''vsockfile'' (length p) 1048576), w))
   \<and> (exec_ReadFrame r = (Inr (t, p), r') \<or> file_ReadFrame r = (Inr (t, p), r') \<longrightarrow>
      length p \<le> 1048576 \<and> r = frame_bytes t p @ r')"
  using frame_get_InrD [of r t p r'] frame_put_large [of p] by (auto simp: exec_maxFrame_def)

theorem vsock_frame_limit_witness:
  "exec_WriteFrame \<lparr>w_out = [], w_cap = None\<rparr> FrameStdin (replicate 1048577 0) =
     (Some (FrameTooLarge ''vsockexec'' 1048577 1048576), \<lparr>w_out = [], w_cap = None\<rparr>)"
  using vsock_frame_limit [of "replicate 1048577 0" "\<lparr>w_out = [], w_cap = None\<rparr>" FrameStdin "[]" "[]"]
  by simp

text \<open>
  The end of the stream that \<^verbatim>\<open>ReadFrame\<close> reports is not only the end on a frame
  boundary: it is reported exactly for an empty stream and for a stream that stops right
  after a header announcing a non-empty payload.
\<close>

theorem ReadFrame_EOF_exactly:
  "exec_ReadFrame r = (Inl (FrameIO EOF), []) \<longleftrightarrow>
     r = [] \<or> (\<exists>t p. p \<noteq> [] \<and> length p \<le> 1048576 \<and> frame_bytes t p = r @ p)"
proof
  assume "r = [] \<or> (\<exists>t p. p \<noteq> [] \<and> length p \<le> 1048576 \<and> frame_bytes t p = r @ p)"
  then show "exec_ReadFrame r = (Inl (FrameIO EOF), [])"
  proof (elim disjE exE conjE)
    fix t p assume p: "p \<noteq> []" "length p \<le> 1048576" "frame_bytes t p = r @ p"
    then have "r = t # PutUint32 (of_nat (length p))" by (simp add: frame_bytes_def)
    then show ?thesis
      using p ReadFull_header [of r r] unat_frame_length [of "length p"]
      by (simp add: exec_ReadFrame_def Let_def exec_maxFrame_def ReadFull_def)
  qed (simp add: frame_get_end)
qed (use frame_get_EOF [of r "[]"] in \<open>simp add: exec_maxFrame_def\<close>)

end
