(* ===== verification/Ws.thy ===== *)
theory Ws
  imports Bytes Netaddr
begin

unbundle bit_operations_syntax

text \<open>
  WebSocket auditing (\<^verbatim>\<open>internal/wsaudit/wsaudit.go\<close>): the frame pump that both proxies
  use, its byte-for-byte transparency, the unmasked payload it hands to the audit, and the
  assembler that turns fragments into one audit body per message.
\<close>

section \<open>Constants\<close>

definition OpContinuation :: byte where "OpContinuation = 0x0"
definition OpText :: byte where "OpText = 0x1"
definition OpBinary :: byte where "OpBinary = 0x2"
definition OpClose :: byte where "OpClose = 0x8"
definition OpPing :: byte where "OpPing = 0x9"
definition OpPong :: byte where "OpPong = 0xA"

lemmas op_defs = OpContinuation_def OpText_def OpBinary_def OpClose_def OpPing_def OpPong_def

definition AuditLimit :: nat where "AuditLimit = 64 * 1024"

section \<open>forwardFrame\<close>

text \<open>One \<^verbatim>\<open>ReadFull\<close> followed by one \<^verbatim>\<open>Write\<close> of the same bytes: the idiom by which the
  header, the extended length and the masking key are relayed.\<close>

datatype relay_result = RelayRead io_error | RelayWrite io_error "byte list" | Relayed "byte list"

definition relay :: "byte list \<Rightarrow> writer \<Rightarrow> nat \<Rightarrow> relay_result \<times> byte list \<times> writer" where
  "relay src dst n =
     (case ReadFull src n of
        (Inl e, src') \<Rightarrow> (RelayRead e, src', dst)
      | (Inr d, src') \<Rightarrow>
          (case Write dst d of
             (Some e, dst') \<Rightarrow> (RelayWrite e d, src', dst')
           | (None, dst') \<Rightarrow> (Relayed d, src', dst')))"

record ws_frame =
  f_opcode :: byte
  f_rsv1 :: bool
  f_fin :: bool
  f_payload :: "byte list option"
  f_len :: "64 word"

definition hdr_frame :: "byte list \<Rightarrow> ws_frame" where
  "hdr_frame hdr = \<lparr>f_opcode = hdr ! 0 AND 0x0F, f_rsv1 = (hdr ! 0 AND 0x40 \<noteq> 0),
     f_fin = (hdr ! 0 AND 0x80 \<noteq> 0), f_payload = None, f_len = 0\<rparr>"

definition ext_length :: "byte list \<Rightarrow> writer \<Rightarrow> byte \<Rightarrow> (io_error + 64 word) \<times> byte list \<times> writer" where
  "ext_length src dst b1 =
     (let pl = (ucast (b1 AND 0x7F) :: 64 word)
      in if pl = 126 then
           (case relay src dst 2 of
              (RelayRead e, s) \<Rightarrow> (Inl e, s)
            | (RelayWrite e d, s) \<Rightarrow> (Inl e, s)
            | (Relayed d, s) \<Rightarrow> (Inr (ucast (Uint16 d)), s))
         else if pl = 127 then
           (case relay src dst 8 of
              (RelayRead e, s) \<Rightarrow> (Inl e, s)
            | (RelayWrite e d, s) \<Rightarrow> (Inl e, s)
            | (Relayed d, s) \<Rightarrow> (Inr (Uint64 d), s))
         else (Inr pl, src, dst))"

definition mask_key :: "byte list \<Rightarrow> writer \<Rightarrow> bool \<Rightarrow> (io_error + byte list) \<times> byte list \<times> writer" where
  "mask_key src dst masked =
     (if masked then
        (case relay src dst 4 of
           (RelayRead e, s) \<Rightarrow> (Inl e, s)
         | (RelayWrite e d, s) \<Rightarrow> (Inl e, s)
         | (Relayed d, s) \<Rightarrow> (Inr d, s))
      else (Inr [0, 0, 0, 0], src, dst))"

text \<open>\<^verbatim>\<open>io.CopyN\<close> with the length converted to \<^verbatim>\<open>int64\<close>: a negative count copies nothing
  and is no error; too short a source is \<^verbatim>\<open>io.EOF\<close>.\<close>

definition CopyN :: "byte list \<Rightarrow> writer \<Rightarrow> int \<Rightarrow> io_error option \<times> byte list \<times> writer" where
  "CopyN src dst n =
     (if n < 0 then (None, src, dst)
      else case Write dst (take (nat n) src) of
             (Some e, dst') \<Rightarrow> (Some e, drop (nat n) src, dst')
           | (None, dst') \<Rightarrow>
               (if length src < nat n then Some EOF else None, drop (nat n) src, dst'))"

definition xor_mask :: "byte list \<Rightarrow> byte list \<Rightarrow> byte list" where
  "xor_mask key data = map (\<lambda>i. data ! i XOR key ! (i mod 4)) [0..<length data]"

definition copy_payload :: "byte list \<Rightarrow> writer \<Rightarrow> bool \<Rightarrow> byte list \<Rightarrow> 64 word
    \<Rightarrow> (io_error option \<times> byte list option) \<times> byte list \<times> writer" where
  "copy_payload src dst masked key pl =
     (if unat pl > AuditLimit then
        (case CopyN src dst (sint pl) of (err, s) \<Rightarrow> ((err, None), s))
      else case ReadFull src (unat pl) of
             (Inl e, src') \<Rightarrow>
               (let data = src @ replicate (unat pl - length src) 0
                in ((Some e, None), src', snd (Write dst data)))
           | (Inr data, src') \<Rightarrow>
               (case Write dst data of
                  (Some e, dst') \<Rightarrow> ((Some e, None), src', dst')
                | (None, dst') \<Rightarrow>
                    ((None, Some (if masked then xor_mask key data else data)), src', dst')))"

definition forwardFrame :: "byte list \<Rightarrow> writer \<Rightarrow> (io_error option \<times> ws_frame) \<times> byte list \<times> writer" where
  "forwardFrame src dst =
     (case relay src dst 2 of
        (RelayRead e, s) \<Rightarrow>
          ((Some e, \<lparr>f_opcode = 0, f_rsv1 = False, f_fin = False, f_payload = None, f_len = 0\<rparr>), s)
      | (RelayWrite e hdr, s) \<Rightarrow> ((Some e, hdr_frame hdr), s)
      | (Relayed hdr, src1, dst1) \<Rightarrow>
          let fr = hdr_frame hdr; masked = (hdr ! 1 AND 0x80 \<noteq> 0) in
          (case ext_length src1 dst1 (hdr ! 1) of
             (Inl e, s) \<Rightarrow> ((Some e, fr), s)
           | (Inr pl, src2, dst2) \<Rightarrow>
               (case mask_key src2 dst2 masked of
                  (Inl e, s) \<Rightarrow> ((Some e, fr\<lparr>f_len := pl\<rparr>), s)
                | (Inr key, src3, dst3) \<Rightarrow>
                    (case copy_payload src3 dst3 masked key pl of
                       ((err, payload), s) \<Rightarrow> ((err, fr\<lparr>f_len := pl, f_payload := payload\<rparr>), s)))))"

section \<open>Transparency of one frame\<close>

text \<open>
  The contract of a relaying stage: what it wrote is a prefix of what it read, padded at
  most with zero bytes, and when it succeeded it wrote exactly what it consumed.
\<close>

definition relays :: "byte list \<Rightarrow> writer \<Rightarrow> bool \<Rightarrow> byte list \<Rightarrow> writer \<Rightarrow> bool" where
  "relays src dst ok src' dst' \<longleftrightarrow>
     w_cap dst' = w_cap dst \<and>
     (\<exists>q. w_out dst' = w_out dst @ q \<and> (\<exists>k. prefix q (src @ replicate k 0)) \<and>
          (ok \<longrightarrow> src = q @ src'))"

lemma relays_refl: "relays src dst ok src dst"
  by (simp add: relays_def)

lemma relays_trans:
  assumes "relays src dst True src1 dst1" "relays src1 dst1 ok src2 dst2"
  shows "relays src dst ok src2 dst2"
proof -
  obtain q where q: "w_out dst1 = w_out dst @ q" "src = q @ src1" and c1: "w_cap dst1 = w_cap dst"
    using assms(1) by (auto simp: relays_def)
  obtain r k where r: "w_out dst2 = w_out dst1 @ r" "prefix r (src1 @ replicate k 0)"
    "ok \<longrightarrow> src1 = r @ src2" and c2: "w_cap dst2 = w_cap dst1"
    using assms(2) by (auto simp: relays_def)
  have "prefix (q @ r) (src @ replicate k 0)" using q r by simp
  then show ?thesis using q r c1 c2 by (auto simp: relays_def)
qed

lemma relays_weaken: "relays src dst True src' dst' \<Longrightarrow> relays src dst ok src' dst'"
  by (auto simp: relays_def)

lemma prefix_of_part: "prefix q d \<Longrightarrow> src = d @ rest \<Longrightarrow> \<exists>k. prefix q (src @ replicate k (0::byte))"
  by (rule exI [of _ 0]) (auto simp: prefix_def)

lemma relay_relays:
  assumes "relay src dst n = (x, src', dst')"
  shows "relays src dst (\<exists>d. x = Relayed d) src' dst'"
    "x = Relayed d \<Longrightarrow> src = d @ src' \<and> length d = n"
proof -
  show "relays src dst (\<exists>d. x = Relayed d) src' dst'"
  proof (cases "ReadFull src n")
    case (Pair y s1)
    show ?thesis
    proof (cases y)
      case (Inl e)
      then show ?thesis using assms Pair by (auto simp: relay_def relays_def)
    next
      case (Inr d)
      obtain e w1 where w: "Write dst d = (e, w1)" by force
      obtain q where "w_out w1 = w_out dst @ q" "prefix q d" "e = None \<longrightarrow> q = d" "w_cap w1 = w_cap dst"
        using Write_out [OF w] by blast
      then show ?thesis
        using assms Pair Inr w ReadFull_InrD [of src n d s1] prefix_of_part [of q d src s1]
        by (auto simp: relay_def relays_def split: option.splits)
    qed
  qed
  show "x = Relayed d \<Longrightarrow> src = d @ src' \<and> length d = n"
    using assms ReadFull_InrD [of src n d src']
    by (auto simp: relay_def split: prod.splits sum.splits option.splits)
qed

lemma ext_length_relays:
  assumes "ext_length src dst b = (x, src', dst')"
  shows "relays src dst (\<exists>pl. x = Inr pl) src' dst'"
proof -
  consider n y f where "relay src dst n = (y, src', dst')" "(\<exists>pl. x = Inr pl) \<longleftrightarrow> (\<exists>d. y = Relayed d)"
    | "src' = src" "dst' = dst"
    using assms
    by (auto simp: ext_length_def Let_def split: if_splits prod.splits relay_result.splits)
  then show ?thesis by cases (simp_all add: relay_relays(1) relays_refl)
qed

lemma mask_key_relays:
  assumes "mask_key src dst m = (x, src', dst')"
  shows "relays src dst (\<exists>k. x = Inr k) src' dst'"
proof -
  consider y where "relay src dst 4 = (y, src', dst')" "(\<exists>k. x = Inr k) \<longleftrightarrow> (\<exists>d. y = Relayed d)"
    | "src' = src" "dst' = dst"
    using assms by (auto simp: mask_key_def split: if_splits prod.splits relay_result.splits)
  then show ?thesis by cases (simp_all add: relay_relays(1) relays_refl)
qed

lemma Write_relays:
  assumes "Write dst d = (e, dst')" "src = d @ src'"
  shows "relays src dst (e = None) src' dst'"
  using Write_out [OF assms(1)] assms(2) prefix_of_part [OF _ assms(2)] by (auto simp: relays_def)

lemma CopyN_relays:
  assumes "CopyN src dst n = (e, src', dst')"
  shows "relays src dst (e = None) src' dst'"
proof (cases "n < 0")
  case False
  obtain e1 w1 where w: "Write dst (take (nat n) src) = (e1, w1)" by force
  have "relays src dst (e1 = None) (drop (nat n) src) w1" by (rule Write_relays [OF w]) simp
  then show ?thesis
    using assms False w by (auto simp: CopyN_def relays_weaken split: option.splits if_splits)
qed (use assms in \<open>simp add: CopyN_def relays_refl\<close>)

lemma copy_payload_relays:
  assumes "copy_payload src dst m key pl = ((e, d), src', dst')"
  shows "relays src dst (e = None) src' dst'"
proof -
  let ?z = "src @ replicate (unat pl - length src) 0"
  consider "CopyN src dst (sint pl) = (e, src', dst')"
    | "e \<noteq> None" "dst' = snd (Write dst ?z)"
    | x where "ReadFull src (unat pl) = (Inr x, src')" "Write dst x = (e, dst')"
    using assms
    by (auto simp: copy_payload_def Let_def split: if_splits prod.splits sum.splits option.splits)
  then show ?thesis
  proof cases
    case 2
    then obtain q where "w_out dst' = w_out dst @ q" "prefix q ?z" "w_cap dst' = w_cap dst"
      using Write_out [of dst ?z "fst (Write dst ?z)" dst'] by auto
    then show ?thesis using \<open>e \<noteq> None\<close> by (auto simp: relays_def)
  qed (use CopyN_relays Write_relays ReadFull_InrD in blast)+
qed

text \<open>\<^verbatim>\<open>forwardFrame\<close> relays its stages in order, and a frame it transferred took at least
  its two header bytes from the source.\<close>

lemma forwardFrame_relays:
  assumes "forwardFrame src dst = ((e, fr), src', dst')"
  shows "relays src dst (e = None) src' dst'" "e = None \<Longrightarrow> length src' < length src"
proof -
  obtain x1 src1 dst1 where r: "relay src dst 2 = (x1, src1, dst1)" by (metis prod_cases3)
  note r1 = relay_relays [OF r]
  have "relays src dst (e = None) src' dst' \<and> (e = None \<longrightarrow> length src' < length src)"
  proof (cases x1)
    case (Relayed hdr)
    have two: "length src1 < length src" using r1(2) [OF Relayed] by simp
    obtain x2 src2 dst2 where l: "ext_length src1 dst1 (hdr ! 1) = (x2, src2, dst2)" by (metis prod_cases3)
    obtain x3 src3 dst3 where m: "mask_key src2 dst2 (hdr ! 1 AND 0x80 \<noteq> 0) = (x3, src3, dst3)"
      by (metis prod_cases3)
    note s1 = r1(1) and s2 = ext_length_relays [OF l] and s3 = mask_key_relays [OF m]
    consider "x2 = Inl (the e)" "e \<noteq> None" "src' = src2" "dst' = dst2"
      | pl where "x2 = Inr pl" "x3 = Inl (the e)" "e \<noteq> None" "src' = src3" "dst' = dst3"
      | pl key d where "x2 = Inr pl" "x3 = Inr key"
          "copy_payload src3 dst3 (hdr ! 1 AND 0x80 \<noteq> 0) key pl = ((e, d), src', dst')"
      using assms r l m Relayed
      by (cases x2; cases x3) (auto simp: forwardFrame_def Let_def split: prod.splits)
    then show ?thesis
    proof cases
      case 1
      then show ?thesis using relays_trans [OF s1 [simplified Relayed, simplified]] s2 by auto
    next
      case 2
      then show ?thesis
        using relays_trans [OF s1 [simplified Relayed, simplified] relays_trans [OF s2 [simplified 2, simplified] s3]]
        by auto
    next
      case 3
      note s4 = copy_payload_relays [OF 3(3)]
      have t: "relays src1 dst1 (e = None) src' dst'"
        using relays_trans [OF s2 [simplified 3, simplified] relays_trans [OF s3 [simplified 3, simplified] s4]] .
      have "e = None \<longrightarrow> length src' \<le> length src1" using t by (auto simp: relays_def)
      then show ?thesis using relays_trans [OF s1 [simplified Relayed, simplified] t] two by auto
    qed
  qed (use assms r r1 in \<open>auto simp: forwardFrame_def\<close>)
  then show "relays src dst (e = None) src' dst'" "e = None \<Longrightarrow> length src' < length src" by auto
qed

section \<open>The assembler\<close>

definition bytes_string :: "byte list \<Rightarrow> string" where
  "bytes_string bs = map (\<lambda>b. char_of (unat b)) bs"

definition OpName :: "byte \<Rightarrow> string" where
  "OpName op = (if op = OpText then ''text''
     else if op = OpBinary then ''binary''
     else if op = OpContinuation then ''continuation''
     else ''op'' @ itoa_nat (unat op))"

definition render :: "byte \<Rightarrow> byte list \<Rightarrow> string" where
  "render opcode payload = (if opcode = OpText then bytes_string payload
     else ''[binary '' @ itoa_nat (length payload) @ '' bytes]'')"

definition renderClose :: "byte list \<Rightarrow> string" where
  "renderClose payload = (if length payload < 2 then ''[close]''
     else let code = unat (Uint16 (take 2 payload)) in
       if length payload > 2 then ''[close '' @ itoa_nat code @ '' '' @ bytes_string (drop 2 payload) @ '']''
       else ''[close '' @ itoa_nat code @ '']'')"

record assembler =
  a_buf :: "byte list"
  a_opcode :: byte
  a_inflight :: bool
  a_overflow :: bool

definition asm_init :: assembler where
  "asm_init = \<lparr>a_buf = [], a_opcode = 0, a_inflight = False, a_overflow = False\<rparr>"

definition asm_append :: "byte list option \<Rightarrow> assembler \<Rightarrow> assembler" where
  "asm_append payload a =
     (case payload of
        None \<Rightarrow> a
      | Some p \<Rightarrow>
          if a_overflow a then a
          else if length (a_buf a) + length p > AuditLimit then a\<lparr>a_overflow := True\<rparr>
          else a\<lparr>a_buf := a_buf a @ p\<rparr>)"

definition asm_frame :: "byte \<Rightarrow> bool \<Rightarrow> byte list option \<Rightarrow> nat \<Rightarrow> assembler \<Rightarrow> string \<times> assembler" where
  "asm_frame opcode fin payload payloadLen a =
     (if opcode = OpText \<or> opcode = OpBinary then
        (case payload of
           None \<Rightarrow> (''['' @ OpName opcode @ '' '' @ itoa_nat payloadLen @ '' bytes]'', a)
         | Some p \<Rightarrow>
             if fin then (render opcode p, a)
             else ([], asm_append payload
                     (a\<lparr>a_opcode := opcode, a_inflight := True, a_overflow := False, a_buf := []\<rparr>)))
      else if opcode = OpContinuation then
        (if \<not> a_inflight a then (''[continuation '' @ itoa_nat payloadLen @ '' bytes]'', a)
         else let a1 = asm_append payload a in
           if \<not> fin then ([], a1)
           else (if a_overflow a1
                 then ''['' @ OpName (a_opcode a1) @ '' '' @ itoa_nat (length (a_buf a1)) @ '' bytes (assembly overflow)]''
                 else render (a_opcode a1) (a_buf a1),
                 a1\<lparr>a_inflight := False\<rparr>))
      else ([], a))"

section \<open>Forward\<close>

text \<open>The audit body of one transferred frame, and the pump: the log calls of the source
  are left out, \<^verbatim>\<open>emit\<close> collects the chunks in order.\<close>

definition frame_body :: "ws_frame \<Rightarrow> assembler \<Rightarrow> string \<times> assembler" where
  "frame_body fr a =
     (let op = f_opcode fr in
      if op = OpText \<or> op = OpBinary \<or> op = OpContinuation
        then asm_frame op (f_fin fr) (f_payload fr) (unat (f_len fr)) a
      else if op = OpClose then (renderClose (case f_payload fr of None \<Rightarrow> [] | Some p \<Rightarrow> p), a)
      else if op = OpPing then (''[ping]'', a)
      else if op = OpPong then (''[pong]'', a)
      else ([], a))"

function Forward_loop :: "byte list \<Rightarrow> writer \<Rightarrow> string \<Rightarrow> assembler \<Rightarrow> (string \<times> string) list \<times> writer" where
  "Forward_loop src dst dir asm =
     (case forwardFrame src dst of
        ((Some e, fr), src', dst') \<Rightarrow> ([], dst')
      | ((None, fr), src', dst') \<Rightarrow>
          (case frame_body fr asm of
             (body, asm') \<Rightarrow>
               (case Forward_loop src' dst' dir asm' of
                  (rest, w) \<Rightarrow> (if body \<noteq> [] then (body, dir) # rest else rest, w))))"
  by pat_completeness auto
termination
  by (relation "measure (\<lambda>(src, _, _, _). length src)") (auto, metis forwardFrame_relays(2))

declare Forward_loop.simps [simp del]

definition Forward :: "byte list \<Rightarrow> writer \<Rightarrow> string \<Rightarrow> (string \<times> string) list \<times> writer" where
  "Forward src dst dir = Forward_loop src dst dir asm_init"

lemma Forward_loop_relays:
  "Forward_loop src dst dir asm = (out, dst') \<Longrightarrow>
   \<exists>q k. w_out dst' = w_out dst @ q \<and> prefix q (src @ replicate k 0) \<and> w_cap dst' = w_cap dst"
proof (induction src dst dir asm arbitrary: out dst' rule: Forward_loop.induct)
  case (1 src dst dir asm)
  obtain e fr src1 dst1 where f: "forwardFrame src dst = ((e, fr), src1, dst1)" by (metis prod.collapse)
  obtain body asm1 where b: "frame_body fr asm = (body, asm1)" by force
  obtain rest w where l: "Forward_loop src1 dst1 dir asm1 = (rest, w)" by force
  have r: "relays src dst (e = None) src1 dst1" by (rule forwardFrame_relays(1) [OF f])
  show ?case
  proof (cases e)
    case None
    have "dst' = w" using "1.prems" f b l None by (simp add: Forward_loop.simps [of src])
    then obtain q k where "w_out dst' = w_out dst1 @ q" "prefix q (src1 @ replicate k 0)" "w_cap dst' = w_cap dst1"
      using "1.IH" [OF f [symmetric] refl None refl b [symmetric] l] by blast
    then have "relays src1 dst1 False [] dst'" by (auto simp: relays_def)
    then have "relays src dst False [] dst'" using relays_trans r by (simp add: None)
    then show ?thesis by (auto simp: relays_def)
  next
    case (Some x)
    then have "dst' = dst1" using "1.prems" f by (simp add: Forward_loop.simps [of src])
    then show ?thesis using r by (auto simp: relays_def)
  qed
qed

section \<open>Frames on the wire\<close>

text \<open>The framing of RFC 6455, section 5.2, that clients and servers produce: the shortest
  length form, the optional masking key and the payload masked with it.\<close>

definition encode_len :: "nat \<Rightarrow> nat \<times> byte list" where
  "encode_len n = (if n < 126 then (n, []) else if n < 65536 then (126, PutUint16 (of_nat n))
     else (127, PutUint64 (of_nat n)))"

definition encode_frame :: "bool \<Rightarrow> byte \<Rightarrow> byte list option \<Rightarrow> byte list \<Rightarrow> byte list" where
  "encode_frame fin op key payload =
     [(if fin then 0x80 else 0) OR op,
      (if key \<noteq> None then 0x80 else 0) OR of_nat (fst (encode_len (length payload)))]
     @ snd (encode_len (length payload))
     @ (case key of None \<Rightarrow> payload | Some k \<Rightarrow> k @ xor_mask k payload)"

definition wf_wire :: "byte \<Rightarrow> byte list option \<Rightarrow> byte list \<Rightarrow> bool" where
  "wf_wire op key payload \<longleftrightarrow> unat op < 16 \<and> (case key of None \<Rightarrow> True | Some k \<Rightarrow> length k = 4)
     \<and> length payload < 2 ^ 63"

lemma xor_mask_length [simp]: "length (xor_mask k d) = length d"
  by (simp add: xor_mask_def)

lemma xor_mask_involution [simp]: "xor_mask k (xor_mask k d) = d"
  by (rule nth_equalityI) (simp_all add: xor_mask_def xor.assoc)

lemma small_take_bit: "unat (x :: byte) < 2 ^ n \<Longrightarrow> take_bit n x = x"
  by (simp add: word_unat_eq_iff unsigned_take_bit_eq take_bit_nat_eq_self)

lemma small_not_bit: "unat (x :: byte) < 2 ^ n \<Longrightarrow> n \<le> m \<Longrightarrow> \<not> bit x m"
  using small_take_bit [of x n] bit_take_bit_iff [of n x m] by auto

lemma flag_bits: "(0x40 :: byte) = 2 ^ 6" "(0x80 :: byte) = 2 ^ 7" "(0x0F :: byte) = mask 4" "(0x7F :: byte) = mask 7"
  by (simp_all add: mask_eq_exp_minus_1)

lemma flag_test: "(0x80 :: byte) AND x \<noteq> 0 \<longleftrightarrow> bit x 7" "x AND (0x80 :: byte) \<noteq> 0 \<longleftrightarrow> bit x 7"
  "x AND (0x40 :: byte) \<noteq> 0 \<longleftrightarrow> bit x 6"
  by (simp_all only: flag_bits and.commute [of "2 ^ 7"] and_exp_eq_0_iff_not_bit not_not)

lemma header_byte0:
  assumes "unat (op :: byte) < 16"
  shows "hdr_frame [(if fin then 0x80 else 0) OR op, b] =
    \<lparr>f_opcode = op, f_rsv1 = False, f_fin = fin, f_payload = None, f_len = 0\<rparr>"
proof -
  have s: "unat op < 2 ^ 4" using assms by simp
  have "((if fin then 0x80 else 0) OR op) AND 0x0F = op"
    using small_take_bit [OF s] by (simp add: flag_bits(3) flip: take_bit_eq_mask)
  then show ?thesis
    using small_not_bit [OF s, of 6] small_not_bit [OF s, of 7]
    by (simp add: hdr_frame_def flag_test bit_simps)
qed

lemma header_byte1:
  assumes "n < 128"
  shows "((if m then 0x80 else 0) OR (of_nat n :: byte)) AND 0x7F = of_nat n"
    "((if m then 0x80 else 0) OR (of_nat n :: byte)) AND 0x80 \<noteq> 0 \<longleftrightarrow> m"
proof -
  have s: "unat (of_nat n :: byte) < 2 ^ 7" using assms by (simp add: unat_of_nat_small)
  show "((if m then 0x80 else 0) OR (of_nat n :: byte)) AND 0x7F = of_nat n"
    using small_take_bit [OF s] by (simp add: flag_bits(4) flip: take_bit_eq_mask)
  show "((if m then 0x80 else 0) OR (of_nat n :: byte)) AND 0x80 \<noteq> 0 \<longleftrightarrow> m"
    using small_not_bit [OF s, of 7] by (simp add: flag_test bit_simps)
qed

text \<open>Stages on a well-formed frame and a destination that never fails.\<close>

definition emit :: "byte list \<Rightarrow> writer \<Rightarrow> writer" where
  "emit d w = w\<lparr>w_out := w_out w @ d\<rparr>"

lemma emit_simps [simp]: "w_cap (emit d w) = w_cap w" "w_out (emit d w) = w_out w @ d"
  "emit c (emit d w) = emit (d @ c) w" "emit [] w = w"
  by (simp_all add: emit_def)

lemma Write_emit: "w_cap w = None \<Longrightarrow> Write w d = (None, emit d w)"
  by (simp add: Write_def emit_def)

lemma relay_emit:
  "w_cap w = None \<Longrightarrow> length d = n \<Longrightarrow> relay (d @ rest) w n = (Relayed d, rest, emit d w)"
  by (simp add: relay_def Write_emit)

lemma small64: "n < 2 ^ 63 \<Longrightarrow> unat (of_nat n :: 64 word) = n \<and> sint (of_nat n :: 64 word) = int n"
  by (simp add: unat_of_nat_small signed_of_nat signed_take_bit_int_eq_self)

lemma ucast_small: "n < 256 \<Longrightarrow> (ucast (of_nat n :: byte) :: 64 word) = of_nat n"
  by (simp add: unsigned_of_nat take_bit_nat_eq_self)

lemma ucast_short: "n < 65536 \<Longrightarrow> (ucast (of_nat n :: 16 word) :: 64 word) = of_nat n"
  by (simp add: unsigned_of_nat take_bit_nat_eq_self)

lemma encode_len_small: "fst (encode_len n) < 128"
  by (simp add: encode_len_def)

lemma ext_length_emit:
  assumes "w_cap w = None" "b1 AND 0x7F = of_nat (fst (encode_len n))"
  shows "ext_length (snd (encode_len n) @ rest) w b1 = (Inr (of_nat n), rest, emit (snd (encode_len n)) w)"
proof -
  have pl: "(ucast (b1 AND 0x7F) :: 64 word) = of_nat (fst (encode_len n))"
    using assms(2) encode_len_small [of n] by (simp add: ucast_small)
  consider "n < 126" | "126 \<le> n" "n < 65536" | "65536 \<le> n" by linarith
  then show ?thesis
  proof cases
    case 1
    then have "(of_nat n :: 64 word) \<noteq> 126" "(of_nat n :: 64 word) \<noteq> 127"
      by (auto simp: word_unat_eq_iff unat_of_nat_small)
    then show ?thesis using 1 pl by (simp add: ext_length_def encode_len_def)
  next
    case 2
    then show ?thesis
      using pl assms(1) relay_emit [of w "PutUint16 (of_nat n)" 2 rest]
      by (simp add: ext_length_def encode_len_def ucast_short)
  next
    case 3
    then show ?thesis
      using pl assms(1) relay_emit [of w "PutUint64 (of_nat n)" 8 rest]
      by (simp add: ext_length_def encode_len_def)
  qed
qed

lemma copy_payload_emit:
  assumes "w_cap w = None" "n = length d" "n < 2 ^ 63"
  shows "copy_payload (d @ rest) w m key (of_nat n) =
    ((None, if n \<le> AuditLimit then Some (if m then xor_mask key d else d) else None), rest, emit d w)"
  using assms small64 [of n] by (simp add: copy_payload_def CopyN_def Write_emit)

lemma forwardFrame_stages:
  assumes "relay src w 2 = (Relayed hdr, s1, w1)"
    and "ext_length s1 w1 (hdr ! 1) = (Inr pl, s2, w2)"
    and "mask_key s2 w2 (hdr ! 1 AND 0x80 \<noteq> 0) = (Inr key, s3, w3)"
    and "copy_payload s3 w3 (hdr ! 1 AND 0x80 \<noteq> 0) key pl = ((err, pay), s)"
  shows "forwardFrame src w = ((err, (hdr_frame hdr)\<lparr>f_len := pl, f_payload := pay\<rparr>), s)"
  using assms by (simp add: forwardFrame_def)

text \<open>The bytes after the extended length, and what is left of them once the key is read.\<close>

definition wire_tail :: "byte list option \<Rightarrow> byte list \<Rightarrow> byte list" where
  "wire_tail key payload = (case key of None \<Rightarrow> payload | Some k \<Rightarrow> k @ xor_mask k payload)"

lemma tail_stages:
  assumes "w_cap w = None" "wf_wire op key payload" "m \<longleftrightarrow> key \<noteq> None"
  shows "\<exists>k s3 w3. mask_key (wire_tail key payload @ rest) w m = (Inr k, s3, w3)
    \<and> copy_payload s3 w3 m k (of_nat (length payload)) =
        ((None, if length payload \<le> AuditLimit then Some payload else None), rest,
         emit (wire_tail key payload) w)"
proof (cases key)
  case None
  then show ?thesis
    using assms copy_payload_emit [of w "length payload" payload rest False]
    by (simp add: wire_tail_def mask_key_def wf_wire_def)
next
  case (Some k)
  then have "relay (wire_tail key payload @ rest) w 4 = (Relayed k, xor_mask k payload @ rest, emit k w)"
    using assms relay_emit [of w k 4 "xor_mask k payload @ rest"] by (simp add: wire_tail_def wf_wire_def)
  then show ?thesis
    using assms Some copy_payload_emit [of "emit k w" "length payload" "xor_mask k payload" rest True k]
    by (simp add: wire_tail_def mask_key_def wf_wire_def)
qed

lemma forwardFrame_encode:
  assumes "w_cap w = None" "wf_wire op key payload"
  shows "forwardFrame (encode_frame fin op key payload @ rest) w =
    ((None, \<lparr>f_opcode = op, f_rsv1 = False, f_fin = fin,
        f_payload = (if length payload \<le> AuditLimit then Some payload else None),
        f_len = of_nat (length payload)\<rparr>),
     rest, emit (encode_frame fin op key payload) w)"
proof -
  let ?n = "length payload" and ?t = "wire_tail key payload"
  define hdr where "hdr = [(if fin then 0x80 else 0) OR op,
    (if key \<noteq> None then 0x80 else 0) OR of_nat (fst (encode_len ?n))]"
  have e: "encode_frame fin op key payload = hdr @ snd (encode_len ?n) @ ?t"
    by (simp add: encode_frame_def hdr_def wire_tail_def)
  have len: "length hdr = 2" and fr: "hdr_frame hdr = \<lparr>f_opcode = op, f_rsv1 = False, f_fin = fin, f_payload = None, f_len = 0\<rparr>"
    using assms(2) header_byte0 by (auto simp: hdr_def wf_wire_def)
  have b1: "hdr ! 1 AND 0x7F = of_nat (fst (encode_len ?n))" "hdr ! 1 AND 0x80 \<noteq> 0 \<longleftrightarrow> key \<noteq> None"
    using header_byte1 [OF encode_len_small, of "key \<noteq> None" ?n] by (simp_all add: hdr_def)
  let ?w = "emit (hdr @ snd (encode_len ?n)) w"
  have h: "relay (encode_frame fin op key payload @ rest) w 2 =
      (Relayed hdr, snd (encode_len ?n) @ ?t @ rest, emit hdr w)"
    unfolding e using relay_emit [OF assms(1) len] by simp
  have l: "ext_length (snd (encode_len ?n) @ ?t @ rest) (emit hdr w) (hdr ! 1) = (Inr (of_nat ?n), ?t @ rest, ?w)"
    using ext_length_emit [of "emit hdr w" "hdr ! 1" ?n "?t @ rest"] b1(1) assms(1) by simp
  obtain k s3 w3 where "mask_key (?t @ rest) ?w (hdr ! 1 AND 0x80 \<noteq> 0) = (Inr k, s3, w3)"
    "copy_payload s3 w3 (hdr ! 1 AND 0x80 \<noteq> 0) k (of_nat ?n) =
       ((None, if ?n \<le> AuditLimit then Some payload else None), rest, emit ?t ?w)"
    using tail_stages [of ?w op key payload "hdr ! 1 AND 0x80 \<noteq> 0" rest] assms b1(2) by auto
  from forwardFrame_stages [OF h l this] show ?thesis by (simp add: fr e)
qed

section \<open>A stream of frames\<close>

text \<open>A frame as a peer sends it: FIN, opcode, masking key, payload.\<close>

type_synonym wire = "bool \<times> byte \<times> byte list option \<times> byte list"

definition wire_bytes :: "wire \<Rightarrow> byte list" where
  "wire_bytes f = (case f of (fin, op, key, payload) \<Rightarrow> encode_frame fin op key payload)"

definition wire_ok :: "wire \<Rightarrow> bool" where
  "wire_ok f = (case f of (fin, op, key, payload) \<Rightarrow> wf_wire op key payload)"

definition wire_seen :: "wire \<Rightarrow> ws_frame" where
  "wire_seen f = (case f of (fin, op, key, payload) \<Rightarrow>
     \<lparr>f_opcode = op, f_rsv1 = False, f_fin = fin,
      f_payload = (if length payload \<le> AuditLimit then Some payload else None),
      f_len = of_nat (length payload)\<rparr>)"

fun bodies :: "wire list \<Rightarrow> assembler \<Rightarrow> string list" where
  "bodies [] a = []"
| "bodies (f # fs) a =
     (case frame_body (wire_seen f) a of (b, a') \<Rightarrow> (if b \<noteq> [] then [b] else []) @ bodies fs a')"

lemma forwardFrame_wire:
  "w_cap w = None \<Longrightarrow> wire_ok f \<Longrightarrow>
   forwardFrame (wire_bytes f @ rest) w = ((None, wire_seen f), rest, emit (wire_bytes f) w)"
  by (cases f) (simp add: wire_bytes_def wire_ok_def wire_seen_def forwardFrame_encode)

lemma forwardFrame_end: "\<exists>fr. forwardFrame [] w = ((Some EOF, fr), [], w)"
  by (simp add: forwardFrame_def relay_def ReadFull_def)

lemma Forward_loop_frames:
  "w_cap w = None \<Longrightarrow> list_all wire_ok fs \<Longrightarrow>
   Forward_loop (concat (map wire_bytes fs)) w dir a =
     (map (\<lambda>b. (b, dir)) (bodies fs a), emit (concat (map wire_bytes fs)) w)"
proof (induction fs arbitrary: w a)
  case Nil
  obtain fr where "forwardFrame [] w = ((Some EOF, fr), [], w)" using forwardFrame_end by blast
  then show ?case by (simp add: Forward_loop.simps)
next
  case (Cons f fs)
  then show ?case
    by (simp add: Forward_loop.simps [of "wire_bytes f @ _"] forwardFrame_wire split: prod.splits)
qed

text \<open>A message in fragments: the assembler holds what it has seen of it.\<close>

definition holding :: "byte \<Rightarrow> byte list \<Rightarrow> assembler \<Rightarrow> bool" where
  "holding op d a \<longleftrightarrow> a_inflight a \<and> \<not> a_overflow a \<and> a_opcode a = op \<and> a_buf a = d"

lemma bodies_continue:
  assumes "holding op d a" "length d + length (concat (map snd ps)) + length (snd l) \<le> AuditLimit"
  shows "bodies (map (\<lambda>(k, p). (False, OpContinuation, k, p)) ps @ [(True, OpContinuation, fst l, snd l)]) a =
    (let b = render op (d @ concat (map snd ps) @ snd l) in if b \<noteq> [] then [b] else [])"
  using assms
proof (induction ps arbitrary: d a)
  case Nil
  then show ?case
    by (cases l) (simp add: wire_seen_def frame_body_def asm_frame_def asm_append_def holding_def op_defs Let_def)
next
  case (Cons kp ps)
  obtain k p where kp: "kp = (k, p)" by force
  let ?a = "a\<lparr>a_buf := d @ p\<rparr>"
  have "frame_body (wire_seen (False, OpContinuation, k, p)) a = ([], ?a)"
    using Cons.prems by (simp add: kp wire_seen_def frame_body_def asm_frame_def asm_append_def holding_def op_defs Let_def)
  moreover have "holding op (d @ p) ?a" using Cons.prems(1) by (simp add: holding_def)
  ultimately show ?case using Cons.IH [of "d @ p" ?a] Cons.prems(2) by (simp add: kp)
qed

lemma bodies_fragmented:
  assumes "op = OpText \<or> op = OpBinary"
    and "length p0 + length (concat (map snd ps)) + length (snd l) \<le> AuditLimit"
  shows "bodies ((False, op, k0, p0) # map (\<lambda>(k, p). (False, OpContinuation, k, p)) ps
      @ [(True, OpContinuation, fst l, snd l)]) a =
    (let b = render op (p0 @ concat (map snd ps) @ snd l) in if b \<noteq> [] then [b] else [])"
proof -
  let ?a = "a\<lparr>a_opcode := op, a_inflight := True, a_overflow := False, a_buf := p0\<rparr>"
  have "frame_body (wire_seen (False, op, k0, p0)) a = ([], ?a)"
    using assms by (auto simp: wire_seen_def frame_body_def asm_frame_def asm_append_def Let_def)
  moreover have "holding op p0 ?a" by (simp add: holding_def)
  ultimately show ?thesis using bodies_continue [of op p0 ?a ps l] assms(2) by simp
qed

text \<open>The assembly buffer stays within the limit.\<close>

lemma asm_append_bound: "length (a_buf a) \<le> AuditLimit \<Longrightarrow> length (a_buf (asm_append p a)) \<le> AuditLimit"
  by (simp add: asm_append_def split: option.splits)

lemma frame_body_bound:
  "length (a_buf a) \<le> AuditLimit \<Longrightarrow> length (a_buf (snd (frame_body fr a))) \<le> AuditLimit"
  using asm_append_bound
  by (auto simp: frame_body_def asm_frame_def Let_def split: option.splits)

section \<open>The upgrade request\<close>

text \<open>\<^verbatim>\<open>StripExtensionsRaw\<close> works on the bytes up to the first blank line.\<close>

definition crlf :: string where "crlf = [CHR 0x0D, CHR 0x0A]"

fun index_sub :: "string \<Rightarrow> string \<Rightarrow> nat option" where
  "index_sub pat [] = (if pat = [] then Some 0 else None)"
| "index_sub pat (c # cs) =
     (if take (length pat) (c # cs) = pat then Some 0 else map_option Suc (index_sub pat cs))"

fun split_crlf :: "string \<Rightarrow> string \<Rightarrow> string list" where
  "split_crlf acc (a # b # cs) =
     (if [a, b] = crlf then rev acc # split_crlf [] cs else split_crlf (a # acc) (b # cs))"
| "split_crlf acc [a] = [rev (a # acc)]"
| "split_crlf acc [] = [rev acc]"

definition join_crlf :: "string list \<Rightarrow> string" where
  "join_crlf ls = (case ls of [] \<Rightarrow> [] | l # ls' \<Rightarrow> l @ concat (map (\<lambda>m. crlf @ m) ls'))"

definition ext_line :: "string \<Rightarrow> bool" where
  "ext_line line = (case first_index line (CHR '':'') of
     None \<Rightarrow> False
   | Some colon \<Rightarrow> EqualFold (TrimSpace (take colon line)) ''Sec-WebSocket-Extensions'')"

definition StripExtensionsRaw :: "string \<Rightarrow> string" where
  "StripExtensionsRaw raw =
     (case index_sub (crlf @ crlf) raw of
        None \<Rightarrow> raw
      | Some end \<Rightarrow>
          let lines = split_crlf [] (take end raw); kept = filter (\<lambda>l. \<not> ext_line l) lines in
          if length kept = length lines then raw
          else join_crlf kept @ drop end raw)"

lemma join_crlf_Cons: "ls \<noteq> [] \<Longrightarrow> join_crlf (l # ls) = l @ crlf @ join_crlf ls"
  by (cases ls) (simp_all add: join_crlf_def)

lemma split_crlf_ne: "split_crlf acc s \<noteq> []"
  by (induction acc s rule: split_crlf.induct) auto

lemma split_crlf_join: "join_crlf (split_crlf acc s) = rev acc @ s"
proof (induction acc s rule: split_crlf.induct)
  case (1 acc a b cs)
  then show ?case by (auto simp: join_crlf_Cons split_crlf_ne)
qed (simp_all add: join_crlf_def)

text \<open>Whatever the lines are, stripping keeps exactly those that are not an extensions
  header, in order, and every byte from the blank line on.\<close>

lemma StripExtensionsRaw_lines:
  assumes "index_sub (crlf @ crlf) raw = Some n"
  shows "StripExtensionsRaw raw =
    join_crlf (filter (\<lambda>l. \<not> ext_line l) (split_crlf [] (take n raw))) @ drop n raw"
proof (cases "filter (\<lambda>l. \<not> ext_line l) (split_crlf [] (take n raw)) = split_crlf [] (take n raw)")
  case True
  then show ?thesis
    using assms split_crlf_join [of "[]" "take n raw"] by (simp add: StripExtensionsRaw_def Let_def)
next
  case False
  then have "length (filter (\<lambda>l. \<not> ext_line l) (split_crlf [] (take n raw))) \<noteq> length (split_crlf [] (take n raw))"
    by (metis filter_id_conv length_filter_less nat_neq_iff)
  then show ?thesis using assms by (simp add: StripExtensionsRaw_def Let_def)
qed

section \<open>Properties\<close>

text \<open>
  Every frame a peer can send, masked or not and in any of the three length forms, is
  relayed byte for byte, and what the audit is given is the opcode, the FIN bit, the
  announced length and the payload with the mask removed (no payload above the audit
  limit).
\<close>

theorem forwardFrame_roundtrip:
  assumes "unat op < 16" "\<forall>k. key = Some k \<longrightarrow> length k = 4" "length payload < 2 ^ 63"
  shows "forwardFrame (encode_frame fin op key payload @ rest) \<lparr>w_out = out, w_cap = None\<rparr> =
    ((None, \<lparr>f_opcode = op, f_rsv1 = False, f_fin = fin,
        f_payload = (if length payload \<le> 65536 then Some payload else None),
        f_len = of_nat (length payload)\<rparr>),
     rest, \<lparr>w_out = out @ encode_frame fin op key payload, w_cap = None\<rparr>)"
  using forwardFrame_encode [of "\<lparr>w_out = out, w_cap = None\<rparr>" op key payload fin rest] assms
  by (simp add: wf_wire_def emit_def AuditLimit_def split: option.splits)

theorem forwardFrame_roundtrip_witness:
  "forwardFrame (encode_frame True OpText (Some [1, 2, 3, 4]) [72, 105] @ [7]) \<lparr>w_out = [9], w_cap = None\<rparr> =
    ((None, \<lparr>f_opcode = OpText, f_rsv1 = False, f_fin = True, f_payload = Some [72, 105], f_len = 2\<rparr>),
     [7], \<lparr>w_out = 9 # encode_frame True OpText (Some [1, 2, 3, 4]) [72, 105], w_cap = None\<rparr>)"
  using forwardFrame_roundtrip [of OpText "Some [1, 2, 3, 4]" "[72, 105]" True "[7]" "[9]"]
  by (simp add: OpText_def)

text \<open>
  C19: whatever arrives and wherever the destination stops accepting, what \<^verbatim>\<open>Forward\<close> has
  written is a prefix of what it read, followed at most by zero bytes: no byte is altered,
  dropped or reordered.
\<close>

theorem Forward_transparent:
  "\<exists>q k. w_out (snd (Forward src dst dir)) = w_out dst @ q \<and> prefix q (src @ replicate k 0)"
  using Forward_loop_relays [of src dst dir asm_init] unfolding Forward_def
  by (metis prod.collapse)

text \<open>
  The padding does occur: a frame cut off inside a payload within the audit limit is
  completed with zero bytes the peer never sent.  The source announced a four-byte text
  frame, delivered one byte of it and ended; the destination received four.
\<close>

theorem Forward_pads_truncated_frame:
  "w_out (snd (Forward [0x81, 4, 65] \<lparr>w_out = [], w_cap = None\<rparr> DIR)) = [0x81, 4, 65, 0, 0, 0]"
proof -
  have z: "replicate 3 (0 :: byte) = [0, 0, 0]" by (simp add: numeral_3_eq_3)
  show ?thesis
    by (simp add: Forward_def Forward_loop.simps forwardFrame_def relay_def ReadFull_def Write_def
      ext_length_def mask_key_def copy_payload_def AuditLimit_def Let_def z)
qed

text \<open>
  A text or binary message sent in any number of fragments, its total within the audit
  limit, is forwarded unchanged and audited as exactly one chunk, labelled with the
  direction: the concatenation of the fragments for text, its size for binary.
\<close>

theorem Forward_fragmented_message:
  assumes "op = OpText \<or> op = OpBinary"
    and "fs = (False, op, k0, p0) # map (\<lambda>(k, p). (False, OpContinuation, k, p)) ps
               @ [(True, OpContinuation, kl, pl)]"
    and "\<forall>(fin, c, key, payload) \<in> set fs. wf_wire c key payload"
    and "p0 @ concat (map snd ps) @ pl \<noteq> []"
    and "length (p0 @ concat (map snd ps) @ pl) \<le> 65536"
  shows "Forward (concat (map wire_bytes fs)) \<lparr>w_out = [], w_cap = None\<rparr> dir =
    ([(render op (p0 @ concat (map snd ps) @ pl), dir)],
     \<lparr>w_out = concat (map wire_bytes fs), w_cap = None\<rparr>)"
proof -
  have ok: "list_all wire_ok fs" using assms(3) by (auto simp: list_all_iff wire_ok_def)
  have "render op (p0 @ concat (map snd ps) @ pl) \<noteq> []"
    using assms(4) by (auto simp: render_def bytes_string_def)
  then have "bodies fs asm_init = [render op (p0 @ concat (map snd ps) @ pl)]"
    using bodies_fragmented [of op p0 ps "(kl, pl)" k0 asm_init] assms(1,2,5)
    by (simp add: AuditLimit_def Let_def)
  then show ?thesis
    using Forward_loop_frames [OF _ ok, of "\<lparr>w_out = [], w_cap = None\<rparr>" dir asm_init]
    by (simp add: Forward_def emit_def)
qed

theorem Forward_fragmented_message_witness:
  "fst (Forward (concat (map wire_bytes [(False, OpText, Some [1, 2, 3, 4], [72]),
       (False, OpContinuation, None, [101]), (True, OpContinuation, None, [108, 111])]))
     \<lparr>w_out = [], w_cap = None\<rparr> ''up'') = [(render OpText [72, 101, 108, 111], ''up'')]"
  using Forward_fragmented_message [of OpText _ "Some [1, 2, 3, 4]" "[72]" "[(None, [101])]" None "[108, 111]" "''up''"]
  by (simp add: wf_wire_def op_defs)

text \<open>
  A continuation frame above the audit limit is dropped from the audit without the
  overflow marker: the message it belongs to is recorded as if that frame had been empty.
\<close>

theorem oversized_continuation_unmarked:
  assumes "65536 < n" "p \<noteq> []" "length p \<le> 65536"
  shows "fst (asm_frame OpContinuation True None n (snd (asm_frame OpText False (Some p) (length p) asm_init)))
    = bytes_string p"
  using assms by (simp add: asm_frame_def asm_append_def asm_init_def op_defs AuditLimit_def render_def)

theorem oversized_continuation_unmarked_witness:
  "fst (asm_frame OpContinuation True None 70000 (snd (asm_frame OpText False (Some [72]) 1 asm_init)))
    = bytes_string [72]"
  using oversized_continuation_unmarked [of 70000 "[72]"] by simp

text \<open>
  The raw upgrade request is forwarded without its extensions header: the lines kept
  are exactly the others in their order, every byte from the blank line on is untouched,
  and a request without such a header is unchanged.
\<close>

theorem StripExtensionsRaw_exact:
  assumes "index_sub (crlf @ crlf) raw = Some n"
  shows "StripExtensionsRaw raw =
      join_crlf (filter (\<lambda>l. \<not> ext_line l) (split_crlf [] (take n raw))) @ drop n raw
    \<and> join_crlf (split_crlf [] (take n raw)) = take n raw"
  using StripExtensionsRaw_lines [OF assms] split_crlf_join [of "[]" "take n raw"] by simp

theorem StripExtensionsRaw_exact_witness:
  "StripExtensionsRaw (''GET'' @ crlf @ ''sec-websocket-extensions: x'' @ crlf @ ''A: b'' @ crlf @ crlf @ ''Z'')
    = ''GET'' @ crlf @ ''A: b'' @ crlf @ crlf @ ''Z''"
proof -
  let ?raw = "''GET'' @ crlf @ ''sec-websocket-extensions: x'' @ crlf @ ''A: b'' @ crlf @ crlf @ ''Z''"
  have i: "index_sub (crlf @ crlf) ?raw = Some 38" by (simp add: crlf_def)
  have "ext_line ''sec-websocket-extensions: x''" "\<not> ext_line ''GET''" "\<not> ext_line ''A: b''"
    by code_simp+
  then show ?thesis
    using StripExtensionsRaw_exact [OF i] by (simp add: crlf_def join_crlf_def)
qed

end
