(* ===== verification/Histories.thy ===== *)
theory Histories
  imports Prelude
begin

text \<open>
  The interface of a bounded history: the event broker keeps its most recent entries for
  resuming clients, a terminal session keeps its most recent output for late attachers.
  Both promise that what they hold is the end of everything pushed.
\<close>

locale recent_log =
  fixes push :: "'a \<Rightarrow> 'r \<Rightarrow> 'r" and contents :: "'r \<Rightarrow> 'a list" and ok :: "'r \<Rightarrow> bool"
  assumes push_ok: "ok r \<Longrightarrow> ok (push x r)"
    and push_suffix: "ok r \<Longrightarrow> suffix (contents (push x r)) (contents r @ [x])"
begin

lemma push_history: "ok r \<Longrightarrow> suffix (contents r) h \<Longrightarrow> suffix (contents (push x r)) (h @ [x])"
  using push_suffix [of r x] by (auto simp: suffix_def)

lemma pushes_suffix:
  "ok r \<Longrightarrow> suffix (contents r) h \<Longrightarrow>
   ok (fold push xs r) \<and> suffix (contents (fold push xs r)) (h @ xs)"
proof (induction xs arbitrary: r h)
  case (Cons x xs)
  then show ?case using Cons.IH [of "push x r" "h @ [x]"] push_ok push_history by simp
qed simp

end

end
