(* ===== verification/Broker.thy ===== *)
theory Broker
  imports Histories
begin

text \<open>
  The event broker (\<^verbatim>\<open>internal/events/broker.go\<close>): allocation of ids, the ring kept for
  resuming clients, the per-subscriber channels and the shutdown of all of them.  Channels
  live in a store indexed by allocation order; sending on or closing a closed channel
  panics in Go and is recorded here as \<open>panicked\<close>.
\<close>

section \<open>State\<close>

record 'e Entry =
  en_ID :: int
  en_Event :: 'e

record 'e chan =
  ch_buf :: "'e Entry list"
  ch_cap :: nat
  ch_open :: bool

record 'e broker =
  nextID :: int
  ring :: "'e Entry list"
  b_cap :: nat
  subs :: "(int \<times> nat) list"
  nextSub :: int
  subDepth :: nat
  lastPublishAt :: "int option"
  b_closed :: bool
  b_filter :: "string list option"
  hooked :: bool
  activity :: nat
  chans :: "'e chan list"
  panicked :: bool

definition DefaultCapacity :: int where "DefaultCapacity = 500"

definition New :: "int \<Rightarrow> int \<Rightarrow> 'e broker" where
  "New capacity depth =
     (let capacity = (if capacity \<le> 0 then DefaultCapacity else capacity);
          depth = (if depth \<le> 0 then 64 else depth)
      in \<lparr>nextID = 0, ring = [], b_cap = nat capacity, subs = [], nextSub = 0, subDepth = nat depth,
          lastPublishAt = None, b_closed = False, b_filter = None, hooked = False, activity = 0,
          chans = [], panicked = False\<rparr>)"

definition SetActivityHook :: "'e broker \<Rightarrow> 'e broker" where
  "SetActivityHook b = b\<lparr>hooked := True\<rparr>"

definition SetFilter :: "string list option \<Rightarrow> 'e broker \<Rightarrow> 'e broker" where
  "SetFilter types b = b\<lparr>b_filter := types\<rparr>"

definition observesLocked :: "'e broker \<Rightarrow> string \<Rightarrow> bool" where
  "observesLocked b eventType =
     (case b_filter b of None \<Rightarrow> True | Some ts \<Rightarrow> list_ex (\<lambda>t. t = eventType) ts)"

definition Observes :: "'e broker \<Rightarrow> string \<Rightarrow> bool" where
  "Observes b eventType = observesLocked b eventType"

definition FilterFromConfig :: "string list option \<Rightarrow> string list option" where
  "FilterFromConfig types = (case types of None \<Rightarrow> None | Some ts \<Rightarrow> Some (map (\<lambda>t. t) ts))"

section \<open>Publishing\<close>

definition ring_push :: "nat \<Rightarrow> 'e Entry \<Rightarrow> 'e Entry list \<Rightarrow> 'e Entry list" where
  "ring_push cap entry r = (if length r < cap then r @ [entry] else tl r @ [entry])"

text \<open>The \<^verbatim>\<open>select\<close> with a \<^verbatim>\<open>default\<close>: a full channel skips the entry.\<close>

definition offer :: "'e Entry \<Rightarrow> 'e chan \<Rightarrow> 'e chan" where
  "offer e c = (if length (ch_buf c) < ch_cap c then c\<lparr>ch_buf := ch_buf c @ [e]\<rparr> else c)"

text \<open>The range over \<^verbatim>\<open>b.subs\<close>: each subscriber's channel is offered the entry once; the
  order does not matter, the channels being distinct.\<close>

definition fan_out :: "'e Entry \<Rightarrow> 'e broker \<Rightarrow> 'e broker" where
  "fan_out e b = b\<lparr>
     panicked := panicked b \<or> list_ex (\<lambda>(i, c). \<not> ch_open (chans b ! c)) (subs b),
     chans := fold (\<lambda>(i, c) cs. cs[c := offer e (cs ! c)]) (subs b) (chans b)\<rparr>"

definition publish :: "('e \<Rightarrow> string option) \<Rightarrow> (int \<Rightarrow> int \<Rightarrow> 'e) \<Rightarrow> int \<Rightarrow> bool \<Rightarrow> 'e broker \<Rightarrow> int \<times> 'e broker" where
  "publish Discriminator build now store b =
     (let b1 = b\<lparr>nextID := nextID b + 1\<rparr>;
          entry = \<lparr>en_ID = nextID b1, en_Event = build (nextID b1) now\<rparr>;
          b2 = b1\<lparr>lastPublishAt := Some now\<rparr>;
          seen = (case Discriminator (en_Event entry) of None \<Rightarrow> True | Some typ \<Rightarrow> observesLocked b2 typ);
          b3 = (if seen then
                  fan_out entry (if store then b2\<lparr>ring := ring_push (b_cap b2) entry (ring b2)\<rparr> else b2)
                else b2)
      in (nextID b3, b3))"

definition Publish :: "('e \<Rightarrow> string option) \<Rightarrow> (int \<Rightarrow> int \<Rightarrow> 'e) \<Rightarrow> int \<Rightarrow> 'e broker \<Rightarrow> int \<times> 'e broker" where
  "Publish Discriminator build now b =
     (case publish Discriminator build now True b of
        (i, b') \<Rightarrow> (i, if hooked b' then b'\<lparr>activity := activity b' + 1\<rparr> else b'))"

definition PublishSilent :: "('e \<Rightarrow> string option) \<Rightarrow> (int \<Rightarrow> int \<Rightarrow> 'e) \<Rightarrow> int \<Rightarrow> 'e broker \<Rightarrow> int \<times> 'e broker" where
  "PublishSilent Discriminator build now b = publish Discriminator build now True b"

section \<open>Subscribing\<close>

text \<open>The cancel function returned by \<^verbatim>\<open>Subscribe\<close>: the id and channel it captured, or the
  no-op of a closed broker.\<close>

type_synonym cancel_fun = "(int \<times> nat) option"

definition Subscribe :: "int \<Rightarrow> 'e broker \<Rightarrow> ('e Entry list \<times> nat \<times> cancel_fun) \<times> 'e broker" where
  "Subscribe after b =
     (let c = length (chans b);
          ch = \<lparr>ch_buf = [], ch_cap = subDepth b, ch_open = True\<rparr>
      in if b_closed b then (([], c, None), b\<lparr>chans := chans b @ [ch\<lparr>ch_open := False\<rparr>]\<rparr>)
         else let replay = filter (\<lambda>e. en_ID e > after) (ring b); sid = nextSub b in
           ((replay, c, Some (sid, c)),
            b\<lparr>nextSub := nextSub b + 1, subs := subs b @ [(sid, c)], chans := chans b @ [ch]\<rparr>))"

definition close_chan :: "nat \<Rightarrow> 'e broker \<Rightarrow> 'e broker" where
  "close_chan c b = b\<lparr>panicked := panicked b \<or> \<not> ch_open (chans b ! c),
     chans := (chans b)[c := (chans b ! c)\<lparr>ch_open := False\<rparr>]\<rparr>"

definition unsubscribe :: "int \<Rightarrow> nat \<Rightarrow> 'e broker \<Rightarrow> 'e broker" where
  "unsubscribe sid c b =
     (if sid \<notin> fst ` set (subs b) then b
      else close_chan c (b\<lparr>subs := filter (\<lambda>(i, _). i \<noteq> sid) (subs b)\<rparr>))"

definition cancel :: "cancel_fun \<Rightarrow> 'e broker \<Rightarrow> 'e broker" where
  "cancel f b = (case f of None \<Rightarrow> b | Some (sid, c) \<Rightarrow> unsubscribe sid c b)"

text \<open>A subscriber receives the oldest buffered entry; \<open>None\<close> when the channel is empty.\<close>

definition receive :: "nat \<Rightarrow> 'e broker \<Rightarrow> 'e Entry option \<times> 'e broker" where
  "receive c b =
     (case ch_buf (chans b ! c) of
        [] \<Rightarrow> (None, b)
      | e # es \<Rightarrow> (Some e, b\<lparr>chans := (chans b)[c := (chans b ! c)\<lparr>ch_buf := es\<rparr>]\<rparr>))"

definition SubscriberCount :: "'e broker \<Rightarrow> nat" where
  "SubscriberCount b = length (subs b)"

definition drained :: "int \<Rightarrow> int \<Rightarrow> 'e broker \<Rightarrow> bool" where
  "drained now quietFor b =
     (if (case lastPublishAt b of None \<Rightarrow> False | Some t \<Rightarrow> now - t < quietFor) then False
      else list_all (\<lambda>(i, c). ch_buf (chans b ! c) = []) (subs b))"

text \<open>\<^verbatim>\<open>Close\<close> takes the subscriptions under the lock and closes their channels after
  releasing it: the two halves are separate, with the channels still to be closed between.\<close>

definition Close_begin :: "'e broker \<Rightarrow> nat list \<times> 'e broker" where
  "Close_begin b =
     (if b_closed b then ([], b) else (map snd (subs b), b\<lparr>b_closed := True, subs := []\<rparr>))"

section \<open>The ring\<close>

interpretation ringlog: recent_log "ring_push cap" "\<lambda>r. r" "\<lambda>r. length r \<le> cap \<and> 0 < cap" for cap
proof
  show "length (ring_push cap x r) \<le> cap \<and> 0 < cap" if "length r \<le> cap \<and> 0 < cap" for r :: "'e Entry list" and x
    using that by (auto simp: ring_push_def)
  show "suffix (ring_push cap x r) (r @ [x])" if "length r \<le> cap \<and> 0 < cap" for r :: "'e Entry list" and x
    using that by (cases r) (auto simp: ring_push_def suffix_def)
qed

section \<open>Runs of the broker\<close>

text \<open>
  What a subscriber has: the point it resumes after, its replay, its channel, its cancel
  function, the length of the history when it subscribed, what it has received since, and
  whether an entry was skipped for it because its channel was full.
\<close>

record 'e view =
  v_after :: int
  v_replay :: "'e Entry list"
  v_chan :: nat
  v_cancel :: cancel_fun
  v_base :: nat
  v_got :: "'e Entry list"
  v_missed :: bool

record 'e broker_sys =
  sys_b :: "'e broker"
  sys_hist :: "'e Entry list"
  sys_pending :: "nat list"
  sys_views :: "'e view list"

definition observed :: "('e \<Rightarrow> string option) \<Rightarrow> 'e \<Rightarrow> 'e broker \<Rightarrow> bool" where
  "observed disc ev b = (case disc ev of None \<Rightarrow> True | Some typ \<Rightarrow> observesLocked b typ)"

definition full_for :: "'e broker \<Rightarrow> 'e view \<Rightarrow> bool" where
  "full_for b v \<longleftrightarrow> (\<exists>sid. v_cancel v = Some (sid, v_chan v) \<and> (sid, v_chan v) \<in> set (subs b)) \<and>
     \<not> length (ch_buf (chans b ! v_chan v)) < ch_cap (chans b ! v_chan v)"

definition note_publish :: "('e \<Rightarrow> string option) \<Rightarrow> (int \<Rightarrow> int \<Rightarrow> 'e) \<Rightarrow> int \<Rightarrow> 'e broker \<Rightarrow> 'e broker_sys \<Rightarrow> 'e broker_sys" where
  "note_publish disc build now b' s =
     (let b = sys_b s; i = nextID b + 1; ev = build i now in
      if observed disc ev b then
        s\<lparr>sys_b := b', sys_hist := sys_hist s @ [\<lparr>en_ID = i, en_Event = ev\<rparr>],
          sys_views := map (\<lambda>v. v\<lparr>v_missed := v_missed v \<or> full_for b v\<rparr>) (sys_views s)\<rparr>
      else s\<lparr>sys_b := b'\<rparr>)"

inductive broker_step :: "('e \<Rightarrow> string option) \<Rightarrow> 'e broker_sys \<Rightarrow> 'e broker_sys \<Rightarrow> bool" for disc where
  bs_publish: "Publish disc build now (sys_b s) = (i, b') \<Longrightarrow>
     broker_step disc s (note_publish disc build now b' s)"
| bs_silent: "PublishSilent disc build now (sys_b s) = (i, b') \<Longrightarrow>
     broker_step disc s (note_publish disc build now b' s)"
| bs_filter: "broker_step disc s (s\<lparr>sys_b := SetFilter ts (sys_b s)\<rparr>)"
| bs_subscribe: "Subscribe after (sys_b s) = ((replay, c, f), b') \<Longrightarrow>
     broker_step disc s (s\<lparr>sys_b := b', sys_views := sys_views s @
       [\<lparr>v_after = after, v_replay = replay, v_chan = c, v_cancel = f, v_base = length (sys_hist s),
         v_got = [], v_missed = False\<rparr>]\<rparr>)"
| bs_cancel: "v \<in> set (sys_views s) \<Longrightarrow> broker_step disc s (s\<lparr>sys_b := cancel (v_cancel v) (sys_b s)\<rparr>)"
| bs_receive: "i < length (sys_views s) \<Longrightarrow> v = sys_views s ! i \<Longrightarrow>
     receive (v_chan v) (sys_b s) = (Some e, b') \<Longrightarrow>
     broker_step disc s (s\<lparr>sys_b := b', sys_views := (sys_views s)[i := v\<lparr>v_got := v_got v @ [e]\<rparr>]\<rparr>)"
| bs_close: "Close_begin (sys_b s) = (cs, b') \<Longrightarrow>
     broker_step disc s (s\<lparr>sys_b := b', sys_pending := sys_pending s @ cs\<rparr>)"
| bs_close_chan: "sys_pending s = c # cs \<Longrightarrow>
     broker_step disc s (s\<lparr>sys_b := close_chan c (sys_b s), sys_pending := cs\<rparr>)"

definition broker_start :: "int \<Rightarrow> int \<Rightarrow> 'e broker_sys" where
  "broker_start capacity depth = \<lparr>sys_b = New capacity depth, sys_hist = [], sys_pending = [], sys_views = []\<rparr>"

section \<open>Invariants\<close>

text \<open>Ids grow, and the ring is the end of the history of observed entries.\<close>

definition ring_ok :: "'e broker_sys \<Rightarrow> bool" where
  "ring_ok s \<longleftrightarrow> (let b = sys_b s in
     sorted_wrt (<) (map en_ID (sys_hist s)) \<and> (\<forall>e \<in> set (sys_hist s). en_ID e \<le> nextID b) \<and>
     suffix (ring b) (sys_hist s) \<and> length (ring b) = min (b_cap b) (length (sys_hist s)) \<and> 0 < b_cap b)"

text \<open>Channels of live subscriptions and of a shutdown in progress are open and distinct,
  so nothing is sent on a closed channel or closed twice.\<close>

definition chans_good :: "bool list \<Rightarrow> (int \<times> nat) list \<Rightarrow> nat list \<Rightarrow> int \<Rightarrow> (nat \<times> cancel_fun) list \<Rightarrow> bool" where
  "chans_good opens sb pending next views \<longleftrightarrow>
     distinct (map fst sb) \<and> distinct (map snd sb @ pending) \<and> distinct (map fst views) \<and>
     (\<forall>i c. (i, c) \<in> set sb \<longrightarrow> c < length opens \<and> opens ! c \<and> i < next) \<and>
     (\<forall>c \<in> set pending. c < length opens \<and> opens ! c) \<and>
     (\<forall>c f. (c, f) \<in> set views \<longrightarrow> c < length opens) \<and>
     (\<forall>c sid d. (c, Some (sid, d)) \<in> set views \<longrightarrow> d = c \<and> sid < next) \<and>
     (\<forall>c sid d c'. (c, Some (sid, d)) \<in> set views \<longrightarrow> (sid, c') \<in> set sb \<longrightarrow> c' = c) \<and>
     (\<forall>c f sid. (c, f) \<in> set views \<longrightarrow> (sid, c) \<in> set sb \<longrightarrow> f = Some (sid, c))"

definition chans_ok :: "'e broker_sys \<Rightarrow> bool" where
  "chans_ok s \<longleftrightarrow> (let b = sys_b s in
     \<not> panicked b \<and> (b_closed b \<longrightarrow> subs b = []) \<and>
     chans_good (map ch_open (chans b)) (subs b) (sys_pending s) (nextSub b)
       (map (\<lambda>v. (v_chan v, v_cancel v)) (sys_views s)))"

text \<open>What a subscriber has received and still has buffered is, in order, part of what was
  published since it subscribed; with no entry skipped it is an initial part, and all of
  it while the subscription lives.\<close>

definition live :: "'e broker \<Rightarrow> 'e view \<Rightarrow> bool" where
  "live b v \<longleftrightarrow> (\<exists>sid. v_cancel v = Some (sid, v_chan v) \<and> (sid, v_chan v) \<in> set (subs b))"

definition delivered :: "'e broker \<Rightarrow> 'e view \<Rightarrow> 'e Entry list" where
  "delivered b v = v_got v @ ch_buf (chans b ! v_chan v)"

definition view_ok :: "'e broker_sys \<Rightarrow> 'e view \<Rightarrow> bool" where
  "view_ok s v \<longleftrightarrow> (let b = sys_b s; since = drop (v_base v) (sys_hist s) in
     v_base v \<le> length (sys_hist s) \<and>
     subseq (delivered b v) since \<and>
     (\<not> v_missed v \<longrightarrow> prefix (delivered b v) since) \<and>
     (\<not> v_missed v \<and> live b v \<longrightarrow> delivered b v = since))"

section \<open>Preservation\<close>

definition pub_entry :: "(int \<Rightarrow> int \<Rightarrow> 'e) \<Rightarrow> int \<Rightarrow> 'e broker \<Rightarrow> 'e Entry" where
  "pub_entry build now b = \<lparr>en_ID = nextID b + 1, en_Event = build (nextID b + 1) now\<rparr>"

lemma publish_fields:
  assumes "Publish disc build now b = (i, b') \<or> PublishSilent disc build now b = (i, b')"
  shows "i = nextID b + 1" "nextID b' = nextID b + 1" "subs b' = subs b" "nextSub b' = nextSub b"
    "b_cap b' = b_cap b" "b_closed b' = b_closed b" "subDepth b' = subDepth b"
    "ring b' = (if observed disc (en_Event (pub_entry build now b)) b
                then ring_push (b_cap b) (pub_entry build now b) (ring b) else ring b)"
    "chans b' = (if observed disc (en_Event (pub_entry build now b)) b
                 then chans (fan_out (pub_entry build now b) b) else chans b)"
    "panicked b' = (if observed disc (en_Event (pub_entry build now b)) b
                    then panicked (fan_out (pub_entry build now b) b) else panicked b)"
  using assms
  by (auto simp: Publish_def PublishSilent_def publish_def fan_out_def pub_entry_def observed_def
    observesLocked_def Let_def split: if_splits prod.splits option.splits)

lemma fold_offer:
  assumes "distinct (map snd xs)" "\<forall>p \<in> set xs. snd p < length cs"
  shows "length (fold (\<lambda>(i, c) cs. cs[c := offer e (cs ! c)]) xs cs) = length cs \<and>
    (\<forall>c. fold (\<lambda>(i, c) cs. cs[c := offer e (cs ! c)]) xs cs ! c =
       (if c \<in> snd ` set xs then offer e (cs ! c) else cs ! c))"
  using assms
proof (induction xs arbitrary: cs)
  case (Cons x xs)
  obtain i c where x: "x = (i, c)" by force
  show ?case using Cons.prems Cons.IH [of "cs[c := offer e (cs ! c)]"] by (auto simp: x nth_list_update)
qed simp

lemma offer_open [simp]: "ch_open (offer e c) = ch_open c"
  by (simp add: offer_def)

lemma chans_goodD:
  assumes "chans_good opens sb pending next views"
  shows "distinct (map snd sb)" "\<And>i c. (i, c) \<in> set sb \<Longrightarrow> c < length opens \<and> opens ! c"
    "\<And>c. c \<in> set pending \<Longrightarrow> c < length opens \<and> opens ! c" "distinct (map fst views)"
    "\<And>c f. (c, f) \<in> set views \<Longrightarrow> c < length opens"
    "\<And>c f sid. (c, f) \<in> set views \<Longrightarrow> (sid, c) \<in> set sb \<Longrightarrow> f = Some (sid, c)"
    "\<And>c sid d. (c, Some (sid, d)) \<in> set views \<Longrightarrow> d = c \<and> sid < next"
    "\<And>c sid d c'. (c, Some (sid, d)) \<in> set views \<Longrightarrow> (sid, c') \<in> set sb \<Longrightarrow> c' = c"
  using assms unfolding chans_good_def distinct_append by blast+

lemma chans_ok_good:
  assumes "chans_ok s"
  shows "chans_good (map ch_open (chans (sys_b s))) (subs (sys_b s)) (sys_pending s) (nextSub (sys_b s))
       (map (\<lambda>v. (v_chan v, v_cancel v)) (sys_views s))" "\<not> panicked (sys_b s)"
  using assms by (auto simp: chans_ok_def Let_def)

lemma fan_out_chans:
  assumes "chans_ok s" "b = sys_b s"
  shows "length (chans (fan_out e b)) = length (chans b)" "\<not> panicked (fan_out e b)"
    "\<And>c. chans (fan_out e b) ! c = (if c \<in> snd ` set (subs b) then offer e (chans b ! c) else chans b ! c)"
    "map ch_open (chans (fan_out e b)) = map ch_open (chans b)"
proof -
  note g = chans_goodD [OF chans_ok_good(1) [OF assms(1)]] chans_ok_good(2) [OF assms(1)]
  have o: "\<forall>p \<in> set (subs b). snd p < length (chans b)" using g(2) assms(2) by force
  note f = fold_offer [OF g(1) [folded assms(2)] o, of e]
  show l: "length (chans (fan_out e b)) = length (chans b)"
    and n: "\<And>c. chans (fan_out e b) ! c = (if c \<in> snd ` set (subs b) then offer e (chans b ! c) else chans b ! c)"
    using f by (simp_all add: fan_out_def)
  show "map ch_open (chans (fan_out e b)) = map ch_open (chans b)"
    by (rule nth_equalityI) (simp_all add: l n)
  show "\<not> panicked (fan_out e b)"
    using g(2) g(9) assms(2) o by (fastforce simp: fan_out_def list_ex_iff)
qed

lemma note_publish_views:
  "map (\<lambda>v. (v_chan v, v_cancel v)) (sys_views (note_publish disc build now b' s)) =
   map (\<lambda>v. (v_chan v, v_cancel v)) (sys_views s)"
  by (simp add: note_publish_def Let_def)

lemma note_publish_simps [simp]:
  "sys_b (note_publish disc build now b' s) = b'"
  "sys_pending (note_publish disc build now b' s) = sys_pending s"
  by (simp_all add: note_publish_def Let_def)

lemma publish_ring_ok:
  assumes "Publish disc build now (sys_b s) = (i, b') \<or> PublishSilent disc build now (sys_b s) = (i, b')"
    and "ring_ok s"
  shows "ring_ok (note_publish disc build now b' s)"
proof -
  note f = publish_fields [OF assms(1)]
  have "length (ring (sys_b s)) \<le> b_cap (sys_b s) \<and> 0 < b_cap (sys_b s)" "suffix (ring (sys_b s)) (sys_hist s)"
    using assms(2) by (auto simp: ring_ok_def Let_def)
  note r = ringlog.push_history [OF this] ringlog.push_ok [OF this(1)]
  have "length (ring_push (b_cap (sys_b s)) e (ring (sys_b s))) = min (b_cap (sys_b s)) (Suc (length (sys_hist s)))" for e
    using assms(2) by (auto simp: ring_ok_def ring_push_def Let_def min_def)
  then show ?thesis
    using assms(2) r f unfolding ring_ok_def note_publish_def
    by (auto simp: Let_def pub_entry_def sorted_wrt_append)
qed

lemma publish_chans_ok:
  assumes "Publish disc build now (sys_b s) = (i, b') \<or> PublishSilent disc build now (sys_b s) = (i, b')"
    and "chans_ok s"
  shows "chans_ok (note_publish disc build now b' s)"
proof -
  note f = publish_fields [OF assms(1)]
  note c = fan_out_chans [OF assms(2) refl, of "pub_entry build now (sys_b s)"]
  show ?thesis
    using assms(2) f c by (simp add: chans_ok_def note_publish_views Let_def)
qed

lemma subseq_snoc_same: "subseq xs ys \<Longrightarrow> subseq (xs @ [e]) (ys @ [e])"
  by (simp add: list_emb_append_mono)

lemma subseq_snoc_skip: "subseq xs ys \<Longrightarrow> subseq xs (ys @ [e])"
  by (rule subseq_rev_drop_many)

lemma delivery_extend:
  assumes "subseq d since" "\<not> m \<longrightarrow> prefix d since" "\<not> m \<and> lv \<longrightarrow> d = since"
  shows "subseq (if lv \<and> \<not> full then d @ [e] else d) (since @ [e])"
    "\<not> (m \<or> full) \<longrightarrow> prefix (if lv \<and> \<not> full then d @ [e] else d) (since @ [e])"
    "\<not> (m \<or> full) \<and> lv \<longrightarrow> (if lv \<and> \<not> full then d @ [e] else d) = since @ [e]"
  using assms by (auto simp: subseq_snoc_same subseq_snoc_skip)

lemma view_member:
  "u \<in> set vs \<Longrightarrow> (v_chan u, v_cancel u) \<in> set (map (\<lambda>v. (v_chan v, v_cancel v)) vs)"
  by auto

lemma live_mem:
  assumes "chans_ok s" "u \<in> set (sys_views s)"
  shows "v_chan u \<in> snd ` set (subs (sys_b s)) \<longleftrightarrow> live (sys_b s) u"
proof
  assume "v_chan u \<in> snd ` set (subs (sys_b s))"
  then obtain sid where m: "(sid, v_chan u) \<in> set (subs (sys_b s))" by auto
  have "v_cancel u = Some (sid, v_chan u)"
    by (rule chans_goodD(6) [OF chans_ok_good(1) [OF assms(1)] view_member [OF assms(2)] m])
  with m show "live (sys_b s) u" by (auto simp: live_def)
qed (auto simp: live_def image_iff Bex_def)

lemma publish_view_ok:
  assumes "Publish disc build now (sys_b s) = (i, b') \<or> PublishSilent disc build now (sys_b s) = (i, b')"
    and "chans_ok s" "\<forall>v \<in> set (sys_views s). view_ok s v"
  shows "\<forall>v \<in> set (sys_views (note_publish disc build now b' s)). view_ok (note_publish disc build now b' s) v"
proof (cases "observed disc (en_Event (pub_entry build now (sys_b s))) (sys_b s)")
  case False
  note f = publish_fields [OF assms(1)]
  show ?thesis
    using assms(3) False f by (simp add: note_publish_def pub_entry_def Let_def view_ok_def live_def delivered_def)
next
  case True
  let ?e = "pub_entry build now (sys_b s)" and ?t = "note_publish disc build now b' s"
  note f = publish_fields [OF assms(1)]
  note c = fan_out_chans [OF assms(2) refl, of ?e]
  show ?thesis
  proof
    fix v assume "v \<in> set (sys_views ?t)"
    then obtain u where u: "u \<in> set (sys_views s)" "v = u\<lparr>v_missed := v_missed u \<or> full_for (sys_b s) u\<rparr>"
      using True by (auto simp: note_publish_def pub_entry_def Let_def)
    have ok: "view_ok s u" using assms(3) u(1) by blast
    have h: "sys_hist ?t = sys_hist s @ [?e]" "sys_b ?t = b'"
      using True by (auto simp: note_publish_def pub_entry_def Let_def)
    have lv: "live b' v \<longleftrightarrow> live (sys_b s) u" using f u by (simp add: live_def)
    note mem = live_mem [OF assms(2) u(1)]
    have d: "delivered b' v = (if live (sys_b s) u \<and> \<not> full_for (sys_b s) u
        then delivered (sys_b s) u @ [?e] else delivered (sys_b s) u)"
      using f(9) True c(3) [of "v_chan u"] mem u(2)
      by (auto simp: delivered_def offer_def full_for_def live_def)
    have fl: "full_for (sys_b s) u \<Longrightarrow> live (sys_b s) u" by (auto simp: full_for_def live_def)
    have since: "drop (v_base v) (sys_hist ?t) = drop (v_base u) (sys_hist s) @ [?e]"
      using ok h u(2) by (simp add: view_ok_def Let_def)
    have "subseq (delivered (sys_b s) u) (drop (v_base u) (sys_hist s))"
      "\<not> v_missed u \<longrightarrow> prefix (delivered (sys_b s) u) (drop (v_base u) (sys_hist s))"
      "\<not> v_missed u \<and> live (sys_b s) u \<longrightarrow> delivered (sys_b s) u = drop (v_base u) (sys_hist s)"
      "v_base u \<le> length (sys_hist s)"
      using ok by (simp_all add: view_ok_def Let_def)
    note e = delivery_extend [OF this(1-3), of "full_for (sys_b s) u" ?e, folded d since] this(4)
    have "v_missed v \<longleftrightarrow> v_missed u \<or> full_for (sys_b s) u" "v_base v = v_base u" using u(2) by simp_all
    then show "view_ok ?t v" unfolding view_ok_def Let_def h(2) using e lv h(1) by (simp only:) simp
  qed
qed

text \<open>The other operations leave ids, ring and history alone, and what each subscriber was
  delivered; a subscription can only end.\<close>

lemma ring_ok_same:
  "ring_ok s \<Longrightarrow> sys_hist t = sys_hist s \<Longrightarrow> nextID (sys_b t) = nextID (sys_b s) \<Longrightarrow>
   ring (sys_b t) = ring (sys_b s) \<Longrightarrow> b_cap (sys_b t) = b_cap (sys_b s) \<Longrightarrow> ring_ok t"
  by (simp add: ring_ok_def Let_def)

lemma view_ok_same:
  "view_ok s v \<Longrightarrow> sys_hist t = sys_hist s \<Longrightarrow> v_base w = v_base v \<Longrightarrow> v_missed w = v_missed v \<Longrightarrow>
   delivered (sys_b t) w = delivered (sys_b s) v \<Longrightarrow> (live (sys_b t) w \<Longrightarrow> live (sys_b s) v) \<Longrightarrow> view_ok t w"
  by (auto simp: view_ok_def Let_def)

lemma chans_goodI:
  assumes "distinct (map fst sb)" "distinct (map snd sb @ pending)" "distinct (map fst views)"
    and "\<And>i c. (i, c) \<in> set sb \<Longrightarrow> c < length opens \<and> opens ! c \<and> i < next"
    and "\<And>c. c \<in> set pending \<Longrightarrow> c < length opens \<and> opens ! c"
    and "\<And>c f. (c, f) \<in> set views \<Longrightarrow> c < length opens"
    and "\<And>c sid d. (c, Some (sid, d)) \<in> set views \<Longrightarrow> d = c \<and> sid < next"
    and "\<And>c sid d c'. (c, Some (sid, d)) \<in> set views \<Longrightarrow> (sid, c') \<in> set sb \<Longrightarrow> c' = c"
    and "\<And>c f sid. (c, f) \<in> set views \<Longrightarrow> (sid, c) \<in> set sb \<Longrightarrow> f = Some (sid, c)"
  shows "chans_good opens sb pending next views"
  unfolding chans_good_def using assms by simp

lemma chans_good_distinct:
  assumes "chans_good opens sb pending next views"
  shows "distinct (map fst sb)" "distinct (map snd sb @ pending)"
    "\<And>i c. (i, c) \<in> set sb \<Longrightarrow> i < next"
  using assms unfolding chans_good_def by blast+

lemma chans_good_close:
  assumes "chans_good opens sb pending next views" "set sb' \<subseteq> set sb" "set pending' \<subseteq> set pending"
    and "distinct (map fst sb')" "distinct (map snd sb' @ pending')" "c \<notin> snd ` set sb' \<union> set pending'"
  shows "chans_good (opens[c := False]) sb' pending' next views"
proof -
  note g = chans_goodD [OF assms(1)] chans_good_distinct [OF assms(1)]
  have ne: "d \<noteq> c" if "(i, d) \<in> set sb' \<or> d \<in> set pending'" for i d using that assms(6) by force
  have "d < length (opens[c := False]) \<and> (opens[c := False]) ! d \<and> i < next" if "(i, d) \<in> set sb'" for i d
    using that assms(2) g(2,11) ne [of i d] by auto
  moreover have "d < length (opens[c := False]) \<and> (opens[c := False]) ! d" if "d \<in> set pending'" for d
    using that assms(3) g(3) ne [of _ d] by auto
  ultimately show ?thesis
    by (intro chans_goodI assms(4,5) g(4)) (use g(5-8) assms(2) in \<open>auto simp: subset_iff\<close>)
qed

lemma chans_good_subscribe:
  assumes "chans_good opens sb pending next views"
  shows "chans_good (opens @ [True]) (sb @ [(next, length opens)]) pending (next + 1)
    (views @ [(length opens, Some (next, length opens))])"
proof -
  note g = chans_goodD [OF assms] chans_good_distinct [OF assms]
  have fresh: "(i, length opens) \<notin> set sb" "(next, c) \<notin> set sb" "length opens \<notin> set pending"
    "(length opens, f) \<notin> set views" "(c, Some (next, d)) \<notin> set views" for i c f d
    using g(2,3,5,7,11) by blast+
  have fi: "next \<notin> fst ` set sb" "length opens \<notin> snd ` set sb" "length opens \<notin> fst ` set views" using fresh by auto
  show ?thesis
  proof (rule chans_goodI)
    show "distinct (map fst (sb @ [(next, length opens)]))" using g(9) fi by simp
    show "distinct (map snd (sb @ [(next, length opens)]) @ pending)" using g(10) fi fresh(3) by auto
    show "distinct (map fst (views @ [(length opens, Some (next, length opens))]))" using g(4) fi by simp
  next
    fix i c assume "(i, c) \<in> set (sb @ [(next, length opens)])"
    then show "c < length (opens @ [True]) \<and> (opens @ [True]) ! c \<and> i < next + 1"
      using g(2,11) by (auto simp: nth_append less_imp_le)
  next
    fix c assume "c \<in> set pending"
    then show "c < length (opens @ [True]) \<and> (opens @ [True]) ! c" using g(3) [of c] by (simp add: nth_append)
  next
    fix c f assume "(c, f) \<in> set (views @ [(length opens, Some (next, length opens))])"
    then show "c < length (opens @ [True])" using g(5) [of c f] by auto
  next
    fix c sid d assume "(c, Some (sid, d)) \<in> set (views @ [(length opens, Some (next, length opens))])"
    then show "d = c \<and> sid < next + 1" using g(7) by fastforce
  next
    fix c sid d c' assume "(c, Some (sid, d)) \<in> set (views @ [(length opens, Some (next, length opens))])"
      "(sid, c') \<in> set (sb @ [(next, length opens)])"
    then show "c' = c" using g(8) fresh by auto
  next
    fix c f sid assume "(c, f) \<in> set (views @ [(length opens, Some (next, length opens))])"
      "(sid, c) \<in> set (sb @ [(next, length opens)])"
    then show "f = Some (sid, c)" using g(6) fresh by auto
  qed
qed

lemma chans_good_closed_sub:
  assumes "chans_good opens sb pending next views"
  shows "chans_good (opens @ [False]) sb pending next (views @ [(length opens, None)])"
proof (rule chans_goodI)
  note g = chans_goodD [OF assms] chans_good_distinct [OF assms]
  show "distinct (map fst (views @ [(length opens, None)]))" using g(4,5) by fastforce
  show "c < length (opens @ [False]) \<and> (opens @ [False]) ! c \<and> i < next" if "(i, c) \<in> set sb" for i c
    using g(2,11) [OF that] by (simp add: nth_append)
  show "c < length (opens @ [False]) \<and> (opens @ [False]) ! c" if "c \<in> set pending" for c
    using g(3) [OF that] by (simp add: nth_append)
  show "f = Some (sid, c)" if "(c, f) \<in> set (views @ [(length opens, None)])" "(sid, c) \<in> set sb" for c f sid
    using that g(6) g(2) [OF that(2)] by auto
qed (use chans_goodD [OF assms] chans_good_distinct [OF assms] in \<open>auto simp: less_Suc_eq\<close>)

lemma close_chan_simps [simp]:
  "nextID (close_chan c b) = nextID b" "ring (close_chan c b) = ring b" "b_cap (close_chan c b) = b_cap b"
  "subs (close_chan c b) = subs b" "nextSub (close_chan c b) = nextSub b" "b_closed (close_chan c b) = b_closed b"
  "panicked (close_chan c b) = (panicked b \<or> \<not> ch_open (chans b ! c))"
  "c < length (chans b) \<Longrightarrow> map ch_open (chans (close_chan c b)) = (map ch_open (chans b))[c := False]"
  by (simp_all add: close_chan_def map_update)

lemma close_chan_delivered [simp]: "delivered (close_chan c b) v = delivered b v"
  by (cases "c < length (chans b)") (auto simp: delivered_def close_chan_def nth_list_update list_update_beyond)

lemma subscribe_ok:
  assumes "Subscribe after (sys_b s) = ((replay, c, f), b')" "chans_ok s" "\<forall>v \<in> set (sys_views s). view_ok s v"
    and "t = s\<lparr>sys_b := b', sys_views := sys_views s @
       [\<lparr>v_after = after, v_replay = replay, v_chan = c, v_cancel = f, v_base = length (sys_hist s),
         v_got = [], v_missed = False\<rparr>]\<rparr>"
  shows "chans_ok t \<and> (\<forall>v \<in> set (sys_views t). view_ok t v)"
proof
  note g = chans_ok_good [OF assms(2)]
  show "chans_ok t"
    using assms(1,2,4) chans_good_subscribe [OF g(1)] chans_good_closed_sub [OF g(1)]
    by (auto simp: chans_ok_def Subscribe_def Let_def split: if_splits)
  have c: "c = length (chans (sys_b s))" "chans b' ! c = \<lparr>ch_buf = [], ch_cap = subDepth (sys_b s), ch_open = \<not> b_closed (sys_b s)\<rparr>"
    "\<And>d. d < c \<Longrightarrow> chans b' ! d = chans (sys_b s) ! d"
    using assms(1) by (auto simp: Subscribe_def Let_def nth_append split: if_splits)
  have old: "view_ok t v" if v: "v \<in> set (sys_views s)" for v
  proof (rule view_ok_same [of s v])
    note m = view_member [OF v]
    have "v_chan v < c" using chans_goodD(5) [OF g(1) m] c(1) by simp
    then show "delivered (sys_b t) v = delivered (sys_b s) v" using c(3) assms(4) by (simp add: delivered_def)
    show "live (sys_b s) v" if "live (sys_b t) v"
      using that chans_goodD(7) [OF g(1)] m assms(1,4) \<open>v_chan v < c\<close> c(1)
      by (auto simp: live_def Subscribe_def Let_def split: if_splits)
  qed (use v assms(3,4) in auto)
  show "\<forall>v \<in> set (sys_views t). view_ok t v"
    using old c(2) assms(4) by (auto simp: view_ok_def delivered_def Let_def)
qed

lemma receive_ok:
  assumes "i < length (sys_views s)" "v = sys_views s ! i" "receive (v_chan v) (sys_b s) = (Some e, b')"
    and "chans_ok s" "\<forall>v \<in> set (sys_views s). view_ok s v"
    and "t = s\<lparr>sys_b := b', sys_views := (sys_views s)[i := v\<lparr>v_got := v_got v @ [e]\<rparr>]\<rparr>"
  shows "ring_ok s \<Longrightarrow> ring_ok t" "chans_ok t" "\<forall>v \<in> set (sys_views t). view_ok t v"
proof -
  note g = chans_ok_good [OF assms(4)]
  let ?c = "v_chan v"
  have vm: "v \<in> set (sys_views s)" using assms(1,2) by simp
  have c: "?c < length (chans (sys_b s))" using chans_goodD(5) [OF g(1) view_member [OF vm]] by simp
  obtain es where es: "ch_buf (chans (sys_b s) ! ?c) = e # es"
    and b': "b' = (sys_b s)\<lparr>chans := (chans (sys_b s))[?c := (chans (sys_b s) ! ?c)\<lparr>ch_buf := es\<rparr>]\<rparr>"
    using assms(3) by (auto simp: receive_def split: list.splits)
  show "ring_ok s \<Longrightarrow> ring_ok t" by (rule ring_ok_same) (auto simp: assms(6) b')
  have "map ch_open (chans b') = map ch_open (chans (sys_b s))"
    using c by (simp add: b' map_update list_update_same_conv)
  moreover have "map (\<lambda>v. (v_chan v, v_cancel v)) (sys_views t) = map (\<lambda>v. (v_chan v, v_cancel v)) (sys_views s)"
    using assms(1,2,6) by (intro nth_equalityI) (auto simp: nth_list_update)
  ultimately show "chans_ok t" using assms(4) by (simp add: chans_ok_def Let_def assms(6) b')
  have dist: "distinct (map v_chan (sys_views s))" using chans_goodD(4) [OF g(1)] by (simp add: comp_def)
  show "\<forall>v \<in> set (sys_views t). view_ok t v"
  proof
    fix w assume "w \<in> set (sys_views t)"
    then obtain j where j: "j < length (sys_views s)" "w = (if j = i then v\<lparr>v_got := v_got v @ [e]\<rparr> else sys_views s ! j)"
      using assms(6) by (auto simp: in_set_conv_nth nth_list_update split: if_splits)
    have "delivered b' w = delivered (sys_b s) (sys_views s ! j)"
    proof (cases "j = i")
      case True
      then show ?thesis using j c es assms(2) by (simp add: delivered_def b')
    next
      case False
      then have "v_chan (sys_views s ! j) \<noteq> ?c"
        using dist j(1) assms(1,2) by (simp add: distinct_conv_nth)
      then show ?thesis using j(2) False by (simp add: delivered_def b')
    qed
    then have d: "delivered (sys_b t) w = delivered (sys_b s) (sys_views s ! j)" by (simp add: assms(6))
    have "v_base w = v_base (sys_views s ! j)" "v_missed w = v_missed (sys_views s ! j)"
      and w: "v_cancel w = v_cancel (sys_views s ! j)" "v_chan w = v_chan (sys_views s ! j)"
      using j(2) assms(2) by (cases "j = i"; simp)+
    moreover have "live (sys_b t) w \<Longrightarrow> live (sys_b s) (sys_views s ! j)"
      by (simp add: live_def b' assms(6) w)
    moreover have "view_ok s (sys_views s ! j)" using assms(5) j(1) by simp
    ultimately show "view_ok t w" using d assms(6) by (intro view_ok_same [of s "sys_views s ! j" t w]) simp_all
  qed
qed

lemma cancel_ok:
  assumes "v \<in> set (sys_views s)" "chans_ok s" "\<forall>v \<in> set (sys_views s). view_ok s v"
    and "t = s\<lparr>sys_b := cancel (v_cancel v) (sys_b s)\<rparr>"
  shows "ring_ok s \<Longrightarrow> ring_ok t" "chans_ok t" "\<forall>v \<in> set (sys_views t). view_ok t v"
proof -
  note g = chans_ok_good [OF assms(2)] and m = view_member [OF assms(1)]
  have "(ring_ok s \<longrightarrow> ring_ok t) \<and> chans_ok t \<and> (\<forall>v \<in> set (sys_views t). view_ok t v)"
  proof (cases "t = s")
    case False
    then obtain sid d where f1: "v_cancel v = Some (sid, d)" "sid \<in> fst ` set (subs (sys_b s))"
      using assms(4) by (auto simp: cancel_def unsubscribe_def split: option.splits if_splits)
    then obtain c' where c': "(sid, c') \<in> set (subs (sys_b s))" by auto
    have f: "v_cancel v = Some (sid, v_chan v)" "(sid, v_chan v) \<in> set (subs (sys_b s))"
      using chans_goodD(7) [OF g(1), of _ sid d] chans_goodD(8) [OF g(1) _ c', of _ d] m c'
      unfolding f1(1) by blast+
    let ?c = "v_chan v" and ?sb = "filter (\<lambda>(i, _). i \<noteq> sid) (subs (sys_b s))"
    have t: "t = s\<lparr>sys_b := close_chan ?c ((sys_b s)\<lparr>subs := ?sb\<rparr>)\<rparr>"
      using assms(4) f by (force simp: cancel_def unsubscribe_def)
    have c: "?c < length (chans (sys_b s))" "ch_open (chans (sys_b s) ! ?c)"
      using chans_goodD(2) [OF g(1) f(2)] by auto
    note dd = chans_good_distinct [OF g(1)]
    have "i = sid" if "(i, ?c) \<in> set (subs (sys_b s))" for i
      using eq_key_imp_eq_value [of "map prod.swap (subs (sys_b s))" ?c i sid] that f(2) dd(2)
      by (simp add: comp_def image_iff) force
    then have "?c \<notin> snd ` set ?sb" by auto
    moreover have "?c \<notin> set (sys_pending s)" using dd(2) f(2) by force
    moreover have "distinct (map fst ?sb)" "distinct (map snd ?sb @ sys_pending s)"
      using dd by (auto simp: distinct_map_filter)
    ultimately have "chans_good ((map ch_open (chans (sys_b s)))[?c := False]) ?sb (sys_pending s)
        (nextSub (sys_b s)) (map (\<lambda>v. (v_chan v, v_cancel v)) (sys_views s))"
      by (intro chans_good_close [OF g(1)]) auto
    then have "chans_ok t"
      using assms(2) c by (auto simp: chans_ok_def t Let_def)
    moreover have "ring_ok s \<longrightarrow> ring_ok t" by (auto intro: ring_ok_same simp: t)
    moreover have "view_ok t u" if "u \<in> set (sys_views t)" for u
    proof (rule view_ok_same)
      show "view_ok s u" using that assms(3) t by simp
      show "delivered (sys_b t) u = delivered (sys_b s) u" using t by (simp add: delivered_def [of "(sys_b s)\<lparr>subs := _\<rparr>"] flip: delivered_def)
      show "live (sys_b t) u \<Longrightarrow> live (sys_b s) u" using t by (auto simp: live_def)
    qed (simp_all add: t)
    ultimately show ?thesis by blast
  qed (use assms in simp)
  then show "ring_ok s \<Longrightarrow> ring_ok t" "chans_ok t" "\<forall>v \<in> set (sys_views t). view_ok t v" by auto
qed

lemma close_begin_ok:
  assumes "Close_begin (sys_b s) = (cs, b')" "chans_ok s" "\<forall>v \<in> set (sys_views s). view_ok s v"
    and "t = s\<lparr>sys_b := b', sys_pending := sys_pending s @ cs\<rparr>"
  shows "ring_ok s \<Longrightarrow> ring_ok t" "chans_ok t" "\<forall>v \<in> set (sys_views t). view_ok t v"
proof -
  note g = chans_ok_good [OF assms(2)]
  show "ring_ok s \<Longrightarrow> ring_ok t"
    using assms(1,4) by (auto intro!: ring_ok_same [of s] simp: Close_begin_def split: if_splits)
  note gd = chans_goodD [OF g(1)] and dd = chans_good_distinct [OF g(1)]
  have "chans_good (map ch_open (chans (sys_b s))) [] (sys_pending s @ map snd (subs (sys_b s)))
      (nextSub (sys_b s)) (map (\<lambda>v. (v_chan v, v_cancel v)) (sys_views s))"
  proof (rule chans_goodI)
    show "distinct (map snd [] @ sys_pending s @ map snd (subs (sys_b s)))" using dd(2) by auto
    show "c < length (map ch_open (chans (sys_b s))) \<and> map ch_open (chans (sys_b s)) ! c"
      if "c \<in> set (sys_pending s @ map snd (subs (sys_b s)))" for c
      using that gd(2,3) by fastforce
    show "distinct (map fst (map (\<lambda>v. (v_chan v, v_cancel v)) (sys_views s)))" by (rule gd(4))
    show "c < length (map ch_open (chans (sys_b s)))"
      if "(c, f) \<in> set (map (\<lambda>v. (v_chan v, v_cancel v)) (sys_views s))" for c f by (rule gd(5) [OF that])
    show "d = c \<and> sid < nextSub (sys_b s)"
      if "(c, Some (sid, d)) \<in> set (map (\<lambda>v. (v_chan v, v_cancel v)) (sys_views s))" for c sid d
      by (rule gd(7) [OF that])
  qed simp_all
  then show "chans_ok t"
    using assms(1,2,4) by (auto simp: chans_ok_def Close_begin_def Let_def split: if_splits)
  show "\<forall>v \<in> set (sys_views t). view_ok t v"
  proof
    fix v assume "v \<in> set (sys_views t)"
    moreover have "chans b' = chans (sys_b s)" "set (subs b') \<subseteq> set (subs (sys_b s))"
      using assms(1) by (auto simp: Close_begin_def split: if_splits)
    ultimately show "view_ok t v"
      using assms(3) by (intro view_ok_same [of s v t v]) (auto simp: assms(4) live_def delivered_def)
  qed
qed

lemma close_chan_ok:
  assumes "sys_pending s = c # cs" "chans_ok s" "\<forall>v \<in> set (sys_views s). view_ok s v"
    and "t = s\<lparr>sys_b := close_chan c (sys_b s), sys_pending := cs\<rparr>"
  shows "ring_ok s \<Longrightarrow> ring_ok t" "chans_ok t" "\<forall>v \<in> set (sys_views t). view_ok t v"
proof -
  note g = chans_ok_good [OF assms(2)]
  show "ring_ok s \<Longrightarrow> ring_ok t" by (rule ring_ok_same) (auto simp: assms(4))
  have c: "c < length (chans (sys_b s))" "ch_open (chans (sys_b s) ! c)"
    using chans_goodD(3) [OF g(1), of c] assms(1) by auto
  have "chans_good ((map ch_open (chans (sys_b s)))[c := False]) (subs (sys_b s)) cs
      (nextSub (sys_b s)) (map (\<lambda>v. (v_chan v, v_cancel v)) (sys_views s))"
    using chans_good_distinct [OF g(1)] assms(1) by (intro chans_good_close [OF g(1)]) auto
  then show "chans_ok t" using assms(2,4) c by (auto simp: chans_ok_def Let_def)
  show "\<forall>v \<in> set (sys_views t). view_ok t v"
  proof
    fix v assume "v \<in> set (sys_views t)"
    then show "view_ok t v"
      using assms(3) by (intro view_ok_same [of s v t v]) (simp_all add: assms(4) live_def)
  qed
qed

text \<open>A replay is what the ring held past the resume point when the client subscribed: the
  last entries, up to the capacity, of the history so far.\<close>

definition replay_ok :: "'e broker_sys \<Rightarrow> 'e view \<Rightarrow> bool" where
  "replay_ok s v \<longleftrightarrow> v_base v \<le> length (sys_hist s) \<and> (v_cancel v \<noteq> None \<longrightarrow>
     v_replay v = filter (\<lambda>e. v_after v < en_ID e)
       (drop (v_base v - b_cap (sys_b s)) (take (v_base v) (sys_hist s))))"

lemma ring_drop: "ring_ok s \<Longrightarrow> ring (sys_b s) = drop (length (sys_hist s) - b_cap (sys_b s)) (sys_hist s)"
proof -
  assume a: "ring_ok s"
  have sf: "suffix (ring (sys_b s)) (sys_hist s)"
    and l: "length (ring (sys_b s)) = min (b_cap (sys_b s)) (length (sys_hist s))"
    using a unfolding ring_ok_def Let_def by blast+
  obtain pre where h: "sys_hist s = pre @ ring (sys_b s)" using sf unfolding suffix_def by blast
  have n: "length (sys_hist s) = length pre + length (ring (sys_b s))" using arg_cong [OF h, of length] by simp
  with l have "length pre = length (sys_hist s) - b_cap (sys_b s)" by linarith
  then show ?thesis using h by (metis append_eq_conv_conj)
qed

lemma replay_ok_later:
  "replay_ok s v \<Longrightarrow> sys_hist t = sys_hist s @ ext \<Longrightarrow> b_cap (sys_b t) = b_cap (sys_b s) \<Longrightarrow>
   v_base w = v_base v \<Longrightarrow> v_cancel w = v_cancel v \<Longrightarrow> v_replay w = v_replay v \<Longrightarrow> v_after w = v_after v \<Longrightarrow>
   replay_ok t w"
  by (auto simp: replay_ok_def)

lemma replay_ok_new:
  assumes "Subscribe after (sys_b s) = ((replay, c, f), b')" "ring_ok s"
    and "sys_hist t = sys_hist s" "sys_b t = b'"
  shows "replay_ok t \<lparr>v_after = after, v_replay = replay, v_chan = c, v_cancel = f,
    v_base = length (sys_hist s), v_got = [], v_missed = False\<rparr>"
proof -
  have "b_cap b' = b_cap (sys_b s)" "f \<noteq> None \<longrightarrow> replay = filter (\<lambda>e. after < en_ID e) (ring (sys_b s))"
    using assms(1) by (auto simp: Subscribe_def Let_def split: if_splits)
  then show ?thesis using assms(3,4) ring_drop [OF assms(2)] by (simp add: replay_ok_def)
qed

lemma step_history:
  assumes "broker_step disc s t"
  shows "\<exists>ext. sys_hist t = sys_hist s @ ext" "b_cap (sys_b t) = b_cap (sys_b s)"
proof -
  show "\<exists>ext. sys_hist t = sys_hist s @ ext"
    using assms by cases (simp_all add: note_publish_def Let_def)
  show "b_cap (sys_b t) = b_cap (sys_b s)"
    using assms
  proof cases
    case (bs_publish build now i b')
    then show ?thesis using publish_fields(5) [OF disjI1 [OF bs_publish(2)]] by simp
  next
    case (bs_silent build now i b')
    then show ?thesis using publish_fields(5) [OF disjI2 [OF bs_silent(2)]] by simp
  qed (auto simp: SetFilter_def Subscribe_def cancel_def unsubscribe_def receive_def Close_begin_def Let_def
      split: if_splits option.splits list.splits)
qed

definition same_sub :: "'e view \<Rightarrow> 'e view \<Rightarrow> bool" where
  "same_sub w v \<longleftrightarrow> v_base w = v_base v \<and> v_cancel w = v_cancel v \<and> v_replay w = v_replay v \<and> v_after w = v_after v"

lemma step_views:
  assumes "broker_step disc s t" "ring_ok s" "w \<in> set (sys_views t)"
  shows "(\<exists>v \<in> set (sys_views s). same_sub w v) \<or> replay_ok t w"
  using assms
proof cases
  case (bs_subscribe after replay c f b')
  then show ?thesis
    using replay_ok_new [OF bs_subscribe(2) assms(2), of t] assms(3) by (auto simp: same_sub_def)
next
  case (bs_receive i v e b')
  then have "w \<in> insert (v\<lparr>v_got := v_got v @ [e]\<rparr>) (set (sys_views s))"
    using assms(3) set_update_subset_insert [of "sys_views s" i] by auto
  then show ?thesis using bs_receive(2,3) by (auto simp: same_sub_def)
qed (auto simp: same_sub_def note_publish_def Let_def split: if_splits)

lemma step_replay:
  assumes "broker_step disc s t" "ring_ok s" "\<forall>v \<in> set (sys_views s). replay_ok s v"
  shows "\<forall>v \<in> set (sys_views t). replay_ok t v"
proof
  fix w assume "w \<in> set (sys_views t)"
  then consider v where "v \<in> set (sys_views s)" "same_sub w v" | "replay_ok t w"
    using step_views [OF assms(1,2)] by blast
  then show "replay_ok t w"
  proof cases
    case 1
    then show ?thesis
      using assms(3) step_history [OF assms(1)] replay_ok_later [of s v t _ w] by (auto simp: same_sub_def)
  qed
qed

text \<open>The invariants together are inductive.\<close>

definition broker_inv :: "'e broker_sys \<Rightarrow> bool" where
  "broker_inv s \<longleftrightarrow> ring_ok s \<and> chans_ok s \<and> (\<forall>v \<in> set (sys_views s). view_ok s v)
     \<and> (\<forall>v \<in> set (sys_views s). replay_ok s v)"

lemma broker_start_inv: "broker_inv (broker_start capacity depth)"
  by (auto simp: broker_inv_def broker_start_def ring_ok_def chans_ok_def New_def chans_good_def DefaultCapacity_def Let_def)

lemma filter_ok:
  assumes "broker_inv s"
  shows "broker_inv (s\<lparr>sys_b := SetFilter ts (sys_b s)\<rparr>)"
  using assms by (simp add: broker_inv_def replay_ok_def SetFilter_def ring_ok_def chans_ok_def view_ok_def live_def delivered_def Let_def)

lemma subscribe_ring_ok:
  assumes "Subscribe after (sys_b s) = (x, b')" "ring_ok s" "sys_b t = b'" "sys_hist t = sys_hist s"
  shows "ring_ok t"
proof -
  have "nextID b' = nextID (sys_b s)" "ring b' = ring (sys_b s)" "b_cap b' = b_cap (sys_b s)"
    using assms(1) by (auto simp: Subscribe_def Let_def split: if_splits)
  then show ?thesis using assms by (intro ring_ok_same [of s t]) simp_all
qed

lemma broker_step_inv:
  assumes "broker_step disc s t" "broker_inv s"
  shows "broker_inv t"
proof -
  have r0: "ring_ok s" and c0: "chans_ok s" and v0: "\<forall>v \<in> set (sys_views s). view_ok s v"
    and p0: "\<forall>v \<in> set (sys_views s). replay_ok s v"
    using assms(2) by (auto simp: broker_inv_def)
  have r: "\<forall>v \<in> set (sys_views t). replay_ok t v" by (rule step_replay [OF assms(1) r0 p0])
  from assms(1) have "ring_ok t \<and> chans_ok t \<and> (\<forall>v \<in> set (sys_views t). view_ok t v)"
  proof cases
    case (bs_publish build now i b')
    note e = disjI1 [OF bs_publish(2)]
    show ?thesis unfolding bs_publish(1)
      by (intro conjI publish_ring_ok [OF e r0] publish_chans_ok [OF e c0] publish_view_ok [OF e c0 v0])
  next
    case (bs_silent build now i b')
    note e = disjI2 [OF bs_silent(2)]
    show ?thesis unfolding bs_silent(1)
      by (intro conjI publish_ring_ok [OF e r0] publish_chans_ok [OF e c0] publish_view_ok [OF e c0 v0])
  next
    case (bs_filter ts)
    then show ?thesis using filter_ok [OF assms(2)] by (simp add: broker_inv_def)
  next
    case (bs_subscribe after replay c f b')
    then show ?thesis
      using subscribe_ok [OF bs_subscribe(2) c0 v0 bs_subscribe(1)] subscribe_ring_ok [OF bs_subscribe(2) r0, of t] by simp
  next
    case (bs_cancel v)
    note k = cancel_ok [OF bs_cancel(2) c0 v0 bs_cancel(1)]
    show ?thesis by (intro conjI k(1) [OF r0] k(2,3))
  next
    case (bs_receive i v e b')
    note k = receive_ok [OF bs_receive(2,3,4) c0 v0 bs_receive(1)]
    show ?thesis by (intro conjI k(1) [OF r0] k(2,3))
  next
    case (bs_close cs b')
    note k = close_begin_ok [OF bs_close(2) c0 v0 bs_close(1)]
    show ?thesis by (intro conjI k(1) [OF r0] k(2,3))
  next
    case (bs_close_chan c cs)
    note k = close_chan_ok [OF bs_close_chan(2) c0 v0 bs_close_chan(1)]
    show ?thesis by (intro conjI k(1) [OF r0] k(2,3))
  qed
  with r show ?thesis by (simp add: broker_inv_def)
qed

interpretation brokersys: invariant_system
  "\<lambda>s. \<exists>capacity depth. s = broker_start capacity depth" "broker_step disc" broker_inv for disc
  by unfold_locales (auto intro: broker_start_inv broker_step_inv)

section \<open>Properties\<close>

text \<open>A client subscribing from the start of a fresh broker, then one event.\<close>

definition sample_sub :: "string broker_sys" where
  "sample_sub = (broker_start 2 4)\<lparr>sys_b := snd (Subscribe 0 (New 2 4)), sys_views :=
     [\<lparr>v_after = 0, v_replay = [], v_chan = 0, v_cancel = Some (0, 0), v_base = 0, v_got = [], v_missed = False\<rparr>]\<rparr>"

definition sample_run :: "string broker_sys" where
  "sample_run = note_publish Some (\<lambda>i t. ''system.start'') 7
     (snd (Publish Some (\<lambda>i t. ''system.start'') 7 (sys_b sample_sub))) sample_sub"

lemma sample_run_reachable:
  "reachable (\<lambda>s. \<exists>capacity depth. s = broker_start capacity depth) (broker_step Some) sample_run"
proof -
  have "Subscribe 0 (sys_b (broker_start 2 4)) = (([], 0, Some (0, 0)), snd (Subscribe 0 (New 2 4)))"
    by (simp add: Subscribe_def broker_start_def New_def Let_def)
  from bs_subscribe [OF this] have a: "broker_step Some (broker_start 2 4) sample_sub"
    by (simp add: sample_sub_def broker_start_def)
  have b: "broker_step Some sample_sub sample_run"
    unfolding sample_run_def by (rule bs_publish [where i = "fst (Publish Some (\<lambda>i t. ''system.start'') 7 (sys_b sample_sub))"]) simp
  have "reachable (\<lambda>s. \<exists>capacity depth. s = broker_start capacity depth) (broker_step Some) (broker_start 2 4)"
    by (rule reach_init) blast
  from reach_next [OF reach_next [OF this a] b] show ?thesis .
qed

lemmas sample_eval = sample_run_def sample_sub_def note_publish_def broker_start_def New_def Subscribe_def
  Publish_def publish_def fan_out_def offer_def observed_def observesLocked_def full_for_def ring_push_def Let_def

text \<open>
  C20: in every run of publishers, filters, subscriptions, repeated cancellations,
  receptions and shutdown in any order, ids are strictly increasing along the history of
  observed events, the ring is exactly the last entries of that history up to the
  capacity, and no channel is ever closed twice or sent on after it was closed.
\<close>

theorem broker_run_safe:
  assumes "reachable (\<lambda>s. \<exists>capacity depth. s = broker_start capacity depth) (broker_step disc) s"
  shows "sorted_wrt (<) (map en_ID (sys_hist s))
    \<and> ring (sys_b s) = drop (length (sys_hist s) - b_cap (sys_b s)) (sys_hist s)
    \<and> \<not> panicked (sys_b s)"
proof -
  have i: "ring_ok s" "chans_ok s" using brokersys.reach_inv [OF assms] by (simp_all add: broker_inv_def)
  then show ?thesis using ring_drop [OF i(1)] unfolding ring_ok_def chans_ok_def Let_def by blast
qed

theorem broker_run_safe_witness:
  "ring (sys_b sample_run) = drop (length (sys_hist sample_run) - b_cap (sys_b sample_run)) (sys_hist sample_run)
   \<and> \<not> panicked (sys_b sample_run)"
  using broker_run_safe [OF sample_run_reachable] by simp

text \<open>
  C21: resuming loses and repeats nothing: for a live subscription none of whose entries
  was skipped, the replay followed by everything received or buffered since is the whole
  history past the resume point, provided the resume point had not yet fallen off the
  ring when the client subscribed and was an id already published.
\<close>

theorem resume_exactly_once:
  assumes "reachable (\<lambda>s. \<exists>capacity depth. s = broker_start capacity depth) (broker_step disc) s"
    and "v \<in> set (sys_views s)" "live (sys_b s) v" "\<not> v_missed v"
    and "\<forall>e \<in> set (take (v_base v - b_cap (sys_b s)) (sys_hist s)). en_ID e \<le> v_after v"
    and "\<forall>e \<in> set (drop (v_base v) (sys_hist s)). v_after v < en_ID e"
  shows "v_replay v @ delivered (sys_b s) v = filter (\<lambda>e. v_after v < en_ID e) (sys_hist s)"
proof -
  let ?h = "sys_hist s" and ?k = "v_base v - b_cap (sys_b s)"
  have inv: "view_ok s v" "replay_ok s v"
    using brokersys.reach_inv [OF assms(1)] assms(2) by (auto simp: broker_inv_def)
  have d: "delivered (sys_b s) v = drop (v_base v) ?h"
    using inv(1) assms(3,4) by (simp add: view_ok_def Let_def)
  have r: "v_replay v = filter (\<lambda>e. v_after v < en_ID e) (drop ?k (take (v_base v) ?h))"
    using inv(2) assms(3) by (auto simp: replay_ok_def live_def)
  have "?h = take ?k ?h @ drop ?k (take (v_base v) ?h) @ drop (v_base v) ?h"
    by (simp add: append_take_drop_id drop_take take_add [symmetric] flip: append_assoc)
  then have "filter (\<lambda>e. v_after v < en_ID e) ?h =
      filter (\<lambda>e. v_after v < en_ID e) (take ?k ?h) @ v_replay v
        @ filter (\<lambda>e. v_after v < en_ID e) (drop (v_base v) ?h)"
    unfolding r by (metis filter_append)
  moreover have "filter (\<lambda>e. v_after v < en_ID e) (take ?k ?h) = []"
    using assms(5) by (auto simp: filter_empty_conv not_less)
  moreover have "filter (\<lambda>e. v_after v < en_ID e) (drop (v_base v) ?h) = drop (v_base v) ?h"
    using assms(6) by (simp add: filter_id_conv)
  ultimately show ?thesis using d by simp
qed

theorem resume_exactly_once_witness:
  "v_replay (hd (sys_views sample_run)) @ delivered (sys_b sample_run) (hd (sys_views sample_run))
     = filter (\<lambda>e. v_after (hd (sys_views sample_run)) < en_ID e) (sys_hist sample_run)
   \<and> sys_hist sample_run \<noteq> []"
proof
  show "v_replay (hd (sys_views sample_run)) @ delivered (sys_b sample_run) (hd (sys_views sample_run))
      = filter (\<lambda>e. v_after (hd (sys_views sample_run)) < en_ID e) (sys_hist sample_run)"
    by (rule resume_exactly_once [OF sample_run_reachable]) (simp_all add: sample_eval live_def)
  show "sys_hist sample_run \<noteq> []" by (simp add: sample_eval)
qed

text \<open>
  Publishing always allocates the next id, even for a type the filter excludes; an
  excluded event leaves the ring and every channel as they were, an observed one is
  appended to the ring and offered to exactly the current subscribers; only \<^verbatim>\<open>Publish\<close>
  counts as activity.
\<close>

theorem publish_filtering:
  assumes "Discriminator (build (nextID b + 1) now) = Some typ"
  shows "fst (Publish Discriminator build now b) = nextID b + 1
    \<and> (\<not> Observes b typ \<longrightarrow>
         ring (snd (Publish Discriminator build now b)) = ring b \<and>
         chans (snd (Publish Discriminator build now b)) = chans b)
    \<and> (Observes b typ \<longrightarrow>
         ring (snd (Publish Discriminator build now b)) =
           ring_push (b_cap b) \<lparr>en_ID = nextID b + 1, en_Event = build (nextID b + 1) now\<rparr> (ring b))
    \<and> activity (snd (Publish Discriminator build now b)) = activity b + (if hooked b then 1 else 0)
    \<and> activity (snd (PublishSilent Discriminator build now b)) = activity b"
  using assms
  by (simp add: Publish_def PublishSilent_def publish_def fan_out_def Observes_def observesLocked_def Let_def
    split: option.splits prod.splits)

theorem publish_filtering_witness:
  "fst (Publish Some (\<lambda>i t. ''ingress.request'') 7 (SetFilter (Some [''system.start'']) (New 2 4))) = 1
   \<and> ring (snd (Publish Some (\<lambda>i t. ''ingress.request'') 7 (SetFilter (Some [''system.start'']) (New 2 4)))) = []"
  using publish_filtering [of Some "\<lambda>i t. ''ingress.request''" "SetFilter (Some [''system.start'']) (New 2 4)" 7 "''ingress.request''"]
  by (simp add: Observes_def observesLocked_def SetFilter_def New_def Let_def)

end
