(* ===== verification/Oplog.thy ===== *)
theory Oplog
  imports Prelude
begin

text \<open>
  The write-back journal of remote-backed mounts (\<^verbatim>\<open>internal/fusefs/oplog.go\<close>): the
  per-path debouncing of uploads, the queue, the dirty counts that tell readers to use the
  local buffer, the redirection of a parked upload by a rename, the uploader and the
  shutdown drain.  The remote store is a parameter: four operations on an abstract state,
  each of which may fail.
\<close>

section \<open>Entries and state\<close>

datatype OpType = OpPut | OpDelete | OpMove | OpSymlink | OpUnknown string

record OplogEntry =
  o_Type :: OpType
  o_Path :: string
  o_NewPath :: string
  o_BufferPath :: string
  o_Target :: string
  o_At :: "int option"

record pendingPut =
  pp_bufferPath :: string
  pp_firstAt :: int
  pp_deadline :: int

datatype 'c buffer_file = BMissing | BUnreadable string | BFile 'c

record ('c, 's) store_ops =
  s_Put :: "string \<Rightarrow> 'c \<Rightarrow> 's \<Rightarrow> string option \<times> 's"
  s_Delete :: "string \<Rightarrow> 's \<Rightarrow> string option \<times> 's"
  s_Move :: "string \<Rightarrow> string \<Rightarrow> 's \<Rightarrow> string option \<times> 's"
  s_Symlink :: "string \<Rightarrow> string \<Rightarrow> 's \<Rightarrow> string option \<times> 's"

record ('c, 's) Oplog =
  queue :: "OplogEntry list"
  keepBuffer :: bool
  coalesceWindow :: int
  coalesceMax :: int
  pending :: "(string \<times> pendingPut) list"
  dead :: "OplogEntry list"
  dirty :: "string \<Rightarrow> nat"
  remote :: 's
  bufs :: "string \<Rightarrow> 'c buffer_file"

definition DefaultCoalesceWindow :: int where "DefaultCoalesceWindow = 750"
definition DefaultCoalesceMax :: int where "DefaultCoalesceMax = 3000"

definition NewOplog :: "'s \<Rightarrow> (string \<Rightarrow> 'c buffer_file) \<Rightarrow> ('c, 's) Oplog" where
  "NewOplog store files = \<lparr>queue = [], keepBuffer = False, coalesceWindow = DefaultCoalesceWindow,
     coalesceMax = DefaultCoalesceMax, pending = [], dead = [], dirty = (\<lambda>_. 0), remote = store, bufs = files\<rparr>"

definition SetCoalesce :: "int \<Rightarrow> int \<Rightarrow> ('c, 's) Oplog \<Rightarrow> ('c, 's) Oplog" where
  "SetCoalesce window mx ol = ol\<lparr>coalesceWindow := window, coalesceMax := mx\<rparr>"

section \<open>Dirty counts\<close>

definition IsDirty :: "('c, 's) Oplog \<Rightarrow> string \<Rightarrow> bool" where
  "IsDirty ol path \<longleftrightarrow> dirty ol path > 0"

definition markDirty :: "OplogEntry \<Rightarrow> ('c, 's) Oplog \<Rightarrow> ('c, 's) Oplog" where
  "markDirty e ol =
     (let d = (dirty ol)(o_Path e := dirty ol (o_Path e) + 1)
      in ol\<lparr>dirty := (if o_Type e = OpMove \<and> o_NewPath e \<noteq> [] then d(o_NewPath e := d (o_NewPath e) + 1) else d)\<rparr>)"

text \<open>A zero count and an absent key are the same; subtraction below zero is guarded.\<close>

definition dec :: "string \<Rightarrow> (string \<Rightarrow> nat) \<Rightarrow> (string \<Rightarrow> nat)" where
  "dec p d = (if d p > 0 then d(p := d p - 1) else d)"

definition markClean :: "OplogEntry \<Rightarrow> ('c, 's) Oplog \<Rightarrow> ('c, 's) Oplog" where
  "markClean e ol =
     (let d = dec (o_Path e) (dirty ol)
      in ol\<lparr>dirty := (if o_Type e = OpMove \<and> o_NewPath e \<noteq> [] then dec (o_NewPath e) d else d)\<rparr>)"

section \<open>Queueing\<close>

definition post :: "OplogEntry \<Rightarrow> ('c, 's) Oplog \<Rightarrow> ('c, 's) Oplog" where
  "post e ol = ol\<lparr>queue := queue ol @ [e]\<rparr>"

definition put_entry :: "int \<Rightarrow> string \<Rightarrow> string \<Rightarrow> OplogEntry" where
  "put_entry now path buf = \<lparr>o_Type = OpPut, o_Path = path, o_NewPath = [], o_BufferPath = buf,
     o_Target = [], o_At = Some now\<rparr>"

definition debounceDelay :: "('c, 's) Oplog \<Rightarrow> int \<Rightarrow> int \<Rightarrow> int" where
  "debounceDelay ol now firstAt =
     (let d = coalesceWindow ol;
          rem = firstAt + coalesceMax ol - now;
          d = (if rem < d then rem else d)
      in if d < 0 then 0 else d)"

definition debouncePut :: "int \<Rightarrow> OplogEntry \<Rightarrow> ('c, 's) Oplog \<Rightarrow> ('c, 's) Oplog" where
  "debouncePut now e ol =
     (case map_of (pending ol) (o_Path e) of
        Some p \<Rightarrow>
          ol\<lparr>pending := AList.update (o_Path e)
              (p\<lparr>pp_bufferPath := o_BufferPath e, pp_deadline := now + debounceDelay ol now (pp_firstAt p)\<rparr>) (pending ol)\<rparr>
      | None \<Rightarrow>
          let at = the (o_At e);
              p = \<lparr>pp_bufferPath = o_BufferPath e, pp_firstAt = at, pp_deadline = now + debounceDelay ol now at\<rparr>
          in markDirty e (ol\<lparr>pending := AList.update (o_Path e) p (pending ol)\<rparr>))"

definition firePending :: "int \<Rightarrow> string \<Rightarrow> ('c, 's) Oplog \<Rightarrow> ('c, 's) Oplog" where
  "firePending now path ol =
     (case map_of (pending ol) path of
        None \<Rightarrow> ol
      | Some p \<Rightarrow> post (put_entry now path (pp_bufferPath p)) (ol\<lparr>pending := AList.delete path (pending ol)\<rparr>))"

definition forcePending :: "int \<Rightarrow> string \<Rightarrow> ('c, 's) Oplog \<Rightarrow> ('c, 's) Oplog" where
  "forcePending now path ol =
     (case map_of (pending ol) path of
        None \<Rightarrow> ol
      | Some p \<Rightarrow> post (put_entry now path (pp_bufferPath p)) (ol\<lparr>pending := AList.delete path (pending ol)\<rparr>))"

definition Enqueue :: "int \<Rightarrow> OplogEntry \<Rightarrow> ('c, 's) Oplog \<Rightarrow> ('c, 's) Oplog" where
  "Enqueue now e0 ol =
     (let e = (if o_At e0 = None then e0\<lparr>o_At := Some now\<rparr> else e0) in
      if coalesceWindow ol > 0 \<and> o_Type e = OpPut then debouncePut now e ol
      else let o1 = (case o_Type e of
                       OpDelete \<Rightarrow> forcePending now (o_Path e) ol
                     | OpMove \<Rightarrow>
                         let ol' = forcePending now (o_Path e) ol
                         in if o_NewPath e \<noteq> [] then forcePending now (o_NewPath e) ol' else ol'
                     | _ \<Rightarrow> ol)
           in post e (markDirty e o1))"

definition RenameParkedPut :: "int \<Rightarrow> string \<Rightarrow> string \<Rightarrow> string \<Rightarrow> ('c, 's) Oplog \<Rightarrow> bool \<times> ('c, 's) Oplog" where
  "RenameParkedPut now oldPath newPath newBufferPath ol =
     (case map_of (pending ol) oldPath of
        None \<Rightarrow> (False, ol)
      | Some p \<Rightarrow>
          let pend1 = AList.delete oldPath (pending ol);
              newHadParked = (map_of pend1 newPath \<noteq> None);
              pend2 = AList.delete newPath pend1;
              d1 = dec oldPath (dirty ol);
              d2 = (if \<not> newHadParked then d1(newPath := d1 newPath + 1) else d1)
          in (True, post (put_entry now newPath newBufferPath) (ol\<lparr>pending := pend2, dirty := d2\<rparr>)))"

definition takePending :: "int \<Rightarrow> ('c, 's) Oplog \<Rightarrow> OplogEntry list \<times> ('c, 's) Oplog" where
  "takePending now ol =
     (map (\<lambda>(path, p). put_entry now path (pp_bufferPath p)) (pending ol), ol\<lparr>pending := []\<rparr>)"

section \<open>The uploader\<close>

definition replay :: "('c, 's) store_ops \<Rightarrow> OplogEntry \<Rightarrow> ('c, 's) Oplog \<Rightarrow> string option \<times> 's" where
  "replay st e ol =
     (case o_Type e of
        OpPut \<Rightarrow> (case bufs ol (o_BufferPath e) of
                    BFile c \<Rightarrow> s_Put st (o_Path e) c (remote ol)
                  | BUnreadable err \<Rightarrow> (Some err, remote ol)
                  | BMissing \<Rightarrow> (None, remote ol))
      | OpDelete \<Rightarrow> s_Delete st (o_Path e) (remote ol)
      | OpMove \<Rightarrow> s_Move st (o_Path e) (o_NewPath e) (remote ol)
      | OpSymlink \<Rightarrow> s_Symlink st (o_Path e) (o_Target e) (remote ol)
      | OpUnknown t \<Rightarrow> (Some (''unknown op '' @ t), remote ol))"

definition flush :: "('c, 's) store_ops \<Rightarrow> OplogEntry \<Rightarrow> ('c, 's) Oplog \<Rightarrow> ('c, 's) Oplog" where
  "flush st e ol =
     (if o_Type e = OpPut \<and> bufs ol (o_BufferPath e) = BMissing then markClean e ol
      else case replay st e ol of
        (Some err, r) \<Rightarrow> ol\<lparr>remote := r, dead := dead ol @ [e]\<rparr>
      | (None, r) \<Rightarrow>
          markClean e (ol\<lparr>remote := r, bufs :=
            (if o_Type e = OpPut \<and> o_BufferPath e \<noteq> [] \<and> \<not> keepBuffer ol
             then (bufs ol)(o_BufferPath e := BMissing) else bufs ol)\<rparr>))"

text \<open>One turn of \<^verbatim>\<open>Run\<close>: the oldest entry of the queue is flushed.\<close>

definition run_one :: "('c, 's) store_ops \<Rightarrow> ('c, 's) Oplog \<Rightarrow> ('c, 's) Oplog" where
  "run_one st ol = (case queue ol of [] \<Rightarrow> ol | e # es \<Rightarrow> flush st e (ol\<lparr>queue := es\<rparr>))"

text \<open>The shutdown drain: the parked uploads first, then the queue; \<open>budget\<close> is the number
  of queued entries the timeout allows.\<close>

fun drain_queue :: "('c, 's) store_ops \<Rightarrow> nat \<Rightarrow> ('c, 's) Oplog \<Rightarrow> ('c, 's) Oplog" where
  "drain_queue st 0 ol = ol"
| "drain_queue st (Suc n) ol = (case queue ol of [] \<Rightarrow> ol | e # es \<Rightarrow> drain_queue st n (flush st e (ol\<lparr>queue := es\<rparr>)))"

definition drainOnShutdown :: "('c, 's) store_ops \<Rightarrow> int \<Rightarrow> nat \<Rightarrow> ('c, 's) Oplog \<Rightarrow> ('c, 's) Oplog" where
  "drainOnShutdown st now budget ol =
     (case takePending now ol of (es, o1) \<Rightarrow> drain_queue st budget (fold (flush st) es o1))"

definition Dead :: "('c, 's) Oplog \<Rightarrow> OplogEntry list" where
  "Dead ol = dead ol"

section \<open>Dirty counts are balanced\<close>

definition refs :: "OplogEntry \<Rightarrow> string \<Rightarrow> nat" where
  "refs e p = (if o_Path e = p then 1 else 0) + (if o_Type e = OpMove \<and> o_NewPath e \<noteq> [] \<and> o_NewPath e = p then 1 else 0)"

definition parked :: "('c, 's) Oplog \<Rightarrow> string \<Rightarrow> nat" where
  "parked ol p = (if map_of (pending ol) p = None then 0 else 1)"

definition outstanding :: "('c, 's) Oplog \<Rightarrow> string \<Rightarrow> nat" where
  "outstanding ol p = parked ol p + sum_list (map (\<lambda>e. refs e p) (queue ol)) + sum_list (map (\<lambda>e. refs e p) (dead ol))"

definition balanced :: "('c, 's) Oplog \<Rightarrow> bool" where
  "balanced ol \<longleftrightarrow> distinct (map fst (pending ol)) \<and> (\<forall>p. dirty ol p = outstanding ol p)"

lemma parked_update: "parked (ol\<lparr>pending := AList.update k x (pending ol)\<rparr>) p = (if p = k then 1 else parked ol p)"
  by (simp add: parked_def update_conv)

lemma parked_delete: "parked (ol\<lparr>pending := AList.delete k (pending ol)\<rparr>) p = (if p = k then 0 else parked ol p)"
  by (simp add: parked_def delete_conv)

lemma refs_put [simp]: "refs (put_entry now path buf) p = (if path = p then 1 else 0)"
  by (simp add: refs_def put_entry_def)

lemma markDirty_dirty: "dirty (markDirty e ol) p = dirty ol p + refs e p"
  by (auto simp: markDirty_def refs_def Let_def)

lemma markDirty_simps [simp]:
  "pending (markDirty e ol) = pending ol" "queue (markDirty e ol) = queue ol" "dead (markDirty e ol) = dead ol"
  "parked (markDirty e ol) p = parked ol p" "remote (markDirty e ol) = remote ol" "bufs (markDirty e ol) = bufs ol"
  "coalesceWindow (markDirty e ol) = coalesceWindow ol" "keepBuffer (markDirty e ol) = keepBuffer ol"
  by (simp_all add: markDirty_def Let_def parked_def)

lemma markClean_simps [simp]:
  "pending (markClean e ol) = pending ol" "queue (markClean e ol) = queue ol" "dead (markClean e ol) = dead ol"
  "parked (markClean e ol) p = parked ol p" "remote (markClean e ol) = remote ol" "bufs (markClean e ol) = bufs ol"
  "coalesceWindow (markClean e ol) = coalesceWindow ol" "keepBuffer (markClean e ol) = keepBuffer ol"
  by (simp_all add: markClean_def Let_def parked_def)

lemma markClean_dirty: "\<forall>p. refs e p \<le> dirty ol p \<Longrightarrow> dirty (markClean e ol) p = dirty ol p - refs e p"
proof -
  assume a: "\<forall>p. refs e p \<le> dirty ol p"
  have "0 < dirty ol (o_Path e)" using a [rule_format, of "o_Path e"] by (simp add: refs_def)
  moreover have "o_Type e = OpMove \<and> o_NewPath e \<noteq> [] \<Longrightarrow> refs e (o_NewPath e) \<le> dirty ol (o_NewPath e)" using a by blast
  ultimately show ?thesis by (auto simp: markClean_def refs_def dec_def Let_def)
qed

lemma post_simps [simp]:
  "pending (post e ol) = pending ol" "queue (post e ol) = queue ol @ [e]" "dead (post e ol) = dead ol"
  "dirty (post e ol) = dirty ol" "remote (post e ol) = remote ol" "bufs (post e ol) = bufs ol"
  "coalesceWindow (post e ol) = coalesceWindow ol" "keepBuffer (post e ol) = keepBuffer ol"
  "parked (post e ol) p = parked ol p"
  by (simp_all add: post_def parked_def)

lemma firePending_eq: "firePending now path ol = forcePending now path ol"
  by (simp add: firePending_def forcePending_def)

lemma forcePending_balanced: "balanced ol \<Longrightarrow> balanced (forcePending now path ol)"
  by (cases "map_of (pending ol) path")
     (auto simp: forcePending_def balanced_def outstanding_def parked_def delete_conv distinct_delete split: if_splits)

lemma post_markDirty_balanced: "balanced ol \<Longrightarrow> balanced (post e (markDirty e ol))"
  by (simp add: balanced_def outstanding_def markDirty_dirty)

lemma debouncePut_balanced:
  assumes "balanced ol" "o_Type e = OpPut"
  shows "balanced (debouncePut now e ol)"
proof -
  have r: "refs e p = (if p = o_Path e then 1 else 0)" for p using assms(2) by (simp add: refs_def)
  show ?thesis
    using assms(1)
    by (cases "map_of (pending ol) (o_Path e)")
       (auto simp: debouncePut_def balanced_def outstanding_def markDirty_dirty parked_def update_conv distinct_update r Let_def)
qed

lemma Enqueue_balanced: "balanced ol \<Longrightarrow> balanced (Enqueue now e ol)"
  by (auto simp: Enqueue_def Let_def intro!: debouncePut_balanced post_markDirty_balanced forcePending_balanced
    split: OpType.splits)

lemma RenameParkedPut_balanced:
  assumes "balanced ol" "RenameParkedPut now a b buf ol = (r, ol')"
  shows "balanced ol'"
proof (cases "map_of (pending ol) a")
  case (Some p)
  have d: "dirty ol q = outstanding ol q" for q using assms(1) by (simp add: balanced_def)
  have "0 < dirty ol a" using d [of a] Some by (simp add: outstanding_def parked_def)
  then have "dirty ol' q = outstanding ol' q" for q
    using assms(2) Some d [of q] d [of a] d [of b]
    by (auto simp: RenameParkedPut_def Let_def outstanding_def parked_def delete_conv dec_def split: if_splits)
  moreover have "distinct (map fst (pending ol'))"
    using assms Some by (auto simp: RenameParkedPut_def Let_def balanced_def distinct_delete)
  ultimately show ?thesis by (simp add: balanced_def)
qed (use assms in \<open>simp add: RenameParkedPut_def\<close>)

text \<open>A flush is given an entry whose references are still counted.\<close>

lemma flush_dirty:
  assumes "\<forall>p. refs e p \<le> dirty ol p"
  shows "dirty (flush st e ol) p + (if dead (flush st e ol) = dead ol then refs e p else 0) = dirty ol p"
    "dead (flush st e ol) = dead ol \<or> dead (flush st e ol) = dead ol @ [e]"
    "queue (flush st e ol) = queue ol" "pending (flush st e ol) = pending ol"
proof -
  have le: "refs e p \<le> dirty ol p" using assms by blast
  show "dirty (flush st e ol) p + (if dead (flush st e ol) = dead ol then refs e p else 0) = dirty ol p"
    using assms le markClean_dirty [of e "ol\<lparr>remote := _, bufs := _\<rparr>" p]
    by (auto simp: flush_def markClean_dirty split: prod.splits option.splits)
qed (auto simp: flush_def split: prod.splits option.splits)

text \<open>Entries in the uploader's hands count as outstanding until they are flushed.\<close>

definition balanced_with :: "OplogEntry list \<Rightarrow> ('c, 's) Oplog \<Rightarrow> bool" where
  "balanced_with xs ol \<longleftrightarrow> distinct (map fst (pending ol)) \<and>
     (\<forall>p. dirty ol p = outstanding ol p + sum_list (map (\<lambda>e. refs e p) xs))"

lemma balanced_with_Nil: "balanced_with [] ol \<longleftrightarrow> balanced ol"
  by (simp add: balanced_with_def balanced_def)

lemma flush_balanced_with:
  assumes "balanced_with (e # xs) ol"
  shows "balanced_with xs (flush st e ol)"
proof -
  have le: "\<forall>p. refs e p \<le> dirty ol p" using assms by (simp add: balanced_with_def)
  note f = flush_dirty [OF le, of st]
  have "dirty (flush st e ol) p = outstanding (flush st e ol) p + sum_list (map (\<lambda>e. refs e p) xs)" for p
    using assms f(1) [of p] f(2-4) by (auto simp: balanced_with_def outstanding_def parked_def split: if_splits)
  then show ?thesis using assms f(4) by (simp add: balanced_with_def)
qed

lemma run_one_balanced: "balanced ol \<Longrightarrow> balanced (run_one st ol)"
  using flush_balanced_with [of _ "[]" _ st]
  by (cases "queue ol") (auto simp: run_one_def balanced_def balanced_with_def outstanding_def parked_def)

lemma fold_flush_balanced: "balanced_with xs ol \<Longrightarrow> balanced (fold (flush st) xs ol)"
  by (induction xs arbitrary: ol) (simp_all add: balanced_with_Nil flush_balanced_with)

lemma sum_refs_pending:
  "distinct (map fst ps) \<Longrightarrow>
   sum_list (map (\<lambda>e. refs e q) (map (\<lambda>(path, x). put_entry now path (pp_bufferPath x)) ps)) =
     (if map_of ps q = None then 0 else 1)"
  by (induction ps) (auto simp: map_of_eq_None_iff image_iff split: if_splits)

lemma takePending_balanced: "balanced ol \<Longrightarrow> takePending now ol = (es, ol') \<Longrightarrow> balanced_with es ol'"
  by (auto simp: takePending_def balanced_with_def balanced_def outstanding_def parked_def sum_refs_pending simp del: map_map)

lemma Enqueue_delete:
  assumes "o_Type e = OpDelete"
  shows "\<exists>e'. Enqueue now e ol = post e' (markDirty e' (forcePending now (o_Path e) ol))
    \<and> o_Type e' = OpDelete \<and> o_Path e' = o_Path e"
  using assms
  by (intro exI [of _ "if o_At e = None then e\<lparr>o_At := Some now\<rparr> else e"])
     (cases "o_At e"; simp add: Enqueue_def Let_def)

section \<open>The shutdown drain\<close>

lemma drain_queue_balanced: "balanced ol \<Longrightarrow> balanced (drain_queue st n ol)"
proof (induction n arbitrary: ol)
  case (Suc n)
  then show ?case using run_one_balanced [OF Suc.prems, of st] by (cases "queue ol") (simp_all add: run_one_def)
qed simp

lemma drainOnShutdown_balanced: "balanced ol \<Longrightarrow> balanced (drainOnShutdown st now n ol)"
  by (simp add: drainOnShutdown_def split_def drain_queue_balanced fold_flush_balanced
    takePending_balanced [of ol now "fst (takePending now ol)" "snd (takePending now ol)"])

lemma balanced_fields [simp]: "balanced (ol\<lparr>bufs := b\<rparr>) = balanced ol" "balanced (ol\<lparr>remote := r\<rparr>) = balanced ol"
  by (simp_all add: balanced_def outstanding_def parked_def)

lemma drain_queue_empties: "length (queue ol) \<le> n \<Longrightarrow> queue (drain_queue st n ol) = []"
proof (induction n arbitrary: ol)
  case (Suc n)
  have q: "queue (flush st e x) = queue x" for e x by (simp add: flush_def split: prod.splits option.splits)
  show ?case using Suc by (cases "queue ol") (simp_all add: q)
qed simp

section \<open>The store contract and the local view\<close>

text \<open>What the interface \<^verbatim>\<open>remotefs.Store\<close> documents of its mutations, for a view of the
  store as objects by path and the paths \<open>ok\<close> a mount gives it: a successful \<^verbatim>\<open>Put\<close> creates or
  replaces, a successful \<^verbatim>\<open>Delete\<close> removes (a missing object is no error), a successful
  \<^verbatim>\<open>Move\<close> renames.\<close>

locale object_store =
  fixes st :: "('c, 's) store_ops" and look :: "'s \<Rightarrow> string \<Rightarrow> 'c option"
    and ok :: "string \<Rightarrow> bool"
  assumes put_law: "ok p \<Longrightarrow> s_Put st p c r = (None, r') \<Longrightarrow> look r' = (look r)(p := Some c)"
    and delete_law: "ok p \<Longrightarrow> s_Delete st p r = (None, r') \<Longrightarrow> look r' = (look r)(p := None)"
    and move_law: "ok p \<Longrightarrow> ok q \<Longrightarrow> p \<noteq> q \<Longrightarrow> look r p \<noteq> None \<Longrightarrow> s_Move st p q r = (None, r') \<Longrightarrow>
      look r' = (look r)(p := None, q := look r p)"
begin

definition local_view :: "(string \<Rightarrow> string) \<Rightarrow> ('c, 's) Oplog \<Rightarrow> string \<Rightarrow> 'c option" where
  "local_view h ol p = (case bufs ol (h p) of BFile c \<Rightarrow> Some c | _ \<Rightarrow> None)"

definition eff :: "'c option \<Rightarrow> OplogEntry \<Rightarrow> 'c option \<Rightarrow> 'c option" where
  "eff b e r = (case o_Type e of OpPut \<Rightarrow> (if b = None then r else b) | OpDelete \<Rightarrow> None | _ \<Rightarrow> r)"

definition final :: "(string \<Rightarrow> string) \<Rightarrow> ('c, 's) Oplog \<Rightarrow> string \<Rightarrow> 'c option" where
  "final h ol p =
     (let r = fold (eff (local_view h ol p)) (filter (\<lambda>e. o_Path e = p) (queue ol)) (look (remote ol) p)
      in if map_of (pending ol) p = None \<or> local_view h ol p = None then r else local_view h ol p)"

definition simple_entry :: "(string \<Rightarrow> string) \<Rightarrow> OplogEntry \<Rightarrow> bool" where
  "simple_entry h e \<longleftrightarrow> ok (o_Path e) \<and> ((o_Type e = OpPut \<and> o_BufferPath e = h (o_Path e)) \<or> o_Type e = OpDelete)"

definition sync_inv :: "(string \<Rightarrow> string) \<Rightarrow> ('c, 's) Oplog \<Rightarrow> bool" where
  "sync_inv h ol \<longleftrightarrow> balanced ol \<and> keepBuffer ol \<and> list_all (simple_entry h) (queue ol) \<and>
     (\<forall>p x. map_of (pending ol) p = Some x \<longrightarrow> pp_bufferPath x = h p \<and> ok p) \<and>
     (dead ol = [] \<longrightarrow> (\<forall>p. final h ol p = local_view h ol p))"

lemma final_post_other: "o_Path e \<noteq> p \<Longrightarrow> final h (post e ol) p = final h ol p"
  by (simp add: final_def local_view_def)

lemma forcePending_final:
  assumes "\<forall>p x. map_of (pending ol) p = Some x \<longrightarrow> pp_bufferPath x = h p \<and> ok p"
  shows "final h (forcePending now q ol) p = final h ol p"
  using assms
  by (cases "map_of (pending ol) q")
     (auto simp: forcePending_def final_def local_view_def put_entry_def eff_def delete_conv Let_def)

lemma forcePending_sync:
  assumes "sync_inv h ol"
  shows "sync_inv h (forcePending now q ol)"
proof -
  have v: "local_view h (forcePending now q ol) = local_view h ol" "dead (forcePending now q ol) = dead ol"
    "keepBuffer (forcePending now q ol) = keepBuffer ol"
    by (auto simp: forcePending_def local_view_def fun_eq_iff split: option.splits)
  have "list_all (simple_entry h) (queue (forcePending now q ol))"
    using assms by (auto simp: sync_inv_def forcePending_def put_entry_def simple_entry_def split: option.splits)
  moreover have "\<forall>p x. map_of (pending (forcePending now q ol)) p = Some x \<longrightarrow> pp_bufferPath x = h p \<and> ok p"
    using assms by (auto simp: sync_inv_def forcePending_def delete_conv split: option.splits if_splits)
  ultimately show ?thesis
    using assms v forcePending_final [of ol h now q] forcePending_balanced [of ol now q] by (auto simp: sync_inv_def)
qed

lemma run_one_sync:
  assumes "sync_inv h ol"
  shows "sync_inv h (run_one st ol)"
proof (cases "queue ol")
  case (Cons e es)
  let ?o = "ol\<lparr>queue := es\<rparr>" and ?n = "run_one st ol"
  have n: "?n = flush st e ?o" using Cons by (simp add: run_one_def)
  have e: "simple_entry h e" "list_all (simple_entry h) es" "keepBuffer ol" using assms Cons by (auto simp: sync_inv_def)
  have keep: "keepBuffer ?n" "bufs ?n = bufs ol" "pending ?n = pending ol" "queue ?n = es"
    using e(3) by (auto simp: n flush_def split: prod.splits option.splits)
  have v: "local_view h ?n = local_view h ol" by (simp add: local_view_def keep fun_eq_iff)
  have "look (remote ?n) p = (if o_Path e = p then eff (local_view h ol p) e (look (remote ol) p) else look (remote ol) p)"
    if "dead ?n = []" for p
  proof -
    have d: "dead (flush st e ?o) = []" using that n by simp
    consider "o_Type e = OpDelete" | c where "o_Type e = OpPut" "bufs ol (h (o_Path e)) = BFile c"
      | "o_Type e = OpPut" "bufs ol (h (o_Path e)) = BMissing"
      | x where "o_Type e = OpPut" "bufs ol (h (o_Path e)) = BUnreadable x"
      using e(1) by (cases "bufs ol (h (o_Path e))") (auto simp: simple_entry_def)
    then show ?thesis
    proof cases
      case 1
      then obtain r where "s_Delete st (o_Path e) (remote ol) = (None, r)" "remote ?n = r"
        using d n by (auto simp: flush_def replay_def split: prod.splits option.splits)
      then show ?thesis using 1 e(1) delete_law by (simp add: eff_def simple_entry_def)
    next
      case (2 c)
      then have b: "o_BufferPath e = h (o_Path e)" using e(1) by (simp add: simple_entry_def)
      then obtain r where "s_Put st (o_Path e) c (remote ol) = (None, r)" "remote ?n = r"
        using d n 2 by (auto simp: flush_def replay_def split: prod.splits option.splits)
      then show ?thesis using 2 e(1) put_law by (auto simp: eff_def local_view_def simple_entry_def)
    next
      case 3
      then have "o_BufferPath e = h (o_Path e)" using e(1) by (simp add: simple_entry_def)
      then show ?thesis using 3 n by (auto simp: flush_def eff_def local_view_def)
    next
      case (4 x)
      then have "o_BufferPath e = h (o_Path e)" using e(1) by (simp add: simple_entry_def)
      then show ?thesis using 4 d by (simp add: flush_def replay_def)
    qed
  qed
  moreover have "dead ?n = [] \<Longrightarrow> dead ol = []" by (auto simp: n flush_def split: if_splits prod.splits option.splits)
  ultimately have "final h ?n p = final h ol p" if "dead ?n = []" for p
    using that Cons by (simp add: final_def v keep Let_def)
  then show ?thesis
    using assms keep e v run_one_balanced [of ol st] \<open>dead ?n = [] \<Longrightarrow> dead ol = []\<close>
    by (auto simp: sync_inv_def)
qed (use assms in \<open>simp add: run_one_def\<close>)

lemma put_sync:
  assumes "sync_inv h ol" "inj h" "ok p" "e = \<lparr>o_Type = OpPut, o_Path = p, o_NewPath = [], o_BufferPath = h p, o_Target = [], o_At = t\<rparr>"
  shows "sync_inv h (Enqueue now e (ol\<lparr>bufs := (bufs ol)(h p := BFile c)\<rparr>))"
proof -
  let ?o = "ol\<lparr>bufs := (bufs ol)(h p := BFile c)\<rparr>"
  let ?n = "Enqueue now e ?o"
  have bal: "balanced ?o" using assms(1) by (simp add: sync_inv_def balanced_def outstanding_def parked_def)
  have hq: "h q = h p \<longleftrightarrow> q = p" for q using assms(2) by (simp add: inj_eq)
  have f: "bufs ?n = bufs ?o" "keepBuffer ?n = keepBuffer ol" "dead ?n = dead ol" "remote ?n = remote ol"
    using assms(4) by (auto simp: Enqueue_def debouncePut_def Let_def split: option.splits)
  have pend: "\<forall>q x. map_of (pending ?n) q = Some x \<longrightarrow> pp_bufferPath x = h q \<and> ok q"
    using assms(1,3,4) by (auto simp: sync_inv_def Enqueue_def debouncePut_def update_conv Let_def split: option.splits if_splits)
  have qu: "queue ?n = queue ol \<and> map_of (pending ?n) p \<noteq> None \<or>
      (\<exists>e'. queue ?n = queue ol @ [e'] \<and> o_Type e' = OpPut \<and> o_Path e' = p \<and> o_BufferPath e' = h p)"
    using assms(4) by (auto simp: Enqueue_def debouncePut_def update_conv Let_def split: option.splits)
  have others: "q \<noteq> p \<Longrightarrow> map_of (pending ?n) q = map_of (pending ol) q" for q
    using assms(4) by (auto simp: Enqueue_def debouncePut_def update_conv Let_def split: option.splits)
  have v: "local_view h ?n q = (if q = p then Some c else local_view h ol q)" for q
    using f hq by (simp add: local_view_def)
  have "final h ?n q = local_view h ?n q" if "dead ol = []" for q
  proof (cases "q = p")
    case True
    then show ?thesis using qu v [of p] by (auto simp: final_def eff_def Let_def)
  next
    case False
    then have "final h ?n q = final h ol q"
      using qu v [of q] others [of q] f(4) by (auto simp: final_def Let_def)
    then show ?thesis using assms(1) that v [of q] False by (simp add: sync_inv_def)
  qed
  moreover have "list_all (simple_entry h) (queue ?n)"
    using qu assms(1,3) by (auto simp: sync_inv_def simple_entry_def)
  ultimately show ?thesis
    using f pend Enqueue_balanced [OF bal, of now e] assms(1) by (simp add: sync_inv_def)
qed

lemma delete_sync:
  assumes "sync_inv h ol" "inj h" "o_Type e = OpDelete" "o_Path e = p" "ok p"
  shows "sync_inv h (Enqueue now e (ol\<lparr>bufs := (bufs ol)(h p := BMissing)\<rparr>))"
proof -
  let ?o = "ol\<lparr>bufs := (bufs ol)(h p := BMissing)\<rparr>"
  let ?n = "Enqueue now e ?o" and ?f = "forcePending now p ?o"
  have hq: "h q = h p \<longleftrightarrow> q = p" for q using assms(2) by (simp add: inj_eq)
  have bal: "balanced ?o" using assms(1) by (simp add: sync_inv_def balanced_def outstanding_def parked_def)
  obtain e' where n: "?n = post e' (markDirty e' ?f)" "o_Type e' = OpDelete" "o_Path e' = p"
    using Enqueue_delete [OF assms(3), of now ?o] assms(4) by auto
  have fp: "bufs ?f = bufs ?o" "keepBuffer ?f = keepBuffer ol" "dead ?f = dead ol" "remote ?f = remote ol"
    "map_of (pending ?f) p = None" "\<And>q. q \<noteq> p \<Longrightarrow> map_of (pending ?f) q = map_of (pending ol) q"
    "\<And>q. q \<noteq> p \<Longrightarrow> filter (\<lambda>e. o_Path e = q) (queue ?f) = filter (\<lambda>e. o_Path e = q) (queue ol)"
    by (auto simp: forcePending_def put_entry_def delete_conv split: option.splits)
  have sim: "list_all (simple_entry h) (queue ?f)"
    using assms(1) by (auto simp: sync_inv_def forcePending_def put_entry_def simple_entry_def split: option.splits)
  have v: "local_view h ?n q = (if q = p then None else local_view h ol q)" for q
    using n(1) fp(1) hq by (simp add: local_view_def)
  have "final h ?n q = local_view h ?n q" if "dead ol = []" for q
  proof (cases "q = p")
    case True
    then show ?thesis using n fp(5) v [of p] by (simp add: final_def eff_def)
  next
    case False
    then have "final h ?n q = final h ol q"
      using n fp(4) fp(6,7) [OF False] v [of q] by (simp add: final_def)
    then show ?thesis using assms(1) that v [of q] False by (simp add: sync_inv_def)
  qed
  moreover have "\<forall>q x. map_of (pending ?n) q = Some x \<longrightarrow> pp_bufferPath x = h q \<and> ok q"
  proof (intro allI impI)
    fix q x assume "map_of (pending ?n) q = Some x"
    then show "pp_bufferPath x = h q \<and> ok q"
      using assms(1) n(1) fp(5) fp(6) [of q] by (cases "q = p") (simp_all add: sync_inv_def)
  qed
  ultimately show ?thesis
    using fp n sim Enqueue_balanced [OF bal, of now e] assms(1,5) by (simp add: sync_inv_def simple_entry_def)
qed

lemma delete_now_sync:
  assumes "sync_inv h ol" "inj h" "ok p" "\<not> IsDirty ol p" "s_Delete st p (remote ol) = (None, r)"
  shows "sync_inv h (ol\<lparr>bufs := (bufs ol)(h p := BMissing), remote := r\<rparr>)"
proof -
  let ?n = "ol\<lparr>bufs := (bufs ol)(h p := BMissing), remote := r\<rparr>"
  have hq: "h q = h p \<longleftrightarrow> q = p" for q using assms(2) by (simp add: inj_eq)
  have "outstanding ol p = 0" using assms(1,4) by (simp add: sync_inv_def balanced_def IsDirty_def)
  then have none: "map_of (pending ol) p = None" "filter (\<lambda>e. o_Path e = p) (queue ol) = []"
    by (auto simp: outstanding_def parked_def refs_def filter_empty_conv split: if_splits)
  have v: "local_view h ?n q = (if q = p then None else local_view h ol q)" for q
    using hq by (simp add: local_view_def)
  have l: "look r q = (if q = p then None else look (remote ol) q)" for q
    using delete_law [OF assms(3,5)] by simp
  have "final h ?n q = local_view h ?n q" if "dead ol = []" for q
  proof (cases "q = p")
    case True
    then show ?thesis using none l [of p] v [of p] by (simp add: final_def)
  next
    case False
    then have "final h ?n q = final h ol q" using l [of q] v [of q] by (simp add: final_def)
    then show ?thesis using assms(1) that v [of q] False by (simp add: sync_inv_def)
  qed
  then show ?thesis using assms(1) by (simp add: sync_inv_def balanced_def outstanding_def parked_def)
qed

lemma converged:
  assumes "sync_inv h ol" "dead ol = []" "\<not> IsDirty ol p"
  shows "look (remote ol) p = local_view h ol p"
proof -
  have "outstanding ol p = 0" using assms(1,3) by (simp add: sync_inv_def balanced_def IsDirty_def)
  then have "map_of (pending ol) p = None" "filter (\<lambda>e. o_Path e = p) (queue ol) = []"
    by (auto simp: outstanding_def parked_def refs_def filter_empty_conv split: if_splits)
  moreover have "final h ol p = local_view h ol p" using assms by (simp add: sync_inv_def)
  ultimately show ?thesis by (simp add: final_def)
qed

end

section \<open>The handlers that journal\<close>

text \<open>
  The journalling part of the FUSE handlers (\<^verbatim>\<open>internal/fusefs/fs_linux.go\<close>), with \<open>h\<close> the
  backend path of an agent path: a file written through the mount and closed, a removal,
  and a rename with the local buffer already moved.
\<close>

definition enqueuePut :: "int \<Rightarrow> string \<Rightarrow> string \<Rightarrow> ('c, 's) Oplog \<Rightarrow> ('c, 's) Oplog" where
  "enqueuePut now absPath bufferPath ol = Enqueue now \<lparr>o_Type = OpPut, o_Path = absPath, o_NewPath = [],
     o_BufferPath = bufferPath, o_Target = [], o_At = None\<rparr> ol"

definition enqueueDelete :: "int \<Rightarrow> string \<Rightarrow> ('c, 's) Oplog \<Rightarrow> ('c, 's) Oplog" where
  "enqueueDelete now absPath ol = Enqueue now \<lparr>o_Type = OpDelete, o_Path = absPath, o_NewPath = [],
     o_BufferPath = [], o_Target = [], o_At = None\<rparr> ol"

definition enqueueMove :: "int \<Rightarrow> string \<Rightarrow> string \<Rightarrow> ('c, 's) Oplog \<Rightarrow> ('c, 's) Oplog" where
  "enqueueMove now srcAbs dstAbs ol = Enqueue now \<lparr>o_Type = OpMove, o_Path = srcAbs, o_NewPath = dstAbs,
     o_BufferPath = [], o_Target = [], o_At = None\<rparr> ol"

definition enqueueSymlink :: "int \<Rightarrow> string \<Rightarrow> string \<Rightarrow> ('c, 's) Oplog \<Rightarrow> ('c, 's) Oplog" where
  "enqueueSymlink now virt target ol = Enqueue now \<lparr>o_Type = OpSymlink, o_Path = virt, o_NewPath = [],
     o_BufferPath = [], o_Target = target, o_At = None\<rparr> ol"

definition write_close :: "(string \<Rightarrow> string) \<Rightarrow> int \<Rightarrow> string \<Rightarrow> 'c \<Rightarrow> ('c, 's) Oplog \<Rightarrow> ('c, 's) Oplog" where
  "write_close h now p c ol = enqueuePut now p (h p) (ol\<lparr>bufs := (bufs ol)(h p := BFile c)\<rparr>)"

definition remove_journal :: "('c, 's) store_ops \<Rightarrow> (string \<Rightarrow> string) \<Rightarrow> int \<Rightarrow> string \<Rightarrow> ('c, 's) Oplog
    \<Rightarrow> string option \<times> ('c, 's) Oplog" where
  "remove_journal st h now p ol =
     (let ol1 = ol\<lparr>bufs := (bufs ol)(h p := BMissing)\<rparr> in
      if IsDirty ol1 p then (None, enqueueDelete now p ol1)
      else case s_Delete st p (remote ol1) of (err, r) \<Rightarrow> (err, ol1\<lparr>remote := r\<rparr>))"

definition rename_journal :: "('c, 's) store_ops \<Rightarrow> (string \<Rightarrow> string) \<Rightarrow> int \<Rightarrow> string \<Rightarrow> string \<Rightarrow> ('c, 's) Oplog
    \<Rightarrow> string option \<times> ('c, 's) Oplog" where
  "rename_journal st h now oldVirt newVirt ol =
     (let localRenamed = (bufs ol (h oldVirt) \<noteq> BMissing);
          ol1 = (if localRenamed then ol\<lparr>bufs := (bufs ol)(h newVirt := bufs ol (h oldVirt), h oldVirt := BMissing)\<rparr> else ol) in
      if IsDirty ol1 oldVirt then
        (case (if localRenamed then RenameParkedPut now oldVirt newVirt (h newVirt) ol1 else (False, ol1)) of
           (True, ol2) \<Rightarrow> (None, ol2)
         | (False, ol2) \<Rightarrow> (None, enqueueMove now oldVirt newVirt ol2))
      else case s_Move st oldVirt newVirt (remote ol1) of
             (None, r) \<Rightarrow> (None, ol1\<lparr>remote := r\<rparr>)
           | (Some err, r) \<Rightarrow>
               (Some err, (if localRenamed
                           then ol1\<lparr>remote := r, bufs := (bufs ol1)(h oldVirt := bufs ol1 (h newVirt), h newVirt := BMissing)\<rparr>
                           else ol1\<lparr>remote := r\<rparr>)))"

text \<open>Any interleaving of writes and removals, on the paths of the mount, with the debounce
  timers and the uploader.\<close>

inductive sync_step :: "('c, 's) store_ops \<Rightarrow> (string \<Rightarrow> bool) \<Rightarrow> (string \<Rightarrow> string) \<Rightarrow> ('c, 's) Oplog \<Rightarrow> ('c, 's) Oplog \<Rightarrow> bool"
  for st ok h where
  sync_write: "ok p \<Longrightarrow> sync_step st ok h ol (write_close h now p c ol)"
| sync_remove: "ok p \<Longrightarrow> remove_journal st h now p ol = (None, ol') \<Longrightarrow> sync_step st ok h ol ol'"
| sync_fire: "sync_step st ok h ol (firePending now p ol)"
| sync_upload: "sync_step st ok h ol (run_one st ol)"

section \<open>A store of objects\<close>

text \<open>The contract's simplest instance, also the behaviour of \<^verbatim>\<open>remotefs.FileStore\<close> on regular
  files: objects in a map, a missing source is the only failure.\<close>

definition flat_store :: "('c, string \<rightharpoonup> 'c) store_ops" where
  "flat_store = \<lparr>s_Put = (\<lambda>p c m. (None, m(p := Some c))),
     s_Delete = (\<lambda>p m. (None, m(p := None))),
     s_Move = (\<lambda>p q m. case m p of None \<Rightarrow> (Some ''remote: object does not exist'', m)
                | Some c \<Rightarrow> (None, m(p := None, q := Some c))),
     s_Symlink = (\<lambda>p t m. (None, m))\<rparr>"

interpretation flat: object_store flat_store "\<lambda>m. m" "\<lambda>p. True"
  by unfold_locales (auto simp: flat_store_def split: option.splits)

text \<open>An idle journal of an async mount: what is local is remote.\<close>

definition idle :: "('s \<Rightarrow> string \<Rightarrow> 'c option) \<Rightarrow> (string \<Rightarrow> string) \<Rightarrow> ('c, 's) Oplog \<Rightarrow> bool" where
  "idle look h ol \<longleftrightarrow> queue ol = [] \<and> pending ol = [] \<and> dead ol = [] \<and> dirty ol = (\<lambda>_. 0) \<and> keepBuffer ol \<and>
     (\<forall>p. bufs ol (h p) = (case look (remote ol) p of None \<Rightarrow> BMissing | Some c \<Rightarrow> BFile c))"

context object_store
begin

lemma sync_step_inv:
  assumes "sync_step st ok h ol ol'" "inj h" "sync_inv h ol"
  shows "sync_inv h ol'"
  using assms(1)
proof cases
  case (sync_write p now c)
  then show ?thesis
    using put_sync [OF assms(3,2) sync_write(2)] by (simp add: write_close_def enqueuePut_def)
next
  case (sync_remove p now)
  show ?thesis
  proof (cases "IsDirty ol p")
    case True
    then have "ol' = enqueueDelete now p (ol\<lparr>bufs := (bufs ol)(h p := BMissing)\<rparr>)"
      using sync_remove by (simp add: remove_journal_def IsDirty_def Let_def)
    then show ?thesis using delete_sync [OF assms(3,2)] sync_remove(1) by (simp add: enqueueDelete_def)
  next
    case False
    then obtain r where "s_Delete st p (remote ol) = (None, r)" "ol' = ol\<lparr>bufs := (bufs ol)(h p := BMissing), remote := r\<rparr>"
      using sync_remove by (auto simp: remove_journal_def IsDirty_def Let_def split: prod.splits)
    then show ?thesis using delete_now_sync [OF assms(3,2) sync_remove(1) False] by simp
  qed
next
  case (sync_fire now p)
  then show ?thesis using forcePending_sync [OF assms(3)] by (simp add: firePending_eq)
next
  case sync_upload
  then show ?thesis using run_one_sync [OF assms(3)] by simp
qed

lemma idle_sync:
  assumes "idle look h ol"
  shows "sync_inv h ol"
proof -
  have "local_view h ol p = look (remote ol) p" for p
    using assms by (simp add: idle_def local_view_def split: option.splits)
  then show ?thesis
    using assms by (simp add: idle_def sync_inv_def final_def balanced_def outstanding_def parked_def)
qed

lemma journal_sync:
  assumes "reachable (idle look h) (sync_step st ok h) ol" "inj h"
  shows "sync_inv h ol"
  using assms(1) by induction (auto intro: idle_sync sync_step_inv [OF _ assms(2)])

lemma journal_converged:
  assumes "reachable (idle look h) (sync_step st ok h) ol" "inj h" "dead ol = []" "\<not> IsDirty ol p"
  shows "look (remote ol) p = (case bufs ol (h p) of BFile c \<Rightarrow> Some c | _ \<Rightarrow> None)"
  using converged [OF journal_sync [OF assms(1,2)] assms(3,4)] by (simp add: local_view_def)

end

text \<open>The whole journal: every operation that touches the dirty counts, in any order.\<close>

inductive oplog_step :: "('c, 's) store_ops \<Rightarrow> ('c, 's) Oplog \<Rightarrow> ('c, 's) Oplog \<Rightarrow> bool" for st where
  ol_enqueue: "oplog_step st ol (Enqueue now e ol)"
| ol_fire: "oplog_step st ol (firePending now p ol)"
| ol_rename: "RenameParkedPut now a b buf ol = (r, ol') \<Longrightarrow> oplog_step st ol ol'"
| ol_upload: "oplog_step st ol (run_one st ol)"
| ol_drain: "oplog_step st ol (drainOnShutdown st now n ol)"
| ol_local: "oplog_step st ol (ol\<lparr>bufs := b\<rparr>)"
| ol_remote: "oplog_step st ol (ol\<lparr>remote := r\<rparr>)"

lemma oplog_step_balanced:
  assumes "oplog_step st ol ol'" "balanced ol"
  shows "balanced ol'"
  using assms
  by cases (simp_all add: Enqueue_balanced firePending_eq forcePending_balanced run_one_balanced
      drainOnShutdown_balanced RenameParkedPut_balanced)

lemma NewOplog_balanced: "balanced (NewOplog r b)"
  by (simp add: NewOplog_def balanced_def outstanding_def parked_def)

interpretation oplogsys: invariant_system "\<lambda>ol. \<exists>r b. ol = NewOplog r b" "oplog_step st" balanced for st
  by unfold_locales (auto intro: NewOplog_balanced oplog_step_balanced)

lemma sum_refs_pos: "0 < sum_list (map (\<lambda>e. refs e p) es) \<longleftrightarrow> (\<exists>e \<in> set es. 0 < refs e p)"
  by (induction es) auto

section \<open>Properties\<close>

text \<open>
  C23: after any sequence of journal operations, on any store and whatever of it failed, a
  path is dirty exactly when an operation on it is parked, queued or dead-lettered, and
  its count is the number of them.
\<close>

theorem oplog_dirty_exact:
  assumes "reachable (\<lambda>ol. \<exists>r b. ol = NewOplog r b) (oplog_step st) ol"
  shows "dirty ol p = parked ol p + sum_list (map (\<lambda>e. refs e p) (queue ol)) + sum_list (map (\<lambda>e. refs e p) (dead ol))
    \<and> (IsDirty ol p \<longleftrightarrow> map_of (pending ol) p \<noteq> None \<or> (\<exists>e \<in> set (queue ol) \<union> set (dead ol). refs e p > 0))"
proof -
  have d: "dirty ol p = outstanding ol p" using oplogsys.reach_inv [OF assms] by (simp add: balanced_def)
  then show ?thesis
    by (simp add: IsDirty_def outstanding_def parked_def sum_refs_pos bex_Un)
qed

theorem oplog_dirty_exact_witness:
  "dirty (enqueuePut 0 ''/a'' ''/b/a'' (NewOplog Map.empty (\<lambda>_. BMissing)) :: (string, string \<rightharpoonup> string) Oplog) ''/a'' = 1"
proof -
  let ?o = "NewOplog Map.empty (\<lambda>_. BMissing) :: (string, string \<rightharpoonup> string) Oplog"
  have "reachable (\<lambda>ol. \<exists>r b. ol = NewOplog r b) (oplog_step flat_store) ?o" by (rule reach_init) blast
  from reach_next [OF this ol_enqueue, of 0 "\<lparr>o_Type = OpPut, o_Path = ''/a'', o_NewPath = [], o_BufferPath = ''/b/a'', o_Target = [], o_At = None\<rparr>"]
  have "reachable (\<lambda>ol. \<exists>r b. ol = NewOplog r b) (oplog_step flat_store) (enqueuePut 0 ''/a'' ''/b/a'' ?o)"
    by (simp add: enqueuePut_def)
  from oplog_dirty_exact [OF this, of "''/a''"] show ?thesis
    by (simp add: enqueuePut_def Enqueue_def debouncePut_def NewOplog_def DefaultCoalesceWindow_def parked_def markDirty_def Let_def)
qed

text \<open>The mounts the instances below run on; the backend path of \<open>p\<close> is \<open>/b\<close> followed by it.\<close>

definition host :: "string \<Rightarrow> string" where
  "host p = ''/b'' @ p"

definition sample_mount :: "bool \<Rightarrow> (string, string \<rightharpoonup> string) Oplog" where
  "sample_mount keep = (NewOplog Map.empty (\<lambda>_. BMissing))\<lparr>keepBuffer := keep\<rparr>"

lemmas journal_eval = host_def sample_mount_def NewOplog_def DefaultCoalesceWindow_def DefaultCoalesceMax_def
  write_close_def enqueuePut_def enqueueDelete_def enqueueMove_def remove_journal_def rename_journal_def
  Enqueue_def debouncePut_def firePending_def forcePending_def RenameParkedPut_def takePending_def put_entry_def
  markDirty_def markClean_def dec_def post_def flush_def replay_def run_one_def drainOnShutdown_def IsDirty_def
  debounceDelay_def flat_store_def Let_def

text \<open>
  On a write-through mount, removing a file and writing it again before the uploader
  has run loses the new file: the queued upload of the old version sends the new bytes and
  evicts the buffer, the queued delete removes them from the remote, and the upload parked
  for the new version finds no buffer and is skipped without an error.
\<close>

theorem recreate_loses_write:
  "let up = run_one flat_store;
       o1 = write_close host 0 ''/a'' ''old'' (sample_mount False);
       o2 = snd (remove_journal flat_store host 1 ''/a'' o1);
       o3 = write_close host 2 ''/a'' ''new'' o2;
       o4 = up (firePending 9 ''/a'' (up (up o3)))
   in remote o4 ''/a'' = None \<and> bufs o4 (host ''/a'') = BMissing \<and> dead o4 = [] \<and> \<not> IsDirty o4 ''/a''"
  by (simp add: journal_eval)

text \<open>
  Renaming a file whose upload has left the debounce window but not the queue loses
  it on the remote: the local rename moves the buffer the queued upload points to, the
  upload is skipped, and the move fails for want of a source.
\<close>

theorem rename_of_queued_put_loses_write:
  "let up = run_one flat_store;
       o1 = firePending 9 ''/a'' (write_close host 0 ''/a'' ''x'' (sample_mount keep));
       o2 = snd (rename_journal flat_store host 10 ''/a'' ''/c'' o1);
       o3 = up (up o2)
   in bufs o3 (host ''/c'') = BFile ''x'' \<and> remote o3 ''/a'' = None \<and> remote o3 ''/c'' = None
      \<and> map o_Type (dead o3) = [OpMove] \<and> queue o3 = [] \<and> pending o3 = []"
  by (simp add: journal_eval)

text \<open>
  The shutdown drain replays the parked uploads before the older queued operations:
  a file removed and written again is uploaded and then deleted, although the local
  buffer still holds it.
\<close>

theorem shutdown_drain_reorders:
  "let o1 = write_close host 0 ''/a'' ''old'' (sample_mount True);
       o2 = snd (remove_journal flat_store host 1 ''/a'' o1);
       o3 = write_close host 2 ''/a'' ''new'' o2;
       o4 = drainOnShutdown flat_store 3 9 o3
   in bufs o4 (host ''/a'') = BFile ''new'' \<and> remote o4 ''/a'' = None \<and> dead o4 = []
      \<and> queue o4 = [] \<and> pending o4 = []"
  by (simp add: journal_eval eval_nat_numeral)

end
