(* ===== verification/Statcache.thy ===== *)
theory Statcache
  imports Prelude
begin

text \<open>
  The metadata cache of remote-backed mounts (\<^verbatim>\<open>internal/fusefs/statcache.go\<close>): positive
  entries, tombstones, symlinks and full directory listings, dropped only by a local
  mutation.  A nil cache is \<open>None\<close>.
\<close>

section \<open>Entries and operations\<close>

record FileInfo =
  fi_Path :: string
  fi_Size :: int
  fi_Mtime :: int
  fi_IsDir :: bool
  fi_Symlink :: bool
  fi_LinkTarget :: string

definition zero_info :: FileInfo where
  "zero_info = \<lparr>fi_Path = [], fi_Size = 0, fi_Mtime = 0, fi_IsDir = False, fi_Symlink = False, fi_LinkTarget = []\<rparr>"

record statCacheEntry =
  sc_info :: FileInfo
  sc_negative :: bool
  sc_symlink :: bool

record statCache =
  sc_entries :: "string \<rightharpoonup> statCacheEntry"
  sc_listed :: "string \<rightharpoonup> FileInfo list"

definition newStatCache :: statCache where
  "newStatCache = \<lparr>sc_entries = Map.empty, sc_listed = Map.empty\<rparr>"

definition sc_lookup :: "string \<Rightarrow> statCache option \<Rightarrow> statCacheEntry option" where
  "sc_lookup p c = (case c of None \<Rightarrow> None | Some sc \<Rightarrow> sc_entries sc p)"

definition sc_get :: "string \<Rightarrow> statCache option \<Rightarrow> FileInfo option" where
  "sc_get p c =
     (case sc_lookup p c of
        None \<Rightarrow> None
      | Some e \<Rightarrow> if sc_negative e \<or> sc_symlink e then None else Some (sc_info e))"

definition getEntry :: "string \<Rightarrow> statCache option \<Rightarrow> statCacheEntry option" where
  "getEntry p c = sc_lookup p c"

definition knownAbsent :: "string \<Rightarrow> statCache option \<Rightarrow> bool" where
  "knownAbsent p c = (case sc_lookup p c of None \<Rightarrow> False | Some e \<Rightarrow> sc_negative e)"

definition sc_store :: "string \<Rightarrow> statCacheEntry \<Rightarrow> statCache option \<Rightarrow> statCache option" where
  "sc_store p e c = map_option (\<lambda>sc. sc\<lparr>sc_entries := (sc_entries sc)(p \<mapsto> e)\<rparr>) c"

definition sc_put :: "string \<Rightarrow> FileInfo \<Rightarrow> statCache option \<Rightarrow> statCache option" where
  "sc_put p info c = sc_store p \<lparr>sc_info = info, sc_negative = False, sc_symlink = False\<rparr> c"

definition putNegative :: "string \<Rightarrow> statCache option \<Rightarrow> statCache option" where
  "putNegative p c = sc_store p \<lparr>sc_info = zero_info, sc_negative = True, sc_symlink = False\<rparr> c"

definition putSymlink :: "string \<Rightarrow> int \<Rightarrow> statCache option \<Rightarrow> statCache option" where
  "putSymlink p sz c =
     sc_store p \<lparr>sc_info = zero_info\<lparr>fi_Path := p, fi_Size := sz\<rparr>, sc_negative = False, sc_symlink = True\<rparr> c"

definition putListed :: "string \<Rightarrow> FileInfo list \<Rightarrow> statCache option \<Rightarrow> statCache option" where
  "putListed dir infos c = map_option (\<lambda>sc. sc\<lparr>sc_listed := (sc_listed sc)(dir \<mapsto> infos)\<rparr>) c"

definition cachedListing :: "string \<Rightarrow> statCache option \<Rightarrow> FileInfo list option" where
  "cachedListing dir c = (case c of None \<Rightarrow> None | Some sc \<Rightarrow> sc_listed sc dir)"

definition dirListed :: "string \<Rightarrow> statCache option \<Rightarrow> bool" where
  "dirListed dir c \<longleftrightarrow> cachedListing dir c \<noteq> None"

definition invalidate :: "string \<Rightarrow> statCache option \<Rightarrow> statCache option" where
  "invalidate p c = map_option (\<lambda>sc. sc\<lparr>sc_entries := (sc_entries sc)(p := None),
     sc_listed := (sc_listed sc)(path_Dir p := None)\<rparr>) c"

section \<open>Lookups after updates\<close>

lemma nil_cache [simp]: "sc_lookup p None = None" "cachedListing d None = None"
  by (simp_all add: sc_lookup_def cachedListing_def)

lemma lookup_store [simp]: "sc_lookup q (sc_store p e c) = (if q = p \<and> c \<noteq> None then Some e else sc_lookup q c)"
  by (cases c) (auto simp: sc_lookup_def sc_store_def)

lemma lookup_invalidate [simp]: "sc_lookup q (invalidate p c) = (if q = p then None else sc_lookup q c)"
  by (cases c) (auto simp: sc_lookup_def invalidate_def)

lemma lookup_putListed [simp]: "sc_lookup q (putListed d infos c) = sc_lookup q c"
  by (cases c) (auto simp: sc_lookup_def putListed_def)

lemma listing_store [simp]: "cachedListing d (sc_store p e c) = cachedListing d c"
  by (cases c) (auto simp: cachedListing_def sc_store_def)

lemma listing_putListed [simp]:
  "cachedListing d (putListed d' infos c) = (if d = d' \<and> c \<noteq> None then Some infos else cachedListing d c)"
  by (cases c) (auto simp: cachedListing_def putListed_def)

lemma listing_invalidate [simp]:
  "cachedListing d (invalidate p c) = (if d = path_Dir p then None else cachedListing d c)"
  by (cases c) (auto simp: cachedListing_def invalidate_def)

section \<open>Honesty\<close>

text \<open>
  The cache is honest about the remote when each entry says of its path what the remote
  says, and a listed directory has an entry for every child the remote has: the reading by
  which a miss under a listed directory is answered \<open>absent\<close> without asking.
\<close>

definition entry_honest :: "statCacheEntry \<Rightarrow> FileInfo option \<Rightarrow> bool" where
  "entry_honest e r \<longleftrightarrow> (case r of
      None \<Rightarrow> sc_negative e
    | Some info \<Rightarrow> \<not> sc_negative e \<and> sc_symlink e = fi_Symlink info \<and> fi_Size (sc_info e) = fi_Size info
        \<and> (\<not> fi_Symlink info \<longrightarrow> sc_info e = info))"

definition honest :: "(string \<rightharpoonup> FileInfo) \<Rightarrow> statCache option \<Rightarrow> bool" where
  "honest R c \<longleftrightarrow>
     (\<forall>p e. sc_lookup p c = Some e \<longrightarrow> entry_honest e (R p)) \<and>
     (\<forall>p. dirListed (path_Dir p) c \<and> sc_lookup p c = None \<longrightarrow> R p = None)"

text \<open>The interface the handlers rely on: what a cache lookup may conclude, and which
  updates keep it true when the remote changes under one path.\<close>

locale metadata_cache =
  fixes ok :: "(string \<rightharpoonup> FileInfo) \<Rightarrow> 'c \<Rightarrow> bool"
    and look :: "string \<Rightarrow> 'c \<Rightarrow> statCacheEntry option"
    and complete :: "string \<Rightarrow> 'c \<Rightarrow> bool"
    and drop_path :: "string \<Rightarrow> 'c \<Rightarrow> 'c"
    and record_path :: "string \<Rightarrow> FileInfo \<Rightarrow> 'c \<Rightarrow> 'c"
  assumes hit: "ok R c \<Longrightarrow> look p c = Some e \<Longrightarrow> entry_honest e (R p)"
    and miss: "ok R c \<Longrightarrow> look p c = None \<Longrightarrow> complete (path_Dir p) c \<Longrightarrow> R p = None"
    and after_drop: "ok R c \<Longrightarrow> ok (R(p := x)) (drop_path p c)"
    and after_record: "ok R c \<Longrightarrow> ok (R(p := Some info)) (record_path p info c)"
begin

text \<open>Removals, in-place changes and additive creations in any order: each is a change of
  the remote at one path together with the cache update its handler makes.\<close>

definition apply_mutation :: "string \<times> FileInfo option \<times> bool \<Rightarrow> (string \<rightharpoonup> FileInfo) \<times> 'c \<Rightarrow> (string \<rightharpoonup> FileInfo) \<times> 'c" where
  "apply_mutation m s = (case (m, s) of ((p, x, additive), (R, c)) \<Rightarrow>
     (R(p := x), case x of Some info \<Rightarrow> if additive then record_path p info c else drop_path p c
                         | None \<Rightarrow> drop_path p c))"

lemma mutation_ok: "ok R c \<Longrightarrow> apply_mutation m (R, c) = (R', c') \<Longrightarrow> ok R' c'"
  by (auto simp: apply_mutation_def after_drop after_record split: prod.splits option.splits if_splits)

lemma mutations_ok: "ok R c \<Longrightarrow> fold apply_mutation ms (R, c) = (R', c') \<Longrightarrow> ok R' c'"
proof (induction ms arbitrary: R c)
  case (Cons m ms)
  obtain R1 c1 where m: "apply_mutation m (R, c) = (R1, c1)" by force
  show ?case using Cons.IH [OF mutation_ok [OF Cons.prems(1) m]] Cons.prems(2) m by simp
qed simp

lemma answers_after:
  assumes "ok R c" "fold apply_mutation ms (R, c) = (R', c')"
  shows "look p c' = Some e \<Longrightarrow> entry_honest e (R' p)"
    "look p c' = None \<Longrightarrow> complete (path_Dir p) c' \<Longrightarrow> R' p = None"
  using hit miss mutations_ok [OF assms] by blast+

end

text \<open>How a creation is recorded: symlinks and other entries differ.\<close>

definition record_info :: "string \<Rightarrow> FileInfo \<Rightarrow> statCache option \<Rightarrow> statCache option" where
  "record_info p info c = (if fi_Symlink info then putSymlink p (fi_Size info) c else sc_put p info c)"

lemma record_honest: "honest R c \<Longrightarrow> honest (R(p := Some info)) (record_info p info c)"
  by (auto simp: honest_def record_info_def sc_put_def putSymlink_def entry_honest_def dirListed_def zero_info_def
    split: if_splits)

lemma invalidate_honest: "honest R c \<Longrightarrow> honest (R(p := x)) (invalidate p c)"
  by (auto simp: honest_def dirListed_def split: if_splits)

interpretation statc: metadata_cache honest sc_lookup dirListed invalidate record_info
  by unfold_locales (simp_all add: record_honest invalidate_honest, simp_all add: honest_def)

section \<open>Warming a directory\<close>

text \<open>\<^verbatim>\<open>warmDirCache\<close> and \<^verbatim>\<open>ReadDirAll\<close> record every child of a listing and then mark the
  directory listed.\<close>

definition warm :: "string \<Rightarrow> (string \<times> FileInfo) list \<Rightarrow> statCache option \<Rightarrow> statCache option" where
  "warm dir children c = putListed dir (map snd children) (fold (\<lambda>(p, info). record_info p info) children c)"

lemma fold_record_lookup:
  "sc_lookup q (fold (\<lambda>(p, info). record_info p info) ch c) \<noteq> None \<longleftrightarrow>
     (sc_lookup q c \<noteq> None \<or> q \<in> fst ` set ch \<and> c \<noteq> None)"
proof (induction ch arbitrary: c)
  case (Cons x ch)
  obtain p info where x: "x = (p, info)" by force
  have "record_info p info c = None \<longleftrightarrow> c = None"
    by (simp add: record_info_def sc_put_def putSymlink_def sc_store_def)
  then show ?case
    using Cons.IH [of "record_info p info c"] by (auto simp: x record_info_def sc_put_def putSymlink_def)
qed simp

lemma fold_record_honest:
  "honest R c \<Longrightarrow> \<forall>(p, info) \<in> set ch. R p = Some info \<Longrightarrow>
   honest R (fold (\<lambda>(p, info). record_info p info) ch c)"
proof (induction ch arbitrary: c)
  case (Cons x ch)
  obtain p info where x: "x = (p, info)" by force
  have "R(p := Some info) = R" using Cons.prems(2) by (auto simp: x)
  then show ?case using Cons record_honest [OF Cons.prems(1), of p info] by (simp add: x)
qed simp

lemma warm_honest:
  assumes "honest R c" "\<forall>(p, info) \<in> set ch. R p = Some info"
    and "\<forall>p. path_Dir p = dir \<and> R p \<noteq> None \<longrightarrow> p \<in> fst ` set ch"
  shows "honest R (warm dir ch c)"
proof (cases c)
  case None
  have "fold (\<lambda>(p, info). record_info p info) ch None = None"
    by (induction ch) (auto simp: record_info_def sc_put_def putSymlink_def sc_store_def)
  then show ?thesis using None by (simp add: warm_def honest_def sc_lookup_def dirListed_def cachedListing_def putListed_def)
next
  case (Some sc)
  let ?c = "fold (\<lambda>(p, info). record_info p info) ch c"
  have h: "honest R ?c" by (rule fold_record_honest [OF assms(1,2)])
  have "R p = None" if "path_Dir p = dir" "sc_lookup p ?c = None" for p
    using assms(3) that fold_record_lookup [of p ch c] Some by auto
  then show ?thesis using h by (auto simp: warm_def honest_def dirListed_def split: if_splits)
qed

section \<open>Properties\<close>



text \<open>
  The two invalidations a rename makes do not reach below a renamed directory: an
  entry and a listing cached under the old name survive, so a directory recreated under
  that name shows the children that moved away.
\<close>

theorem rename_keeps_descendants:
  assumes "child \<noteq> old" "child \<noteq> new" "old \<noteq> path_Dir old" "old \<noteq> path_Dir new"
  shows "getEntry child (invalidate new (invalidate old c)) = getEntry child c
    \<and> cachedListing old (invalidate new (invalidate old c)) = cachedListing old c"
  using assms by (simp add: getEntry_def)

theorem rename_keeps_descendants_witness:
  "let c = warm ''/w/old'' [(''/w/old/x'', zero_info)] (Some newStatCache)
   in getEntry ''/w/old/x'' (invalidate ''/w/new'' (invalidate ''/w/old'' c)) \<noteq> None
      \<and> cachedListing ''/w/old'' (invalidate ''/w/new'' (invalidate ''/w/old'' c)) = Some [zero_info]"
proof -
  have d: "path_Dir ''/w/old'' = ''/w''" "path_Dir ''/w/new'' = ''/w''" by code_simp+
  show ?thesis
    using rename_keeps_descendants [of "''/w/old/x''" "''/w/old''" "''/w/new''"
        "warm ''/w/old'' [(''/w/old/x'', zero_info)] (Some newStatCache)"] d
    by (simp add: Let_def warm_def record_info_def sc_put_def putSymlink_def sc_store_def putListed_def getEntry_def
      sc_lookup_def cachedListing_def newStatCache_def zero_info_def)
qed

end
