(* ===== verification/Monads.thy ===== *)
theory Monads
  imports "HOL-Library.State_Monad"
begin

text \<open>
  Stateful code as a state monad over the component's record, with the access and update
  primitives the components share and the weakest-precondition rules their proofs apply:
  \<open>wp m Q s\<close> says that running \<open>m\<close> from \<open>s\<close> ends in a result and a state with \<open>Q\<close>.
\<close>

definition gets :: "('s \<Rightarrow> 'a) \<Rightarrow> ('s, 'a) state" where
  "gets f = State (\<lambda>s. (f s, s))"

definition modify :: "('s \<Rightarrow> 's) \<Rightarrow> ('s, unit) state" where
  "modify f = State (\<lambda>s. ((), f s))"

abbreviation ret :: "'a \<Rightarrow> ('s, 'a) state" where
  "ret \<equiv> State_Monad.return"

definition wp :: "('s, 'a) state \<Rightarrow> ('a \<Rightarrow> 's \<Rightarrow> bool) \<Rightarrow> 's \<Rightarrow> bool" where
  "wp m Q s = (case run_state m s of (r, s') \<Rightarrow> Q r s')"

named_theorems wps \<open>weakest-precondition rules\<close>

lemma wp_bind [wps]: "wp m (\<lambda>r. wp (f r) Q) s \<Longrightarrow> wp (State_Monad.bind m f) Q s"
  by (simp add: wp_def split: prod.splits)

lemma wp_mono: "wp m Q s \<Longrightarrow> (\<And>r s'. Q r s' \<Longrightarrow> Q' r s') \<Longrightarrow> wp m Q' s"
  by (simp add: wp_def split: prod.splits)

lemma wp_ret [wps]: "Q x s \<Longrightarrow> wp (ret x) Q s"
  by (simp add: wp_def)

lemma wp_if [wps]: "(b \<Longrightarrow> wp m Q s) \<Longrightarrow> (\<not> b \<Longrightarrow> wp n Q s) \<Longrightarrow> wp (if b then m else n) Q s"
  by simp

lemma wp_case_option [wps]:
  "(x = None \<Longrightarrow> wp m Q s) \<Longrightarrow> (\<And>y. x = Some y \<Longrightarrow> wp (f y) Q s) \<Longrightarrow> wp (case x of None \<Rightarrow> m | Some y \<Rightarrow> f y) Q s"
  by (cases x) simp_all

lemma wp_let [wps]: "wp (f x) Q s \<Longrightarrow> wp (let y = x in f y) Q s"
  by simp

lemma wp_gets: "Q (f s) s \<Longrightarrow> wp (gets f) Q s"
  by (simp add: wp_def gets_def)

lemma wp_update: "Q () (f s) \<Longrightarrow> wp (modify f) Q s"
  by (simp add: wp_def modify_def)

lemma wp_D: "wp m Q s \<Longrightarrow> Q (fst (run_state m s)) (snd (run_state m s))"
  by (simp add: wp_def split: prod.splits)

lemma wp_conj: "wp m Q s \<Longrightarrow> wp m R s \<Longrightarrow> wp m (\<lambda>r s'. Q r s' \<and> R r s') s"
  by (simp add: wp_def split: prod.splits)

end
