(* ===== verification/Object_Stores.thy ===== *)
theory Object_Stores
  imports Oplog Statcache Monads
begin

text \<open>
  The stores that keep a workspace as objects of a bucket: \<^verbatim>\<open>internal/remotefs/s3.go\<close>,
  \<^verbatim>\<open>gcs.go\<close> and \<^verbatim>\<open>azblob.go\<close>, each with the operations of the interface \<^verbatim>\<open>remotefs.Store\<close>.  The
  services they call are a parameter, the record \<open>bucket_api\<close> of the calls the code makes;
  \<open>bucket_laws\<close> states what the services document of them.
\<close>

section \<open>The services\<close>

text \<open>An error of a service: its code and its HTTP status (0 when there was no response).\<close>

datatype api_error = ApiError (err_code: string) (err_status: nat)

record obj =
  ob_body :: string
  ob_meta :: "(string \<times> string) list"
  ob_mtime :: int

record obj_info =
  oi_size :: int
  oi_meta :: "(string \<times> string) list"
  oi_mtime :: int

definition info_of :: "obj \<Rightarrow> obj_info" where
  "info_of ob = \<lparr>oi_size = int (length (ob_body ob)), oi_meta = ob_meta ob, oi_mtime = ob_mtime ob\<rparr>"

record page =
  pg_Contents :: "(string \<times> obj_info) list"
  pg_Prefixes :: "string list"

text \<open>
  \<open>api_Pages\<close> are the pages of a listing with a prefix, and with the delimiter \<^verbatim>\<open>/\<close> or none, up to
  and including the first that fails; \<open>api_First\<close> is its first page with at most one result.
\<close>

record 'b bucket_api =
  api_Head :: "string \<Rightarrow> ('b, api_error + obj_info) state"
  api_Get :: "string \<Rightarrow> ('b, api_error + string) state"
  api_Put :: "string \<Rightarrow> string \<Rightarrow> (string \<times> string) list \<Rightarrow> ('b, api_error option) state"
  api_Copy :: "string \<Rightarrow> string \<Rightarrow> ('b, api_error option) state"
  api_Delete :: "string \<Rightarrow> ('b, api_error option) state"
  api_Pages :: "string \<Rightarrow> bool \<Rightarrow> ('b, (api_error + page) list) state"
  api_First :: "string \<Rightarrow> ('b, api_error + page) state"

section \<open>What the stores share\<close>

datatype remote_error = ErrNotExist | StoreErr api_error | MoveErr string api_error

definition symlinkSuffix :: string where
  "symlinkSuffix = ''.symlink''"

definition symlinkMetaKey :: string where
  "symlinkMetaKey = ''hiver_symlink''"

definition symlinkTargetMetaKey :: string where
  "symlinkTargetMetaKey = ''hiver_symlink_target''"

text \<open>The loop over the pages of a listing: what the pages before the first failing one gave, and
  that failure.\<close>

fun each_page :: "(page \<Rightarrow> 'a list) \<Rightarrow> (api_error + page) list \<Rightarrow> 'a list \<times> api_error option" where
  "each_page f [] = ([], None)"
| "each_page f (Inl e # ps) = ([], Some e)"
| "each_page f (Inr pg # ps) = (case each_page f ps of (out, err) \<Rightarrow> (f pg @ out, err))"

text \<open>The loops that return \<^verbatim>\<open>nil, err\<close> from within, and those of \<^verbatim>\<open>Pages\<close>, whose caller returns what
  it has together with the error.\<close>

definition all_or_error :: "'a list \<times> api_error option \<Rightarrow> 'a list \<times> remote_error option" where
  "all_or_error r = (case r of (out, None) \<Rightarrow> (out, None) | (out, Some e) \<Rightarrow> ([], Some (StoreErr e)))"

definition with_error :: "'a list \<times> api_error option \<Rightarrow> 'a list \<times> remote_error option" where
  "with_error r = (case r of (out, err) \<Rightarrow> (out, map_option StoreErr err))"

section \<open>S3\<close>

definition isS3NotFound :: "api_error \<Rightarrow> bool" where
  "isS3NotFound err \<longleftrightarrow> err_code err = ''NoSuchKey'' \<or> err_code err = ''NotFound'' \<or> err_status err = 404"

definition s3_key :: "string \<Rightarrow> string \<Rightarrow> string" where
  "s3_key pre p =
     (let p = TrimPrefix (path_Clean (''/'' @ TrimPrefix p ''/'')) ''/''
      in if pre = [] then p else pre @ ''/'' @ p)"

definition s3_storePath :: "string \<Rightarrow> string \<Rightarrow> string" where
  "s3_storePath pre k =
     (let k = (if pre \<noteq> [] then TrimPrefix k (pre @ ''/'') else k)
      in ''/'' @ TrimSuffix k ''/'')"

definition s3_List :: "'b bucket_api \<Rightarrow> string \<Rightarrow> string \<Rightarrow> ('b, string list \<times> remote_error option) state" where
  "s3_List api pre pfx = do {
     pages \<leftarrow> api_Pages api (s3_key pre pfx) False;
     ret (all_or_error (each_page
       (\<lambda>page. map (s3_storePath pre) (filter (\<lambda>k. \<not> HasSuffix k ''/'') (map prod.fst (pg_Contents page)))) pages))
   }"

definition s3_entry :: "string \<Rightarrow> string \<times> obj_info \<Rightarrow> FileInfo list" where
  "s3_entry pre kv =
     (case kv of (key, i) \<Rightarrow>
        if HasSuffix key ''/'' then []
        else if HasSuffix key symlinkSuffix then
          [zero_info\<lparr>fi_Path := s3_storePath pre (TrimSuffix key symlinkSuffix), fi_Size := oi_size i,
             fi_Mtime := oi_mtime i, fi_Symlink := True\<rparr>]
        else [zero_info\<lparr>fi_Path := s3_storePath pre key, fi_Size := oi_size i, fi_Mtime := oi_mtime i\<rparr>])"

definition s3_ListDir :: "'b bucket_api \<Rightarrow> string \<Rightarrow> string \<Rightarrow> ('b, FileInfo list \<times> remote_error option) state" where
  "s3_ListDir api pre dir =
     (let dirKey = s3_key pre dir;
          dirKey = (if dirKey \<noteq> [] \<and> \<not> HasSuffix dirKey ''/'' then dirKey @ ''/'' else dirKey)
      in do {
        pages \<leftarrow> api_Pages api dirKey True;
        ret (all_or_error (each_page
          (\<lambda>page. map (\<lambda>cp. zero_info\<lparr>fi_Path := s3_storePath pre cp, fi_IsDir := True\<rparr>) (pg_Prefixes page)
             @ concat (map (s3_entry pre) (pg_Contents page))) pages))
      })"

definition s3_Stat :: "'b bucket_api \<Rightarrow> string \<Rightarrow> string \<Rightarrow> ('b, remote_error + FileInfo) state" where
  "s3_Stat api pre p =
     (let canon = path_Clean (''/'' @ TrimPrefix p ''/'') in do {
        head \<leftarrow> api_Head api (s3_key pre p);
        (case head of
           Inr i \<Rightarrow> ret (Inr (zero_info\<lparr>fi_Path := canon, fi_Size := oi_size i, fi_Mtime := oi_mtime i\<rparr>))
         | Inl err \<Rightarrow>
             if \<not> isS3NotFound err then ret (Inl (StoreErr err))
             else do {
               sh \<leftarrow> api_Head api (s3_key pre p @ symlinkSuffix);
               (case sh of
                  Inr i \<Rightarrow> ret (Inr (zero_info\<lparr>fi_Path := canon, fi_Size := oi_size i, fi_Mtime := oi_mtime i, fi_Symlink := True\<rparr>))
                | Inl serr \<Rightarrow>
                    if \<not> isS3NotFound serr then ret (Inl (StoreErr serr))
                    else (let pfx = s3_key pre p; pfx = (if \<not> HasSuffix pfx ''/'' then pfx @ ''/'' else pfx) in do {
                      page \<leftarrow> api_First api pfx;
                      (case page of
                         Inl err \<Rightarrow> ret (Inl (StoreErr err))
                       | Inr pg \<Rightarrow>
                           if pg_Contents pg = [] \<and> pg_Prefixes pg = [] then ret (Inl ErrNotExist)
                           else ret (Inr (zero_info\<lparr>fi_Path := canon, fi_IsDir := True\<rparr>)))
                    }))
             })
      })"

definition s3_Get :: "'b bucket_api \<Rightarrow> string \<Rightarrow> string \<Rightarrow> ('b, remote_error + string) state" where
  "s3_Get api pre p = do {
     resp \<leftarrow> api_Get api (s3_key pre p);
     ret (case resp of
            Inr body \<Rightarrow> Inr body
          | Inl err \<Rightarrow> Inl (if isS3NotFound err then ErrNotExist else StoreErr err))
   }"

definition s3_Put :: "'b bucket_api \<Rightarrow> string \<Rightarrow> string \<Rightarrow> string \<Rightarrow> ('b, remote_error option) state" where
  "s3_Put api pre p content = do {
     err \<leftarrow> api_Put api (s3_key pre p) content [];
     ret (map_option StoreErr err)
   }"

definition s3_Symlink :: "'b bucket_api \<Rightarrow> string \<Rightarrow> string \<Rightarrow> string \<Rightarrow> ('b, remote_error option) state" where
  "s3_Symlink api pre p target = s3_Put api pre (p @ symlinkSuffix) target"

definition s3_Readlink :: "'b bucket_api \<Rightarrow> string \<Rightarrow> string \<Rightarrow> ('b, remote_error + string) state" where
  "s3_Readlink api pre p = s3_Get api pre (p @ symlinkSuffix)"

fun s3_delete_keys :: "'b bucket_api \<Rightarrow> string list \<Rightarrow> ('b, remote_error option) state" where
  "s3_delete_keys api [] = ret None"
| "s3_delete_keys api (key # keys) = do {
     err \<leftarrow> api_Delete api key;
     (case err of Some e \<Rightarrow> ret (Some (StoreErr e)) | None \<Rightarrow> s3_delete_keys api keys)
   }"

definition s3_Delete :: "'b bucket_api \<Rightarrow> string \<Rightarrow> string \<Rightarrow> ('b, remote_error option) state" where
  "s3_Delete api pre p = s3_delete_keys api [s3_key pre p, s3_key pre p @ symlinkSuffix]"

definition s3_moveKey :: "'b bucket_api \<Rightarrow> string \<Rightarrow> string \<Rightarrow> ('b, remote_error option) state" where
  "s3_moveKey api srcKey dstKey = do {
     err \<leftarrow> api_Copy api srcKey dstKey;
     (case err of
        Some e \<Rightarrow> ret (Some (if isS3NotFound e then ErrNotExist else MoveErr ''s3 move copy'' e))
      | None \<Rightarrow> do {
          derr \<leftarrow> api_Delete api srcKey;
          ret (map_option (MoveErr ''s3 move delete src'') derr)
        })
   }"

definition s3_Move :: "'b bucket_api \<Rightarrow> string \<Rightarrow> string \<Rightarrow> string \<Rightarrow> ('b, remote_error option) state" where
  "s3_Move api pre src dst = do {
     err \<leftarrow> s3_moveKey api (s3_key pre src) (s3_key pre dst);
     (case err of
        Some ErrNotExist \<Rightarrow> s3_moveKey api (s3_key pre src @ symlinkSuffix) (s3_key pre dst @ symlinkSuffix)
      | _ \<Rightarrow> ret err)
   }"

section \<open>Google Cloud Storage\<close>

definition gcs_notfound :: "api_error \<Rightarrow> bool" where
  "gcs_notfound err \<longleftrightarrow> err_status err = 404"

definition gcs_key :: "string \<Rightarrow> string \<Rightarrow> string" where
  "gcs_key pre p =
     (let p = TrimPrefix (path_Clean (''/'' @ TrimPrefix p ''/'')) ''/''
      in if pre = [] then p else pre @ ''/'' @ p)"

definition gcs_storePath :: "string \<Rightarrow> string \<Rightarrow> string" where
  "gcs_storePath pre k =
     (let k = (if pre \<noteq> [] then TrimPrefix k (pre @ ''/'') else k)
      in ''/'' @ TrimSuffix k ''/'')"

definition gcs_List :: "'b bucket_api \<Rightarrow> string \<Rightarrow> string \<Rightarrow> ('b, string list \<times> remote_error option) state" where
  "gcs_List api pre pfx = do {
     pages \<leftarrow> api_Pages api (gcs_key pre pfx) False;
     ret (with_error (each_page
       (\<lambda>page. map (gcs_storePath pre) (filter (\<lambda>k. \<not> HasSuffix k ''/'') (map prod.fst (pg_Contents page)))) pages))
   }"

definition applyGCSSymlinkMeta :: "(string \<times> string) list \<Rightarrow> FileInfo \<Rightarrow> FileInfo" where
  "applyGCSSymlinkMeta meta fi =
     (case map_of meta symlinkMetaKey of
        None \<Rightarrow> fi
      | Some v \<Rightarrow>
          if v = [] then fi
          else (let t = (case map_of meta symlinkTargetMetaKey of None \<Rightarrow> [] | Some t \<Rightarrow> t)
                in fi\<lparr>fi_Symlink := True, fi_IsDir := False, fi_LinkTarget := t, fi_Size := int (length t)\<rparr>))"

definition gcs_entry :: "string \<Rightarrow> string \<times> obj_info \<Rightarrow> FileInfo list" where
  "gcs_entry pre kv =
     (case kv of (name, i) \<Rightarrow>
        if HasSuffix name ''/'' then []
        else if HasSuffix name symlinkSuffix then []
        else [applyGCSSymlinkMeta (oi_meta i)
               (zero_info\<lparr>fi_Path := gcs_storePath pre name, fi_Size := oi_size i, fi_Mtime := oi_mtime i\<rparr>)])"

definition gcs_ListDir :: "'b bucket_api \<Rightarrow> string \<Rightarrow> string \<Rightarrow> ('b, FileInfo list \<times> remote_error option) state" where
  "gcs_ListDir api pre dir =
     (let dirKey = gcs_key pre dir;
          dirKey = (if dirKey \<noteq> [] \<and> \<not> HasSuffix dirKey ''/'' then dirKey @ ''/'' else dirKey)
      in do {
        pages \<leftarrow> api_Pages api dirKey True;
        ret (with_error (each_page
          (\<lambda>page. map (\<lambda>cp. zero_info\<lparr>fi_Path := gcs_storePath pre cp, fi_IsDir := True\<rparr>) (pg_Prefixes page)
             @ concat (map (gcs_entry pre) (pg_Contents page))) pages))
      })"

definition gcs_Stat :: "'b bucket_api \<Rightarrow> string \<Rightarrow> string \<Rightarrow> ('b, remote_error + FileInfo) state" where
  "gcs_Stat api pre p =
     (let canon = path_Clean (''/'' @ TrimPrefix p ''/'') in do {
        ob \<leftarrow> api_Head api (gcs_key pre p);
        (case ob of
           Inr i \<Rightarrow> ret (Inr (applyGCSSymlinkMeta (oi_meta i)
                     (zero_info\<lparr>fi_Path := canon, fi_Size := oi_size i, fi_Mtime := oi_mtime i\<rparr>)))
         | Inl err \<Rightarrow>
             if \<not> gcs_notfound err then ret (Inl (StoreErr err))
             else (let pfx = gcs_key pre p; pfx = (if \<not> HasSuffix pfx ''/'' then pfx @ ''/'' else pfx) in do {
               page \<leftarrow> api_First api pfx;
               (case page of
                  Inl err \<Rightarrow> ret (Inl (StoreErr err))
                | Inr pg \<Rightarrow>
                    if pg_Contents pg = [] \<and> pg_Prefixes pg = [] then ret (Inl ErrNotExist)
                    else ret (Inr (zero_info\<lparr>fi_Path := canon, fi_IsDir := True\<rparr>)))
             }))
      })"

definition gcs_Get :: "'b bucket_api \<Rightarrow> string \<Rightarrow> string \<Rightarrow> ('b, remote_error + string) state" where
  "gcs_Get api pre p = do {
     resp \<leftarrow> api_Get api (gcs_key pre p);
     ret (case resp of
            Inr body \<Rightarrow> Inr body
          | Inl err \<Rightarrow> Inl (if gcs_notfound err then ErrNotExist else StoreErr err))
   }"

definition gcs_Put :: "'b bucket_api \<Rightarrow> string \<Rightarrow> string \<Rightarrow> string \<Rightarrow> ('b, remote_error option) state" where
  "gcs_Put api pre p content = do {
     err \<leftarrow> api_Put api (gcs_key pre p) content [];
     ret (map_option StoreErr err)
   }"

definition gcs_Symlink :: "'b bucket_api \<Rightarrow> string \<Rightarrow> string \<Rightarrow> string \<Rightarrow> ('b, remote_error option) state" where
  "gcs_Symlink api pre p target = do {
     err \<leftarrow> api_Put api (gcs_key pre p) [] [(symlinkMetaKey, ''1''), (symlinkTargetMetaKey, target)];
     ret (map_option StoreErr err)
   }"

definition link_target :: "remote_error + FileInfo \<Rightarrow> remote_error + string" where
  "link_target r =
     (case r of Inl err \<Rightarrow> Inl err | Inr fi \<Rightarrow> if \<not> fi_Symlink fi then Inl ErrNotExist else Inr (fi_LinkTarget fi))"

definition gcs_Readlink :: "'b bucket_api \<Rightarrow> string \<Rightarrow> string \<Rightarrow> ('b, remote_error + string) state" where
  "gcs_Readlink api pre p = do {
     r \<leftarrow> gcs_Stat api pre p;
     ret (link_target r)
   }"

definition gcs_Delete :: "'b bucket_api \<Rightarrow> string \<Rightarrow> string \<Rightarrow> ('b, remote_error option) state" where
  "gcs_Delete api pre p = do {
     err \<leftarrow> api_Delete api (gcs_key pre p);
     ret (case err of None \<Rightarrow> None | Some e \<Rightarrow> if gcs_notfound e then None else Some (StoreErr e))
   }"

definition gcs_Move :: "'b bucket_api \<Rightarrow> string \<Rightarrow> string \<Rightarrow> string \<Rightarrow> ('b, remote_error option) state" where
  "gcs_Move api pre src dst = do {
     err \<leftarrow> api_Copy api (gcs_key pre src) (gcs_key pre dst);
     (case err of
        Some e \<Rightarrow> ret (Some (if gcs_notfound e then ErrNotExist else MoveErr ''gcs move copy'' e))
      | None \<Rightarrow> do {
          derr \<leftarrow> api_Delete api (gcs_key pre src);
          ret (case derr of None \<Rightarrow> None | Some e \<Rightarrow> if gcs_notfound e then None else Some (MoveErr ''gcs move delete src'' e))
        })
   }"

section \<open>Azure Blob Storage\<close>

definition isAzNotFound :: "api_error \<Rightarrow> bool" where
  "isAzNotFound err \<longleftrightarrow> err_code err = ''BlobNotFound''"

definition az_key :: "string \<Rightarrow> string \<Rightarrow> string" where
  "az_key pre p =
     (let p = TrimPrefix (path_Clean (''/'' @ TrimPrefix p ''/'')) ''/''
      in if pre = [] then p else pre @ ''/'' @ p)"

definition az_storePath :: "string \<Rightarrow> string \<Rightarrow> string" where
  "az_storePath pre k =
     (let k = (if pre \<noteq> [] then TrimPrefix k (pre @ ''/'') else k)
      in ''/'' @ TrimSuffix k ''/'')"

definition az_List :: "'b bucket_api \<Rightarrow> string \<Rightarrow> string \<Rightarrow> ('b, string list \<times> remote_error option) state" where
  "az_List api pre pfx = do {
     pages \<leftarrow> api_Pages api (az_key pre pfx) False;
     ret (all_or_error (each_page
       (\<lambda>page. map (az_storePath pre) (filter (\<lambda>k. \<not> HasSuffix k ''/'') (map prod.fst (pg_Contents page)))) pages))
   }"

text \<open>Metadata names are compared up to case; the loop over the map is in its order.\<close>

definition az_meta :: "(string \<times> string) list \<Rightarrow> string \<Rightarrow> string" where
  "az_meta meta key = (case filter (\<lambda>(k, v). EqualFold k key) meta of [] \<Rightarrow> [] | (k, v) # _ \<Rightarrow> v)"

definition applyAzSymlinkMeta :: "(string \<times> string) list \<Rightarrow> FileInfo \<Rightarrow> FileInfo" where
  "applyAzSymlinkMeta meta fi =
     (if az_meta meta symlinkMetaKey = [] then fi
      else (let t = az_meta meta symlinkTargetMetaKey
            in fi\<lparr>fi_Symlink := True, fi_IsDir := False, fi_LinkTarget := t, fi_Size := int (length t)\<rparr>))"

definition az_entry :: "string \<Rightarrow> string \<times> obj_info \<Rightarrow> FileInfo list" where
  "az_entry pre kv =
     (case kv of (name, i) \<Rightarrow>
        if HasSuffix name ''/'' then []
        else [applyAzSymlinkMeta (oi_meta i)
               (zero_info\<lparr>fi_Path := az_storePath pre name, fi_Size := oi_size i, fi_Mtime := oi_mtime i\<rparr>)])"

definition az_ListDir :: "'b bucket_api \<Rightarrow> string \<Rightarrow> string \<Rightarrow> ('b, FileInfo list \<times> remote_error option) state" where
  "az_ListDir api pre dir =
     (let dirKey = az_key pre dir;
          dirKey = (if dirKey \<noteq> [] \<and> \<not> HasSuffix dirKey ''/'' then dirKey @ ''/'' else dirKey)
      in do {
        pages \<leftarrow> api_Pages api dirKey True;
        ret (all_or_error (each_page
          (\<lambda>page. map (\<lambda>cp. zero_info\<lparr>fi_Path := az_storePath pre cp, fi_IsDir := True\<rparr>) (pg_Prefixes page)
             @ concat (map (az_entry pre) (pg_Contents page))) pages))
      })"

definition az_Stat :: "'b bucket_api \<Rightarrow> string \<Rightarrow> string \<Rightarrow> ('b, remote_error + FileInfo) state" where
  "az_Stat api pre p =
     (let canon = path_Clean (''/'' @ TrimPrefix p ''/'') in do {
        props \<leftarrow> api_Head api (az_key pre p);
        (case props of
           Inr i \<Rightarrow> ret (Inr (applyAzSymlinkMeta (oi_meta i)
                     (zero_info\<lparr>fi_Path := canon, fi_Size := oi_size i, fi_Mtime := oi_mtime i\<rparr>)))
         | Inl err \<Rightarrow>
             if \<not> isAzNotFound err then ret (Inl (StoreErr err))
             else (let pfx = az_key pre p; pfx = (if \<not> HasSuffix pfx ''/'' then pfx @ ''/'' else pfx) in do {
               page \<leftarrow> api_First api pfx;
               (case page of
                  Inl err \<Rightarrow> ret (Inl (StoreErr err))
                | Inr pg \<Rightarrow>
                    if pg_Contents pg \<noteq> [] \<or> pg_Prefixes pg \<noteq> []
                    then ret (Inr (zero_info\<lparr>fi_Path := canon, fi_IsDir := True\<rparr>))
                    else ret (Inl ErrNotExist))
             }))
      })"

definition az_Get :: "'b bucket_api \<Rightarrow> string \<Rightarrow> string \<Rightarrow> ('b, remote_error + string) state" where
  "az_Get api pre p = do {
     resp \<leftarrow> api_Get api (az_key pre p);
     ret (case resp of
            Inr body \<Rightarrow> Inr body
          | Inl err \<Rightarrow> Inl (if isAzNotFound err then ErrNotExist else StoreErr err))
   }"

definition az_Put :: "'b bucket_api \<Rightarrow> string \<Rightarrow> string \<Rightarrow> string \<Rightarrow> ('b, remote_error option) state" where
  "az_Put api pre p content = do {
     err \<leftarrow> api_Put api (az_key pre p) content [];
     ret (map_option StoreErr err)
   }"

definition az_Symlink :: "'b bucket_api \<Rightarrow> string \<Rightarrow> string \<Rightarrow> string \<Rightarrow> ('b, remote_error option) state" where
  "az_Symlink api pre p target = do {
     err \<leftarrow> api_Put api (az_key pre p) [] [(symlinkMetaKey, ''1''), (symlinkTargetMetaKey, target)];
     ret (map_option StoreErr err)
   }"

definition az_Readlink :: "'b bucket_api \<Rightarrow> string \<Rightarrow> string \<Rightarrow> ('b, remote_error + string) state" where
  "az_Readlink api pre p = do {
     r \<leftarrow> az_Stat api pre p;
     ret (link_target r)
   }"

definition az_Delete :: "'b bucket_api \<Rightarrow> string \<Rightarrow> string \<Rightarrow> ('b, remote_error option) state" where
  "az_Delete api pre p = do {
     err \<leftarrow> api_Delete api (az_key pre p);
     ret (case err of None \<Rightarrow> None | Some e \<Rightarrow> if isAzNotFound e then None else Some (StoreErr e))
   }"

text \<open>The error a wrapped \<^verbatim>\<open>fmt.Errorf("...: %w", err)\<close> carries.\<close>

fun wrap_error :: "string \<Rightarrow> remote_error \<Rightarrow> remote_error" where
  "wrap_error msg (StoreErr e) = MoveErr msg e"
| "wrap_error msg err = err"

definition az_Move :: "'b bucket_api \<Rightarrow> string \<Rightarrow> string \<Rightarrow> string \<Rightarrow> ('b, remote_error option) state" where
  "az_Move api pre src dst = do {
     rc \<leftarrow> az_Get api pre src;
     (case rc of
        Inl err \<Rightarrow> ret (Some err)
      | Inr body \<Rightarrow> do {
          perr \<leftarrow> az_Put api pre dst body;
          (case perr of
             Some e \<Rightarrow> ret (Some (wrap_error ''azblob move put'' e))
           | None \<Rightarrow> do {
               derr \<leftarrow> az_Delete api pre src;
               ret (map_option (wrap_error ''azblob move delete src'') derr)
             })
        })
   }"

section \<open>The documented behaviour of the services\<close>

text \<open>
  \<open>view\<close> gives the objects of a bucket by name and \<open>nf\<close> the errors that say an object does not exist.
  A failed call that changes the bucket may have taken effect or not.
\<close>

definition head_law :: "(api_error \<Rightarrow> bool) \<Rightarrow> 'b bucket_api \<Rightarrow> ('b \<Rightarrow> string \<rightharpoonup> obj) \<Rightarrow> bool" where
  "head_law nf api view \<longleftrightarrow> (\<forall>k b. wp (api_Head api k) (\<lambda>r b'. view b' = view b \<and>
     (case r of Inr i \<Rightarrow> \<exists>ob. view b k = Some ob \<and> i = info_of ob | Inl e \<Rightarrow> nf e \<longrightarrow> view b k = None)) b)"

definition get_law :: "(api_error \<Rightarrow> bool) \<Rightarrow> 'b bucket_api \<Rightarrow> ('b \<Rightarrow> string \<rightharpoonup> obj) \<Rightarrow> bool" where
  "get_law nf api view \<longleftrightarrow> (\<forall>k b. wp (api_Get api k) (\<lambda>r b'. view b' = view b \<and>
     (case r of Inr c \<Rightarrow> \<exists>ob. view b k = Some ob \<and> c = ob_body ob | Inl e \<Rightarrow> nf e \<longrightarrow> view b k = None)) b)"

definition put_law :: "'b bucket_api \<Rightarrow> ('b \<Rightarrow> string \<rightharpoonup> obj) \<Rightarrow> bool" where
  "put_law api view \<longleftrightarrow> (\<forall>k c m b. wp (api_Put api k c m) (\<lambda>r b'.
     \<exists>t. let v = (view b)(k \<mapsto> \<lparr>ob_body = c, ob_meta = m, ob_mtime = t\<rparr>)
         in (r = None \<longrightarrow> view b' = v) \<and> (view b' = view b \<or> view b' = v)) b)"

definition copy_law :: "(api_error \<Rightarrow> bool) \<Rightarrow> 'b bucket_api \<Rightarrow> ('b \<Rightarrow> string \<rightharpoonup> obj) \<Rightarrow> bool" where
  "copy_law nf api view \<longleftrightarrow> (\<forall>s d b. wp (api_Copy api s d) (\<lambda>r b'.
     case r of
       None \<Rightarrow> \<exists>ob t. view b s = Some ob \<and> view b' = (view b)(d \<mapsto> ob\<lparr>ob_mtime := t\<rparr>)
     | Some e \<Rightarrow> (nf e \<longrightarrow> view b s = None \<and> view b' = view b) \<and>
         (view b' = view b \<or> (\<exists>ob t. view b s = Some ob \<and> view b' = (view b)(d \<mapsto> ob\<lparr>ob_mtime := t\<rparr>)))) b)"

definition delete_law :: "(api_error \<Rightarrow> bool) \<Rightarrow> 'b bucket_api \<Rightarrow> ('b \<Rightarrow> string \<rightharpoonup> obj) \<Rightarrow> bool" where
  "delete_law nf api view \<longleftrightarrow> (\<forall>k b. wp (api_Delete api k) (\<lambda>r b'.
     case r of
       None \<Rightarrow> view b' = (view b)(k := None)
     | Some e \<Rightarrow> (nf e \<longrightarrow> view b k = None) \<and> (view b' = view b \<or> view b' = (view b)(k := None))) b)"

definition listed_objects :: "(string \<rightharpoonup> obj) \<Rightarrow> string \<Rightarrow> bool \<Rightarrow> (string \<times> obj_info) set" where
  "listed_objects v pfx delim =
     {(k, info_of ob) |k ob. v k = Some ob \<and> prefix pfx k \<and> (delim \<longrightarrow> slash \<notin> set (drop (length pfx) k))}"

definition listed_prefixes :: "(string \<rightharpoonup> obj) \<Rightarrow> string \<Rightarrow> bool \<Rightarrow> string set" where
  "listed_prefixes v pfx delim =
     {pfx @ s @ ''/'' |s. delim \<and> slash \<notin> set s \<and> (\<exists>rest. v (pfx @ s @ ''/'' @ rest) \<noteq> None)}"

definition pages_law :: "'b bucket_api \<Rightarrow> ('b \<Rightarrow> string \<rightharpoonup> obj) \<Rightarrow> bool" where
  "pages_law api view \<longleftrightarrow> (\<forall>pfx delim b. wp (api_Pages api pfx delim) (\<lambda>r b'. view b' = view b \<and>
     (list_all (\<lambda>x. \<not> isl x) r \<longrightarrow>
        set (concat (map (pg_Contents \<circ> projr) r)) = listed_objects (view b) pfx delim \<and>
        set (concat (map (pg_Prefixes \<circ> projr) r)) = listed_prefixes (view b) pfx delim)) b)"

definition first_law :: "'b bucket_api \<Rightarrow> ('b \<Rightarrow> string \<rightharpoonup> obj) \<Rightarrow> bool" where
  "first_law api view \<longleftrightarrow> (\<forall>pfx b. wp (api_First api pfx) (\<lambda>r b'. view b' = view b \<and>
     (case r of Inl e \<Rightarrow> True
      | Inr pg \<Rightarrow> pg_Contents pg = [] \<and> pg_Prefixes pg = [] \<longleftrightarrow> (\<forall>k. view b k \<noteq> None \<longrightarrow> \<not> prefix pfx k))) b)"

definition bucket_laws :: "(api_error \<Rightarrow> bool) \<Rightarrow> 'b bucket_api \<Rightarrow> ('b \<Rightarrow> string \<rightharpoonup> obj) \<Rightarrow> bool" where
  "bucket_laws nf api view \<longleftrightarrow> head_law nf api view \<and> get_law nf api view \<and> put_law api view \<and> copy_law nf api view \<and>
     delete_law nf api view \<and> pages_law api view \<and> first_law api view"

subsection \<open>A bucket in memory\<close>

definition no_object :: api_error where
  "no_object = ApiError ''BlobNotFound'' 404"

definition mem_put :: "string \<Rightarrow> obj \<Rightarrow> (string \<times> obj) list \<Rightarrow> (string \<times> obj) list" where
  "mem_put k ob m = (k, ob) # AList.delete k m"

definition mem_page :: "string \<Rightarrow> bool \<Rightarrow> (string \<times> obj) list \<Rightarrow> page" where
  "mem_page pfx delim m =
     (let found = filter (\<lambda>(k, ob). prefix pfx k) (AList.clearjunk m);
          rest = (\<lambda>k. drop (length pfx) k)
      in \<lparr>pg_Contents = map (\<lambda>(k, ob). (k, info_of ob)) (filter (\<lambda>(k, ob). delim \<longrightarrow> slash \<notin> set (rest k)) found),
          pg_Prefixes = map (\<lambda>(k, ob). pfx @ takeWhile (\<lambda>c. c \<noteq> slash) (rest k) @ ''/'')
            (filter (\<lambda>(k, ob). delim \<and> slash \<in> set (rest k)) found)\<rparr>)"

definition mem_api :: "(string \<times> obj) list bucket_api" where
  "mem_api =
     \<lparr>api_Head = (\<lambda>k. gets (\<lambda>m. case map_of m k of None \<Rightarrow> Inl no_object | Some ob \<Rightarrow> Inr (info_of ob))),
      api_Get = (\<lambda>k. gets (\<lambda>m. case map_of m k of None \<Rightarrow> Inl no_object | Some ob \<Rightarrow> Inr (ob_body ob))),
      api_Put = (\<lambda>k c meta. State (\<lambda>m. (None, mem_put k \<lparr>ob_body = c, ob_meta = meta, ob_mtime = 0\<rparr> m))),
      api_Copy = (\<lambda>s d. State (\<lambda>m. case map_of m s of None \<Rightarrow> (Some no_object, m) | Some ob \<Rightarrow> (None, mem_put d (ob\<lparr>ob_mtime := 0\<rparr>) m))),
      api_Delete = (\<lambda>k. State (\<lambda>m. case map_of m k of None \<Rightarrow> (Some no_object, m) | Some ob \<Rightarrow> (None, AList.delete k m))),
      api_Pages = (\<lambda>pfx delim. gets (\<lambda>m. [Inr (mem_page pfx delim m)])),
      api_First = (\<lambda>pfx. gets (\<lambda>m. Inr (mem_page pfx False m)))\<rparr>"

lemma map_of_mem_put [simp]: "map_of (mem_put k ob m) = (map_of m)(k \<mapsto> ob)"
  by (simp add: mem_put_def fun_eq_iff delete_conv)

lemma mem_found: "(k, ob) \<in> set (AList.clearjunk m) \<longleftrightarrow> map_of m k = Some ob"
  by (metis distinct_clearjunk map_of_clearjunk map_of_eq_Some_iff)

lemma mem_objects: "set (pg_Contents (mem_page pfx delim m)) = listed_objects (map_of m) pfx delim"
  by (force simp: mem_page_def listed_objects_def Let_def mem_found)

lemma mem_prefixes: "set (pg_Prefixes (mem_page pfx delim m)) = listed_prefixes (map_of m) pfx delim"
proof (intro set_eqI iffI)
  fix x assume "x \<in> set (pg_Prefixes (mem_page pfx delim m))"
  then obtain k ob where k: "map_of m k = Some ob" "prefix pfx k" "delim" "slash \<in> set (drop (length pfx) k)"
    "x = pfx @ takeWhile (\<lambda>c. c \<noteq> slash) (drop (length pfx) k) @ ''/''"
    by (auto simp: mem_page_def Let_def mem_found)
  let ?s = "takeWhile (\<lambda>c. c \<noteq> slash) (drop (length pfx) k)"
  obtain xs ys where d: "drop (length pfx) k = xs @ slash # ys" "slash \<notin> set xs"
    using split_list_first [OF k(4)] by blast
  have xs: "?s = xs" using takeWhile_upto [OF d(2)] by (simp add: d(1))
  have "k = pfx @ ?s @ ''/'' @ ys"
    using k(2) d(1) unfolding xs by (auto simp: prefix_def)
  moreover have "slash \<notin> set ?s" using d(2) by (simp add: xs)
  ultimately show "x \<in> listed_prefixes (map_of m) pfx delim" using k(1,3,5)
    unfolding listed_prefixes_def by (intro CollectI exI [of _ ?s]) (auto intro!: exI [of _ ys])
next
  fix x assume "x \<in> listed_prefixes (map_of m) pfx delim"
  then obtain s rest ob where s: "x = pfx @ s @ ''/''" delim "slash \<notin> set s" "map_of m (pfx @ s @ ''/'' @ rest) = Some ob"
    by (auto simp: listed_prefixes_def)
  have "takeWhile (\<lambda>c. c \<noteq> slash) (s @ slash # rest) = s" using takeWhile_upto [OF s(3)] by simp
  then show "x \<in> set (pg_Prefixes (mem_page pfx delim m))"
    using s(2,4) by (auto simp: s(1) mem_page_def Let_def mem_found image_iff
        intro!: bexI [of _ "(pfx @ s @ slash # rest, ob)"])
qed

lemma mem_page_empty:
  "pg_Contents (mem_page pfx False m) = [] \<and> pg_Prefixes (mem_page pfx False m) = [] \<longleftrightarrow>
   (\<forall>k. map_of m k \<noteq> None \<longrightarrow> \<not> prefix pfx k)"
  using mem_objects [of pfx False m] mem_prefixes [of pfx False m]
  by (auto simp: listed_objects_def listed_prefixes_def simp flip: set_empty)

lemma mem_laws:
  assumes "nf no_object"
  shows "bucket_laws nf mem_api map_of"
proof -
  have "head_law nf mem_api map_of" "get_law nf mem_api map_of"
    by (auto simp: head_law_def get_law_def mem_api_def wp_def gets_def split: option.splits)
  moreover have "put_law mem_api map_of"
    by (auto simp: put_law_def mem_api_def wp_def Let_def)
  moreover have "copy_law nf mem_api map_of"
    by (auto simp: copy_law_def mem_api_def wp_def split: option.splits intro!: exI [of _ 0])
  moreover have "delete_law nf mem_api map_of"
    by (auto simp: delete_law_def mem_api_def wp_def delete_conv fun_eq_iff split: option.splits)
  moreover have "pages_law mem_api map_of" "first_law mem_api map_of"
    by (simp_all add: pages_law_def first_law_def mem_api_def wp_def gets_def mem_objects mem_prefixes mem_page_empty)
  ultimately show ?thesis by (simp add: bucket_laws_def)
qed

section \<open>Staying below the prefix\<close>

text \<open>The three stores name objects the same way.\<close>

lemma same_keys [simp]: "gcs_key = s3_key" "az_key = s3_key" "gcs_storePath = s3_storePath" "az_storePath = s3_storePath"
  by (simp_all add: fun_eq_iff s3_key_def gcs_key_def az_key_def s3_storePath_def gcs_storePath_def az_storePath_def)

definition root_key :: "string \<Rightarrow> string" where
  "root_key pre = (if pre = [] then [] else pre @ ''/'')"

lemma s3_key_below: "prefix (root_key pre) (s3_key pre p)"
  by (simp add: s3_key_def root_key_def Let_def)

lemma key_outside: "\<not> prefix (root_key pre) k \<Longrightarrow> k \<noteq> s3_key pre p @ x"
  using s3_key_below [of pre p] prefix_order.trans [of "root_key pre" "s3_key pre p" k] by auto

text \<open>A call keeps the object named \<open>k\<close>, whatever it answers.\<close>

definition keeps :: "('b \<Rightarrow> string \<rightharpoonup> obj) \<Rightarrow> string \<Rightarrow> ('b, 'a) state \<Rightarrow> bool" where
  "keeps view k m \<longleftrightarrow> (\<forall>b. wp m (\<lambda>_ b'. view b' k = view b k) b)"

named_theorems keep \<open>which calls keep an object\<close>

lemma kept_ret [keep]: "keeps view k (ret x)"
  by (simp add: keeps_def wp_def)

lemma kept_bind [keep]: "keeps view k m \<Longrightarrow> (\<And>r. keeps view k (f r)) \<Longrightarrow> keeps view k (State_Monad.bind m f)"
  by (fastforce simp: keeps_def wp_def split: prod.splits)

lemma kept_if [keep]: "keeps view k m \<Longrightarrow> keeps view k n \<Longrightarrow> keeps view k (if c then m else n)"
  by simp

lemma kept_let [keep]: "keeps view k (f x) \<Longrightarrow> keeps view k (let y = x in f y)"
  by simp

lemma kept_case_sum [keep]:
  "(\<And>y. keeps view k (f y)) \<Longrightarrow> (\<And>y. keeps view k (g y)) \<Longrightarrow> keeps view k (case x of Inl y \<Rightarrow> f y | Inr y \<Rightarrow> g y)"
  by (cases x) simp_all

lemma kept_case_option [keep]:
  "keeps view k m \<Longrightarrow> (\<And>y. keeps view k (g y)) \<Longrightarrow> keeps view k (case x of None \<Rightarrow> m | Some y \<Rightarrow> g y)"
  by (cases x) simp_all

lemma kept_case_remote_error [keep]:
  "keeps view k m \<Longrightarrow> (\<And>e. keeps view k (f e)) \<Longrightarrow> (\<And>s e. keeps view k (g s e)) \<Longrightarrow>
   keeps view k (case x of ErrNotExist \<Rightarrow> m | StoreErr e \<Rightarrow> f e | MoveErr s e \<Rightarrow> g s e)"
  by (cases x) simp_all

lemma laws_put:
  assumes "bucket_laws nf api view"
  shows "wp (api_Put api k c m) (\<lambda>r b'. \<exists>t. let v = (view b)(k \<mapsto> \<lparr>ob_body = c, ob_meta = m, ob_mtime = t\<rparr>)
     in (r = None \<longrightarrow> view b' = v) \<and> (view b' = view b \<or> view b' = v)) b"
  using assms by (simp add: bucket_laws_def put_law_def)

lemma laws_delete:
  assumes "bucket_laws nf api view"
  shows "wp (api_Delete api k) (\<lambda>r b'. case r of
      None \<Rightarrow> view b' = (view b)(k := None)
    | Some e \<Rightarrow> (nf e \<longrightarrow> view b k = None) \<and> (view b' = view b \<or> view b' = (view b)(k := None))) b"
  using assms by (simp add: bucket_laws_def delete_law_def)

lemma laws_copy:
  assumes "bucket_laws nf api view"
  shows "wp (api_Copy api s d) (\<lambda>r b'. case r of
      None \<Rightarrow> \<exists>ob t. view b s = Some ob \<and> view b' = (view b)(d \<mapsto> ob\<lparr>ob_mtime := t\<rparr>)
    | Some e \<Rightarrow> (nf e \<longrightarrow> view b s = None \<and> view b' = view b) \<and>
        (view b' = view b \<or> (\<exists>ob t. view b s = Some ob \<and> view b' = (view b)(d \<mapsto> ob\<lparr>ob_mtime := t\<rparr>)))) b"
  using assms by (simp add: bucket_laws_def copy_law_def)

lemma laws_head:
  assumes "bucket_laws nf api view"
  shows "wp (api_Head api k) (\<lambda>r b'. view b' = view b \<and>
     (case r of Inr i \<Rightarrow> \<exists>ob. view b k = Some ob \<and> i = info_of ob | Inl e \<Rightarrow> nf e \<longrightarrow> view b k = None)) b"
  using assms by (simp add: bucket_laws_def head_law_def)

lemma laws_get:
  assumes "bucket_laws nf api view"
  shows "wp (api_Get api k) (\<lambda>r b'. view b' = view b \<and>
     (case r of Inr c \<Rightarrow> \<exists>ob. view b k = Some ob \<and> c = ob_body ob | Inl e \<Rightarrow> nf e \<longrightarrow> view b k = None)) b"
  using assms by (simp add: bucket_laws_def get_law_def)

lemma laws_pages:
  assumes "bucket_laws nf api view"
  shows "wp (api_Pages api pfx delim) (\<lambda>r b'. view b' = view b \<and>
     (list_all (\<lambda>x. \<not> isl x) r \<longrightarrow>
        set (concat (map (pg_Contents \<circ> projr) r)) = listed_objects (view b) pfx delim \<and>
        set (concat (map (pg_Prefixes \<circ> projr) r)) = listed_prefixes (view b) pfx delim)) b"
  using assms unfolding bucket_laws_def pages_law_def by blast

lemma laws_first:
  assumes "bucket_laws nf api view"
  shows "wp (api_First api pfx) (\<lambda>r b'. view b' = view b \<and>
     (case r of Inl e \<Rightarrow> True
      | Inr pg \<Rightarrow> pg_Contents pg = [] \<and> pg_Prefixes pg = [] \<longleftrightarrow> (\<forall>k. view b k \<noteq> None \<longrightarrow> \<not> prefix pfx k))) b"
  using assms unfolding bucket_laws_def first_law_def by blast

lemma kept_reads:
  assumes "bucket_laws nf api view"
  shows "keeps view k (api_Head api x)" "keeps view k (api_Get api x)" "keeps view k (api_Pages api x d)"
    "keeps view k (api_First api x)"
  unfolding keeps_def
  by (intro allI, rule wp_mono [OF laws_head [OF assms]], simp)
     (intro allI, rule wp_mono [OF laws_get [OF assms]], simp,
      intro allI, rule wp_mono [OF laws_pages [OF assms]], simp,
      intro allI, rule wp_mono [OF laws_first [OF assms]], simp)

lemma kept_writes:
  assumes "bucket_laws nf api view" "k \<noteq> x"
  shows "keeps view k (api_Put api x c m)" "keeps view k (api_Delete api x)" "keeps view k (api_Copy api s x)"
proof -
  show "keeps view k (api_Put api x c m)" unfolding keeps_def
    by (intro allI wp_mono [OF laws_put [OF assms(1)]]) (use assms(2) in \<open>auto simp: Let_def\<close>)
  show "keeps view k (api_Delete api x)" unfolding keeps_def
    by (intro allI wp_mono [OF laws_delete [OF assms(1)]]) (use assms(2) in \<open>auto split: option.splits\<close>)
  show "keeps view k (api_Copy api s x)" unfolding keeps_def
    by (intro allI wp_mono [OF laws_copy [OF assms(1)]]) (use assms(2) in \<open>auto split: option.splits\<close>)
qed

lemmas store_defs =
  s3_List_def s3_ListDir_def s3_Stat_def s3_Get_def s3_Put_def s3_Symlink_def s3_Readlink_def s3_Delete_def s3_Move_def s3_moveKey_def
  gcs_List_def gcs_ListDir_def gcs_Stat_def gcs_Get_def gcs_Put_def gcs_Symlink_def gcs_Readlink_def gcs_Delete_def gcs_Move_def
  az_List_def az_ListDir_def az_Stat_def az_Get_def az_Put_def az_Symlink_def az_Readlink_def az_Delete_def az_Move_def

text \<open>The calls of the interface \<^verbatim>\<open>remotefs.Store\<close>, and a store as what each of them does.\<close>

datatype store_call =
    CallList string | CallListDir string | CallStat string | CallGet string | CallReadlink string
  | CallPut string string | CallSymlink string string | CallDelete string | CallMove string string

abbreviation "void" :: "('b, 'a) state \<Rightarrow> ('b, unit) state" where
  "void m \<equiv> State_Monad.bind m (\<lambda>_. ret ())"

fun s3_call :: "'b bucket_api \<Rightarrow> string \<Rightarrow> store_call \<Rightarrow> ('b, unit) state" where
  "s3_call api pre (CallList p) = void (s3_List api pre p)"
| "s3_call api pre (CallListDir p) = void (s3_ListDir api pre p)"
| "s3_call api pre (CallStat p) = void (s3_Stat api pre p)"
| "s3_call api pre (CallGet p) = void (s3_Get api pre p)"
| "s3_call api pre (CallReadlink p) = void (s3_Readlink api pre p)"
| "s3_call api pre (CallPut p c) = void (s3_Put api pre p c)"
| "s3_call api pre (CallSymlink p t) = void (s3_Symlink api pre p t)"
| "s3_call api pre (CallDelete p) = void (s3_Delete api pre p)"
| "s3_call api pre (CallMove p q) = void (s3_Move api pre p q)"

fun gcs_call :: "'b bucket_api \<Rightarrow> string \<Rightarrow> store_call \<Rightarrow> ('b, unit) state" where
  "gcs_call api pre (CallList p) = void (gcs_List api pre p)"
| "gcs_call api pre (CallListDir p) = void (gcs_ListDir api pre p)"
| "gcs_call api pre (CallStat p) = void (gcs_Stat api pre p)"
| "gcs_call api pre (CallGet p) = void (gcs_Get api pre p)"
| "gcs_call api pre (CallReadlink p) = void (gcs_Readlink api pre p)"
| "gcs_call api pre (CallPut p c) = void (gcs_Put api pre p c)"
| "gcs_call api pre (CallSymlink p t) = void (gcs_Symlink api pre p t)"
| "gcs_call api pre (CallDelete p) = void (gcs_Delete api pre p)"
| "gcs_call api pre (CallMove p q) = void (gcs_Move api pre p q)"

fun az_call :: "'b bucket_api \<Rightarrow> string \<Rightarrow> store_call \<Rightarrow> ('b, unit) state" where
  "az_call api pre (CallList p) = void (az_List api pre p)"
| "az_call api pre (CallListDir p) = void (az_ListDir api pre p)"
| "az_call api pre (CallStat p) = void (az_Stat api pre p)"
| "az_call api pre (CallGet p) = void (az_Get api pre p)"
| "az_call api pre (CallReadlink p) = void (az_Readlink api pre p)"
| "az_call api pre (CallPut p c) = void (az_Put api pre p c)"
| "az_call api pre (CallSymlink p t) = void (az_Symlink api pre p t)"
| "az_call api pre (CallDelete p) = void (az_Delete api pre p)"
| "az_call api pre (CallMove p q) = void (az_Move api pre p q)"

primrec calls :: "(store_call \<Rightarrow> ('b, unit) state) \<Rightarrow> store_call list \<Rightarrow> ('b, unit) state" where
  "calls st [] = ret ()"
| "calls st (c # cs) = State_Monad.bind (st c) (\<lambda>_. calls st cs)"

lemma kept_calls: "(\<And>c. keeps view k (st c)) \<Longrightarrow> keeps view k (calls st cs)"
  by (induction cs) (simp_all add: keep)

lemma calls_confined:
  assumes "bucket_laws nf api view" "\<not> prefix (root_key pre) k"
  shows "keeps view k (s3_call api pre c)" "keeps view k (gcs_call api pre c)" "keeps view k (az_call api pre c)"
proof -
  note out = key_outside [OF assms(2)] key_outside [OF assms(2), of _ "[]", simplified]
  note rules = keep kept_reads [OF assms(1)] kept_writes [OF assms(1) out(1)] kept_writes [OF assms(1) out(2)]
  show "keeps view k (s3_call api pre c)"
    by (cases c) (simp_all only: s3_call.simps store_defs s3_delete_keys.simps, (intro rules)+)
  show "keeps view k (gcs_call api pre c)"
    by (cases c) (simp_all only: gcs_call.simps store_defs same_keys, (intro rules)+)
  show "keeps view k (az_call api pre c)"
    by (cases c) (simp_all only: az_call.simps store_defs same_keys, (intro rules)+)
qed

section \<open>Paths and keys\<close>

text \<open>The paths a mount gives its store: rooted, cleaned and not the root.\<close>

definition canon :: "string \<Rightarrow> bool" where
  "canon p \<longleftrightarrow> p \<noteq> ''/'' \<and> path_Clean (''/'' @ TrimPrefix p ''/'') = p"

lemma clean_real: "\<forall>s \<in> set segs. real_seg s \<Longrightarrow> path_Clean (''/'' @ TrimPrefix (abs_path segs) ''/'') = abs_path segs"
  using path_Clean_abs_path [of segs] by (simp add: TrimPrefix_def HasPrefix_def abs_path_def)

lemma Join_real_Nil: "\<forall>s \<in> set segs. real_seg s \<Longrightarrow> Join slash segs = [] \<longleftrightarrow> segs = []"
  by (cases segs; cases "tl segs") (auto simp: real_seg_def)

lemma canon_iff: "canon p \<longleftrightarrow> (\<exists>segs. segs \<noteq> [] \<and> (\<forall>s \<in> set segs. real_seg s) \<and> p = abs_path segs)"
proof
  assume c: "canon p"
  obtain segs where s: "path_Clean (slash # TrimPrefix p ''/'') = abs_path segs" "\<forall>s \<in> set segs. real_seg s"
    using path_Clean_rooted_ex by blast
  then have "p = abs_path segs" using c by (simp add: canon_def)
  moreover have "segs \<noteq> []" using c \<open>p = abs_path segs\<close> by (auto simp: canon_def abs_path_def)
  ultimately show "\<exists>segs. segs \<noteq> [] \<and> (\<forall>s \<in> set segs. real_seg s) \<and> p = abs_path segs" using s(2) by blast
next
  assume "\<exists>segs. segs \<noteq> [] \<and> (\<forall>s \<in> set segs. real_seg s) \<and> p = abs_path segs"
  then show "canon p" using clean_real Join_real_Nil by (auto simp: canon_def abs_path_def)
qed

lemma key_abs_path: "\<forall>s \<in> set segs. real_seg s \<Longrightarrow> s3_key pre (abs_path segs) = root_key pre @ Join slash segs"
  using clean_real [of segs] by (simp add: s3_key_def root_key_def TrimPrefix_def HasPrefix_def abs_path_def Let_def)

lemma canon_key: "canon p \<Longrightarrow> s3_key pre p = root_key pre @ tl p \<and> p = slash # tl p"
  using key_abs_path by (auto simp: canon_iff abs_path_def)

lemma key_inj: "canon p \<Longrightarrow> canon q \<Longrightarrow> s3_key pre p = s3_key pre q \<longleftrightarrow> p = q"
  by (metis canon_key same_append_eq)

lemma key_sidecar:
  assumes "canon p" "canon q" "\<not> HasSuffix q symlinkSuffix"
  shows "s3_key pre q \<noteq> s3_key pre p @ symlinkSuffix"
proof
  assume "s3_key pre q = s3_key pre p @ symlinkSuffix"
  then have "tl q = tl p @ symlinkSuffix" using canon_key [OF assms(1)] canon_key [OF assms(2)] by simp
  then have "q = (slash # tl p) @ symlinkSuffix" using canon_key [OF assms(2)] by simp
  then show False using assms(3) by (metis HasSuffix_append)
qed

section \<open>The stores keep the contract of the journal\<close>

definition err_text :: "remote_error \<Rightarrow> string" where
  "err_text err =
     (case err of
        ErrNotExist \<Rightarrow> ''remote: object does not exist''
      | StoreErr e \<Rightarrow> err_code e
      | MoveErr msg e \<Rightarrow> msg @ '': '' @ err_code e)"

definition with_text :: "('b, remote_error option) state \<Rightarrow> 'b \<Rightarrow> string option \<times> 'b" where
  "with_text m b = (case run_state m b of (err, b') \<Rightarrow> (map_option err_text err, b'))"

definition s3_store :: "'b bucket_api \<Rightarrow> string \<Rightarrow> (string, 'b) store_ops" where
  "s3_store api pre =
     \<lparr>s_Put = (\<lambda>p c. with_text (s3_Put api pre p c)), s_Delete = (\<lambda>p. with_text (s3_Delete api pre p)),
      s_Move = (\<lambda>p q. with_text (s3_Move api pre p q)), s_Symlink = (\<lambda>p t. with_text (s3_Symlink api pre p t))\<rparr>"

definition gcs_store :: "'b bucket_api \<Rightarrow> string \<Rightarrow> (string, 'b) store_ops" where
  "gcs_store api pre =
     \<lparr>s_Put = (\<lambda>p c. with_text (gcs_Put api pre p c)), s_Delete = (\<lambda>p. with_text (gcs_Delete api pre p)),
      s_Move = (\<lambda>p q. with_text (gcs_Move api pre p q)), s_Symlink = (\<lambda>p t. with_text (gcs_Symlink api pre p t))\<rparr>"

definition az_store :: "'b bucket_api \<Rightarrow> string \<Rightarrow> (string, 'b) store_ops" where
  "az_store api pre =
     \<lparr>s_Put = (\<lambda>p c. with_text (az_Put api pre p c)), s_Delete = (\<lambda>p. with_text (az_Delete api pre p)),
      s_Move = (\<lambda>p q. with_text (az_Move api pre p q)), s_Symlink = (\<lambda>p t. with_text (az_Symlink api pre p t))\<rparr>"

text \<open>The paths the stores can tell apart; S3 takes the names ending in \<^verbatim>\<open>.symlink\<close> for itself.\<close>

definition s3_ok :: "string \<Rightarrow> bool" where
  "s3_ok p \<longleftrightarrow> canon p \<and> \<not> HasSuffix p symlinkSuffix"

definition file_look :: "(string \<Rightarrow> bool) \<Rightarrow> ('b \<Rightarrow> string \<rightharpoonup> obj) \<Rightarrow> string \<Rightarrow> 'b \<Rightarrow> string \<Rightarrow> string option" where
  "file_look ok view pre b p = (if ok p then map_option ob_body (view b (s3_key pre p)) else None)"

lemma with_text_None:
  assumes "with_text m b = (None, b')" "wp m Q b"
  shows "Q None b'"
  using assms by (auto simp: with_text_def wp_def split: prod.splits)

lemma look_set:
  assumes "\<forall>q. ok q \<longrightarrow> canon q" "ok p"
    and "\<And>q. ok q \<Longrightarrow> s3_key pre q \<noteq> s3_key pre p \<Longrightarrow> view b' (s3_key pre q) = view b (s3_key pre q)"
  shows "file_look ok view pre b' = (file_look ok view pre b)(p := map_option ob_body (view b' (s3_key pre p)))"
  using assms key_inj by (fastforce simp: file_look_def fun_eq_iff)

lemma look_put:
  assumes "bucket_laws nf api view" "\<forall>q. ok q \<longrightarrow> canon q" "ok p"
  shows "wp (api_Put api (s3_key pre p) c m) (\<lambda>r b'. r = None \<longrightarrow>
    file_look ok view pre b' = (file_look ok view pre b)(p := Some c)) b"
proof (rule wp_mono [OF laws_put [OF assms(1)]], intro impI)
  fix r b'
  assume "\<exists>t. let v = (view b)(s3_key pre p \<mapsto> \<lparr>ob_body = c, ob_meta = m, ob_mtime = t\<rparr>)
    in (r = None \<longrightarrow> view b' = v) \<and> (view b' = view b \<or> view b' = v)" "r = None"
  then obtain t where "view b' = (view b)(s3_key pre p \<mapsto> \<lparr>ob_body = c, ob_meta = m, ob_mtime = t\<rparr>)" by (auto simp: Let_def)
  then show "file_look ok view pre b' = (file_look ok view pre b)(p := Some c)"
    using look_set [OF assms(2,3), of pre view b' b] by simp
qed

lemma look_deleted:
  assumes "\<forall>q. ok q \<longrightarrow> canon q" "ok p" "view b' = (view b)(s3_key pre p := None)"
  shows "file_look ok view pre b' = (file_look ok view pre b)(p := None)"
  using look_set [OF assms(1,2), of pre view b' b] assms(3) by simp

lemma deleted_view:
  assumes "case r of None \<Rightarrow> view b' = (view b)(k := None)
    | Some e \<Rightarrow> (nf e \<longrightarrow> view b k = None) \<and> (view b' = view b \<or> view b' = (view b)(k := None))"
    and "case r of None \<Rightarrow> True | Some e \<Rightarrow> nf e"
  shows "view b' = (view b)(k := None)"
  using assms by (cases r) auto

lemma look_delete:
  assumes "bucket_laws nf api view" "\<forall>q. ok q \<longrightarrow> canon q" "ok p"
  shows "wp (api_Delete api (s3_key pre p)) (\<lambda>r b'. (case r of None \<Rightarrow> True | Some e \<Rightarrow> nf e) \<longrightarrow>
    file_look ok view pre b' = (file_look ok view pre b)(p := None)) b"
  by (rule wp_mono [OF laws_delete [OF assms(1)]]) (blast intro: look_deleted [OF assms(2,3)] deleted_view)

lemma look_copy:
  assumes "bucket_laws nf api view" "\<forall>q. ok q \<longrightarrow> canon q" "ok p" "ok q"
  shows "wp (api_Copy api (s3_key pre p) (s3_key pre q)) (\<lambda>r b'.
    (r = None \<longrightarrow> file_look ok view pre b' = (file_look ok view pre b)(q := file_look ok view pre b p)) \<and>
    (\<forall>e. r = Some e \<and> nf e \<longrightarrow> file_look ok view pre b p = None)) b"
proof (rule wp_mono [OF laws_copy [OF assms(1)]], intro conjI impI allI)
  fix r b'
  assume h: "case r of
      None \<Rightarrow> \<exists>ob t. view b (s3_key pre p) = Some ob \<and> view b' = (view b)(s3_key pre q \<mapsto> ob\<lparr>ob_mtime := t\<rparr>)
    | Some e \<Rightarrow> (nf e \<longrightarrow> view b (s3_key pre p) = None \<and> view b' = view b) \<and>
        (view b' = view b \<or> (\<exists>ob t. view b (s3_key pre p) = Some ob \<and> view b' = (view b)(s3_key pre q \<mapsto> ob\<lparr>ob_mtime := t\<rparr>)))"
  show "file_look ok view pre b' = (file_look ok view pre b)(q := file_look ok view pre b p)" if "r = None"
  proof -
    obtain ob t where o: "view b (s3_key pre p) = Some ob" "view b' = (view b)(s3_key pre q \<mapsto> ob\<lparr>ob_mtime := t\<rparr>)"
      using h \<open>r = None\<close> by auto
    have "file_look ok view pre b p = Some (ob_body ob)" using o(1) assms(3) by (simp add: file_look_def)
    then show ?thesis using look_set [OF assms(2,4), of pre view b' b] o(2) by simp
  qed
  show "file_look ok view pre b p = None" if "r = Some e \<and> nf e" for e
    using h that by (simp add: file_look_def)
qed

abbreviation look_after :: "(string \<Rightarrow> bool) \<Rightarrow> ('b \<Rightarrow> string \<rightharpoonup> obj) \<Rightarrow> string \<Rightarrow> 'b \<Rightarrow>
    ((string \<Rightarrow> string option) \<Rightarrow> string \<Rightarrow> string option) \<Rightarrow> remote_error option \<Rightarrow> 'b \<Rightarrow> bool" where
  "look_after ok view pre b f \<equiv> \<lambda>e b'. e = None \<longrightarrow> file_look ok view pre b' = f (file_look ok view pre b)"

lemma gcs_Put_look:
  assumes "bucket_laws nf api view" "\<forall>q. ok q \<longrightarrow> canon q" "ok p"
  shows "wp (gcs_Put api pre p c) (look_after ok view pre b (\<lambda>l. l(p := Some c))) b"
  unfolding gcs_Put_def same_keys
  by (rule wp_bind, rule wp_mono [OF look_put [OF assms]], rule wp_ret) simp

lemma gcs_Delete_look:
  assumes "bucket_laws gcs_notfound api view" "\<forall>q. ok q \<longrightarrow> canon q" "ok p"
  shows "wp (gcs_Delete api pre p) (look_after ok view pre b (\<lambda>l. l(p := None))) b"
  unfolding gcs_Delete_def same_keys
  by (rule wp_bind, rule wp_mono [OF look_delete [OF assms]], rule wp_ret) (auto split: option.splits if_splits)

lemma gcs_Move_look:
  assumes "bucket_laws gcs_notfound api view" "\<forall>q. ok q \<longrightarrow> canon q" "ok p" "ok q" "p \<noteq> q"
  shows "wp (gcs_Move api pre p q) (look_after ok view pre b (\<lambda>l. l(p := None, q := l p))) b"
  unfolding gcs_Move_def same_keys
proof (rule wp_bind, rule wp_mono [OF look_copy [OF assms(1-4)]], rule wp_case_option)
  fix r b'
  assume h: "(r = None \<longrightarrow> file_look ok view pre b' = (file_look ok view pre b)(q := file_look ok view pre b p)) \<and>
    (\<forall>e. r = Some e \<and> gcs_notfound e \<longrightarrow> file_look ok view pre b p = None)" "r = None"
  show "wp (State_Monad.bind (api_Delete api (s3_key pre p)) (\<lambda>derr. ret (case derr of None \<Rightarrow> None
      | Some e \<Rightarrow> if gcs_notfound e then None else Some (MoveErr ''gcs move delete src'' e))))
    (look_after ok view pre b (\<lambda>l. l(p := None, q := l p))) b'"
    using h assms(5)
    by (intro wp_bind wp_mono [OF look_delete [OF assms(1-3)]] wp_ret)
       (auto simp: fun_upd_twist split: option.splits if_splits)
qed (rule wp_ret, simp)

lemma s3_Put_look:
  assumes "bucket_laws nf api view" "\<forall>q. ok q \<longrightarrow> canon q" "ok p"
  shows "wp (s3_Put api pre p c) (look_after ok view pre b (\<lambda>l. l(p := Some c))) b"
  using gcs_Put_look [OF assms] by (simp add: s3_Put_def gcs_Put_def)

lemma az_Put_look:
  assumes "bucket_laws nf api view" "\<forall>q. ok q \<longrightarrow> canon q" "ok p"
  shows "wp (az_Put api pre p c) (look_after ok view pre b (\<lambda>l. l(p := Some c))) b"
  using gcs_Put_look [OF assms] by (simp add: az_Put_def gcs_Put_def)

lemma az_Delete_look:
  assumes "bucket_laws isAzNotFound api view" "\<forall>q. ok q \<longrightarrow> canon q" "ok p"
  shows "wp (az_Delete api pre p) (look_after ok view pre b (\<lambda>l. l(p := None))) b"
  unfolding az_Delete_def same_keys
  by (rule wp_bind, rule wp_mono [OF look_delete [OF assms]], rule wp_ret) (auto split: option.splits if_splits)

lemma az_Move_look:
  assumes "bucket_laws isAzNotFound api view" "\<forall>q. ok q \<longrightarrow> canon q" "ok p" "ok q" "p \<noteq> q"
  shows "wp (az_Move api pre p q) (look_after ok view pre b (\<lambda>l. l(p := None, q := l p))) b"
proof -
  have get: "wp (az_Get api pre p) (\<lambda>r b'. file_look ok view pre b' = file_look ok view pre b \<and>
      (\<forall>c. r = Inr c \<longrightarrow> file_look ok view pre b p = Some c)) b"
    unfolding az_Get_def same_keys
    by (rule wp_bind, rule wp_mono [OF laws_get [OF assms(1)]], rule wp_ret)
       (use assms(3) in \<open>auto simp: file_look_def fun_eq_iff split: sum.splits if_splits\<close>)
  have del: "wp (State_Monad.bind (az_Delete api pre p) (\<lambda>derr. ret (map_option (wrap_error ''azblob move delete src'') derr)))
      (look_after ok view pre b (\<lambda>l. l(p := None, q := l p))) b2"
    if "file_look ok view pre b2 = (file_look ok view pre b)(q := file_look ok view pre b p)" for b2
    using that assms(5)
    by (intro wp_bind wp_mono [OF az_Delete_look [OF assms(1-3)]] wp_ret) (auto simp: fun_upd_twist)
  show ?thesis
    unfolding az_Move_def
    apply (rule wp_bind, rule wp_mono [OF get])
    subgoal for rc b1
      apply (cases rc)
       apply (simp add: wp_ret)
      apply (simp, rule wp_bind, rule wp_mono [OF az_Put_look [OF assms(1,2,4)]])
      subgoal for c perr b2 using del [of b2] by (cases perr) (auto simp: wp_ret)
      done
    done
qed

lemma s3_ok_canon: "\<forall>q. s3_ok q \<longrightarrow> canon q"
  by (simp add: s3_ok_def)

lemma sidecar_unseen:
  assumes "canon p" "\<And>k. k \<noteq> s3_key pre p @ symlinkSuffix \<Longrightarrow> view b' k = view b k"
  shows "file_look s3_ok view pre b' = file_look s3_ok view pre b"
  using key_sidecar [OF assms(1)] assms(2) by (auto simp: file_look_def s3_ok_def fun_eq_iff)

lemma look_delete_sidecar:
  assumes "bucket_laws nf api view" "canon p"
  shows "wp (api_Delete api (s3_key pre p @ symlinkSuffix)) (\<lambda>r b'. file_look s3_ok view pre b' = file_look s3_ok view pre b) b"
  by (rule wp_mono [OF laws_delete [OF assms(1)]], rule sidecar_unseen [OF assms(2)]) (auto split: option.splits)

lemma s3_Delete_look:
  assumes "bucket_laws nf api view" "s3_ok p"
  shows "wp (s3_Delete api pre p) (look_after s3_ok view pre b (\<lambda>l. l(p := None))) b"
proof -
  have p: "canon p" using assms(2) by (simp add: s3_ok_def)
  have "wp (s3_delete_keys api [s3_key pre p @ symlinkSuffix]) (\<lambda>r b'. file_look s3_ok view pre b' = file_look s3_ok view pre b1) b1" for b1
    by (simp, rule wp_bind, rule wp_mono [OF look_delete_sidecar [OF assms(1) p]], rule wp_case_option; rule wp_ret)
  note side = this
  show ?thesis
    unfolding s3_Delete_def s3_delete_keys.simps(2) [of api "s3_key pre p"]
    apply (rule wp_bind, rule wp_mono [OF look_delete [OF assms(1) s3_ok_canon assms(2)]], rule wp_case_option)
    subgoal for r b1 by (rule wp_mono [OF side]) simp
    by (rule wp_ret) simp
qed

lemma moveKey_look:
  assumes "bucket_laws isS3NotFound api view" "s3_ok p" "s3_ok q" "p \<noteq> q" "file_look s3_ok view pre b p \<noteq> None"
  shows "wp (s3_moveKey api (s3_key pre p) (s3_key pre q))
    (\<lambda>e b'. e \<noteq> Some ErrNotExist \<and> look_after s3_ok view pre b (\<lambda>l. l(p := None, q := l p)) e b') b"
  unfolding s3_moveKey_def
proof (rule wp_bind, rule wp_mono [OF look_copy [OF assms(1) s3_ok_canon assms(2,3)]], rule wp_case_option)
  fix r b'
  assume h: "(r = None \<longrightarrow> file_look s3_ok view pre b' = (file_look s3_ok view pre b)(q := file_look s3_ok view pre b p)) \<and>
    (\<forall>e. r = Some e \<and> isS3NotFound e \<longrightarrow> file_look s3_ok view pre b p = None)"
  show "wp (State_Monad.bind (api_Delete api (s3_key pre p)) (\<lambda>derr. ret (map_option (MoveErr ''s3 move delete src'') derr)))
    (\<lambda>e b'. e \<noteq> Some ErrNotExist \<and> look_after s3_ok view pre b (\<lambda>l. l(p := None, q := l p)) e b') b'" if "r = None"
    using h that assms(4)
    by (intro wp_bind wp_mono [OF look_delete [OF assms(1) s3_ok_canon assms(2)]] wp_ret)
       (auto simp: fun_upd_twist split: option.splits)
  show "wp (ret (Some (if isS3NotFound e then ErrNotExist else MoveErr ''s3 move copy'' e)))
    (\<lambda>e b'. e \<noteq> Some ErrNotExist \<and> look_after s3_ok view pre b (\<lambda>l. l(p := None, q := l p)) e b') b'" if "r = Some e" for e
    using h that assms(5) by (intro wp_ret) auto
qed

lemma s3_Move_look:
  assumes "bucket_laws isS3NotFound api view" "s3_ok p" "s3_ok q" "p \<noteq> q" "file_look s3_ok view pre b p \<noteq> None"
  shows "wp (s3_Move api pre p q) (look_after s3_ok view pre b (\<lambda>l. l(p := None, q := l p))) b"
  unfolding s3_Move_def
  by (rule wp_bind, rule wp_mono [OF moveKey_look [OF assms]])
     (auto intro!: wp_ret split: option.splits remote_error.splits)

lemma s3_object_store:
  assumes "bucket_laws isS3NotFound api view"
  shows "object_store (s3_store api pre) (file_look s3_ok view pre) s3_ok"
  by standard
     (auto simp: s3_store_def dest!: with_text_None [OF _ s3_Put_look [OF assms s3_ok_canon]]
        with_text_None [OF _ s3_Delete_look [OF assms]] with_text_None [OF _ s3_Move_look [OF assms]])

lemma gcs_object_store:
  assumes "bucket_laws gcs_notfound api view"
  shows "object_store (gcs_store api pre) (file_look canon view pre) canon"
  by standard
     (auto simp: gcs_store_def dest!: with_text_None [OF _ gcs_Put_look [OF assms]]
        with_text_None [OF _ gcs_Delete_look [OF assms]] with_text_None [OF _ gcs_Move_look [OF assms]])

lemma az_object_store:
  assumes "bucket_laws isAzNotFound api view"
  shows "object_store (az_store api pre) (file_look canon view pre) canon"
  by standard
     (auto simp: az_store_def dest!: with_text_None [OF _ az_Put_look [OF assms]]
        with_text_None [OF _ az_Delete_look [OF assms]] with_text_None [OF _ az_Move_look [OF assms]])

end
