(* ===== verification/Object_Listing.thy ===== *)
theory Object_Listing
  imports Object_Stores
begin

text \<open>
  The tree an object store shows: what \<^verbatim>\<open>Stat\<close> answers for a path and what \<^verbatim>\<open>ListDir\<close> answers for a
  directory of S3, Google Cloud Storage and Azure Blob Storage, both read off the names of the
  objects, and the properties of the three stores.
\<close>

section \<open>Names below a directory\<close>

definition dir_key :: "string \<Rightarrow> string list \<Rightarrow> string" where
  "dir_key pre ds = root_key pre @ Join slash (ds @ [[]])"

lemma dir_key_append: "ns \<noteq> [] \<Longrightarrow> dir_key pre ds @ Join slash ns = root_key pre @ Join slash (ds @ ns)"
  by (cases "ds = []") (simp_all add: dir_key_def Join_append)

lemma dir_key_child: "dir_key pre ds @ s = root_key pre @ Join slash (ds @ [s])"
  using dir_key_append [of "[s]" pre ds] by simp

lemma dir_key_below: "dir_key pre ds @ s @ ''/'' @ rest = root_key pre @ Join slash (ds @ s # Split slash rest)"
  using dir_key_append [of "s # Split slash rest" pre ds] by (simp add: Join_Cons)

lemma child_key:
  assumes "\<forall>s \<in> set ds. real_seg s" "real_seg s"
  shows "s3_key pre (abs_path (ds @ [s])) = dir_key pre ds @ s"
  using assms key_abs_path [of "ds @ [s]" pre] by (simp add: dir_key_child)

text \<open>A bucket is tidy when the names below the prefix are those of cleaned paths, or of directory
  markers, which end in a slash.\<close>

definition tidy :: "(string \<rightharpoonup> obj) \<Rightarrow> string \<Rightarrow> bool" where
  "tidy v pre \<longleftrightarrow> v [] = None \<and> (\<forall>k. v k \<noteq> None \<and> prefix (root_key pre) k \<longrightarrow>
     (\<exists>segs. (\<forall>s \<in> set segs. real_seg s) \<and> (k = dir_key pre segs \<or> segs \<noteq> [] \<and> k = root_key pre @ Join slash segs)))"

lemma tidy_names:
  assumes "tidy v pre" "names \<noteq> []" "\<forall>n \<in> set names. slash \<notin> set n" "v (root_key pre @ Join slash names) \<noteq> None"
  obtains segs where "\<forall>s \<in> set segs. real_seg s" "names = segs @ [[]] \<or> names = segs"
proof -
  obtain segs where r: "\<forall>s \<in> set segs. real_seg s"
    and k: "Join slash names = Join slash (segs @ [[]]) \<or> segs \<noteq> [] \<and> Join slash names = Join slash segs"
    using assms(1,4) unfolding tidy_def dir_key_def by (metis prefixI same_append_eq)
  have "\<forall>s \<in> set (segs @ [[]]). slash \<notin> set s" using r by (auto simp: real_seg_def)
  then have "names = segs @ [[]] \<or> names = segs"
    using k assms(2,3) r by (metis Split_Join append_is_Nil_conv list.distinct(1) Split_Join_real)
  then show ?thesis using that r by blast
qed

lemma tidy_child:
  assumes "tidy v pre" "\<forall>s \<in> set ds. real_seg s" "slash \<notin> set s" "v (dir_key pre ds @ s) \<noteq> None"
  shows "s = [] \<or> real_seg s"
proof -
  have "\<forall>n \<in> set (ds @ [s]). slash \<notin> set n" using assms(2,3) by (auto simp: real_seg_def)
  then obtain segs where "\<forall>s \<in> set segs. real_seg s" "ds @ [s] = segs @ [[]] \<or> ds @ [s] = segs"
    using tidy_names [OF assms(1), of "ds @ [s]"] assms(4) by (auto simp: dir_key_child)
  then show ?thesis by auto
qed

definition has_below :: "(string \<rightharpoonup> obj) \<Rightarrow> string \<Rightarrow> bool" where
  "has_below v k \<longleftrightarrow> (\<exists>rest. v (k @ ''/'' @ rest) \<noteq> None)"

lemma tidy_below:
  assumes "tidy v pre" "\<forall>s \<in> set ds. real_seg s" "slash \<notin> set s" "has_below v (dir_key pre ds @ s)"
  shows "real_seg s"
proof -
  obtain rest where r: "v (root_key pre @ Join slash (ds @ s # Split slash rest)) \<noteq> None"
    using assms(4) dir_key_below [of pre ds s] by (auto simp: has_below_def)
  have "\<forall>n \<in> set (ds @ s # Split slash rest). slash \<notin> set n"
    using assms(2,3) Split_no_sep by (auto simp: real_seg_def)
  then obtain segs where s: "\<forall>s \<in> set segs. real_seg s"
    "ds @ s # Split slash rest = segs @ [[]] \<or> ds @ s # Split slash rest = segs"
    using tidy_names [OF assms(1) _ _ r] by auto
  have "s \<in> set segs" using s(2)
  proof
    assume "ds @ s # Split slash rest = segs @ [[]]"
    then have "butlast (ds @ s # Split slash rest) = segs" by simp
    then show ?thesis by (auto simp: butlast_append)
  qed auto
  then show ?thesis using s(1) by blast
qed

section \<open>Keys back to paths\<close>

lemma not_slash_end: "real_seg s \<Longrightarrow> \<not> HasSuffix (x @ s) ''/''"
  by (cases s rule: rev_cases) (auto simp: real_seg_def HasSuffix_def suffix_def)

lemma storePath_child:
  assumes "real_seg s"
  shows "s3_storePath pre (dir_key pre ds @ s) = abs_path (ds @ [s])"
    "s3_storePath pre (dir_key pre ds @ s @ ''/'') = abs_path (ds @ [s])"
proof -
  have j: "Join slash (ds @ [s]) = (if ds = [] then s else (Join slash ds @ ''/'') @ s)" by (simp add: Join_append)
  have n: "\<not> HasSuffix (Join slash (ds @ [s])) ''/''" unfolding j using not_slash_end [OF assms] by (metis append_Nil)
  have t: "(if pre \<noteq> [] then TrimPrefix (root_key pre @ x) (pre @ ''/'') else root_key pre @ x) = x" for x
    by (simp add: root_key_def TrimPrefix_def HasPrefix_def)
  show "s3_storePath pre (dir_key pre ds @ s) = abs_path (ds @ [s])"
    using n by (simp add: s3_storePath_def dir_key_child t TrimSuffix_def abs_path_def Let_def del: append_assoc)
  have "dir_key pre ds @ s @ ''/'' = root_key pre @ (Join slash (ds @ [s]) @ ''/'')"
    using dir_key_child [of pre ds s] by simp
  then show "s3_storePath pre (dir_key pre ds @ s @ ''/'') = abs_path (ds @ [s])"
    by (simp only: s3_storePath_def Let_def t TrimSuffix_append abs_path_def append.simps)
qed

lemma dirKey_code:
  assumes "\<forall>s \<in> set ds. real_seg s"
  shows "(let dirKey = s3_key pre (abs_path ds)
    in if dirKey \<noteq> [] \<and> \<not> HasSuffix dirKey ''/'' then dirKey @ ''/'' else dirKey) = dir_key pre ds"
proof (cases ds rule: rev_cases)
  case Nil
  then show ?thesis using key_abs_path [OF assms, of pre] by (auto simp: dir_key_def root_key_def HasSuffix_def suffix_def)
next
  case (snoc xs x)
  then have "s3_key pre (abs_path ds) = dir_key pre xs @ x" "real_seg x"
    using key_abs_path [OF assms, of pre] assms by (simp_all add: dir_key_child)
  moreover have "dir_key pre ds = s3_key pre (abs_path ds) @ ''/''"
    using key_abs_path [OF assms, of pre] snoc Join_append [of ds "[[]]" slash] by (simp add: dir_key_def)
  ultimately show ?thesis using not_slash_end [of x] by (auto simp: Let_def real_seg_def)
qed

section \<open>What a listing returns\<close>

lemma each_page_ok:
  "each_page f ps = (out, None) \<Longrightarrow>
   list_all (\<lambda>x. \<not> isl x) ps \<and> set out = (\<Union>x \<in> set ps. set (f (projr x)))"
  by (induction f ps arbitrary: out rule: each_page.induct) (auto split: prod.splits)

definition dir_node :: "string \<Rightarrow> FileInfo" where
  "dir_node p = zero_info\<lparr>fi_Path := p, fi_IsDir := True\<rparr>"

definition file_node :: "string \<Rightarrow> obj_info \<Rightarrow> FileInfo" where
  "file_node p i = zero_info\<lparr>fi_Path := p, fi_Size := oi_size i, fi_Mtime := oi_mtime i\<rparr>"

lemma dir_listing:
  assumes "bucket_laws nf api view" "tidy (view b) pre" "\<forall>s \<in> set ds. real_seg s"
    and "\<And>i. dir_key pre ds \<noteq> [] \<Longrightarrow> E (dir_key pre ds, i) = []"
  shows "wp (api_Pages api (dir_key pre ds) True) (\<lambda>pages b'. \<forall>out.
     each_page (\<lambda>page. map (\<lambda>cp. zero_info\<lparr>fi_Path := s3_storePath pre cp, fi_IsDir := True\<rparr>) (pg_Prefixes page)
        @ concat (map E (pg_Contents page))) pages = (out, None) \<longrightarrow>
     (\<forall>fi. fi \<in> set out \<longleftrightarrow> (\<exists>s. real_seg s \<and>
        (has_below (view b) (dir_key pre ds @ s) \<and> fi = dir_node (abs_path (ds @ [s])) \<or>
         (\<exists>ob. view b (dir_key pre ds @ s) = Some ob \<and> fi \<in> set (E (dir_key pre ds @ s, info_of ob))))))) b"
proof (rule wp_mono [OF laws_pages [OF assms(1)]], intro allI impI)
  fix pages b' out fi
  let ?v = "view b" and ?k = "dir_key pre ds"
  let ?F = "\<lambda>page. map (\<lambda>cp. zero_info\<lparr>fi_Path := s3_storePath pre cp, fi_IsDir := True\<rparr>) (pg_Prefixes page)
        @ concat (map E (pg_Contents page))"
  assume h: "view b' = ?v \<and> (list_all (\<lambda>x. \<not> isl x) pages \<longrightarrow>
      set (concat (map (pg_Contents \<circ> projr) pages)) = listed_objects ?v ?k True \<and>
      set (concat (map (pg_Prefixes \<circ> projr) pages)) = listed_prefixes ?v ?k True)" "each_page ?F pages = (out, None)"
  note ok = each_page_ok [OF h(2)]
  have c: "(\<Union>x \<in> set pages. set (pg_Contents (projr x))) = listed_objects ?v ?k True"
    and q: "(\<Union>x \<in> set pages. set (pg_Prefixes (projr x))) = listed_prefixes ?v ?k True"
    using h(1) ok by simp_all
  have "set out = (\<lambda>cp. dir_node (s3_storePath pre cp)) ` listed_prefixes ?v ?k True \<union> (\<Union>kv \<in> listed_objects ?v ?k True. set (E kv))"
    unfolding c [symmetric] q [symmetric] using ok unfolding UN_UN_flatten by (simp add: dir_node_def image_UN [of _ _ "set pages"] UN_Un_distrib)
  then have out: "fi \<in> set out \<longleftrightarrow> (\<exists>cp \<in> listed_prefixes ?v ?k True. fi = dir_node (s3_storePath pre cp))
      \<or> (\<exists>kv \<in> listed_objects ?v ?k True. fi \<in> set (E kv))" by (simp only: Un_iff UN_iff image_iff)
  have pre: "cp \<in> listed_prefixes ?v ?k True \<longleftrightarrow> (\<exists>s. real_seg s \<and> has_below ?v (?k @ s) \<and> cp = ?k @ s @ ''/'')" for cp
  proof -
    have "listed_prefixes ?v ?k True = {?k @ s @ ''/'' |s. slash \<notin> set s \<and> has_below ?v (?k @ s)}"
      by (simp add: listed_prefixes_def has_below_def)
    moreover have "slash \<notin> set s \<and> has_below ?v (?k @ s) \<longleftrightarrow> real_seg s \<and> has_below ?v (?k @ s)" for s
      using tidy_below [OF assms(2,3)] real_seg_def by blast
    ultimately show ?thesis by blast
  qed
  have obj: "(\<exists>kv \<in> listed_objects ?v ?k True. fi \<in> set (E kv)) \<longleftrightarrow>
      (\<exists>s ob. real_seg s \<and> ?v (?k @ s) = Some ob \<and> fi \<in> set (E (?k @ s, info_of ob)))" (is "?L \<longleftrightarrow> ?R")
  proof
    assume ?L
    then obtain s ob where s: "?v (?k @ s) = Some ob" "slash \<notin> set s" "fi \<in> set (E (?k @ s, info_of ob))"
      unfolding listed_objects_def prefix_def by auto
    have "s \<noteq> []"
    proof
      assume "s = []"
      then show False using s assms(2) assms(4) [of "info_of ob"] by (cases "?k = []") (simp_all add: tidy_def)
    qed
    then show ?R using s tidy_child [OF assms(2,3) s(2)] by blast
  next
    assume ?R
    then obtain s ob where s: "real_seg s" "?v (?k @ s) = Some ob" "fi \<in> set (E (?k @ s, info_of ob))" by blast
    then have "(?k @ s, info_of ob) \<in> listed_objects ?v ?k True" by (auto simp: listed_objects_def real_seg_def)
    then show ?L using s(3) by blast
  qed
  have dirs: "(\<exists>cp \<in> listed_prefixes ?v ?k True. fi = dir_node (s3_storePath pre cp)) \<longleftrightarrow>
      (\<exists>s. real_seg s \<and> has_below ?v (?k @ s) \<and> fi = dir_node (abs_path (ds @ [s])))"
    unfolding Bex_def pre using storePath_child(2) [of _ pre ds] by metis
  show "fi \<in> set out \<longleftrightarrow> (\<exists>s. real_seg s \<and>
        (has_below ?v (?k @ s) \<and> fi = dir_node (abs_path (ds @ [s])) \<or>
         (\<exists>ob. ?v (?k @ s) = Some ob \<and> fi \<in> set (E (?k @ s, info_of ob)))))"
    unfolding out dirs obj by blast
qed

section \<open>The tree\<close>

text \<open>
  What is at a path: an object by that name, with a symbolic link told from a file by the object's
  metadata or, on S3, by the sidecar object; otherwise a directory, when names continue below it.
\<close>

definition meta_node :: "((string \<times> string) list \<Rightarrow> FileInfo \<Rightarrow> FileInfo) \<Rightarrow> (string \<rightharpoonup> obj) \<Rightarrow> string \<Rightarrow> string \<Rightarrow> FileInfo option" where
  "meta_node link v pre p =
     (case v (s3_key pre p) of
        Some ob \<Rightarrow> Some (link (ob_meta ob) (file_node p (info_of ob)))
      | None \<Rightarrow> if has_below v (s3_key pre p) then Some (dir_node p) else None)"

definition sidecar_node :: "(string \<rightharpoonup> obj) \<Rightarrow> string \<Rightarrow> string \<Rightarrow> FileInfo option" where
  "sidecar_node v pre p =
     (case v (s3_key pre p) of
        Some ob \<Rightarrow> Some (file_node p (info_of ob))
      | None \<Rightarrow>
          (case v (s3_key pre p @ symlinkSuffix) of
             Some ob \<Rightarrow> Some ((file_node p (info_of ob))\<lparr>fi_Symlink := True\<rparr>)
           | None \<Rightarrow> if has_below v (s3_key pre p) then Some (dir_node p) else None))"

datatype object_backend = BackendS3 | BackendGCS | BackendAzure

fun not_found :: "object_backend \<Rightarrow> api_error \<Rightarrow> bool" where
  "not_found BackendS3 = isS3NotFound"
| "not_found BackendGCS = gcs_notfound"
| "not_found BackendAzure = isAzNotFound"

fun node_at :: "object_backend \<Rightarrow> (string \<rightharpoonup> obj) \<Rightarrow> string \<Rightarrow> string \<Rightarrow> FileInfo option" where
  "node_at BackendS3 = sidecar_node"
| "node_at BackendGCS = meta_node applyGCSSymlinkMeta"
| "node_at BackendAzure = meta_node applyAzSymlinkMeta"

fun store_Stat :: "object_backend \<Rightarrow> 'b bucket_api \<Rightarrow> string \<Rightarrow> string \<Rightarrow> ('b, remote_error + FileInfo) state" where
  "store_Stat BackendS3 = s3_Stat"
| "store_Stat BackendGCS = gcs_Stat"
| "store_Stat BackendAzure = az_Stat"

fun store_ListDir :: "object_backend \<Rightarrow> 'b bucket_api \<Rightarrow> string \<Rightarrow> string \<Rightarrow> ('b, FileInfo list \<times> remote_error option) state" where
  "store_ListDir BackendS3 = s3_ListDir"
| "store_ListDir BackendGCS = gcs_ListDir"
| "store_ListDir BackendAzure = az_ListDir"

text \<open>No path is at once a file and a directory, nor on S3 a file and a link; S3's sidecars belong to
  cleaned paths.\<close>

definition no_clash :: "object_backend \<Rightarrow> (string \<rightharpoonup> obj) \<Rightarrow> string \<Rightarrow> bool" where
  "no_clash bk v pre \<longleftrightarrow> (\<forall>p. canon p \<longrightarrow>
     (v (s3_key pre p) \<noteq> None \<longrightarrow> \<not> has_below v (s3_key pre p)) \<and>
     (bk = BackendS3 \<longrightarrow>
       (v (s3_key pre p @ symlinkSuffix) \<noteq> None \<longrightarrow> v (s3_key pre p) = None \<and> \<not> has_below v (s3_key pre p)) \<and>
       (HasSuffix p symlinkSuffix \<and> v (s3_key pre p) \<noteq> None \<longrightarrow> canon (TrimSuffix p symlinkSuffix))))"

lemma canon_child: "\<forall>s \<in> set ds. real_seg s \<Longrightarrow> real_seg s \<Longrightarrow> canon (abs_path (ds @ [s]))"
  unfolding canon_iff by (intro exI [of _ "ds @ [s]"]) simp

text \<open>The children of a directory, as paths and as last elements.\<close>

lemma children:
  assumes "\<forall>s \<in> set ds. real_seg s"
  shows "(\<exists>q. canon q \<and> path_Dir q = abs_path ds \<and> P q) \<longleftrightarrow> (\<exists>s. real_seg s \<and> P (abs_path (ds @ [s])))"
proof
  assume "\<exists>q. canon q \<and> path_Dir q = abs_path ds \<and> P q"
  then obtain t where t: "t \<noteq> []" "\<forall>s \<in> set t. real_seg s" "path_Dir (abs_path t) = abs_path ds" "P (abs_path t)"
    by (auto simp: canon_iff)
  then have "abs_path (butlast t) = abs_path ds" using path_Dir_abs_path by simp
  then have "butlast t = ds" using abs_path_inj t(2) assms by (metis in_set_butlastD)
  then have "t = ds @ [last t]" using t(1) by (metis append_butlast_last_id)
  moreover have "real_seg (last t)" using t(1,2) by simp
  ultimately show "\<exists>s. real_seg s \<and> P (abs_path (ds @ [s]))" using t(4) by metis
next
  assume "\<exists>s. real_seg s \<and> P (abs_path (ds @ [s]))"
  then obtain s where s: "real_seg s" "P (abs_path (ds @ [s]))" by blast
  have "path_Dir (abs_path (ds @ [s])) = abs_path ds"
    using path_Dir_abs_path [of "ds @ [s]"] assms s(1) by auto
  then show "\<exists>q. canon q \<and> path_Dir q = abs_path ds \<and> P q" using s canon_child [OF assms s(1)] by blast
qed

lemma suffix_name: "HasSuffix (x @ slash # s) symlinkSuffix \<longleftrightarrow> HasSuffix s symlinkSuffix"
proof
  assume "HasSuffix (x @ slash # s) symlinkSuffix"
  then obtain y where y: "x @ slash # s = y @ symlinkSuffix" by (auto simp: HasSuffix_def suffix_def)
  have "slash \<notin> set symlinkSuffix" by (simp add: symlinkSuffix_def)
  then obtain z where "s = z @ symlinkSuffix"
    using y unfolding append_eq_append_conv2 by (metis Cons_eq_append_conv in_set_conv_decomp)
  then show "HasSuffix s symlinkSuffix" by simp
qed (auto simp: HasSuffix_def suffix_def)

lemma dir_key_end: "dir_key pre ds = [] \<or> (\<exists>x. dir_key pre ds = x @ ''/'')"
  by (cases "ds = []") (auto simp: dir_key_def root_key_def Join_append)

lemma suffix_child: "HasSuffix (dir_key pre ds @ s) symlinkSuffix \<longleftrightarrow> HasSuffix s symlinkSuffix"
  "HasSuffix (abs_path (ds @ [s])) symlinkSuffix \<longleftrightarrow> HasSuffix s symlinkSuffix"
proof -
  show "HasSuffix (dir_key pre ds @ s) symlinkSuffix \<longleftrightarrow> HasSuffix s symlinkSuffix"
    using dir_key_end [of pre ds] suffix_name by auto
  show "HasSuffix (abs_path (ds @ [s])) symlinkSuffix \<longleftrightarrow> HasSuffix s symlinkSuffix"
    using suffix_name [of "[]" s] suffix_name [of "abs_path ds" s]
    by (cases "ds = []") (simp_all add: abs_path_def Join_append)
qed

text \<open>A file whose name ends in \<^verbatim>\<open>.symlink\<close> is not listed: Google's store hides it as a sidecar of
  an earlier format, S3 takes it for a sidecar.\<close>

definition shown :: "object_backend \<Rightarrow> string \<Rightarrow> FileInfo \<Rightarrow> bool" where
  "shown bk q fi \<longleftrightarrow>
     (HasSuffix q symlinkSuffix \<longrightarrow> fi_IsDir fi \<or> bk = BackendAzure \<or> bk = BackendS3 \<and> fi_Symlink fi)"

lemma link_meta_path [simp]: "fi_IsDir fi = False \<Longrightarrow> fi_IsDir (applyGCSSymlinkMeta m fi) = False"
  "fi_IsDir fi = False \<Longrightarrow> fi_IsDir (applyAzSymlinkMeta m fi) = False"
  by (auto simp: applyGCSSymlinkMeta_def applyAzSymlinkMeta_def Let_def split: option.splits)

lemma node_flags [simp]: "fi_IsDir (dir_node p)" "\<not> fi_IsDir (file_node p i)"
  by (simp_all add: dir_node_def file_node_def zero_info_def)

lemma meta_children:
  assumes "\<forall>s \<in> set ds. real_seg s" "no_clash bk v pre" "real_seg s"
  shows "meta_node link v pre (abs_path (ds @ [s])) = Some fi \<longleftrightarrow>
    has_below v (dir_key pre ds @ s) \<and> fi = dir_node (abs_path (ds @ [s])) \<or>
    (\<exists>ob. v (dir_key pre ds @ s) = Some ob \<and> fi = link (ob_meta ob) (file_node (abs_path (ds @ [s])) (info_of ob)))"
proof -
  have k: "s3_key pre (abs_path (ds @ [s])) = dir_key pre ds @ s" using child_key [OF assms(1,3)] .
  have "v (dir_key pre ds @ s) \<noteq> None \<Longrightarrow> \<not> has_below v (dir_key pre ds @ s)"
    using assms(2) canon_child [OF assms(1,3)] k unfolding no_clash_def by metis
  then show ?thesis by (auto simp: meta_node_def k split: option.splits)
qed

lemma all_or_error_None: "snd (all_or_error r) = None \<Longrightarrow> r = (prod.fst (all_or_error r), None)"
  by (auto simp: all_or_error_def split: prod.splits option.splits)

lemma with_error_None: "snd (with_error r) = None \<Longrightarrow> r = (prod.fst (with_error r), None)"
  by (auto simp: with_error_def split: prod.splits)

lemma real_not_slash: "real_seg s \<Longrightarrow> \<not> HasSuffix (dir_key pre ds @ s) ''/''"
  by (rule not_slash_end)

lemma marker_skipped:
  assumes "dir_key pre ds \<noteq> []"
  shows "HasSuffix (dir_key pre ds) ''/''"
  using assms dir_key_end [of pre ds] by auto

lemma meta_entry:
  assumes "real_seg s"
  shows "gcs_entry pre (dir_key pre ds @ s, info_of ob) = (if HasSuffix s symlinkSuffix then []
      else [applyGCSSymlinkMeta (ob_meta ob) (file_node (abs_path (ds @ [s])) (info_of ob))])"
    "az_entry pre (dir_key pre ds @ s, info_of ob) =
      [applyAzSymlinkMeta (ob_meta ob) (file_node (abs_path (ds @ [s])) (info_of ob))]"
  using real_not_slash [OF assms] storePath_child(1) [OF assms]
  by (simp_all add: gcs_entry_def az_entry_def suffix_child file_node_def info_of_def)

lemma sidecar_entry:
  assumes "real_seg s" "HasSuffix s symlinkSuffix \<Longrightarrow> real_seg (TrimSuffix s symlinkSuffix)"
  shows "s3_entry pre (dir_key pre ds @ s, i) = (if HasSuffix s symlinkSuffix
      then [(file_node (abs_path (ds @ [TrimSuffix s symlinkSuffix])) i)\<lparr>fi_Symlink := True\<rparr>]
      else [file_node (abs_path (ds @ [s])) i])"
proof (cases "HasSuffix s symlinkSuffix")
  case True
  then obtain t where t: "s = t @ symlinkSuffix" by (auto simp: HasSuffix_def suffix_def)
  then have "TrimSuffix (dir_key pre ds @ s) symlinkSuffix = dir_key pre ds @ t" "TrimSuffix s symlinkSuffix = t"
    using TrimSuffix_append [of "dir_key pre ds @ t" symlinkSuffix] by simp_all
  then show ?thesis
    using True real_not_slash [OF assms(1)] storePath_child(1) assms(2) by (simp add: s3_entry_def suffix_child file_node_def)
next
  case False
  then show ?thesis
    using real_not_slash [OF assms(1)] storePath_child(1) [OF assms(1)] by (simp add: s3_entry_def suffix_child file_node_def)
qed

lemma real_sidecar: "real_seg s \<Longrightarrow> real_seg (s @ symlinkSuffix)"
  by (auto simp: real_seg_def symlinkSuffix_def append_eq_Cons_conv)

lemma sidecar_base:
  assumes "no_clash BackendS3 v pre" "\<forall>s \<in> set ds. real_seg s" "real_seg s" "v (dir_key pre ds @ s) \<noteq> None" "s = t @ symlinkSuffix"
  shows "real_seg t"
proof -
  have a: "abs_path (ds @ [s]) = abs_path (ds @ [t]) @ symlinkSuffix"
    by (cases "ds = []") (simp_all add: abs_path_def Join_append assms(5))
  have "canon (abs_path (ds @ [t]))"
    using assms(1,4) canon_child [OF assms(2,3)] child_key [OF assms(2,3), of pre]
    unfolding no_clash_def by (metis HasSuffix_append TrimSuffix_append a)
  then obtain segs where g: "segs \<noteq> []" "\<forall>s \<in> set segs. real_seg s" "Join slash (ds @ [t]) = Join slash segs"
    by (auto simp: canon_iff abs_path_def)
  have "\<forall>x \<in> set (ds @ [t]). slash \<notin> set x" using assms(2,3,5) by (auto simp: real_seg_def)
  then have "ds @ [t] = segs" using g Split_Join_real [OF g(2,1)] Split_Join [of "ds @ [t]" slash] by auto
  then show ?thesis using g(2) by auto
qed

lemma sidecar_clash:
  assumes "no_clash BackendS3 v pre" "\<forall>s \<in> set ds. real_seg s" "real_seg s"
  shows "v (dir_key pre ds @ s) \<noteq> None \<Longrightarrow> \<not> has_below v (dir_key pre ds @ s)"
    "v (dir_key pre ds @ s @ symlinkSuffix) \<noteq> None \<Longrightarrow> v (dir_key pre ds @ s) = None \<and> \<not> has_below v (dir_key pre ds @ s)"
  using spec [OF assms(1) [unfolded no_clash_def], of "abs_path (ds @ [s])"] canon_child [OF assms(2,3)] child_key [OF assms(2,3)]
  by auto

lemma sidecar_object:
  assumes "no_clash BackendS3 v pre" "\<forall>s \<in> set ds. real_seg s" "real_seg s" "v (dir_key pre ds @ s) \<noteq> None"
  shows "s3_entry pre (dir_key pre ds @ s, i) = (if HasSuffix s symlinkSuffix
      then [(file_node (abs_path (ds @ [TrimSuffix s symlinkSuffix])) i)\<lparr>fi_Symlink := True\<rparr>]
      else [file_node (abs_path (ds @ [s])) i])"
  using sidecar_entry [OF assms(3)] sidecar_base [OF assms] by (metis HasSuffixE TrimSuffix_append)

lemma sidecar_listed:
  assumes ds: "\<forall>s \<in> set ds. real_seg s" and nc: "no_clash BackendS3 v pre" and s: "real_seg s"
    and ob: "v (dir_key pre ds @ s) = Some ob" "fi \<in> set (s3_entry pre (dir_key pre ds @ s, info_of ob))"
  shows "\<exists>s. real_seg s \<and> sidecar_node v pre (abs_path (ds @ [s])) = Some fi \<and> shown BackendS3 (abs_path (ds @ [s])) fi"
proof (cases "HasSuffix s symlinkSuffix")
  case True
  then obtain t where t: "s = t @ symlinkSuffix" by (auto simp: HasSuffix_def suffix_def)
  have r: "real_seg t" using sidecar_base [OF nc ds s _ t] ob(1) by simp
  have "fi = (file_node (abs_path (ds @ [t])) (info_of ob))\<lparr>fi_Symlink := True\<rparr>"
    using ob sidecar_object [OF nc ds s] True t by simp
  then show ?thesis using r ob(1) sidecar_clash(2) [OF nc ds r] child_key [OF ds r] t
    by (intro exI [of _ t]) (auto simp: sidecar_node_def shown_def)
next
  case False
  then show ?thesis using s ob sidecar_object [OF nc ds s] child_key [OF ds s]
    by (intro exI [of _ s]) (simp add: sidecar_node_def shown_def suffix_child)
qed

lemma sidecar_children:
  assumes ds: "\<forall>s \<in> set ds. real_seg s" and nc: "no_clash BackendS3 v pre"
  shows "(\<exists>s. real_seg s \<and> (has_below v (dir_key pre ds @ s) \<and> fi = dir_node (abs_path (ds @ [s])) \<or>
      (\<exists>ob. v (dir_key pre ds @ s) = Some ob \<and> fi \<in> set (s3_entry pre (dir_key pre ds @ s, info_of ob))))) \<longleftrightarrow>
    (\<exists>s. real_seg s \<and> sidecar_node v pre (abs_path (ds @ [s])) = Some fi \<and> shown BackendS3 (abs_path (ds @ [s])) fi)"
    (is "?L \<longleftrightarrow> ?R")
proof
  assume ?L
  then consider s ob where "real_seg s" "v (dir_key pre ds @ s) = Some ob" "fi \<in> set (s3_entry pre (dir_key pre ds @ s, info_of ob))"
    | s where "real_seg s" "has_below v (dir_key pre ds @ s)" "fi = dir_node (abs_path (ds @ [s]))" by blast
  then show ?R
  proof cases
    case 1
    then show ?R by (rule sidecar_listed [OF ds nc])
  next
    case (2 s)
    then have "v (dir_key pre ds @ s) = None" "v (dir_key pre ds @ s @ symlinkSuffix) = None"
      using sidecar_clash [OF nc ds] by blast+
    then show ?R using 2 child_key [OF ds] by (intro exI [of _ s]) (simp add: sidecar_node_def shown_def)
  qed
next
  assume ?R
  then obtain s where s: "real_seg s" "sidecar_node v pre (abs_path (ds @ [s])) = Some fi" "shown BackendS3 (abs_path (ds @ [s])) fi" by blast
  consider ob where "v (dir_key pre ds @ s) = Some ob" "fi = file_node (abs_path (ds @ [s])) (info_of ob)"
    | ob where "v (dir_key pre ds @ s @ symlinkSuffix) = Some ob" "fi = (file_node (abs_path (ds @ [s])) (info_of ob))\<lparr>fi_Symlink := True\<rparr>"
    | "has_below v (dir_key pre ds @ s)" "fi = dir_node (abs_path (ds @ [s]))"
    using s(2) child_key [OF ds s(1)] by (auto simp: sidecar_node_def split: option.splits if_splits)
  then show ?L
  proof cases
    case (1 ob)
    then have "\<not> HasSuffix s symlinkSuffix" using s(3) by (simp add: shown_def suffix_child file_node_def zero_info_def)
    then show ?L using s(1) 1 sidecar_object [OF nc ds s(1)] by (intro exI [of _ s]) simp
  next
    case (2 ob)
    then show ?L using sidecar_object [OF nc ds real_sidecar [OF s(1)]] real_sidecar [OF s(1)]
      by (intro exI [of _ "s @ symlinkSuffix"]) simp
  next
    case 3
    then show ?L using s(1) by blast
  qed
qed

lemma meta_listing:
  assumes "\<forall>s \<in> set ds. real_seg s" "no_clash bk v pre"
    and "\<And>s ob. real_seg s \<Longrightarrow> E (dir_key pre ds @ s, info_of ob) =
      (if bk = BackendGCS \<and> HasSuffix s symlinkSuffix then [] else [link (ob_meta ob) (file_node (abs_path (ds @ [s])) (info_of ob))])"
    and "bk = BackendGCS \<or> bk = BackendAzure" "\<And>m f. fi_IsDir f = False \<Longrightarrow> fi_IsDir (link m f) = False"
  shows "(\<exists>s. real_seg s \<and> (has_below v (dir_key pre ds @ s) \<and> fi = dir_node (abs_path (ds @ [s])) \<or>
      (\<exists>ob. v (dir_key pre ds @ s) = Some ob \<and> fi \<in> set (E (dir_key pre ds @ s, info_of ob))))) \<longleftrightarrow>
    (\<exists>s. real_seg s \<and> meta_node link v pre (abs_path (ds @ [s])) = Some fi \<and> shown bk (abs_path (ds @ [s])) fi)"
proof (rule ex_cong1, rule conj_cong [OF refl])
  fix s assume s: "real_seg s"
  show "has_below v (dir_key pre ds @ s) \<and> fi = dir_node (abs_path (ds @ [s])) \<or>
      (\<exists>ob. v (dir_key pre ds @ s) = Some ob \<and> fi \<in> set (E (dir_key pre ds @ s, info_of ob))) \<longleftrightarrow>
    meta_node link v pre (abs_path (ds @ [s])) = Some fi \<and> shown bk (abs_path (ds @ [s])) fi"
    unfolding meta_children [OF assms(1,2) s]
    using assms(4,5) by (auto simp: assms(3) [OF s] shown_def suffix_child split: if_splits)
qed

lemma store_ListDir_tree:
  assumes "bucket_laws (not_found bk) api view" "tidy (view b) pre" "no_clash bk (view b) pre" "\<forall>s \<in> set ds. real_seg s"
  shows "wp (store_ListDir bk api pre (abs_path ds)) (\<lambda>r b'. snd r = None \<longrightarrow>
     (\<forall>fi. fi \<in> set (prod.fst r) \<longleftrightarrow>
       (\<exists>s. real_seg s \<and> node_at bk (view b) pre (abs_path (ds @ [s])) = Some fi \<and> shown bk (abs_path (ds @ [s])) fi))) b"
proof -
  have key: "(let dirKey = s3_key pre (abs_path ds); dirKey = (if dirKey \<noteq> [] \<and> \<not> HasSuffix dirKey ''/'' then dirKey @ ''/'' else dirKey)
    in f dirKey) = f (dir_key pre ds)" for f :: "string \<Rightarrow> 'z"
    using dirKey_code [OF assms(4), of pre] by (simp add: Let_def)
  note skip = marker_skipped [of pre ds]
  show ?thesis
  proof (cases bk)
    case BackendS3
    have nc: "no_clash BackendS3 (view b) pre" using assms(3) BackendS3 by simp
    show ?thesis
      unfolding BackendS3 store_ListDir.simps s3_ListDir_def key node_at.simps
      apply (rule wp_bind, rule wp_mono [OF dir_listing [OF assms(1,2,4), where E = "s3_entry pre"]])
       apply (simp add: s3_entry_def skip)
      apply (intro wp_ret impI allI)
      by (simp only: all_or_error_None sidecar_children [OF assms(4) nc, symmetric])
  next
    case BackendGCS
    show ?thesis
      unfolding BackendGCS store_ListDir.simps gcs_ListDir_def same_keys key node_at.simps
      apply (rule wp_bind, rule wp_mono [OF dir_listing [OF assms(1,2,4), where E = "gcs_entry pre"]])
       apply (simp add: gcs_entry_def skip)
      apply (intro wp_ret impI allI)
      apply (subst meta_listing [OF assms(4,3), where E = "gcs_entry pre", unfolded BackendGCS, symmetric])
      by (simp_all add: meta_entry with_error_None)
  next
    case BackendAzure
    show ?thesis
      unfolding BackendAzure store_ListDir.simps az_ListDir_def same_keys key node_at.simps
      apply (rule wp_bind, rule wp_mono [OF dir_listing [OF assms(1,2,4), where E = "az_entry pre"]])
       apply (simp add: az_entry_def skip)
      apply (intro wp_ret impI allI)
      apply (subst meta_listing [OF assms(4,3), where E = "az_entry pre", unfolded BackendAzure, symmetric])
      by (simp_all add: meta_entry all_or_error_None)
  qed
qed

text \<open>The answer of \<^verbatim>\<open>Stat\<close> is what is there; a failure of the service is neither.\<close>

definition stat_agrees :: "remote_error + FileInfo \<Rightarrow> FileInfo option \<Rightarrow> bool" where
  "stat_agrees r node = (case r of Inr fi \<Rightarrow> node = Some fi | Inl err \<Rightarrow> err = ErrNotExist \<longrightarrow> node = None)"

lemma canon_not_slash: "canon p \<Longrightarrow> \<not> HasSuffix (s3_key pre p) ''/''"
proof -
  assume "canon p"
  then obtain segs where s: "segs \<noteq> []" "\<forall>s \<in> set segs. real_seg s" "p = abs_path segs" by (auto simp: canon_iff)
  then obtain ds x where "segs = ds @ [x]" by (metis rev_exhaust)
  then show ?thesis using s child_key [of ds x pre] real_not_slash [of x pre ds] by simp
qed

lemma laws_below:
  assumes "bucket_laws nf api view"
  shows "wp (api_First api (k @ ''/'')) (\<lambda>r b'. view b' = view b \<and>
     (case r of Inl e \<Rightarrow> True | Inr pg \<Rightarrow> pg_Contents pg = [] \<and> pg_Prefixes pg = [] \<longleftrightarrow> \<not> has_below (view b) k)) b"
  by (rule wp_mono [OF laws_first [OF assms]]) (auto simp: has_below_def prefix_def split: sum.splits)

lemma first_agrees:
  assumes "bucket_laws nf api view" "view b = v" "v k = None"
  shows "wp (State_Monad.bind (api_First api (k @ ''/'')) (\<lambda>page. case page of
        Inl err \<Rightarrow> ret (Inl (StoreErr err))
      | Inr pg \<Rightarrow> if pg_Contents pg = [] \<and> pg_Prefixes pg = [] then ret (Inl ErrNotExist)
          else ret (Inr (zero_info\<lparr>fi_Path := p, fi_IsDir := True\<rparr>))))
    (\<lambda>r b'. view b' = v \<and> stat_agrees r (if has_below v k then Some (dir_node p) else None)) b"
  by (rule wp_bind, rule wp_mono [OF laws_below [OF assms(1)]])
     (use assms(2) in \<open>auto intro!: wp_ret simp: stat_agrees_def dir_node_def split: sum.splits\<close>)

lemma meta_Stat:
  assumes "bucket_laws nf api view" "canon p"
  shows "wp (State_Monad.bind (api_Head api (s3_key pre p)) (\<lambda>ob. case ob of
        Inr i \<Rightarrow> ret (Inr (link (oi_meta i) (zero_info\<lparr>fi_Path := p, fi_Size := oi_size i, fi_Mtime := oi_mtime i\<rparr>)))
      | Inl err \<Rightarrow> if \<not> nf err then ret (Inl (StoreErr err))
          else State_Monad.bind (api_First api (s3_key pre p @ ''/'')) (\<lambda>page. case page of
             Inl err \<Rightarrow> ret (Inl (StoreErr err))
           | Inr pg \<Rightarrow> if pg_Contents pg = [] \<and> pg_Prefixes pg = [] then ret (Inl ErrNotExist)
               else ret (Inr (zero_info\<lparr>fi_Path := p, fi_IsDir := True\<rparr>)))))
    (\<lambda>r b'. view b' = view b \<and> stat_agrees r (meta_node link (view b) pre p)) b"
  apply (rule wp_bind, rule wp_mono [OF laws_head [OF assms(1)]])
  subgoal for r b1
    apply (cases r)
    subgoal for e
      apply (simp only: sum.case)
      apply (rule wp_if)
      subgoal by (intro wp_ret) (simp add: stat_agrees_def)
      subgoal using first_agrees [OF assms(1), of b1 "view b" "s3_key pre p" p] by (simp add: meta_node_def)
      done
    subgoal for i by (auto intro!: wp_ret simp: stat_agrees_def meta_node_def file_node_def info_of_def)
    done
  done

lemma sidecar_Stat:
  assumes "bucket_laws isS3NotFound api view" "canon p"
  shows "wp (s3_Stat api pre p) (\<lambda>r b'. view b' = view b \<and> stat_agrees r (sidecar_node (view b) pre p)) b"
proof -
  have c: "path_Clean (''/'' @ TrimPrefix p ''/'') = p" using assms(2) by (simp add: canon_def)
  note ns = canon_not_slash [OF assms(2), of pre]
  show ?thesis
    unfolding s3_Stat_def c Let_def
    apply (rule wp_bind, rule wp_mono [OF laws_head [OF assms(1)]])
    subgoal for r b1
      apply (cases r)
      subgoal for e
        apply (simp only: sum.case)
        apply (rule wp_if)
        subgoal by (intro wp_ret) (auto simp: stat_agrees_def)
        apply (rule wp_bind, rule wp_mono [OF laws_head [OF assms(1)]])
        subgoal for r2 b2
          apply (cases r2)
          subgoal for e2
            apply (simp only: sum.case)
            apply (rule wp_if)
            subgoal by (intro wp_ret) (auto simp: stat_agrees_def)
            subgoal using first_agrees [OF assms(1), of b2 "view b" "s3_key pre p" p] ns by (simp add: sidecar_node_def)
            done
          subgoal for i by (auto intro!: wp_ret simp: stat_agrees_def sidecar_node_def file_node_def info_of_def)
          done
        done
      subgoal for i by (auto intro!: wp_ret simp: stat_agrees_def sidecar_node_def file_node_def info_of_def)
      done
    done
qed

lemma store_Stat_tree:
  assumes "bucket_laws (not_found bk) api view" "canon p"
  shows "wp (store_Stat bk api pre p) (\<lambda>r b'. view b' = view b \<and> stat_agrees r (node_at bk (view b) pre p)) b"
proof -
  have c: "path_Clean (''/'' @ TrimPrefix p ''/'') = p" using assms(2) by (simp add: canon_def)
  have e: "(if \<not> HasSuffix (s3_key pre p) ''/'' then s3_key pre p @ ''/'' else s3_key pre p) = s3_key pre p @ ''/''"
    using canon_not_slash [OF assms(2), of pre] by simp
  have flip: "(if X \<noteq> [] \<or> Y \<noteq> [] then m else n) = (if X = [] \<and> Y = [] then n else m)" for X Y m n by auto
  show ?thesis
  proof (cases bk)
    case BackendS3
    then show ?thesis using sidecar_Stat assms by simp
  next
    case BackendGCS
    show ?thesis
      unfolding BackendGCS store_Stat.simps node_at.simps gcs_Stat_def same_keys c Let_def e
      by (rule meta_Stat [OF assms [unfolded BackendGCS not_found.simps]])
  next
    case BackendAzure
    show ?thesis
      unfolding BackendAzure store_Stat.simps node_at.simps az_Stat_def same_keys c Let_def e flip
      by (rule meta_Stat [OF assms [unfolded BackendAzure not_found.simps]])
  qed
qed

lemma node_path: "node_at bk v pre q = Some fi \<Longrightarrow> fi_Path fi = q"
  by (cases bk)
     (auto simp: sidecar_node_def meta_node_def file_node_def dir_node_def applyGCSSymlinkMeta_def applyAzSymlinkMeta_def Let_def
       split: option.splits if_splits)

lemma dir_segs: "d = ''/'' \<or> canon d \<Longrightarrow> \<exists>ds. (\<forall>s \<in> set ds. real_seg s) \<and> d = abs_path ds"
  by (auto simp: canon_iff abs_path_def intro: exI [of _ "[]"])

lemma ListDir_children:
  assumes "bucket_laws (not_found bk) api view" "tidy (view b) pre" "no_clash bk (view b) pre" "d = ''/'' \<or> canon d"
    and "run_state (store_ListDir bk api pre d) b = ((fis, None), b1)"
  shows "fi \<in> set fis \<longleftrightarrow> (\<exists>q. canon q \<and> path_Dir q = d \<and> node_at bk (view b) pre q = Some fi \<and> shown bk q fi)"
proof -
  obtain ds where ds: "\<forall>s \<in> set ds. real_seg s" "d = abs_path ds" using dir_segs [OF assms(4)] by blast
  have "fi \<in> set fis \<longleftrightarrow> (\<exists>s. real_seg s \<and> node_at bk (view b) pre (abs_path (ds @ [s])) = Some fi \<and> shown bk (abs_path (ds @ [s])) fi)"
    using store_ListDir_tree [OF assms(1-3) ds(1)] assms(5) unfolding ds(2) [symmetric] wp_def by simp
  then show ?thesis using children [OF ds(1), of "\<lambda>q. node_at bk (view b) pre q = Some fi \<and> shown bk q fi"] ds(2) by simp
qed

section \<open>Store operations by backend\<close>

fun backend_call :: "object_backend \<Rightarrow> 'b bucket_api \<Rightarrow> string \<Rightarrow> store_call \<Rightarrow> ('b, unit) state" where
  "backend_call BackendS3 = s3_call"
| "backend_call BackendGCS = gcs_call"
| "backend_call BackendAzure = az_call"

fun store_of :: "object_backend \<Rightarrow> 'b bucket_api \<Rightarrow> string \<Rightarrow> (string, 'b) store_ops" where
  "store_of BackendS3 = s3_store"
| "store_of BackendGCS = gcs_store"
| "store_of BackendAzure = az_store"

fun path_ok :: "object_backend \<Rightarrow> string \<Rightarrow> bool" where
  "path_ok BackendS3 = s3_ok"
| "path_ok BackendGCS = canon"
| "path_ok BackendAzure = canon"

lemma store_of_laws:
  "bucket_laws (not_found bk) api view \<Longrightarrow> object_store (store_of bk api pre) (file_look (path_ok bk) view pre) (path_ok bk)"
  by (cases bk) (simp_all add: s3_object_store gcs_object_store az_object_store)

lemma memory_bucket: "bucket_laws (not_found bk) mem_api map_of"
  by (rule mem_laws) (cases bk; simp add: no_object_def isS3NotFound_def gcs_notfound_def isAzNotFound_def)

interpretation stores: object_store "store_of bk mem_api pre" "file_look (path_ok bk) map_of pre" "path_ok bk" for bk pre
  by (rule store_of_laws [OF memory_bucket])

section \<open>Properties\<close>

text \<open>
  C25: a store with a key prefix never touches an object outside it: after any sequence of calls of
  the interface on S3, Google Cloud Storage or Azure, with any paths (relative, with \<^verbatim>\<open>..\<close>, absolute) and
  whatever calls of the service fail, every object whose name does not start with the prefix and
  a slash is as it was.
\<close>

theorem bucket_confined:
  assumes "bucket_laws (not_found bk) api view" "\<not> prefix (root_key pre) k"
  shows "view (snd (run_state (calls (backend_call bk api pre) cs) b)) k = view b k"
proof -
  have "keeps view k (backend_call bk api pre c)" for c
    using calls_confined [OF assms] by (cases bk) simp_all
  then show ?thesis using kept_calls [of view k "backend_call bk api pre" cs] wp_D unfolding keeps_def by fastforce
qed

theorem bucket_confined_witness:
  "map_of (snd (run_state (calls (backend_call BackendS3 mem_api ''team/a'')
      [CallPut ''/x'' ''mine'', CallDelete ''/../b/x'', CallMove ''x'' ''/../../team/b/x'', CallSymlink ''../b/x'' ''/etc''])
    [(''team/b/x'', \<lparr>ob_body = ''theirs'', ob_meta = [], ob_mtime = 0\<rparr>)])) ''team/b/x''
   = Some \<lparr>ob_body = ''theirs'', ob_meta = [], ob_mtime = 0\<rparr>"
  by (subst bucket_confined [OF memory_bucket]) (simp_all add: root_key_def)


definition sample_bucket_mount :: "(string, (string \<times> obj) list) Oplog" where
  "sample_bucket_mount = (NewOplog [] (\<lambda>_. BMissing))\<lparr>keepBuffer := True\<rparr>"



definition sample_bucket :: "(string \<times> obj) list" where
  "sample_bucket = [(''w/d/a'', \<lparr>ob_body = ''hello'', ob_meta = [], ob_mtime = 3\<rparr>),
     (''w/d/l.symlink'', \<lparr>ob_body = ''a'', ob_meta = [], ob_mtime = 4\<rparr>)]"

lemma sample_objects: "map_of sample_bucket k \<noteq> None \<longleftrightarrow> k = ''w/d/a'' \<or> k = ''w/d/l.symlink''"
  by (simp add: sample_bucket_def)

lemma sample_tidy: "tidy (map_of sample_bucket) ''w''"
  unfolding tidy_def sample_objects
proof (intro conjI allI impI)
  show "map_of sample_bucket [] = None" by (simp add: sample_bucket_def)
  fix k assume "(k = ''w/d/a'' \<or> k = ''w/d/l.symlink'') \<and> prefix (root_key ''w'') k"
  then obtain x where "k = root_key ''w'' @ Join slash [''d'', x]" "x = ''a'' \<or> x = ''l.symlink''"
    by (auto simp: root_key_def)
  moreover have "real_seg ''d''" "real_seg ''a''" "real_seg ''l.symlink''" by (simp_all add: real_seg_def)
  ultimately show "\<exists>segs. (\<forall>s \<in> set segs. real_seg s) \<and> (k = dir_key ''w'' segs \<or> segs \<noteq> [] \<and> k = root_key ''w'' @ Join slash segs)"
    by (intro exI [of _ "[''d'', x]"]) auto
qed

lemma sample_no_clash: "no_clash BackendS3 (map_of sample_bucket) ''w''"
  unfolding no_clash_def sample_objects has_below_def
proof (intro allI impI)
  fix p assume p: "canon p"
  have c: "canon ''/d/l''" by code_simp
  have "p = ''/d/l.symlink'' \<longleftrightarrow> s3_key ''w'' p = ''w/d/l.symlink''" "\<not> HasSuffix ''/d/a'' symlinkSuffix"
    "p = ''/d/a'' \<longleftrightarrow> s3_key ''w'' p = ''w/d/a''" "TrimSuffix ''/d/l.symlink'' symlinkSuffix = ''/d/l''"
    using canon_key [OF p, of "''w''"] TrimSuffix_append [of "''/d/l''" symlinkSuffix]
    by (auto simp: root_key_def symlinkSuffix_def HasSuffix_def suffix_def)
  then show "((s3_key ''w'' p = ''w/d/a'' \<or> s3_key ''w'' p = ''w/d/l.symlink'') \<longrightarrow>
       \<not> (\<exists>rest. s3_key ''w'' p @ ''/'' @ rest = ''w/d/a'' \<or> s3_key ''w'' p @ ''/'' @ rest = ''w/d/l.symlink'')) \<and>
     (BackendS3 = BackendS3 \<longrightarrow>
       ((s3_key ''w'' p @ symlinkSuffix = ''w/d/a'' \<or> s3_key ''w'' p @ symlinkSuffix = ''w/d/l.symlink'') \<longrightarrow>
          map_of sample_bucket (s3_key ''w'' p) = None \<and>
          \<not> (\<exists>rest. s3_key ''w'' p @ ''/'' @ rest = ''w/d/a'' \<or> s3_key ''w'' p @ ''/'' @ rest = ''w/d/l.symlink'')) \<and>
       (HasSuffix p symlinkSuffix \<and> (s3_key ''w'' p = ''w/d/a'' \<or> s3_key ''w'' p = ''w/d/l.symlink'') \<longrightarrow>
          canon (TrimSuffix p symlinkSuffix)))"
    using c by (auto simp: symlinkSuffix_def append_eq_Cons_conv sample_bucket_def)
qed


section \<open>Where the stores depart from the interface\<close>

text \<open>S3 does not replace a file by a link: the file stays and hides it, and \<^verbatim>\<open>Put\<close> over a link
  leaves both, which a listing then shows under one name.\<close>

lemma s3_link_and_file:
  "let b1 = snd (run_state (s3_Put mem_api [] ''/a'' ''x'') []);
       (err, b2) = run_state (s3_Symlink mem_api [] ''/a'' ''/t'') b1
   in err = None \<and> map_sum (\<lambda>e. ()) fi_Symlink (prod.fst (run_state (s3_Stat mem_api [] ''/a'') b2)) = Inr False
      \<and> map fi_Path (prod.fst (prod.fst (run_state (s3_ListDir mem_api [] ''/'') b2))) = [''/a'', ''/a'']"
  by code_simp

text \<open>S3 reports a link without its target.\<close>

lemma s3_link_target_missing:
  "map_sum (\<lambda>e. ()) (\<lambda>fi. (fi_Symlink fi, fi_LinkTarget fi)) (prod.fst (run_state (s3_Stat mem_api ''w'' ''/d/l'') sample_bucket)) = Inr (True, [])"
  by code_simp

text \<open>Moving a link on Azure leaves an empty file: the metadata that make it a link are not copied.\<close>

lemma az_move_drops_link:
  "let b1 = snd (run_state (az_Symlink mem_api [] ''/a'' ''/t'') []);
       (err, b2) = run_state (az_Move mem_api [] ''/a'' ''/b'') b1
   in err = None \<and> prod.fst (run_state (az_Readlink mem_api [] ''/a'') b1) = Inr ''/t''
      \<and> prod.fst (run_state (az_Readlink mem_api [] ''/b'') b2) = Inl ErrNotExist"
  by code_simp

text \<open>A directory cannot be moved, although \<^verbatim>\<open>Stat\<close> finds it.\<close>

lemma directory_not_moved:
  "let dir = (\<lambda>r. map_sum (\<lambda>e. ()) fi_IsDir (prod.fst r)) in
   dir (run_state (s3_Stat mem_api ''w'' ''/d'') sample_bucket) = Inr True \<and>
   prod.fst (run_state (s3_Move mem_api ''w'' ''/d'' ''/e'') sample_bucket) = Some ErrNotExist \<and>
   dir (run_state (gcs_Stat mem_api ''w'' ''/d'') sample_bucket) = Inr True \<and>
   prod.fst (run_state (gcs_Move mem_api ''w'' ''/d'' ''/e'') sample_bucket) = Some ErrNotExist \<and>
   dir (run_state (az_Stat mem_api ''w'' ''/d'') sample_bucket) = Inr True \<and>
   prod.fst (run_state (az_Move mem_api ''w'' ''/d'' ''/e'') sample_bucket) = Some ErrNotExist"
  by code_simp

text \<open>A listing of a directory that does not exist is empty and no error.\<close>

lemma missing_directory_listed:
  "prod.fst (run_state (s3_ListDir mem_api ''w'' ''/none'') sample_bucket) = ([], None) \<and>
   prod.fst (run_state (gcs_ListDir mem_api ''w'' ''/none'') sample_bucket) = ([], None) \<and>
   prod.fst (run_state (az_ListDir mem_api ''w'' ''/none'') sample_bucket) = ([], None)"
  by code_simp

text \<open>Links that the metadata carry read back, on Google's store and on Azure.\<close>

lemma link_roundtrip:
  assumes "bucket_laws (not_found bk) api view" "bk = BackendGCS \<or> bk = BackendAzure" "canon p"
    and "run_state ((if bk = BackendGCS then gcs_Symlink else az_Symlink) api pre p t) b = (None, b1)"
    and "run_state ((if bk = BackendGCS then gcs_Readlink else az_Readlink) api pre p) b1 = (Inr t', b2)"
  shows "t' = t"
proof -
  have put: "\<exists>m. view b1 (s3_key pre p) = Some \<lparr>ob_body = [], ob_meta = [(symlinkMetaKey, ''1''), (symlinkTargetMetaKey, t)], ob_mtime = m\<rparr>"
    using wp_D [OF laws_put [OF assms(1), of "s3_key pre p" "[]" "[(symlinkMetaKey, ''1''), (symlinkTargetMetaKey, t)]" b]] assms(2,4)
    by (auto simp: gcs_Symlink_def az_Symlink_def Let_def split: prod.splits if_splits)
  have "stat_agrees (prod.fst (run_state (store_Stat bk api pre p) b1)) (node_at bk (view b1) pre p)"
    using wp_D [OF store_Stat_tree [OF assms(1,3), of pre b1]] by simp
  then show ?thesis
    using put assms(2,5)
    by (auto simp: gcs_Readlink_def az_Readlink_def link_target_def stat_agrees_def meta_node_def applyGCSSymlinkMeta_def
        applyAzSymlinkMeta_def az_meta_def EqualFold_def symlinkMetaKey_def symlinkTargetMetaKey_def Let_def file_node_def zero_info_def
        split: prod.splits sum.splits if_splits)
qed

end
