(* ===== verification/Fuse.thy ===== *)
theory Fuse
  imports Acl Statcache Monads
begin

text \<open>
  The FUSE request handlers (\<^verbatim>\<open>internal/fusefs/fs_linux.go\<close>).  A handler is a state monad
  over the server; what it asks of the backend file system, the remote store and the
  journal is a \<open>call\<close>, answered by an arbitrary environment \<open>os\<close> and recorded in the trace,
  so that the theorems hold whatever those answer.  A handler acts for one node, given by
  its virtual path; timestamps and durations of audit events are left out.
\<close>

section \<open>Errors, calls and replies\<close>

datatype errno = ENOENT | EROFS | EXDEV | EACCES | EIO | Errno nat

datatype fs_error = ErrNotExist | ErrPermission | ErrErrno nat | ErrRemoteNotExist | ErrOther string

definition mapErr :: "fs_error \<Rightarrow> errno" where
  "mapErr e = (case e of ErrNotExist \<Rightarrow> ENOENT | ErrPermission \<Rightarrow> EACCES | ErrErrno n \<Rightarrow> Errno n | _ \<Rightarrow> EIO)"

type_synonym bytes = "8 word list"

datatype dtype = DT_File | DT_Dir | DT_Link

datatype call =
    OsLstat string | OsStat string | OsReadAt string int nat | OsReadDir string | OsReadlink string
  | OsMkdirAll string | OsFetch string bytes | OsTruncCreate string | OsCacheLink string string
  | OsWriteAt string int bytes | OsMkdir string | OsCreate string nat | OsRemove string
  | OsRename string string | OsSymlink string string | OsChmod string nat | OsTruncate string nat
  | RStat string | RListDir string | RGet string | RReadlink string | RDelete string | RMove string string
  | QIsDirty string | QPut string string | QDelete string | QMove string string | QSymlink string string
  | QRenameParked string string string

datatype reply =
    Done | Fail fs_error | Data bytes | Count nat | Info FileInfo | Infos "FileInfo list"
  | Names "(string \<times> dtype) list" | Target string | Flag bool

definition as_error :: "reply \<Rightarrow> fs_error option" where
  "as_error r = (case r of Fail e \<Rightarrow> Some e | _ \<Rightarrow> None)"

definition as_flag :: "reply \<Rightarrow> bool" where
  "as_flag r = (case r of Flag b \<Rightarrow> b | _ \<Rightarrow> False)"

definition as_info :: "reply \<Rightarrow> FileInfo" where
  "as_info r = (case r of Info i \<Rightarrow> i | _ \<Rightarrow> zero_info)"

definition as_infos :: "reply \<Rightarrow> FileInfo list" where
  "as_infos r = (case r of Infos is \<Rightarrow> is | _ \<Rightarrow> [])"

definition as_names :: "reply \<Rightarrow> (string \<times> dtype) list" where
  "as_names r = (case r of Names ns \<Rightarrow> ns | _ \<Rightarrow> [])"

definition as_data :: "reply \<Rightarrow> bytes" where
  "as_data r = (case r of Data d \<Rightarrow> d | _ \<Rightarrow> [])"

definition as_target :: "reply \<Rightarrow> string" where
  "as_target r = (case r of Target t \<Rightarrow> t | _ \<Rightarrow> [])"

section \<open>The server\<close>

datatype phase = Request | Response

record AuditEvent =
  ae_Phase :: phase
  ae_RequestID :: nat
  ae_Op :: string
  ae_Path :: string
  ae_Verdict :: string
  ae_Err :: "fs_error option"

record Config =
  MountPoint :: string
  Backend :: string
  hasRemote :: bool
  hasOplog :: bool
  Async :: bool

record 'w Server =
  s_cfg :: Config
  s_acls :: ACLs
  s_cache :: "statCache option"
  s_seq :: nat
  s_audit :: "AuditEvent list"
  s_live :: "(string \<times> nat) list"
  s_nodes :: "nat \<Rightarrow> string"
  s_next :: nat
  s_written :: "string list"
  s_trace :: "call list"
  s_world :: 'w

type_synonym ('w, 'a) handler = "('w Server, 'a) state"
type_synonym 'w env = "call \<Rightarrow> 'w \<Rightarrow> reply \<times> 'w"

definition sys :: "'w env \<Rightarrow> call \<Rightarrow> ('w, reply) handler" where
  "sys os c = State (\<lambda>s. case os c (s_world s) of (r, w) \<Rightarrow> (r, s\<lparr>s_world := w, s_trace := s_trace s @ [c]\<rparr>))"

definition SetACLs :: "ACLs option \<Rightarrow> 'w Server \<Rightarrow> 'w Server" where
  "SetACLs a s = s\<lparr>s_acls := (case a of None \<Rightarrow> Compile [] | Some x \<Rightarrow> x)\<rparr>"

definition currentACLs :: "'w Server \<Rightarrow> ACLs" where
  "currentACLs s = s_acls s"

section \<open>Audit\<close>

record auditCtx =
  ac_op :: string
  ac_path :: string
  ac_id :: nat

definition audit :: "AuditEvent \<Rightarrow> ('w, unit) handler" where
  "audit e = modify (\<lambda>s. s\<lparr>s_audit := s_audit s @ [e]\<rparr>)"

definition beginAudit :: "string \<Rightarrow> string \<Rightarrow> ('w, auditCtx) handler" where
  "beginAudit op path = do {
     modify (\<lambda>s. s\<lparr>s_seq := s_seq s + 1\<rparr>);
     n \<leftarrow> gets s_seq;
     ret \<lparr>ac_op = op, ac_path = path, ac_id = n\<rparr>
   }"

definition ac_event :: "auditCtx \<Rightarrow> phase \<Rightarrow> string \<Rightarrow> fs_error option \<Rightarrow> AuditEvent" where
  "ac_event a ph verdict err = \<lparr>ae_Phase = ph, ae_RequestID = ac_id a, ae_Op = ac_op a, ae_Path = ac_path a,
     ae_Verdict = verdict, ae_Err = err\<rparr>"

definition deny :: "auditCtx \<Rightarrow> ('w, unit) handler" where
  "deny a = do { audit (ac_event a Request ''deny'' None); audit (ac_event a Response ''deny'' None) }"

definition allow :: "auditCtx \<Rightarrow> ('w, unit) handler" where
  "allow a = audit (ac_event a Request ''allow'' None)"

definition response :: "auditCtx \<Rightarrow> ('w, unit) handler" where
  "response a = audit (ac_event a Response [] None)"

definition responseError :: "auditCtx \<Rightarrow> fs_error \<Rightarrow> ('w, unit) handler" where
  "responseError a err = audit (ac_event a Response [] (Some err))"

section \<open>Paths\<close>

definition hostPath :: "Config \<Rightarrow> string \<Rightarrow> string" where
  "hostPath cfg vp = path_Join (Backend cfg) (path_Clean (slash # path_Clean vp))"

definition absPath :: "Config \<Rightarrow> string \<Rightarrow> string" where
  "absPath cfg vp = path_Clean (MountPoint cfg @ slash # vp)"

definition childAbs :: "Config \<Rightarrow> string \<Rightarrow> string \<Rightarrow> string" where
  "childAbs cfg vp name = path_Clean (absPath cfg vp @ slash # name)"

definition access :: "'w Server \<Rightarrow> string \<Rightarrow> Access" where
  "access s vp = Eval (currentACLs s) (absPath (s_cfg s) vp)"

section \<open>The stat cache guarded by the journal\<close>

definition isDirty :: "'w env \<Rightarrow> string \<Rightarrow> ('w, bool) handler" where
  "isDirty os vp = do {
     cfg \<leftarrow> gets s_cfg;
     if \<not> hasOplog cfg then ret False else do { r \<leftarrow> sys os (QIsDirty vp); ret (as_flag r) }
   }"

text \<open>The store-relative path of a cache key.\<close>

definition cache_virt :: "Config \<Rightarrow> string \<Rightarrow> string" where
  "cache_virt cfg p = (let virt = TrimPrefix p (MountPoint cfg) in if virt = [] then ''/'' else virt)"

definition guarded_cache :: "'w env \<Rightarrow> string \<Rightarrow> (statCache option \<Rightarrow> statCache option) \<Rightarrow> ('w, unit) handler" where
  "guarded_cache os p f = do {
     cfg \<leftarrow> gets s_cfg;
     busy \<leftarrow> isDirty os (cache_virt cfg p);
     if busy then ret () else modify (\<lambda>s. s\<lparr>s_cache := f (s_cache s)\<rparr>)
   }"

definition cachePut :: "'w env \<Rightarrow> string \<Rightarrow> FileInfo \<Rightarrow> ('w, unit) handler" where
  "cachePut os p info = guarded_cache os p (sc_put p info)"

definition cachePutNegative :: "'w env \<Rightarrow> string \<Rightarrow> ('w, unit) handler" where
  "cachePutNegative os p = guarded_cache os p (putNegative p)"

definition cachePutSymlink :: "'w env \<Rightarrow> string \<Rightarrow> int \<Rightarrow> ('w, unit) handler" where
  "cachePutSymlink os p sz = guarded_cache os p (putSymlink p sz)"

definition cacheInfo :: "'w env \<Rightarrow> string \<Rightarrow> FileInfo \<Rightarrow> ('w, unit) handler" where
  "cacheInfo os p info = (if fi_Symlink info then cachePutSymlink os p (fi_Size info) else cachePut os p info)"

definition cache_drop :: "string \<Rightarrow> ('w, unit) handler" where
  "cache_drop p = modify (\<lambda>s. s\<lparr>s_cache := invalidate p (s_cache s)\<rparr>)"

fun cacheInfos :: "'w env \<Rightarrow> (FileInfo \<Rightarrow> string) \<Rightarrow> FileInfo list \<Rightarrow> ('w, unit) handler" where
  "cacheInfos os key [] = ret ()"
| "cacheInfos os key (i # is) = do { cacheInfo os (key i) i; cacheInfos os key is }"

text \<open>The background refresh of an async mount, as the step it performs.\<close>

definition refreshAttrAsync :: "'w env \<Rightarrow> string \<Rightarrow> string \<Rightarrow> ('w, unit) handler" where
  "refreshAttrAsync os virt ap = do {
     c \<leftarrow> gets s_cache;
     if c = None then ret ()
     else do {
       r \<leftarrow> sys os (RStat virt);
       (case as_error r of
          None \<Rightarrow> cacheInfo os ap (as_info r)
        | Some ErrRemoteNotExist \<Rightarrow> cachePutNegative os ap
        | Some _ \<Rightarrow> ret ())
     }
   }"

definition warmDirCache :: "'w env \<Rightarrow> string \<Rightarrow> ('w, bool) handler" where
  "warmDirCache os vp = do {
     cfg \<leftarrow> gets s_cfg;
     r \<leftarrow> sys os (RListDir vp);
     if as_error r \<noteq> None \<and> as_error r \<noteq> Some ErrRemoteNotExist then ret False
     else do {
       cacheInfos os (\<lambda>info. childAbs cfg vp (path_Base (fi_Path info))) (as_infos r);
       modify (\<lambda>s. s\<lparr>s_cache := putListed (absPath cfg vp) (as_infos r) (s_cache s)\<rparr>);
       ret True
     }
   }"

definition trackNode :: "string \<Rightarrow> ('w, unit) handler" where
  "trackNode vp = modify (\<lambda>s. s\<lparr>s_live := AList.update vp (s_next s) (s_live s),
     s_nodes := (s_nodes s)(s_next s := vp), s_next := s_next s + 1\<rparr>)"

text \<open>The journal calls are no-ops without a journal.\<close>

definition enqueue :: "'w env \<Rightarrow> call \<Rightarrow> ('w, unit) handler" where
  "enqueue os c = do {
     cfg \<leftarrow> gets s_cfg;
     if \<not> hasOplog cfg then ret () else do { _ \<leftarrow> sys os c; ret () }
   }"

definition markWritten :: "string \<Rightarrow> ('w, unit) handler" where
  "markWritten virt = do {
     cfg \<leftarrow> gets s_cfg;
     if \<not> hasOplog cfg then ret () else modify (\<lambda>s. s\<lparr>s_written := List.insert virt (s_written s)\<rparr>)
   }"

definition takeWritten :: "string \<Rightarrow> ('w, bool) handler" where
  "takeWritten virt = do {
     cfg \<leftarrow> gets s_cfg;
     if \<not> hasOplog cfg then ret False
     else do {
       ok \<leftarrow> gets (\<lambda>s. List.member (s_written s) virt);
       modify (\<lambda>s. s\<lparr>s_written := removeAll virt (s_written s)\<rparr>);
       ret ok
     }
   }"

section \<open>Attributes\<close>

text \<open>\<open>at_Perm\<close> holds the permission bits the handler chooses itself; \<open>None\<close> stands for the
  backend file's own bits, inode, link count and owner.\<close>

record Attr =
  at_Size :: int
  at_Mtime :: int
  at_Dir :: bool
  at_Link :: bool
  at_Perm :: "nat option"

definition fillAttr :: "FileInfo \<Rightarrow> Attr" where
  "fillAttr st = \<lparr>at_Size = fi_Size st, at_Mtime = fi_Mtime st, at_Dir = fi_IsDir st, at_Link = fi_Symlink st, at_Perm = None\<rparr>"

definition fillAttrSymlink :: "int \<Rightarrow> Attr" where
  "fillAttrSymlink sz = \<lparr>at_Size = sz, at_Mtime = 0, at_Dir = False, at_Link = True, at_Perm = Some 511\<rparr>"

definition fillAttrFromRemote :: "FileInfo \<Rightarrow> Attr" where
  "fillAttrFromRemote info = \<lparr>at_Size = fi_Size info, at_Mtime = fi_Mtime info, at_Dir = fi_IsDir info, at_Link = False,
     at_Perm = Some (if fi_IsDir info then 493 else 420)\<rparr>"

definition local_attr :: "'w env \<Rightarrow> auditCtx \<Rightarrow> string \<Rightarrow> ('w, errno + Attr) handler" where
  "local_attr os ac vp = do {
     cfg \<leftarrow> gets s_cfg;
     r \<leftarrow> sys os (OsLstat (hostPath cfg vp));
     (case as_error r of
        Some err \<Rightarrow> do { responseError ac err; ret (Inl (mapErr err)) }
      | None \<Rightarrow> do { response ac; ret (Inr (fillAttr (as_info r))) })
   }"

definition node_Attr :: "'w env \<Rightarrow> string \<Rightarrow> ('w, errno + Attr) handler" where
  "node_Attr os vp = do {
     cfg \<leftarrow> gets s_cfg;
     ac \<leftarrow> beginAudit ''attr'' (absPath cfg vp);
     acc \<leftarrow> gets (\<lambda>s. access s vp);
     if acc = AccessDeny then do { deny ac; ret (Inl ENOENT) }
     else do {
       allow ac;
       busy \<leftarrow> (if hasRemote cfg then isDirty os vp else ret True);
       if \<not> busy then do {
         c \<leftarrow> gets s_cache;
         (case getEntry (absPath cfg vp) c of
            Some e \<Rightarrow>
              if sc_symlink e then do { response ac; ret (Inr (fillAttrSymlink (fi_Size (sc_info e)))) }
              else if \<not> sc_negative e then do { response ac; ret (Inr (fillAttrFromRemote (sc_info e))) }
              else local_attr os ac vp
          | None \<Rightarrow>
              if \<not> dirListed (path_Dir (absPath cfg vp)) c then
                (if Async cfg then do { refreshAttrAsync os vp (absPath cfg vp); local_attr os ac vp }
                 else do {
                   r \<leftarrow> sys os (RStat vp);
                   (case as_error r of
                      None \<Rightarrow> do {
                        cacheInfo os (absPath cfg vp) (as_info r);
                        response ac;
                        ret (Inr (if fi_Symlink (as_info r) then fillAttrSymlink (fi_Size (as_info r))
                                  else fillAttrFromRemote (as_info r)))
                      }
                    | Some ErrRemoteNotExist \<Rightarrow> do { cachePutNegative os (absPath cfg vp); local_attr os ac vp }
                    | Some _ \<Rightarrow> local_attr os ac vp)
                 })
              else local_attr os ac vp)
       } else local_attr os ac vp
     }
   }"

section \<open>Lookup\<close>

definition found :: "auditCtx \<Rightarrow> string \<Rightarrow> ('w, errno + string) handler" where
  "found ac cv = do { response ac; trackNode cv; ret (Inr cv) }"

definition local_lookup :: "'w env \<Rightarrow> auditCtx \<Rightarrow> string \<Rightarrow> ('w, errno + string) handler" where
  "local_lookup os ac cv = do {
     cfg \<leftarrow> gets s_cfg;
     r \<leftarrow> sys os (OsLstat (hostPath cfg cv));
     (case as_error r of
        Some err \<Rightarrow> do { responseError ac err; ret (Inl (mapErr err)) }
      | None \<Rightarrow> found ac cv)
   }"

definition node_Lookup :: "'w env \<Rightarrow> string \<Rightarrow> string \<Rightarrow> ('w, errno + string) handler" where
  "node_Lookup os vp name = do {
     cfg \<leftarrow> gets s_cfg;
     let cv = path_Join vp name;
     ac \<leftarrow> beginAudit ''lookup'' (absPath cfg cv);
     acc \<leftarrow> gets (\<lambda>s. access s cv);
     if acc = AccessDeny then do { deny ac; ret (Inl ENOENT) }
     else do {
       allow ac;
       busy \<leftarrow> (if hasRemote cfg then isDirty os cv else ret True);
       if \<not> busy then do {
         c \<leftarrow> gets s_cache;
         (case getEntry (absPath cfg cv) c of
            Some e \<Rightarrow> if \<not> sc_negative e then found ac cv else local_lookup os ac cv
          | None \<Rightarrow>
              if \<not> dirListed (absPath cfg vp) c then do {
                warmed \<leftarrow> warmDirCache os vp;
                if warmed then do {
                  c' \<leftarrow> gets s_cache;
                  (case getEntry (absPath cfg cv) c' of
                     Some e \<Rightarrow> if \<not> sc_negative e then found ac cv else local_lookup os ac cv
                   | None \<Rightarrow> local_lookup os ac cv)
                } else do {
                  r \<leftarrow> sys os (RStat cv);
                  (case as_error r of
                     None \<Rightarrow> do { cacheInfo os (absPath cfg cv) (as_info r); found ac cv }
                   | Some ErrRemoteNotExist \<Rightarrow> do { cachePutNegative os (absPath cfg cv); local_lookup os ac cv }
                   | Some _ \<Rightarrow> local_lookup os ac cv)
                }
              } else local_lookup os ac cv)
       } else local_lookup os ac cv
     }
   }"

section \<open>ReadDirAll\<close>

fun seen_remote :: "'w env \<Rightarrow> Config \<Rightarrow> string \<Rightarrow> FileInfo list \<Rightarrow> (string \<times> dtype) list \<Rightarrow> ('w, (string \<times> dtype) list) handler" where
  "seen_remote os cfg vp [] seen = ret seen"
| "seen_remote os cfg vp (info # infos) seen = do {
     let name = path_Base (fi_Path info);
     acc \<leftarrow> gets (\<lambda>s. Eval (currentACLs s) (childAbs cfg vp name));
     if acc = AccessDeny then seen_remote os cfg vp infos seen
     else do {
       cacheInfo os (childAbs cfg vp name) info;
       seen_remote os cfg vp infos
         (AList.update name (if fi_Symlink info then DT_Link else if fi_IsDir info then DT_Dir else DT_File) seen)
     }
   }"

definition seen_local :: "Config \<Rightarrow> ACLs \<Rightarrow> string \<Rightarrow> (string \<times> dtype) list \<Rightarrow> (string \<times> dtype) list \<Rightarrow> (string \<times> dtype) list" where
  "seen_local cfg acls vp entries seen =
     fold (\<lambda>(name, t) sn. if Eval acls (childAbs cfg vp name) = AccessDeny then sn else AList.update name t sn) entries seen"

definition list_merge :: "'w env \<Rightarrow> auditCtx \<Rightarrow> string \<Rightarrow> (string \<times> dtype) list \<Rightarrow> ('w, errno + (string \<times> dtype) list) handler" where
  "list_merge os ac vp seen = do {
     cfg \<leftarrow> gets s_cfg;
     r \<leftarrow> sys os (OsReadDir (hostPath cfg vp));
     (case as_error r of
        None \<Rightarrow> do {
          acls \<leftarrow> gets currentACLs;
          response ac;
          ret (Inr (seen_local cfg acls vp (as_names r) seen))
        }
      | Some err \<Rightarrow>
          if \<not> hasRemote cfg then do { responseError ac err; ret (Inl (mapErr err)) }
          else do { response ac; ret (Inr seen) })
   }"

definition node_ReadDirAll :: "'w env \<Rightarrow> int \<Rightarrow> string \<Rightarrow> ('w, errno + (string \<times> dtype) list) handler" where
  "node_ReadDirAll os now vp = do {
     cfg \<leftarrow> gets s_cfg;
     ac \<leftarrow> beginAudit ''readdir'' (absPath cfg vp);
     acc \<leftarrow> gets (\<lambda>s. access s vp);
     if acc = AccessDeny then do { deny ac; ret (Inl ENOENT) }
     else do {
       allow ac;
       if hasRemote cfg then do {
         c \<leftarrow> gets s_cache;
         r \<leftarrow> (case cachedListing (absPath cfg vp) c of
                 Some infos \<Rightarrow> ret (Infos infos)
               | None \<Rightarrow> sys os (RListDir vp));
         if as_error r \<noteq> None \<and> as_error r \<noteq> Some ErrRemoteNotExist
         then do { responseError ac (the (as_error r)); ret (Inl (mapErr (the (as_error r)))) }
         else do {
           cachePut os (absPath cfg vp) (zero_info\<lparr>fi_Path := absPath cfg vp, fi_IsDir := True, fi_Mtime := now\<rparr>);
           seen \<leftarrow> seen_remote os cfg vp (as_infos r) [];
           (if cachedListing (absPath cfg vp) c = None
            then modify (\<lambda>s. s\<lparr>s_cache := putListed (absPath cfg vp) (as_infos r) (s_cache s)\<rparr>) else ret ());
           list_merge os ac vp seen
         }
       } else list_merge os ac vp []
     }
   }"

section \<open>Open and the local copy\<close>

record open_req =
  oq_WriteOnly :: bool
  oq_ReadWrite :: bool
  oq_Truncate :: bool
  oq_Dir :: bool

definition chk :: "reply \<Rightarrow> ('w, fs_error option) handler \<Rightarrow> ('w, fs_error option) handler" where
  "chk r m = (case as_error r of Some err \<Rightarrow> ret (Some err) | None \<Rightarrow> m)"

definition materialize_from :: "'w env \<Rightarrow> string \<Rightarrow> open_req \<Rightarrow> FileInfo \<Rightarrow> ('w, fs_error option) handler" where
  "materialize_from os vp req info = do {
     cfg \<leftarrow> gets s_cfg;
     let host = hostPath cfg vp;
     if fi_IsDir info then do { r \<leftarrow> sys os (OsMkdirAll host); ret (as_error r) }
     else do {
       r \<leftarrow> sys os (OsMkdirAll (path_Dir host));
       chk r (if oq_Truncate req then do { t \<leftarrow> sys os (OsTruncCreate host); ret (as_error t) }
              else do {
                g \<leftarrow> sys os (RGet vp);
                chk g (do { f \<leftarrow> sys os (OsFetch host (as_data g)); ret (as_error f) })
              })
     }
   }"

definition materializeLocal :: "'w env \<Rightarrow> string \<Rightarrow> open_req \<Rightarrow> ('w, fs_error option) handler" where
  "materializeLocal os vp req = do {
     cfg \<leftarrow> gets s_cfg;
     st \<leftarrow> (if Async cfg then sys os (OsLstat (hostPath cfg vp)) else ret (Fail ErrNotExist));
     if as_error st = None \<and> \<not> fi_IsDir (as_info st) then ret None
     else do {
       c \<leftarrow> gets s_cache;
       (case sc_get (absPath cfg vp) c of
          Some info \<Rightarrow> materialize_from os vp req info
        | None \<Rightarrow> do {
            r \<leftarrow> sys os (RStat vp);
            chk r (do { cachePut os (absPath cfg vp) (as_info r); materialize_from os vp req (as_info r) })
          })
     }
   }"

definition node_Open :: "'w env \<Rightarrow> string \<Rightarrow> open_req \<Rightarrow> ('w, errno + unit) handler" where
  "node_Open os vp req = do {
     cfg \<leftarrow> gets s_cfg;
     verdict \<leftarrow> gets (\<lambda>s. access s vp);
     let op = (if verdict = AccessRO \<and> (oq_WriteOnly req \<or> oq_ReadWrite req) then ''open-write'' else ''open'');
     ac \<leftarrow> beginAudit op (absPath cfg vp);
     if verdict = AccessDeny then do { deny ac; ret (Inl ENOENT) }
     else if op = ''open-write'' then do { deny ac; ret (Inl EROFS) }
     else do {
       allow ac;
       busy \<leftarrow> (if hasRemote cfg then isDirty os vp else ret True);
       if busy then do { response ac; ret (Inr ()) }
       else if oq_Dir req then do {
         r \<leftarrow> sys os (OsMkdirAll (hostPath cfg vp));
         (case as_error r of
            Some err \<Rightarrow> do { responseError ac err; ret (Inl (mapErr err)) }
          | None \<Rightarrow> do { response ac; ret (Inr ()) })
       }
       else do {
         err \<leftarrow> materializeLocal os vp req;
         (case err of
            None \<Rightarrow> do { response ac; ret (Inr ()) }
          | Some e \<Rightarrow>
              if e \<noteq> ErrRemoteNotExist then do { responseError ac e; ret (Inl (mapErr e)) }
              else do {
                st \<leftarrow> sys os (OsLstat (hostPath cfg vp));
                if as_error st \<noteq> None then do { responseError ac (ErrOther ''not found''); ret (Inl ENOENT) }
                else do { response ac; ret (Inr ()) }
              })
       }
     }
   }"

section \<open>Reading and writing\<close>

definition node_Read :: "'w env \<Rightarrow> string \<Rightarrow> int \<Rightarrow> nat \<Rightarrow> ('w, errno + bytes) handler" where
  "node_Read os vp offset sz = do {
     cfg \<leftarrow> gets s_cfg;
     ac \<leftarrow> beginAudit ''read'' (absPath cfg vp);
     acc \<leftarrow> gets (\<lambda>s. access s vp);
     if acc = AccessDeny then do { deny ac; ret (Inl ENOENT) }
     else do {
       allow ac;
       r \<leftarrow> sys os (OsReadAt (hostPath cfg vp) offset sz);
       (case as_error r of
          Some err \<Rightarrow> do { responseError ac err; ret (Inl (mapErr err)) }
        | None \<Rightarrow> do { response ac; ret (Inr (as_data r)) })
     }
   }"

definition node_Write :: "'w env \<Rightarrow> string \<Rightarrow> int \<Rightarrow> bytes \<Rightarrow> ('w, errno + reply) handler" where
  "node_Write os vp offset d = do {
     cfg \<leftarrow> gets s_cfg;
     ac \<leftarrow> beginAudit ''write'' (absPath cfg vp);
     acc \<leftarrow> gets (\<lambda>s. access s vp);
     if acc \<noteq> AccessRW then do { deny ac; ret (Inl EROFS) }
     else do {
       allow ac;
       r \<leftarrow> sys os (OsWriteAt (hostPath cfg vp) offset d);
       (case as_error r of
          Some err \<Rightarrow> do { responseError ac err; ret (Inl (mapErr err)) }
        | None \<Rightarrow> do {
            response ac;
            cache_drop (absPath cfg vp);
            markWritten vp;
            ret (Inr r)
          })
     }
   }"

definition node_Flush :: "'w env \<Rightarrow> string \<Rightarrow> ('w, unit) handler" where
  "node_Flush os vp = do {
     cfg \<leftarrow> gets s_cfg;
     w \<leftarrow> takeWritten vp;
     if w then enqueue os (QPut vp (hostPath cfg vp)) else ret ()
   }"

definition node_Fsync :: "'w env \<Rightarrow> string \<Rightarrow> ('w, unit) handler" where
  "node_Fsync os vp = ret ()"

definition node_Create :: "'w env \<Rightarrow> string \<Rightarrow> string \<Rightarrow> nat \<Rightarrow> ('w, errno + string) handler" where
  "node_Create os vp name mode = do {
     cfg \<leftarrow> gets s_cfg;
     let cv = path_Join vp name;
     ac \<leftarrow> beginAudit ''create'' (absPath cfg cv);
     acc \<leftarrow> gets (\<lambda>s. access s cv);
     if acc \<noteq> AccessRW then do { deny ac; ret (Inl EROFS) }
     else do {
       allow ac;
       d \<leftarrow> sys os (OsMkdirAll (path_Dir (hostPath cfg cv)));
       (case as_error d of
          Some err \<Rightarrow> do { responseError ac err; ret (Inl (mapErr err)) }
        | None \<Rightarrow> do {
            r \<leftarrow> sys os (OsCreate (hostPath cfg cv) (if mode = 0 then 420 else mode));
            (case as_error r of
               Some err \<Rightarrow> do { responseError ac err; ret (Inl (mapErr err)) }
             | None \<Rightarrow> do {
                 response ac;
                 modify (\<lambda>s. s\<lparr>s_cache := sc_put (absPath cfg cv) (zero_info\<lparr>fi_Path := cv\<rparr>) (s_cache s)\<rparr>);
                 trackNode cv;
                 ret (Inr cv)
               })
          })
     }
   }"

definition node_Mkdir :: "'w env \<Rightarrow> string \<Rightarrow> string \<Rightarrow> ('w, errno + string) handler" where
  "node_Mkdir os vp name = do {
     cfg \<leftarrow> gets s_cfg;
     let cv = path_Join vp name;
     ac \<leftarrow> beginAudit ''mkdir'' (absPath cfg cv);
     acc \<leftarrow> gets (\<lambda>s. access s cv);
     if acc \<noteq> AccessRW then do { deny ac; ret (Inl EROFS) }
     else do {
       allow ac;
       r \<leftarrow> sys os (OsMkdir (hostPath cfg cv));
       (case as_error r of
          Some err \<Rightarrow> do { responseError ac err; ret (Inl (mapErr err)) }
        | None \<Rightarrow> do {
            response ac;
            modify (\<lambda>s. s\<lparr>s_cache := sc_put (absPath cfg cv) (zero_info\<lparr>fi_Path := cv, fi_IsDir := True\<rparr>) (s_cache s)\<rparr>);
            trackNode cv;
            ret (Inr cv)
          })
     }
   }"

section \<open>Remove and Rename\<close>

definition node_Remove :: "'w env \<Rightarrow> string \<Rightarrow> string \<Rightarrow> ('w, errno + unit) handler" where
  "node_Remove os vp name = do {
     cfg \<leftarrow> gets s_cfg;
     let ca = childAbs cfg vp name;
     let cv = path_Join vp name;
     ac \<leftarrow> beginAudit ''remove'' ca;
     acc \<leftarrow> gets (\<lambda>s. Eval (currentACLs s) ca);
     if acc \<noteq> AccessRW then do { deny ac; ret (Inl EROFS) }
     else do {
       allow ac;
       l \<leftarrow> sys os (OsRemove (path_Join (hostPath cfg vp) name));
       if as_error l \<noteq> None \<and> as_error l \<noteq> Some ErrNotExist
       then do { responseError ac (the (as_error l)); ret (Inl (mapErr (the (as_error l)))) }
       else do {
         cache_drop ca;
         if hasRemote cfg then do {
           busy \<leftarrow> isDirty os cv;
           if busy then do { response ac; enqueue os (QDelete cv); ret (Inr ()) }
           else do {
             r \<leftarrow> sys os (RDelete cv);
             if as_error r \<noteq> None \<and> as_error r \<noteq> Some ErrRemoteNotExist
             then do { responseError ac (the (as_error r)); ret (Inl (mapErr (the (as_error r)))) }
             else do { response ac; ret (Inr ()) }
           }
         }
         else if as_error l \<noteq> None then do { responseError ac (ErrOther ''not found''); ret (Inl ENOENT) }
         else do { response ac; ret (Inr ()) }
       }
     }
   }"

text \<open>The node registry after a rename: the moved node and the nodes below it.\<close>

definition moved_vp :: "string \<Rightarrow> string \<Rightarrow> string \<Rightarrow> string option" where
  "moved_vp oldVirt newVirt vp =
     (if vp = oldVirt then Some newVirt
      else if HasPrefix vp (oldVirt @ [slash]) then Some (newVirt @ drop (length oldVirt) vp) else None)"

definition rename_nodes :: "string \<Rightarrow> string \<Rightarrow> 'w Server \<Rightarrow> 'w Server" where
  "rename_nodes oldVirt newVirt s =
     fold (\<lambda>(vp, n) t. case moved_vp oldVirt newVirt vp of
            None \<Rightarrow> t
          | Some nv \<Rightarrow> t\<lparr>s_live := AList.update nv n (AList.delete vp (s_live t)), s_nodes := (s_nodes t)(n := nv)\<rparr>)
       (s_live s) s"

definition rename_fail :: "auditCtx \<Rightarrow> auditCtx \<Rightarrow> fs_error \<Rightarrow> errno \<Rightarrow> ('w, errno + unit) handler" where
  "rename_fail wac dac err rc = do { responseError wac err; responseError dac err; ret (Inl rc) }"

definition rename_done :: "auditCtx \<Rightarrow> auditCtx \<Rightarrow> ('w, errno + unit) handler" where
  "rename_done wac dac = do { response wac; response dac; ret (Inr ()) }"

definition rename_remote :: "'w env \<Rightarrow> auditCtx \<Rightarrow> auditCtx \<Rightarrow> bool \<Rightarrow> string \<Rightarrow> string \<Rightarrow> string \<Rightarrow> string
    \<Rightarrow> ('w, errno + unit) handler" where
  "rename_remote os wac dac localRenamed oldHost newHost oldVirt newVirt = do {
     busy \<leftarrow> isDirty os oldVirt;
     if busy then do {
       response wac;
       response dac;
       redirected \<leftarrow> (if localRenamed then sys os (QRenameParked oldVirt newVirt newHost) else ret (Flag False));
       if as_flag redirected then ret (Inr ())
       else do { enqueue os (QMove oldVirt newVirt); ret (Inr ()) }
     } else do {
       m \<leftarrow> sys os (RMove oldVirt newVirt);
       (case as_error m of
          None \<Rightarrow> rename_done wac dac
        | Some err \<Rightarrow> do {
            _ \<leftarrow> (if localRenamed then sys os (OsRename newHost oldHost) else ret Done);
            if err = ErrRemoteNotExist \<and> \<not> localRenamed
            then rename_fail wac dac (ErrOther ''source not found'') ENOENT
            else rename_fail wac dac err (mapErr err)
          })
     }
   }"

text \<open>\<open>newDir\<close> is \<open>None\<close> when the destination is not a node of this server.\<close>

definition node_Rename :: "'w env \<Rightarrow> string \<Rightarrow> string \<Rightarrow> string option \<Rightarrow> string \<Rightarrow> ('w, errno + unit) handler" where
  "node_Rename os vp oldName newDir newName =
     (case newDir of
        None \<Rightarrow> ret (Inl EXDEV)
      | Some dvp \<Rightarrow> do {
          cfg \<leftarrow> gets s_cfg;
          let oldAbs = childAbs cfg vp oldName;
          let newAbs = childAbs cfg dvp newName;
          wac \<leftarrow> beginAudit ''write'' newAbs;
          dac \<leftarrow> beginAudit ''remove'' oldAbs;
          a1 \<leftarrow> gets (\<lambda>s. Eval (currentACLs s) oldAbs);
          a2 \<leftarrow> gets (\<lambda>s. Eval (currentACLs s) newAbs);
          if a1 \<noteq> AccessRW \<or> a2 \<noteq> AccessRW then do { deny wac; deny dac; ret (Inl EROFS) }
          else do {
            allow wac;
            allow dac;
            let oldHost = path_Join (hostPath cfg vp) oldName;
            let newHost = path_Join (hostPath cfg dvp) newName;
            d \<leftarrow> sys os (OsMkdirAll (path_Dir newHost));
            (case as_error d of
               Some err \<Rightarrow> rename_fail wac dac err (mapErr err)
             | None \<Rightarrow> do {
                 l \<leftarrow> sys os (OsRename oldHost newHost);
                 if as_error l \<noteq> None \<and> as_error l \<noteq> Some ErrNotExist
                 then rename_fail wac dac (the (as_error l)) (mapErr (the (as_error l)))
                 else do {
                   cache_drop oldAbs;
                   cache_drop newAbs;
                   let oldVirt = path_Join vp oldName;
                   let newVirt = path_Join dvp newName;
                   modify (rename_nodes oldVirt newVirt);
                   if hasRemote cfg
                   then rename_remote os wac dac (as_error l = None) oldHost newHost oldVirt newVirt
                   else if as_error l \<noteq> None then rename_fail wac dac (ErrOther ''not found'') ENOENT
                   else rename_done wac dac
                 }
               })
          }
        })"

section \<open>Links and attributes\<close>

definition node_Symlink :: "'w env \<Rightarrow> string \<Rightarrow> string \<Rightarrow> string \<Rightarrow> ('w, errno + string) handler" where
  "node_Symlink os vp name target = do {
     cfg \<leftarrow> gets s_cfg;
     let cv = path_Join vp name;
     ac \<leftarrow> beginAudit ''symlink'' (absPath cfg cv);
     acc \<leftarrow> gets (\<lambda>s. access s cv);
     if acc \<noteq> AccessRW then do { deny ac; ret (Inl EROFS) }
     else do {
       allow ac;
       d \<leftarrow> sys os (OsMkdirAll (path_Dir (hostPath cfg cv)));
       (case as_error d of
          Some err \<Rightarrow> do { responseError ac err; ret (Inl (mapErr err)) }
        | None \<Rightarrow> do {
            r \<leftarrow> sys os (OsSymlink target (hostPath cfg cv));
            (case as_error r of
               Some err \<Rightarrow> do { responseError ac err; ret (Inl (mapErr err)) }
             | None \<Rightarrow> do {
                 response ac;
                 modify (\<lambda>s. s\<lparr>s_cache := putSymlink (absPath cfg cv) (int (length target)) (s_cache s)\<rparr>);
                 enqueue os (QSymlink cv target);
                 trackNode cv;
                 ret (Inr cv)
               })
          })
     }
   }"

definition node_Readlink :: "'w env \<Rightarrow> string \<Rightarrow> ('w, errno + string) handler" where
  "node_Readlink os vp = do {
     cfg \<leftarrow> gets s_cfg;
     ac \<leftarrow> beginAudit ''readlink'' (absPath cfg vp);
     acc \<leftarrow> gets (\<lambda>s. access s vp);
     if acc = AccessDeny then do { deny ac; ret (Inl ENOENT) }
     else do {
       allow ac;
       l \<leftarrow> sys os (OsReadlink (hostPath cfg vp));
       if as_error l = None then do { response ac; ret (Inr (as_target l)) }
       else if hasRemote cfg then do {
         r \<leftarrow> sys os (RReadlink vp);
         (case as_error r of
            Some err \<Rightarrow> do { responseError ac err; ret (Inl (mapErr err)) }
          | None \<Rightarrow> do {
              let target = TrimRight (CHR 0x0A) (as_target r);
              m \<leftarrow> sys os (OsMkdirAll (path_Dir (hostPath cfg vp)));
              _ \<leftarrow> (if as_error m = None then sys os (OsCacheLink target (hostPath cfg vp)) else ret Done);
              response ac;
              ret (Inr target)
            })
       }
       else do { responseError ac (ErrOther ''not found''); ret (Inl ENOENT) }
     }
   }"

definition set_mode :: "'w env \<Rightarrow> string \<Rightarrow> nat \<Rightarrow> ('w, errno option) handler" where
  "set_mode os vp mode = do {
     cfg \<leftarrow> gets s_cfg;
     ac \<leftarrow> beginAudit ''chmod'' (absPath cfg vp);
     acc \<leftarrow> gets (\<lambda>s. access s vp);
     if acc \<noteq> AccessRW then do { deny ac; ret (Some EROFS) }
     else do {
       allow ac;
       r \<leftarrow> sys os (OsChmod (hostPath cfg vp) mode);
       (case as_error r of
          Some err \<Rightarrow> do { responseError ac err; ret (Some (mapErr err)) }
        | None \<Rightarrow> do { response ac; cache_drop (absPath cfg vp); ret None })
     }
   }"

definition truncate_stub :: "'w env \<Rightarrow> string \<Rightarrow> ('w, fs_error option) handler" where
  "truncate_stub os host = do {
     st \<leftarrow> sys os (OsStat host);
     (case as_error st of
        None \<Rightarrow> ret None
      | Some err \<Rightarrow>
          if err \<noteq> ErrNotExist then ret (Some err)
          else do {
            m \<leftarrow> sys os (OsMkdirAll (path_Dir host));
            chk m (do { f \<leftarrow> sys os (OsCreate host 438); ret (as_error f) })
          })
   }"

definition set_size :: "'w env \<Rightarrow> string \<Rightarrow> nat \<Rightarrow> ('w, errno option) handler" where
  "set_size os vp sz = do {
     cfg \<leftarrow> gets s_cfg;
     ac \<leftarrow> beginAudit ''truncate'' (absPath cfg vp);
     acc \<leftarrow> gets (\<lambda>s. access s vp);
     if acc \<noteq> AccessRW then do { deny ac; ret (Some EROFS) }
     else do {
       allow ac;
       e \<leftarrow> truncate_stub os (hostPath cfg vp);
       (case e of
          Some err \<Rightarrow> do { responseError ac err; ret (Some (mapErr err)) }
        | None \<Rightarrow> do {
            r \<leftarrow> sys os (OsTruncate (hostPath cfg vp) sz);
            (case as_error r of
               Some err \<Rightarrow> do { responseError ac err; ret (Some (mapErr err)) }
             | None \<Rightarrow> do { response ac; cache_drop (absPath cfg vp); ret None })
          })
     }
   }"

definition node_Setattr :: "'w env \<Rightarrow> string \<Rightarrow> nat option \<Rightarrow> nat option \<Rightarrow> ('w, errno + Attr) handler" where
  "node_Setattr os vp mode sz = do {
     e1 \<leftarrow> (case mode of None \<Rightarrow> ret None | Some m \<Rightarrow> set_mode os vp m);
     (case e1 of
        Some e \<Rightarrow> ret (Inl e)
      | None \<Rightarrow> do {
          e2 \<leftarrow> (case sz of None \<Rightarrow> ret None | Some n \<Rightarrow> set_size os vp n);
          (case e2 of Some e \<Rightarrow> ret (Inl e) | None \<Rightarrow> node_Attr os vp)
        })
   }"

end
