(* ===== verification/Fuse_Safe.thy ===== *)
theory Fuse_Safe
  imports Fuse
begin

text \<open>
  What the FUSE handlers may do.  Every call of a handler is authorised by the access
  rules, every audited request has exactly one response, and no backend path leaves the
  backend directory.  The handlers are taken apart by the weakest-precondition rules
  collected in \<open>wps\<close>, against an invariant relating the current server to the one the
  request found.
\<close>

section \<open>Authorised calls\<close>

definition rw_node :: "Config \<Rightarrow> ACLs \<Rightarrow> string \<Rightarrow> bool" where
  "rw_node cfg acls p \<longleftrightarrow> (\<exists>v. p = hostPath cfg v \<and> Eval acls (absPath cfg v) = AccessRW)"

definition rw_child :: "Config \<Rightarrow> ACLs \<Rightarrow> string \<Rightarrow> bool" where
  "rw_child cfg acls p \<longleftrightarrow> (\<exists>v n. p = path_Join (hostPath cfg v) n \<and> Eval acls (childAbs cfg v n) = AccessRW)"

definition rw_virt :: "Config \<Rightarrow> ACLs \<Rightarrow> string \<Rightarrow> bool" where
  "rw_virt cfg acls q \<longleftrightarrow> Eval acls (absPath cfg q) = AccessRW \<or>
     (\<exists>v n. q = path_Join v n \<and> Eval acls (childAbs cfg v n) = AccessRW)"

definition readable :: "Config \<Rightarrow> ACLs \<Rightarrow> string \<Rightarrow> bool" where
  "readable cfg acls p \<longleftrightarrow> (\<exists>v. p = hostPath cfg v \<and> Eval acls (absPath cfg v) \<noteq> AccessDeny)"

text \<open>Mutations of the backend, the remote and the journal need read-write access to every
  path they touch; content, link targets and listings need a path that is not denied.
  Metadata probes and the filling of the local copy are not restricted, and neither is the
  upload of a file already written.\<close>

definition permitted :: "Config \<Rightarrow> ACLs \<Rightarrow> call \<Rightarrow> bool" where
  "permitted cfg acls c = (case c of
      OsWriteAt p off d \<Rightarrow> rw_node cfg acls p
    | OsMkdir p \<Rightarrow> rw_node cfg acls p
    | OsCreate p m \<Rightarrow> rw_node cfg acls p
    | OsSymlink t p \<Rightarrow> rw_node cfg acls p
    | OsChmod p m \<Rightarrow> rw_node cfg acls p
    | OsTruncate p n \<Rightarrow> rw_node cfg acls p
    | OsRemove p \<Rightarrow> rw_child cfg acls p
    | OsRename p q \<Rightarrow> rw_child cfg acls p \<and> rw_child cfg acls q
    | RDelete v \<Rightarrow> rw_virt cfg acls v
    | RMove v w \<Rightarrow> rw_virt cfg acls v \<and> rw_virt cfg acls w
    | QDelete v \<Rightarrow> rw_virt cfg acls v
    | QMove v w \<Rightarrow> rw_virt cfg acls v \<and> rw_virt cfg acls w
    | QSymlink v t \<Rightarrow> rw_virt cfg acls v
    | QRenameParked v w b \<Rightarrow> rw_virt cfg acls v \<and> rw_virt cfg acls w
    | OsReadAt p off n \<Rightarrow> readable cfg acls p
    | OsReadDir p \<Rightarrow> readable cfg acls p
    | OsReadlink p \<Rightarrow> readable cfg acls p
    | OsFetch p d \<Rightarrow> readable cfg acls p
    | OsTruncCreate p \<Rightarrow> readable cfg acls p
    | OsCacheLink t p \<Rightarrow> readable cfg acls p
    | RGet v \<Rightarrow> Eval acls (absPath cfg v) \<noteq> AccessDeny
    | RReadlink v \<Rightarrow> Eval acls (absPath cfg v) \<noteq> AccessDeny
    | _ \<Rightarrow> True)"

section \<open>The invariant of a request\<close>

text \<open>Audit ids handed out since the request began: those with no event yet, those whose
  request is logged, and the rest, which have a request and then a response.\<close>

definition audit_state :: "nat \<Rightarrow> nat \<Rightarrow> nat set \<Rightarrow> nat set \<Rightarrow> AuditEvent list \<Rightarrow> bool" where
  "audit_state lo hi F P evs \<longleftrightarrow>
     (\<forall>e \<in> set evs. lo < ae_RequestID e \<and> ae_RequestID e \<le> hi) \<and> F \<inter> P = {} \<and> F \<subseteq> {lo<..hi} \<and> P \<subseteq> {lo<..hi} \<and>
     (\<forall>i \<in> {lo<..hi}. map ae_Phase (filter (\<lambda>e. ae_RequestID e = i) evs) =
        (if i \<in> F then [] else if i \<in> P then [Request] else [Request, Response]))"

definition inv :: "'w Server \<Rightarrow> nat set \<Rightarrow> nat set \<Rightarrow> 'w Server \<Rightarrow> bool" where
  "inv s0 F P s \<longleftrightarrow> s_cfg s = s_cfg s0 \<and> s_acls s = s_acls s0 \<and> s_seq s0 \<le> s_seq s \<and>
     (\<exists>calls. s_trace s = s_trace s0 @ calls \<and> (\<forall>c \<in> set calls. permitted (s_cfg s0) (s_acls s0) c)) \<and>
     (\<exists>evs. s_audit s = s_audit s0 @ evs \<and> audit_state (s_seq s0) (s_seq s) F P evs)"

lemma inv_start: "inv s {} {} s"
  by (simp add: inv_def audit_state_def)

lemma audit_begin: "audit_state lo hi F P evs \<Longrightarrow> lo \<le> hi \<Longrightarrow> audit_state lo (Suc hi) (insert (Suc hi) F) P evs"
proof -
  assume a: "audit_state lo hi F P evs" and le: "lo \<le> hi"
  have new: "filter (\<lambda>e. ae_RequestID e = Suc hi) evs = []"
    using a by (auto simp: audit_state_def filter_empty_conv)
  have "{lo<..Suc hi} = insert (Suc hi) {lo<..hi}" using le by auto
  then show ?thesis
    using a new by (auto simp: audit_state_def)
qed

lemma audit_request:
  assumes "audit_state lo hi F P evs" "i \<in> F" "ae_RequestID e = i" "ae_Phase e = Request"
  shows "audit_state lo hi (F - {i}) (insert i P) (evs @ [e])"
  using assms by (auto simp: audit_state_def split: if_splits)

lemma audit_response:
  assumes "audit_state lo hi F P evs" "i \<in> P" "ae_RequestID e = i" "ae_Phase e = Response"
  shows "audit_state lo hi F (P - {i}) (evs @ [e])"
  using assms by (auto simp: audit_state_def split: if_splits)

section \<open>Weakest preconditions\<close>

lemma wp_case_error [wps]:
  "wp a Q s \<Longrightarrow> wp b Q s \<Longrightarrow> (\<And>n. wp (c n) Q s) \<Longrightarrow> wp d Q s \<Longrightarrow> (\<And>t. wp (e t) Q s) \<Longrightarrow>
   wp (case x of ErrNotExist \<Rightarrow> a | ErrPermission \<Rightarrow> b | ErrErrno n \<Rightarrow> c n | ErrRemoteNotExist \<Rightarrow> d | ErrOther t \<Rightarrow> e t) Q s"
  by (cases x) simp_all

lemma wp_cfg [wps]: "inv s0 F P s \<Longrightarrow> Q (s_cfg s0) s \<Longrightarrow> wp (gets s_cfg) Q s"
  by (simp add: wp_def gets_def inv_def)

lemma wp_access [wps]:
  "inv s0 F P s \<Longrightarrow> Q (Eval (s_acls s0) (absPath (s_cfg s0) v)) s \<Longrightarrow> wp (gets (\<lambda>s. access s v)) Q s"
  by (simp add: wp_def gets_def inv_def access_def currentACLs_def)

lemma wp_eval [wps]: "inv s0 F P s \<Longrightarrow> Q (Eval (s_acls s0) p) s \<Longrightarrow> wp (gets (\<lambda>s. Eval (currentACLs s) p)) Q s"
  by (simp add: wp_def gets_def inv_def currentACLs_def)

lemma wp_gets_cache [wps]: "(\<And>c. Q c s) \<Longrightarrow> wp (gets s_cache) Q s"
  by (simp add: wp_def gets_def)

lemma wp_sys [wps]:
  assumes "inv s0 F P s" "permitted (s_cfg s0) (s_acls s0) c" "\<And>r s'. inv s0 F P s' \<Longrightarrow> Q r s'"
  shows "wp (sys os c) Q s"
proof -
  obtain r w where o: "os c (s_world s) = (r, w)" by force
  have "inv s0 F P (s\<lparr>s_world := w, s_trace := s_trace s @ [c]\<rparr>)"
    using assms(1,2) by (auto simp: inv_def)
  then show ?thesis using assms(3) o by (simp add: wp_def sys_def)
qed

lemma wp_begin [wps]:
  assumes "inv s0 F P s" "\<And>ac s'. inv s0 (insert (ac_id ac) F) P s' \<Longrightarrow> ac_id ac \<notin> F \<union> P \<Longrightarrow> Q ac s'"
  shows "wp (beginAudit op p) Q s"
proof -
  let ?ac = "\<lparr>ac_op = op, ac_path = p, ac_id = s_seq s + 1\<rparr>" and ?s = "s\<lparr>s_seq := s_seq s + 1\<rparr>"
  have "inv s0 (insert (s_seq s + 1) F) P ?s"
    using assms(1) audit_begin [of "s_seq s0" "s_seq s" F P] by (auto simp: inv_def)
  moreover have "s_seq s + 1 \<notin> F \<union> P" using assms(1) by (fastforce simp: inv_def audit_state_def)
  ultimately show ?thesis
    using assms(2) [of ?ac ?s] by (simp add: wp_def beginAudit_def gets_def modify_def)
qed

lemma inv_audit:
  assumes "inv s0 F P s" "\<And>evs. audit_state (s_seq s0) (s_seq s) F P evs \<Longrightarrow> audit_state (s_seq s0) (s_seq s) F' P' (evs @ [e])"
  shows "inv s0 F' P' (s\<lparr>s_audit := s_audit s @ [e]\<rparr>)"
  using assms by (auto simp: inv_def)

lemma wp_allow [wps]:
  assumes "inv s0 F P s" "ac_id a \<in> F" "\<And>s'. inv s0 (F - {ac_id a}) (insert (ac_id a) P) s' \<Longrightarrow> Q () s'"
  shows "wp (allow a) Q s"
  using assms(3) inv_audit [OF assms(1) audit_request [OF _ assms(2)], where e = "ac_event a Request ''allow'' None"]
  by (simp add: wp_def allow_def audit_def modify_def ac_event_def)

lemma wp_respond:
  assumes "inv s0 F P s" "ac_id a \<in> P" "\<And>s'. inv s0 F (P - {ac_id a}) s' \<Longrightarrow> Q () s'"
  shows "wp (audit (ac_event a Response v e)) Q s"
  using assms(3) inv_audit [OF assms(1) audit_response [OF _ assms(2)], where e = "ac_event a Response v e"]
  by (simp add: wp_def audit_def modify_def ac_event_def)

lemma wp_response [wps]:
  "inv s0 F P s \<Longrightarrow> ac_id a \<in> P \<Longrightarrow> (\<And>s'. inv s0 F (P - {ac_id a}) s' \<Longrightarrow> Q () s') \<Longrightarrow> wp (response a) Q s"
  unfolding response_def by (rule wp_respond)

lemma wp_responseError [wps]:
  "inv s0 F P s \<Longrightarrow> ac_id a \<in> P \<Longrightarrow> (\<And>s'. inv s0 F (P - {ac_id a}) s' \<Longrightarrow> Q () s') \<Longrightarrow> wp (responseError a e) Q s"
  unfolding responseError_def by (rule wp_respond)

lemma wp_deny [wps]:
  assumes "inv s0 F P s" "ac_id a \<in> F" "\<And>s'. inv s0 (F - {ac_id a}) (P - {ac_id a}) s' \<Longrightarrow> Q () s'"
  shows "wp (deny a) Q s"
proof -
  have "wp (audit (ac_event a Request ''deny'' None)) (\<lambda>_. inv s0 (F - {ac_id a}) (insert (ac_id a) P)) s"
    using inv_audit [OF assms(1) audit_request [OF _ assms(2)], where e = "ac_event a Request ''deny'' None"]
    by (simp add: wp_def audit_def modify_def ac_event_def)
  then have "wp (audit (ac_event a Request ''deny'' None)) (\<lambda>_. wp (audit (ac_event a Response ''deny'' None)) Q) s"
    by (rule wp_mono) (rule wp_respond, assumption, simp, simp add: assms(3))
  then show ?thesis unfolding deny_def by (rule wp_bind)
qed

text \<open>Updates of the cache, the registry and the written marks are not observed.\<close>

lemma wp_modify:
  assumes "inv s0 F P s"
    "s_cfg (f s) = s_cfg s \<and> s_acls (f s) = s_acls s \<and> s_seq (f s) = s_seq s \<and> s_trace (f s) = s_trace s \<and> s_audit (f s) = s_audit s"
    "\<And>s'. inv s0 F P s' \<Longrightarrow> Q () s'"
  shows "wp (modify f) Q s"
proof -
  have "inv s0 F P (f s)" using assms(1,2) by (simp add: inv_def)
  then show ?thesis using assms(3) by (simp add: wp_def modify_def)
qed

declare wp_modify [wps]

lemma wp_gets_free [wps]: "(\<And>x. Q x s) \<Longrightarrow> wp (gets (\<lambda>s. List.member (s_written s) v)) Q s"
  by (simp add: wp_def gets_def)

lemma permits [wps]:
  "Eval acls (absPath cfg v) = AccessRW \<Longrightarrow> rw_node cfg acls (hostPath cfg v)"
  "Eval acls (childAbs cfg v n) = AccessRW \<Longrightarrow> rw_child cfg acls (path_Join (hostPath cfg v) n)"
  "Eval acls (childAbs cfg v n) = AccessRW \<Longrightarrow> rw_virt cfg acls (path_Join v n)"
  "Eval acls (absPath cfg v) = AccessRW \<Longrightarrow> rw_virt cfg acls v"
  "Eval acls (absPath cfg v) \<noteq> AccessDeny \<Longrightarrow> readable cfg acls (hostPath cfg v)"
  unfolding rw_node_def rw_child_def rw_virt_def readable_def by blast+

lemma wp_isDirty [wps]:
  "inv s0 F P s \<Longrightarrow> (\<And>b s'. inv s0 F P s' \<Longrightarrow> Q b s') \<Longrightarrow> wp (isDirty os v) Q s"
  unfolding isDirty_def by (rule wps | assumption | simp add: permitted_def)+

lemma wp_guarded_cache [wps]:
  "inv s0 F P s \<Longrightarrow> (\<And>s'. inv s0 F P s' \<Longrightarrow> Q () s') \<Longrightarrow> wp (guarded_cache os p f) Q s"
  unfolding guarded_cache_def by (rule wps | assumption | simp add: permitted_def)+

lemma wp_cacheInfo [wps]:
  "inv s0 F P s \<Longrightarrow> (\<And>s'. inv s0 F P s' \<Longrightarrow> Q () s') \<Longrightarrow> wp (cacheInfo os p i) Q s"
  unfolding cacheInfo_def cachePutSymlink_def cachePut_def by (rule wps | assumption)+

lemma wp_cacheInfos [wps]:
  "inv s0 F P s \<Longrightarrow> (\<And>s'. inv s0 F P s' \<Longrightarrow> Q () s') \<Longrightarrow> wp (cacheInfos os key is) Q s"
proof (induction "is" arbitrary: s)
  case (Cons i "is")
  show ?case unfolding cacheInfos.simps
    by (rule wp_bind, rule wp_cacheInfo [OF Cons.prems(1)], rule Cons.IH, assumption, rule Cons.prems(2))
qed (simp add: wp_ret)

lemmas wp_small =
  cachePut_def cachePutNegative_def cachePutSymlink_def cache_drop_def trackNode_def markWritten_def takeWritten_def

lemma wp_refreshAttrAsync [wps]:
  "inv s0 F P s \<Longrightarrow> (\<And>s'. inv s0 F P s' \<Longrightarrow> Q () s') \<Longrightarrow> wp (refreshAttrAsync os v ap) Q s"
  unfolding refreshAttrAsync_def wp_small by (rule wps | assumption | simp add: permitted_def)+

lemma wp_warmDirCache [wps]:
  "inv s0 F P s \<Longrightarrow> (\<And>b s'. inv s0 F P s' \<Longrightarrow> Q b s') \<Longrightarrow> wp (warmDirCache os v) Q s"
  unfolding warmDirCache_def by (rule wps | assumption | simp add: permitted_def)+

lemma wp_enqueue [wps]:
  "inv s0 F P s \<Longrightarrow> permitted (s_cfg s0) (s_acls s0) c \<Longrightarrow> (\<And>s'. inv s0 F P s' \<Longrightarrow> Q () s') \<Longrightarrow> wp (enqueue os c) Q s"
  unfolding enqueue_def by (rule wps | assumption)+

section \<open>The handlers' parts\<close>

lemma wp_local_attr [wps]:
  "inv s0 F P s \<Longrightarrow> ac_id ac \<in> P \<Longrightarrow> (\<And>r s'. inv s0 F (P - {ac_id ac}) s' \<Longrightarrow> Q r s') \<Longrightarrow> wp (local_attr os ac v) Q s"
  unfolding local_attr_def by (rule wps | assumption | simp add: permitted_def)+

lemma wp_found [wps]:
  "inv s0 F P s \<Longrightarrow> ac_id ac \<in> P \<Longrightarrow> (\<And>r s'. inv s0 F (P - {ac_id ac}) s' \<Longrightarrow> Q r s') \<Longrightarrow> wp (found ac v) Q s"
  unfolding found_def wp_small by (rule wps | assumption | simp add: permitted_def)+

lemma wp_local_lookup [wps]:
  "inv s0 F P s \<Longrightarrow> ac_id ac \<in> P \<Longrightarrow> (\<And>r s'. inv s0 F (P - {ac_id ac}) s' \<Longrightarrow> Q r s') \<Longrightarrow> wp (local_lookup os ac v) Q s"
  unfolding local_lookup_def by (rule wps | assumption | simp add: permitted_def)+

lemma wp_chk [wps]: "(\<And>e. Q (Some e) s) \<Longrightarrow> wp m Q s \<Longrightarrow> wp (chk r m) Q s"
  unfolding chk_def by (rule wps | assumption)+

lemma wp_materialize_from [wps]:
  "inv s0 F P s \<Longrightarrow> Eval (s_acls s0) (absPath (s_cfg s0) v) \<noteq> AccessDeny \<Longrightarrow> (\<And>r s'. inv s0 F P s' \<Longrightarrow> Q r s') \<Longrightarrow>
   wp (materialize_from os v req i) Q s"
  unfolding materialize_from_def by (rule wps | assumption | simp add: permitted_def permits)+

lemma wp_materializeLocal [wps]:
  "inv s0 F P s \<Longrightarrow> Eval (s_acls s0) (absPath (s_cfg s0) v) \<noteq> AccessDeny \<Longrightarrow> (\<And>r s'. inv s0 F P s' \<Longrightarrow> Q r s') \<Longrightarrow>
   wp (materializeLocal os v req) Q s"
  unfolding materializeLocal_def wp_small by (rule wps | assumption | simp add: permitted_def)+

lemma wp_truncate_stub [wps]:
  "inv s0 F P s \<Longrightarrow> rw_node (s_cfg s0) (s_acls s0) host \<Longrightarrow> (\<And>r s'. inv s0 F P s' \<Longrightarrow> Q r s') \<Longrightarrow>
   wp (truncate_stub os host) Q s"
  unfolding truncate_stub_def by (rule wps | assumption | simp add: permitted_def)+

lemma wp_rename_fail [wps]:
  "inv s0 F P s \<Longrightarrow> ac_id w \<in> P \<Longrightarrow> ac_id d \<in> P - {ac_id w} \<Longrightarrow> (\<And>r s'. inv s0 F (P - {ac_id w} - {ac_id d}) s' \<Longrightarrow> Q r s') \<Longrightarrow>
   wp (rename_fail w d e rc) Q s"
  unfolding rename_fail_def by (rule wps | assumption)+

lemma wp_rename_done [wps]:
  "inv s0 F P s \<Longrightarrow> ac_id w \<in> P \<Longrightarrow> ac_id d \<in> P - {ac_id w} \<Longrightarrow> (\<And>r s'. inv s0 F (P - {ac_id w} - {ac_id d}) s' \<Longrightarrow> Q r s') \<Longrightarrow>
   wp (rename_done w d) Q s"
  unfolding rename_done_def by (rule wps | assumption)+

lemma wp_rename_remote [wps]:
  assumes "inv s0 F P s" "ac_id w \<in> P" "ac_id d \<in> P - {ac_id w}"
    "rw_virt (s_cfg s0) (s_acls s0) ov" "rw_virt (s_cfg s0) (s_acls s0) nv"
    "rw_child (s_cfg s0) (s_acls s0) oh" "rw_child (s_cfg s0) (s_acls s0) nh"
    "\<And>r s'. inv s0 F (P - {ac_id w} - {ac_id d}) s' \<Longrightarrow> Q r s'"
  shows "wp (rename_remote os w d b oh nh ov nv) Q s"
  unfolding rename_remote_def
  by (rule wps assms | assumption | simp add: permitted_def assms(4-7))+

lemma rename_nodes_frame:
  "s_cfg (rename_nodes a b s) = s_cfg s \<and> s_acls (rename_nodes a b s) = s_acls s \<and> s_seq (rename_nodes a b s) = s_seq s \<and>
   s_trace (rename_nodes a b s) = s_trace s \<and> s_audit (rename_nodes a b s) = s_audit s"
proof -
  have "s_cfg (fold f xs s) = s_cfg s \<and> s_acls (fold f xs s) = s_acls s \<and> s_seq (fold f xs s) = s_seq s \<and>
        s_trace (fold f xs s) = s_trace s \<and> s_audit (fold f xs s) = s_audit s"
    if f: "\<And>x t. s_cfg (f x t) = s_cfg t \<and> s_acls (f x t) = s_acls t \<and> s_seq (f x t) = s_seq t \<and>
        s_trace (f x t) = s_trace t \<and> s_audit (f x t) = s_audit t"
    for f :: "string \<times> nat \<Rightarrow> 'a Server \<Rightarrow> 'a Server" and xs
    by (induction xs arbitrary: s) (simp_all add: f)
  then show ?thesis unfolding rename_nodes_def by (simp split: option.split prod.split)
qed

section \<open>The handlers\<close>

lemma wp_node_Attr: "inv s0 {} {} s \<Longrightarrow> wp (node_Attr os v) (\<lambda>r. inv s0 {} {}) s"
  unfolding node_Attr_def wp_small by (rule wps | assumption | simp add: permitted_def permits)+

lemma wp_node_Lookup: "inv s0 {} {} s \<Longrightarrow> wp (node_Lookup os v n) (\<lambda>r. inv s0 {} {}) s"
  unfolding node_Lookup_def wp_small by (rule wps | assumption | simp add: permitted_def permits)+

lemma wp_node_Open: "inv s0 {} {} s \<Longrightarrow> wp (node_Open os v req) (\<lambda>r. inv s0 {} {}) s"
  unfolding node_Open_def wp_small by (rule wps | assumption | simp add: permitted_def permits)+

lemma wp_node_Read: "inv s0 {} {} s \<Longrightarrow> wp (node_Read os v off sz) (\<lambda>r. inv s0 {} {}) s"
  unfolding node_Read_def wp_small by (rule wps | assumption | simp add: permitted_def permits)+

lemma wp_node_Write: "inv s0 {} {} s \<Longrightarrow> wp (node_Write os v off d) (\<lambda>r. inv s0 {} {}) s"
  unfolding node_Write_def wp_small by (rule wps | assumption | simp add: permitted_def permits)+

lemma wp_node_Create: "inv s0 {} {} s \<Longrightarrow> wp (node_Create os v n m) (\<lambda>r. inv s0 {} {}) s"
  unfolding node_Create_def wp_small by (rule wps | assumption | simp add: permitted_def permits)+

lemma wp_node_Mkdir: "inv s0 {} {} s \<Longrightarrow> wp (node_Mkdir os v n) (\<lambda>r. inv s0 {} {}) s"
  unfolding node_Mkdir_def wp_small by (rule wps | assumption | simp add: permitted_def permits)+

lemma wp_node_Remove: "inv s0 {} {} s \<Longrightarrow> wp (node_Remove os v n) (\<lambda>r. inv s0 {} {}) s"
  unfolding node_Remove_def wp_small by (rule wps | assumption | simp add: permitted_def permits)+

lemma wp_node_Symlink: "inv s0 {} {} s \<Longrightarrow> wp (node_Symlink os v n t) (\<lambda>r. inv s0 {} {}) s"
  unfolding node_Symlink_def wp_small by (rule wps | assumption | simp add: permitted_def permits)+

lemma wp_node_Readlink: "inv s0 {} {} s \<Longrightarrow> wp (node_Readlink os v) (\<lambda>r. inv s0 {} {}) s"
  unfolding node_Readlink_def wp_small by (rule wps | assumption | simp add: permitted_def permits)+

lemma wp_node_Flush: "inv s0 {} {} s \<Longrightarrow> wp (node_Flush os v) (\<lambda>r. inv s0 {} {}) s"
  unfolding node_Flush_def wp_small by (rule wps | assumption | simp add: permitted_def permits)+

lemma wp_set_mode [wps]:
  "inv s0 {} {} s \<Longrightarrow> (\<And>r s'. inv s0 {} {} s' \<Longrightarrow> Q r s') \<Longrightarrow> wp (set_mode os v m) Q s"
  unfolding set_mode_def wp_small by (rule wps | assumption | simp add: permitted_def permits)+

lemma wp_set_size [wps]:
  "inv s0 {} {} s \<Longrightarrow> (\<And>r s'. inv s0 {} {} s' \<Longrightarrow> Q r s') \<Longrightarrow> wp (set_size os v n) Q s"
  unfolding set_size_def wp_small by (rule wps | assumption | simp add: permitted_def permits)+

lemma wp_node_Setattr: "inv s0 {} {} s \<Longrightarrow> wp (node_Setattr os v m sz) (\<lambda>r. inv s0 {} {}) s"
  unfolding node_Setattr_def by (rule wps wp_node_Attr | assumption)+

lemma wp_node_Rename: "inv s0 {} {} s \<Longrightarrow> wp (node_Rename os v n d m) (\<lambda>r. inv s0 {} {}) s"
  unfolding node_Rename_def wp_small
  by (rule wps | assumption | simp add: permitted_def permits rename_nodes_frame insert_Diff_if)+

definition visible :: "Config \<Rightarrow> ACLs \<Rightarrow> string \<Rightarrow> (string \<times> dtype) list \<Rightarrow> bool" where
  "visible cfg acls v es = list_all (\<lambda>(n, t). Eval acls (childAbs cfg v n) \<noteq> AccessDeny) es"

lemma visible_update:
  "visible cfg acls v es \<Longrightarrow> Eval acls (childAbs cfg v n) \<noteq> AccessDeny \<Longrightarrow> visible cfg acls v (AList.update n t es)"
  by (induction es) (auto simp: visible_def)

lemma visible_seen_local: "visible cfg acls v es \<Longrightarrow> visible cfg acls v (seen_local cfg acls v ns es)"
  unfolding seen_local_def by (induction ns arbitrary: es) (auto simp: visible_update)

lemma wp_gets_acls [wps]: "inv s0 F P s \<Longrightarrow> Q (s_acls s0) s \<Longrightarrow> wp (gets currentACLs) Q s"
  by (simp add: wp_def gets_def inv_def currentACLs_def)

lemma wp_seen_remote [wps]:
  "inv s0 F P s \<Longrightarrow> visible cfg (s_acls s0) v es \<Longrightarrow>
   (\<And>r s'. inv s0 F P s' \<Longrightarrow> visible cfg (s_acls s0) v r \<Longrightarrow> Q r s') \<Longrightarrow> wp (seen_remote os cfg v infos es) Q s"
proof (induction infos arbitrary: s es)
  case (Cons i infos)
  show ?case unfolding seen_remote.simps
    by (rule wps Cons | assumption | simp add: Cons.prems(2) visible_update)+
qed (simp add: wp_ret)

definition listing :: "Config \<Rightarrow> ACLs \<Rightarrow> string \<Rightarrow> errno + (string \<times> dtype) list \<Rightarrow> bool" where
  "listing cfg acls v r = (case r of Inl e \<Rightarrow> True | Inr es \<Rightarrow> visible cfg acls v es)"

lemma listing_simps [simp]: "listing cfg acls v (Inl e)" "listing cfg acls v (Inr es) = visible cfg acls v es"
  by (simp_all add: listing_def)

lemma visible_Nil [simp]: "visible cfg acls v []"
  by (simp add: visible_def)

lemma wp_list_merge [wps]:
  "inv s0 F P s \<Longrightarrow> ac_id ac \<in> P \<Longrightarrow> Eval (s_acls s0) (absPath (s_cfg s0) v) \<noteq> AccessDeny \<Longrightarrow> visible (s_cfg s0) (s_acls s0) v es \<Longrightarrow>
   (\<And>r s'. inv s0 F (P - {ac_id ac}) s' \<Longrightarrow> listing (s_cfg s0) (s_acls s0) v r \<Longrightarrow> Q r s') \<Longrightarrow> wp (list_merge os ac v es) Q s"
  unfolding list_merge_def by (rule wps | assumption | simp add: permitted_def permits visible_seen_local)+

lemma wp_node_ReadDirAll:
  "inv s0 {} {} s \<Longrightarrow> wp (node_ReadDirAll os now v) (\<lambda>r s'. inv s0 {} {} s' \<and> listing (s_cfg s0) (s_acls s0) v r) s"
  unfolding node_ReadDirAll_def wp_small by (rule wps | assumption | simp add: permitted_def)+

section \<open>Requests\<close>

text \<open>The requests the kernel sends, dispatched to the handler of their node.\<close>

datatype fuse_request =
    FAttr string | FLookup string string | FReadDirAll int string | FOpen string open_req | FRead string int nat
  | FWrite string int bytes | FFlush string | FFsync string | FCreate string string nat | FMkdir string string
  | FRemove string string | FRename string string "string option" string | FSymlink string string string
  | FReadlink string | FSetattr string "nat option" "nat option"

definition serve :: "'w env \<Rightarrow> fuse_request \<Rightarrow> 'w Server \<Rightarrow> 'w Server" where
  "serve os q s = (case q of
      FAttr v \<Rightarrow> snd (run_state (node_Attr os v) s)
    | FLookup v n \<Rightarrow> snd (run_state (node_Lookup os v n) s)
    | FReadDirAll now v \<Rightarrow> snd (run_state (node_ReadDirAll os now v) s)
    | FOpen v r \<Rightarrow> snd (run_state (node_Open os v r) s)
    | FRead v off n \<Rightarrow> snd (run_state (node_Read os v off n) s)
    | FWrite v off d \<Rightarrow> snd (run_state (node_Write os v off d) s)
    | FFlush v \<Rightarrow> snd (run_state (node_Flush os v) s)
    | FFsync v \<Rightarrow> snd (run_state (node_Fsync os v) s)
    | FCreate v n m \<Rightarrow> snd (run_state (node_Create os v n m) s)
    | FMkdir v n \<Rightarrow> snd (run_state (node_Mkdir os v n) s)
    | FRemove v n \<Rightarrow> snd (run_state (node_Remove os v n) s)
    | FRename v n d m \<Rightarrow> snd (run_state (node_Rename os v n d m) s)
    | FSymlink v n t \<Rightarrow> snd (run_state (node_Symlink os v n t) s)
    | FReadlink v \<Rightarrow> snd (run_state (node_Readlink os v) s)
    | FSetattr v m n \<Rightarrow> snd (run_state (node_Setattr os v m n) s))"

lemma wp_snd: "wp m (\<lambda>r. G) s \<Longrightarrow> G (snd (run_state m s))"
  by (simp add: wp_def split: prod.splits)

lemma wp_node_Fsync: "inv s0 {} {} s \<Longrightarrow> wp (node_Fsync os v) (\<lambda>r. inv s0 {} {}) s"
  by (simp add: node_Fsync_def wp_ret)

lemma wp_ReadDirAll_inv: "inv s0 {} {} s \<Longrightarrow> wp (node_ReadDirAll os now v) (\<lambda>r. inv s0 {} {}) s"
  by (rule wp_mono, erule wp_node_ReadDirAll, erule conjunct1)

lemmas wp_handlers =
  wp_node_Attr wp_node_Lookup wp_ReadDirAll_inv wp_node_Open wp_node_Read wp_node_Write
  wp_node_Flush wp_node_Fsync wp_node_Create wp_node_Mkdir wp_node_Remove wp_node_Rename wp_node_Symlink
  wp_node_Readlink wp_node_Setattr

lemma serve_inv: "inv s {} {} (serve os q s)"
  unfolding serve_def
  by (cases q; simp; rule wp_snd [where G = "inv s {} {}"]; rule wp_handlers; rule inv_start)



text \<open>
  A directory listing never shows a name the rules deny, whether the entry comes from
  the cached listing, the remote store or the local copy.
\<close>

theorem listing_hides_denied:
  "case run_state (node_ReadDirAll os now v) s of
     (Inl e, _) \<Rightarrow> True
   | (Inr es, _) \<Rightarrow> list_all (\<lambda>(n, t). Eval (currentACLs s) (childAbs (s_cfg s) v n) \<noteq> AccessDeny) es"
  using wp_node_ReadDirAll [OF inv_start, of os now v s]
  by (auto simp: wp_def listing_def visible_def currentACLs_def split: prod.splits sum.splits)

lemma path_Join_rooted:
  assumes "HasPrefix b ''/''" "\<forall>s \<in> set segs. real_seg s"
  shows "path_Join b (abs_path segs) = abs_path (clean_segs True (Split slash b) @ segs)"
proof -
  obtain d where d: "b = slash # d" using assms(1) by (auto simp: HasPrefix_def prefix_def)
  show ?thesis
    using path_Clean_append_slash [OF assms(2), of d] by (simp add: path_Join_def d abs_path_def [of segs])
qed

text \<open>
  C30: no virtual path leaves the backend.  With an absolute backend directory the host
  path of any virtual path, dot-dot elements included, is the backend directory followed
  by ordinary path elements; and for the cleaned rooted paths that nodes have, the path
  the access rules are asked about is the mount point followed by the same elements.
\<close>

theorem hostPath_confined:
  assumes "HasPrefix (Backend cfg) ''/''" "HasPrefix (MountPoint cfg) ''/''"
  shows "\<exists>bs ms segs. list_all real_seg (bs @ ms @ segs) \<and>
     path_Clean (Backend cfg) = abs_path bs \<and> path_Clean (MountPoint cfg) = abs_path ms \<and>
     hostPath cfg vp = abs_path (bs @ segs) \<and>
     (vp = path_Clean vp \<and> HasPrefix vp ''/'' \<longrightarrow> vp = abs_path segs \<and> absPath cfg vp = abs_path (ms @ segs))"
proof -
  obtain b m where bm: "Backend cfg = slash # b" "MountPoint cfg = slash # m"
    using assms by (auto simp: HasPrefix_def prefix_def)
  let ?bs = "clean_segs True (Split slash b)" and ?ms = "clean_segs True (Split slash m)"
  obtain segs where s: "path_Clean (slash # path_Clean vp) = abs_path segs" "\<forall>x \<in> set segs. real_seg x"
    using path_Clean_rooted_ex by blast
  have "vp = abs_path segs \<and> absPath cfg vp = abs_path (?ms @ segs)" if v: "vp = path_Clean vp" "HasPrefix vp ''/''"
  proof -
    obtain u where u: "vp = slash # u" using v(2) by (auto simp: HasPrefix_def prefix_def)
    have "path_Clean (slash # vp) = path_Clean vp" by (simp add: u path_Clean_rooted)
    then have "vp = abs_path segs" using s(1) v(1) by simp
    then show ?thesis
      using path_Clean_append_slash [OF s(2), of m] by (simp add: absPath_def bm)
  qed
  moreover have "hostPath cfg vp = abs_path (?bs @ segs)"
    using path_Join_rooted [OF assms(1) s(2)] s(1) by (simp add: hostPath_def bm)
  moreover have "list_all real_seg (?bs @ ?ms @ segs)"
    using s(2) clean_segs_real by (auto simp: list_all_iff)
  ultimately show ?thesis
    apply -
    apply (rule exI [of _ ?bs], rule exI [of _ ?ms], rule exI [of _ segs])
    apply (simp add: path_Clean_rooted bm)
    done
qed

definition demo_cfg :: Config where
  "demo_cfg = \<lparr>MountPoint = ''/workspace'', Backend = ''/var/b'', hasRemote = True, hasOplog = True, Async = False\<rparr>"

theorem hostPath_confined_witness:
  "\<exists>bs ms segs. list_all real_seg (bs @ ms @ segs) \<and>
     path_Clean (Backend demo_cfg) = abs_path bs \<and> path_Clean (MountPoint demo_cfg) = abs_path ms \<and>
     hostPath demo_cfg ''/../etc'' = abs_path (bs @ segs) \<and>
     (''/../etc'' = path_Clean ''/../etc'' \<and> HasPrefix ''/../etc'' ''/'' \<longrightarrow>
        ''/../etc'' = abs_path segs \<and> absPath demo_cfg ''/../etc'' = abs_path (ms @ segs))"
  by (rule hostPath_confined) (simp_all add: demo_cfg_def HasPrefix_def)

end
