(* ===== verification/Nine.thy ===== *)
theory Nine
  imports Bytes "HOL-Library.AList"
begin

text \<open>
  The in-guest 9p2000.L reconnect proxy (\<^verbatim>\<open>internal/nineproxy\<close>): the tracking of the session
  from the proxied stream (\<^verbatim>\<open>session.go\<close>), its replay onto a fresh server connection and the
  re-delivery of unanswered requests (\<^verbatim>\<open>replay.go\<close>).  The 9p server is a parameter: a
  function from a written message to the bytes that become readable.
\<close>

section \<open>Little-endian fields\<close>

definition AppendUint16 :: "16 word \<Rightarrow> byte list" where
  "AppendUint16 v = [ucast v, ucast (drop_bit 8 v)]"

definition LeUint16 :: "byte list \<Rightarrow> 16 word" where
  "LeUint16 b = ucast (b ! 0) OR push_bit 8 (ucast (b ! 1))"

definition AppendUint32 :: "32 word \<Rightarrow> byte list" where
  "AppendUint32 v = [ucast v, ucast (drop_bit 8 v), ucast (drop_bit 16 v), ucast (drop_bit 24 v)]"

definition LeUint32 :: "byte list \<Rightarrow> 32 word" where
  "LeUint32 b = ucast (b ! 0) OR push_bit 8 (ucast (b ! 1)) OR push_bit 16 (ucast (b ! 2)) OR push_bit 24 (ucast (b ! 3))"

lemma AppendUint_rev: "AppendUint16 v = rev (PutUint16 v)" "AppendUint32 w = rev (PutUint32 w)"
  by (simp_all add: AppendUint16_def PutUint16_def AppendUint32_def PutUint32_def)

lemma length_AppendUint [simp]: "length (AppendUint16 v) = 2" "length (AppendUint32 w) = 4"
  by (simp_all add: AppendUint_rev)

lemma LeUint16_Append [simp]: "LeUint16 (AppendUint16 v @ r) = v"
  using Uint16_PutUint16 [of v]
  by (simp add: LeUint16_def Uint16_def AppendUint16_def PutUint16_def)

lemma LeUint32_Append [simp]: "LeUint32 (AppendUint32 v @ r) = v"
  using Uint32_PutUint32 [of v]
  by (simp add: LeUint32_def Uint32_def AppendUint32_def PutUint32_def ac_simps)

section \<open>Messages\<close>

definition tRlerror :: byte where "tRlerror = 7"
definition tTlopen :: byte where "tTlopen = 12"
definition tRlopen :: byte where "tRlopen = 13"
definition tTlcreate :: byte where "tTlcreate = 14"
definition tTxattrwalk :: byte where "tTxattrwalk = 30"
definition tTversion :: byte where "tTversion = 100"
definition tRversion :: byte where "tRversion = 101"
definition tTattach :: byte where "tTattach = 104"
definition tRattach :: byte where "tRattach = 105"
definition tTflush :: byte where "tTflush = 108"
definition tTwalk :: byte where "tTwalk = 110"
definition tRwalk :: byte where "tRwalk = 111"
definition tTclunk :: byte where "tTclunk = 120"
definition tRclunk :: byte where "tRclunk = 121"
definition tTremove :: byte where "tTremove = 122"

definition maxWElem :: nat where "maxWElem = 16"
definition headerLen :: nat where "headerLen = 7"
definition tempFidBase :: "32 word" where "tempFidBase = 0xFFFF0000"
definition defaultMsize :: "32 word" where "defaultMsize = 262144"

type_synonym name9 = "byte list"

text \<open>The version string 9p2000.L.\<close>

definition versionString :: name9 where
  "versionString = [57, 112, 50, 48, 48, 48, 46, 76]"

definition msgType :: "byte list \<Rightarrow> byte" where "msgType m = m ! 4"
definition msgTag :: "byte list \<Rightarrow> 16 word" where "msgTag m = LeUint16 (drop 5 m)"
definition msgBody :: "byte list \<Rightarrow> byte list" where "msgBody m = drop headerLen m"

text \<open>The \<^verbatim>\<open>cursor\<close> reads fields in order; once it has run off the end every field is zero.\<close>

record cursor =
  cu_b :: "byte list"
  cu_off :: nat
  cu_err :: bool

definition cursor_of :: "byte list \<Rightarrow> cursor" where
  "cursor_of b = \<lparr>cu_b = b, cu_off = 0, cu_err = False\<rparr>"

definition cu_u16 :: "cursor \<Rightarrow> 16 word \<times> cursor" where
  "cu_u16 c = (if cu_err c \<or> cu_off c + 2 > length (cu_b c) then (0, c\<lparr>cu_err := True\<rparr>)
     else (LeUint16 (drop (cu_off c) (cu_b c)), c\<lparr>cu_off := cu_off c + 2\<rparr>))"

definition cu_u32 :: "cursor \<Rightarrow> 32 word \<times> cursor" where
  "cu_u32 c = (if cu_err c \<or> cu_off c + 4 > length (cu_b c) then (0, c\<lparr>cu_err := True\<rparr>)
     else (LeUint32 (drop (cu_off c) (cu_b c)), c\<lparr>cu_off := cu_off c + 4\<rparr>))"

definition cu_str :: "cursor \<Rightarrow> name9 \<times> cursor" where
  "cu_str c0 = (case cu_u16 c0 of (n, c) \<Rightarrow>
     if cu_err c \<or> cu_off c + unat n > length (cu_b c) then ([], c\<lparr>cu_err := True\<rparr>)
     else (take (unat n) (drop (cu_off c) (cu_b c)), c\<lparr>cu_off := cu_off c + unat n\<rparr>))"

fun cu_strs :: "nat \<Rightarrow> cursor \<Rightarrow> name9 list \<times> cursor" where
  "cu_strs 0 c = ([], c)"
| "cu_strs (Suc n) c = (case cu_str c of (x, c1) \<Rightarrow> case cu_strs n c1 of (xs, c2) \<Rightarrow> (x # xs, c2))"

text \<open>The \<^verbatim>\<open>builder\<close>'s string field, and \<^verbatim>\<open>frame\<close>: size, type, tag, body.\<close>

definition put_str :: "name9 \<Rightarrow> byte list" where
  "put_str s = AppendUint16 (of_nat (length s)) @ s"

definition msg_frame :: "byte \<Rightarrow> 16 word \<Rightarrow> byte list \<Rightarrow> byte list" where
  "msg_frame typ tag body = AppendUint32 (of_nat (headerLen + length body)) @ typ # AppendUint16 tag @ body"

text \<open>The bodies the session builds and parses.\<close>

definition version_body :: "32 word \<Rightarrow> name9 \<Rightarrow> byte list" where
  "version_body ms v = AppendUint32 ms @ put_str v"

definition attach_body :: "32 word \<Rightarrow> 32 word \<Rightarrow> name9 \<Rightarrow> name9 \<Rightarrow> 32 word \<Rightarrow> byte list" where
  "attach_body fid afid uname aname n = AppendUint32 fid @ AppendUint32 afid @ put_str uname @ put_str aname @ AppendUint32 n"

definition walk_body :: "32 word \<Rightarrow> 32 word \<Rightarrow> name9 list \<Rightarrow> byte list" where
  "walk_body fid newfid names = AppendUint32 fid @ AppendUint32 newfid @ AppendUint16 (of_nat (length names)) @ concat (map put_str names)"

definition lopen_body :: "32 word \<Rightarrow> 32 word \<Rightarrow> byte list" where
  "lopen_body fid flags = AppendUint32 fid @ AppendUint32 flags"

definition clunk_body :: "32 word \<Rightarrow> byte list" where
  "clunk_body fid = AppendUint32 fid"

section \<open>Reading fields back\<close>

definition at :: "byte list \<Rightarrow> byte list \<Rightarrow> cursor" where
  "at done todo = \<lparr>cu_b = done @ todo, cu_off = length done, cu_err = False\<rparr>"

lemma cursor_of_at: "cursor_of b = at [] b"
  by (simp add: cursor_of_def at_def)

lemma cu_u16_at [simp]: "cu_u16 (at d (AppendUint16 v @ r)) = (v, at (d @ AppendUint16 v) r)"
  by (simp add: cu_u16_def at_def)

lemma cu_u32_at [simp]: "cu_u32 (at d (AppendUint32 v @ r)) = (v, at (d @ AppendUint32 v) r)"
  by (simp add: cu_u32_def at_def)

lemma cu_u16_end [simp]: "cu_u16 (at d (AppendUint16 v)) = (v, at (d @ AppendUint16 v) [])"
  using cu_u16_at [of d v "[]"] by simp

lemma cu_u32_end [simp]: "cu_u32 (at d (AppendUint32 v)) = (v, at (d @ AppendUint32 v) [])"
  using cu_u32_at [of d v "[]"] by simp

text \<open>A string field holds at most 65535 bytes.\<close>

definition str_fits :: "name9 \<Rightarrow> bool" where
  "str_fits s \<longleftrightarrow> length s < 65536"

lemma unat_len16: "n < 65536 \<Longrightarrow> unat (of_nat n :: 16 word) = n"
  by (rule unat_of_nat_small) simp

lemma cu_str_at [simp]: "str_fits s \<Longrightarrow> cu_str (at d (put_str s @ r)) = (s, at (d @ put_str s) r)"
  unfolding cu_str_def put_str_def str_fits_def
  by (simp add: unat_len16) (simp add: at_def)

lemma cu_str_end [simp]: "str_fits s \<Longrightarrow> cu_str (at d (put_str s)) = (s, at (d @ put_str s) [])"
  using cu_str_at [of s d "[]"] by simp

lemma cu_strs_at: "list_all str_fits ss \<Longrightarrow>
  cu_strs (length ss) (at d (concat (map put_str ss) @ r)) = (ss, at (d @ concat (map put_str ss)) r)"
  by (induction ss arbitrary: d) simp_all

lemma frame_fields [simp]:
  "msgType (msg_frame t tag b) = t" "msgTag (msg_frame t tag b) = tag" "msgBody (msg_frame t tag b) = b"
  "length (msg_frame t tag b) = headerLen + length b"
proof -
  have c: "msg_frame t tag b = AppendUint32 (of_nat (headerLen + length b)) @ [t] @ AppendUint16 tag @ b"
    by (simp add: msg_frame_def)
  show "msgType (msg_frame t tag b) = t" unfolding msgType_def c by (simp add: nth_append)
  show "msgTag (msg_frame t tag b) = tag" unfolding msgTag_def c by (simp add: nth_append)
  show "msgBody (msg_frame t tag b) = b" unfolding msgBody_def c by (simp add: headerLen_def)
  show "length (msg_frame t tag b) = headerLen + length b" unfolding c by (simp add: headerLen_def)
qed

section \<open>The session\<close>

record fidState =
  f_names :: "name9 list"
  f_root :: bool
  f_open :: bool
  f_flags :: "32 word"

record pending_req =
  pr_typ :: byte
  pr_fid :: "32 word"
  pr_newfid :: "32 word"
  pr_names :: "name9 list"
  pr_flags :: "32 word"
  pr_name :: name9
  pr_afid :: "32 word"
  pr_uname :: name9
  pr_aname :: name9
  pr_nUname :: "32 word"
  pr_msize :: "32 word"
  pr_version :: name9
  pr_oldtag :: "16 word"

definition zero_req :: pending_req where
  "zero_req = \<lparr>pr_typ = 0, pr_fid = 0, pr_newfid = 0, pr_names = [], pr_flags = 0, pr_name = [], pr_afid = 0,
     pr_uname = [], pr_aname = [], pr_nUname = 0, pr_msize = 0, pr_version = [], pr_oldtag = 0\<rparr>"

text \<open>The send-order sequence number is a 64-bit counter in the code; a session of that many
  requests is out of reach, so it is a natural number here.\<close>

record Session =
  n_msize :: "32 word"
  n_version :: name9
  rootFid :: "32 word"
  n_afid :: "32 word"
  n_uname :: name9
  n_aname :: name9
  n_nUname :: "32 word"
  haveAttach :: bool
  fids :: "(32 word \<times> fidState) list"
  pendings :: "(16 word \<times> pending_req) list"
  outstanding :: "(16 word \<times> (nat \<times> byte list)) list"
  outSeq :: nat

definition NewSession :: Session where
  "NewSession = \<lparr>n_msize = defaultMsize, n_version = versionString, rootFid = 0, n_afid = 0, n_uname = [], n_aname = [],
     n_nUname = 0, haveAttach = False, fids = [], pendings = [], outstanding = [], outSeq = 0\<rparr>"

text \<open>What \<^verbatim>\<open>ObserveClient\<close> records for a request, \<open>None\<close> for the types passed through.\<close>

definition parse_req :: "byte list \<Rightarrow> pending_req option" where
  "parse_req m = (let c = cursor_of (msgBody m); t = msgType m in
     if t = tTversion then
       (case cu_u32 c of (ms, c1) \<Rightarrow> case cu_str c1 of (ver, c2) \<Rightarrow>
          Some (zero_req\<lparr>pr_typ := tTversion, pr_msize := ms, pr_version := ver\<rparr>))
     else if t = tTattach then
       (case cu_u32 c of (fid, c1) \<Rightarrow> case cu_u32 c1 of (afid, c2) \<Rightarrow> case cu_str c2 of (uname, c3) \<Rightarrow>
        case cu_str c3 of (aname, c4) \<Rightarrow> case cu_u32 c4 of (nUname, c5) \<Rightarrow>
          Some (zero_req\<lparr>pr_typ := tTattach, pr_fid := fid, pr_afid := afid, pr_uname := uname, pr_aname := aname, pr_nUname := nUname\<rparr>))
     else if t = tTwalk then
       (case cu_u32 c of (fid, c1) \<Rightarrow> case cu_u32 c1 of (newfid, c2) \<Rightarrow> case cu_u16 c2 of (nw, c3) \<Rightarrow>
        case cu_strs (unat nw) c3 of (names, c4) \<Rightarrow>
          Some (zero_req\<lparr>pr_typ := tTwalk, pr_fid := fid, pr_newfid := newfid, pr_names := names\<rparr>))
     else if t = tTlopen then
       (case cu_u32 c of (fid, c1) \<Rightarrow> case cu_u32 c1 of (flags, c2) \<Rightarrow>
          Some (zero_req\<lparr>pr_typ := tTlopen, pr_fid := fid, pr_flags := flags\<rparr>))
     else if t = tTlcreate then
       (case cu_u32 c of (fid, c1) \<Rightarrow> case cu_str c1 of (name, c2) \<Rightarrow> case cu_u32 c2 of (flags, c3) \<Rightarrow>
          Some (zero_req\<lparr>pr_typ := tTlcreate, pr_fid := fid, pr_name := name, pr_flags := flags\<rparr>))
     else if t = tTclunk then
       (case cu_u32 c of (fid, c1) \<Rightarrow> Some (zero_req\<lparr>pr_typ := tTclunk, pr_fid := fid\<rparr>))
     else if t = tTremove then
       (case cu_u32 c of (fid, c1) \<Rightarrow> Some (zero_req\<lparr>pr_typ := tTremove, pr_fid := fid\<rparr>))
     else if t = tTflush then
       (case cu_u16 c of (oldtag, c1) \<Rightarrow> Some (zero_req\<lparr>pr_typ := tTflush, pr_oldtag := oldtag\<rparr>))
     else None)"

definition ObserveClient :: "byte list \<Rightarrow> Session \<Rightarrow> Session" where
  "ObserveClient m s =
     (if length m < headerLen then s
      else let tag = msgTag m;
               s1 = s\<lparr>outSeq := outSeq s + 1, outstanding := AList.update tag (outSeq s + 1, m) (outstanding s)\<rparr>
           in case parse_req m of
                Some p \<Rightarrow> s1\<lparr>pendings := AList.update tag p (pendings s1)\<rparr>
              | None \<Rightarrow> s1)"

text \<open>The effect of a successful reply on the tracked session.\<close>

definition commit :: "pending_req \<Rightarrow> byte list \<Rightarrow> Session \<Rightarrow> Session" where
  "commit p m s =
     (if pr_typ p = tTversion then
        s\<lparr>n_msize := pr_msize p, n_version := (if pr_version p \<noteq> [] then pr_version p else n_version s)\<rparr>
      else if pr_typ p = tTattach then
        s\<lparr>rootFid := pr_fid p, n_afid := pr_afid p, n_uname := pr_uname p, n_aname := pr_aname p, n_nUname := pr_nUname p,
          haveAttach := True,
          fids := AList.update (pr_fid p) \<lparr>f_names = [], f_root = True, f_open = False, f_flags = 0\<rparr> (fids s)\<rparr>
      else if pr_typ p = tTwalk then
        (if unat (fst (cu_u16 (cursor_of (msgBody m)))) \<noteq> length (pr_names p) then s
         else case map_of (fids s) (pr_fid p) of
                None \<Rightarrow> s
              | Some base \<Rightarrow>
                  s\<lparr>fids := AList.update (pr_newfid p)
                      \<lparr>f_names = f_names base @ pr_names p, f_root = False, f_open = False, f_flags = 0\<rparr> (fids s)\<rparr>)
      else if pr_typ p = tTlopen then
        (case map_of (fids s) (pr_fid p) of
           None \<Rightarrow> s
         | Some f \<Rightarrow> s\<lparr>fids := AList.update (pr_fid p) (f\<lparr>f_open := True, f_flags := pr_flags p\<rparr>) (fids s)\<rparr>)
      else if pr_typ p = tTlcreate then
        (case map_of (fids s) (pr_fid p) of
           None \<Rightarrow> s
         | Some f \<Rightarrow> s\<lparr>fids := AList.update (pr_fid p)
             (f\<lparr>f_names := f_names f @ [pr_name p], f_open := True, f_flags := pr_flags p\<rparr>) (fids s)\<rparr>)
      else if pr_typ p = tTclunk then s\<lparr>fids := AList.delete (pr_fid p) (fids s)\<rparr>
      else s)"

definition ObserveServer :: "byte list \<Rightarrow> Session \<Rightarrow> Session" where
  "ObserveServer m s =
     (if length m < headerLen then s
      else let tag = msgTag m;
               s1 = s\<lparr>outstanding := AList.delete tag (outstanding s)\<rparr>
           in case map_of (pendings s) tag of
                None \<Rightarrow> s1
              | Some p \<Rightarrow>
                  let s2 = s1\<lparr>pendings := AList.delete tag (pendings s1)\<rparr> in
                  if pr_typ p = tTremove then s2\<lparr>fids := AList.delete (pr_fid p) (fids s2)\<rparr>
                  else if pr_typ p = tTflush then
                    s2\<lparr>outstanding := AList.delete (pr_oldtag p) (outstanding s2),
                       pendings := AList.delete (pr_oldtag p) (pendings s2)\<rparr>
                  else if msgType m = tRlerror then
                    (if pr_typ p = tTclunk then s2\<lparr>fids := AList.delete (pr_fid p) (fids s2)\<rparr> else s2)
                  else commit p m s2)"

section \<open>The tracker reads what the replay writes\<close>

lemmas request_types =
  tTversion_def tTattach_def tTwalk_def tTlopen_def tTlcreate_def tTclunk_def tTremove_def tTflush_def

lemma parse_version:
  "str_fits v \<Longrightarrow> parse_req (msg_frame tTversion tag (version_body ms v)) = Some (zero_req\<lparr>pr_typ := tTversion, pr_msize := ms, pr_version := v\<rparr>)"
  by (simp add: parse_req_def cursor_of_at version_body_def)

lemma parse_attach:
  "str_fits un \<Longrightarrow> str_fits an \<Longrightarrow> parse_req (msg_frame tTattach tag (attach_body fid afid un an n)) =
   Some (zero_req\<lparr>pr_typ := tTattach, pr_fid := fid, pr_afid := afid, pr_uname := un, pr_aname := an, pr_nUname := n\<rparr>)"
  by (simp add: parse_req_def cursor_of_at attach_body_def request_types)

lemma parse_walk:
  assumes "list_all str_fits names" "length names < 65536"
  shows "parse_req (msg_frame tTwalk tag (walk_body fid newfid names)) =
   Some (zero_req\<lparr>pr_typ := tTwalk, pr_fid := fid, pr_newfid := newfid, pr_names := names\<rparr>)"
  using cu_strs_at [OF assms(1), where r = "[]"] assms(2)
  by (simp add: parse_req_def cursor_of_at walk_body_def request_types unat_len16)

lemma parse_lopen:
  "parse_req (msg_frame tTlopen tag (lopen_body fid flags)) = Some (zero_req\<lparr>pr_typ := tTlopen, pr_fid := fid, pr_flags := flags\<rparr>)"
  by (simp add: parse_req_def cursor_of_at lopen_body_def request_types)

lemma parse_clunk:
  "parse_req (msg_frame tTclunk tag (clunk_body fid)) = Some (zero_req\<lparr>pr_typ := tTclunk, pr_fid := fid\<rparr>)"
  by (simp add: parse_req_def cursor_of_at clunk_body_def request_types)

section \<open>Replay\<close>

datatype nine_error =
    NIO io_error | NBadSize nat | NRlerror "32 word" | NUnexpected byte byte | NNotAttached | NPartial nat nat | NPanic
  | NVersion nine_error | NAttach nine_error | NWalk "32 word" nine_error | NLopen "32 word" nine_error
  | NResend "16 word" io_error

definition oCreat :: "32 word" where "oCreat = 0x40"
definition oExcl :: "32 word" where "oExcl = 0x80"
definition oTrunc :: "32 word" where "oTrunc = 0x200"
definition notag :: "16 word" where "notag = 0xFFFF"

definition ReadMsg :: "byte list \<Rightarrow> (nine_error + byte list) \<times> byte list" where
  "ReadMsg r = (case ReadFull r 4 of
      (Inl e, r1) \<Rightarrow> (Inl (NIO e), r1)
    | (Inr sz, r1) \<Rightarrow>
        let n = unat (LeUint32 sz) in
        if n < headerLen \<or> n > 16777216 then (Inl (NBadSize n), r1)
        else (case ReadFull r1 (n - 4) of
                (Inl e, r2) \<Rightarrow> (Inl (NIO e), r2)
              | (Inr body, r2) \<Rightarrow> (Inr (sz @ body), r2)))"

text \<open>A connection: the server behind it and the bytes it has sent that are not read yet.
  Writing a message hands it to the server, which may refuse it.\<close>

type_synonym 's server = "byte list \<Rightarrow> 's \<Rightarrow> byte list option \<times> 's"

record 's conn =
  cn_srv :: 's
  cn_in :: "byte list"

definition conn_Write :: "'s server \<Rightarrow> byte list \<Rightarrow> 's conn \<Rightarrow> io_error option \<times> 's conn" where
  "conn_Write srv m c = (case srv m (cn_srv c) of
      (None, st) \<Rightarrow> (Some WriteFailed, c\<lparr>cn_srv := st\<rparr>)
    | (Some out, st) \<Rightarrow> (None, c\<lparr>cn_srv := st, cn_in := cn_in c @ out\<rparr>))"

definition roundTrip :: "'s server \<Rightarrow> byte list \<Rightarrow> byte \<Rightarrow> 's conn \<Rightarrow> (nine_error + byte list) \<times> 's conn" where
  "roundTrip srv req want c = (case conn_Write srv req c of
      (Some e, c1) \<Rightarrow> (Inl (NIO e), c1)
    | (None, c1) \<Rightarrow>
        (case ReadMsg (cn_in c1) of
           (Inl e, r) \<Rightarrow> (Inl e, c1\<lparr>cn_in := r\<rparr>)
         | (Inr resp, r) \<Rightarrow>
             let c2 = c1\<lparr>cn_in := r\<rparr> in
             if msgType resp = tRlerror then (Inl (NRlerror (fst (cu_u32 (cursor_of (msgBody resp))))), c2)
             else if msgType resp \<noteq> want then (Inl (NUnexpected (msgType resp) want), c2)
             else (Inr resp, c2)))"

text \<open>The chunks of \<^verbatim>\<open>replayWalk\<close>: up to sixteen names at a time, through temporary fids.\<close>

function walk_chunks :: "'s server \<Rightarrow> 32 word \<Rightarrow> 32 word \<Rightarrow> 32 word \<Rightarrow> 32 word \<Rightarrow> name9 list \<Rightarrow> 's conn
    \<Rightarrow> nine_error option \<times> 's conn" where
  "walk_chunks srv root target src tmp names c =
     (if names = [] then (None, c)
      else let chunk = take maxWElem names;
               dst = (if length names \<le> maxWElem then target else tmp)
           in case roundTrip srv (msg_frame tTwalk 0 (walk_body src dst chunk)) tRwalk c of
                (Inl e, c1) \<Rightarrow> (Some e, c1)
              | (Inr resp, c1) \<Rightarrow>
                  if length (msgBody resp) < 2 then (Some NPanic, c1)
                  else let got = unat (LeUint16 (msgBody resp)) in
                    if got \<noteq> length chunk then (Some (NPartial got (length chunk)), c1)
                    else let c2 = (if src \<noteq> root \<and> src \<noteq> target
                                   then snd (roundTrip srv (msg_frame tTclunk 0 (clunk_body src)) tRclunk c1) else c1)
                         in walk_chunks srv root target dst (tmp + 1) (drop maxWElem names) c2)"
  by pat_completeness auto
termination
  by (relation "measure (\<lambda>(srv, root, target, src, tmp, names, c). length names)") (auto simp: maxWElem_def)

declare walk_chunks.simps [simp del]

definition replayWalk :: "'s server \<Rightarrow> Session \<Rightarrow> 32 word \<Rightarrow> name9 list \<Rightarrow> 's conn \<Rightarrow> nine_error option \<times> 's conn" where
  "replayWalk srv s target names c =
     (if names = [] then
        (case roundTrip srv (msg_frame tTwalk 0 (walk_body (rootFid s) target [])) tRwalk c of
           (Inl e, c1) \<Rightarrow> (Some e, c1)
         | (Inr resp, c1) \<Rightarrow> (None, c1))
      else walk_chunks srv (rootFid s) target (rootFid s) tempFidBase names c)"

definition sortedFids :: "(32 word \<times> fidState) list \<Rightarrow> 32 word list" where
  "sortedFids m = sort (map fst m)"

fun replay_walks :: "'s server \<Rightarrow> Session \<Rightarrow> 32 word list \<Rightarrow> 's conn \<Rightarrow> nine_error option \<times> 's conn" where
  "replay_walks srv s [] c = (None, c)"
| "replay_walks srv s (fid # ns) c =
     (case replayWalk srv s fid (f_names (the (map_of (fids s) fid))) c of
        (Some e, c1) \<Rightarrow> (Some (NWalk fid e), c1)
      | (None, c1) \<Rightarrow> replay_walks srv s ns c1)"

definition reopen_flags :: "32 word \<Rightarrow> 32 word" where
  "reopen_flags fl = fl AND NOT (oCreat OR oExcl OR oTrunc)"

fun replay_opens :: "'s server \<Rightarrow> Session \<Rightarrow> 32 word list \<Rightarrow> 's conn \<Rightarrow> nine_error option \<times> 's conn" where
  "replay_opens srv s [] c = (None, c)"
| "replay_opens srv s (fid # ns) c =
     (let st = the (map_of (fids s) fid) in
      if \<not> f_open st then replay_opens srv s ns c
      else case roundTrip srv (msg_frame tTlopen 0 (lopen_body fid (reopen_flags (f_flags st)))) tRlopen c of
             (Inl e, c1) \<Rightarrow> (Some (NLopen fid e), c1)
           | (Inr resp, c1) \<Rightarrow> replay_opens srv s ns c1)"

definition Replay :: "'s server \<Rightarrow> Session \<Rightarrow> 's conn \<Rightarrow> nine_error option \<times> 's conn" where
  "Replay srv s c =
     (if \<not> haveAttach s then (Some NNotAttached, c)
      else case roundTrip srv (msg_frame tTversion notag (version_body (n_msize s) (n_version s))) tRversion c of
             (Inl e, c1) \<Rightarrow> (Some (NVersion e), c1)
           | (Inr r1, c1) \<Rightarrow>
        (case roundTrip srv (msg_frame tTattach 0 (attach_body (rootFid s) (n_afid s) (n_uname s) (n_aname s) (n_nUname s))) tRattach c1 of
             (Inl e, c2) \<Rightarrow> (Some (NAttach e), c2)
           | (Inr r2, c2) \<Rightarrow>
        (case replay_walks srv s (sort (map fst (filter (\<lambda>(fid, st). \<not> f_root st) (fids s)))) c2 of
             (Some e, c3) \<Rightarrow> (Some e, c3)
           | (None, c3) \<Rightarrow> replay_opens srv s (sortedFids (fids s)) c3)))"

section \<open>Re-delivery\<close>

definition send_order :: "(16 word \<times> (nat \<times> byte list)) list \<Rightarrow> (16 word \<times> (nat \<times> byte list)) list" where
  "send_order os = sort_key (\<lambda>(tag, q, raw). q) os"

fun resend :: "'s server \<Rightarrow> (16 word \<times> (nat \<times> byte list)) list \<Rightarrow> 's conn \<Rightarrow> nine_error option \<times> 's conn" where
  "resend srv [] c = (None, c)"
| "resend srv ((tag, q, raw) # os) c =
     (case conn_Write srv raw c of
        (Some e, c1) \<Rightarrow> (Some (NResend tag e), c1)
      | (None, c1) \<Rightarrow> resend srv os c1)"

definition ResendOutstanding :: "'s server \<Rightarrow> Session \<Rightarrow> 's conn \<Rightarrow> nine_error option \<times> 's conn" where
  "ResendOutstanding srv s c = resend srv (send_order (outstanding s)) c"

end
