(* ===== verification/Nine_Replay.thy ===== *)
theory Nine_Replay
  imports Nine
begin

text \<open>
  Replaying a tracked 9p session rebuilds it: against a server that keeps the protocol, the
  fid table after \<open>Replay\<close> is the table the session recorded.  The server is described by
  the fid table it keeps and the paths it has; \<open>nine_server\<close> states what the protocol
  documents of the five requests the replay sends.
\<close>

section \<open>The server's contract\<close>

type_synonym fidtab = "32 word \<rightharpoonup> (name9 list \<times> 32 word option)"

definition answers :: "'s server \<Rightarrow> byte list \<Rightarrow> 's \<Rightarrow> byte \<Rightarrow> (byte list \<Rightarrow> bool) \<Rightarrow> ('s \<Rightarrow> bool) \<Rightarrow> bool" where
  "answers srv req st typ B G \<longleftrightarrow> (\<exists>tag body st'. srv req st = (Some (msg_frame typ tag body), st') \<and>
     headerLen + length body \<le> 16777216 \<and> B body \<and> G st')"

definition serves_version :: "'s server \<Rightarrow> ('s \<Rightarrow> fidtab) \<Rightarrow> bool" where
  "serves_version srv tab \<longleftrightarrow> (\<forall>st tag ms v. str_fits v \<longrightarrow>
     answers srv (msg_frame tTversion tag (version_body ms v)) st tRversion (\<lambda>b. True) (\<lambda>st'. tab st' = Map.empty))"

definition serves_attach :: "'s server \<Rightarrow> ('s \<Rightarrow> fidtab) \<Rightarrow> bool" where
  "serves_attach srv tab \<longleftrightarrow> (\<forall>st fid afid un an n. str_fits un \<longrightarrow> str_fits an \<longrightarrow> tab st fid = None \<longrightarrow>
     answers srv (msg_frame tTattach 0 (attach_body fid afid un an n)) st tRattach (\<lambda>b. True)
       (\<lambda>st'. tab st' = (tab st)(fid \<mapsto> ([], None))))"

definition serves_walk :: "'s server \<Rightarrow> ('s \<Rightarrow> fidtab) \<Rightarrow> (name9 list \<Rightarrow> bool) \<Rightarrow> bool" where
  "serves_walk srv tab ex \<longleftrightarrow> (\<forall>st fid newfid names p.
     length names \<le> maxWElem \<longrightarrow> list_all str_fits names \<longrightarrow> tab st fid = Some (p, None) \<longrightarrow> tab st newfid = None \<longrightarrow>
     ex (p @ names) \<longrightarrow>
     answers srv (msg_frame tTwalk 0 (walk_body fid newfid names)) st tRwalk
       (\<lambda>b. 2 \<le> length b \<and> unat (LeUint16 b) = length names) (\<lambda>st'. tab st' = (tab st)(newfid \<mapsto> (p @ names, None))))"

definition refuses_walk :: "'s server \<Rightarrow> ('s \<Rightarrow> fidtab) \<Rightarrow> (name9 list \<Rightarrow> bool) \<Rightarrow> bool" where
  "refuses_walk srv tab ex \<longleftrightarrow> (\<forall>st fid newfid names p.
     length names \<le> maxWElem \<longrightarrow> list_all str_fits names \<longrightarrow> tab st fid = Some (p, None) \<longrightarrow> tab st newfid = None \<longrightarrow>
     \<not> ex (p @ names) \<longrightarrow>
     answers srv (msg_frame tTwalk 0 (walk_body fid newfid names)) st tRlerror (\<lambda>b. True) (\<lambda>st'. tab st' = tab st) \<or>
     answers srv (msg_frame tTwalk 0 (walk_body fid newfid names)) st tRwalk
       (\<lambda>b. 2 \<le> length b \<and> unat (LeUint16 b) < length names) (\<lambda>st'. tab st' = tab st))"

definition serves_clunk :: "'s server \<Rightarrow> ('s \<Rightarrow> fidtab) \<Rightarrow> bool" where
  "serves_clunk srv tab \<longleftrightarrow> (\<forall>st fid. tab st fid \<noteq> None \<longrightarrow>
     answers srv (msg_frame tTclunk 0 (clunk_body fid)) st tRclunk (\<lambda>b. True) (\<lambda>st'. tab st' = (tab st)(fid := None)))"

definition serves_lopen :: "'s server \<Rightarrow> ('s \<Rightarrow> fidtab) \<Rightarrow> bool" where
  "serves_lopen srv tab \<longleftrightarrow> (\<forall>st fid flags p. tab st fid = Some (p, None) \<longrightarrow>
     answers srv (msg_frame tTlopen 0 (lopen_body fid flags)) st tRlopen (\<lambda>b. True)
       (\<lambda>st'. tab st' = (tab st)(fid \<mapsto> (p, Some flags))))"

definition nine_server :: "'s server \<Rightarrow> ('s \<Rightarrow> fidtab) \<Rightarrow> (name9 list \<Rightarrow> bool) \<Rightarrow> bool" where
  "nine_server srv tab ex \<longleftrightarrow> serves_version srv tab \<and> serves_attach srv tab \<and> serves_walk srv tab ex \<and>
     refuses_walk srv tab ex \<and> serves_clunk srv tab \<and> serves_lopen srv tab \<and> (\<forall>p q. ex (p @ q) \<longrightarrow> ex p)"

section \<open>Round trips\<close>

lemma ReadMsg_frame:
  assumes "headerLen + length b \<le> 16777216"
  shows "ReadMsg (msg_frame t tag b @ r) = (Inr (msg_frame t tag b), r)"
proof -
  let ?n = "headerLen + length b"
  have n: "unat (of_nat ?n :: 32 word) = ?n" using assms by (intro unat_of_nat_small) simp
  have "LeUint32 (AppendUint32 (of_nat ?n)) = of_nat ?n" using LeUint32_Append [of "of_nat ?n" "[]"] by simp
  then have "unat (LeUint32 (AppendUint32 (of_nat ?n))) = ?n" using n by simp
  moreover have "ReadFull ((t # AppendUint16 tag @ b) @ r) (?n - 4) = (Inr (t # AppendUint16 tag @ b), r)"
    by (rule ReadFull_append) (simp add: headerLen_def)
  ultimately show ?thesis using assms by (simp add: ReadMsg_def msg_frame_def)
qed

lemma roundTrip_answers:
  assumes "answers srv req (cn_srv c) want B G" "cn_in c = []" "want \<noteq> tRlerror"
  shows "\<exists>tag body c'. roundTrip srv req want c = (Inr (msg_frame want tag body), c') \<and> cn_in c' = [] \<and> B body \<and> G (cn_srv c')"
proof -
  obtain tag body st where a: "srv req (cn_srv c) = (Some (msg_frame want tag body), st)"
    "headerLen + length body \<le> 16777216" "B body" "G st"
    using assms(1) by (auto simp: answers_def)
  have "roundTrip srv req want c = (Inr (msg_frame want tag body), c\<lparr>cn_srv := st, cn_in := []\<rparr>)"
    using a(1) assms(2,3) ReadMsg_frame [OF a(2), of want tag "[]"]
    by (simp add: roundTrip_def conn_Write_def)
  then show ?thesis using a(3,4) by auto
qed

lemma roundTrip_refused:
  assumes "answers srv req (cn_srv c) tRlerror B G" "cn_in c = []"
  shows "\<exists>e c'. roundTrip srv req want c = (Inl e, c')"
proof -
  obtain tag body st where a: "srv req (cn_srv c) = (Some (msg_frame tRlerror tag body), st)"
    "headerLen + length body \<le> 16777216"
    using assms(1) by (auto simp: answers_def)
  show ?thesis
    using a(1) assms(2) ReadMsg_frame [OF a(2), of tRlerror tag "[]"] by (simp add: roundTrip_def conn_Write_def)
qed

lemma nine_walk:
  assumes "nine_server srv tab ex" "length names \<le> maxWElem" "list_all str_fits names" "tab st fid = Some (p, None)"
    "tab st newfid = None" "ex (p @ names)"
  shows "answers srv (msg_frame tTwalk 0 (walk_body fid newfid names)) st tRwalk
       (\<lambda>b. 2 \<le> length b \<and> unat (LeUint16 b) = length names) (\<lambda>st'. tab st' = (tab st)(newfid \<mapsto> (p @ names, None)))"
  using assms unfolding nine_server_def serves_walk_def by blast

lemma nine_walk_refused:
  assumes "nine_server srv tab ex" "length names \<le> maxWElem" "list_all str_fits names" "tab st fid = Some (p, None)"
    "tab st newfid = None" "\<not> ex (p @ names)"
  shows "answers srv (msg_frame tTwalk 0 (walk_body fid newfid names)) st tRlerror (\<lambda>b. True) (\<lambda>st'. tab st' = tab st) \<or>
     answers srv (msg_frame tTwalk 0 (walk_body fid newfid names)) st tRwalk
       (\<lambda>b. 2 \<le> length b \<and> unat (LeUint16 b) < length names) (\<lambda>st'. tab st' = tab st)"
  using assms unfolding nine_server_def refuses_walk_def by blast

lemma nine_clunk:
  "nine_server srv tab ex \<Longrightarrow> tab st fid \<noteq> None \<Longrightarrow>
   answers srv (msg_frame tTclunk 0 (clunk_body fid)) st tRclunk (\<lambda>b. True) (\<lambda>st'. tab st' = (tab st)(fid := None))"
  unfolding nine_server_def serves_clunk_def by blast

lemma nine_lopen:
  "nine_server srv tab ex \<Longrightarrow> tab st fid = Some (p, None) \<Longrightarrow>
   answers srv (msg_frame tTlopen 0 (lopen_body fid flags)) st tRlopen (\<lambda>b. True) (\<lambda>st'. tab st' = (tab st)(fid \<mapsto> (p, Some flags)))"
  unfolding nine_server_def serves_lopen_def by blast

lemma nine_version:
  "nine_server srv tab ex \<Longrightarrow> str_fits v \<Longrightarrow>
   answers srv (msg_frame tTversion tag (version_body ms v)) st tRversion (\<lambda>b. True) (\<lambda>st'. tab st' = Map.empty)"
  unfolding nine_server_def serves_version_def by blast

lemma nine_attach:
  "nine_server srv tab ex \<Longrightarrow> str_fits un \<Longrightarrow> str_fits an \<Longrightarrow> tab st fid = None \<Longrightarrow>
   answers srv (msg_frame tTattach 0 (attach_body fid afid un an n)) st tRattach (\<lambda>b. True)
     (\<lambda>st'. tab st' = (tab st)(fid \<mapsto> ([], None)))"
  unfolding nine_server_def serves_attach_def by blast

lemma reply_not_error:
  "tRversion \<noteq> tRlerror" "tRattach \<noteq> tRlerror" "tRwalk \<noteq> tRlerror" "tRclunk \<noteq> tRlerror" "tRlopen \<noteq> tRlerror"
  by (simp_all add: tRlerror_def tRversion_def tRattach_def tRwalk_def tRclunk_def tRlopen_def)

section \<open>Walking in chunks\<close>

text \<open>A temporary fid lies at or above \<open>tempFidBase\<close>; the table \<open>T\<close> is the server's table
  without the temporary fid the walk currently stands on.\<close>

definition standing :: "fidtab \<Rightarrow> 32 word \<Rightarrow> 32 word \<Rightarrow> name9 list \<Rightarrow> fidtab \<Rightarrow> bool" where
  "standing T root src p t \<longleftrightarrow> (if src = root then t = T \<and> T root = Some (p, None)
     else tempFidBase \<le> src \<and> t = T(src \<mapsto> (p, None)))"

lemma tmp_suc:
  assumes "unat tmp + n < 4294967296" "0 < n"
  shows "tmp < tmp + 1" "unat (tmp + 1) = unat (tmp :: 32 word) + 1"
proof -
  have "unat tmp + unat (1 :: 32 word) < 2 ^ LENGTH(32)" using assms by simp
  then have u: "unat (tmp + 1) = unat tmp + 1" using unat_add_lem [of tmp 1] by simp
  then show "unat (tmp + 1) = unat tmp + 1" .
  show "tmp < tmp + 1" using u by (simp add: word_less_nat_alt)
qed

lemma chunk_step:
  assumes srv: "nine_server srv tab ex" and ne: "names \<noteq> []" and exc: "ex (p @ take maxWElem names)" and fit: "list_all str_fits names"
    and st: "standing T root src p (tab (cn_srv c))" and inb: "cn_in c = []"
    and low: "root < tempFidBase" "target < tempFidBase" and fresh: "T target = None" "\<And>x. tempFidBase \<le> x \<Longrightarrow> T x = None"
    and tmp: "tempFidBase \<le> tmp" "src < tmp"
    and dst: "dst = (if length names \<le> maxWElem then target else tmp)" and tr: "target \<noteq> root"
  obtains c' where "walk_chunks srv root target src tmp names c = walk_chunks srv root target dst (tmp + 1) (drop maxWElem names) c'"
    "cn_in c' = []" "tab (cn_srv c') = T(dst \<mapsto> (p @ take maxWElem names, None))"
proof -
  let ?chunk = "take maxWElem names"
  have here: "tab (cn_srv c) src = Some (p, None)" using st by (auto simp: standing_def split: if_splits)
  have sd: "src \<noteq> dst" "src \<noteq> target"
    using st low tmp dst tr by (auto simp: standing_def split: if_splits)
  have "T dst = None" using dst fresh tmp(1) by simp
  then have free: "tab (cn_srv c) dst = None" using st sd(1) by (auto simp: standing_def split: if_splits)
  have fitc: "list_all str_fits ?chunk" using fit by (auto simp: list_all_iff dest: in_set_takeD)
  have "answers srv (msg_frame tTwalk 0 (walk_body src dst ?chunk)) (cn_srv c) tRwalk
     (\<lambda>b. 2 \<le> length b \<and> unat (LeUint16 b) = length ?chunk) (\<lambda>st'. tab st' = (tab (cn_srv c))(dst \<mapsto> (p @ ?chunk, None)))"
    by (rule nine_walk [OF srv _ fitc here free exc]) simp
  from roundTrip_answers [OF this inb reply_not_error(3)] obtain tag body c1 where
    r: "roundTrip srv (msg_frame tTwalk 0 (walk_body src dst ?chunk)) tRwalk c = (Inr (msg_frame tRwalk tag body), c1)"
      "cn_in c1 = []" "2 \<le> length body" "unat (LeUint16 body) = length ?chunk" "tab (cn_srv c1) = (tab (cn_srv c))(dst \<mapsto> (p @ ?chunk, None))"
    by blast
  let ?c2 = "if src \<noteq> root \<and> src \<noteq> target then snd (roundTrip srv (msg_frame tTclunk 0 (clunk_body src)) tRclunk c1) else c1"
  have c2: "cn_in ?c2 = [] \<and> tab (cn_srv ?c2) = T(dst \<mapsto> (p @ ?chunk, None))"
  proof (cases "src = root")
    case True
    then show ?thesis using r st by (simp add: standing_def)
  next
    case False
    have t1: "tab (cn_srv c1) = (T(dst \<mapsto> (p @ ?chunk, None)))(src \<mapsto> (p, None))"
      using st False r(5) sd(1) by (simp add: standing_def fun_upd_twist)
    have "answers srv (msg_frame tTclunk 0 (clunk_body src)) (cn_srv c1) tRclunk (\<lambda>b. True) (\<lambda>st'. tab st' = (tab (cn_srv c1))(src := None))"
      by (rule nine_clunk [OF srv]) (simp add: t1)
    from roundTrip_answers [OF this r(2) reply_not_error(4)] obtain tag' body' c3 where
      k: "roundTrip srv (msg_frame tTclunk 0 (clunk_body src)) tRclunk c1 = (Inr (msg_frame tRclunk tag' body'), c3)"
        "cn_in c3 = []" "tab (cn_srv c3) = (tab (cn_srv c1))(src := None)"
      by blast
    have "T src = None" using st False fresh(2) by (simp add: standing_def)
    then have "((T(dst \<mapsto> (p @ ?chunk, None)))(src \<mapsto> (p, None)))(src := None) = T(dst \<mapsto> (p @ ?chunk, None))"
      using sd(1) by auto
    then show ?thesis using k t1 False sd(2) by simp
  qed
  have "walk_chunks srv root target src tmp names c = walk_chunks srv root target dst (tmp + 1) (drop maxWElem names) ?c2"
    by (subst walk_chunks.simps) (use ne r dst in \<open>simp add: Let_def\<close>)
  then show ?thesis using that c2 by blast
qed

lemma walk_chunks_ok:
  assumes "nine_server srv tab ex" "names \<noteq> []" "ex (p @ names)" "list_all str_fits names"
    "standing T root src p (tab (cn_srv c))" "cn_in c = []"
    "root < tempFidBase" "target < tempFidBase" "target \<noteq> root" "T target = None" "\<And>x. tempFidBase \<le> x \<Longrightarrow> T x = None"
    "tempFidBase \<le> tmp" "src < tmp" "unat tmp + length names < 4294967296"
  shows "\<exists>c'. walk_chunks srv root target src tmp names c = (None, c') \<and> cn_in c' = [] \<and>
     tab (cn_srv c') = T(target \<mapsto> (p @ names, None))"
  using assms
proof (induction "length names" arbitrary: names src tmp p c rule: less_induct)
  case less
  let ?dst = "if length names \<le> maxWElem then target else tmp"
  have exc: "ex (p @ take maxWElem names)"
    using less.prems(1,3) append_take_drop_id [of maxWElem names] by (metis append_assoc nine_server_def)
  obtain c' where c': "walk_chunks srv root target src tmp names c = walk_chunks srv root target ?dst (tmp + 1) (drop maxWElem names) c'"
    "cn_in c' = []" "tab (cn_srv c') = T(?dst \<mapsto> (p @ take maxWElem names, None))"
    using chunk_step [OF less.prems(1,2) exc less.prems(4-8,10-13) refl less.prems(9)] .
  show ?case
  proof (cases "length names \<le> maxWElem")
    case True
    then show ?thesis using c' by (simp add: walk_chunks.simps [of _ _ _ _ _ "[]"])
  next
    case False
    let ?rest = "drop maxWElem names"
    have "maxWElem > 0" by (simp add: maxWElem_def)
    then have sm: "length ?rest < length names" "?rest \<noteq> []" using False less.prems(2) by auto
    have t: "tmp < tmp + 1" "unat (tmp + 1) = unat tmp + 1" using tmp_suc [OF less.prems(14)] less.prems(2) by auto
    have "standing T root tmp (p @ take maxWElem names) (tab (cn_srv c'))"
      using c'(3) False less.prems(7,12) by (auto simp: standing_def)
    moreover have "list_all str_fits ?rest" using less.prems(4) by (auto simp: list_all_iff dest: in_set_dropD)
    moreover have "tempFidBase \<le> tmp + 1" using less.prems(12) t(1) by simp
    moreover have "unat (tmp + 1) + length ?rest < 4294967296" using t(2) sm(1) less.prems(14) by simp
    ultimately show ?thesis
      using less.hyps [OF sm(1) less.prems(1) sm(2), of "p @ take maxWElem names" tmp c' "tmp + 1"] less.prems c' False t(1)
      by simp
  qed
qed

lemma walk_refused:
  assumes "nine_server srv tab ex" "length names \<le> maxWElem" "list_all str_fits names" "tab (cn_srv c) fid = Some (p, None)"
    "tab (cn_srv c) newfid = None" "\<not> ex (p @ names)" "cn_in c = []"
  shows "(\<exists>e c'. roundTrip srv (msg_frame tTwalk 0 (walk_body fid newfid names)) tRwalk c = (Inl e, c')) \<or>
     (\<exists>resp c'. roundTrip srv (msg_frame tTwalk 0 (walk_body fid newfid names)) tRwalk c = (Inr resp, c') \<and>
        2 \<le> length (msgBody resp) \<and> unat (LeUint16 (msgBody resp)) < length names)"
  using nine_walk_refused [OF assms(1-6)]
proof
  assume "answers srv (msg_frame tTwalk 0 (walk_body fid newfid names)) (cn_srv c) tRlerror (\<lambda>b. True) (\<lambda>st'. tab st' = tab (cn_srv c))"
  from roundTrip_refused [OF this assms(7)] show ?thesis by blast
next
  assume "answers srv (msg_frame tTwalk 0 (walk_body fid newfid names)) (cn_srv c) tRwalk
     (\<lambda>b. 2 \<le> length b \<and> unat (LeUint16 b) < length names) (\<lambda>st'. tab st' = tab (cn_srv c))"
  from roundTrip_answers [OF this assms(7) reply_not_error(3)] show ?thesis
    by (metis frame_fields(3))
qed

lemma walk_chunks_fail:
  assumes "nine_server srv tab ex" "names \<noteq> []" "\<not> ex (p @ names)" "list_all str_fits names"
    "standing T root src p (tab (cn_srv c))" "cn_in c = []"
    "root < tempFidBase" "target < tempFidBase" "target \<noteq> root" "T target = None" "\<And>x. tempFidBase \<le> x \<Longrightarrow> T x = None"
    "tempFidBase \<le> tmp" "src < tmp" "unat tmp + length names < 4294967296"
  shows "\<exists>e c'. walk_chunks srv root target src tmp names c = (Some e, c')"
  using assms
proof (induction "length names" arbitrary: names src tmp p c rule: less_induct)
  case less
  let ?dst = "if length names \<le> maxWElem then target else tmp"
  show ?case
  proof (cases "ex (p @ take maxWElem names)")
    case False
    have src: "tab (cn_srv c) src = Some (p, None)" using less.prems(5) by (auto simp: standing_def split: if_splits)
    have "src \<noteq> ?dst" using less.prems(5,7-9,13) by (auto simp: standing_def split: if_splits)
    then have dst: "tab (cn_srv c) ?dst = None" using less.prems(5,10-12) by (auto simp: standing_def split: if_splits)
    have "list_all str_fits (take maxWElem names)" using less.prems(4) by (auto simp: list_all_iff dest: in_set_takeD)
    from walk_refused [OF less.prems(1) _ this src dst False less.prems(6)] show ?thesis
      by (subst walk_chunks.simps) (use less.prems(2) in \<open>auto simp: Let_def\<close>)
  next
    case True
    obtain c' where c': "walk_chunks srv root target src tmp names c = walk_chunks srv root target ?dst (tmp + 1) (drop maxWElem names) c'"
      "cn_in c' = []" "tab (cn_srv c') = T(?dst \<mapsto> (p @ take maxWElem names, None))"
      using chunk_step [OF less.prems(1,2) True less.prems(4-8,10-13) refl less.prems(9)] .
    let ?rest = "drop maxWElem names"
    have big: "\<not> length names \<le> maxWElem" using True less.prems(3) by auto
    have "maxWElem > 0" by (simp add: maxWElem_def)
    then have sm: "length ?rest < length names" "?rest \<noteq> []" using big less.prems(2) by auto
    have t: "tmp < tmp + 1" "unat (tmp + 1) = unat tmp + 1" using tmp_suc [OF less.prems(14)] less.prems(2) by auto
    have "standing T root tmp (p @ take maxWElem names) (tab (cn_srv c'))"
      using c'(3) big less.prems(7,12) by (auto simp: standing_def)
    moreover have "list_all str_fits ?rest" using less.prems(4) by (auto simp: list_all_iff dest: in_set_dropD)
    moreover have "tempFidBase \<le> tmp + 1" using less.prems(12) t(1) by simp
    moreover have "unat (tmp + 1) + length ?rest < 4294967296" using t(2) sm(1) less.prems(14) by simp
    ultimately show ?thesis
      using less.hyps [OF sm(1) less.prems(1) sm(2), of "p @ take maxWElem names" tmp c' "tmp + 1"] less.prems c' big t(1)
      by simp
  qed
qed

section \<open>The whole replay\<close>

text \<open>What the session recorded of a fid, as the table of the rebuilt server shows it.\<close>

definition tracked :: "Session \<Rightarrow> fidtab" where
  "tracked s = (\<lambda>f. map_option (\<lambda>st. (f_names st, if f_open st then Some (reopen_flags (f_flags st)) else None)) (map_of (fids s) f))"

text \<open>A session whose only root fid is the attached one and whose fids and names are within
  the limits of the protocol.\<close>

definition wf_session :: "Session \<Rightarrow> bool" where
  "wf_session s \<longleftrightarrow> haveAttach s \<and> distinct (map fst (fids s)) \<and> str_fits (n_version s) \<and> str_fits (n_uname s) \<and> str_fits (n_aname s) \<and>
     rootFid s < tempFidBase \<and> (\<exists>r. map_of (fids s) (rootFid s) = Some r \<and> f_root r \<and> f_names r = []) \<and>
     (\<forall>(f, st) \<in> set (fids s). f < tempFidBase \<and> (f_root st \<longrightarrow> f = rootFid s) \<and> list_all str_fits (f_names st) \<and> length (f_names st) < 65536)"

lemma replayWalk_ok:
  assumes "nine_server srv tab ex" "ex names" "list_all str_fits names" "length names < 65536"
    "tab (cn_srv c) (rootFid s) = Some ([], None)" "cn_in c = []"
    "rootFid s < tempFidBase" "target < tempFidBase" "target \<noteq> rootFid s" "tab (cn_srv c) target = None"
    "\<And>x. tempFidBase \<le> x \<Longrightarrow> tab (cn_srv c) x = None"
  shows "\<exists>c'. replayWalk srv s target names c = (None, c') \<and> cn_in c' = [] \<and> tab (cn_srv c') = (tab (cn_srv c))(target \<mapsto> (names, None))"
proof (cases "names = []")
  case True
  have "answers srv (msg_frame tTwalk 0 (walk_body (rootFid s) target [])) (cn_srv c) tRwalk
     (\<lambda>b. 2 \<le> length b \<and> unat (LeUint16 b) = length ([] :: name9 list)) (\<lambda>st'. tab st' = (tab (cn_srv c))(target \<mapsto> ([] @ [], None)))"
    by (rule nine_walk [OF assms(1) _ _ assms(5,10)]) (use assms(2) True in simp_all)
  from roundTrip_answers [OF this assms(6) reply_not_error(3)] show ?thesis
    using True by (auto simp: replayWalk_def)
next
  case False
  have "standing (tab (cn_srv c)) (rootFid s) (rootFid s) [] (tab (cn_srv c))" using assms(5) by (simp add: standing_def)
  moreover have "unat tempFidBase + length names < 4294967296" using assms(4) by (simp add: tempFidBase_def)
  ultimately show ?thesis
    using walk_chunks_ok [OF assms(1) False, of "[]" "tab (cn_srv c)" "rootFid s" "rootFid s" c target tempFidBase] assms False
    by (simp add: replayWalk_def)
qed

lemma replayWalk_fail:
  assumes "nine_server srv tab ex" "\<not> ex names" "list_all str_fits names" "length names < 65536"
    "tab (cn_srv c) (rootFid s) = Some ([], None)" "cn_in c = []"
    "rootFid s < tempFidBase" "target < tempFidBase" "target \<noteq> rootFid s" "tab (cn_srv c) target = None"
    "\<And>x. tempFidBase \<le> x \<Longrightarrow> tab (cn_srv c) x = None"
  shows "\<exists>e c'. replayWalk srv s target names c = (Some e, c')"
proof (cases "names = []")
  case True
  then show ?thesis
    using walk_refused [OF assms(1) _ _ assms(5,10) _ assms(6), of "[]"] assms(2) by (auto simp: replayWalk_def)
next
  case False
  have "standing (tab (cn_srv c)) (rootFid s) (rootFid s) [] (tab (cn_srv c))" using assms(5) by (simp add: standing_def)
  moreover have "unat tempFidBase + length names < 4294967296" using assms(4) by (simp add: tempFidBase_def)
  ultimately show ?thesis
    using walk_chunks_fail [OF assms(1) False, of "[]" "tab (cn_srv c)" "rootFid s" "rootFid s" c target tempFidBase] assms False
    by (simp add: replayWalk_def)
qed

lemma replay_walks_append:
  "replay_walks srv s (ms @ ns) c =
     (case replay_walks srv s ms c of (None, c1) \<Rightarrow> replay_walks srv s ns c1 | (Some e, c1) \<Rightarrow> (Some e, c1))"
  by (induction ms arbitrary: c) (auto split: prod.splits option.splits)

lemma replay_walks_ok:
  assumes "nine_server srv tab ex" "wf_session s"
    "distinct ns" "\<forall>f \<in> set ns. \<exists>st. map_of (fids s) f = Some st \<and> \<not> f_root st \<and> ex (f_names st)"
    "tab (cn_srv c) (rootFid s) = Some ([], None)" "cn_in c = []"
    "\<forall>f \<in> set ns. tab (cn_srv c) f = None" "\<And>x. tempFidBase \<le> x \<Longrightarrow> tab (cn_srv c) x = None"
  shows "\<exists>c'. replay_walks srv s ns c = (None, c') \<and> cn_in c' = [] \<and>
     tab (cn_srv c') = (\<lambda>f. if f \<in> set ns then Some (f_names (the (map_of (fids s) f)), None) else tab (cn_srv c) f)"
  using assms(3-)
proof (induction ns arbitrary: c)
  case (Cons f ns)
  obtain st where st: "map_of (fids s) f = Some st" "\<not> f_root st" "ex (f_names st)" using Cons.prems(2) by auto
  then have mem: "(f, st) \<in> set (fids s)" by (simp add: map_of_SomeD)
  have wf: "f < tempFidBase" "list_all str_fits (f_names st)" "length (f_names st) < 65536"
    using assms(2) mem by (auto simp: wf_session_def)
  have nr: "f \<noteq> rootFid s" using assms(2) st by (auto simp: wf_session_def)
  have low: "rootFid s < tempFidBase" using assms(2) by (simp add: wf_session_def)
  obtain c1 where c1: "replayWalk srv s f (f_names st) c = (None, c1)" "cn_in c1 = []"
    "tab (cn_srv c1) = (tab (cn_srv c))(f \<mapsto> (f_names st, None))"
    using replayWalk_ok [OF assms(1) st(3) wf(2,3) Cons.prems(3,4) low wf(1) nr _ Cons.prems(6)] Cons.prems(5) by auto
  have "\<exists>c'. replay_walks srv s ns c1 = (None, c') \<and> cn_in c' = [] \<and>
     tab (cn_srv c') = (\<lambda>f. if f \<in> set ns then Some (f_names (the (map_of (fids s) f)), None) else tab (cn_srv c1) f)"
  proof (rule Cons.IH)
    show "tab (cn_srv c1) x = None" if "tempFidBase \<le> x" for x using Cons.prems(6) that wf(1) c1(3) by auto
  qed (use Cons.prems c1 nr in auto)
  then show ?case using c1 st(1) Cons.prems(1) by (auto simp: fun_eq_iff)
qed simp

lemma replay_opens_ok:
  assumes "nine_server srv tab ex" "distinct ns" "cn_in c = []"
    "\<forall>f \<in> set ns. \<exists>st. map_of (fids s) f = Some st \<and> tab (cn_srv c) f = Some (f_names st, None)"
  shows "\<exists>c'. replay_opens srv s ns c = (None, c') \<and> cn_in c' = [] \<and>
     tab (cn_srv c') = (\<lambda>f. if f \<in> set ns then tracked s f else tab (cn_srv c) f)"
  using assms(2-)
proof (induction ns arbitrary: c)
  case (Cons f ns)
  obtain st where st: "map_of (fids s) f = Some st" "tab (cn_srv c) f = Some (f_names st, None)" using Cons.prems(3) by auto
  show ?case
  proof (cases "f_open st")
    case False
    then show ?thesis using Cons.IH [of c] Cons.prems st by (auto simp: fun_eq_iff tracked_def)
  next
    case True
    obtain t b c1 where c1: "roundTrip srv (msg_frame tTlopen 0 (lopen_body f (reopen_flags (f_flags st)))) tRlopen c = (Inr (msg_frame tRlopen t b), c1)"
      "cn_in c1 = []" "tab (cn_srv c1) = (tab (cn_srv c))(f \<mapsto> (f_names st, Some (reopen_flags (f_flags st))))"
      using roundTrip_answers [OF nine_lopen [OF assms(1) st(2)] Cons.prems(2) reply_not_error(5)] by blast
    have "\<exists>c'. replay_opens srv s ns c1 = (None, c') \<and> cn_in c' = [] \<and>
        tab (cn_srv c') = (\<lambda>f. if f \<in> set ns then tracked s f else tab (cn_srv c1) f)"
      by (rule Cons.IH) (use Cons.prems c1 in auto)
    then show ?thesis using c1 st True Cons.prems(1) by (auto simp: fun_eq_iff tracked_def)
  qed
qed simp

text \<open>The three phases: version and attach, the walks, the opens.\<close>

lemma handshake_fits:
  assumes "nine_server srv tab ex" "str_fits (n_version s)" "str_fits (n_uname s)" "str_fits (n_aname s)" "cn_in c = []"
  shows "\<exists>r1 c1 r2 c2. roundTrip srv (msg_frame tTversion notag (version_body (n_msize s) (n_version s))) tRversion c = (Inr r1, c1) \<and>
     roundTrip srv (msg_frame tTattach 0 (attach_body (rootFid s) (n_afid s) (n_uname s) (n_aname s) (n_nUname s))) tRattach c1 = (Inr r2, c2) \<and>
     cn_in c2 = [] \<and> tab (cn_srv c2) = [rootFid s \<mapsto> ([], None)]"
proof -
  obtain t1 b1 c1 where c1: "roundTrip srv (msg_frame tTversion notag (version_body (n_msize s) (n_version s))) tRversion c = (Inr (msg_frame tRversion t1 b1), c1)"
    "cn_in c1 = []" "tab (cn_srv c1) = Map.empty"
    using roundTrip_answers [OF nine_version [OF assms(1,2)] assms(5) reply_not_error(1)] by blast
  then have n1: "tab (cn_srv c1) (rootFid s) = None" by simp
  show ?thesis
    using c1(1) roundTrip_answers [OF nine_attach [OF assms(1,3,4) n1] c1(2) reply_not_error(2)]
    unfolding c1(3) by blast
qed

lemma handshake_ok:
  assumes "nine_server srv tab ex" "wf_session s" "cn_in c = []"
  shows "\<exists>r1 c1 r2 c2. roundTrip srv (msg_frame tTversion notag (version_body (n_msize s) (n_version s))) tRversion c = (Inr r1, c1) \<and>
     roundTrip srv (msg_frame tTattach 0 (attach_body (rootFid s) (n_afid s) (n_uname s) (n_aname s) (n_nUname s))) tRattach c1 = (Inr r2, c2) \<and>
     cn_in c2 = [] \<and> tab (cn_srv c2) = [rootFid s \<mapsto> ([], None)]"
  by (rule handshake_fits [OF assms(1) _ _ _ assms(3)]) (use assms(2) in \<open>simp_all add: wf_session_def\<close>)

definition nonroots :: "Session \<Rightarrow> 32 word list" where
  "nonroots s = sort (map fst (filter (\<lambda>(fid, st). \<not> f_root st) (fids s)))"

lemma nonroots_mem: "distinct (map fst (fids s)) \<Longrightarrow> f \<in> set (nonroots s) \<longleftrightarrow> (\<exists>st. map_of (fids s) f = Some st \<and> \<not> f_root st)"
  by (force simp: nonroots_def image_iff)

lemma nonroots_distinct: "distinct (map fst (fids s)) \<Longrightarrow> distinct (nonroots s)"
  by (simp add: nonroots_def distinct_map) (auto intro!: inj_onI dest: inj_onD)

lemma walks_rebuild:
  assumes srv: "nine_server srv tab ex" and wf: "wf_session s" and inb: "cn_in c = []"
    and paths: "\<forall>(f, st) \<in> set (fids s). ex (f_names st)" and tab: "tab (cn_srv c) = [rootFid s \<mapsto> ([], None)]"
  shows "\<exists>c'. replay_walks srv s (nonroots s) c = (None, c') \<and> cn_in c' = [] \<and>
     tab (cn_srv c') = (\<lambda>f. map_option (\<lambda>st. (f_names st, None)) (map_of (fids s) f))"
proof -
  obtain r where r: "map_of (fids s) (rootFid s) = Some r" "f_root r" "f_names r = []" using wf by (auto simp: wf_session_def)
  have d: "distinct (map fst (fids s))" and low: "rootFid s < tempFidBase" using wf by (simp_all add: wf_session_def)
  have "\<exists>c'. replay_walks srv s (nonroots s) c = (None, c') \<and> cn_in c' = [] \<and>
     tab (cn_srv c') = (\<lambda>f. if f \<in> set (nonroots s) then Some (f_names (the (map_of (fids s) f)), None) else tab (cn_srv c) f)"
  proof (rule replay_walks_ok [OF srv wf nonroots_distinct [OF d]])
    show "\<forall>f \<in> set (nonroots s). \<exists>st. map_of (fids s) f = Some st \<and> \<not> f_root st \<and> ex (f_names st)"
      unfolding Ball_def nonroots_mem [OF d] using paths by (auto dest: map_of_SomeD)
    show "\<forall>f \<in> set (nonroots s). tab (cn_srv c) f = None" unfolding Ball_def nonroots_mem [OF d] using r tab by auto
  qed (use inb tab low in auto)
  moreover have "(if f \<in> set (nonroots s) then Some (f_names (the (map_of (fids s) f)), None) else tab (cn_srv c) f)
      = map_option (\<lambda>st. (f_names st, None)) (map_of (fids s) f)" for f
  proof (cases "map_of (fids s) f")
    case None
    then show ?thesis using tab nonroots_mem [OF d, of f] r by auto
  next
    case (Some st)
    then have "f_root st \<Longrightarrow> f = rootFid s" using wf by (auto simp: wf_session_def dest: map_of_SomeD)
    then show ?thesis using Some tab nonroots_mem [OF d, of f] r by auto
  qed
  ultimately show ?thesis by simp
qed

text \<open>On a fresh connection the replay leaves exactly the tracked fids, and no temporary one.\<close>

lemma replay_tracked:
  assumes srv: "nine_server srv tab ex" and wf: "wf_session s" and inb: "cn_in c = []"
    and paths: "\<forall>(f, st) \<in> set (fids s). ex (f_names st)"
  shows "\<exists>c'. Replay srv s c = (None, c') \<and> cn_in c' = [] \<and> tab (cn_srv c') = tracked s"
proof -
  obtain r1 c1 r2 c2 where hs: "roundTrip srv (msg_frame tTversion notag (version_body (n_msize s) (n_version s))) tRversion c = (Inr r1, c1)"
    "roundTrip srv (msg_frame tTattach 0 (attach_body (rootFid s) (n_afid s) (n_uname s) (n_aname s) (n_nUname s))) tRattach c1 = (Inr r2, c2)"
    "cn_in c2 = []" "tab (cn_srv c2) = [rootFid s \<mapsto> ([], None)]"
    using handshake_ok [OF srv wf inb] by blast
  obtain c3 where c3: "replay_walks srv s (nonroots s) c2 = (None, c3)" "cn_in c3 = []"
    "tab (cn_srv c3) = (\<lambda>f. map_option (\<lambda>st. (f_names st, None)) (map_of (fids s) f))"
    using walks_rebuild [OF srv wf hs(3) paths hs(4)] by blast
  have d: "distinct (map fst (fids s))" "haveAttach s" using wf by (simp_all add: wf_session_def)
  have "\<exists>c'. replay_opens srv s (sortedFids (fids s)) c3 = (None, c') \<and> cn_in c' = [] \<and>
     tab (cn_srv c') = (\<lambda>f. if f \<in> set (sortedFids (fids s)) then tracked s f else tab (cn_srv c3) f)"
  proof (rule replay_opens_ok [OF srv _ c3(2)])
    show "\<forall>f \<in> set (sortedFids (fids s)). \<exists>st. map_of (fids s) f = Some st \<and> tab (cn_srv c3) f = Some (f_names st, None)"
    proof
      fix f assume "f \<in> set (sortedFids (fids s))"
      then obtain st where "map_of (fids s) f = Some st" using d(1) by (auto simp: sortedFids_def)
      then show "\<exists>st. map_of (fids s) f = Some st \<and> tab (cn_srv c3) f = Some (f_names st, None)" by (simp add: c3(3))
    qed
  qed (simp add: sortedFids_def d(1))
  moreover have "(\<lambda>f. if f \<in> set (sortedFids (fids s)) then tracked s f else tab (cn_srv c3) f) = tracked s"
  proof
    fix f
    show "(if f \<in> set (sortedFids (fids s)) then tracked s f else tab (cn_srv c3) f) = tracked s f"
      by (cases "map_of (fids s) f") (force simp: c3(3) sortedFids_def tracked_def dest: map_of_SomeD)+
  qed
  ultimately show ?thesis using hs(1,2) c3(1) d(2) by (simp add: Replay_def nonroots_def)
qed

text \<open>
  One vanished path loses the whole mount.  If the path of a tracked fid is not on the
  new server, as for a file that was removed or renamed while it was open, which the tracker
  does not follow, the replay ends in an error although every other fid could be restored.
\<close>

theorem Replay_fails_on_missing_path:
  assumes srv: "nine_server srv tab ex" and wf: "wf_session s" and inb: "cn_in c = []"
    and gone: "map_of (fids s) g = Some st" "\<not> f_root st" "\<not> ex (f_names st)"
  shows "\<exists>e c'. Replay srv s c = (Some e, c')"
proof -
  have d: "distinct (map fst (fids s))" and low: "rootFid s < tempFidBase" and ha: "haveAttach s" using wf by (simp_all add: wf_session_def)
  obtain r where r: "map_of (fids s) (rootFid s) = Some r" "f_root r" using wf by (auto simp: wf_session_def)
  obtain r1 c1 r2 c2 where hs: "roundTrip srv (msg_frame tTversion notag (version_body (n_msize s) (n_version s))) tRversion c = (Inr r1, c1)"
    "roundTrip srv (msg_frame tTattach 0 (attach_body (rootFid s) (n_afid s) (n_uname s) (n_aname s) (n_nUname s))) tRattach c1 = (Inr r2, c2)"
    "cn_in c2 = []" "tab (cn_srv c2) = [rootFid s \<mapsto> ([], None)]"
    using handshake_ok [OF srv wf inb] by blast
  have "\<exists>f \<in> set (nonroots s). \<not> ex (f_names (the (map_of (fids s) f)))" using gone nonroots_mem [OF d] by force
  then obtain ms f ns where sp: "nonroots s = ms @ f # ns" "\<not> ex (f_names (the (map_of (fids s) f)))"
    "\<forall>m \<in> set ms. ex (f_names (the (map_of (fids s) m)))"
    using split_list_first_prop [of "nonroots s" "\<lambda>f. \<not> ex (f_names (the (map_of (fids s) f)))"] by blast
  have mem: "\<exists>st. map_of (fids s) x = Some st \<and> \<not> f_root st" if "x \<in> insert f (set ms)" for x
    using that sp(1) nonroots_mem [OF d, of x] by auto
  have dm: "distinct ms" "f \<notin> set ms" using nonroots_distinct [OF d] sp(1) by auto
  have nr: "x \<noteq> rootFid s" if "x \<in> insert f (set ms)" for x using mem [OF that] r by auto
  have "\<exists>c'. replay_walks srv s ms c2 = (None, c') \<and> cn_in c' = [] \<and>
     tab (cn_srv c') = (\<lambda>f. if f \<in> set ms then Some (f_names (the (map_of (fids s) f)), None) else tab (cn_srv c2) f)"
  proof (rule replay_walks_ok [OF srv wf dm(1)])
    show "\<forall>f \<in> set ms. \<exists>st. map_of (fids s) f = Some st \<and> \<not> f_root st \<and> ex (f_names st)" using mem sp(3) by force
  qed (use hs low nr in auto)
  then obtain c3 where c3: "replay_walks srv s ms c2 = (None, c3)" "cn_in c3 = []"
    "tab (cn_srv c3) = (\<lambda>f. if f \<in> set ms then Some (f_names (the (map_of (fids s) f)), None) else tab (cn_srv c2) f)" by blast
  obtain fs where fs: "map_of (fids s) f = Some fs" using mem [of f] by auto
  have lim: "x < tempFidBase" if "x \<in> insert f (set ms)" for x
    using mem [OF that] wf by (auto simp: wf_session_def dest: map_of_SomeD)
  have "list_all str_fits (f_names fs) \<and> length (f_names fs) < 65536"
    using map_of_SomeD [OF fs] wf by (auto simp: wf_session_def)
  then have "\<exists>e c'. replayWalk srv s f (f_names fs) c3 = (Some e, c')"
    using sp(2) fs c3 hs(4) dm(2) nr lim low
    by (intro replayWalk_fail [OF srv]) (auto simp: not_le [symmetric])
  then show ?thesis
    using hs(1,2) ha c3(1) fs sp(1) by (auto simp: Replay_def replay_walks_append nonroots_def [symmetric] split: prod.splits)
qed

section \<open>A server that keeps the contract\<close>

text \<open>A small server over the parser of the tracker: its state is the fid table itself, its
  tree the prefix-closed set \<open>ex\<close> of paths.\<close>

definition table_server :: "(name9 list \<Rightarrow> bool) \<Rightarrow> fidtab server" where
  "table_server ex m t = (case parse_req m of
      None \<Rightarrow> (None, t)
    | Some p \<Rightarrow>
        if pr_typ p = tTversion then (Some (msg_frame tRversion (msgTag m) []), Map.empty)
        else if pr_typ p = tTattach then (Some (msg_frame tRattach (msgTag m) []), t(pr_fid p \<mapsto> ([], None)))
        else if pr_typ p = tTwalk then
          (case t (pr_fid p) of
             Some (q, None) \<Rightarrow>
               if ex (q @ pr_names p)
               then (Some (msg_frame tRwalk (msgTag m) (AppendUint16 (of_nat (length (pr_names p))))), t(pr_newfid p \<mapsto> (q @ pr_names p, None)))
               else (Some (msg_frame tRlerror (msgTag m) (AppendUint32 2)), t)
           | _ \<Rightarrow> (Some (msg_frame tRlerror (msgTag m) (AppendUint32 9)), t))
        else if pr_typ p = tTclunk then (Some (msg_frame tRclunk (msgTag m) []), t(pr_fid p := None))
        else if pr_typ p = tTlopen then
          (case t (pr_fid p) of
             Some (q, _) \<Rightarrow> (Some (msg_frame tRlopen (msgTag m) []), t(pr_fid p \<mapsto> (q, Some (pr_flags p))))
           | None \<Rightarrow> (Some (msg_frame tRlerror (msgTag m) (AppendUint32 9)), t))
        else (None, t))"

lemma names_below: "length names \<le> maxWElem \<Longrightarrow> length names < 65536"
  by (simp add: maxWElem_def)

lemma table_server_walk:
  assumes "length names \<le> maxWElem" "list_all str_fits names" "t fid = Some (p, None)"
  shows "table_server ex (msg_frame tTwalk 0 (walk_body fid newfid names)) t =
    (if ex (p @ names) then (Some (msg_frame tRwalk 0 (AppendUint16 (of_nat (length names)))), t(newfid \<mapsto> (p @ names, None)))
     else (Some (msg_frame tRlerror 0 (AppendUint32 2)), t))"
  using parse_walk [OF assms(2) names_below [OF assms(1)]] assms(3)
  by (simp add: table_server_def request_types)

lemma LeUint16_length: "length names \<le> maxWElem \<Longrightarrow> unat (LeUint16 (AppendUint16 (of_nat (length names)))) = length names"
  using LeUint16_Append [of "of_nat (length names)" "[]"] unat_len16 [OF names_below] by simp

lemma answersI:
  "srv req st = (Some (msg_frame typ tag body), st') \<Longrightarrow> headerLen + length body \<le> 16777216 \<Longrightarrow> B body \<Longrightarrow> G st' \<Longrightarrow>
   answers srv req st typ B G"
  by (auto simp: answers_def)

lemma table_server_replies:
  "str_fits v \<Longrightarrow> table_server ex (msg_frame tTversion tag (version_body ms v)) t = (Some (msg_frame tRversion tag []), Map.empty)"
  "str_fits un \<Longrightarrow> str_fits an \<Longrightarrow>
    table_server ex (msg_frame tTattach tag (attach_body fid afid un an n)) t = (Some (msg_frame tRattach tag []), t(fid \<mapsto> ([], None)))"
  "table_server ex (msg_frame tTclunk tag (clunk_body fid)) t = (Some (msg_frame tRclunk tag []), t(fid := None))"
  "t fid = Some (p, None) \<Longrightarrow>
    table_server ex (msg_frame tTlopen tag (lopen_body fid flags)) t = (Some (msg_frame tRlopen tag []), t(fid \<mapsto> (p, Some flags)))"
  using parse_version [of v tag ms] parse_attach [of un an tag fid afid n] parse_clunk [of tag fid] parse_lopen [of tag fid flags]
  by (simp_all add: table_server_def) (simp_all add: request_types)

lemma table_server_laws:
  "serves_version (table_server ex) id" "serves_attach (table_server ex) id" "serves_clunk (table_server ex) id"
  "serves_lopen (table_server ex) id"
  unfolding serves_version_def serves_attach_def serves_clunk_def serves_lopen_def
  by (intro allI impI, rule answersI [where body = "[]"]; simp add: table_server_replies headerLen_def)+

lemma table_server_walks: "serves_walk (table_server ex) id ex" "refuses_walk (table_server ex) id ex"
proof -
  show "serves_walk (table_server ex) id ex"
    unfolding serves_walk_def
  proof (intro allI impI)
    fix st :: fidtab and fid newfid names p
    assume a: "length names \<le> maxWElem" "list_all str_fits names" "id st fid = Some (p, None)" "ex (p @ names)"
    show "answers (table_server ex) (msg_frame tTwalk 0 (walk_body fid newfid names)) st tRwalk
        (\<lambda>b. 2 \<le> length b \<and> unat (LeUint16 b) = length names) (\<lambda>st'. id st' = (id st)(newfid \<mapsto> (p @ names, None)))"
      by (rule answersI [where tag = 0 and body = "AppendUint16 (of_nat (length names))" and st' = "st(newfid \<mapsto> (p @ names, None))"])
         (use a table_server_walk [of names st fid p] in \<open>simp_all add: LeUint16_length headerLen_def\<close>)
  qed
  show "refuses_walk (table_server ex) id ex"
    unfolding refuses_walk_def
  proof (intro allI impI disjI1)
    fix st :: fidtab and fid newfid names p
    assume a: "length names \<le> maxWElem" "list_all str_fits names" "id st fid = Some (p, None)" "\<not> ex (p @ names)"
    show "answers (table_server ex) (msg_frame tTwalk 0 (walk_body fid newfid names)) st tRlerror (\<lambda>b. True) (\<lambda>st'. id st' = id st)"
      by (rule answersI [where tag = 0 and body = "AppendUint32 2" and st' = st])
         (use a table_server_walk [of names st fid p] in \<open>simp_all add: headerLen_def\<close>)
  qed
qed

lemma table_server_ok: "\<forall>p q. ex (p @ q) \<longrightarrow> ex p \<Longrightarrow> nine_server (table_server ex) id ex"
  using table_server_laws table_server_walks by (simp add: nine_server_def)

definition sample_session :: Session where
  "sample_session = NewSession\<lparr>haveAttach := True,
     fids := [(0, \<lparr>f_names = [], f_root = True, f_open = True, f_flags = 0\<rparr>),
              (7, \<lparr>f_names = replicate 18 [97], f_root = False, f_open = True, f_flags = 0x241\<rparr>)]\<rparr>"

theorem Replay_fails_on_missing_path_witness:
  "\<exists>e c'. Replay (table_server (\<lambda>p. p = [])) sample_session \<lparr>cn_srv = Map.empty, cn_in = []\<rparr> = (Some e, c')"
proof (rule Replay_fails_on_missing_path [where tab = id and ex = "\<lambda>p. p = []" and g = 7
    and st = "\<lparr>f_names = replicate 18 [97], f_root = False, f_open = True, f_flags = 0x241\<rparr>"])
  show "nine_server (table_server (\<lambda>p. p = [])) id (\<lambda>p. p = [])" by (rule table_server_ok) simp
  show "wf_session sample_session"
    by (simp add: wf_session_def sample_session_def NewSession_def str_fits_def versionString_def tempFidBase_def list_all_iff)
qed (simp_all add: sample_session_def)

end
