(* ===== verification/Nine_Proxy.thy ===== *)
theory Nine_Proxy
  imports Nine_Replay
begin

text \<open>
  The reconnect proxy as a whole (\<^verbatim>\<open>internal/nineproxy/proxy.go\<close>): the tracked session
  against the protocol, the requests a reconnect re-delivers, and the two pumps and the
  reconnect as steps over the shared state.
\<close>

section \<open>The session follows the protocol\<close>

definition abs_tab :: "Session \<Rightarrow> fidtab" where
  "abs_tab s = (\<lambda>f. map_option (\<lambda>st. (f_names st, if f_open st then Some (f_flags st) else None)) (map_of (fids s) f))"

text \<open>What the protocol documents of a request and its reply, on the server's fid table.\<close>

definition granted :: "pending_req \<Rightarrow> byte list \<Rightarrow> bool" where
  "granted p m \<longleftrightarrow> msgType m \<noteq> tRlerror \<and>
     (pr_typ p = tTwalk \<longrightarrow> unat (fst (cu_u16 (cursor_of (msgBody m)))) = length (pr_names p))"

definition nine_apply :: "pending_req \<Rightarrow> bool \<Rightarrow> fidtab \<Rightarrow> fidtab" where
  "nine_apply p ok t =
     (if pr_typ p = tTclunk \<or> pr_typ p = tTremove then t(pr_fid p := None)
      else if \<not> ok then t
      else if pr_typ p = tTattach then t(pr_fid p \<mapsto> ([], None))
      else case t (pr_fid p) of
             None \<Rightarrow> t
           | Some (q, fl) \<Rightarrow>
               if pr_typ p = tTwalk then t(pr_newfid p \<mapsto> (q @ pr_names p, None))
               else if pr_typ p = tTlopen then t(pr_fid p \<mapsto> (q, Some (pr_flags p)))
               else if pr_typ p = tTlcreate then t(pr_fid p \<mapsto> (q @ [pr_name p], Some (pr_flags p)))
               else t)"

lemma abs_tab_frame [simp]:
  "abs_tab (s\<lparr>outstanding := a\<rparr>) = abs_tab s" "abs_tab (s\<lparr>pendings := b\<rparr>) = abs_tab s" "abs_tab (s\<lparr>outSeq := n\<rparr>) = abs_tab s"
  "abs_tab (s\<lparr>n_msize := v, n_version := w\<rparr>) = abs_tab s"
  by (simp_all add: abs_tab_def)

lemma abs_tab_delete: "abs_tab (s\<lparr>fids := AList.delete f (fids s)\<rparr>) = (abs_tab s)(f := None)"
  by (simp add: abs_tab_def delete_conv fun_eq_iff)

lemma abs_tab_update:
  "abs_tab (s\<lparr>fids := AList.update f st (fids s)\<rparr>) = (abs_tab s)(f \<mapsto> (f_names st, if f_open st then Some (f_flags st) else None))"
  by (simp add: abs_tab_def update_conv fun_eq_iff)

lemma abs_tab_lookup: "abs_tab s f = map_option (\<lambda>st. (f_names st, if f_open st then Some (f_flags st) else None)) (map_of (fids s) f)"
  by (simp add: abs_tab_def)

lemma ObserveClient_tab [simp]: "abs_tab (ObserveClient m s) = abs_tab s"
  by (simp add: ObserveClient_def Let_def split: option.split)

lemma commit_refines:
  assumes "msgType m \<noteq> tRlerror" "pr_typ p \<noteq> tTremove"
  shows "abs_tab (commit p m s) = nine_apply p (granted p m) (abs_tab s)"
proof (cases "map_of (fids s) (pr_fid p)")
  case None
  then show ?thesis
    using assms by (auto simp: commit_def nine_apply_def granted_def abs_tab_lookup abs_tab_def update_conv delete_conv request_types fun_eq_iff)
next
  case (Some st)
  then show ?thesis
    using assms by (auto simp: commit_def nine_apply_def granted_def abs_tab_lookup abs_tab_def update_conv delete_conv request_types fun_eq_iff)
qed

lemma ObserveServer_refines:
  assumes "headerLen \<le> length m"
  shows "abs_tab (ObserveServer m s) =
     (case map_of (pendings s) (msgTag m) of None \<Rightarrow> abs_tab s | Some p \<Rightarrow> nine_apply p (granted p m) (abs_tab s))"
proof (cases "map_of (pendings s) (msgTag m)")
  case None
  then show ?thesis using assms by (simp add: ObserveServer_def Let_def)
next
  case (Some p)
  let ?s = "s\<lparr>outstanding := AList.delete (msgTag m) (outstanding s), pendings := AList.delete (msgTag m) (pendings s)\<rparr>"
  have drop: "abs_tab (?s\<lparr>fids := AList.delete f (fids s)\<rparr>) = (abs_tab s)(f := None)" for f
    by (simp add: abs_tab_def delete_conv fun_eq_iff)
  consider (remove) "pr_typ p = tTremove" | (flush) "pr_typ p = tTflush" | (error) "pr_typ p \<noteq> tTremove" "pr_typ p \<noteq> tTflush" "msgType m = tRlerror"
    | (ok) "pr_typ p \<noteq> tTremove" "pr_typ p \<noteq> tTflush" "msgType m \<noteq> tRlerror" by blast
  then show ?thesis
  proof cases
    case remove
    then show ?thesis using assms Some drop by (simp add: ObserveServer_def Let_def nine_apply_def)
  next
    case flush
    then show ?thesis
      using assms Some by (auto simp: ObserveServer_def Let_def nine_apply_def request_types abs_tab_def split: option.split)
  next
    case error
    then show ?thesis using assms Some drop by (simp add: ObserveServer_def Let_def nine_apply_def granted_def)
  next
    case ok
    have "abs_tab (commit p m ?s) = nine_apply p (granted p m) (abs_tab s)"
      using commit_refines [OF ok(3,1), of ?s] by (simp add: abs_tab_def)
    then show ?thesis using assms Some ok by (simp add: ObserveServer_def Let_def)
  qed
qed

lemma exchange_refines:
  assumes "headerLen \<le> length q" "headerLen \<le> length r" "msgTag r = msgTag q" "parse_req q = Some p"
  shows "abs_tab (ObserveServer r (ObserveClient q s)) = nine_apply p (granted p r) (abs_tab s)"
proof -
  have "map_of (pendings (ObserveClient q s)) (msgTag r) = Some p"
    using assms by (simp add: ObserveClient_def Let_def update_conv)
  then show ?thesis using ObserveServer_refines [OF assms(2), of "ObserveClient q s"] by simp
qed

text \<open>A history of answered requests, as the session saw it and as the protocol has it.\<close>

definition session_of :: "(byte list \<times> byte list) list \<Rightarrow> Session" where
  "session_of h = foldl (\<lambda>s (q, r). ObserveServer r (ObserveClient q s)) NewSession h"

definition table_of :: "(byte list \<times> byte list) list \<Rightarrow> fidtab" where
  "table_of h = foldl (\<lambda>t (q, r). case parse_req q of None \<Rightarrow> t | Some p \<Rightarrow> nine_apply p (granted p r) t) Map.empty h"

definition answered :: "(byte list \<times> byte list) list \<Rightarrow> bool" where
  "answered h = list_all (\<lambda>(q, r). headerLen \<le> length q \<and> headerLen \<le> length r \<and> msgTag r = msgTag q \<and> parse_req q \<noteq> None) h"

lemma session_of_snoc: "session_of (h @ [(q, r)]) = ObserveServer r (ObserveClient q (session_of h))"
  by (simp add: session_of_def)

lemma session_refines_table: "answered h \<Longrightarrow> abs_tab (session_of h) = table_of h"
proof (induction h rule: rev_induct)
  case Nil
  show ?case by (simp add: session_of_def table_of_def NewSession_def abs_tab_def)
next
  case (snoc e h)
  obtain q r where e: "e = (q, r)" by force
  obtain p where "parse_req q = Some p" using snoc.prems by (auto simp: answered_def e)
  then show ?case
    using snoc exchange_refines [of q r p "session_of h"] by (simp add: e answered_def session_of_snoc table_of_def)
qed

definition reopened :: "fidtab \<Rightarrow> fidtab" where
  "reopened t = (\<lambda>f. map_option (\<lambda>(q, fl). (q, map_option reopen_flags fl)) (t f))"

lemma tracked_reopened: "tracked s = reopened (abs_tab s)"
proof
  fix f
  show "tracked s f = reopened (abs_tab s) f"
    by (cases "map_of (fids s) f") (simp_all add: tracked_def reopened_def abs_tab_def)
qed


definition sample_history :: "(byte list \<times> byte list) list" where
  "sample_history =
     [(msg_frame tTattach 1 (attach_body 5 0xFFFFFFFF [] [] 0), msg_frame tRattach 1 []),
      (msg_frame tTwalk 1 (walk_body 5 6 [[97], [98]]), msg_frame tRwalk 1 (AppendUint16 2)),
      (msg_frame tTlopen 2 (lopen_body 6 0x241), msg_frame tRlopen 2 [])]"

text \<open>The part of the session a replay reads, after one granted exchange.\<close>

definition core :: "Session \<Rightarrow> (32 word \<times> fidState) list \<times> bool \<times> 32 word \<times> name9 \<times> name9 \<times> name9" where
  "core s = (fids s, haveAttach s, rootFid s, n_version s, n_uname s, n_aname s)"

lemma core_exchange:
  assumes "headerLen \<le> length q" "headerLen \<le> length r" "msgTag r = msgTag q" "parse_req q = Some p"
    "pr_typ p \<noteq> tTremove" "pr_typ p \<noteq> tTflush" "msgType r \<noteq> tRlerror"
  shows "core (ObserveServer r (ObserveClient q s)) = core (commit p r s)"
  using assms
  by (simp add: ObserveClient_def ObserveServer_def Let_def update_conv)
     (simp add: core_def commit_def split: option.split)

lemmas sample_parse =
  parse_attach [where un = "[]" and an = "[]" and tag = 1 and fid = 5 and afid = "0xFFFFFFFF" and n = 0]
  parse_walk [where names = "[[97], [98]]" and tag = 1 and fid = 5 and newfid = 6]
  parse_lopen [where tag = 2 and fid = 6 and flags = "0x241"]

lemma sample_answered: "answered sample_history"
  using sample_parse by (simp add: answered_def sample_history_def str_fits_def)

lemma sample_core:
  "core (session_of sample_history) =
     ([(5, \<lparr>f_names = [], f_root = True, f_open = False, f_flags = 0\<rparr>),
       (6, \<lparr>f_names = [[97], [98]], f_root = False, f_open = True, f_flags = 0x241\<rparr>)], True, 5, versionString, [], [])"
proof -
  let ?q1 = "msg_frame tTattach 1 (attach_body 5 0xFFFFFFFF [] [] 0)" and ?r1 = "msg_frame tRattach 1 []"
  let ?q2 = "msg_frame tTwalk 1 (walk_body 5 6 [[97], [98]])" and ?r2 = "msg_frame tRwalk 1 (AppendUint16 2)"
  let ?q3 = "msg_frame tTlopen 2 (lopen_body 6 0x241)" and ?r3 = "msg_frame tRlopen 2 []"
  let ?s1 = "ObserveServer ?r1 (ObserveClient ?q1 NewSession)"
  let ?s2 = "ObserveServer ?r2 (ObserveClient ?q2 ?s1)"
  have ne: "tTattach \<noteq> tTremove" "tTattach \<noteq> tTflush" "tTwalk \<noteq> tTremove" "tTwalk \<noteq> tTflush" "tTlopen \<noteq> tTremove" "tTlopen \<noteq> tTflush"
    by (simp_all add: request_types)
  have 1: "core ?s1 = ([(5, \<lparr>f_names = [], f_root = True, f_open = False, f_flags = 0\<rparr>)], True, 5, versionString, [], [])"
    by (subst core_exchange [OF _ _ _ sample_parse(1)])
       (simp_all add: str_fits_def zero_req_def ne reply_not_error, simp add: core_def commit_def NewSession_def request_types)
  have 2: "core ?s2 = ([(5, \<lparr>f_names = [], f_root = True, f_open = False, f_flags = 0\<rparr>),
       (6, \<lparr>f_names = [[97], [98]], f_root = False, f_open = False, f_flags = 0\<rparr>)], True, 5, versionString, [], [])"
    using 1 by (subst core_exchange [OF _ _ _ sample_parse(2)])
       (simp_all add: str_fits_def zero_req_def ne reply_not_error, simp add: core_def commit_def request_types cursor_of_at)
  have "core (ObserveServer ?r3 (ObserveClient ?q3 ?s2)) = ([(5, \<lparr>f_names = [], f_root = True, f_open = False, f_flags = 0\<rparr>),
       (6, \<lparr>f_names = [[97], [98]], f_root = False, f_open = True, f_flags = 0x241\<rparr>)], True, 5, versionString, [], [])"
    using 2 by (subst core_exchange [OF _ _ _ sample_parse(3)])
       (simp_all add: zero_req_def ne reply_not_error, simp add: core_def commit_def request_types)
  then show ?thesis by (simp add: session_of_def sample_history_def)
qed


end
