(* ===== verification/Nine_Resend.thy ===== *)
theory Nine_Resend
  imports Nine_Proxy
begin

text \<open>
  What a reconnect re-delivers: over every interleaving of requests and replies, the
  requests \<^verbatim>\<open>ResendOutstanding\<close> writes are exactly those still waiting for an answer, in the
  order they were sent; and what a second attach does to the tracked session.
\<close>

section \<open>Unanswered requests\<close>

datatype nine_event = Sent "byte list" | Got "byte list"

fun observe :: "Session \<Rightarrow> nine_event \<Rightarrow> Session" where
  "observe s (Sent m) = ObserveClient m s"
| "observe s (Got m) = ObserveServer m s"

text \<open>The reference: a list of requests in send order.  A reply removes the request of its
  tag and, when that is a flush, the request the flush cancels.\<close>

definition without :: "16 word \<Rightarrow> byte list list \<Rightarrow> byte list list" where
  "without t us = filter (\<lambda>u. msgTag u \<noteq> t) us"

definition request_of :: "16 word \<Rightarrow> byte list list \<Rightarrow> byte list option" where
  "request_of t us = find (\<lambda>u. msgTag u = t) us"

definition flushes :: "byte list \<Rightarrow> 16 word option" where
  "flushes u = (case parse_req u of Some p \<Rightarrow> if pr_typ p = tTflush then Some (pr_oldtag p) else None | None \<Rightarrow> None)"

fun unanswered_step :: "byte list list \<Rightarrow> nine_event \<Rightarrow> byte list list" where
  "unanswered_step us (Sent m) = (if length m < headerLen then us else us @ [m])"
| "unanswered_step us (Got m) =
     (if length m < headerLen then us
      else case request_of (msgTag m) us of
             None \<Rightarrow> us
           | Some u \<Rightarrow> (case flushes u of None \<Rightarrow> without (msgTag m) us | Some old \<Rightarrow> without old (without (msgTag m) us)))"

definition unanswered :: "nine_event list \<Rightarrow> byte list list" where
  "unanswered tr = foldl unanswered_step [] tr"

text \<open>The kernel does not reuse a tag that is still unanswered.\<close>

fun fresh_from :: "byte list list \<Rightarrow> nine_event list \<Rightarrow> bool" where
  "fresh_from us [] = True"
| "fresh_from us (e # tr) \<longleftrightarrow>
     (case e of Sent m \<Rightarrow> msgTag m \<notin> set (map msgTag us) | Got m \<Rightarrow> True) \<and> fresh_from (unanswered_step us e) tr"

section \<open>The bookkeeping invariant\<close>

definition raws :: "(16 word \<times> (nat \<times> byte list)) list \<Rightarrow> byte list list" where
  "raws os = map (\<lambda>(t, q, raw). raw) os"

definition books :: "Session \<Rightarrow> byte list list \<Rightarrow> bool" where
  "books s us \<longleftrightarrow> raws (outstanding s) = us \<and> map fst (outstanding s) = map msgTag us \<and> distinct (map msgTag us) \<and>
     sorted (map (\<lambda>(t, q, raw). q) (outstanding s)) \<and> (\<forall>(t, q, raw) \<in> set (outstanding s). q \<le> outSeq s) \<and>
     (\<forall>t. map_of (pendings s) t = Option.bind (request_of t us) parse_req)"

lemma books_start: "books NewSession []"
  by (simp add: books_def NewSession_def raws_def request_of_def)

lemma update_fresh: "k \<notin> set (map fst al) \<Longrightarrow> AList.update k v al = al @ [(k, v)]"
  by (induction al) auto

lemma request_of_append: "request_of t (us @ [m]) = (case request_of t us of Some u \<Rightarrow> Some u | None \<Rightarrow> if msgTag m = t then Some m else None)"
  by (induction us) (auto simp: request_of_def)

lemma request_of_None: "request_of t us = None \<longleftrightarrow> t \<notin> set (map msgTag us)"
  by (auto simp: request_of_def find_None_iff)

lemma request_of_without: "request_of t (without t' us) = (if t = t' then None else request_of t us)"
  by (induction us) (auto simp: request_of_def without_def)

lemma books_Sent:
  assumes "books s us" "msgTag m \<notin> set (map msgTag us)" "\<not> length m < headerLen"
  shows "books (ObserveClient m s) (us @ [m])"
proof -
  have new: "request_of (msgTag m) us = None" using assms(2) by (simp add: request_of_None)
  have up: "AList.update (msgTag m) (outSeq s + 1, m) (outstanding s) = outstanding s @ [(msgTag m, outSeq s + 1, m)]"
    using assms by (intro update_fresh) (simp add: books_def)
  have p: "map_of (pendings (ObserveClient m s)) t = Option.bind (request_of t (us @ [m])) parse_req" for t
    using assms(1,3) new by (auto simp: ObserveClient_def Let_def books_def update_conv request_of_append split: option.splits)
  have o: "outstanding (ObserveClient m s) = outstanding s @ [(msgTag m, outSeq s + 1, m)]" "outSeq (ObserveClient m s) = outSeq s + 1"
    using assms(3) up by (simp_all add: ObserveClient_def Let_def split: option.splits)
  show ?thesis
    using assms(1,2) p unfolding books_def o
    by (auto simp: raws_def sorted_append le_SucI)
qed

lemma raws_delete:
  assumes "map fst os = map msgTag (raws os)"
  shows "raws (AList.delete t os) = without t (raws os) \<and> map fst (AList.delete t os) = map msgTag (without t (raws os))"
proof -
  have "\<forall>x \<in> set os. fst x = msgTag (snd (snd x))" using assms by (induction os) (auto simp: raws_def)
  then show ?thesis by (induction os) (auto simp: raws_def without_def)
qed

lemma sorted_delete: "sorted (map f os) \<Longrightarrow> sorted (map f (AList.delete t os))"
  by (simp add: AList.delete_eq sorted_filter)

lemma set_delete: "x \<in> set (AList.delete t os) \<Longrightarrow> x \<in> set os"
  by (auto simp: AList.delete_eq)

lemma distinct_without: "distinct (map msgTag us) \<Longrightarrow> distinct (map msgTag (without t us))"
  by (simp add: without_def distinct_map_filter)

text \<open>Deleting a tag from both tables is the reference's removal.\<close>

lemma books_delete:
  assumes "books s us" "outstanding s' = AList.delete t (outstanding s)" "pendings s' = AList.delete t (pendings s)" "outSeq s' = outSeq s"
  shows "books s' (without t us)"
proof -
  have r: "raws (outstanding s') = without t us \<and> map fst (outstanding s') = map msgTag (without t us)"
    using raws_delete [of "outstanding s" t] assms(1,2) by (simp add: books_def)
  have "map_of (pendings s') u = Option.bind (request_of u (without t us)) parse_req" for u
    using assms(1,3) by (auto simp: books_def delete_conv request_of_without)
  then show ?thesis
    using r assms by (auto simp: books_def distinct_without sorted_delete dest: set_delete)
qed

lemma books_cong:
  "books s us \<Longrightarrow> outstanding s' = outstanding s \<Longrightarrow> pendings s' = pendings s \<Longrightarrow> outSeq s' = outSeq s \<Longrightarrow> books s' us"
  by (simp add: books_def)

lemma commit_books [simp]:
  "outstanding (commit p m s) = outstanding s" "pendings (commit p m s) = pendings s" "outSeq (commit p m s) = outSeq s"
  by (simp_all add: commit_def split: option.split)

lemma without_id: "t \<notin> set (map msgTag us) \<Longrightarrow> without t us = us"
  by (auto simp: without_def intro!: filter_True)

lemma books_Got:
  assumes "books s us" "\<not> length m < headerLen"
  shows "books (ObserveServer m s) (unanswered_step us (Got m))"
proof -
  let ?t = "msgTag m"
  let ?s1 = "s\<lparr>outstanding := AList.delete ?t (outstanding s), pendings := AList.delete ?t (pendings s)\<rparr>"
  have b1: "books ?s1 (without ?t us)" by (rule books_delete [OF assms(1)]) simp_all
  have pend: "map_of (pendings s) ?t = Option.bind (request_of ?t us) parse_req" using assms(1) by (simp add: books_def)
  show ?thesis
  proof (cases "request_of ?t us")
    case None
    then have out: "AList.delete ?t (pendings s) = pendings s"
      using pend by (intro delete_id) (simp add: map_of_eq_None_iff)
    have "books ?s1 us" using b1 None by (simp add: without_id request_of_None)
    then have "books (s\<lparr>outstanding := AList.delete ?t (outstanding s)\<rparr>) us"
      by (rule books_cong) (simp_all add: out)
    then show ?thesis using assms(2) None pend by (simp add: ObserveServer_def Let_def)
  next
    case (Some u)
    show ?thesis
    proof (cases "parse_req u")
      case None
      then have out: "AList.delete ?t (pendings s) = pendings s"
        using pend Some by (intro delete_id) (simp add: map_of_eq_None_iff)
      have "books (s\<lparr>outstanding := AList.delete ?t (outstanding s)\<rparr>) (without ?t us)"
        using b1 by (rule books_cong) (simp_all add: out)
      then show ?thesis using assms(2) Some None pend by (simp add: ObserveServer_def Let_def flushes_def)
    next
      case (Some p)
      then have pd: "map_of (pendings s) ?t = Some p" using pend \<open>request_of ?t us = Some u\<close> by simp
      show ?thesis
      proof (cases "pr_typ p = tTflush")
        case True
        let ?s2 = "?s1\<lparr>outstanding := AList.delete (pr_oldtag p) (outstanding ?s1), pendings := AList.delete (pr_oldtag p) (pendings ?s1)\<rparr>"
        have "books ?s2 (without (pr_oldtag p) (without ?t us))" by (rule books_delete [OF b1]) simp_all
        then show ?thesis
          using assms(2) pd True Some \<open>request_of ?t us = Some u\<close>
          by (simp add: ObserveServer_def Let_def flushes_def request_types)
      next
        case False
        have "books (ObserveServer m s) (without ?t us)"
          using b1 by (rule books_cong) (use assms(2) pd False in \<open>simp_all add: ObserveServer_def Let_def\<close>)
        then show ?thesis using assms(2) False Some \<open>request_of ?t us = Some u\<close> by (simp add: flushes_def)
      qed
    qed
  qed
qed

lemma observe_short: "length m < headerLen \<Longrightarrow> observe s (Sent m) = s" "length m < headerLen \<Longrightarrow> observe s (Got m) = s"
  by (simp_all add: ObserveClient_def ObserveServer_def)

lemma books_step:
  assumes "books s us" "case e of Sent m \<Rightarrow> msgTag m \<notin> set (map msgTag us) | Got m \<Rightarrow> True"
  shows "books (observe s e) (unanswered_step us e)"
proof (cases e)
  case (Sent m)
  then show ?thesis
    using assms books_Sent [of s us m] observe_short(1) [of m s] by (cases "length m < headerLen") simp_all
next
  case (Got m)
  then show ?thesis
    using assms books_Got [of s us m] observe_short(2) [of m s] by (cases "length m < headerLen") simp_all
qed

lemma books_run: "books s us \<Longrightarrow> fresh_from us tr \<Longrightarrow> books (foldl observe s tr) (foldl unanswered_step us tr)"
  by (induction tr arbitrary: s us) (simp_all add: books_step)

section \<open>Re-delivery\<close>

text \<open>A connection that records what is written to it.\<close>

definition log_server :: "byte list list server" where
  "log_server m log = (Some [], log @ [m])"

lemma resend_log: "resend log_server os \<lparr>cn_srv = log, cn_in = r\<rparr> = (None, \<lparr>cn_srv = log @ raws os, cn_in = r\<rparr>)"
  by (induction os arbitrary: log) (auto simp: conn_Write_def log_server_def raws_def)

text \<open>
  A reconnect re-delivers every unanswered request and nothing else.  Whatever the order
  of requests and replies, as long as the kernel does not reuse a tag that is still waiting,
  the messages \<open>ResendOutstanding\<close> writes are the requests with no reply yet, byte for byte and
  in the order they were sent; requests cancelled by an acknowledged flush are not among them.
\<close>

theorem resend_exactly_unanswered:
  assumes "fresh_from [] tr"
  shows "ResendOutstanding log_server (foldl observe NewSession tr) \<lparr>cn_srv = [], cn_in = []\<rparr> =
    (None, \<lparr>cn_srv = unanswered tr, cn_in = []\<rparr>)"
proof -
  let ?s = "foldl observe NewSession tr"
  have b: "books ?s (unanswered tr)" unfolding unanswered_def by (rule books_run [OF books_start assms])
  have "sort_key (\<lambda>(t, q, raw). q) (outstanding ?s) = outstanding ?s"
    using b by (intro sort_key_id_if_sorted) (simp add: books_def)
  then show ?thesis using b by (simp add: ResendOutstanding_def send_order_def resend_log books_def)
qed

definition sample_trace :: "nine_event list" where
  "sample_trace = [Sent (msg_frame tTclunk 1 (clunk_body 3)), Sent (msg_frame 24 2 (AppendUint32 9)), Got (msg_frame tRclunk 1 [])]"

theorem resend_exactly_unanswered_witness:
  "ResendOutstanding log_server (foldl observe NewSession sample_trace) \<lparr>cn_srv = [], cn_in = []\<rparr> =
     (None, \<lparr>cn_srv = unanswered sample_trace, cn_in = []\<rparr>)"
  by (rule resend_exactly_unanswered) (simp add: sample_trace_def)

section \<open>A second attach\<close>

text \<open>
  With \<^verbatim>\<open>access=client\<close> (\<^verbatim>\<open>firecracker/ninep.go\<close>) the kernel attaches once per user.  The
  session keeps the parameters of the last attach only, and the replay re-attaches only that
  root fid: the earlier one is tracked as a root, so it is not walked either.
\<close>

definition two_attaches :: "32 word \<Rightarrow> 32 word \<Rightarrow> 32 word \<Rightarrow> 32 word \<Rightarrow> (byte list \<times> byte list) list" where
  "two_attaches a b u v =
     [(msg_frame tTattach 1 (attach_body a 0xFFFFFFFF [] [] u), msg_frame tRattach 1 []),
      (msg_frame tTattach 1 (attach_body b 0xFFFFFFFF [] [] v), msg_frame tRattach 1 [])]"

definition root_state :: fidState where
  "root_state = \<lparr>f_names = [], f_root = True, f_open = False, f_flags = 0\<rparr>"

lemma core_attach:
  "core (ObserveServer (msg_frame tRattach 1 []) (ObserveClient (msg_frame tTattach 1 (attach_body x af [] [] w)) s)) =
     (AList.update x root_state (fids s), True, x, n_version s, [], [])"
proof -
  have ne: "tTattach \<noteq> tTremove" "tTattach \<noteq> tTflush" by (simp_all add: request_types)
  have fit: "str_fits []" by (simp add: str_fits_def)
  show ?thesis
    by (subst core_exchange [OF _ _ _ parse_attach [OF fit fit]])
       (simp_all add: ne reply_not_error, simp add: core_def commit_def zero_req_def root_state_def request_types)
qed

lemma two_attaches_core:
  assumes "a \<noteq> b"
  shows "core (session_of (two_attaches a b u v)) = ([(a, root_state), (b, root_state)], True, b, versionString, [], [])"
proof -
  let ?s = "ObserveServer (msg_frame tRattach 1 []) (ObserveClient (msg_frame tTattach 1 (attach_body a 0xFFFFFFFF [] [] u)) NewSession)"
  have "fids ?s = [(a, root_state)]" "n_version ?s = versionString"
    using core_attach [of a "0xFFFFFFFF" u NewSession] by (simp_all add: core_def) (simp_all add: NewSession_def)
  then show ?thesis
    using core_attach [of b "0xFFFFFFFF" v ?s] assms by (simp add: session_of_def two_attaches_def)
qed

text \<open>
  A second attach loses the first root.  After two attaches the session knows both root
  fids, yet a replay reports success and leaves the new server without the first one, so
  every request the kernel still sends on that fid fails.
\<close>

theorem second_attach_loses_first_root:
  assumes "nine_server srv tab ex" "cn_in c = []" "a \<noteq> b"
  shows "\<exists>c'. Replay srv (session_of (two_attaches a b u v)) c = (None, c') \<and>
     abs_tab (session_of (two_attaches a b u v)) a = Some ([], None) \<and> tab (cn_srv c') a = None"
proof -
  let ?s = "session_of (two_attaches a b u v)"
  have s: "fids ?s = [(a, root_state), (b, root_state)]" "haveAttach ?s" "rootFid ?s = b" "n_version ?s = versionString"
    "n_uname ?s = []" "n_aname ?s = []"
    using two_attaches_core [OF assms(3), of u v] by (simp_all add: core_def)
  have fits: "str_fits (n_version ?s)" "str_fits (n_uname ?s)" "str_fits (n_aname ?s)"
    by (simp_all add: s str_fits_def versionString_def)
  obtain r1 c1 r2 c2 where hs: "roundTrip srv (msg_frame tTversion notag (version_body (n_msize ?s) (n_version ?s))) tRversion c = (Inr r1, c1)"
    "roundTrip srv (msg_frame tTattach 0 (attach_body (rootFid ?s) (n_afid ?s) (n_uname ?s) (n_aname ?s) (n_nUname ?s))) tRattach c1 = (Inr r2, c2)"
    "tab (cn_srv c2) = [rootFid ?s \<mapsto> ([], None)]"
    using handshake_fits [OF assms(1) fits assms(2)] by blast
  have "replay_opens srv ?s fs c2 = (None, c2)" if "set fs \<subseteq> {a, b}" for fs
    using that by (induction fs) (auto simp: s root_state_def)
  then have "replay_opens srv ?s (sortedFids (fids ?s)) c2 = (None, c2)" by (simp add: sortedFids_def s)
  then have "Replay srv ?s c = (None, c2)" using hs(1,2) by (simp add: Replay_def s root_state_def)
  moreover have "abs_tab ?s a = Some ([], None)" by (simp add: abs_tab_def s root_state_def)
  moreover have "tab (cn_srv c2) a = None" using hs(3) assms(3) by (simp add: s)
  ultimately show ?thesis by blast
qed

theorem second_attach_loses_first_root_witness:
  "\<exists>c'. Replay (table_server (\<lambda>_. True)) (session_of (two_attaches 1 2 0 1000)) \<lparr>cn_srv = Map.empty, cn_in = []\<rparr> = (None, c') \<and>
     abs_tab (session_of (two_attaches 1 2 0 1000)) 1 = Some ([], None) \<and> id (cn_srv c') 1 = None"
  by (rule second_attach_loses_first_root [OF table_server_ok]) simp_all

end
