(* ===== verification/Nine_Pump.thy ===== *)
theory Nine_Pump
  imports Nine_Resend
begin

text \<open>
  The two pumps and the reconnect (\<^verbatim>\<open>internal/nineproxy/proxy.go\<close>) as atomic steps over the
  state the mutex guards; a pump holds a message between the step that observes it and the
  step that forwards it.  Logs record what each side was given.
\<close>

section \<open>The proxy\<close>

datatype proxy_error = errClosed | ReplayErr nine_error

record 's NineProxy =
  px_sess :: Session
  px_host :: "'s conn option"
  px_gen :: nat
  px_closed :: bool

definition NewProxy :: "'s conn option \<Rightarrow> 's NineProxy" where
  "NewProxy h = \<lparr>px_sess = NewSession, px_host = h, px_gen = 0, px_closed = False\<rparr>"

definition currentHost :: "'s NineProxy \<Rightarrow> 's conn option \<times> nat \<times> bool" where
  "currentHost p = (px_host p, px_gen p, \<not> px_closed p)"

definition markHostDead :: "nat \<Rightarrow> 's NineProxy \<Rightarrow> 's NineProxy" where
  "markHostDead gen p = (if px_gen p = gen \<and> px_host p \<noteq> None then p\<lparr>px_host := None\<rparr> else p)"

text \<open>\<^verbatim>\<open>waitNewHost\<close> goes on when a reconnect happened or the proxy is closed; \<open>None\<close> while it
  waits.\<close>

definition waitNewHost :: "nat \<Rightarrow> 's NineProxy \<Rightarrow> bool option" where
  "waitNewHost gen p = (if px_gen p = gen \<and> \<not> px_closed p then None else Some (\<not> px_closed p))"

definition Reconnect :: "'s server \<Rightarrow> 's conn \<Rightarrow> 's NineProxy \<Rightarrow> proxy_error option \<times> 's NineProxy" where
  "Reconnect srv newHost p =
     (if px_closed p then (Some errClosed, p)
      else case Replay srv (px_sess p) newHost of
             (Some e, c1) \<Rightarrow> (Some (ReplayErr e), p)
           | (None, c1) \<Rightarrow>
               (case ResendOutstanding srv (px_sess p) c1 of
                  (Some e, c2) \<Rightarrow> (Some (ReplayErr e), p)
                | (None, c2) \<Rightarrow> (None, p\<lparr>px_host := Some c2, px_gen := px_gen p + 1\<rparr>)))"

definition Close_proxy :: "'s NineProxy \<Rightarrow> 's NineProxy" where
  "Close_proxy p = (if px_closed p then p else p\<lparr>px_closed := True, px_host := None\<rparr>)"

text \<open>One turn of the loop of \<^verbatim>\<open>writeHost\<close>.\<close>

datatype 's write_turn = WClosed | WDone "'s NineProxy" | WRedelivered | WAgain "'s NineProxy"

definition writeHost :: "'s server \<Rightarrow> byte list \<Rightarrow> nat \<Rightarrow> 's NineProxy \<Rightarrow> 's write_turn" where
  "writeHost srv m obsGen p = (case currentHost p of (h, gen, ok) \<Rightarrow>
     if \<not> ok then WClosed
     else if gen \<noteq> obsGen then WRedelivered
     else case h of
            None \<Rightarrow> WAgain p
          | Some c \<Rightarrow>
              (case conn_Write srv m c of
                 (None, c') \<Rightarrow> WDone (p\<lparr>px_host := Some c'\<rparr>)
               | (Some e, c') \<Rightarrow> WAgain (markHostDead gen p)))"

section \<open>The pumps\<close>

datatype kh_pc = KRead | KWrite "byte list" nat | KDone
datatype hk_pc = HRead | HGot "byte list" | HDone

text \<open>\<open>observed\<close>: requests observed since the current connection was installed; \<open>forwarded\<close>:
  those written to it by the pump; \<open>redelivered\<close>: those the reconnect wrote; \<open>replies\<close>: what
  the kernel was given.\<close>

record 's nine_sys =
  proxy :: "'s NineProxy"
  kh :: kh_pc
  hk :: hk_pc
  observed :: "byte list list"
  forwarded :: "byte list list"
  redelivered :: "byte list list"
  replies :: "byte list list"

definition nine_init :: "'s nine_sys \<Rightarrow> bool" where
  "nine_init y \<longleftrightarrow> (\<exists>h. y = \<lparr>proxy = NewProxy h, kh = KRead, hk = HRead, observed = [], forwarded = [], redelivered = [], replies = []\<rparr>)"

inductive nine_step :: "'s server \<Rightarrow> 's nine_sys \<Rightarrow> 's nine_sys \<Rightarrow> bool" for srv where
  k_observe: "kh y = KRead \<Longrightarrow> headerLen \<le> length m \<Longrightarrow>
    nine_step srv y (y\<lparr>proxy := (proxy y)\<lparr>px_sess := ObserveClient m (px_sess (proxy y))\<rparr>,
      kh := KWrite m (px_gen (proxy y)), observed := observed y @ [m]\<rparr>)"
| k_written: "kh y = KWrite m g \<Longrightarrow> writeHost srv m g (proxy y) = WDone p \<Longrightarrow>
    nine_step srv y (y\<lparr>proxy := p, kh := KRead, forwarded := forwarded y @ [m]\<rparr>)"
| k_redelivered: "kh y = KWrite m g \<Longrightarrow> writeHost srv m g (proxy y) = WRedelivered \<Longrightarrow>
    nine_step srv y (y\<lparr>kh := KRead\<rparr>)"
| k_again: "kh y = KWrite m g \<Longrightarrow> writeHost srv m g (proxy y) = WAgain p \<Longrightarrow> nine_step srv y (y\<lparr>proxy := p\<rparr>)"
| k_closed: "kh y = KWrite m g \<Longrightarrow> writeHost srv m g (proxy y) = WClosed \<Longrightarrow>
    nine_step srv y (y\<lparr>proxy := Close_proxy (proxy y), kh := KDone\<rparr>)"
| k_eof: "kh y = KRead \<Longrightarrow> nine_step srv y (y\<lparr>proxy := Close_proxy (proxy y), kh := KDone\<rparr>)"
| h_read: "hk y = HRead \<Longrightarrow> px_host (proxy y) = Some c \<Longrightarrow> ReadMsg (cn_in c) = (Inr m, r) \<Longrightarrow>
    nine_step srv y (y\<lparr>proxy := (proxy y)\<lparr>px_host := Some (c\<lparr>cn_in := r\<rparr>)\<rparr>, hk := HGot m\<rparr>)"
| h_dead: "hk y = HRead \<Longrightarrow> px_host (proxy y) \<noteq> None \<Longrightarrow>
    nine_step srv y (y\<lparr>proxy := markHostDead (px_gen (proxy y)) (proxy y)\<rparr>)"
| h_reply: "hk y = HGot m \<Longrightarrow>
    nine_step srv y (y\<lparr>proxy := (proxy y)\<lparr>px_sess := ObserveServer m (px_sess (proxy y))\<rparr>, hk := HRead, replies := replies y @ [m]\<rparr>)"
| h_closed: "hk y = HRead \<Longrightarrow> px_closed (proxy y) \<Longrightarrow> nine_step srv y (y\<lparr>hk := HDone\<rparr>)"
| reconnect: "Reconnect srv newHost (proxy y) = (None, p) \<Longrightarrow>
    nine_step srv y (y\<lparr>proxy := p, observed := [], forwarded := [], redelivered := raws (send_order (outstanding (px_sess (proxy y))))\<rparr>)"
| reconnect_failed: "Reconnect srv newHost (proxy y) = (Some e, p) \<Longrightarrow> nine_step srv y (y\<lparr>proxy := p\<rparr>)"
| close: "nine_step srv y (y\<lparr>proxy := Close_proxy (proxy y)\<rparr>)"

section \<open>Delivery\<close>

text \<open>The message the kernel pump holds for the current connection.\<close>

definition in_hand :: "'s nine_sys \<Rightarrow> byte list list" where
  "in_hand y = (case kh y of KWrite m g \<Rightarrow> if g = px_gen (proxy y) \<and> \<not> px_closed (proxy y) then [m] else [] | _ \<Rightarrow> [])"

definition delivering :: "'s nine_sys \<Rightarrow> bool" where
  "delivering y \<longleftrightarrow>
     (\<not> px_closed (proxy y) \<longrightarrow> observed y = forwarded y @ in_hand y \<and> kh y \<noteq> KDone) \<and>
     (\<forall>m g. kh y = KWrite m g \<longrightarrow> g \<le> px_gen (proxy y)) \<and>
     set (raws (outstanding (px_sess (proxy y)))) \<subseteq> set (redelivered y) \<union> set (observed y)"

lemma in_set_update: "x \<in> set (AList.update k v al) \<Longrightarrow> x = (k, v) \<or> x \<in> set al"
  by (induction al) (auto split: if_splits)

lemma raws_update: "set (raws (AList.update t (q, m) os)) \<subseteq> insert m (set (raws os))"
proof -
  have "set (AList.update t (q, m) os) \<subseteq> insert (t, q, m) (set os)" by (auto dest: in_set_update)
  from image_mono [OF this, of "\<lambda>(t, q, raw). raw"] show ?thesis by (simp add: raws_def)
qed

lemma raws_set_delete: "set (raws (AList.delete t os)) \<subseteq> set (raws os)"
  unfolding raws_def set_map by (rule image_mono) (auto dest: set_delete)

lemma ObserveClient_raws: "set (raws (outstanding (ObserveClient m s))) \<subseteq> insert m (set (raws (outstanding s)))"
  using raws_update [of "msgTag m" "outSeq s + 1" m "outstanding s"]
  by (auto simp: ObserveClient_def Let_def split: option.split)

lemma ObserveServer_raws: "set (raws (outstanding (ObserveServer m s))) \<subseteq> set (raws (outstanding s))"
proof -
  have "outstanding (ObserveServer m s) = outstanding s \<or> (\<exists>t. outstanding (ObserveServer m s) = AList.delete t (outstanding s)) \<or>
     (\<exists>t u. outstanding (ObserveServer m s) = AList.delete u (AList.delete t (outstanding s)))"
    by (auto simp: ObserveServer_def Let_def split: option.split)
  then show ?thesis using raws_set_delete [THEN subset_trans, OF raws_set_delete] raws_set_delete by (elim disjE exE) simp_all
qed

lemma raws_send_order: "set (raws (send_order os)) = set (raws os)"
  by (simp add: raws_def send_order_def)

lemma markHostDead_simps [simp]:
  "px_gen (markHostDead g p) = px_gen p" "px_sess (markHostDead g p) = px_sess p" "px_closed (markHostDead g p) = px_closed p"
  by (simp_all add: markHostDead_def)

lemma Close_proxy_simps [simp]:
  "px_gen (Close_proxy p) = px_gen p" "px_sess (Close_proxy p) = px_sess p" "px_closed (Close_proxy p)"
  by (simp_all add: Close_proxy_def)

lemma writeHost_keeps:
  assumes "writeHost srv m g p = WDone p' \<or> writeHost srv m g p = WAgain p'"
  shows "px_gen p' = px_gen p" "px_sess p' = px_sess p" "px_closed p' = px_closed p" "\<not> px_closed p" "g = px_gen p"
  using assms by (auto simp: writeHost_def currentHost_def split: if_splits option.splits prod.splits)

lemma writeHost_redelivered: "writeHost srv m g p = WRedelivered \<Longrightarrow> \<not> px_closed p \<and> g \<noteq> px_gen p"
  by (auto simp: writeHost_def currentHost_def split: if_splits option.splits prod.splits)

lemma Reconnect_keeps:
  "Reconnect srv h p = (None, p') \<Longrightarrow> px_gen p' = px_gen p + 1 \<and> px_sess p' = px_sess p \<and> \<not> px_closed p' \<and> \<not> px_closed p"
  "Reconnect srv h p = (Some e, p') \<Longrightarrow> p' = p"
  by (auto simp: Reconnect_def split: if_splits option.splits prod.splits)

lemma delivering_step: "nine_step srv y z \<Longrightarrow> delivering y \<Longrightarrow> delivering z"
proof (induction rule: nine_step.induct)
  case (k_observe y m)
  then show ?case
    using ObserveClient_raws [of m "px_sess (proxy y)"] by (auto simp: delivering_def in_hand_def)
next
  case (k_written y m g p)
  then show ?case using writeHost_keeps [of srv m g "proxy y" p] by (auto simp: delivering_def in_hand_def)
next
  case (k_redelivered y m g)
  then show ?case using writeHost_redelivered [of srv m g "proxy y"] by (auto simp: delivering_def in_hand_def)
next
  case (k_again y m g p)
  then show ?case using writeHost_keeps [of srv m g "proxy y" p] by (auto simp: delivering_def in_hand_def)
next
  case (h_reply y m)
  then show ?case
    using ObserveServer_raws [of m "px_sess (proxy y)"] by (auto simp: delivering_def in_hand_def split: kh_pc.splits)
next
  case (reconnect newHost y p)
  then show ?case
    using Reconnect_keeps(1) [of srv newHost "proxy y" p]
    by (auto simp: delivering_def in_hand_def raws_send_order split: kh_pc.splits)
next
  case (reconnect_failed newHost y e p)
  then show ?case using Reconnect_keeps(2) [of srv newHost "proxy y" e p] by simp
qed (auto simp: delivering_def in_hand_def split: kh_pc.splits)

lemma delivering_init: "nine_init y \<Longrightarrow> delivering y"
  by (auto simp: nine_init_def delivering_def in_hand_def NewProxy_def NewSession_def raws_def)

interpretation pumps: invariant_system nine_init "nine_step srv" delivering for srv
  by unfold_locales (auto intro: delivering_init delivering_step)


section \<open>A reply in hand across a reconnect\<close>

text \<open>A request sent, executed by the server and its reply read by the pump.\<close>

definition half_done :: "byte list \<Rightarrow> byte list \<Rightarrow> 's \<Rightarrow> 's nine_sys \<Rightarrow> 's nine_sys" where
  "half_done q r st y = y\<lparr>proxy := (proxy y)\<lparr>px_sess := ObserveClient q (px_sess (proxy y)), px_host := Some \<lparr>cn_srv = st, cn_in = []\<rparr>\<rparr>,
     kh := KRead, hk := HGot r, observed := observed y @ [q], forwarded := forwarded y @ [q]\<rparr>"

lemma half_exchange:
  assumes "kh y = KRead" "hk y = HRead" "\<not> px_closed (proxy y)" "px_host (proxy y) = Some \<lparr>cn_srv = st, cn_in = []\<rparr>"
    "headerLen \<le> length q" "srv q st = (Some (msg_frame t tag b), st')" "headerLen + length b \<le> 16777216"
  shows "(nine_step srv)\<^sup>*\<^sup>* y (half_done q (msg_frame t tag b) st' y)"
proof -
  let ?r = "msg_frame t tag b" and ?s = "ObserveClient q (px_sess (proxy y))"
  let ?y1 = "y\<lparr>proxy := (proxy y)\<lparr>px_sess := ?s\<rparr>, kh := KWrite q (px_gen (proxy y)), observed := observed y @ [q]\<rparr>"
  let ?p2 = "(proxy y)\<lparr>px_sess := ?s, px_host := Some \<lparr>cn_srv = st', cn_in = ?r\<rparr>\<rparr>"
  let ?y2 = "?y1\<lparr>proxy := ?p2, kh := KRead, forwarded := forwarded y @ [q]\<rparr>"
  have 1: "nine_step srv y ?y1" by (rule k_observe [OF assms(1,5)])
  have "writeHost srv q (px_gen (proxy y)) (proxy ?y1) = WDone ?p2"
    using assms(3,4,6) by (simp add: writeHost_def currentHost_def conn_Write_def)
  then have 2: "nine_step srv ?y1 ?y2" using k_written [of ?y1 q "px_gen (proxy y)" srv ?p2] by simp
  have "ReadMsg ?r = (Inr ?r, [])" using ReadMsg_frame [OF assms(7), of t tag "[]"] by simp
  then have "nine_step srv ?y2 (?y2\<lparr>proxy := (proxy ?y2)\<lparr>px_host := Some (\<lparr>cn_srv = st', cn_in = ?r\<rparr>\<lparr>cn_in := []\<rparr>)\<rparr>, hk := HGot ?r\<rparr>)"
    using assms(2) by (intro h_read) simp_all
  then have 3: "nine_step srv ?y2 (half_done q ?r st' y)" by (cases y) (simp add: half_done_def)
  show ?thesis
    by (rule converse_rtranclp_into_rtranclp, rule 1, rule converse_rtranclp_into_rtranclp, rule 2, rule r_into_rtranclp, rule 3)
qed

definition attach5 :: "byte list" where
  "attach5 = msg_frame tTattach 1 (attach_body 5 0xFFFFFFFF [] [] 0)"

definition open5 :: "byte list" where
  "open5 = msg_frame tTlopen 2 (lopen_body 5 0)"

lemma attach5_core: "core (ObserveServer (msg_frame tRattach 1 []) (ObserveClient attach5 NewSession)) = ([(5, root_state)], True, 5, versionString, [], [])"
  unfolding attach5_def core_attach by (simp add: NewSession_def)

definition attached :: "fidtab nine_sys \<Rightarrow> bool" where
  "attached y \<longleftrightarrow> kh y = KRead \<and> hk y = HRead \<and> \<not> px_closed (proxy y) \<and>
     px_host (proxy y) = Some \<lparr>cn_srv = [5 \<mapsto> ([], None)], cn_in = []\<rparr> \<and>
     core (px_sess (proxy y)) = ([(5, root_state)], True, 5, versionString, [], []) \<and> outstanding (px_sess (proxy y)) = []"

lemma attached_reachable: "\<exists>y. reachable nine_init (nine_step (table_server ex)) y \<and> attached y"
proof -
  define y0 where "y0 = \<lparr>proxy = NewProxy (Some \<lparr>cn_srv = Map.empty :: fidtab, cn_in = []\<rparr>), kh = KRead, hk = HRead, observed = [], forwarded = [],
     redelivered = [], replies = []\<rparr>"
  define y1 where "y1 = half_done attach5 (msg_frame tRattach 1 []) [5 \<mapsto> ([], None)] y0"
  define y2 where "y2 = y1\<lparr>proxy := (proxy y1)\<lparr>px_sess := ObserveServer (msg_frame tRattach 1 []) (px_sess (proxy y1))\<rparr>, hk := HRead,
     replies := replies y1 @ [msg_frame tRattach 1 []]\<rparr>"
  have "table_server ex attach5 Map.empty = (Some (msg_frame tRattach 1 []), [5 \<mapsto> ([], None)])"
    unfolding attach5_def by (simp add: table_server_replies str_fits_def)
  then have "(nine_step (table_server ex))\<^sup>*\<^sup>* y0 y1"
    unfolding y1_def by (intro half_exchange [where st = Map.empty]) (simp_all add: y0_def NewProxy_def attach5_def headerLen_def)
  then have "reachable nine_init (nine_step (table_server ex)) y1"
    by (rule reachable_star) (rule reach_init, auto simp: y0_def nine_init_def)
  moreover have "nine_step (table_server ex) y1 y2" unfolding y2_def by (rule h_reply) (simp add: y1_def half_done_def)
  ultimately have "reachable nine_init (nine_step (table_server ex)) y2" by (rule reach_next)
  moreover have "px_sess (proxy y2) = ObserveServer (msg_frame tRattach 1 []) (ObserveClient attach5 NewSession)"
    by (simp add: y2_def y1_def half_done_def y0_def NewProxy_def)
  moreover have "outstanding (ObserveServer (msg_frame tRattach 1 []) (ObserveClient attach5 NewSession)) = []"
    using books_Got [of "ObserveClient attach5 NewSession" "[attach5]" "msg_frame tRattach 1 []"] books_Sent [OF books_start, of attach5]
    by (simp add: attach5_def request_of_def flushes_def without_def parse_attach str_fits_def books_def raws_def split: if_splits option.splits)
  ultimately show ?thesis
    using attach5_core by (intro exI [of _ y2]) (simp add: attached_def y2_def y1_def half_done_def y0_def NewProxy_def)
qed

lemma reopen_reconnect:
  assumes "attached y" and z: "z = half_done open5 r t y"
  shows "outstanding (px_sess (proxy z)) = [(2, outSeq (px_sess (proxy y)) + 1, open5)]"
    "\<exists>p. Reconnect (table_server (\<lambda>_. True)) \<lparr>cn_srv = Map.empty, cn_in = []\<rparr> (proxy z) = (None, p)"
proof -
  let ?srv = "table_server (\<lambda>_. True)" and ?s = "px_sess (proxy z)" and ?c = "\<lparr>cn_srv = Map.empty, cn_in = []\<rparr> :: fidtab conn"
  have s: "?s = ObserveClient open5 (px_sess (proxy y))" by (simp add: z half_done_def)
  have core: "core ?s = ([(5, root_state)], True, 5, versionString, [], [])"
    using assms(1) unfolding s by (simp add: attached_def ObserveClient_def core_def Let_def split: option.split)
  show out: "outstanding ?s = [(2, outSeq (px_sess (proxy y)) + 1, open5)]"
    using assms(1) unfolding s by (simp add: attached_def ObserveClient_def Let_def open5_def split: option.split)
  have wf: "wf_session ?s" using core by (simp add: core_def wf_session_def root_state_def str_fits_def versionString_def tempFidBase_def)
  obtain c1 where c1: "Replay ?srv ?s ?c = (None, c1)" "id (cn_srv c1) = tracked ?s"
    using replay_tracked [OF table_server_ok wf, of "\<lambda>_. True" ?c] by auto
  have "cn_srv c1 5 = Some ([], None)" using c1(2) core by (simp add: tracked_def core_def root_state_def)
  then have "?srv open5 (cn_srv c1) = (Some (msg_frame tRlopen 2 []), (cn_srv c1)(5 \<mapsto> ([], Some 0)))"
    unfolding open5_def by (simp add: table_server_replies)
  then have "\<exists>c2. ResendOutstanding ?srv ?s c1 = (None, c2)"
    by (simp add: ResendOutstanding_def send_order_def conn_Write_def out)
  moreover have "\<not> px_closed (proxy z)" using assms(1) by (simp add: z half_done_def attached_def)
  ultimately show "\<exists>p. Reconnect ?srv ?c (proxy z) = (None, p)" using c1(1) by (auto simp: Reconnect_def)
qed

text \<open>The reconnect does not wait for the reply pump: a reply read from the old connection can
  still be in its hand.  Its request counts as unanswered, so it is written to the new server
  as well, and the old reply reaches the kernel all the same: the request is executed twice
  and a second reply follows under a tag the kernel has retired.\<close>

theorem stale_reply_redelivered:
  "\<exists>y z. reachable nine_init (nine_step (table_server (\<lambda>_. True))) y \<and> hk y = HGot (msg_frame tRlopen 2 []) \<and>
     (nine_step (table_server (\<lambda>_. True)))\<^sup>*\<^sup>* y z \<and> px_gen (proxy z) = px_gen (proxy y) + 1 \<and>
     open5 \<in> set (redelivered z) \<and> replies z = replies y @ [msg_frame tRlopen 2 []]"
proof -
  let ?srv = "table_server (\<lambda>_. True)" and ?r = "msg_frame tRlopen 2 []"
  obtain a where a: "reachable nine_init (nine_step ?srv) a" "attached a" using attached_reachable by blast
  define y where "y = half_done open5 ?r [5 \<mapsto> ([], Some 0)] a"
  have "?srv open5 [5 \<mapsto> ([], None)] = (Some ?r, [5 \<mapsto> ([], Some 0)])" unfolding open5_def by (simp add: table_server_replies)
  then have "(nine_step ?srv)\<^sup>*\<^sup>* a y"
    unfolding y_def using a(2) by (intro half_exchange [where st = "[5 \<mapsto> ([], None)]"]) (simp_all add: attached_def open5_def headerLen_def)
  then have ry: "reachable nine_init (nine_step ?srv) y" using a(1) by (rule reachable_star)
  obtain p where p: "Reconnect ?srv \<lparr>cn_srv = Map.empty, cn_in = []\<rparr> (proxy y) = (None, p)" using reopen_reconnect(2) [OF a(2) y_def] by blast
  define w where "w = y\<lparr>proxy := p, observed := [], forwarded := [], redelivered := raws (send_order (outstanding (px_sess (proxy y))))\<rparr>"
  define z where "z = w\<lparr>proxy := (proxy w)\<lparr>px_sess := ObserveServer ?r (px_sess (proxy w))\<rparr>, hk := HRead, replies := replies w @ [?r]\<rparr>"
  have hk: "hk y = HGot ?r" by (simp add: y_def half_done_def)
  have "nine_step ?srv y w" unfolding w_def by (rule reconnect [OF p])
  moreover have "nine_step ?srv w z" unfolding z_def by (rule h_reply) (simp add: w_def hk)
  ultimately have "(nine_step ?srv)\<^sup>*\<^sup>* y z" by (meson r_into_rtranclp rtranclp_trans)
  moreover have "open5 \<in> set (redelivered z)" using reopen_reconnect(1) [OF a(2) y_def] by (simp add: z_def w_def raws_def send_order_def)
  moreover have "px_gen (proxy z) = px_gen (proxy y) + 1" using Reconnect_keeps(1) [OF p] by (simp add: z_def w_def)
  moreover have "replies z = replies y @ [?r]" by (simp add: z_def w_def)
  ultimately show ?thesis using ry hk by blast
qed


end
