(* ===== verification/Pty.thy ===== *)
theory Pty
  imports Bytes Histories
begin

text \<open>
  Terminal sessions (\<^verbatim>\<open>internal/pty/pty.go\<close>): the ring of recent output, the fan-out to
  subscribers with its two phases (the ring and the snapshot of subscribers under the lock,
  the deliveries after it), attach and detach, the gate on client input, and the nudge of
  a resize.  Opening the terminal device and starting the process are not modelled.
\<close>

type_synonym chunk = "byte list"

definition ringCap :: nat where "ringCap = 65536"
definition subBuffer :: nat where "subBuffer = 1024"

section \<open>The ring\<close>

text \<open>The trimming loop: the oldest chunks go while the ring is over its capacity, the newest
  one always stays.\<close>

fun ring_trim :: "int \<Rightarrow> chunk list \<Rightarrow> int \<times> chunk list" where
  "ring_trim sz (c # d # r) = (if sz > int ringCap then ring_trim (sz - int (length c)) (d # r) else (sz, c # d # r))"
| "ring_trim sz r = (sz, r)"

definition ring_append :: "chunk \<Rightarrow> int \<times> chunk list \<Rightarrow> int \<times> chunk list" where
  "ring_append c rs = ring_trim (fst rs + int (length c)) (snd rs @ [c])"

definition ring_ok :: "int \<times> chunk list \<Rightarrow> bool" where
  "ring_ok rs \<longleftrightarrow> fst rs = (\<Sum>c \<leftarrow> snd rs. int (length c)) \<and> (fst rs \<le> int ringCap \<or> length (snd rs) \<le> 1)"

lemma ring_trim_suffix: "suffix (snd (ring_trim sz r)) r"
  by (induction sz r rule: ring_trim.induct) (auto intro: suffix_ConsI)

lemma ring_trim_ok: "sz = (\<Sum>c \<leftarrow> r. int (length c)) \<Longrightarrow> ring_ok (ring_trim sz r)"
  by (induction sz r rule: ring_trim.induct) (auto simp: ring_ok_def)

lemma ring_trim_last: "r \<noteq> [] \<Longrightarrow> snd (ring_trim sz r) \<noteq> [] \<and> last (snd (ring_trim sz r)) = last r"
  by (induction sz r rule: ring_trim.induct) auto

interpretation scrollback: recent_log ring_append snd ring_ok
proof
  show "ring_ok (ring_append c rs)" if "ring_ok rs" for c rs
    unfolding ring_append_def by (rule ring_trim_ok) (use that in \<open>simp add: ring_ok_def\<close>)
  show "suffix (snd (ring_append c rs)) (snd rs @ [c])" for c rs
    unfolding ring_append_def by (rule ring_trim_suffix)
qed

section \<open>Gated input\<close>

record gatedWriter =
  gw_w :: writer
  gw_released :: bool
  gw_buf :: "byte list"

definition gw_Write :: "byte list \<Rightarrow> gatedWriter \<Rightarrow> io_error option \<times> gatedWriter" where
  "gw_Write b g =
     (if \<not> gw_released g then (None, g\<lparr>gw_buf := gw_buf g @ b\<rparr>)
      else case Write (gw_w g) b of (e, w) \<Rightarrow> (e, g\<lparr>gw_w := w\<rparr>))"

definition gw_release :: "gatedWriter \<Rightarrow> io_error option \<times> gatedWriter" where
  "gw_release g =
     (if gw_released g then (None, g)
      else if gw_buf g = [] then (None, g\<lparr>gw_released := True\<rparr>)
      else case Write (gw_w g) (gw_buf g) of (e, w) \<Rightarrow> (e, g\<lparr>gw_released := True, gw_w := w, gw_buf := []\<rparr>))"

datatype gate_op = GWrite "byte list" | GRelease

fun gate_run :: "gate_op list \<Rightarrow> gatedWriter \<Rightarrow> gatedWriter" where
  "gate_run [] g = g"
| "gate_run (GWrite b # ops) g = gate_run ops (snd (gw_Write b g))"
| "gate_run (GRelease # ops) g = gate_run ops (snd (gw_release g))"

definition gate_input :: "gate_op list \<Rightarrow> byte list" where
  "gate_input ops = concat (map (\<lambda>p. case p of GWrite b \<Rightarrow> b | GRelease \<Rightarrow> []) ops)"

definition gate_open :: gatedWriter where
  "gate_open = \<lparr>gw_w = \<lparr>w_out = [], w_cap = None\<rparr>, gw_released = False, gw_buf = []\<rparr>"

lemma gate_run_order:
  assumes "w_cap (gw_w g) = None" "gw_released g \<longrightarrow> gw_buf g = []"
  shows "w_out (gw_w (gate_run ops g)) @ gw_buf (gate_run ops g) = w_out (gw_w g) @ gw_buf g @ gate_input ops \<and>
     (gw_released (gate_run ops g) \<longleftrightarrow> gw_released g \<or> GRelease \<in> set ops) \<and> (gw_released (gate_run ops g) \<longrightarrow> gw_buf (gate_run ops g) = [])"
  using assms
proof (induction ops arbitrary: g)
  case Nil
  then show ?case by (simp add: gate_input_def)
next
  case (Cons p ops)
  show ?case
  proof (cases p)
    case (GWrite b)
    let ?g = "snd (gw_Write b g)"
    have "w_cap (gw_w ?g) = None" "gw_released ?g \<longrightarrow> gw_buf ?g = []" "gw_released ?g = gw_released g"
      "w_out (gw_w ?g) @ gw_buf ?g = w_out (gw_w g) @ gw_buf g @ b"
      using Cons.prems by (auto simp: gw_Write_def Write_def)
    then show ?thesis using Cons.IH [of ?g] by (auto simp: GWrite gate_input_def)
  next
    case GRelease
    let ?g = "snd (gw_release g)"
    have "w_cap (gw_w ?g) = None" "gw_released ?g" "gw_buf ?g = []" "w_out (gw_w ?g) = w_out (gw_w g) @ gw_buf g"
      using Cons.prems by (auto simp: gw_release_def Write_def)
    then show ?thesis using Cons.IH [of ?g] by (auto simp: GRelease gate_input_def)
  qed
qed

text \<open>
  Client input reaches the program complete and in order.  Whatever the interleaving of
  writes and releases (first output, timer, or both), once the gate has been released the
  terminal has received exactly the bytes written so far, each once; before that it has
  received nothing.
\<close>

theorem gated_stdin_in_order:
  "w_out (gw_w (gate_run ops gate_open)) = (if GRelease \<in> set ops then gate_input ops else [])"
proof -
  have "gw_buf (gate_run ops gate_open) = gate_input ops \<and> w_out (gw_w (gate_run ops gate_open)) = []" if "GRelease \<notin> set ops"
  proof -
    have "w_out (gw_w (gate_run ops g)) = w_out (gw_w g)" if "\<not> gw_released g" "GRelease \<notin> set ops" for g
      using that
    proof (induction ops arbitrary: g)
      case (Cons p ops)
      then show ?case by (cases p) (auto simp: gw_Write_def)
    qed simp
    from this [of gate_open] that show ?thesis using gate_run_order [of gate_open ops] by (simp add: gate_open_def)
  qed
  then show ?thesis using gate_run_order [of gate_open ops] by (auto simp: gate_open_def)
qed

section \<open>Resize\<close>

text \<open>The columns set first when the size is already current; \<open>None\<close> when no nudge is needed or
  the current size cannot be read.\<close>

definition resize_nudge :: "(16 word \<times> 16 word) option \<Rightarrow> 16 word \<Rightarrow> 16 word \<Rightarrow> 16 word option" where
  "resize_nudge cur rows cols =
     (case cur of
        None \<Rightarrow> None
      | Some (r, c) \<Rightarrow> if r = rows \<and> c = cols then Some (if cols > 1 then cols - 1 else cols + 1) else None)"

lemma resize_always_changes:
  "resize_nudge cur rows cols = Some n \<Longrightarrow> n \<noteq> cols"
  by (auto simp: resize_nudge_def split: option.splits if_splits)

section \<open>The session\<close>

record subscriber =
  sub_ch :: "chunk list"
  sub_done :: bool

text \<open>\<open>pt_subs\<close> holds every subscriber ever made, as the pointers held by snapshots and detach
  functions keep them alive; \<open>pt_reg\<close> the ids still registered.\<close>

record PtySession =
  pt_subs :: "nat \<Rightarrow> subscriber"
  pt_reg :: "nat list"
  pt_nextID :: nat
  pt_ring :: "int \<times> chunk list"
  pt_closed :: bool

definition NewPty :: PtySession where
  "NewPty = \<lparr>pt_subs = (\<lambda>_. \<lparr>sub_ch = [], sub_done = False\<rparr>), pt_reg = [], pt_nextID = 0, pt_ring = (0, []), pt_closed = False\<rparr>"

text \<open>\<^verbatim>\<open>broadcast\<close> under the lock: the ring and the snapshot.\<close>

definition broadcast_begin :: "chunk \<Rightarrow> PtySession \<Rightarrow> nat list \<times> PtySession" where
  "broadcast_begin c s = (pt_reg s, s\<lparr>pt_ring := ring_append c (pt_ring s)\<rparr>)"

text \<open>\<^verbatim>\<open>broadcast\<close> after the lock, for one subscriber: the chunk is sent when the channel has
  room, skipped when it has not or the subscriber is gone.\<close>

definition pt_send :: "chunk \<Rightarrow> nat \<Rightarrow> PtySession \<Rightarrow> PtySession" where
  "pt_send c i s = s\<lparr>pt_subs := (pt_subs s)(i := (pt_subs s i)\<lparr>sub_ch := sub_ch (pt_subs s i) @ [c]\<rparr>)\<rparr>"

definition can_send :: "nat \<Rightarrow> PtySession \<Rightarrow> bool" where
  "can_send i s \<longleftrightarrow> length (sub_ch (pt_subs s i)) < subBuffer"

definition can_skip :: "nat \<Rightarrow> PtySession \<Rightarrow> bool" where
  "can_skip i s \<longleftrightarrow> \<not> can_send i s \<or> sub_done (pt_subs s i)"

definition Attach :: "PtySession \<Rightarrow> (chunk list \<times> nat) option \<times> PtySession" where
  "Attach s =
     (if pt_closed s then (None, s)
      else (Some (snd (pt_ring s), pt_nextID s),
            s\<lparr>pt_subs := (pt_subs s)(pt_nextID s := \<lparr>sub_ch = [], sub_done = False\<rparr>),
              pt_reg := pt_reg s @ [pt_nextID s], pt_nextID := pt_nextID s + 1\<rparr>))"

definition detach :: "nat \<Rightarrow> PtySession \<Rightarrow> PtySession" where
  "detach i s =
     (if i \<in> set (pt_reg s)
      then s\<lparr>pt_reg := removeAll i (pt_reg s), pt_subs := (pt_subs s)(i := (pt_subs s i)\<lparr>sub_done := True\<rparr>)\<rparr>
      else s)"

definition finalize :: "PtySession \<Rightarrow> PtySession" where
  "finalize s = s\<lparr>pt_closed := True, pt_reg := []\<rparr>"

text \<open>The read loop, which alone broadcasts, with the subscribers around it.  The logs record
  all output, and for each subscriber the output before its attach, what it was given for
  replay, the chunks it was offered with whether they were taken, and what it has read.\<close>

record pty_sys =
  sess :: PtySession
  todo :: "(chunk \<times> nat list) option"
  printed :: "chunk list"
  before :: "nat \<Rightarrow> chunk list"
  replay :: "nat \<Rightarrow> chunk list"
  offered :: "nat \<Rightarrow> (chunk \<times> bool) list"
  received :: "nat \<Rightarrow> chunk list"

definition pty_init :: "pty_sys \<Rightarrow> bool" where
  "pty_init y \<longleftrightarrow> y = \<lparr>sess = NewPty, todo = None, printed = [], before = (\<lambda>_. []), replay = (\<lambda>_. []),
     offered = (\<lambda>_. []), received = (\<lambda>_. [])\<rparr>"

inductive pty_step :: "pty_sys \<Rightarrow> pty_sys \<Rightarrow> bool" where
  pt_output: "todo y = None \<Longrightarrow> \<not> pt_closed (sess y) \<Longrightarrow> broadcast_begin c (sess y) = (is, s) \<Longrightarrow>
    pty_step y (y\<lparr>sess := s, todo := Some (c, is), printed := printed y @ [c]\<rparr>)"
| pt_sent: "todo y = Some (c, i # is) \<Longrightarrow> can_send i (sess y) \<Longrightarrow>
    pty_step y (y\<lparr>sess := pt_send c i (sess y), todo := Some (c, is), offered := (offered y)(i := offered y i @ [(c, True)])\<rparr>)"
| pt_skipped: "todo y = Some (c, i # is) \<Longrightarrow> can_skip i (sess y) \<Longrightarrow>
    pty_step y (y\<lparr>todo := Some (c, is), offered := (offered y)(i := offered y i @ [(c, False)])\<rparr>)"
| pt_next: "todo y = Some (c, []) \<Longrightarrow> pty_step y (y\<lparr>todo := None\<rparr>)"
| pt_attach: "Attach (sess y) = (Some (r, i), s) \<Longrightarrow>
    pty_step y (y\<lparr>sess := s, before := (before y)(i := printed y), replay := (replay y)(i := r)\<rparr>)"
| pt_detach: "pty_step y (y\<lparr>sess := detach i (sess y)\<rparr>)"
| pt_recv: "sub_ch (pt_subs (sess y) i) = c # cs \<Longrightarrow>
    pty_step y (y\<lparr>sess := (sess y)\<lparr>pt_subs := (pt_subs (sess y))(i := (pt_subs (sess y) i)\<lparr>sub_ch := cs\<rparr>)\<rparr>,
      received := (received y)(i := received y i @ [c])\<rparr>)"
| pt_exit: "todo y = None \<Longrightarrow> pty_step y (y\<lparr>sess := finalize (sess y)\<rparr>)"

section \<open>Every chunk reaches an attached subscriber once\<close>

definition due :: "pty_sys \<Rightarrow> nat \<Rightarrow> chunk list" where
  "due y i = (case todo y of Some (c, is) \<Rightarrow> if i \<in> set is then [c] else [] | None \<Rightarrow> [])"

definition fanout_for :: "pty_sys \<Rightarrow> nat \<Rightarrow> bool" where
  "fanout_for y i \<longleftrightarrow> suffix (replay y i) (before y i) \<and>
     prefix (before y i @ map fst (offered y i) @ due y i) (printed y) \<and>
     (i \<in> set (pt_reg (sess y)) \<longrightarrow> before y i @ map fst (offered y i) @ due y i = printed y) \<and>
     received y i @ sub_ch (pt_subs (sess y) i) = map fst (filter snd (offered y i))"

definition fanout :: "pty_sys \<Rightarrow> bool" where
  "fanout y \<longleftrightarrow> ring_ok (pt_ring (sess y)) \<and> suffix (snd (pt_ring (sess y))) (printed y) \<and>
     distinct (pt_reg (sess y)) \<and> (\<forall>i \<in> set (pt_reg (sess y)). i < pt_nextID (sess y)) \<and>
     (\<forall>c is. todo y = Some (c, is) \<longrightarrow> distinct is \<and> (\<forall>i \<in> set is. i < pt_nextID (sess y)) \<and> printed y \<noteq> [] \<and> last (printed y) = c) \<and>
     (\<forall>i \<ge> pt_nextID (sess y). offered y i = [] \<and> received y i = [] \<and> sub_ch (pt_subs (sess y) i) = []) \<and>
     (\<forall>i < pt_nextID (sess y). fanout_for y i)"

lemma fanout_init: "pty_init y \<Longrightarrow> fanout y"
  by (simp add: pty_init_def fanout_def NewPty_def ring_ok_def)

lemma fanout_output:
  assumes "fanout y" "todo y = None" "broadcast_begin c (sess y) = (is, s)"
  shows "fanout (y\<lparr>sess := s, todo := Some (c, is), printed := printed y @ [c]\<rparr>)"
proof -
  let ?y = "y\<lparr>sess := s, todo := Some (c, is), printed := printed y @ [c]\<rparr>"
  have s: "is = pt_reg (sess y)" "s = (sess y)\<lparr>pt_ring := ring_append c (pt_ring (sess y))\<rparr>"
    using assms(3) by (simp_all add: broadcast_begin_def)
  have "fanout_for ?y i" if "i < pt_nextID (sess y)" for i
  proof -
    have f: "fanout_for y i" using assms(1) that by (simp add: fanout_def)
    show ?thesis
    proof (cases "i \<in> set (pt_reg (sess y))")
      case True
      then show ?thesis using f assms(2) by (auto simp: fanout_for_def due_def s)
    next
      case False
      then show ?thesis using f assms(2) by (auto simp: fanout_for_def due_def s intro: prefix_prefix)
    qed
  qed
  moreover have "ring_ok (ring_append c (pt_ring (sess y)))" "suffix (snd (ring_append c (pt_ring (sess y)))) (printed y @ [c])"
    using assms(1) scrollback.push_ok scrollback.push_history by (auto simp: fanout_def)
  ultimately show ?thesis using assms(1) by (auto simp: fanout_def s)
qed

lemma fanout_deliver:
  assumes "fanout y" "todo y = Some (c, j # is)"
    "ok \<longrightarrow> s = pt_send c j (sess y)" "\<not> ok \<longrightarrow> s = sess y"
  shows "fanout (y\<lparr>sess := s, todo := Some (c, is), offered := (offered y)(j := offered y j @ [(c, ok)])\<rparr>)"
proof -
  let ?y = "y\<lparr>sess := s, todo := Some (c, is), offered := (offered y)(j := offered y j @ [(c, ok)])\<rparr>"
  have same: "pt_reg s = pt_reg (sess y)" "pt_nextID s = pt_nextID (sess y)" "pt_ring s = pt_ring (sess y)"
    "\<And>i. i \<noteq> j \<Longrightarrow> pt_subs s i = pt_subs (sess y) i"
    "sub_ch (pt_subs s j) = sub_ch (pt_subs (sess y) j) @ (if ok then [c] else [])"
    using assms(3,4) by (cases ok; simp add: pt_send_def)+
  have d: "distinct (j # is)" "j < pt_nextID (sess y)" using assms(1,2) by (auto simp: fanout_def)
  have "fanout_for ?y i" if "i < pt_nextID (sess y)" for i
  proof -
    have f: "fanout_for y i" using assms(1) that by (simp add: fanout_def)
    show ?thesis
    proof (cases "i = j")
      case True
      have g: "received y j @ sub_ch (pt_subs (sess y) j) = map fst (filter snd (offered y j))"
        using f True by (simp add: fanout_for_def)
      then have "received y j @ sub_ch (pt_subs s j) = map fst (filter snd (offered y j @ [(c, ok)]))"
        using same(5) by (cases ok) (simp_all add: append_assoc [symmetric] del: append_assoc)
      then show ?thesis using f True d(1) assms(2) same(1) by (simp add: fanout_for_def due_def)
    next
      case False
      then show ?thesis using f assms(2) same by (simp add: fanout_for_def due_def)
    qed
  qed
  then show ?thesis using assms(1,2) same d by (auto simp: fanout_def)
qed

lemma fanout_attach:
  assumes "fanout y" "Attach (sess y) = (Some (r, i), s)"
  shows "fanout (y\<lparr>sess := s, before := (before y)(i := printed y), replay := (replay y)(i := r)\<rparr>)"
proof -
  let ?y = "y\<lparr>sess := s, before := (before y)(i := printed y), replay := (replay y)(i := r)\<rparr>"
  have s: "r = snd (pt_ring (sess y))" "i = pt_nextID (sess y)"
    "s = (sess y)\<lparr>pt_subs := (pt_subs (sess y))(i := \<lparr>sub_ch = [], sub_done = False\<rparr>), pt_reg := pt_reg (sess y) @ [i], pt_nextID := i + 1\<rparr>"
    using assms(2) by (auto simp: Attach_def split: if_splits)
  have new: "offered y i = []" "received y i = []" "i \<notin> set (pt_reg (sess y))" "due y i = []"
    using assms(1) s(2) by (auto simp: fanout_def due_def split: option.split)
  have "fanout_for ?y k" if "k < i + 1" for k
  proof (cases "k = i")
    case True
    then show ?thesis using new assms(1) s by (simp add: fanout_for_def due_def fanout_def split: option.splits)
  next
    case False
    then have "fanout_for y k" using that assms(1) s(2) by (simp add: fanout_def)
    then show ?thesis using False by (simp add: fanout_for_def due_def s(3))
  qed
  then show ?thesis using assms(1) s new by (auto simp: fanout_def less_SucI)
qed

lemma fanout_detach: "fanout y \<Longrightarrow> fanout (y\<lparr>sess := detach i (sess y)\<rparr>)"
  by (auto simp: fanout_def fanout_for_def due_def detach_def distinct_removeAll)

lemma fanout_recv:
  assumes "fanout y" "sub_ch (pt_subs (sess y) i) = c # cs"
  shows "fanout (y\<lparr>sess := (sess y)\<lparr>pt_subs := (pt_subs (sess y))(i := (pt_subs (sess y) i)\<lparr>sub_ch := cs\<rparr>)\<rparr>,
      received := (received y)(i := received y i @ [c])\<rparr>)"
proof -
  let ?y = "y\<lparr>sess := (sess y)\<lparr>pt_subs := (pt_subs (sess y))(i := (pt_subs (sess y) i)\<lparr>sub_ch := cs\<rparr>)\<rparr>,
      received := (received y)(i := received y i @ [c])\<rparr>"
  have "fanout_for ?y k" if "k < pt_nextID (sess y)" for k
    using assms that by (cases "k = i") (auto simp: fanout_def fanout_for_def due_def)
  moreover have "i < pt_nextID (sess y)" using assms by (auto simp: fanout_def not_le [symmetric])
  ultimately show ?thesis using assms by (auto simp: fanout_def)
qed

lemma fanout_step: "pty_step y z \<Longrightarrow> fanout y \<Longrightarrow> fanout z"
proof (induction rule: pty_step.induct)
  case (pt_output y c "is" s)
  then show ?case by (intro fanout_output)
next
  case (pt_sent y c i "is")
  then show ?case using fanout_deliver [of y c i "is" True "pt_send c i (sess y)"] by simp
next
  case (pt_skipped y c i "is")
  then show ?case using fanout_deliver [of y c i "is" False "sess y"] by simp
next
  case (pt_next y c)
  then show ?case by (auto simp: fanout_def fanout_for_def due_def)
next
  case (pt_attach y r i s)
  then show ?case by (intro fanout_attach)
next
  case (pt_detach y i)
  then show ?case by (rule fanout_detach)
next
  case (pt_recv y i c cs)
  then show ?case by (intro fanout_recv)
next
  case (pt_exit y)
  then show ?case by (auto simp: fanout_def fanout_for_def due_def finalize_def)
qed

text \<open>A registered subscriber misses a chunk only when its channel is full: one that was given
  fewer chunks than the channel holds has missed none.\<close>

definition patient :: "pty_sys \<Rightarrow> bool" where
  "patient y \<longleftrightarrow> fanout y \<and> (\<forall>i \<in> set (pt_reg (sess y)). \<not> sub_done (pt_subs (sess y) i) \<and>
     (list_all snd (offered y i) \<or> subBuffer \<le> length (filter snd (offered y i))))"

lemma patient_init: "pty_init y \<Longrightarrow> patient y"
  using fanout_init by (simp add: patient_def pty_init_def NewPty_def)

lemma patient_skipped:
  assumes "patient y" "can_skip j (sess y)" "j \<in> set (pt_reg (sess y))"
  shows "subBuffer \<le> length (filter snd (offered y j))"
proof -
  have "j < pt_nextID (sess y)" using assms(1,3) by (auto simp: patient_def fanout_def)
  then have "received y j @ sub_ch (pt_subs (sess y) j) = map fst (filter snd (offered y j))"
    using assms(1) by (auto simp: patient_def fanout_def fanout_for_def)
  from arg_cong [OF this, of length] have "length (sub_ch (pt_subs (sess y) j)) \<le> length (filter snd (offered y j))" by simp
  then show ?thesis using assms by (auto simp: patient_def can_skip_def can_send_def)
qed

lemma patient_step: "pty_step y z \<Longrightarrow> patient y \<Longrightarrow> patient z"
proof -
  assume step: "pty_step y z" and p: "patient y"
  have f: "fanout z" using fanout_step [OF step] p by (simp add: patient_def)
  from step p have "\<forall>i \<in> set (pt_reg (sess z)). \<not> sub_done (pt_subs (sess z) i) \<and>
     (list_all snd (offered z i) \<or> subBuffer \<le> length (filter snd (offered z i)))"
  proof (induction rule: pty_step.induct)
    case (pt_skipped y c i "is")
    then show ?case using patient_skipped [of y i] by (auto simp: patient_def)
  next
    case (pt_attach y r i s)
    then show ?case by (auto simp: patient_def fanout_def Attach_def split: if_splits)
  qed (auto simp: patient_def broadcast_begin_def pt_send_def detach_def finalize_def)
  with f show ?thesis by (simp add: patient_def)
qed

interpretation ptysys: invariant_system pty_init pty_step patient
  by unfold_locales (auto intro: patient_init patient_step)


lemma attach_reachable:
  "\<exists>y. reachable pty_init pty_step y \<and> 0 \<in> set (pt_reg (sess y)) \<and> replay y 0 = [[65]] \<and> printed y = [[65]]"
proof -
  define y0 where "y0 = \<lparr>sess = NewPty, todo = None, printed = [], before = (\<lambda>_. []), replay = (\<lambda>_. []), offered = (\<lambda>_. []), received = (\<lambda>_. [])\<rparr>"
  define y1 where "y1 = y0\<lparr>sess := NewPty\<lparr>pt_ring := ring_append [65] (0, [])\<rparr>, todo := Some ([65], []), printed := printed y0 @ [[65]]\<rparr>"
  define s where "s = snd (Attach (sess y1))"
  define y2 where "y2 = y1\<lparr>sess := s, before := (before y1)(0 := printed y1), replay := (replay y1)(0 := [[65]])\<rparr>"
  have "reachable pty_init pty_step y0" by (rule reach_init) (simp add: pty_init_def y0_def)
  moreover have "pty_step y0 y1"
    unfolding y1_def by (rule pty_step.pt_output) (simp_all add: y0_def NewPty_def broadcast_begin_def)
  moreover have "pty_step y1 y2"
    unfolding y2_def by (rule pty_step.pt_attach) (simp add: s_def Attach_def y1_def NewPty_def ring_append_def)
  ultimately have "reachable pty_init pty_step y2" by (meson reach_next)
  moreover have "0 \<in> set (pt_reg (sess y2)) \<and> replay y2 0 = [[65]] \<and> printed y2 = [[65]]"
    by (simp add: y2_def s_def Attach_def y1_def y0_def NewPty_def)
  ultimately show ?thesis by blast
qed


end
