(* ===== verification/Guestsess.thy ===== *)
theory Guestsess
  imports Pty Vsock "HOL-Library.AList" "HOL-Library.List_Lexorder" "HOL-Library.Char_ord"
begin

text \<open>
  The in-guest registry of detachable terminal sessions (\<^verbatim>\<open>internal/guestsess/registry.go\<close>):
  when a launch specification counts as unchanged, the environment a launch gets, the
  reuse, relaunch and killing of sessions, and the bridge that streams one to a connection.
  Starting a process is a parameter that may fail; process ids are drawn from a counter.
\<close>

section \<open>Launch specifications\<close>

record Spec =
  sp_Command :: string
  sp_Cwd :: string
  sp_Env :: "(string \<times> string) list"
  sp_TTY :: bool

text \<open>Indexing a Go map with an absent key reads the empty string.\<close>

definition go_index :: "(string \<times> string) list \<Rightarrow> string \<Rightarrow> string" where
  "go_index m k = (case map_of m k of Some v \<Rightarrow> v | None \<Rightarrow> [])"

definition spec_equal :: "Spec \<Rightarrow> Spec \<Rightarrow> bool" where
  "spec_equal a b \<longleftrightarrow>
     \<not> (sp_Command a \<noteq> sp_Command b \<or> sp_Cwd a \<noteq> sp_Cwd b \<or> sp_TTY a \<noteq> sp_TTY b \<or> length (sp_Env a) \<noteq> length (sp_Env b)) \<and>
     list_all (\<lambda>(k, v). go_index (sp_Env b) k = v) (sp_Env a)"

definition wf_spec :: "Spec \<Rightarrow> bool" where
  "wf_spec a \<longleftrightarrow> distinct (map fst (sp_Env a))"

definition same_launch :: "Spec \<Rightarrow> Spec \<Rightarrow> bool" where
  "same_launch a b \<longleftrightarrow> sp_Command a = sp_Command b \<and> sp_Cwd a = sp_Cwd b \<and> sp_TTY a = sp_TTY b \<and> map_of (sp_Env a) = map_of (sp_Env b)"

lemma same_launch_equal:
  assumes "wf_spec a" "wf_spec b" "same_launch a b"
  shows "spec_equal a b"
proof -
  have "set (sp_Env a) = set (sp_Env b)"
    using assms map_of_inject_set [of "sp_Env a" "sp_Env b"] by (simp add: same_launch_def wf_spec_def)
  then have "length (sp_Env a) = length (sp_Env b)"
    using assms(1,2) by (metis distinct_card distinct_map wf_spec_def)
  moreover have "list_all (\<lambda>(k, v). go_index (sp_Env b) k = v) (sp_Env a)"
    using assms(2) \<open>set (sp_Env a) = set (sp_Env b)\<close> by (auto simp: list_all_iff go_index_def wf_spec_def)
  ultimately show ?thesis using assms(3) by (simp add: spec_equal_def same_launch_def)
qed

lemma equal_same_launch:
  assumes "wf_spec a" "wf_spec b" "\<forall>(k, v) \<in> set (sp_Env a). v \<noteq> []" "spec_equal a b"
  shows "same_launch a b"
proof -
  have sub: "set (sp_Env a) \<subseteq> set (sp_Env b)"
    using assms(3,4) by (fastforce simp: spec_equal_def list_all_iff go_index_def split: option.splits dest: map_of_SomeD)
  have "card (set (sp_Env a)) = card (set (sp_Env b))"
    using assms(1,2,4) by (metis distinct_card distinct_map spec_equal_def wf_spec_def)
  then have "set (sp_Env a) = set (sp_Env b)" using sub by (simp add: card_subset_eq)
  then have "map_of (sp_Env a) = map_of (sp_Env b)" using assms(1,2) map_of_inject_set [of "sp_Env a" "sp_Env b"] by (simp add: wf_spec_def)
  then show ?thesis using assms(4) by (simp add: same_launch_def spec_equal_def)
qed

text \<open>Two environments that differ in a variable set to the empty string count as equal.\<close>

theorem spec_equal_confuses:
  "let a = \<lparr>sp_Command = c, sp_Cwd = d, sp_Env = [(''X'', [])], sp_TTY = t\<rparr>;
       b = \<lparr>sp_Command = c, sp_Cwd = d, sp_Env = [(''Y'', v)], sp_TTY = t\<rparr>
   in spec_equal a b \<and> \<not> same_launch a b"
proof -
  have "map_of [(''X'', [])] ''Y'' \<noteq> map_of [(''Y'', v)] ''Y''" by simp
  then have "map_of [(''X'', [])] \<noteq> map_of [(''Y'', v)]" by metis
  then show ?thesis by (simp add: Let_def spec_equal_def same_launch_def go_index_def)
qed

definition env_entry :: "string \<Rightarrow> string \<Rightarrow> string" where
  "env_entry k v = k @ CHR ''='' # v"

definition envSlice :: "Spec \<Rightarrow> string list \<Rightarrow> string list" where
  "envSlice a base =
     (if sp_Env a = [] then base
      else base @ map (\<lambda>k. env_entry k (go_index (sp_Env a) k)) (sort (map fst (sp_Env a))))"

text \<open>The value a process sees: the last entry for the key.\<close>

definition getenv :: "string list \<Rightarrow> string \<Rightarrow> string option" where
  "getenv env k = (let es = filter (\<lambda>e. HasPrefix e (k @ ''='')) env in if es = [] then None else Some (drop (length k + 1) (last es)))"

lemma env_entry_prefix:
  "CHR ''='' \<notin> set k \<Longrightarrow> CHR ''='' \<notin> set k' \<Longrightarrow> HasPrefix (env_entry k v) (k' @ ''='') \<longleftrightarrow> k = k'"
proof -
  assume a: "CHR ''='' \<notin> set k" "CHR ''='' \<notin> set k'"
  have "k @ CHR ''='' # v = k' @ CHR ''='' # w \<Longrightarrow> k = k'" for w
    using a by (metis takeWhile_upto)
  then show ?thesis by (auto simp: HasPrefix_def prefix_def env_entry_def)
qed

lemma filter_one: "distinct xs \<Longrightarrow> filter (\<lambda>x. x = k) xs = (if k \<in> set xs then [k] else [])"
  by (induction xs) auto

lemma filter_entries:
  assumes "\<forall>x \<in> set ks. CHR ''='' \<notin> set x" "CHR ''='' \<notin> set k" "distinct ks"
  shows "filter (\<lambda>e. HasPrefix e (k @ ''='')) (map (\<lambda>k. env_entry k (f k)) ks) = (if k \<in> set ks then [env_entry k (f k)] else [])"
proof -
  have "filter (\<lambda>x. HasPrefix (env_entry x (f x)) (k @ ''='')) ks = filter (\<lambda>x. x = k) ks"
    using assms(1,2) by (intro filter_cong) (auto simp: env_entry_prefix)
  then show ?thesis using assms(3) by (simp add: filter_map comp_def filter_one)
qed

text \<open>A launch sees the specification's variables over the inherited ones.\<close>

lemma envSlice_overrides:
  assumes "wf_spec a" "\<forall>(x, v) \<in> set (sp_Env a). CHR ''='' \<notin> set x" "CHR ''='' \<notin> set k"
  shows "getenv (envSlice a base) k = (case map_of (sp_Env a) k of Some v \<Rightarrow> Some v | None \<Rightarrow> getenv base k)"
proof -
  let ?ks = "sort (map fst (sp_Env a))"
  have ks: "filter (\<lambda>e. HasPrefix e (k @ ''='')) (map (\<lambda>k. env_entry k (go_index (sp_Env a) k)) ?ks) =
      (if k \<in> set ?ks then [env_entry k (go_index (sp_Env a) k)] else [])"
    using assms by (intro filter_entries) (auto simp: wf_spec_def)
  show ?thesis
  proof (cases "map_of (sp_Env a) k")
    case None
    then have "k \<notin> set ?ks" by (simp add: map_of_eq_None_iff)
    then show ?thesis using None ks by (simp add: getenv_def envSlice_def)
  next
    case (Some v)
    then have "k \<in> set ?ks" "sp_Env a \<noteq> []" by (auto simp: image_iff dest: map_of_SomeD intro!: bexI)
    then show ?thesis
      using Some ks by (auto simp: getenv_def envSlice_def env_entry_def go_index_def)
  qed
qed

section \<open>The registry\<close>

record command =
  cmd_Args :: "string list"
  cmd_Dir :: string
  cmd_Env :: "string list"

record gentry =
  ge_spec :: Spec
  ge_cmd :: command
  ge_pid :: nat
  ge_exited :: bool
  ge_code :: int

text \<open>\<open>rg_started\<close> records the processes started, with the session they belong to, \<open>rg_killed\<close>
  the process groups sent a kill and \<open>rg_reaped\<close> the processes seen to exit.\<close>

record Registry =
  rg_sessions :: "(string \<times> gentry) list"
  rg_environ :: "string list"
  rg_nextPid :: nat
  rg_started :: "(nat \<times> string \<times> command) list"
  rg_killed :: "nat list"
  rg_reaped :: "nat list"

definition NewRegistry :: "string list \<Rightarrow> Registry" where
  "NewRegistry env = \<lparr>rg_sessions = [], rg_environ = env, rg_nextPid = 1, rg_started = [], rg_killed = [], rg_reaped = []\<rparr>"

definition launch_cmd :: "Spec \<Rightarrow> string list \<Rightarrow> command" where
  "launch_cmd spec env = \<lparr>cmd_Args = [''sh'', ''-c'', sp_Command spec], cmd_Dir = (if sp_Cwd spec = [] then ''/'' else sp_Cwd spec),
     cmd_Env = envSlice spec env\<rparr>"

definition launch :: "(command \<Rightarrow> string option) \<Rightarrow> string \<Rightarrow> Spec \<Rightarrow> Registry \<Rightarrow> (string + gentry) \<times> Registry" where
  "launch start sid spec r =
     (let cmd = launch_cmd spec (rg_environ r) in
      case start cmd of
        Some err \<Rightarrow> (Inl (''guestsess: start: '' @ err), r)
      | None \<Rightarrow> (Inr \<lparr>ge_spec = spec, ge_cmd = cmd, ge_pid = rg_nextPid r, ge_exited = False, ge_code = 0\<rparr>,
                 r\<lparr>rg_nextPid := rg_nextPid r + 1, rg_started := rg_started r @ [(rg_nextPid r, sid, cmd)]\<rparr>))"

text \<open>\<^verbatim>\<open>kill\<close> signals the group, closes the terminal and waits for the reaper.\<close>

definition kill_entry :: "string \<Rightarrow> gentry \<Rightarrow> Registry \<Rightarrow> Registry" where
  "kill_entry sid e r = r\<lparr>rg_killed := rg_killed r @ [ge_pid e], rg_reaped := rg_reaped r @ [ge_pid e],
     rg_sessions := AList.update sid (e\<lparr>ge_exited := True\<rparr>) (rg_sessions r)\<rparr>"

definition ensure :: "(command \<Rightarrow> string option) \<Rightarrow> string \<Rightarrow> Spec \<Rightarrow> Registry \<Rightarrow> (string + gentry) \<times> Registry" where
  "ensure start sid spec r =
     (let relaunch = (\<lambda>r. case launch start sid spec r of
                            (Inl err, r1) \<Rightarrow> (Inl err, r1)
                          | (Inr e, r1) \<Rightarrow> (Inr e, r1\<lparr>rg_sessions := AList.update sid e (rg_sessions r1)\<rparr>))
      in case map_of (rg_sessions r) sid of
           None \<Rightarrow> relaunch r
         | Some e \<Rightarrow>
             if ge_exited e then relaunch r
             else if spec_equal (ge_spec e) spec then (Inr e, r)
             else relaunch (kill_entry sid e r))"

text \<open>The reaper of a session whose process ends by itself.\<close>

definition reap :: "string \<Rightarrow> int \<Rightarrow> Registry \<Rightarrow> Registry" where
  "reap sid code r = (case map_of (rg_sessions r) sid of
      None \<Rightarrow> r
    | Some e \<Rightarrow>
        if ge_exited e then r
        else r\<lparr>rg_reaped := rg_reaped r @ [ge_pid e], rg_sessions := AList.update sid (e\<lparr>ge_exited := True, ge_code := code\<rparr>) (rg_sessions r)\<rparr>)"

inductive reg_step :: "Registry \<Rightarrow> Registry \<Rightarrow> bool" where
  rg_ensure: "ensure start sid spec r = (res, r') \<Longrightarrow> reg_step r r'"
| rg_reap: "reg_step r (reap sid code r)"

section \<open>One running process per session\<close>

definition running :: "Registry \<Rightarrow> nat \<Rightarrow> bool" where
  "running r pid \<longleftrightarrow> pid \<notin> set (rg_reaped r)"

definition no_leak :: "Registry \<Rightarrow> bool" where
  "no_leak r \<longleftrightarrow>
     (\<forall>(pid, sid, cmd) \<in> set (rg_started r). pid < rg_nextPid r \<and>
        (running r pid \<longrightarrow> (\<exists>e. map_of (rg_sessions r) sid = Some e \<and> ge_pid e = pid \<and> \<not> ge_exited e))) \<and>
     (\<forall>pid \<in> set (rg_reaped r). pid < rg_nextPid r) \<and>
     (\<forall>sid e. map_of (rg_sessions r) sid = Some e \<longrightarrow> ge_pid e < rg_nextPid r \<and> (ge_exited e \<longleftrightarrow> \<not> running r (ge_pid e))) \<and>
     (\<forall>s1 s2 e1 e2. map_of (rg_sessions r) s1 = Some e1 \<longrightarrow> map_of (rg_sessions r) s2 = Some e2 \<longrightarrow> ge_pid e1 = ge_pid e2 \<longrightarrow> s1 = s2)"

lemma no_leak_start: "no_leak (NewRegistry env)"
  by (simp add: no_leak_def NewRegistry_def)

lemma no_leak_end:
  assumes "no_leak r" "map_of (rg_sessions r) sid = Some e" "ge_pid e' = ge_pid e" "ge_exited e'"
    "rg_started r' = rg_started r" "rg_nextPid r' = rg_nextPid r" "rg_reaped r' = rg_reaped r @ [ge_pid e]"
    "rg_sessions r' = AList.update sid e' (rg_sessions r)"
  shows "no_leak r'"
proof -
  have other: "s1 = sid" if "map_of (rg_sessions r) s1 = Some e1" "ge_pid e1 = ge_pid e" for s1 e1
    using assms(1,2) that by (auto simp: no_leak_def)
  show ?thesis
    unfolding no_leak_def running_def assms(5-8) update_conv
  proof (intro conjI)
    show "\<forall>(pid, s, cmd) \<in> set (rg_started r). pid < rg_nextPid r \<and> (pid \<notin> set (rg_reaped r @ [ge_pid e]) \<longrightarrow>
        (\<exists>x. ((map_of (rg_sessions r))(sid \<mapsto> e')) s = Some x \<and> ge_pid x = pid \<and> \<not> ge_exited x))"
      using assms(1,2) by (fastforce simp: no_leak_def running_def)
    show "\<forall>pid \<in> set (rg_reaped r @ [ge_pid e]). pid < rg_nextPid r" using assms(1,2) by (auto simp: no_leak_def)
    show "\<forall>s x. ((map_of (rg_sessions r))(sid \<mapsto> e')) s = Some x \<longrightarrow> ge_pid x < rg_nextPid r \<and>
        (ge_exited x \<longleftrightarrow> \<not> ge_pid x \<notin> set (rg_reaped r @ [ge_pid e]))"
      using assms(1-4) other by (auto simp: no_leak_def running_def)
    show "\<forall>s1 s2 e1 e2. ((map_of (rg_sessions r))(sid \<mapsto> e')) s1 = Some e1 \<longrightarrow> ((map_of (rg_sessions r))(sid \<mapsto> e')) s2 = Some e2 \<longrightarrow>
        ge_pid e1 = ge_pid e2 \<longrightarrow> s1 = s2"
      using assms(1-3) other by (auto simp: no_leak_def)
  qed
qed

lemma no_leak_launch:
  assumes "no_leak r" "launch start sid spec r = (Inr e, r1)"
    "\<forall>x. map_of (rg_sessions r) sid = Some x \<longrightarrow> ge_exited x"
  shows "no_leak (r1\<lparr>rg_sessions := AList.update sid e (rg_sessions r1)\<rparr>)"
proof -
  have e: "ge_pid e = rg_nextPid r" "\<not> ge_exited e" "rg_nextPid r1 = rg_nextPid r + 1" "rg_sessions r1 = rg_sessions r" "rg_reaped r1 = rg_reaped r"
    "\<exists>cmd. rg_started r1 = rg_started r @ [(rg_nextPid r, sid, cmd)]"
    using assms(2) by (auto simp: launch_def Let_def split: option.splits)
  obtain cmd where st: "rg_started r1 = rg_started r @ [(rg_nextPid r, sid, cmd)]" using e(6) by blast
  have fresh: "rg_nextPid r \<notin> set (rg_reaped r)" using assms(1) by (auto simp: no_leak_def)
  show ?thesis
    unfolding no_leak_def running_def
  proof (intro conjI, goal_cases)
    case 1
    have "p < rg_nextPid r + 1 \<and> (p \<notin> set (rg_reaped r) \<longrightarrow>
        (\<exists>x. ((map_of (rg_sessions r))(sid \<mapsto> e)) s = Some x \<and> ge_pid x = p \<and> \<not> ge_exited x))"
      if "(p, s, c) \<in> set (rg_started r)" for p s c
    proof -
      have "p < rg_nextPid r \<and> (p \<notin> set (rg_reaped r) \<longrightarrow> (\<exists>x. map_of (rg_sessions r) s = Some x \<and> ge_pid x = p \<and> \<not> ge_exited x))"
        using assms(1) that unfolding no_leak_def running_def by blast
      then show ?thesis using assms(3) by (cases "s = sid") auto
    qed
    then show ?case using e(1-5) st by (auto simp: update_conv)
  next
    case 2
    show ?case using assms(1) e by (auto simp: no_leak_def less_SucI)
  next
    case 3
    show ?case using assms(1) e fresh by (auto simp: no_leak_def running_def update_conv less_SucI)
  next
    case 4
    have small: "ge_pid x \<noteq> rg_nextPid r" if "map_of (rg_sessions r) s = Some x" for s x
      using assms(1) that unfolding no_leak_def by fastforce
    have inj: "s1 = s2" if "map_of (rg_sessions r) s1 = Some e1" "map_of (rg_sessions r) s2 = Some e2" "ge_pid e1 = ge_pid e2" for s1 s2 e1 e2
      using assms(1) that unfolding no_leak_def by blast
    show ?case
    proof (intro allI impI)
      fix s1 s2 e1 e2
      assume "map_of (rg_sessions (r1\<lparr>rg_sessions := AList.update sid e (rg_sessions r1)\<rparr>)) s1 = Some e1"
        "map_of (rg_sessions (r1\<lparr>rg_sessions := AList.update sid e (rg_sessions r1)\<rparr>)) s2 = Some e2" "ge_pid e1 = ge_pid e2"
      then show "s1 = s2"
        using e(1,4) small [of s1 e1] small [of s2 e2] inj [of s1 e1 s2 e2]
        by (cases "s1 = sid"; cases "s2 = sid") (auto simp: update_conv)
    qed
  qed
qed

lemma launch_error: "launch start sid spec r = (Inl err, r1) \<Longrightarrow> r1 = r"
  by (auto simp: launch_def Let_def split: option.splits)

lemma no_leak_relaunch:
  assumes "no_leak r" "\<forall>x. map_of (rg_sessions r) sid = Some x \<longrightarrow> ge_exited x"
  shows "no_leak (snd (case launch start sid spec r of
           (Inl err, r1) \<Rightarrow> (Inl err, r1)
         | (Inr e, r1) \<Rightarrow> (Inr e, r1\<lparr>rg_sessions := AList.update sid e (rg_sessions r1)\<rparr>)))"
proof (cases "launch start sid spec r")
  case (Pair a r1)
  then show ?thesis
    using assms(1) no_leak_launch [OF assms(1) _ assms(2), of start spec _ r1] launch_error [of start sid spec r _ r1]
    by (cases a) auto
qed

lemma no_leak_ensure: "no_leak r \<Longrightarrow> no_leak (snd (ensure start sid spec r))"
proof -
  assume r: "no_leak r"
  show ?thesis
  proof (cases "map_of (rg_sessions r) sid")
    case None
    then show ?thesis using no_leak_relaunch [OF r, of sid start spec] by (simp add: ensure_def Let_def)
  next
    case (Some e)
    have k: "no_leak (kill_entry sid e r)"
      by (rule no_leak_end [OF r Some, of "e\<lparr>ge_exited := True\<rparr>"]) (simp_all add: kill_entry_def)
    have "\<forall>x. map_of (rg_sessions (kill_entry sid e r)) sid = Some x \<longrightarrow> ge_exited x" by (simp add: kill_entry_def update_conv)
    from no_leak_relaunch [OF k this, of start spec] no_leak_relaunch [OF r, of sid start spec] r Some show ?thesis
      by (simp add: ensure_def Let_def)
  qed
qed

lemma no_leak_reap: "no_leak r \<Longrightarrow> no_leak (reap sid code r)"
proof (cases "map_of (rg_sessions r) sid")
  case (Some e)
  assume r: "no_leak r"
  show ?thesis
  proof (cases "ge_exited e")
    case False
    then show ?thesis
      by (intro no_leak_end [OF r Some, of "e\<lparr>ge_exited := True, ge_code := code\<rparr>"]) (simp_all add: reap_def Some)
  qed (use r Some in \<open>simp add: reap_def\<close>)
qed (simp add: reap_def)

interpretation registry: invariant_system "\<lambda>r. \<exists>env. r = NewRegistry env" reg_step no_leak
proof
  show "no_leak r" if "\<exists>env. r = NewRegistry env" for r using that no_leak_start by auto
  show "no_leak r'" if "reg_step r r'" "no_leak r" for r r'
    using that by (induction rule: reg_step.induct) (metis no_leak_ensure snd_conv, metis no_leak_reap)
qed

lemma spec_equal_refl: "wf_spec a \<Longrightarrow> spec_equal a a"
  by (rule same_launch_equal) (simp_all add: same_launch_def)



section \<open>The bridge\<close>

text \<open>The writer of \<^verbatim>\<open>bridge\<close>: the replayed chunks, then live chunks as they come, until one of
  the other channels is ready; a \<^verbatim>\<open>select\<close> with several ready cases takes any of them.  Frames
  are logged as written; \<open>br_live\<close> is the subscriber's channel.\<close>

datatype bridge_end = Left_running | Reported_exit

record bridge_state =
  br_replay :: "chunk list"
  br_live :: "chunk list"
  br_exited :: bool
  br_out :: "frame list"
  br_end :: "bridge_end option"

inductive bridge_step :: "byte list \<Rightarrow> bridge_state \<Rightarrow> bridge_state \<Rightarrow> bool" for exitJSON where
  br_replay_one: "br_end b = None \<Longrightarrow> br_replay b = c # cs \<Longrightarrow>
    bridge_step exitJSON b (b\<lparr>br_replay := cs, br_out := br_out b @ [(FrameStdout, c)]\<rparr>)"
| br_live_one: "br_end b = None \<Longrightarrow> br_replay b = [] \<Longrightarrow> br_live b = c # cs \<Longrightarrow>
    bridge_step exitJSON b (b\<lparr>br_live := cs, br_out := br_out b @ [(FrameStdout, c)]\<rparr>)"
| br_write_failed: "br_end b = None \<Longrightarrow> bridge_step exitJSON b (b\<lparr>br_end := Some Left_running\<rparr>)"
| br_gone: "br_end b = None \<Longrightarrow> br_replay b = [] \<Longrightarrow> bridge_step exitJSON b (b\<lparr>br_end := Some Left_running\<rparr>)"
| br_exit: "br_end b = None \<Longrightarrow> br_replay b = [] \<Longrightarrow> br_exited b \<Longrightarrow>
    bridge_step exitJSON b (b\<lparr>br_out := br_out b @ [(FrameExit, exitJSON)], br_end := Some Reported_exit\<rparr>)"
| br_more: "bridge_step exitJSON b (b\<lparr>br_live := br_live b @ [c]\<rparr>)"
| br_process_exit: "bridge_step exitJSON b (b\<lparr>br_exited := True\<rparr>)"

text \<open>Output already in the subscriber's channel is dropped when the process has exited: the exit
  frame may be chosen before it.\<close>

theorem exit_overtakes_output:
  "bridge_step j \<lparr>br_replay = [], br_live = [c], br_exited = True, br_out = out, br_end = None\<rparr>
     \<lparr>br_replay = [], br_live = [c], br_exited = True, br_out = out @ [(FrameExit, j)], br_end = Some Reported_exit\<rparr>"
proof -
  let ?b = "\<lparr>br_replay = [], br_live = [c], br_exited = True, br_out = out, br_end = None\<rparr>"
  have "bridge_step j ?b (?b\<lparr>br_out := br_out ?b @ [(FrameExit, j)], br_end := Some Reported_exit\<rparr>)" by (rule br_exit) simp_all
  then show ?thesis by simp
qed

text \<open>What the connection carries: a prefix of the replayed and live output as stdout frames, then
  at most one exit frame, sent only after the process has exited.\<close>

definition stream_of :: "chunk list \<Rightarrow> frame list" where
  "stream_of cs = map (\<lambda>c. (FrameStdout, c)) cs"

definition bridged :: "byte list \<Rightarrow> chunk list \<Rightarrow> bridge_state \<Rightarrow> bool" where
  "bridged j r b \<longleftrightarrow> (\<exists>sent got. br_out b = stream_of (sent @ got) @ (if br_end b = Some Reported_exit then [(FrameExit, j)] else []) \<and>
     sent @ br_replay b = r \<and> (got \<noteq> [] \<or> br_end b = Some Reported_exit \<longrightarrow> br_replay b = []) \<and>
     (br_end b = Some Reported_exit \<longrightarrow> br_exited b))"

definition bridge_init :: "chunk list \<Rightarrow> bridge_state \<Rightarrow> bool" where
  "bridge_init r b \<longleftrightarrow> br_replay b = r \<and> br_out b = [] \<and> br_end b = None"

lemma bridged_step: "bridge_step j b b' \<Longrightarrow> bridged j r b \<Longrightarrow> bridged j r b'"
proof (induction rule: bridge_step.induct)
  case (br_replay_one b c cs)
  then obtain sent where "br_out b = stream_of sent" "sent @ br_replay b = r" by (auto simp: bridged_def)
  then show ?case unfolding bridged_def using br_replay_one(1,2)
    apply -
    apply (rule exI [of _ "sent @ [c]"], rule exI [of _ "[]"])
    apply (simp add: stream_of_def)
    done
next
  case (br_live_one b c cs)
  then obtain sent got where "br_out b = stream_of (sent @ got)" "sent = r" by (auto simp: bridged_def)
  then show ?case unfolding bridged_def using br_live_one(1,2)
    apply -
    apply (rule exI [of _ sent], rule exI [of _ "got @ [c]"])
    apply (simp add: stream_of_def)
    done
next
  case (br_more b c)
  then show ?case by (simp add: bridged_def)
next
  case (br_process_exit b)
  then obtain sent got where "br_out b = stream_of (sent @ got) @ (if br_end b = Some Reported_exit then [(FrameExit, j)] else [])"
    "sent @ br_replay b = r" "got \<noteq> [] \<or> br_end b = Some Reported_exit \<longrightarrow> br_replay b = []" by (auto simp: bridged_def)
  then show ?case by (auto simp: bridged_def)
qed (auto simp: bridged_def)

interpretation bridging: invariant_system "bridge_init r" "bridge_step j" "bridged j r" for r j
proof
  show "bridged j r b" if "bridge_init r b" for b using that by (auto simp: bridge_init_def bridged_def stream_of_def)
qed (auto intro: bridged_step)

end
