(* ===== verification/Sandbox_Spec.thy ===== *)
theory Sandbox_Spec
  imports Complex_Main Acl Egress
begin

text \<open>
  The on-wire description of a sandbox (\<^verbatim>\<open>internal/spec/spec.go\<close>): the document and its
  file-system entries, the credentials with their environment fall-backs, the validation
  \<^verbatim>\<open>Spec.Validate\<close> with every error it can return, and the configuration objects handed
  to the FUSE daemon.  \<^verbatim>\<open>os.Getenv\<close> is the argument \<open>getenv\<close>.
\<close>

section \<open>The document\<close>

datatype Backend = BackendLocal | BackendGoogleDrive | BackendGoogleCloudStorage | BackendS3
  | BackendAzureBlob | BackendOneDrive | BackendExternal | BackendOther string

definition Valid :: "Backend \<Rightarrow> bool" where
  "Valid b = (case b of BackendOther _ \<Rightarrow> False | _ \<Rightarrow> True)"

definition IsRemote :: "Backend \<Rightarrow> bool" where
  "IsRemote b = (case b of BackendLocal \<Rightarrow> False | BackendOther _ \<Rightarrow> False | _ \<Rightarrow> True)"

text \<open>The wire name of a backend, \<^verbatim>\<open>string(f.Backend)\<close>.\<close>

definition backend_name :: "Backend \<Rightarrow> string" where
  "backend_name b = (case b of BackendLocal \<Rightarrow> ''local'' | BackendGoogleDrive \<Rightarrow> ''gdrive''
     | BackendGoogleCloudStorage \<Rightarrow> ''gcs'' | BackendS3 \<Rightarrow> ''s3'' | BackendAzureBlob \<Rightarrow> ''azure''
     | BackendOneDrive \<Rightarrow> ''onedrive'' | BackendExternal \<Rightarrow> ''external'' | BackendOther n \<Rightarrow> n)"

record FS =
  Mount :: string
  fs_Backend :: Backend
  fs_ACLs :: "Rule list"
  Internal :: bool
  fs_Async :: bool
  GdriveAccessToken :: string
  GdriveRefreshToken :: string
  GdriveClientID :: string
  GdriveClientSecret :: string
  GdriveServiceAccountJSON :: string
  GdriveFolderID :: string
  GdrivePrefix :: string
  GcsBucket :: string
  GcsPrefix :: string
  GcsServiceAccountJSON :: string
  S3Bucket :: string
  S3Region :: string
  S3Prefix :: string
  S3AccessKeyID :: string
  S3SecretAccessKey :: string
  S3SessionToken :: string
  S3Endpoint :: string
  S3UsePathStyle :: bool
  AzureAccount :: string
  AzureContainer :: string
  AzurePrefix :: string
  AzureAccountKey :: string
  AzureConnectionString :: string
  AzureSASToken :: string
  AzureEndpoint :: string
  OneDriveAccessToken :: string
  OneDriveRefreshToken :: string
  OneDriveClientID :: string
  OneDriveClientSecret :: string
  OneDriveTenant :: string
  OneDriveDriveID :: string
  OneDrivePrefix :: string
  fs_Host :: string

record SnapshotFiles =
  sf_Key :: string
  sf_Include :: "string list"
  sf_WriteOnShutdown :: bool
  sf_Mount :: string

record Snapshot =
  sn_VM :: "string option"
  sn_Files :: "SnapshotFiles option"

record SandboxSpec =
  sp_Image :: string
  sp_CPU :: "rat option"
  sp_Memory :: "int option"
  sp_Entrypoint :: "string list"
  sp_Cwd :: string
  sp_Tty :: "bool option"
  sp_Ttl :: "int option"
  sp_Env :: "(string \<times> string) list"
  sp_FS :: "FS list"
  sp_Egress :: "EgressRule list"
  sp_EgressDenyWait :: "int option"
  sp_Snapshot :: "Snapshot option"

section \<open>Names derived from a mount\<close>

definition BackendSuffix :: string where
  "BackendSuffix = ''-backend''"

definition BackendPath :: "FS \<Rightarrow> string" where
  "BackendPath f = Mount f @ BackendSuffix"

definition Slug :: "FS \<Rightarrow> string" where
  "Slug f =
     (let s = map (\<lambda>c. if c = slash then CHR ''-'' else c) (TrimRight slash (TrimLeft slash (Mount f)))
      in if s = [] then ''root'' else s)"

section \<open>Entrypoints\<close>

text \<open>
  The JSON values a decoder hands over: \<^verbatim>\<open>Entrypoint.UnmarshalJSON\<close> looks at the first
  byte only to tell a string from anything else, so its argument is the decoded value.
  An array of strings may hold nulls, which leave the zero value in place.
\<close>

datatype jval = JNull | JBool bool | JNum rat | JStr string | JArr "jval list"
  | JObj "(string \<times> jval) list"

type_synonym json_object = "(string \<times> jval) list"

text \<open>\<^verbatim>\<open>strings.Fields\<close>: the maximal runs of non-space bytes.\<close>

function Fields :: "string \<Rightarrow> string list" where
  "Fields s =
     (case dropWhile is_space s of
        [] \<Rightarrow> []
      | c # t \<Rightarrow> (c # takeWhile (\<lambda>c. \<not> is_space c) t) # Fields (dropWhile (\<lambda>c. \<not> is_space c) t))"
  by pat_completeness auto
termination
proof (relation "measure length", simp)
  fix s t :: string and c
  assume t: "dropWhile is_space s = c # t"
  have "length (dropWhile (\<lambda>c. \<not> is_space c) t) \<le> length t" by (rule length_dropWhile_le)
  moreover have "Suc (length t) \<le> length s" using t length_dropWhile_le [of is_space s] by simp
  ultimately show "(dropWhile (\<lambda>c. \<not> is_space c) t, s) \<in> measure length" by simp
qed

declare Fields.simps [simp del]

fun argv_elem :: "jval \<Rightarrow> string option" where
  "argv_elem (JStr s) = Some s"
| "argv_elem JNull = Some []"
| "argv_elem _ = None"

definition Entrypoint_UnmarshalJSON :: "jval \<Rightarrow> string list option" where
  "Entrypoint_UnmarshalJSON v =
     (case v of
        JNull \<Rightarrow> Some []
      | JStr s \<Rightarrow> Some (Fields s)
      | JArr vs \<Rightarrow> those (map argv_elem vs)
      | _ \<Rightarrow> None)"

section \<open>Credentials\<close>

text \<open>Spec fields take precedence; the environment fills in an empty field.\<close>

definition or_env :: "(string \<Rightarrow> string) \<Rightarrow> string \<Rightarrow> string \<Rightarrow> string" where
  "or_env getenv value envKey = (if value \<noteq> [] then value else getenv envKey)"

record gdriveCfg =
  gd_access :: string
  gd_refresh :: string
  gd_clientID :: string
  gd_clientSecret :: string
  gd_sa :: string
  gd_folder :: string
  gd_prefix :: string

definition gdriveResolved :: "(string \<Rightarrow> string) \<Rightarrow> FS \<Rightarrow> gdriveCfg" where
  "gdriveResolved getenv f =
     \<lparr>gd_access = or_env getenv (GdriveAccessToken f) ''HIVE_GDRIVE_ACCESS_TOKEN'',
      gd_refresh = or_env getenv (GdriveRefreshToken f) ''HIVE_GDRIVE_REFRESH_TOKEN'',
      gd_clientID = or_env getenv (GdriveClientID f) ''HIVE_GDRIVE_CLIENT_ID'',
      gd_clientSecret = or_env getenv (GdriveClientSecret f) ''HIVE_GDRIVE_CLIENT_SECRET'',
      gd_sa = or_env getenv (GdriveServiceAccountJSON f) ''HIVE_GDRIVE_SERVICE_ACCOUNT_JSON'',
      gd_folder = or_env getenv (GdriveFolderID f) ''HIVE_GDRIVE_FOLDER_ID'',
      gd_prefix = or_env getenv (GdrivePrefix f) ''HIVE_GDRIVE_PREFIX''\<rparr>"

record gcsCfg =
  gc_bucket :: string
  gc_prefix :: string
  gc_sa :: string

definition gcsResolved :: "(string \<Rightarrow> string) \<Rightarrow> FS \<Rightarrow> gcsCfg" where
  "gcsResolved getenv f =
     \<lparr>gc_bucket = or_env getenv (GcsBucket f) ''HIVE_GCS_BUCKET'',
      gc_prefix = or_env getenv (GcsPrefix f) ''HIVE_GCS_PREFIX'',
      gc_sa = or_env getenv (GcsServiceAccountJSON f) ''HIVE_GCS_SERVICE_ACCOUNT_JSON''\<rparr>"

record s3Cfg =
  s3_bucket :: string
  s3_region :: string
  s3_prefix :: string
  s3_accessKeyID :: string
  s3_secretAccessKey :: string
  s3_sessionToken :: string
  s3_endpoint :: string
  s3_usePathStyle :: bool

definition s3Resolved :: "(string \<Rightarrow> string) \<Rightarrow> FS \<Rightarrow> s3Cfg" where
  "s3Resolved getenv f =
     \<lparr>s3_bucket = or_env getenv (S3Bucket f) ''HIVE_S3_BUCKET'',
      s3_region = or_env getenv (S3Region f) ''HIVE_S3_REGION'',
      s3_prefix = or_env getenv (S3Prefix f) ''HIVE_S3_PREFIX'',
      s3_accessKeyID = or_env getenv (S3AccessKeyID f) ''HIVE_S3_ACCESS_KEY_ID'',
      s3_secretAccessKey = or_env getenv (S3SecretAccessKey f) ''HIVE_S3_SECRET_ACCESS_KEY'',
      s3_sessionToken = or_env getenv (S3SessionToken f) ''HIVE_S3_SESSION_TOKEN'',
      s3_endpoint = or_env getenv (S3Endpoint f) ''HIVE_S3_ENDPOINT'',
      s3_usePathStyle = S3UsePathStyle f\<rparr>"

record azureCfg =
  az_account :: string
  az_container :: string
  az_prefix :: string
  az_accountKey :: string
  az_connectionString :: string
  az_sasToken :: string
  az_endpoint :: string

definition azureResolved :: "(string \<Rightarrow> string) \<Rightarrow> FS \<Rightarrow> azureCfg" where
  "azureResolved getenv f =
     \<lparr>az_account = or_env getenv (AzureAccount f) ''HIVE_AZURE_ACCOUNT'',
      az_container = or_env getenv (AzureContainer f) ''HIVE_AZURE_CONTAINER'',
      az_prefix = or_env getenv (AzurePrefix f) ''HIVE_AZURE_PREFIX'',
      az_accountKey = or_env getenv (AzureAccountKey f) ''HIVE_AZURE_ACCOUNT_KEY'',
      az_connectionString = or_env getenv (AzureConnectionString f) ''HIVE_AZURE_CONNECTION_STRING'',
      az_sasToken = or_env getenv (AzureSASToken f) ''HIVE_AZURE_SAS_TOKEN'',
      az_endpoint = or_env getenv (AzureEndpoint f) ''HIVE_AZURE_ENDPOINT''\<rparr>"

record onedriveCfg =
  od_access :: string
  od_refresh :: string
  od_clientID :: string
  od_clientSecret :: string
  od_tenant :: string
  od_driveID :: string
  od_prefix :: string

definition onedriveResolved :: "(string \<Rightarrow> string) \<Rightarrow> FS \<Rightarrow> onedriveCfg" where
  "onedriveResolved getenv f =
     \<lparr>od_access = or_env getenv (OneDriveAccessToken f) ''HIVE_ONEDRIVE_ACCESS_TOKEN'',
      od_refresh = or_env getenv (OneDriveRefreshToken f) ''HIVE_ONEDRIVE_REFRESH_TOKEN'',
      od_clientID = or_env getenv (OneDriveClientID f) ''HIVE_ONEDRIVE_CLIENT_ID'',
      od_clientSecret = or_env getenv (OneDriveClientSecret f) ''HIVE_ONEDRIVE_CLIENT_SECRET'',
      od_tenant = or_env getenv (OneDriveTenant f) ''HIVE_ONEDRIVE_TENANT'',
      od_driveID = or_env getenv (OneDriveDriveID f) ''HIVE_ONEDRIVE_DRIVE_ID'',
      od_prefix = or_env getenv (OneDrivePrefix f) ''HIVE_ONEDRIVE_PREFIX''\<rparr>"

definition externalResolved :: "(string \<Rightarrow> string) \<Rightarrow> FS \<Rightarrow> string" where
  "externalResolved getenv f = or_env getenv (fs_Host f) ''HIVE_EXTERNAL_HOST''"

section \<open>The object handed to the FUSE daemon\<close>

text \<open>
  \<^verbatim>\<open>json.Marshal\<close> of the per-backend struct: the members in declaration order, an
  \<^verbatim>\<open>omitempty\<close> member only when it is not the zero value.
\<close>

definition member :: "string \<Rightarrow> string \<Rightarrow> (string \<times> jval) list" where
  "member k v = [(k, JStr v)]"

definition member_omitempty :: "string \<Rightarrow> string \<Rightarrow> (string \<times> jval) list" where
  "member_omitempty k v = (if v = [] then [] else [(k, JStr v)])"

definition flag_omitempty :: "string \<Rightarrow> bool \<Rightarrow> (string \<times> jval) list" where
  "flag_omitempty k v = (if v then [(k, JBool v)] else [])"

definition BackendConfigJSON :: "(string \<Rightarrow> string) \<Rightarrow> FS \<Rightarrow> (string \<times> jval) list option" where
  "BackendConfigJSON getenv f =
     (case fs_Backend f of
        BackendGoogleDrive \<Rightarrow>
          let c = gdriveResolved getenv f in
          Some (member_omitempty ''access_token'' (gd_access c) @
            member_omitempty ''refresh_token'' (gd_refresh c) @
            member_omitempty ''client_id'' (gd_clientID c) @
            member_omitempty ''client_secret'' (gd_clientSecret c) @
            member_omitempty ''service_account_json'' (gd_sa c) @
            member_omitempty ''folder_id'' (gd_folder c) @
            member_omitempty ''prefix'' (gd_prefix c))
      | BackendGoogleCloudStorage \<Rightarrow>
          let c = gcsResolved getenv f in
          Some (member ''bucket'' (gc_bucket c) @
            member_omitempty ''prefix'' (gc_prefix c) @
            member_omitempty ''service_account_json'' (gc_sa c))
      | BackendS3 \<Rightarrow>
          let c = s3Resolved getenv f in
          Some (member ''bucket'' (s3_bucket c) @
            member_omitempty ''region'' (s3_region c) @
            member_omitempty ''prefix'' (s3_prefix c) @
            member_omitempty ''access_key_id'' (s3_accessKeyID c) @
            member_omitempty ''secret_access_key'' (s3_secretAccessKey c) @
            member_omitempty ''session_token'' (s3_sessionToken c) @
            member_omitempty ''endpoint'' (s3_endpoint c) @
            flag_omitempty ''use_path_style'' (s3_usePathStyle c))
      | BackendAzureBlob \<Rightarrow>
          let c = azureResolved getenv f in
          Some (member_omitempty ''account'' (az_account c) @
            member ''container'' (az_container c) @
            member_omitempty ''prefix'' (az_prefix c) @
            member_omitempty ''account_key'' (az_accountKey c) @
            member_omitempty ''connection_string'' (az_connectionString c) @
            member_omitempty ''sas_token'' (az_sasToken c) @
            member_omitempty ''endpoint'' (az_endpoint c))
      | BackendOneDrive \<Rightarrow>
          let c = onedriveResolved getenv f in
          Some (member_omitempty ''access_token'' (od_access c) @
            member_omitempty ''refresh_token'' (od_refresh c) @
            member_omitempty ''client_id'' (od_clientID c) @
            member_omitempty ''client_secret'' (od_clientSecret c) @
            member_omitempty ''tenant'' (od_tenant c) @
            member_omitempty ''drive_id'' (od_driveID c) @
            member_omitempty ''prefix'' (od_prefix c))
      | BackendExternal \<Rightarrow> Some (member ''host'' (externalResolved getenv f))
      | _ \<Rightarrow> None)"

section \<open>Validation\<close>

datatype override_error = OnlyOnAllow | SchemeOrPath string | Wildcard string | MissingHostname string
  | PortOutOfRange string | NotRooted string | SpecialCharacter string

datatype fs_error = BackendRequired | BackendUnknown string | GdriveCredential | GcsBucketRequired
  | GcsServiceAccount | S3BucketRequired | S3Keys | AzureContainerRequired | AzureCredential
  | AzureAccountRequired | OneDriveToken | ExternalHost | MountRequired | MountNotAbsolute string

datatype egress_error = HostRequired | PortRange nat int | OverrideHost override_error
  | OverridePrefixPath override_error | OverrideBodyStrategy string | ScriptOnlyOnAllow

datatype spec_error = CPUNotPositive rat | MemoryTooSmall int | FSError nat fs_error
  | MountOverlap nat string nat string | EgressError nat egress_error | VMKey | FilesKey
  | FilesMountNotAbsolute string | FilesMountUnknown string

text \<open>The early returns of a run of guards: the error of the first guard that holds.\<close>

primrec first_error :: "(bool \<times> 'e) list \<Rightarrow> 'e option" where
  "first_error [] = None"
| "first_error (g # gs) = (if fst g then Some (snd g) else first_error gs)"

definition validateOverrideHost :: "string \<Rightarrow> string \<Rightarrow> override_error option" where
  "validateOverrideHost v access =
     (if access \<noteq> ''allow'' then Some OnlyOnAllow
      else if Contains v ''://'' \<or> Contains v ''/'' then Some (SchemeOrPath v)
      else if Contains v ''*'' then Some (Wildcard v)
      else (case net_SplitHostPort v of
              None \<Rightarrow> None
            | Some (host, portStr) \<Rightarrow>
                if TrimSpace host = [] then Some (MissingHostname v)
                else (case Atoi portStr of
                        None \<Rightarrow> Some (PortOutOfRange portStr)
                      | Some port \<Rightarrow>
                          if port < 1 \<or> port > 65535 then Some (PortOutOfRange portStr) else None)))"

definition validateOverridePrefixPath :: "string \<Rightarrow> string \<Rightarrow> override_error option" where
  "validateOverridePrefixPath v access =
     (if access \<noteq> ''allow'' then Some OnlyOnAllow
      else if \<not> HasPrefix v ''/'' then Some (NotRooted v)
      else if list_ex (\<lambda>c. c \<in> set ''*?#'') v then Some (SpecialCharacter v)
      else None)"

definition pathOverlaps :: "string \<Rightarrow> string \<Rightarrow> bool" where
  "pathOverlaps a b =
     (if a = b then True
      else if length a > length b then HasPrefix a (TrimRight slash b @ ''/'')
      else HasPrefix b (TrimRight slash a @ ''/''))"

definition fs_guards :: "(string \<Rightarrow> string) \<Rightarrow> FS \<Rightarrow> (bool \<times> fs_error) list" where
  "fs_guards getenv f =
     (case fs_Backend f of
        BackendOther b \<Rightarrow> [(b = [], BackendRequired), (True, BackendUnknown b)]
      | BackendGoogleDrive \<Rightarrow>
          let c = gdriveResolved getenv f in
          [(gd_access c = [] \<and> gd_sa c = [], GdriveCredential)]
      | BackendGoogleCloudStorage \<Rightarrow>
          let c = gcsResolved getenv f in
          [(gc_bucket c = [], GcsBucketRequired), (gc_sa c = [], GcsServiceAccount)]
      | BackendS3 \<Rightarrow>
          let c = s3Resolved getenv f in
          [(s3_bucket c = [], S3BucketRequired),
           (s3_accessKeyID c = [] \<or> s3_secretAccessKey c = [], S3Keys)]
      | BackendAzureBlob \<Rightarrow>
          let c = azureResolved getenv f in
          [(az_container c = [], AzureContainerRequired),
           (az_connectionString c = [] \<and> az_sasToken c = [] \<and> az_accountKey c = [], AzureCredential),
           (az_account c = [] \<and> az_connectionString c = [] \<and> az_endpoint c = [], AzureAccountRequired)]
      | BackendOneDrive \<Rightarrow>
          let c = onedriveResolved getenv f in [(od_access c = [], OneDriveToken)]
      | BackendExternal \<Rightarrow> [(externalResolved getenv f = [], ExternalHost)]
      | BackendLocal \<Rightarrow> []) @
     [(Mount f = [], MountRequired), (\<not> HasPrefix (Mount f) ''/'', MountNotAbsolute (Mount f))]"

definition default_acls :: "FS \<Rightarrow> Rule list" where
  "default_acls f = [\<lparr>r_path = Mount f @ ''/**'', r_access = AccessRW\<rparr>]"

definition fill_acls :: "FS \<Rightarrow> FS" where
  "fill_acls f = (if fs_ACLs f = [] then f\<lparr>fs_ACLs := default_acls f\<rparr> else f)"

text \<open>The loop over \<^verbatim>\<open>s.FS\<close>: an entry gets its default rules once it has passed.\<close>

fun validate_fs :: "(string \<Rightarrow> string) \<Rightarrow> nat \<Rightarrow> FS list \<Rightarrow> spec_error option \<times> FS list" where
  "validate_fs getenv i [] = (None, [])"
| "validate_fs getenv i (f # fs) =
     (case first_error (fs_guards getenv f) of
        Some e \<Rightarrow> (Some (FSError i e), f # fs)
      | None \<Rightarrow> (case validate_fs getenv (Suc i) fs of (err, fs') \<Rightarrow> (err, fill_acls f # fs')))"

fun overlap_with :: "nat \<Rightarrow> string \<Rightarrow> nat \<Rightarrow> FS list \<Rightarrow> spec_error option" where
  "overlap_with i a j [] = None"
| "overlap_with i a j (g # gs) =
     (if pathOverlaps a (Mount g) then Some (MountOverlap i a j (Mount g))
      else overlap_with i a (Suc j) gs)"

fun validate_mounts :: "nat \<Rightarrow> FS list \<Rightarrow> spec_error option" where
  "validate_mounts i [] = None"
| "validate_mounts i (f # fs) =
     (case overlap_with i (Mount f) (Suc i) fs of
        Some e \<Rightarrow> Some e
      | None \<Rightarrow> validate_mounts (Suc i) fs)"

fun port_guards :: "nat \<Rightarrow> int list \<Rightarrow> (bool \<times> egress_error) list" where
  "port_guards j [] = []"
| "port_guards j (p # ps) = (p < 1 \<or> p > 65535, PortRange j p) # port_guards (Suc j) ps"

definition override_guards :: "EgressOverride \<Rightarrow> string \<Rightarrow> (bool \<times> egress_error) list" where
  "override_guards ov access =
     [(ov_Host ov \<noteq> [] \<and> validateOverrideHost (ov_Host ov) access \<noteq> None,
         OverrideHost (the (validateOverrideHost (ov_Host ov) access))),
      (ov_PrefixPath ov \<noteq> [] \<and> validateOverridePrefixPath (ov_PrefixPath ov) access \<noteq> None,
         OverridePrefixPath (the (validateOverridePrefixPath (ov_PrefixPath ov) access))),
      (ov_BodyStrategy ov \<noteq> [] \<and> ov_BodyStrategy ov \<noteq> ''merge'' \<and> ov_BodyStrategy ov \<noteq> ''replace'',
         OverrideBodyStrategy (ov_BodyStrategy ov))]"

definition egress_guards :: "EgressRule \<Rightarrow> (bool \<times> egress_error) list" where
  "egress_guards e =
     (TrimSpace (e_Host e) = [], HostRequired) # port_guards 0 (e_Ports e) @
     (case e_Override e of None \<Rightarrow> [] | Some ov \<Rightarrow> override_guards ov (e_Access e)) @
     [(e_OverrideScript e \<noteq> [] \<and> e_Access e \<noteq> ''allow'', ScriptOnlyOnAllow)]"

fun validate_egress :: "nat \<Rightarrow> EgressRule list \<Rightarrow> spec_error option" where
  "validate_egress i [] = None"
| "validate_egress i (e # es) =
     (case first_error (egress_guards e) of
        Some err \<Rightarrow> Some (EgressError i err)
      | None \<Rightarrow> validate_egress (Suc i) es)"

text \<open>The regular expression \<^verbatim>\<open>^[A-Za-z0-9._-]{1,64}$\<close>.\<close>

definition key_char :: "char \<Rightarrow> bool" where
  "key_char c = (let n = (of_char c :: nat)
     in 65 \<le> n \<and> n \<le> 90 \<or> 97 \<le> n \<and> n \<le> 122 \<or> 48 \<le> n \<and> n \<le> 57 \<or> c \<in> set ''._-'')"

definition snapshotKeyRE :: "string \<Rightarrow> bool" where
  "snapshotKeyRE k = (1 \<le> length k \<and> length k \<le> 64 \<and> list_all key_char k)"

definition snapshot_guards :: "FS list \<Rightarrow> Snapshot \<Rightarrow> (bool \<times> spec_error) list" where
  "snapshot_guards fs sn =
     (case sn_VM sn of
        None \<Rightarrow> []
      | Some k \<Rightarrow> [(k = [] \<or> \<not> snapshotKeyRE k, VMKey)]) @
     (case sn_Files sn of
        None \<Rightarrow> []
      | Some f \<Rightarrow>
          [(sf_Key f = [] \<or> \<not> snapshotKeyRE (sf_Key f), FilesKey),
           (sf_Mount f \<noteq> [] \<and> \<not> HasPrefix (sf_Mount f) ''/'', FilesMountNotAbsolute (sf_Mount f)),
           (sf_Mount f \<noteq> [] \<and> \<not> list_ex (\<lambda>g. Mount g = sf_Mount f) fs, FilesMountUnknown (sf_Mount f))])"

text \<open>
  \<^verbatim>\<open>Spec.Validate\<close>: the error, if any, and the receiver after the call (its entries carry
  the default rules from then on).
\<close>

definition Validate :: "(string \<Rightarrow> string) \<Rightarrow> SandboxSpec \<Rightarrow> spec_error option \<times> SandboxSpec" where
  "Validate getenv s =
     (case first_error
        [(case sp_CPU s of None \<Rightarrow> False | Some c \<Rightarrow> c \<le> 0, CPUNotPositive (the (sp_CPU s))),
         (case sp_Memory s of None \<Rightarrow> False | Some m \<Rightarrow> m < 128, MemoryTooSmall (the (sp_Memory s)))] of
        Some e \<Rightarrow> (Some e, s)
      | None \<Rightarrow>
          (case validate_fs getenv 0 (sp_FS s) of
             (Some e, fs) \<Rightarrow> (Some e, s\<lparr>sp_FS := fs\<rparr>)
           | (None, fs) \<Rightarrow>
               (case validate_mounts 0 fs of
                  Some e \<Rightarrow> (Some e, s\<lparr>sp_FS := fs\<rparr>)
                | None \<Rightarrow>
                    (case validate_egress 0 (sp_Egress s) of
                       Some e \<Rightarrow> (Some e, s\<lparr>sp_FS := fs\<rparr>)
                     | None \<Rightarrow>
                         ((case sp_Snapshot s of
                             None \<Rightarrow> None
                           | Some sn \<Rightarrow> first_error (snapshot_guards fs sn)), s\<lparr>sp_FS := fs\<rparr>)))))"

text \<open>\<^verbatim>\<open>Load\<close>: reading and decoding the file is the argument \<open>parse\<close>.\<close>

definition Load :: "(string \<Rightarrow> string + SandboxSpec) \<Rightarrow> (string \<Rightarrow> string) \<Rightarrow> string
    \<Rightarrow> (string + spec_error) + SandboxSpec" where
  "Load parse getenv path =
     (case parse path of
        Inl e \<Rightarrow> Inl (Inl e)
      | Inr s \<Rightarrow> (case Validate getenv s of
                  (Some e, _) \<Rightarrow> Inl (Inr e)
                | (None, s') \<Rightarrow> Inr s'))"

section \<open>What validation accepts\<close>

definition backend_ready :: "(string \<Rightarrow> string) \<Rightarrow> FS \<Rightarrow> bool" where
  "backend_ready getenv f \<longleftrightarrow>
     (case fs_Backend f of
        BackendLocal \<Rightarrow> True
      | BackendOther b \<Rightarrow> False
      | BackendGoogleDrive \<Rightarrow> gd_access (gdriveResolved getenv f) \<noteq> [] \<or> gd_sa (gdriveResolved getenv f) \<noteq> []
      | BackendGoogleCloudStorage \<Rightarrow> gc_bucket (gcsResolved getenv f) \<noteq> [] \<and> gc_sa (gcsResolved getenv f) \<noteq> []
      | BackendS3 \<Rightarrow> s3_bucket (s3Resolved getenv f) \<noteq> [] \<and> s3_accessKeyID (s3Resolved getenv f) \<noteq> []
          \<and> s3_secretAccessKey (s3Resolved getenv f) \<noteq> []
      | BackendAzureBlob \<Rightarrow> az_container (azureResolved getenv f) \<noteq> []
          \<and> (az_connectionString (azureResolved getenv f) \<noteq> []
             \<or> (az_sasToken (azureResolved getenv f) \<noteq> [] \<or> az_accountKey (azureResolved getenv f) \<noteq> [])
               \<and> (az_account (azureResolved getenv f) \<noteq> [] \<or> az_endpoint (azureResolved getenv f) \<noteq> []))
      | BackendOneDrive \<Rightarrow> od_access (onedriveResolved getenv f) \<noteq> []
      | BackendExternal \<Rightarrow> externalResolved getenv f \<noteq> [])"

definition wf_override :: "string \<Rightarrow> EgressOverride \<Rightarrow> bool" where
  "wf_override access ov \<longleftrightarrow>
     (ov_Host ov \<noteq> [] \<longrightarrow> validateOverrideHost (ov_Host ov) access = None) \<and>
     (ov_PrefixPath ov \<noteq> [] \<longrightarrow> validateOverridePrefixPath (ov_PrefixPath ov) access = None) \<and>
     ov_BodyStrategy ov \<in> {[], ''merge'', ''replace''}"

definition wf_rule :: "EgressRule \<Rightarrow> bool" where
  "wf_rule e \<longleftrightarrow> TrimSpace (e_Host e) \<noteq> [] \<and> (\<forall>p \<in> set (e_Ports e). 1 \<le> p \<and> p \<le> 65535)
     \<and> (\<forall>ov. e_Override e = Some ov \<longrightarrow> wf_override (e_Access e) ov)
     \<and> (e_OverrideScript e \<noteq> [] \<longrightarrow> e_Access e = ''allow'')"

definition wf_snapshot :: "FS list \<Rightarrow> Snapshot \<Rightarrow> bool" where
  "wf_snapshot fs sn \<longleftrightarrow>
     (\<forall>k. sn_VM sn = Some k \<longrightarrow> snapshotKeyRE k) \<and>
     (\<forall>f. sn_Files sn = Some f \<longrightarrow> snapshotKeyRE (sf_Key f) \<and>
        (sf_Mount f \<noteq> [] \<longrightarrow> HasPrefix (sf_Mount f) ''/'' \<and> sf_Mount f \<in> Mount ` set fs))"

definition wf_spec :: "(string \<Rightarrow> string) \<Rightarrow> SandboxSpec \<Rightarrow> bool" where
  "wf_spec getenv s \<longleftrightarrow>
     (\<forall>c. sp_CPU s = Some c \<longrightarrow> 0 < c) \<and> (\<forall>m. sp_Memory s = Some m \<longrightarrow> 128 \<le> m) \<and>
     (\<forall>f \<in> set (sp_FS s). backend_ready getenv f \<and> HasPrefix (Mount f) ''/'') \<and>
     (\<forall>i j. i < j \<longrightarrow> j < length (sp_FS s) \<longrightarrow> \<not> pathOverlaps (Mount (sp_FS s ! i)) (Mount (sp_FS s ! j))) \<and>
     (\<forall>e \<in> set (sp_Egress s). wf_rule e) \<and>
     (\<forall>sn. sp_Snapshot s = Some sn \<longrightarrow> wf_snapshot (sp_FS s) sn)"

lemma first_error_None: "first_error gs = None \<longleftrightarrow> (\<forall>g \<in> set gs. \<not> fst g)"
  by (induction gs) auto

lemma fs_guards_None: "first_error (fs_guards getenv f) = None \<longleftrightarrow>
    backend_ready getenv f \<and> HasPrefix (Mount f) ''/''"
  by (cases "fs_Backend f") (auto simp: first_error_None fs_guards_def backend_ready_def Let_def HasPrefix_def)

lemma port_guards_None: "(\<forall>g \<in> set (port_guards j ps). \<not> fst g) \<longleftrightarrow> (\<forall>p \<in> set ps. 1 \<le> p \<and> p \<le> 65535)"
  by (induction ps arbitrary: j) auto

lemma override_guards_None: "(\<forall>g \<in> set (override_guards ov access). \<not> fst g) \<longleftrightarrow> wf_override access ov"
  by (auto simp: override_guards_def wf_override_def)

lemma egress_guards_None: "first_error (egress_guards e) = None \<longleftrightarrow> wf_rule e"
proof (cases "e_Override e")
  case None
  then show ?thesis
    by (auto simp: first_error_None egress_guards_def wf_rule_def ball_Un port_guards_None)
next
  case (Some ov)
  then show ?thesis
    by (auto simp: first_error_None egress_guards_def wf_rule_def ball_Un port_guards_None override_guards_None)
qed

lemma snapshotKeyRE_not_Nil: "snapshotKeyRE k \<Longrightarrow> k \<noteq> []"
  by (auto simp: snapshotKeyRE_def)

lemma snapshot_guards_None: "first_error (snapshot_guards fs sn) = None \<longleftrightarrow> wf_snapshot fs sn"
  by (cases "sn_VM sn"; cases "sn_Files sn")
     (auto simp: first_error_None snapshot_guards_def wf_snapshot_def list_ex_iff image_iff
       eq_commute [of _ "Mount _"] dest: snapshotKeyRE_not_Nil)

lemma validate_egress_None: "validate_egress i es = None \<longleftrightarrow> (\<forall>e \<in> set es. wf_rule e)"
  by (induction es arbitrary: i) (auto simp: egress_guards_None [symmetric] split: option.splits)

lemma overlap_with_None: "overlap_with i a j gs = None \<longleftrightarrow> (\<forall>g \<in> set gs. \<not> pathOverlaps a (Mount g))"
  by (induction gs arbitrary: j) auto

lemma validate_mounts_None:
  "validate_mounts i fs = None \<longleftrightarrow> sorted_wrt (\<lambda>f g. \<not> pathOverlaps (Mount f) (Mount g)) fs"
proof (induction fs arbitrary: i)
  case (Cons f fs)
  then show ?case
    using overlap_with_None [of i "Mount f" "Suc i" fs]
    by (cases "overlap_with i (Mount f) (Suc i) fs") auto
qed simp

lemma validate_fs_None:
  "fst (validate_fs getenv i fs) = None \<longleftrightarrow> (\<forall>f \<in> set fs. backend_ready getenv f \<and> HasPrefix (Mount f) ''/'')"
  by (induction fs arbitrary: i) (auto simp: fs_guards_None [symmetric] case_prod_beta split: option.splits)

lemma validate_fs_result:
  "fst (validate_fs getenv i fs) = None \<Longrightarrow> snd (validate_fs getenv i fs) = map fill_acls fs"
  by (induction fs arbitrary: i) (auto simp: case_prod_beta split: option.splits)

lemma fill_acls_simps [simp]:
  "Mount (fill_acls f) = Mount f" "fs_Backend (fill_acls f) = fs_Backend f"
  "fill_acls (fill_acls f) = fill_acls f"
  by (auto simp: fill_acls_def default_acls_def)

lemma backend_ready_fill [simp]: "backend_ready getenv (fill_acls f) = backend_ready getenv f"
  by (cases "fs_Backend f") (auto simp: backend_ready_def fill_acls_def gdriveResolved_def gcsResolved_def
    s3Resolved_def azureResolved_def onedriveResolved_def externalResolved_def)

lemma wf_snapshot_fill [simp]: "wf_snapshot (map fill_acls fs) sn = wf_snapshot fs sn"
  by (simp add: wf_snapshot_def image_image)

lemma sorted_wrt_fill [simp]:
  "sorted_wrt (\<lambda>f g. \<not> pathOverlaps (Mount f) (Mount g)) (map fill_acls fs) =
   sorted_wrt (\<lambda>f g. \<not> pathOverlaps (Mount f) (Mount g)) fs"
  by (simp add: sorted_wrt_map)

text \<open>The stages of the validation, and the same stages of well-formedness.\<close>

lemma Validate_stages:
  "fst (Validate getenv s) = None \<longleftrightarrow>
     (case sp_CPU s of None \<Rightarrow> True | Some c \<Rightarrow> 0 < c) \<and> (case sp_Memory s of None \<Rightarrow> True | Some m \<Rightarrow> 128 \<le> m) \<and>
     fst (validate_fs getenv 0 (sp_FS s)) = None \<and> validate_mounts 0 (snd (validate_fs getenv 0 (sp_FS s))) = None \<and>
     validate_egress 0 (sp_Egress s) = None \<and>
     (case sp_Snapshot s of None \<Rightarrow> True | Some sn \<Rightarrow> wf_snapshot (snd (validate_fs getenv 0 (sp_FS s))) sn)"
  by (cases "validate_fs getenv 0 (sp_FS s)"; cases "validate_mounts 0 (snd (validate_fs getenv 0 (sp_FS s)))")
     (auto simp: Validate_def snapshot_guards_None not_less not_le split: option.splits)

lemma wf_spec_stages:
  "wf_spec getenv s \<longleftrightarrow>
     (case sp_CPU s of None \<Rightarrow> True | Some c \<Rightarrow> 0 < c) \<and> (case sp_Memory s of None \<Rightarrow> True | Some m \<Rightarrow> 128 \<le> m) \<and>
     (\<forall>f \<in> set (sp_FS s). backend_ready getenv f \<and> HasPrefix (Mount f) ''/'') \<and>
     sorted_wrt (\<lambda>f g. \<not> pathOverlaps (Mount f) (Mount g)) (sp_FS s) \<and>
     (\<forall>e \<in> set (sp_Egress s). wf_rule e) \<and>
     (case sp_Snapshot s of None \<Rightarrow> True | Some sn \<Rightarrow> wf_snapshot (sp_FS s) sn)"
  unfolding wf_spec_def sorted_wrt_iff_nth_less
  by (cases "sp_CPU s"; cases "sp_Memory s"; cases "sp_Snapshot s") simp_all

lemma Validate_None: "fst (Validate getenv s) = None \<longleftrightarrow> wf_spec getenv s"
proof (cases "fst (validate_fs getenv 0 (sp_FS s)) = None")
  case True
  note r = validate_fs_result [OF True]
  have "\<forall>f \<in> set (sp_FS s). backend_ready getenv f \<and> HasPrefix (Mount f) ''/''"
    using True validate_fs_None by metis
  then show ?thesis
    unfolding Validate_stages wf_spec_stages r validate_mounts_None validate_egress_None wf_snapshot_fill
      sorted_wrt_fill using True by simp
next
  case False
  then have "\<not> (\<forall>f \<in> set (sp_FS s). backend_ready getenv f \<and> HasPrefix (Mount f) ''/'')"
    using validate_fs_None by metis
  then show ?thesis
    unfolding Validate_stages wf_spec_stages using False by blast
qed

lemma Validate_result:
  assumes "fst (Validate getenv s) = None"
  shows "snd (Validate getenv s) = s\<lparr>sp_FS := map fill_acls (sp_FS s)\<rparr>"
proof -
  note st = assms [unfolded Validate_stages]
  obtain fs where v: "validate_fs getenv 0 (sp_FS s) = (None, fs)"
    using st by (cases "validate_fs getenv 0 (sp_FS s)") simp
  have fs: "fs = map fill_acls (sp_FS s)" using validate_fs_result [of getenv 0 "sp_FS s"] v by simp
  have c: "\<not> (case sp_CPU s of None \<Rightarrow> False | Some c \<Rightarrow> c \<le> 0)"
    "\<not> (case sp_Memory s of None \<Rightarrow> False | Some m \<Rightarrow> m < 128)"
    using st by (simp_all split: option.splits)
  have m: "validate_mounts 0 fs = None" "validate_egress 0 (sp_Egress s) = None" using st v by simp_all
  show ?thesis by (simp add: Validate_def c v m fs [symmetric])
qed

lemma wf_spec_fill: "wf_spec getenv (s\<lparr>sp_FS := map fill_acls (sp_FS s)\<rparr>) = wf_spec getenv s"
  by (simp add: wf_spec_stages cong: option.case_cong)

section \<open>Overlapping mounts\<close>

lemma Join_last_real:
  assumes "xs \<noteq> []" "\<forall>s \<in> set xs. real_seg s"
  obtains c t where "rev (Join slash xs) = c # t" "c \<noteq> slash"
proof -
  obtain ys z where xs: "xs = ys @ [z]" using assms(1) by (cases xs rule: rev_cases) auto
  have z: "z \<noteq> []" "slash \<notin> set z" using assms(2) xs by (auto simp: real_seg_def)
  then obtain c t where c: "rev z = c # t" "c \<noteq> slash" by (cases "rev z") auto
  show thesis
  proof (cases "ys = []")
    case True
    then show thesis using that c xs by simp
  next
    case False
    then show thesis using that c xs by (simp add: Join_append)
  qed
qed

lemma TrimRight_abs_path:
  assumes "xs \<noteq> []" "\<forall>s \<in> set xs. real_seg s"
  shows "TrimRight slash (abs_path xs) = abs_path xs"
proof -
  obtain c t where c: "rev (Join slash xs) = c # t" "c \<noteq> slash" using Join_last_real [OF assms] .
  have "rev (abs_path xs) = c # t @ [slash]" using c(1) by (simp add: abs_path_def)
  then have "dropWhile (\<lambda>x. x = slash) (rev (abs_path xs)) = rev (abs_path xs)" using c(2) by simp
  then show ?thesis unfolding TrimRight_def by simp
qed

lemma below_abs_path:
  assumes "\<forall>s \<in> set xs. real_seg s" "\<forall>s \<in> set ys. real_seg s" "xs \<noteq> ys"
  shows "HasPrefix (abs_path ys) (TrimRight slash (abs_path xs) @ ''/'') \<longleftrightarrow> strict_prefix xs ys"
proof (cases "xs = []")
  case True
  then show ?thesis using assms by (auto simp: TrimRight_def abs_path_def HasPrefix_def strict_prefix_def)
next
  case False
  moreover have "\<forall>s \<in> set xs. slash \<notin> set s" "\<forall>s \<in> set ys. slash \<notin> set s"
    using assms by (auto simp: real_seg_def)
  ultimately show ?thesis
    using TrimRight_abs_path [OF False assms(1)] prefix_Join [of xs ys]
    by (simp add: HasPrefix_def abs_path_def)
qed

lemma abs_path_longer:
  assumes "strict_prefix xs ys" "\<forall>s \<in> set ys. real_seg s"
  shows "length (abs_path xs) < length (abs_path ys)"
proof -
  obtain z zs where ys: "ys = xs @ z # zs" using assms(1) by (auto elim: strict_prefixE')
  have z: "z \<noteq> []" using assms(2) ys by (auto simp: real_seg_def)
  have "length (Join slash (z # zs)) > 0" using z by (cases zs) auto
  then show ?thesis
    using ys by (cases "xs = []") (auto simp: abs_path_def Join_append)
qed

lemma pathOverlaps_segs:
  assumes "\<forall>s \<in> set xs. real_seg s" "\<forall>s \<in> set ys. real_seg s"
  shows "pathOverlaps (abs_path xs) (abs_path ys) \<longleftrightarrow> prefix xs ys \<or> prefix ys xs"
proof (cases "xs = ys")
  case False
  then have ne: "abs_path xs \<noteq> abs_path ys" using abs_path_inj assms by blast
  have "prefix xs ys \<or> prefix ys xs \<longleftrightarrow> strict_prefix xs ys \<or> strict_prefix ys xs"
    using False by (auto simp: strict_prefix_def)
  then show ?thesis
    using ne below_abs_path [OF assms False] below_abs_path [OF assms(2,1)] False
      abs_path_longer [of xs ys] abs_path_longer [of ys xs] assms
    by (auto simp: pathOverlaps_def)
qed (simp add: pathOverlaps_def)

text \<open>A mount written with a trailing slash: its default pattern matches no cleaned path.\<close>

lemma matches_trailing:
  assumes "\<forall>s \<in> set ms. real_seg s" "ms \<noteq> []" "\<forall>s \<in> set ps. real_seg s"
  shows "\<not> matches (abs_path ps) ((abs_path ms @ ''/'') @ star_suffix)"
proof -
  let ?xs = "ms @ [[]]"
  have j: "Join slash ?xs = Join slash ms @ [slash]" using assms(2) by (simp add: Join_append)
  have ns: "\<forall>s \<in> set ?xs. slash \<notin> set s" "\<forall>s \<in> set ps. slash \<notin> set s"
    using assms by (auto simp: real_seg_def)
  have e: "[] \<notin> set ps" using assms(3) by (auto simp: real_seg_def)
  have "Join slash ps \<noteq> Join slash ?xs"
  proof
    assume q: "Join slash ps = Join slash ?xs"
    then have "ps \<noteq> []" using j by auto
    then have "ps = ?xs" using q Split_Join [of ?xs slash] Split_Join [of ps slash] ns by force
    then show False using e by simp
  qed
  moreover have "\<not> prefix (Join slash ?xs @ [slash]) (Join slash ps)"
    using prefix_Join [OF ns] e by (auto simp: strict_prefix_def prefix_def)
  ultimately have "\<not> (abs_path ps = abs_path ms @ ''/'' \<or> HasPrefix (abs_path ps) ((abs_path ms @ ''/'') @ ''/''))"
    by (simp add: HasPrefix_def abs_path_def j)
  then show ?thesis
    by (simp only: matches_def HasSuffix_append TrimSuffix_append Let_def if_True not_False_eq_True)
qed

section \<open>Properties\<close>


definition no_env :: "string \<Rightarrow> string" where
  "no_env k = []"

definition local_fs :: "string \<Rightarrow> FS" where
  "local_fs m = \<lparr>Mount = m, fs_Backend = BackendLocal, fs_ACLs = [], Internal = False, fs_Async = False,
     GdriveAccessToken = [], GdriveRefreshToken = [], GdriveClientID = [], GdriveClientSecret = [],
     GdriveServiceAccountJSON = [], GdriveFolderID = [], GdrivePrefix = [],
     GcsBucket = [], GcsPrefix = [], GcsServiceAccountJSON = [],
     S3Bucket = [], S3Region = [], S3Prefix = [], S3AccessKeyID = [], S3SecretAccessKey = [],
     S3SessionToken = [], S3Endpoint = [], S3UsePathStyle = False,
     AzureAccount = [], AzureContainer = [], AzurePrefix = [], AzureAccountKey = [],
     AzureConnectionString = [], AzureSASToken = [], AzureEndpoint = [],
     OneDriveAccessToken = [], OneDriveRefreshToken = [], OneDriveClientID = [], OneDriveClientSecret = [],
     OneDriveTenant = [], OneDriveDriveID = [], OneDrivePrefix = [], fs_Host = []\<rparr>"

definition spec_of :: "FS list \<Rightarrow> SandboxSpec" where
  "spec_of fs = \<lparr>sp_Image = ''img'', sp_CPU = None, sp_Memory = Some 256, sp_Entrypoint = [], sp_Cwd = [],
     sp_Tty = None, sp_Ttl = None, sp_Env = [], sp_FS = fs, sp_Egress = [], sp_EgressDenyWait = None,
     sp_Snapshot = None\<rparr>"

lemma local_fs_simps [simp]: "Mount (local_fs m) = m" "fs_Backend (local_fs m) = BackendLocal"
  "fs_ACLs (local_fs m) = []" "Internal (local_fs m) = False"
  by (simp_all add: local_fs_def)

lemma spec_of_wf: "wf_spec getenv (spec_of fs) \<longleftrightarrow>
    (\<forall>f \<in> set fs. backend_ready getenv f \<and> HasPrefix (Mount f) ''/'') \<and>
    sorted_wrt (\<lambda>f g. \<not> pathOverlaps (Mount f) (Mount g)) fs"
  by (simp add: wf_spec_stages spec_of_def)

lemma local_ready [simp]: "backend_ready getenv (local_fs m)"
  by (simp add: backend_ready_def)


text \<open>
  With cleaned mount paths, no path is granted by the default rules of two different
  entries of a validated spec: the bind mounts and the rules of two workspaces never
  meet.
\<close>

theorem mounts_disjoint:
  assumes "fst (Validate getenv s) = None"
    and "\<forall>f \<in> set (sp_FS s). \<exists>ms. ms \<noteq> [] \<and> (\<forall>x \<in> set ms. real_seg x) \<and> Mount f = abs_path ms"
    and "i < length (sp_FS s)" "j < length (sp_FS s)" "i \<noteq> j"
  shows "Eval (Compile (default_acls (sp_FS s ! i))) p = AccessDeny
       \<or> Eval (Compile (default_acls (sp_FS s ! j))) p = AccessDeny"
proof -
  let ?ps = "clean_segs True (Split slash (TrimPrefix p ''/''))"
  obtain xs ys where x: "xs \<noteq> []" "\<forall>x \<in> set xs. real_seg x" "Mount (sp_FS s ! i) = abs_path xs"
    and y: "ys \<noteq> []" "\<forall>x \<in> set ys. real_seg x" "Mount (sp_FS s ! j) = abs_path ys"
    using assms(2-4) by (meson nth_mem)
  have "sorted_wrt (\<lambda>f g. \<not> pathOverlaps (Mount f) (Mount g)) (sp_FS s)"
    using assms(1) by (simp add: Validate_None wf_spec_stages)
  then have "\<not> pathOverlaps (abs_path xs) (abs_path ys) \<or> \<not> pathOverlaps (abs_path ys) (abs_path xs)"
    using assms(3-5) x(3) y(3) by (metis linorder_neqE_nat sorted_wrt_nth_less)
  then have "\<not> prefix xs ys" "\<not> prefix ys xs"
    using pathOverlaps_segs [OF x(2) y(2)] pathOverlaps_segs [OF y(2) x(2)] by auto
  then have "\<not> (prefix xs ?ps \<and> prefix ys ?ps)" using prefix_same_cases by blast
  then show ?thesis
    using Eval_subtree [OF x(2,1), of AccessRW p] Eval_subtree [OF y(2,1), of AccessRW p]
    by (auto simp: default_acls_def x(3) y(3))
qed

theorem mounts_disjoint_witness:
  "Eval (Compile (default_acls (local_fs ''/data''))) ''/data/../src/x'' = AccessDeny
   \<or> Eval (Compile (default_acls (local_fs ''/src''))) ''/data/../src/x'' = AccessDeny"
proof -
  let ?s = "spec_of [local_fs ''/data'', local_fs ''/src'']"
  have r: "real_seg ''data''" "real_seg ''src''" by (simp_all add: real_seg_def)
  have a: "''/data'' = abs_path [''data'']" "''/src'' = abs_path [''src'']" by (simp_all add: abs_path_def)
  have "\<not> pathOverlaps ''/data'' ''/src''" by (simp add: pathOverlaps_def HasPrefix_def TrimRight_def)
  then have v: "fst (Validate no_env ?s) = None" by (simp add: Validate_None spec_of_wf HasPrefix_def)
  have m: "\<forall>f \<in> set (sp_FS ?s). \<exists>ms. ms \<noteq> [] \<and> (\<forall>x \<in> set ms. real_seg x) \<and> Mount f = abs_path ms"
    using r a by (force simp: spec_of_def)
  show ?thesis using mounts_disjoint [OF v m, of 0 1 "''/data/../src/x''"] by (simp add: spec_of_def)
qed

text \<open>
  A mount written with a trailing slash is accepted, but its default rule
  \<open>mount//**\<close> matches no cleaned path, so every operation below it is denied.
\<close>

theorem trailing_slash_mount_denies:
  assumes "ms \<noteq> []" "\<forall>x \<in> set ms. real_seg x" "Mount f = abs_path ms @ ''/''" "fs_ACLs f = []"
  shows "(first_error (fs_guards getenv f) = None \<longleftrightarrow> backend_ready getenv f)
       \<and> Eval (Compile (fs_ACLs (fill_acls f))) p = AccessDeny"
proof
  show "first_error (fs_guards getenv f) = None \<longleftrightarrow> backend_ready getenv f"
    using assms(3) by (simp add: fs_guards_None HasPrefix_def abs_path_def)
  let ?ps = "clean_segs True (Split slash (TrimPrefix p ''/''))"
  have "clean_abs p = abs_path ?ps" using clean_abs_rooted path_Clean_rooted by metis
  then show "Eval (Compile (fs_ACLs (fill_acls f))) p = AccessDeny"
    using matches_trailing [OF assms(2,1) clean_segs_real] assms(3,4)
    by (simp add: Eval_Compile policy_def fill_acls_def default_acls_def star_suffix_def)
qed

theorem trailing_slash_mount_denies_witness:
  "fst (Validate no_env (spec_of [local_fs ''/data/''])) = None
   \<and> Eval (Compile (fs_ACLs (fill_acls (local_fs ''/data/'')))) ''/data/notes.txt'' = AccessDeny"
  using trailing_slash_mount_denies [of "[''data'']" "local_fs ''/data/''" no_env "''/data/notes.txt''"]
  by (simp add: Validate_None spec_of_wf HasPrefix_def real_seg_def abs_path_def)

text \<open>
  A validated override host is what the proxy dials: with a port, that host and a port
  between 1 and 65535; without one, the host with the port that would have been dialled.
\<close>

theorem override_dials_in_range:
  assumes "wf_rule r" "e_Override r = Some ov" "ov_Host ov \<noteq> []"
  shows "case net_SplitHostPort (ov_Host ov) of
           Some (h, p) \<Rightarrow> \<exists>port. Atoi p = Some port \<and> 1 \<le> port \<and> port \<le> 65535
             \<and> dialTarget (Some r) d = net_JoinHostPort h (Itoa port)
         | None \<Rightarrow> dialTarget (Some r) d =
             (let port = snd (splitHostPort [] d 0)
              in if port = 0 then ov_Host ov else net_JoinHostPort (ov_Host ov) (Itoa port))"
proof -
  have v: "validateOverrideHost (ov_Host ov) (e_Access r) = None"
    using assms by (auto simp: wf_rule_def wf_override_def)
  show ?thesis
  proof (cases "net_SplitHostPort (ov_Host ov)")
    case None
    then have "splitHostPort [] (ov_Host ov) 0 = (ov_Host ov, 0)"
      by (auto simp: splitHostPort_def Let_def split: option.splits)
    then show ?thesis using None assms by (simp add: dialTarget_def Let_def)
  next
    case (Some hp)
    obtain h p where hp: "hp = (h, p)" by (cases hp)
    have "h \<noteq> []" and "\<exists>port. Atoi p = Some port \<and> 1 \<le> port \<and> port \<le> 65535"
      using v Some hp by (auto simp: validateOverrideHost_def TrimSpace_def split: if_splits option.splits)
    then obtain port where port: "Atoi p = Some port" "1 \<le> port" "port \<le> 65535" and h: "h \<noteq> []" by blast
    have "splitHostPort [] (ov_Host ov) 0 = (h, port)"
      using SplitHostPort_splits [OF Some [unfolded hp] port(1)] .
    then show ?thesis using Some hp port h assms by (simp add: dialTarget_def)
  qed
qed

theorem override_dials_in_range_witness:
  "\<exists>port. Atoi ''8443'' = Some port \<and> 1 \<le> port \<and> port \<le> 65535
     \<and> dialTarget (Some (sample_allow\<lparr>e_Override := Some \<lparr>ov_Host = ''mirror:8443'', ov_PrefixPath = [],
          ov_Query = [], ov_Headers = [], ov_Body = NoBody, ov_BodyStrategy = []\<rparr>\<rparr>)) ''a.b.io:443''
       = net_JoinHostPort ''mirror'' (Itoa port)"
proof -
  let ?ov = "\<lparr>ov_Host = ''mirror:8443'', ov_PrefixPath = [], ov_Query = [], ov_Headers = [], ov_Body = NoBody, ov_BodyStrategy = []\<rparr>"
  let ?r = "sample_allow\<lparr>e_Override := Some ?ov\<rparr>"
  have a: "Atoi ''8443'' = Some 8443" by code_simp
  have s: "net_SplitHostPort ''mirror:8443'' = Some (''mirror'', ''8443'')" by code_simp
  have "validateOverrideHost ''mirror:8443'' ''allow'' = None"
    using a s by (simp add: validateOverrideHost_def Contains_def TrimSpace_def is_space_def sublist_code)
  then have "wf_rule ?r"
    by (auto simp: wf_rule_def wf_override_def sample_allow_def TrimSpace_def is_space_def)
  then show ?thesis using override_dials_in_range [of ?r ?ov "''a.b.io:443''"] s by simp
qed

end
