(* ===== verification/Mounts.thy ===== *)
theory Mounts
  imports Sandbox_Spec Monads
begin

text \<open>
  The workspace mounts of a sandbox: the mount manager of \<^verbatim>\<open>internal/sandboxd/mounts.go\<close>, the
  reconciliation of \<^verbatim>\<open>internal/sandboxd/reconciler.go\<close>, and the process at the other end of the
  command channel, the control loop of \<^verbatim>\<open>cmd/sbxfuse/main.go\<close>, which holds one FUSE server per
  host mount.  What sandboxd asks of the operating system and of the isolation backend is a
  \<open>mcall\<close> answered by an arbitrary environment.  The command channel is read in order by one
  loop, so a command is processed as it is sent; the contents of the rule files are the
  rules they encode.
\<close>

section \<open>State\<close>

record fsSidecar =
  sd_hostMount :: string
  sd_aclPath :: string

record fuseMountSpec =
  fm_Op :: string
  fm_Mount :: string
  fm_Backend :: string
  fm_ACLs :: string
  fm_Remote :: string
  fm_RemoteConfig :: "json_object option"
  fm_Mark :: int
  fm_OplogDepth :: int
  fm_Async :: bool

record ctrlMount =
  cm_backend :: string
  cm_acls :: ACLs
  cm_aclPath :: string
  cm_remote :: string
  cm_remoteConfig :: "json_object option"
  cm_async :: bool

record fuseMountReg =
  mr_guestMount :: string
  mr_backend :: Backend

datatype mcall =
    CMkdirAll string | CClearStale string | CSeedWorkspace string string | CWriteACLs string "Rule list"
  | CSend fuseMountSpec | CBuildStore string "json_object option" int | CFuseMount string string
  | CWaitReady string | CExportWorkspace string string | CUnexportWorkspace string | CRemoveFile string
  | CApplyResumeState | CHasPrewarmSnapshot | CStatFile string | CRestoreSnapshot string "string list"

text \<open>The fields of \<^verbatim>\<open>mountManager\<close> fixed at construction.\<close>

record mountManager =
  mm_workDir :: string
  mm_snapshotDir :: string
  mm_soMark :: int
  mm_keyPrefix :: string

text \<open>
  The changing state: the live set and the latches of the manager, the registrations of the
  event translator, the rule files, and the mounts of the FUSE process; the calls made and
  the rest of the world.
\<close>

record 'w node =
  nd_live :: "(string \<times> fsSidecar) list"
  nd_rootMounted :: bool
  nd_restored :: bool
  nd_workloadLive :: bool
  nd_trans :: "(string \<times> fuseMountReg) list"
  nd_files :: "string \<rightharpoonup> Rule list"
  nd_daemon :: "(string \<times> ctrlMount) list"
  nd_trace :: "mcall list"
  nd_world :: 'w

type_synonym 'w menv = "mcall \<Rightarrow> 'w \<Rightarrow> bool \<times> 'w"
type_synonym ('w, 'a) mop = "('w node, 'a) state"

definition ask :: "'w menv \<Rightarrow> mcall \<Rightarrow> ('w, bool) mop" where
  "ask env c = State (\<lambda>s. case env c (nd_world s) of
     (r, w) \<Rightarrow> (r, s\<lparr>nd_world := w, nd_trace := nd_trace s @ [c]\<rparr>))"

section \<open>Names on the host\<close>

definition hostMount :: "mountManager \<Rightarrow> FS \<Rightarrow> string" where
  "hostMount m f = (if mm_keyPrefix m = [] then Mount f
     else path_Clean (mm_keyPrefix m @ slash # ''mnt'' @ slash # Slug f))"

definition hostMountPath :: "mountManager \<Rightarrow> string \<Rightarrow> string" where
  "hostMountPath m agentMount = hostMount m (local_fs agentMount)"

definition hostBackend :: "mountManager \<Rightarrow> FS \<Rightarrow> string" where
  "hostBackend m f = (if mm_keyPrefix m = [] then BackendPath f
     else path_Clean (mm_keyPrefix m @ slash # ''backend'' @ slash # Slug f))"

definition aclFile :: "mountManager \<Rightarrow> FS \<Rightarrow> string" where
  "aclFile m f = path_Join (if mm_keyPrefix m = [] then mm_workDir m else mm_keyPrefix m)
     (''acls-'' @ Slug f @ ''.json'')"

definition defaultedACLs :: "FS \<Rightarrow> Rule list" where
  "defaultedACLs f =
     (if Internal f then default_acls f
      else if fs_ACLs f \<noteq> [] then fs_ACLs f
      else default_acls f)"

definition aclsFor :: "mountManager \<Rightarrow> FS \<Rightarrow> Rule list" where
  "aclsFor m f =
     (let rules = defaultedACLs f; host = hostMount m f
      in if mm_keyPrefix m = [] \<or> host = Mount f then rules
         else map (\<lambda>r. r\<lparr>r_path := host @ TrimPrefix (r_path r) (Mount f)\<rparr>) rules)"

section \<open>The FUSE process\<close>

definition readACLs :: "(string \<rightharpoonup> Rule list) \<Rightarrow> string \<Rightarrow> Rule list option" where
  "readACLs files p = (if p = [] then Some [\<lparr>r_path = ''/'', r_access = AccessRW\<rparr>] else files p)"

definition ctrl_entry :: "fuseMountSpec \<Rightarrow> Rule list \<Rightarrow> ctrlMount" where
  "ctrl_entry cmd rules = \<lparr>cm_backend = fm_Backend cmd, cm_acls = Compile rules, cm_aclPath = fm_ACLs cmd,
     cm_remote = fm_Remote cmd, cm_remoteConfig = fm_RemoteConfig cmd,
     cm_async = (fm_Remote cmd \<noteq> [] \<and> fm_Async cmd)\<rparr>"

definition controlMount :: "'w menv \<Rightarrow> fuseMountSpec \<Rightarrow> ('w, bool) mop" where
  "controlMount env cmd =
     (if fm_Mount cmd = [] \<or> fm_Backend cmd = [] then ret False
      else do {
        files \<leftarrow> gets nd_files;
        (case readACLs files (fm_ACLs cmd) of
           None \<Rightarrow> ret False
         | Some rules \<Rightarrow> do {
             store \<leftarrow> (if fm_Remote cmd = [] then ret True
                      else ask env (CBuildStore (fm_Remote cmd) (fm_RemoteConfig cmd) (fm_Mark cmd)));
             if \<not> store then ret False
             else do {
               mounted \<leftarrow> ask env (CFuseMount (fm_Mount cmd) (fm_Backend cmd));
               if \<not> mounted then ret False
               else do {
                 modify (\<lambda>s. s\<lparr>nd_daemon := AList.update (fm_Mount cmd) (ctrl_entry cmd rules) (nd_daemon s)\<rparr>);
                 ret True
               }
             }
           })
      })"

definition control_unmount :: "string \<Rightarrow> ('w, unit) mop" where
  "control_unmount h = modify (\<lambda>s. s\<lparr>nd_daemon := AList.delete h (nd_daemon s)\<rparr>)"

definition control_reacl :: "string \<Rightarrow> ('w, unit) mop" where
  "control_reacl h = modify (\<lambda>s.
     case map_of (nd_daemon s) h of
       None \<Rightarrow> s
     | Some cm \<Rightarrow>
         (case readACLs (nd_files s) (cm_aclPath cm) of
            None \<Rightarrow> s
          | Some rules \<Rightarrow> s\<lparr>nd_daemon := AList.update h (cm\<lparr>cm_acls := Compile rules\<rparr>) (nd_daemon s)\<rparr>))"

text \<open>One iteration of the loop of \<^verbatim>\<open>runControl\<close>; a failure is logged only.\<close>

definition runControl :: "'w menv \<Rightarrow> fuseMountSpec \<Rightarrow> ('w, unit) mop" where
  "runControl env cmd =
     (if fm_Op cmd = ''mount'' then do { _ \<leftarrow> controlMount env cmd; ret () }
      else if fm_Op cmd = ''unmount'' then control_unmount (fm_Mount cmd)
      else if fm_Op cmd = ''reacl'' then control_reacl (fm_Mount cmd)
      else ret ())"

section \<open>The command channel\<close>

definition zero_cmd :: fuseMountSpec where
  "zero_cmd = \<lparr>fm_Op = [], fm_Mount = [], fm_Backend = [], fm_ACLs = [], fm_Remote = [], fm_RemoteConfig = None,
     fm_Mark = 0, fm_OplogDepth = 0, fm_Async = False\<rparr>"

definition fc_send :: "'w menv \<Rightarrow> fuseMountSpec \<Rightarrow> ('w, bool) mop" where
  "fc_send env cmd = do {
     ok \<leftarrow> ask env (CSend cmd);
     if ok then do { runControl env cmd; ret True } else ret False
   }"

definition fc_Mount :: "'w menv \<Rightarrow> fuseMountSpec \<Rightarrow> ('w, bool) mop" where
  "fc_Mount env cmd = fc_send env (cmd\<lparr>fm_Op := ''mount''\<rparr>)"

definition fc_Unmount :: "'w menv \<Rightarrow> string \<Rightarrow> ('w, bool) mop" where
  "fc_Unmount env h = fc_send env (zero_cmd\<lparr>fm_Op := ''unmount'', fm_Mount := h\<rparr>)"

definition fc_ReACL :: "'w menv \<Rightarrow> string \<Rightarrow> ('w, bool) mop" where
  "fc_ReACL env h = fc_send env (zero_cmd\<lparr>fm_Op := ''reacl'', fm_Mount := h\<rparr>)"

definition trans_register :: "string \<Rightarrow> string \<Rightarrow> Backend \<Rightarrow> ('w, unit) mop" where
  "trans_register h guest b = modify (\<lambda>s. s\<lparr>nd_trans := AList.update h \<lparr>mr_guestMount = guest, mr_backend = b\<rparr> (nd_trans s)\<rparr>)"

definition trans_unregister :: "string \<Rightarrow> ('w, unit) mop" where
  "trans_unregister h = modify (\<lambda>s. s\<lparr>nd_trans := AList.delete h (nd_trans s)\<rparr>)"

section \<open>The mount manager\<close>

datatype mount_error = MountPointFailed string | BackendDirFailed string | SeedFailed string
  | ACLWriteFailed string | StartFuseFailed string | NotReady string | ExportFailed string
  | ReloadFailed string | ApplyFailed

definition writeACLs :: "'w menv \<Rightarrow> string \<Rightarrow> Rule list \<Rightarrow> ('w, bool) mop" where
  "writeACLs env p rules = do {
     ok \<leftarrow> ask env (CWriteACLs p rules);
     if ok then do { modify (\<lambda>s. s\<lparr>nd_files := (nd_files s)(p \<mapsto> rules)\<rparr>); ret True } else ret False
   }"

text \<open>The poll of \<^verbatim>\<open>waitForMountReady\<close> succeeds only once the mount point is a FUSE mount.\<close>

definition waitForMountReady :: "'w menv \<Rightarrow> string \<Rightarrow> ('w, bool) mop" where
  "waitForMountReady env h = do {
     ok \<leftarrow> ask env (CWaitReady h);
     served \<leftarrow> gets (\<lambda>s. map_of (nd_daemon s) h \<noteq> None);
     ret (ok \<and> served)
   }"

definition mount_cmd :: "(string \<Rightarrow> string) \<Rightarrow> mountManager \<Rightarrow> FS \<Rightarrow> fuseMountSpec" where
  "mount_cmd getenv m f =
     (let cmd = zero_cmd\<lparr>fm_Mount := hostMount m f, fm_Backend := hostBackend m f, fm_ACLs := aclFile m f\<rparr>
      in if IsRemote (fs_Backend f)
         then cmd\<lparr>fm_Remote := backend_name (fs_Backend f), fm_RemoteConfig := BackendConfigJSON getenv f,
                  fm_Mark := mm_soMark m, fm_Async := fs_Async f\<rparr>
         else cmd)"

definition make_dirs :: "'w menv \<Rightarrow> mountManager \<Rightarrow> FS \<Rightarrow> ('w, mount_error option) mop" where
  "make_dirs env m f = do {
     made \<leftarrow> ask env (CMkdirAll (hostMount m f));
     ready \<leftarrow> (if made then ret True else do {
       cleared \<leftarrow> ask env (CClearStale (hostMount m f));
       if \<not> cleared then ret False else ask env (CMkdirAll (hostMount m f)) });
     if \<not> ready then ret (Some (MountPointFailed (hostMount m f)))
     else do {
       ok \<leftarrow> ask env (CMkdirAll (hostBackend m f));
       ret (if ok then None else Some (BackendDirFailed (hostBackend m f)))
     }
   }"

definition RootfsDir :: string where
  "RootfsDir = ''/mnt/rootfs''"

definition seed :: "'w menv \<Rightarrow> mountManager \<Rightarrow> FS \<Rightarrow> ('w, bool) mop" where
  "seed env m f =
     (if \<not> Internal f \<and> mm_keyPrefix m = [] then ask env (CSeedWorkspace (hostBackend m f) (path_Join RootfsDir (Mount f))) else ret True)"

definition abort_mount :: "'w menv \<Rightarrow> string \<Rightarrow> ('w, unit) mop" where
  "abort_mount env h = do { _ \<leftarrow> fc_Unmount env h; trans_unregister h }"

definition export_mount :: "'w menv \<Rightarrow> mountManager \<Rightarrow> FS \<Rightarrow> ('w, bool) mop" where
  "export_mount env m f = (if Internal f then ret True else ask env (CExportWorkspace (hostMount m f) (Mount f)))"

definition mm_start :: "(string \<Rightarrow> string) \<Rightarrow> 'w menv \<Rightarrow> mountManager \<Rightarrow> FS \<Rightarrow> ('w, mount_error option) mop" where
  "mm_start getenv env m f = do {
     dirs \<leftarrow> make_dirs env m f;
     (case dirs of
        Some e \<Rightarrow> ret (Some e)
      | None \<Rightarrow> do {
          seeded \<leftarrow> seed env m f;
          if \<not> seeded then ret (Some (SeedFailed (Mount f)))
          else do {
            wrote \<leftarrow> writeACLs env (aclFile m f) (aclsFor m f);
            if \<not> wrote then ret (Some (ACLWriteFailed (Mount f)))
            else do {
              trans_register (hostMount m f) (Mount f) (fs_Backend f);
              sent \<leftarrow> fc_Mount env (mount_cmd getenv m f);
              if \<not> sent then do {
                trans_unregister (hostMount m f);
                ret (Some (StartFuseFailed (Mount f)))
              } else do {
                ready \<leftarrow> waitForMountReady env (hostMount m f);
                if \<not> ready then do {
                  abort_mount env (hostMount m f);
                  ret (Some (NotReady (hostMount m f)))
                } else do {
                  exported \<leftarrow> export_mount env m f;
                  if \<not> exported then do {
                    abort_mount env (hostMount m f);
                    ret (Some (ExportFailed (hostMount m f)))
                  } else do {
                    modify (\<lambda>s. s\<lparr>nd_live := AList.update (Mount f)
                      \<lparr>sd_hostMount = hostMount m f, sd_aclPath = aclFile m f\<rparr> (nd_live s)\<rparr>);
                    ret None
                  }
                }
              }
            }
          }
        })
   }"

definition mm_stop :: "'w menv \<Rightarrow> string \<Rightarrow> ('w, unit) mop" where
  "mm_stop env mnt = do {
     sc \<leftarrow> gets (\<lambda>s. map_of (nd_live s) mnt);
     (case sc of
        None \<Rightarrow> ret ()
      | Some sd \<Rightarrow> do {
          modify (\<lambda>s. s\<lparr>nd_live := AList.delete mnt (nd_live s)\<rparr>);
          _ \<leftarrow> ask env (CUnexportWorkspace mnt);
          _ \<leftarrow> fc_Unmount env (sd_hostMount sd);
          trans_unregister (sd_hostMount sd);
          removed \<leftarrow> ask env (CRemoveFile (sd_aclPath sd));
          if removed then modify (\<lambda>s. s\<lparr>nd_files := (nd_files s)(sd_aclPath sd := None)\<rparr>) else ret ()
        })
   }"

definition mm_reACL :: "'w menv \<Rightarrow> mountManager \<Rightarrow> FS \<Rightarrow> ('w, mount_error option) mop" where
  "mm_reACL env m f = do {
     sc \<leftarrow> gets (\<lambda>s. map_of (nd_live s) (Mount f));
     (case sc of
        None \<Rightarrow> ret None
      | Some sd \<Rightarrow> do {
          wrote \<leftarrow> writeACLs env (sd_aclPath sd) (aclsFor m f);
          if \<not> wrote then ret (Some (ACLWriteFailed (Mount f)))
          else do {
            sent \<leftarrow> fc_ReACL env (sd_hostMount sd);
            ret (if sent then None else Some (ReloadFailed (Mount f)))
          }
        })
   }"

fun mm_stops :: "'w menv \<Rightarrow> string list \<Rightarrow> ('w, unit) mop" where
  "mm_stops env [] = ret ()"
| "mm_stops env (mt # mts) = do { mm_stop env mt; mm_stops env mts }"

definition mm_stopAll :: "'w menv \<Rightarrow> ('w, unit) mop" where
  "mm_stopAll env = do { mounts \<leftarrow> gets (\<lambda>s. map fst (nd_live s)); mm_stops env mounts }"

section \<open>Reconciliation\<close>

definition planFsReconcile :: "string list \<Rightarrow> FS list \<Rightarrow> FS list \<times> string list \<times> FS list" where
  "planFsReconcile live desired =
     (filter (\<lambda>f. Mount f \<notin> set live) desired,
      filter (\<lambda>mt. mt \<notin> set (map Mount desired)) live,
      filter (\<lambda>f. Mount f \<in> set live) desired)"

text \<open>A loop that collects the errors of its operations.\<close>

fun collect :: "(FS \<Rightarrow> ('w, mount_error option) mop) \<Rightarrow> FS list \<Rightarrow> ('w, (string \<times> mount_error) list) mop" where
  "collect act [] = ret []"
| "collect act (f # fs) = do {
     e \<leftarrow> act f;
     es \<leftarrow> collect act fs;
     ret (case e of None \<Rightarrow> es | Some err \<Rightarrow> (Mount f, err) # es)
   }"

definition SnapshotPath :: "string \<Rightarrow> string \<Rightarrow> string" where
  "SnapshotPath dir key = path_Join dir (''snapshot-'' @ key @ ''.tar.gz'')"

definition maybeRestore :: "'w menv \<Rightarrow> mountManager \<Rightarrow> SandboxSpec \<Rightarrow> ('w, unit) mop" where
  "maybeRestore env m sp = do {
     root \<leftarrow> gets nd_rootMounted;
     restored \<leftarrow> gets nd_restored;
     if \<not> root then ret ()
     else if restored then ret ()
     else do {
       modify (\<lambda>s. s\<lparr>nd_restored := True\<rparr>);
       (case Option.bind (sp_Snapshot sp) sn_Files of
          None \<Rightarrow> ret ()
        | Some f \<Rightarrow>
            if sf_Key f = [] then ret ()
            else do {
              prewarm \<leftarrow> ask env CHasPrewarmSnapshot;
              let dir = (if sf_Mount f \<noteq> [] then hostMountPath m (sf_Mount f) else mm_snapshotDir m);
              if prewarm then ret ()
              else if dir = [] then ret ()
              else do {
                found \<leftarrow> ask env (CStatFile (SnapshotPath dir (sf_Key f)));
                if \<not> found then ret ()
                else do { _ \<leftarrow> ask env (CRestoreSnapshot (SnapshotPath dir (sf_Key f)) (sf_Include f)); ret () }
              }
            })
     }
   }"

definition Reconcile :: "(string \<Rightarrow> string) \<Rightarrow> 'w menv \<Rightarrow> mountManager \<Rightarrow> SandboxSpec
    \<Rightarrow> ('w, (string \<times> mount_error) list) mop" where
  "Reconcile getenv env m sp = do {
     live \<leftarrow> gets (\<lambda>s. map fst (nd_live s));
     let (add, remove, keep) = planFsReconcile live (sp_FS sp);
     mm_stops env remove;
     es1 \<leftarrow> collect (mm_reACL env m) keep;
     es2 \<leftarrow> collect (mm_start getenv env m) add;
     maybeRestore env m sp;
     running \<leftarrow> gets nd_workloadLive;
     if running then do {
       ok \<leftarrow> ask env CApplyResumeState;
       ret (es1 @ es2 @ (if ok then [] else [([], ApplyFailed)]))
     } else ret (es1 @ es2)
   }"

section \<open>Weakest preconditions of the operations\<close>

text \<open>Everything but the trace and the world, which a call changes in any way.\<close>

definition core :: "'w node \<Rightarrow> (string \<times> fsSidecar) list \<times> (string \<times> fuseMountReg) list \<times>
    (string \<rightharpoonup> Rule list) \<times> (string \<times> ctrlMount) list \<times> bool \<times> bool \<times> bool" where
  "core s = (nd_live s, nd_trans s, nd_files s, nd_daemon s, nd_rootMounted s, nd_restored s, nd_workloadLive s)"

lemma wp_ask [wps]: "(\<And>r s'. core s' = core s \<Longrightarrow> Q r s') \<Longrightarrow> wp (ask env c) Q s"
  by (simp add: wp_def ask_def core_def split: prod.splits)

lemma wp_controlMount:
  assumes "\<And>s'. core s' = core s \<Longrightarrow> Q False s'"
    and "\<And>rules s'. readACLs (nd_files s) (fm_ACLs cmd) = Some rules \<Longrightarrow>
      core s' = core (s\<lparr>nd_daemon := AList.update (fm_Mount cmd) (ctrl_entry cmd rules) (nd_daemon s)\<rparr>) \<Longrightarrow> Q True s'"
  shows "wp (controlMount env cmd) Q s"
  unfolding controlMount_def
  by (intro wps wp_gets wp_update) (auto intro!: assms simp: core_def)

lemma wp_fc_send:
  assumes "\<And>s'. core s' = core s \<Longrightarrow> Q False s'" "\<And>s'. core s' = core s \<Longrightarrow> wp (runControl env cmd) (\<lambda>_. Q True) s'"
  shows "wp (fc_send env cmd) Q s"
  unfolding fc_send_def
  by (rule wp_bind, rule wp_ask, rule wp_if, rule wp_bind, rule wp_mono [OF assms(2)]) (auto intro: wps assms(1))

lemma wp_fc_Mount:
  fixes s :: "'w node"
  assumes "\<And>s'. core s' = core s \<Longrightarrow> Q False s'" "\<And>s'. core s' = core s \<Longrightarrow> Q True s'"
    and "\<And>rules s'. readACLs (nd_files s) (fm_ACLs cmd) = Some rules \<Longrightarrow>
      core s' = core (s\<lparr>nd_daemon := AList.update (fm_Mount cmd) (ctrl_entry cmd rules) (nd_daemon s)\<rparr>) \<Longrightarrow> Q True s'"
  shows "wp (fc_Mount env cmd) Q s"
  unfolding fc_Mount_def
proof (rule wp_fc_send)
  show "core s' = core s \<Longrightarrow> Q False s'" for s' by (rule assms(1))
  fix s' :: "'w node"
  assume c: "core s' = core s"
  have "wp (controlMount env (cmd\<lparr>fm_Op := ''mount''\<rparr>)) (\<lambda>_. Q True) s'"
    by (rule wp_controlMount) (use c assms(2,3) in \<open>auto simp: core_def ctrl_entry_def\<close>)
  then show "wp (runControl env (cmd\<lparr>fm_Op := ''mount''\<rparr>)) (\<lambda>_. Q True) s'"
    by (simp add: runControl_def wp_def split: prod.splits)
qed

lemma wp_fc_Unmount:
  assumes "\<And>s'. core s' = core s \<Longrightarrow> Q False s'"
    and "\<And>s'. core s' = core (s\<lparr>nd_daemon := AList.delete h (nd_daemon s)\<rparr>) \<Longrightarrow> Q True s'"
  shows "wp (fc_Unmount env h) Q s"
  unfolding fc_Unmount_def
  by (rule wp_fc_send, erule assms(1))
     (auto simp: runControl_def control_unmount_def wp_def modify_def core_def intro!: assms(2))

lemma wp_fc_ReACL:
  assumes "\<And>s'. core s' = core s \<Longrightarrow> Q False s'"
    and "\<And>s'. core s' = core (s\<lparr>nd_daemon := AList.update h (cm\<lparr>cm_acls := Compile rules\<rparr>) (nd_daemon s)\<rparr>) \<Longrightarrow> Q True s'"
    and "map_of (nd_daemon s) h = Some cm" "readACLs (nd_files s) (cm_aclPath cm) = Some rules"
  shows "wp (fc_ReACL env h) Q s"
  unfolding fc_ReACL_def
  by (rule wp_fc_send, erule assms(1))
     (use assms(3,4) in \<open>auto simp: runControl_def control_reacl_def wp_def modify_def core_def intro!: assms(2)\<close>)

lemma wp_writeACLs:
  assumes "\<And>s'. core s' = core s \<Longrightarrow> Q False s'"
    and "\<And>s'. core s' = core (s\<lparr>nd_files := (nd_files s)(p \<mapsto> rules)\<rparr>) \<Longrightarrow> Q True s'"
  shows "wp (writeACLs env p rules) Q s"
  unfolding writeACLs_def by (intro wps wp_update) (auto intro!: assms simp: core_def)

section \<open>The effect of each operation\<close>

text \<open>
  What the manager keeps of a mount depends only on the mount path.  The live set is
  consistent when each live mount is served by the process from its own rule file.
\<close>

definition sidecar :: "mountManager \<Rightarrow> string \<Rightarrow> fsSidecar" where
  "sidecar m mt = \<lparr>sd_hostMount = hostMountPath m mt, sd_aclPath = aclFile m (local_fs mt)\<rparr>"

lemma Slug_cong: "Mount f = Mount g \<Longrightarrow> Slug f = Slug g"
  by (simp add: Slug_def)

lemma host_of [simp]: "hostMount m f = sd_hostMount (sidecar m (Mount f))"
  using Slug_cong [of f "local_fs (Mount f)"] by (simp add: sidecar_def hostMountPath_def hostMount_def)

lemma aclFile_of [simp]: "aclFile m f = sd_aclPath (sidecar m (Mount f))"
  using Slug_cong [of f "local_fs (Mount f)"] by (simp add: sidecar_def aclFile_def)

lemma sidecar_eta: "\<lparr>sd_hostMount = sd_hostMount (sidecar m mt), sd_aclPath = sd_aclPath (sidecar m mt)\<rparr> = sidecar m mt"
  by simp

lemma aclFile_not_Nil: "sd_aclPath (sidecar m mt) \<noteq> []"
  unfolding sidecar_def fsSidecar.simps aclFile_def path_Join_def by simp

definition served_as :: "mountManager \<Rightarrow> string \<Rightarrow> 'w node \<Rightarrow> bool" where
  "served_as m mt s \<longleftrightarrow> (\<exists>cm. map_of (nd_daemon s) (sd_hostMount (sidecar m mt)) = Some cm
     \<and> cm_aclPath cm = sd_aclPath (sidecar m mt))"

definition consistent :: "mountManager \<Rightarrow> 'w node \<Rightarrow> bool" where
  "consistent m s \<longleftrightarrow> (\<forall>mt sd. map_of (nd_live s) mt = Some sd \<longrightarrow> sd = sidecar m mt \<and> served_as m mt s)"

text \<open>The mounts whose host paths and rule files are kept apart.\<close>

definition separate :: "mountManager \<Rightarrow> string set \<Rightarrow> bool" where
  "separate m M \<longleftrightarrow> inj_on (\<lambda>mt. sd_hostMount (sidecar m mt)) M \<and> inj_on (\<lambda>mt. sd_aclPath (sidecar m mt)) M"

text \<open>An operation on some mounts leaves what is served, kept and live of the others alone.\<close>

definition only :: "mountManager \<Rightarrow> string set \<Rightarrow> 'w node \<Rightarrow> 'w node \<Rightarrow> bool" where
  "only m X s s' \<longleftrightarrow>
     (\<forall>h. h \<notin> (\<lambda>mt. sd_hostMount (sidecar m mt)) ` X \<longrightarrow> map_of (nd_daemon s') h = map_of (nd_daemon s) h) \<and>
     (\<forall>p. p \<notin> (\<lambda>mt. sd_aclPath (sidecar m mt)) ` X \<longrightarrow> nd_files s' p = nd_files s p) \<and>
     (\<forall>x. x \<notin> X \<longrightarrow> map_of (nd_live s') x = map_of (nd_live s) x)"

lemma only_refl [simp]: "only m X s s"
  by (simp add: only_def)

lemma only_trans: "only m X s t \<Longrightarrow> only m Y t u \<Longrightarrow> only m (X \<union> Y) s u"
  by (simp add: only_def image_Un)

lemma only_served:
  assumes "only m X s s'" "separate m M" "X \<subseteq> M" "x \<in> M" "x \<notin> X"
  shows "map_of (nd_daemon s') (sd_hostMount (sidecar m x)) = map_of (nd_daemon s) (sd_hostMount (sidecar m x))"
    "map_of (nd_live s') x = map_of (nd_live s) x" "served_as m x s' = served_as m x s"
proof -
  have h: "sd_hostMount (sidecar m x) \<notin> (\<lambda>mt. sd_hostMount (sidecar m mt)) ` X"
    using assms(2-5) by (auto simp: separate_def inj_on_def)
  show d: "map_of (nd_daemon s') (sd_hostMount (sidecar m x)) = map_of (nd_daemon s) (sd_hostMount (sidecar m x))"
    using assms(1) h by (simp add: only_def)
  show "map_of (nd_live s') x = map_of (nd_live s) x" using assms(1,5) by (simp add: only_def)
  show "served_as m x s' = served_as m x s" unfolding served_as_def d ..
qed

lemma abort_mount_spec:
  assumes "\<And>s'. nd_live s' = nd_live s \<Longrightarrow> nd_files s' = nd_files s \<Longrightarrow>
    (\<forall>h'. h' \<noteq> h \<longrightarrow> map_of (nd_daemon s') h' = map_of (nd_daemon s) h') \<Longrightarrow> Q () s'"
  shows "wp (abort_mount env h) Q s"
  unfolding abort_mount_def trans_unregister_def
  by (rule wp_bind, rule wp_fc_Unmount) (auto simp: core_def delete_conv' intro!: wp_update assms)

lemma make_dirs_spec: "(\<And>r s'. core s' = core s \<Longrightarrow> Q r s') \<Longrightarrow> wp (make_dirs env m f) Q s"
  unfolding make_dirs_def by (intro wps) (auto intro!: wps simp: core_def)

lemma seed_spec: "(\<And>r s'. core s' = core s \<Longrightarrow> Q r s') \<Longrightarrow> wp (seed env m f) Q s"
  unfolding seed_def by (intro wps) auto

lemma export_mount_spec: "(\<And>r s'. core s' = core s \<Longrightarrow> Q r s') \<Longrightarrow> wp (export_mount env m f) Q s"
  unfolding export_mount_def by (intro wps) auto

lemma waitForMountReady_spec:
  assumes "\<And>r s'. core s' = core s \<Longrightarrow> (r \<Longrightarrow> map_of (nd_daemon s) h \<noteq> None) \<Longrightarrow> Q r s'"
  shows "wp (waitForMountReady env h) Q s"
  unfolding waitForMountReady_def by (intro wps wp_gets) (auto intro!: assms simp: core_def)

text \<open>
  Starting a mount: on success it is live and served from the new rules and the backend
  directory of the entry, on failure the live set is unchanged.
\<close>

definition start_post :: "mountManager \<Rightarrow> FS \<Rightarrow> 'w node \<Rightarrow> mount_error option \<Rightarrow> 'w node \<Rightarrow> bool" where
  "start_post m f s r s' \<longleftrightarrow> only m {Mount f} s s' \<and>
     (case r of
        None \<Rightarrow> map_of (nd_live s') (Mount f) = Some (sidecar m (Mount f)) \<and>
          (map_of (nd_daemon s) (sd_hostMount (sidecar m (Mount f))) = None \<longrightarrow>
             (\<exists>cm. map_of (nd_daemon s') (sd_hostMount (sidecar m (Mount f))) = Some cm \<and>
                cm_aclPath cm = sd_aclPath (sidecar m (Mount f)) \<and>
                cm_acls cm = Compile (aclsFor m f) \<and> cm_backend cm = hostBackend m f))
      | Some e \<Rightarrow> nd_live s' = nd_live s)"

lemma mm_start_spec: "wp (mm_start getenv env m f) (start_post m f s) s"
proof -
  let ?h = "sd_hostMount (sidecar m (Mount f))" and ?p = "sd_aclPath (sidecar m (Mount f))"
  have cmd: "fm_Mount (mount_cmd getenv m f) = ?h" "fm_ACLs (mount_cmd getenv m f) = ?p"
    "fm_Backend (mount_cmd getenv m f) = hostBackend m f"
    by (simp_all add: mount_cmd_def Let_def)
  show ?thesis
    unfolding mm_start_def trans_register_def trans_unregister_def
    by (intro wps make_dirs_spec seed_spec wp_writeACLs wp_fc_Mount waitForMountReady_spec export_mount_spec
          abort_mount_spec wp_update)
       (auto simp: start_post_def only_def core_def cmd ctrl_entry_def update_conv' delete_conv' readACLs_def
          aclFile_not_Nil sidecar_eta)
qed

text \<open>Stopping a mount takes it out of the live set; the process can only lose its entry.\<close>

lemma mm_stop_spec:
  assumes "map_of (nd_live s) mt \<in> {None, Some (sidecar m mt)}"
  shows "wp (mm_stop env mt) (\<lambda>_ s'. only m {mt} s s' \<and> map_of (nd_live s') mt = None \<and>
     (\<forall>h. map_of (nd_daemon s') h \<in> {map_of (nd_daemon s) h, None})) s"
  unfolding mm_stop_def trans_unregister_def
  using assms
  by (intro wps wp_gets wp_update wp_fc_Unmount)
     (auto simp: only_def core_def delete_conv' intro!: wps wp_gets wp_update)

text \<open>Reloading the rules of a live mount keeps the rest of what is served.\<close>

definition reloaded :: "mountManager \<Rightarrow> FS \<Rightarrow> ctrlMount \<Rightarrow> mount_error option \<Rightarrow> 'w node \<Rightarrow> bool" where
  "reloaded m f cm r s \<longleftrightarrow> map_of (nd_live s) (Mount f) = Some (sidecar m (Mount f)) \<and>
     cm_aclPath cm = sd_aclPath (sidecar m (Mount f)) \<and>
     (\<exists>a. map_of (nd_daemon s) (sd_hostMount (sidecar m (Mount f))) = Some (cm\<lparr>cm_acls := a\<rparr>) \<and>
        (r = None \<longrightarrow> a = Compile (aclsFor m f)))"

lemma ctrlMount_same: "\<exists>a. cm = cm\<lparr>cm_acls := a\<rparr>"
  by (rule exI [of _ "cm_acls cm"]) simp

lemma mm_reACL_spec:
  assumes "map_of (nd_live s) (Mount f) = Some (sidecar m (Mount f))"
    "map_of (nd_daemon s) (sd_hostMount (sidecar m (Mount f))) = Some cm" "cm_aclPath cm = sd_aclPath (sidecar m (Mount f))"
  shows "wp (mm_reACL env m f) (\<lambda>r s'. only m {Mount f} s s' \<and> reloaded m f cm r s') s"
proof -
  let ?sd = "sidecar m (Mount f)"
  let ?Q = "\<lambda>r s'. only m {Mount f} s s' \<and> reloaded m f cm r s'"
  have send: "wp (fc_ReACL env (sd_hostMount ?sd))
      (\<lambda>sent. wp (ret (if sent then None else Some (ReloadFailed (Mount f)))) ?Q) t"
    if t: "core t = core (s\<lparr>nd_files := (nd_files s)(sd_aclPath ?sd \<mapsto> aclsFor m f)\<rparr>)" for t
    by (rule wp_fc_ReACL [where cm = cm and rules = "aclsFor m f"])
       (use t assms aclFile_not_Nil [of m "Mount f"] ctrlMount_same [of cm] in
         \<open>auto simp: only_def reloaded_def core_def readACLs_def update_conv' intro!: wp_ret\<close>)
  have "wp (do { wrote \<leftarrow> writeACLs env (sd_aclPath ?sd) (aclsFor m f);
            if \<not> wrote then ret (Some (ACLWriteFailed (Mount f)))
            else do { sent \<leftarrow> fc_ReACL env (sd_hostMount ?sd);
                      ret (if sent then None else Some (ReloadFailed (Mount f))) } }) ?Q s"
  proof (intro wp_bind wp_writeACLs wp_if wp_ret)
    show "only m {Mount f} s s' \<and> reloaded m f cm (Some (ACLWriteFailed (Mount f))) s'"
      if "core s' = core s" for s'
      using that assms ctrlMount_same [of cm] by (auto simp: only_def reloaded_def core_def)
  qed (simp_all add: send)
  then show ?thesis
    unfolding mm_reACL_def by (intro wp_bind wp_gets) (simp add: assms(1))
qed

text \<open>
  A loop over different mounts: what each operation establishes of its own mount survives
  the later operations, and every mount without a reported error got a success.
\<close>

lemma collect_spec:
  assumes "distinct (map Mount fs)" "separate m M" "Mount ` set fs \<subseteq> M" "\<forall>f \<in> set fs. P f s"
    and step: "\<And>f t. f \<in> set fs \<Longrightarrow> P f t \<Longrightarrow> wp (act f) (\<lambda>r t'. only m {Mount f} t t' \<and> G f r t') t"
    and P_stable: "\<And>g X t t'. g \<in> set fs \<Longrightarrow> only m X t t' \<Longrightarrow> X \<subseteq> M \<Longrightarrow> Mount g \<notin> X \<Longrightarrow> P g t \<Longrightarrow> P g t'"
    and G_stable: "\<And>g X r t t'. g \<in> set fs \<Longrightarrow> only m X t t' \<Longrightarrow> X \<subseteq> M \<Longrightarrow> Mount g \<notin> X \<Longrightarrow> G g r t \<Longrightarrow> G g r t'"
  shows "wp (collect act fs) (\<lambda>es s'. only m (Mount ` set fs) s s' \<and> fst ` set es \<subseteq> Mount ` set fs \<and>
     (\<forall>f \<in> set fs. \<exists>r. G f r s' \<and> (r = None \<longleftrightarrow> Mount f \<notin> fst ` set es))) s"
  using assms(1,3,4) step P_stable G_stable
proof (induction fs arbitrary: s)
  case (Cons f fs)
  let ?post = "\<lambda>t es s'. only m (Mount ` set fs) t s' \<and> fst ` set es \<subseteq> Mount ` set fs \<and>
     (\<forall>f \<in> set fs. \<exists>r. G f r s' \<and> (r = None \<longleftrightarrow> Mount f \<notin> fst ` set es))"
  have rest: "wp (collect act fs) (?post t) t" if "only m {Mount f} s t" for t
  proof (rule Cons.IH)
    show "\<forall>g \<in> set fs. P g t"
    proof
      fix g assume g: "g \<in> set fs"
      have "Mount f \<notin> Mount ` set fs" using Cons.prems(1) by simp
      then have "Mount g \<noteq> Mount f" using imageI [OF g, of Mount] by metis
      then show "P g t" using Cons.prems(2,3) Cons.prems(5) [OF _ that, of g] g by simp
    qed
  qed (use Cons.prems in auto)
  have first: "wp (act f) (\<lambda>r t. only m {Mount f} s t \<and> G f r t) s" using Cons.prems(3,4) by simp
  have next_op: "wp (collect act fs) (\<lambda>es. wp (ret (case r of None \<Rightarrow> es | Some err \<Rightarrow> (Mount f, err) # es))
        (\<lambda>es s'. only m (Mount ` set (f # fs)) s s' \<and> fst ` set es \<subseteq> Mount ` set (f # fs) \<and>
          (\<forall>g \<in> set (f # fs). \<exists>r'. G g r' s' \<and> (r' = None \<longleftrightarrow> Mount g \<notin> fst ` set es)))) t"
    if t: "only m {Mount f} s t" "G f r t" for r t
  proof -
    have combine: "only m (Mount ` set (f # fs)) s s' \<and>
          fst ` set (case r of None \<Rightarrow> es | Some err \<Rightarrow> (Mount f, err) # es) \<subseteq> Mount ` set (f # fs) \<and>
          (\<forall>g \<in> set (f # fs). \<exists>r'. G g r' s' \<and>
             (r' = None \<longleftrightarrow> Mount g \<notin> fst ` set (case r of None \<Rightarrow> es | Some err \<Rightarrow> (Mount f, err) # es)))"
      if p: "?post t es s'" for es s'
    proof (intro conjI ballI)
      show "only m (Mount ` set (f # fs)) s s'" using only_trans [OF t(1)] p by auto
      show "fst ` set (case r of None \<Rightarrow> es | Some err \<Rightarrow> (Mount f, err) # es) \<subseteq> Mount ` set (f # fs)"
        using p by (auto split: option.splits)
      have f: "G f r s'" using Cons.prems(1,2) Cons.prems(6) [OF _ _ _ _ t(2), of "Mount ` set fs" s'] p by auto
      fix g assume "g \<in> set (f # fs)"
      then show "\<exists>r'. G g r' s' \<and> (r' = None \<longleftrightarrow>
          Mount g \<notin> fst ` set (case r of None \<Rightarrow> es | Some err \<Rightarrow> (Mount f, err) # es))"
      proof (cases "g = f")
        case True
        then show ?thesis using f p Cons.prems(1) by (intro exI [of _ r]) (auto split: option.splits)
      next
        case False
        then have g: "g \<in> set fs" using \<open>g \<in> set (f # fs)\<close> by simp
        have "Mount f \<notin> Mount ` set fs" using Cons.prems(1) by simp
        then have "Mount g \<noteq> Mount f" using imageI [OF g, of Mount] by metis
        then show ?thesis using p g by (auto split: option.splits)
      qed
    qed
    show ?thesis
      by (rule wp_mono [OF rest [OF t(1)]], rule wp_ret, rule combine)
  qed
  show ?case
    unfolding collect.simps
    by (rule wp_bind, rule wp_mono [OF first], elim conjE, rule wp_bind, rule next_op)
qed (simp add: wp_def)

lemma mm_stops_spec:
  assumes "\<forall>x. map_of (nd_live s) x \<in> {None, Some (sidecar m x)}"
  shows "wp (mm_stops env mts) (\<lambda>_ s'. only m (set mts) s s' \<and> (\<forall>x \<in> set mts. map_of (nd_live s') x = None) \<and>
     (\<forall>h. map_of (nd_daemon s') h \<in> {map_of (nd_daemon s) h, None})) s"
  using assms
proof (induction mts arbitrary: s)
  case (Cons mt mts)
  show ?case
    unfolding mm_stops.simps
  proof (intro wp_bind wp_mono [OF mm_stop_spec])
    show "map_of (nd_live s) mt \<in> {None, Some (sidecar m mt)}" using Cons.prems by blast
    fix r t
    assume t: "only m {mt} s t \<and> map_of (nd_live t) mt = None \<and>
      (\<forall>h. map_of (nd_daemon t) h \<in> {map_of (nd_daemon s) h, None})"
    have live: "\<forall>x. map_of (nd_live t) x \<in> {None, Some (sidecar m x)}"
      using Cons.prems t by (metis insertI1 only_def singletonD)
    show "wp (mm_stops env mts) (\<lambda>_ s'. only m (set (mt # mts)) s s' \<and>
        (\<forall>x \<in> set (mt # mts). map_of (nd_live s') x = None) \<and>
        (\<forall>h. map_of (nd_daemon s') h \<in> {map_of (nd_daemon s) h, None})) t"
    proof (rule wp_mono [OF Cons.IH [OF live]], intro conjI)
      fix r s'
      assume p: "only m (set mts) t s' \<and> (\<forall>x \<in> set mts. map_of (nd_live s') x = None) \<and>
        (\<forall>h. map_of (nd_daemon s') h \<in> {map_of (nd_daemon t) h, None})"
      show "only m (set (mt # mts)) s s'" using only_trans [of m "{mt}" s t "set mts" s'] t p by simp
      show "\<forall>x \<in> set (mt # mts). map_of (nd_live s') x = None"
        using t p by (auto simp: only_def)
      show "\<forall>h. map_of (nd_daemon s') h \<in> {map_of (nd_daemon s) h, None}" using t p by (metis insert_iff singletonD)
    qed
  qed
qed (simp add: wp_def)

lemma maybeRestore_spec:
  assumes "\<And>s'. nd_live s' = nd_live s \<Longrightarrow> nd_daemon s' = nd_daemon s \<Longrightarrow> nd_files s' = nd_files s \<Longrightarrow> Q () s'"
  shows "wp (maybeRestore env m sp) Q s"
  unfolding maybeRestore_def
  by (intro wps wp_gets wp_update) (auto simp: core_def intro!: assms)

section \<open>What a reconciliation leaves\<close>

text \<open>
  The entry of a desired mount after the reconciliation: a mount that was live is still
  live on the same backend, a new one is live unless an error was reported for it and then
  served from the backend of the entry; without a reported error the rules are those of the
  entry.
\<close>

definition settled :: "mountManager \<Rightarrow> 'w node \<Rightarrow> 'w node \<Rightarrow> (string \<times> mount_error) list \<Rightarrow> FS \<Rightarrow> bool" where
  "settled m s s' es f \<longleftrightarrow>
     (let h = sd_hostMount (sidecar m (Mount f)); bad = Mount f \<in> fst ` set es in
      if map_of (nd_live s) (Mount f) \<noteq> None then
        map_of (nd_live s') (Mount f) = Some (sidecar m (Mount f)) \<and>
        (\<exists>cm a. map_of (nd_daemon s) h = Some cm \<and> map_of (nd_daemon s') h = Some (cm\<lparr>cm_acls := a\<rparr>) \<and>
           (\<not> bad \<longrightarrow> a = Compile (aclsFor m f)))
      else if bad then map_of (nd_live s') (Mount f) = None
      else map_of (nd_live s') (Mount f) = Some (sidecar m (Mount f)) \<and>
        (\<exists>cm. map_of (nd_daemon s') h = Some cm \<and> cm_backend cm = hostBackend m f \<and>
           cm_acls cm = Compile (aclsFor m f)))"

lemma reloaded_stable:
  assumes "only m X t t'" "separate m M" "X \<subseteq> M" "Mount g \<in> M" "Mount g \<notin> X" "reloaded m g b r t"
  shows "reloaded m g b r t'"
  using assms(6) unfolding reloaded_def only_served(1,2) [OF assms(1-5)] .

definition old_entry :: "mountManager \<Rightarrow> 'w node \<Rightarrow> FS \<Rightarrow> ctrlMount" where
  "old_entry m s f = the (map_of (nd_daemon s) (sd_hostMount (sidecar m (Mount f))))"

lemma keep_spec:
  assumes "distinct (map Mount fs)" "separate m M" "Mount ` set fs \<subseteq> M"
    "\<forall>f \<in> set fs. map_of (nd_live s) (Mount f) = Some (sidecar m (Mount f)) \<and> served_as m (Mount f) s"
  shows "wp (collect (mm_reACL env m) fs) (\<lambda>es s'. only m (Mount ` set fs) s s' \<and> fst ` set es \<subseteq> Mount ` set fs \<and>
     (\<forall>f \<in> set fs. \<exists>r. reloaded m f (old_entry m s f) r s' \<and> (r = None \<longleftrightarrow> Mount f \<notin> fst ` set es))) s"
proof (rule collect_spec [OF assms(1-3), where P = "\<lambda>f. reloaded m f (old_entry m s f) (Some ApplyFailed)"])
  show "\<forall>f \<in> set fs. reloaded m f (old_entry m s f) (Some ApplyFailed) s"
  proof
    fix f assume "f \<in> set fs"
    then obtain cm where cm: "map_of (nd_live s) (Mount f) = Some (sidecar m (Mount f))"
      "map_of (nd_daemon s) (sd_hostMount (sidecar m (Mount f))) = Some cm" "cm_aclPath cm = sd_aclPath (sidecar m (Mount f))"
      using assms(4) unfolding served_as_def by blast
    then show "reloaded m f (old_entry m s f) (Some ApplyFailed) s"
      using ctrlMount_same [of cm] by (simp add: reloaded_def old_entry_def)
  qed
  show "wp (mm_reACL env m f) (\<lambda>r t'. only m {Mount f} t t' \<and> reloaded m f (old_entry m s f) r t') t"
    if p: "reloaded m f (old_entry m s f) (Some ApplyFailed) t" for f t
  proof -
    obtain a where a: "map_of (nd_live t) (Mount f) = Some (sidecar m (Mount f))"
      "map_of (nd_daemon t) (sd_hostMount (sidecar m (Mount f))) = Some (old_entry m s f\<lparr>cm_acls := a\<rparr>)"
      "cm_aclPath (old_entry m s f\<lparr>cm_acls := a\<rparr>) = sd_aclPath (sidecar m (Mount f))"
      using p unfolding reloaded_def by auto
    show ?thesis using mm_reACL_spec [OF a, of env] by (simp add: reloaded_def)
  qed
qed (use assms(3) in \<open>blast intro: reloaded_stable [OF _ assms(2)]\<close>)+

text \<open>A new mount: nothing served at its host path before, and the start as specified after.\<close>

definition started :: "mountManager \<Rightarrow> FS \<Rightarrow> mount_error option \<Rightarrow> 'w node \<Rightarrow> bool" where
  "started m f r s \<longleftrightarrow>
     (case r of
        None \<Rightarrow> map_of (nd_live s) (Mount f) = Some (sidecar m (Mount f)) \<and>
          (\<exists>cm. map_of (nd_daemon s) (sd_hostMount (sidecar m (Mount f))) = Some cm \<and>
             cm_aclPath cm = sd_aclPath (sidecar m (Mount f)) \<and>
             cm_acls cm = Compile (aclsFor m f) \<and> cm_backend cm = hostBackend m f)
      | Some e \<Rightarrow> map_of (nd_live s) (Mount f) = None)"

definition unused :: "mountManager \<Rightarrow> FS \<Rightarrow> 'w node \<Rightarrow> bool" where
  "unused m f s \<longleftrightarrow> map_of (nd_live s) (Mount f) = None \<and> map_of (nd_daemon s) (sd_hostMount (sidecar m (Mount f))) = None"

lemma started_stable:
  assumes "only m X t t'" "separate m M" "X \<subseteq> M" "Mount g \<in> M" "Mount g \<notin> X"
  shows "started m g r t \<Longrightarrow> started m g r t'" "unused m g t \<Longrightarrow> unused m g t'"
  unfolding started_def unused_def only_served(1,2) [OF assms] .

lemma add_spec:
  assumes "distinct (map Mount fs)" "separate m M" "Mount ` set fs \<subseteq> M" "\<forall>f \<in> set fs. unused m f s"
  shows "wp (collect (mm_start getenv env m) fs) (\<lambda>es s'. only m (Mount ` set fs) s s' \<and> fst ` set es \<subseteq> Mount ` set fs \<and>
     (\<forall>f \<in> set fs. \<exists>r. started m f r s' \<and> (r = None \<longleftrightarrow> Mount f \<notin> fst ` set es))) s"
proof (rule collect_spec [OF assms(1-3), where P = "unused m"])
  show "\<forall>f \<in> set fs. unused m f s" by (rule assms(4))
  show "wp (mm_start getenv env m f) (\<lambda>r t'. only m {Mount f} t t' \<and> started m f r t') t" if "unused m f t" for f t
    by (rule wp_mono [OF mm_start_spec])
       (use that in \<open>auto simp: start_post_def started_def unused_def split: option.splits\<close>)
qed (use assms(3) in \<open>blast intro: started_stable [OF _ assms(2)]\<close>)+

text \<open>
  The state between the steps of a reconciliation that starts in \<open>s\<close>: after the removals,
  after the reloads, after the additions.
\<close>

definition removed_ok :: "mountManager \<Rightarrow> FS list \<Rightarrow> 'w node \<Rightarrow> 'w node \<Rightarrow> bool" where
  "removed_ok m fs s t \<longleftrightarrow> (\<forall>f \<in> set fs. map_of (nd_live t) (Mount f) = map_of (nd_live s) (Mount f) \<and>
       map_of (nd_daemon t) (sd_hostMount (sidecar m (Mount f))) = map_of (nd_daemon s) (sd_hostMount (sidecar m (Mount f)))) \<and>
     (\<forall>x. x \<notin> Mount ` set fs \<longrightarrow> map_of (nd_live t) x = None)"

lemma remove_step:
  assumes "consistent m s" "separate m (Mount ` set fs \<union> set (map fst (nd_live s)))"
  shows "wp (mm_stops env (filter (\<lambda>mt. mt \<notin> set (map Mount fs)) (map fst (nd_live s))))
     (\<lambda>_. removed_ok m fs s) s"
proof (rule wp_mono [OF mm_stops_spec])
  let ?rm = "filter (\<lambda>mt. mt \<notin> set (map Mount fs)) (map fst (nd_live s))"
  show "\<forall>x. map_of (nd_live s) x \<in> {None, Some (sidecar m x)}"
    using assms(1) unfolding consistent_def by (metis insertCI not_None_eq)
  fix u t
  assume t: "only m (set ?rm) s t \<and> (\<forall>x \<in> set ?rm. map_of (nd_live t) x = None) \<and>
    (\<forall>h. map_of (nd_daemon t) h \<in> {map_of (nd_daemon s) h, None})"
  have "map_of (nd_live t) x = None" if "x \<notin> Mount ` set fs" for x
  proof (cases "x \<in> set ?rm")
    case False
    then have "x \<notin> fst ` set (nd_live s)" using that by auto
    then show ?thesis using t False by (simp add: only_def map_of_eq_None_iff)
  qed (use t in blast)
  moreover have "map_of (nd_live t) (Mount f) = map_of (nd_live s) (Mount f) \<and>
      map_of (nd_daemon t) (sd_hostMount (sidecar m (Mount f))) = map_of (nd_daemon s) (sd_hostMount (sidecar m (Mount f)))"
    if "f \<in> set fs" for f
    using only_served(1,2) [of m "set ?rm" s t, OF _ assms(2), of "Mount f"] t that by auto
  ultimately show "removed_ok m fs s t" by (simp add: removed_ok_def)
qed

text \<open>The keys reported, the entries of the kept mounts and those of the new ones.\<close>

definition outcome :: "mountManager \<Rightarrow> FS list \<Rightarrow> 'w node \<Rightarrow> (string \<times> mount_error) list \<Rightarrow> 'w node \<Rightarrow> bool" where
  "outcome m fs s es t \<longleftrightarrow> fst ` set es \<subseteq> Mount ` set fs \<and> (\<forall>x. x \<notin> Mount ` set fs \<longrightarrow> map_of (nd_live t) x = None) \<and>
     (\<forall>f \<in> set fs. \<exists>r. (r = None \<longleftrightarrow> Mount f \<notin> fst ` set es) \<and>
        (if map_of (nd_live s) (Mount f) \<noteq> None then reloaded m f (old_entry m s f) r t else started m f r t))"

lemma reload_add_step:
  assumes "consistent m s" "separate m (Mount ` set fs \<union> set (map fst (nd_live s)))" "distinct (map Mount fs)"
    "\<forall>f \<in> set fs. map_of (nd_live s) (Mount f) = None \<longrightarrow> map_of (nd_daemon s) (hostMount m f) = None"
    "removed_ok m fs s t"
  shows "wp (collect (mm_reACL env m) (filter (\<lambda>f. Mount f \<in> set (map fst (nd_live s))) fs))
     (\<lambda>es1. wp (collect (mm_start getenv env m) (filter (\<lambda>f. Mount f \<notin> set (map fst (nd_live s))) fs))
        (\<lambda>es2. outcome m fs s (es1 @ es2))) t"
proof -
  let ?keep = "filter (\<lambda>f. Mount f \<in> set (map fst (nd_live s))) fs"
  let ?add = "filter (\<lambda>f. Mount f \<notin> set (map fst (nd_live s))) fs"
  let ?M = "Mount ` set fs \<union> set (map fst (nd_live s))"
  have live: "Mount f \<in> set (map fst (nd_live s)) \<longleftrightarrow> map_of (nd_live s) (Mount f) \<noteq> None" for f
    by (simp add: map_of_eq_None_iff)
  have d: "distinct (map Mount ?keep)" "distinct (map Mount ?add)" using assms(3) by (simp_all add: distinct_map_filter)
  have M: "Mount ` set ?keep \<subseteq> ?M" "Mount ` set ?add \<subseteq> ?M" by auto
  have disj: "g \<in> set ?keep \<Longrightarrow> Mount g \<notin> Mount ` set ?add" "g \<in> set ?add \<Longrightarrow> Mount g \<notin> Mount ` set ?keep" for g
    by (metis (mono_tags, lifting) imageE mem_Collect_eq set_filter)+
  have k: "\<forall>f \<in> set ?keep. map_of (nd_live t) (Mount f) = Some (sidecar m (Mount f)) \<and> served_as m (Mount f) t"
  proof
    fix f assume f: "f \<in> set ?keep"
    then have "map_of (nd_live s) (Mount f) \<noteq> None" using live [of f] by simp
    then have c: "map_of (nd_live s) (Mount f) = Some (sidecar m (Mount f))" "served_as m (Mount f) s"
      using assms(1) unfolding consistent_def by auto
    have e: "map_of (nd_live t) (Mount f) = map_of (nd_live s) (Mount f)"
      "map_of (nd_daemon t) (sd_hostMount (sidecar m (Mount f))) = map_of (nd_daemon s) (sd_hostMount (sidecar m (Mount f)))"
      using assms(5) f by (auto simp: removed_ok_def)
    show "map_of (nd_live t) (Mount f) = Some (sidecar m (Mount f)) \<and> served_as m (Mount f) t"
      using c unfolding served_as_def e by simp
  qed
  have old: "old_entry m t f = old_entry m s f" if "f \<in> set fs" for f
    using assms(5) that by (simp add: removed_ok_def old_entry_def)
  show ?thesis
  proof (rule wp_mono [OF keep_spec [OF d(1) assms(2) M(1) k]], elim conjE)
    fix es1 :: "(string \<times> mount_error) list" and u :: "'a node"
    assume u: "only m (Mount ` set ?keep) t u" "fst ` set es1 \<subseteq> Mount ` set ?keep"
      "\<forall>f \<in> set ?keep. \<exists>r. reloaded m f (old_entry m t f) r u \<and> (r = None) = (Mount f \<notin> fst ` set es1)"
    have a: "\<forall>f \<in> set ?add. unused m f u"
    proof
      fix f assume f: "f \<in> set ?add"
      have "unused m f t"
        using assms(4,5) f live [of f] by (simp add: unused_def removed_ok_def)
      then show "unused m f u" using started_stable(2) [OF u(1) assms(2) M(1) _ disj(2) [OF f]] M(2) f by blast
    qed
    show "wp (collect (mm_start getenv env m) ?add) (\<lambda>es2. outcome m fs s (es1 @ es2)) u"
    proof (rule wp_mono [OF add_spec [OF d(2) assms(2) M(2) a]], elim conjE)
      fix es2 :: "(string \<times> mount_error) list" and v :: "'a node"
      assume v: "only m (Mount ` set ?add) u v" "fst ` set es2 \<subseteq> Mount ` set ?add"
        "\<forall>f \<in> set ?add. \<exists>r. started m f r v \<and> (r = None) = (Mount f \<notin> fst ` set es2)"
      have "map_of (nd_live v) x = None" if "x \<notin> Mount ` set fs" for x
        using that assms(5) u(1) v(1) by (auto simp: removed_ok_def only_def image_iff)
      moreover have "\<exists>r. (r = None \<longleftrightarrow> Mount f \<notin> fst ` set (es1 @ es2)) \<and>
          (if map_of (nd_live s) (Mount f) \<noteq> None then reloaded m f (old_entry m s f) r v else started m f r v)"
        if f: "f \<in> set fs" for f
      proof (cases "f \<in> set ?keep")
        case True
        then obtain r where r: "reloaded m f (old_entry m s f) r u" "(r = None) = (Mount f \<notin> fst ` set es1)"
          using bspec [OF u(3) True] unfolding old [OF f] by blast
        have "reloaded m f (old_entry m s f) r v"
          using reloaded_stable [OF v(1) assms(2) M(2) _ disj(1) [OF True] r(1)] M(1) True by blast
        moreover have "Mount f \<notin> fst ` set es2" using v(2) disj(1) [OF True] by blast
        ultimately show ?thesis using r(2) True live [of f] by (auto simp: image_Un)
      next
        case False
        then have fa: "f \<in> set ?add" using f by simp
        then obtain r where r: "started m f r v" "(r = None) = (Mount f \<notin> fst ` set es2)" using v(3) by blast
        have "Mount f \<notin> fst ` set es1" using u(2) disj(2) [OF fa] by blast
        then show ?thesis using r fa live [of f] by (auto simp: image_Un)
      qed
      ultimately show "outcome m fs s (es1 @ es2) v"
        using u(2) v(2) unfolding outcome_def by (auto simp: image_Un)
    qed
  qed
qed

lemma Reconcile_spec:
  assumes "consistent m s" "separate m (Mount ` set (sp_FS sp) \<union> set (map fst (nd_live s)))" "distinct (map Mount (sp_FS sp))"
    "\<forall>f \<in> set (sp_FS sp). map_of (nd_live s) (Mount f) = None \<longrightarrow> map_of (nd_daemon s) (hostMount m f) = None"
  shows "wp (Reconcile getenv env m sp)
     (\<lambda>es s'. \<exists>es'. outcome m (sp_FS sp) s es' s' \<and> set es \<subseteq> set es' \<union> {([], ApplyFailed)} \<and> set es' \<subseteq> set es) s"
proof -
  have out: "outcome m (sp_FS sp) s es t'" if "outcome m (sp_FS sp) s es t" "nd_live t' = nd_live t" "nd_daemon t' = nd_daemon t"
    for es and t t' :: "'a node"
    using that(1) unfolding outcome_def reloaded_def started_def that(2,3) .
  show ?thesis
    unfolding Reconcile_def planFsReconcile_def
    apply (rule wp_bind, rule wp_gets, rule wp_let, simp only: prod.case)
    apply (rule wp_bind, rule wp_mono [OF remove_step [OF assms(1,2)]])
    apply (rule wp_bind, rule wp_mono [OF reload_add_step [OF assms]], assumption)
    apply (rule wp_bind, erule wp_mono)
    apply (rule wp_bind, rule maybeRestore_spec, rule wp_bind, rule wp_gets)
    apply (intro wp_if wp_bind wp_ask wp_ret)
     apply (rule exI, rule conjI, erule out; force simp: core_def)
    apply (rule exI, rule conjI, erule out; force simp: core_def)
    done
qed

lemma outcome_settled:
  assumes "consistent m s" "outcome m fs s es t" "f \<in> set fs"
  shows "settled m s t es f"
proof -
  obtain r where r: "r = None \<longleftrightarrow> Mount f \<notin> fst ` set es"
    "if map_of (nd_live s) (Mount f) \<noteq> None then reloaded m f (old_entry m s f) r t else started m f r t"
    using assms(2,3) unfolding outcome_def by blast
  show ?thesis
  proof (cases "map_of (nd_live s) (Mount f)")
    case None
    then show ?thesis using r by (cases r) (auto simp: settled_def started_def Let_def)
  next
    case (Some sd)
    then have "served_as m (Mount f) s" using assms(1) unfolding consistent_def by blast
    then obtain cm where "map_of (nd_daemon s) (sd_hostMount (sidecar m (Mount f))) = Some cm"
      unfolding served_as_def by blast
    then show ?thesis using r Some by (auto simp: settled_def reloaded_def Let_def old_entry_def)
  qed
qed

lemma outcome_consistent: "outcome m fs s es t \<Longrightarrow> consistent m t"
  unfolding consistent_def
proof (intro allI impI)
  fix mt sd assume o: "outcome m fs s es t" "map_of (nd_live t) mt = Some sd"
  then have "mt \<in> Mount ` set fs" unfolding outcome_def by (metis option.distinct(1))
  then obtain f where f: "f \<in> set fs" "mt = Mount f" by blast
  then obtain r where "if map_of (nd_live s) (Mount f) \<noteq> None then reloaded m f (old_entry m s f) r t else started m f r t"
    using o(1) unfolding outcome_def by blast
  then show "sd = sidecar m mt \<and> served_as m mt t"
    using o(2) f by (auto simp: reloaded_def started_def served_as_def split: if_splits option.splits)
qed

section \<open>Rewriting the rules of a packed sandbox\<close>

text \<open>
  A rule below the mount matches a guest path exactly when its rewritten form matches the
  corresponding host path, and rewriting changes all lengths by the same amount, so the same
  rule wins.
\<close>

lemma star_suffix_append:
  assumes "CHR ''*'' \<notin> set a" "t = [] \<or> hd t = slash"
  shows "HasSuffix (a @ t) star_suffix = HasSuffix t star_suffix"
proof
  assume "HasSuffix (a @ t) star_suffix"
  then obtain u where u: "a @ t = u @ ''/**''" by (auto simp: HasSuffix_def suffix_def star_suffix_def)
  then have e: "rev t @ rev a = CHR ''*'' # CHR ''*'' # slash # rev u" by (metis rev_append append.simps rev.simps rev_rev_ident)
  have "hd t = last (rev t)" if "t \<noteq> []" using that by (simp add: last_rev)
  then obtain w where "rev t = CHR ''*'' # CHR ''*'' # slash # w"
    using e assms by (cases "rev t"; cases "tl (rev t)"; cases "tl (tl (rev t))") (auto simp: rev_swap Cons_eq_append_conv split: if_splits)
  then have "t = rev w @ ''/**''" by (metis append_Cons append_Nil append_assoc rev.simps(2) rev_rev_ident)
  then show "HasSuffix t star_suffix" by (simp add: HasSuffix_def suffix_def star_suffix_def)
qed (auto simp: HasSuffix_def suffix_def)

lemma matches_shift:
  assumes "CHR ''*'' \<notin> set a" "CHR ''*'' \<notin> set b" "t = [] \<or> hd t = slash"
  shows "matches (b @ u) (b @ t) = matches (a @ u) (a @ t)"
proof (cases "HasSuffix t star_suffix")
  case True
  then obtain t' where t: "t = t' @ star_suffix" by (rule HasSuffixE)
  have "HasSuffix (c @ t) star_suffix" "TrimSuffix (c @ t) star_suffix = c @ t'" for c
    unfolding t append_assoc [symmetric] by (rule HasSuffix_append, rule TrimSuffix_append)
  then show ?thesis by (simp add: matches_def HasPrefix_def)
next
  case False
  then show ?thesis
    using star_suffix_append [OF assms(1,3)] star_suffix_append [OF assms(2,3)] by (simp add: matches_def)
qed

lemma effectiveLen_shift:
  assumes "CHR ''*'' \<notin> set a" "t = [] \<or> hd t = slash"
  shows "effectiveLen (a @ t) = length a + effectiveLen t"
proof (cases "HasSuffix t star_suffix")
  case True
  then obtain t' where t: "t = t' @ star_suffix" by (rule HasSuffixE)
  have "TrimSuffix (c @ t) star_suffix = c @ t'" for c
    unfolding t append_assoc [symmetric] by (rule TrimSuffix_append)
  from this [of a] this [of "[]"] show ?thesis by (simp add: effectiveLen_def)
next
  case False
  then show ?thesis using star_suffix_append [OF assms] by (simp add: effectiveLen_def TrimSuffix_def)
qed

lemma best_rule_shift:
  assumes "CHR ''*'' \<notin> set a" "CHR ''*'' \<notin> set b"
    and "\<forall>r \<in> set rs. \<exists>t. r_path r = a @ t \<and> (t = [] \<or> hd t = slash)"
  shows "best_rule (b @ u) (map (\<lambda>r. r\<lparr>r_path := b @ TrimPrefix (r_path r) a\<rparr>) rs) =
    map_option (\<lambda>r. r\<lparr>r_path := b @ TrimPrefix (r_path r) a\<rparr>) (best_rule (a @ u) rs)"
  using assms(3)
proof (induction rs)
  case (Cons r rs)
  then obtain t where t: "r_path r = a @ t" "t = [] \<or> hd t = slash" by auto
  have IH: "best_rule (b @ u) (map (\<lambda>r. r\<lparr>r_path := b @ TrimPrefix (r_path r) a\<rparr>) rs) =
    map_option (\<lambda>r. r\<lparr>r_path := b @ TrimPrefix (r_path r) a\<rparr>) (best_rule (a @ u) rs)"
    using Cons by simp
  have trim: "TrimPrefix (a @ x) a = x" for x by (simp add: TrimPrefix_def HasPrefix_def)
  have m: "matches (b @ u) (b @ t) = matches (a @ u) (a @ t)"
    using matches_shift [OF assms(1,2) t(2)] .
  show ?case
  proof (cases "best_rule (a @ u) rs")
    case None
    then show ?thesis using IH m t(1) by (simp add: trim)
  next
    case (Some r')
    then have "r' \<in> set rs" using best_rule_SomeD(1) by blast
    then obtain t' where t': "r_path r' = a @ t'" "t' = [] \<or> hd t' = slash" using Cons.prems by auto
    have "rlen (r\<lparr>r_path := b @ t\<rparr>) < rlen (r'\<lparr>r_path := b @ t'\<rparr>) \<longleftrightarrow> rlen r < rlen r'"
      using effectiveLen_shift [OF assms(1) t(2)] effectiveLen_shift [OF assms(1) t'(2)]
        effectiveLen_shift [OF assms(2) t(2)] effectiveLen_shift [OF assms(2) t'(2)] t(1) t'(1) by simp
    then show ?thesis using IH m t(1) t'(1) Some by (simp add: trim)
  qed
qed simp

lemma policy_shift:
  assumes "CHR ''*'' \<notin> set a" "CHR ''*'' \<notin> set b"
    and "\<forall>r \<in> set rs. \<exists>t. r_path r = a @ t \<and> (t = [] \<or> hd t = slash)"
  shows "policy (map (\<lambda>r. r\<lparr>r_path := b @ TrimPrefix (r_path r) a\<rparr>) rs) (b @ u) = policy rs (a @ u)"
  unfolding policy_def best_rule_shift [OF assms] by (cases "best_rule (a @ u) rs") simp_all

lemma clean_abs_abs_path: "\<forall>s \<in> set segs. real_seg s \<Longrightarrow> clean_abs (abs_path segs) = abs_path segs"
  by (simp add: clean_abs_rooted) (simp add: path_Clean_abs_path abs_path_def [symmetric])

lemma abs_path_append: "xs \<noteq> [] \<Longrightarrow> abs_path (xs @ ys) = abs_path xs @ (if ys = [] then [] else slash # Join slash ys)"
  by (simp add: abs_path_def Join_append)

section \<open>Properties\<close>

definition empty_node :: "unit node" where
  "empty_node = \<lparr>nd_live = [], nd_rootMounted = True, nd_restored = False, nd_workloadLive = False, nd_trans = [],
     nd_files = (\<lambda>_. None), nd_daemon = [], nd_trace = [], nd_world = ()\<rparr>"

definition all_ok :: "unit menv" where
  "all_ok c w = (True, w)"

definition boot_mgr :: mountManager where
  "boot_mgr = \<lparr>mm_workDir = ''/run'', mm_snapshotDir = ''/snap'', mm_soMark = 7, mm_keyPrefix = []\<rparr>"

definition packed_mgr :: mountManager where
  "packed_mgr = boot_mgr\<lparr>mm_keyPrefix := ''/run/sandboxd/k1''\<rparr>"

lemma empty_consistent [simp]: "consistent m empty_node"
  by (simp add: consistent_def empty_node_def)



text \<open>
  A packed sandbox enforces on the host path what the rules say of the guest path: for
  rules below the mount, rewriting the prefix changes no decision.
\<close>

theorem packed_rules_equivalent:
  assumes "mm_keyPrefix m \<noteq> []" "Mount f = abs_path ms" "hostMount m f = abs_path hs" "ms \<noteq> []" "hs \<noteq> []"
    and "\<forall>x \<in> set ms \<union> set hs \<union> set rs. real_seg x" "CHR ''*'' \<notin> set (Mount f)" "CHR ''*'' \<notin> set (hostMount m f)"
    and "\<forall>r \<in> set (defaultedACLs f). r_path r = Mount f \<or> HasPrefix (r_path r) (Mount f @ ''/'')"
  shows "Eval (Compile (aclsFor m f)) (abs_path (hs @ rs)) = Eval (Compile (defaultedACLs f)) (abs_path (ms @ rs))"
proof (cases "hostMount m f = Mount f")
  case True
  then have "hs = ms" using assms(2,3,6) abs_path_inj by (metis UnCI)
  then show ?thesis using True by (simp add: aclsFor_def Let_def)
next
  case False
  have shape: "\<forall>r \<in> set (defaultedACLs f). \<exists>t. r_path r = Mount f @ t \<and> (t = [] \<or> hd t = slash)"
    using assms(9) by (auto simp: HasPrefix_def prefix_def)
  have c: "clean_abs (abs_path (hs @ rs)) = abs_path (hs @ rs)" "clean_abs (abs_path (ms @ rs)) = abs_path (ms @ rs)"
    using assms(6) by (auto intro!: clean_abs_abs_path)
  show ?thesis
    unfolding Eval_Compile c
    unfolding abs_path_append [OF assms(4)] abs_path_append [OF assms(5)]
    using policy_shift [OF assms(7,8) shape] False assms(1,2,3) by (simp add: aclsFor_def Let_def)
qed

theorem packed_rules_equivalent_witness:
  "Eval (Compile (aclsFor packed_mgr (local_fs ''/work''))) (abs_path [''run'', ''sandboxd'', ''k1'', ''mnt'', ''work'', ''a''])
   = Eval (Compile (defaultedACLs (local_fs ''/work''))) (abs_path [''work'', ''a''])"
proof -
  have h: "hostMount packed_mgr (local_fs ''/work'') = abs_path [''run'', ''sandboxd'', ''k1'', ''mnt'', ''work'']"
    unfolding hostMount_def packed_mgr_def boot_mgr_def Slug_def
    by (simp add: TrimLeft_def TrimRight_def path_Clean_def abs_path_def clean_segs_def clean_step_def)
  show ?thesis
    using packed_rules_equivalent [of packed_mgr "local_fs ''/work''" "[''work'']" "[''run'', ''sandboxd'', ''k1'', ''mnt'', ''work'']" "[''a'']"] h
    by (simp add: packed_mgr_def real_seg_def abs_path_def defaultedACLs_def default_acls_def HasPrefix_def)
qed

text \<open>
  A live mount whose backend changes in the configuration is kept as it is: after an
  error-free reconciliation the process still serves the old host directory, the old remote
  store and the old credentials, whatever the new entry says.
\<close>

theorem reconcile_keeps_old_backend:
  assumes "consistent m s" "distinct (map Mount (sp_FS sp))"
    and "separate m (Mount ` set (sp_FS sp) \<union> set (map fst (nd_live s)))"
    and "\<forall>f \<in> set (sp_FS sp). map_of (nd_live s) (Mount f) = None \<longrightarrow> map_of (nd_daemon s) (hostMount m f) = None"
    and "run_state (Reconcile getenv env m sp) s = ([], s')"
    and "f \<in> set (sp_FS sp)" "map_of (nd_live s) (Mount f) \<noteq> None"
  shows "\<exists>cm. map_of (nd_daemon s) (hostMount m f) = Some cm
       \<and> map_of (nd_daemon s') (hostMount m f) = Some (cm\<lparr>cm_acls := Compile (aclsFor m f)\<rparr>)"
proof -
  from wp_D [OF Reconcile_spec [OF assms(1,3,2,4), of getenv env]] assms(5)
  have "outcome m (sp_FS sp) s [] s'" by auto
  from outcome_settled [OF assms(1) this assms(6)] assms(7)
  show ?thesis by (auto simp: settled_def Let_def)
qed

definition data_entry :: ctrlMount where
  "data_entry = \<lparr>cm_backend = ''/data-backend'', cm_acls = Compile [], cm_aclPath = ''/run/acls-data.json'',
     cm_remote = [], cm_remoteConfig = None, cm_async = False\<rparr>"

definition data_node :: "unit node" where
  "data_node = empty_node\<lparr>nd_live := [(''/data'', \<lparr>sd_hostMount = ''/data'', sd_aclPath = ''/run/acls-data.json''\<rparr>)],
     nd_daemon := [(''/data'', data_entry)]\<rparr>"

definition data_on_gcs :: SandboxSpec where
  "data_on_gcs = spec_of [(local_fs ''/data'')\<lparr>fs_Backend := BackendGoogleCloudStorage, GcsBucket := ''b''\<rparr>]"

lemma data_sidecar: "sidecar boot_mgr ''/data'' = \<lparr>sd_hostMount = ''/data'', sd_aclPath = ''/run/acls-data.json''\<rparr>"
  by code_simp

theorem reconcile_keeps_old_backend_witness:
  "\<exists>s'. run_state (Reconcile no_env all_ok boot_mgr data_on_gcs) data_node = ([], s')
     \<and> (\<exists>a. map_of (nd_daemon s') ''/data'' = Some (data_entry\<lparr>cm_acls := a\<rparr>))"
proof -
  let ?f = "(local_fs ''/data'')\<lparr>fs_Backend := BackendGoogleCloudStorage, GcsBucket := ''b''\<rparr>"
  have e: "fst (run_state (Reconcile no_env all_ok boot_mgr data_on_gcs) data_node) = []" by code_simp
  then obtain s' where r: "run_state (Reconcile no_env all_ok boot_mgr data_on_gcs) data_node = ([], s')"
    by (cases "run_state (Reconcile no_env all_ok boot_mgr data_on_gcs) data_node") simp
  have c: "consistent boot_mgr data_node"
    by (auto simp: consistent_def served_as_def data_node_def empty_node_def data_sidecar data_entry_def split: if_splits)
  have fs: "sp_FS data_on_gcs = [?f]" by (simp add: data_on_gcs_def spec_of_def)
  show ?thesis
    using reconcile_keeps_old_backend [OF c _ _ _ r, of ?f] r
    by (auto simp: fs data_node_def empty_node_def separate_def data_sidecar)
qed

text \<open>
  C44: two mounts whose paths differ only in a slash and a hyphen pass validation, but a
  packed sandbox puts both on one host path: the second mount replaces the first in the
  process, both guest paths lead there, and a path declared read-only is served read-write.
\<close>

definition clash_spec :: SandboxSpec where
  "clash_spec = spec_of [(local_fs ''/a-b'')\<lparr>fs_ACLs := [\<lparr>r_path = ''/a-b/**'', r_access = AccessRO\<rparr>]\<rparr>, local_fs ''/a/b'']"

definition clash_node :: "unit node" where
  "clash_node = snd (run_state (Reconcile no_env all_ok packed_mgr clash_spec) empty_node)"

theorem packed_slug_collision:
  "fst (Validate no_env clash_spec) = None
   \<and> map_of (nd_live clash_node) ''/a-b'' = map_of (nd_live clash_node) ''/a/b''
   \<and> map fst (nd_daemon clash_node) = [''/run/sandboxd/k1/mnt/a-b'']
   \<and> map_option (\<lambda>cm. Eval (cm_acls cm) ''/run/sandboxd/k1/mnt/a-b/x'')
       (map_of (nd_daemon clash_node) ''/run/sandboxd/k1/mnt/a-b'') = Some AccessRW
   \<and> Eval (Compile (fs_ACLs (hd (sp_FS clash_spec)))) ''/a-b/x'' = AccessRO"
  by code_simp

end
