(* ===== verification/Store_Config.thy ===== *)
theory Store_Config
  imports Sandbox_Spec
begin

text \<open>
  From the validated entry to the remote store: the FUSE daemon decodes the configuration
  object (\<^verbatim>\<open>Parse...Config\<close> of \<^verbatim>\<open>internal/remotefs\<close>), picks the constructor
  (\<^verbatim>\<open>buildStore\<close> of \<^verbatim>\<open>cmd/sbxfuse/main.go\<close>) and the constructor checks the configuration once
  more.  The cloud client libraries, and the folder creation done over them, are the
  argument \<open>cloud\<close>, one answer per call.
  The configuration structs of \<^verbatim>\<open>remotefs\<close> have the fields of the resolved credentials, so both
  share their record types.
\<close>

section \<open>Decoding\<close>

text \<open>\<^verbatim>\<open>json.Unmarshal\<close> of one member: absent and null leave the zero value, another type is an error.\<close>

definition json_str :: "json_object \<Rightarrow> string \<Rightarrow> string option" where
  "json_str obj k = (case map_of obj k of
     None \<Rightarrow> Some [] | Some (JStr s) \<Rightarrow> Some s | Some JNull \<Rightarrow> Some [] | Some _ \<Rightarrow> None)"

definition json_bool :: "json_object \<Rightarrow> string \<Rightarrow> bool option" where
  "json_bool obj k = (case map_of obj k of
     None \<Rightarrow> Some False | Some (JBool b) \<Rightarrow> Some b | Some JNull \<Rightarrow> Some False | Some _ \<Rightarrow> None)"

definition json_strs :: "json_object \<Rightarrow> string list \<Rightarrow> string list option" where
  "json_strs obj ks = those (map (json_str obj) ks)"

definition ParseGoogleDriveConfig :: "json_object option \<Rightarrow> gdriveCfg option" where
  "ParseGoogleDriveConfig blob =
     (let obj = (case blob of None \<Rightarrow> [] | Some obj \<Rightarrow> obj) in
      case json_strs obj [''access_token'', ''refresh_token'', ''client_id'', ''client_secret'',
          ''service_account_json'', ''folder_id'', ''prefix''] of
        Some [a, r, i, s, j, fo, p] \<Rightarrow> Some \<lparr>gd_access = a, gd_refresh = r, gd_clientID = i, gd_clientSecret = s,
          gd_sa = j, gd_folder = fo, gd_prefix = p\<rparr>
      | _ \<Rightarrow> None)"

definition ParseGoogleCloudStorageConfig :: "json_object option \<Rightarrow> gcsCfg option" where
  "ParseGoogleCloudStorageConfig blob =
     (let obj = (case blob of None \<Rightarrow> [] | Some obj \<Rightarrow> obj) in
      case json_strs obj [''bucket'', ''prefix'', ''service_account_json''] of
        Some [b, p, j] \<Rightarrow> Some \<lparr>gc_bucket = b, gc_prefix = p, gc_sa = j\<rparr>
      | _ \<Rightarrow> None)"

definition ParseS3Config :: "json_object option \<Rightarrow> s3Cfg option" where
  "ParseS3Config blob =
     (let obj = (case blob of None \<Rightarrow> [] | Some obj \<Rightarrow> obj) in
      case (json_strs obj [''bucket'', ''region'', ''prefix'', ''access_key_id'', ''secret_access_key'',
          ''session_token'', ''endpoint''], json_bool obj ''use_path_style'') of
        (Some [b, r, p, k, s, t, e], Some u) \<Rightarrow> Some \<lparr>s3_bucket = b, s3_region = r, s3_prefix = p, s3_accessKeyID = k,
          s3_secretAccessKey = s, s3_sessionToken = t, s3_endpoint = e, s3_usePathStyle = u\<rparr>
      | _ \<Rightarrow> None)"

definition ParseAzureBlobConfig :: "json_object option \<Rightarrow> azureCfg option" where
  "ParseAzureBlobConfig blob =
     (let obj = (case blob of None \<Rightarrow> [] | Some obj \<Rightarrow> obj) in
      case json_strs obj [''account'', ''container'', ''prefix'', ''account_key'', ''connection_string'',
          ''sas_token'', ''endpoint''] of
        Some [a, c, p, k, s, t, e] \<Rightarrow> Some \<lparr>az_account = a, az_container = c, az_prefix = p, az_accountKey = k,
          az_connectionString = s, az_sasToken = t, az_endpoint = e\<rparr>
      | _ \<Rightarrow> None)"

definition ParseOneDriveConfig :: "json_object option \<Rightarrow> onedriveCfg option" where
  "ParseOneDriveConfig blob =
     (let obj = (case blob of None \<Rightarrow> [] | Some obj \<Rightarrow> obj) in
      case json_strs obj [''access_token'', ''refresh_token'', ''client_id'', ''client_secret'', ''tenant'',
          ''drive_id'', ''prefix''] of
        Some [a, r, i, s, t, d, p] \<Rightarrow> Some \<lparr>od_access = a, od_refresh = r, od_clientID = i, od_clientSecret = s,
          od_tenant = t, od_driveID = d, od_prefix = p\<rparr>
      | _ \<Rightarrow> None)"

definition ParseExternalConfig :: "json_object option \<Rightarrow> string option" where
  "ParseExternalConfig blob = json_str (case blob of None \<Rightarrow> [] | Some obj \<Rightarrow> obj) ''host''"

section \<open>Constructors\<close>

record cloud =
  JWTConfigFromJSON :: "string \<Rightarrow> bool"
  drive_NewService :: bool
  drive_ensureFolder :: "string \<Rightarrow> string \<Rightarrow> string option"
  storage_NewService :: bool
  NewClientFromConnectionString :: "string \<Rightarrow> string \<Rightarrow> bool"
  NewClientWithNoCredential :: "string \<Rightarrow> bool"
  NewSharedKeyCredential :: "string \<Rightarrow> string \<Rightarrow> bool"
  NewClientWithSharedKeyCredential :: "string \<Rightarrow> bool"
  onedrive_ensureFolder :: "string \<Rightarrow> bool"
  url_Parse :: "string \<Rightarrow> (string \<times> string) option"

datatype store_error = ParseFailed | AuthMissing | AuthRejected | BucketMissing | ServiceFailed | PrefixFailed string
  | AccountMissing | AccountMissingForKey | CredentialMissing | ClientFailed | HostMissing | HostUnparsable string
  | HostNotAbsolute string | UnknownRemote string

text \<open>What the constructed store keeps of its configuration.\<close>

datatype remote_store = GoogleDrive string | GoogleCloudStorage string string | S3Store string string
  | AzureBlob string string | OneDrive string string | External string

definition Trim :: "char \<Rightarrow> string \<Rightarrow> string" where
  "Trim c s = TrimRight c (TrimLeft c s)"

definition newOAuthClient :: "cloud \<Rightarrow> gdriveCfg \<Rightarrow> store_error option" where
  "newOAuthClient cl cfg =
     (if gd_sa cfg \<noteq> [] then (if JWTConfigFromJSON cl (gd_sa cfg) then None else Some AuthRejected)
      else if gd_access cfg = [] then Some AuthMissing
      else None)"

text \<open>The root is the configured folder, the alias \<^verbatim>\<open>root\<close> without one, and the folder of the prefix below it when there is one.\<close>

definition NewGoogleDrive :: "cloud \<Rightarrow> gdriveCfg \<Rightarrow> store_error + remote_store" where
  "NewGoogleDrive cl cfg =
     (case newOAuthClient cl cfg of
        Some e \<Rightarrow> Inl e
      | None \<Rightarrow>
          if \<not> drive_NewService cl then Inl ServiceFailed
          else let root = (if gd_folder cfg = [] then ''root'' else gd_folder cfg) in
            if gd_prefix cfg = [] then Inr (GoogleDrive root)
            else (case drive_ensureFolder cl root (gd_prefix cfg) of
                    None \<Rightarrow> Inl (PrefixFailed (gd_prefix cfg))
                  | Some prefixID \<Rightarrow> Inr (GoogleDrive prefixID)))"

definition NewGoogleCloudStorage :: "cloud \<Rightarrow> gcsCfg \<Rightarrow> store_error + remote_store" where
  "NewGoogleCloudStorage cl cfg =
     (if gc_bucket cfg = [] then Inl BucketMissing
      else if gc_sa cfg = [] then Inl AuthMissing
      else if \<not> JWTConfigFromJSON cl (gc_sa cfg) then Inl AuthRejected
      else if \<not> storage_NewService cl then Inl ServiceFailed
      else Inr (GoogleCloudStorage (gc_bucket cfg) (Trim slash (gc_prefix cfg))))"

definition NewS3 :: "s3Cfg \<Rightarrow> store_error + remote_store" where
  "NewS3 cfg =
     (if s3_bucket cfg = [] then Inl BucketMissing
      else Inr (S3Store (s3_bucket cfg) (Trim slash (s3_prefix cfg))))"

definition NewAzureBlob :: "cloud \<Rightarrow> azureCfg \<Rightarrow> store_error + remote_store" where
  "NewAzureBlob cl cfg =
     (if az_container cfg = [] then Inl BucketMissing
      else let ep = TrimRight slash (az_endpoint cfg) in
        if ep = [] \<and> az_account cfg = [] then Inl AccountMissing
        else let serviceURL = (if ep = [] then ''https://'' @ az_account cfg @ ''.blob.core.windows.net'' else ep);
                 containerURL = serviceURL @ slash # az_container cfg;
                 done = Inr (AzureBlob (az_container cfg) (Trim slash (az_prefix cfg)))
             in if az_connectionString cfg \<noteq> [] then
                  (if NewClientFromConnectionString cl (az_connectionString cfg) (az_container cfg) then done else Inl ClientFailed)
                else if az_sasToken cfg \<noteq> [] then
                  (if NewClientWithNoCredential cl (containerURL @ ''?'' @ TrimPrefix (az_sasToken cfg) ''?'') then done else Inl ClientFailed)
                else if az_accountKey cfg \<noteq> [] then
                  (if az_account cfg = [] then Inl AccountMissingForKey
                   else if \<not> NewSharedKeyCredential cl (az_account cfg) (az_accountKey cfg) then Inl AuthRejected
                   else if NewClientWithSharedKeyCredential cl containerURL then done else Inl ClientFailed)
                else Inl CredentialMissing)"

definition NewOneDrive :: "cloud \<Rightarrow> onedriveCfg \<Rightarrow> store_error + remote_store" where
  "NewOneDrive cl cfg =
     (if od_access cfg = [] then Inl AuthMissing
      else let driveRoot = (if od_driveID cfg = [] then ''/me/drive'' else ''/drives/'' @ od_driveID cfg);
               pre = Trim slash (od_prefix cfg)
           in if pre \<noteq> [] \<and> \<not> onedrive_ensureFolder cl pre then Inl (PrefixFailed (od_prefix cfg))
              else Inr (OneDrive driveRoot pre))"

definition NewExternal :: "cloud \<Rightarrow> string \<Rightarrow> store_error + remote_store" where
  "NewExternal cl host =
     (if host = [] then Inl HostMissing
      else (case url_Parse cl (TrimRight slash host) of
              None \<Rightarrow> Inl (HostUnparsable host)
            | Some (scheme, h) \<Rightarrow>
                if scheme = [] \<or> h = [] then Inl (HostNotAbsolute host) else Inr (External (TrimRight slash host))))"

definition with_config :: "'c option \<Rightarrow> ('c \<Rightarrow> store_error + remote_store) \<Rightarrow> store_error + remote_store option" where
  "with_config cfg new = (case cfg of None \<Rightarrow> Inl ParseFailed | Some c \<Rightarrow> map_sum (\<lambda>e. e) Some (new c))"

definition buildStore :: "cloud \<Rightarrow> string \<Rightarrow> json_object option \<Rightarrow> store_error + remote_store option" where
  "buildStore cl name blob =
     (if name = [] then Inr None
      else if name = ''gdrive'' then with_config (ParseGoogleDriveConfig blob) (NewGoogleDrive cl)
      else if name = ''gcs'' then with_config (ParseGoogleCloudStorageConfig blob) (NewGoogleCloudStorage cl)
      else if name = ''s3'' then with_config (ParseS3Config blob) NewS3
      else if name = ''azure'' then with_config (ParseAzureBlobConfig blob) (NewAzureBlob cl)
      else if name = ''onedrive'' then with_config (ParseOneDriveConfig blob) (NewOneDrive cl)
      else if name = ''external'' then with_config (ParseExternalConfig blob) (NewExternal cl)
      else Inl (UnknownRemote name))"

section \<open>The object survives the hand-over\<close>

lemma json_str_Nil [simp]: "json_str [] k = Some []"
  by (simp add: json_str_def)

lemma json_bool_Nil [simp]: "json_bool [] k = Some False"
  by (simp add: json_bool_def)

lemma json_str_member [simp]:
  "json_str (member k v @ xs) k' = (if k = k' then Some v else json_str xs k')"
  "json_str (member k v) k' = (if k = k' then Some v else Some [])"
  "json_str (member_omitempty k v @ xs) k' = (if k = k' \<and> v \<noteq> [] then Some v else json_str xs k')"
  "json_str (member_omitempty k v) k' = (if k = k' \<and> v \<noteq> [] then Some v else Some [])"
  "k \<noteq> k' \<Longrightarrow> json_str (flag_omitempty k b) k' = Some []"
  by (auto simp: json_str_def member_def member_omitempty_def flag_omitempty_def)

lemma json_bool_member [simp]:
  "k \<noteq> k' \<Longrightarrow> json_bool (member k v @ xs) k' = json_bool xs k'"
  "k \<noteq> k' \<Longrightarrow> json_bool (member_omitempty k v @ xs) k' = json_bool xs k'"
  "json_bool (flag_omitempty k b) k = Some b"
  by (auto simp: json_bool_def member_def member_omitempty_def flag_omitempty_def)

lemma parse_gdrive: "fs_Backend f = BackendGoogleDrive \<Longrightarrow>
    ParseGoogleDriveConfig (BackendConfigJSON getenv f) = Some (gdriveResolved getenv f)"
  by (cases "gdriveResolved getenv f") (simp add: ParseGoogleDriveConfig_def BackendConfigJSON_def json_strs_def Let_def)

lemma parse_gcs: "fs_Backend f = BackendGoogleCloudStorage \<Longrightarrow>
    ParseGoogleCloudStorageConfig (BackendConfigJSON getenv f) = Some (gcsResolved getenv f)"
  by (cases "gcsResolved getenv f") (simp add: ParseGoogleCloudStorageConfig_def BackendConfigJSON_def json_strs_def Let_def)

lemma parse_s3: "fs_Backend f = BackendS3 \<Longrightarrow> ParseS3Config (BackendConfigJSON getenv f) = Some (s3Resolved getenv f)"
  by (cases "s3Resolved getenv f") (simp add: ParseS3Config_def BackendConfigJSON_def json_strs_def Let_def)

lemma parse_azure: "fs_Backend f = BackendAzureBlob \<Longrightarrow>
    ParseAzureBlobConfig (BackendConfigJSON getenv f) = Some (azureResolved getenv f)"
  by (cases "azureResolved getenv f") (simp add: ParseAzureBlobConfig_def BackendConfigJSON_def json_strs_def Let_def)

lemma parse_onedrive: "fs_Backend f = BackendOneDrive \<Longrightarrow>
    ParseOneDriveConfig (BackendConfigJSON getenv f) = Some (onedriveResolved getenv f)"
  by (cases "onedriveResolved getenv f") (simp add: ParseOneDriveConfig_def BackendConfigJSON_def json_strs_def Let_def)

lemma parse_external: "fs_Backend f = BackendExternal \<Longrightarrow>
    ParseExternalConfig (BackendConfigJSON getenv f) = Some (externalResolved getenv f)"
  by (simp add: ParseExternalConfig_def BackendConfigJSON_def)

lemmas parse_config = parse_gdrive parse_gcs parse_s3 parse_azure parse_onedrive parse_external

section \<open>Properties\<close>

text \<open>The libraries accept what they are given, and the external host is an absolute URL.\<close>

definition accepts :: "cloud \<Rightarrow> string \<Rightarrow> bool" where
  "accepts cl host \<longleftrightarrow> (\<forall>j. JWTConfigFromJSON cl j) \<and> drive_NewService cl \<and> (\<forall>r p. drive_ensureFolder cl r p \<noteq> None) \<and>
     storage_NewService cl \<and> (\<forall>s c. NewClientFromConnectionString cl s c) \<and> (\<forall>u. NewClientWithNoCredential cl u) \<and>
     (\<forall>a k. NewSharedKeyCredential cl a k) \<and> (\<forall>u. NewClientWithSharedKeyCredential cl u) \<and>
     (\<forall>p. onedrive_ensureFolder cl p) \<and>
     (\<exists>scheme h. url_Parse cl (TrimRight slash host) = Some (scheme, h) \<and> scheme \<noteq> [] \<and> h \<noteq> [])"

text \<open>
  The credentials an entry resolves to are exactly those the daemon decodes from the
  object it is handed, for every backend: no member is lost, renamed or confused.
\<close>

theorem config_handover:
  "case fs_Backend f of
     BackendGoogleDrive \<Rightarrow> ParseGoogleDriveConfig (BackendConfigJSON getenv f) = Some (gdriveResolved getenv f)
   | BackendGoogleCloudStorage \<Rightarrow> ParseGoogleCloudStorageConfig (BackendConfigJSON getenv f) = Some (gcsResolved getenv f)
   | BackendS3 \<Rightarrow> ParseS3Config (BackendConfigJSON getenv f) = Some (s3Resolved getenv f)
   | BackendAzureBlob \<Rightarrow> ParseAzureBlobConfig (BackendConfigJSON getenv f) = Some (azureResolved getenv f)
   | BackendOneDrive \<Rightarrow> ParseOneDriveConfig (BackendConfigJSON getenv f) = Some (onedriveResolved getenv f)
   | BackendExternal \<Rightarrow> ParseExternalConfig (BackendConfigJSON getenv f) = Some (externalResolved getenv f)
   | _ \<Rightarrow> BackendConfigJSON getenv f = None"
proof (cases "fs_Backend f")
  case BackendLocal
  then show ?thesis by (simp add: BackendConfigJSON_def)
next
  case (BackendOther n)
  then show ?thesis by (simp add: BackendConfigJSON_def)
qed (simp_all add: parse_config)

text \<open>
  Every remote entry of a validated spec can be brought up: unless a client library
  refuses, the daemon builds the store.  For Azure this needs the account name as well.
\<close>

theorem validated_store_builds:
  assumes "fst (Validate getenv s) = None" "f \<in> set (sp_FS s)" "IsRemote (fs_Backend f)"
    and "accepts cl (externalResolved getenv f)"
    and "fs_Backend f = BackendAzureBlob \<Longrightarrow> az_account (azureResolved getenv f) \<noteq> []"
  shows "\<exists>st. buildStore cl (backend_name (fs_Backend f)) (BackendConfigJSON getenv f) = Inr (Some st)"
proof -
  have r: "backend_ready getenv f" using assms(1,2) by (simp add: Validate_None wf_spec_def)
  show ?thesis
  proof (cases "fs_Backend f")
    case BackendGoogleDrive
    let ?c = "gdriveResolved getenv f"
    obtain i where "drive_ensureFolder cl (if gd_folder ?c = [] then ''root'' else gd_folder ?c) (gd_prefix ?c) = Some i"
      using assms(4) unfolding accepts_def by blast
    then have "\<exists>st. NewGoogleDrive cl ?c = Inr st"
      using BackendGoogleDrive r assms(4)
      by (auto simp: NewGoogleDrive_def newOAuthClient_def backend_ready_def accepts_def Let_def)
    then show ?thesis
      using BackendGoogleDrive by (auto simp: buildStore_def backend_name_def parse_config with_config_def)
  next
    case BackendAzureBlob
    then show ?thesis
      using r assms(4,5) by (auto simp: buildStore_def backend_name_def parse_config with_config_def NewAzureBlob_def
        backend_ready_def accepts_def Let_def)
  next
    case BackendExternal
    then show ?thesis
      using r assms(4) by (auto simp: buildStore_def backend_name_def parse_config with_config_def NewExternal_def
        backend_ready_def accepts_def)
  qed (use r assms(3,4) in \<open>auto simp: buildStore_def backend_name_def parse_config with_config_def IsRemote_def
      NewGoogleCloudStorage_def NewS3_def NewOneDrive_def backend_ready_def accepts_def Let_def\<close>)
qed

definition yes_cloud :: cloud where
  "yes_cloud = \<lparr>JWTConfigFromJSON = (\<lambda>_. True), drive_NewService = True, drive_ensureFolder = (\<lambda>r p. Some p),
     storage_NewService = True, NewClientFromConnectionString = (\<lambda>_ _. True), NewClientWithNoCredential = (\<lambda>_. True),
     NewSharedKeyCredential = (\<lambda>_ _. True), NewClientWithSharedKeyCredential = (\<lambda>_. True),
     onedrive_ensureFolder = (\<lambda>_. True), url_Parse = (\<lambda>u. Some (''https'', u))\<rparr>"

theorem validated_store_builds_witness:
  "\<exists>st. buildStore yes_cloud ''external''
     (BackendConfigJSON no_env ((local_fs ''/ext'')\<lparr>fs_Backend := BackendExternal, fs_Host := ''https://h/''\<rparr>)) = Inr (Some st)"
proof -
  let ?f = "(local_fs ''/ext'')\<lparr>fs_Backend := BackendExternal, fs_Host := ''https://h/''\<rparr>"
  have h: "externalResolved no_env ?f = ''https://h/''" by (simp add: externalResolved_def or_env_def)
  have v: "fst (Validate no_env (spec_of [?f])) = None"
    using h by (simp add: Validate_None spec_of_wf backend_ready_def HasPrefix_def)
  have a: "accepts yes_cloud ''https://h/''" by (simp add: accepts_def yes_cloud_def TrimRight_def)
  show ?thesis
    using validated_store_builds [OF v, of ?f yes_cloud] h a
    by (simp add: spec_of_def IsRemote_def backend_name_def)
qed

text \<open>
  An Azure entry with a connection string and neither account nor endpoint passes the
  validation, which documents that the connection string supplies the account, but the
  daemon refuses it whatever the client library would answer.
\<close>

theorem azure_connection_string_rejected:
  assumes "fs_Backend f = BackendAzureBlob" "HasPrefix (Mount f) ''/''"
    and "az_container (azureResolved getenv f) \<noteq> []" "az_connectionString (azureResolved getenv f) \<noteq> []"
    and "az_account (azureResolved getenv f) = []" "az_endpoint (azureResolved getenv f) = []"
  shows "first_error (fs_guards getenv f) = None
       \<and> buildStore cl (backend_name (fs_Backend f)) (BackendConfigJSON getenv f) = Inl AccountMissing"
  using assms by (simp add: fs_guards_None backend_ready_def buildStore_def backend_name_def parse_config with_config_def
    NewAzureBlob_def Let_def TrimRight_def)

theorem azure_connection_string_rejected_witness:
  "buildStore yes_cloud ''azure'' (BackendConfigJSON no_env
     ((local_fs ''/az'')\<lparr>fs_Backend := BackendAzureBlob, AzureContainer := ''c'', AzureConnectionString := ''AccountName=a''\<rparr>))
   = Inl AccountMissing"
  using azure_connection_string_rejected [of "(local_fs ''/az'')\<lparr>fs_Backend := BackendAzureBlob, AzureContainer := ''c'',
      AzureConnectionString := ''AccountName=a''\<rparr>" no_env yes_cloud]
  by (simp add: azureResolved_def or_env_def no_env_def HasPrefix_def backend_name_def local_fs_def)

end
