(* ===== verification/Pool.thy ===== *)
theory Pool
  imports Prelude "HOL-Library.Multiset"
begin

text \<open>
  The pool of warm upstream connections of the proxy (\<^verbatim>\<open>internal/proxy/upstream_pool.go\<close>).
  A connection is a number; time is in nanoseconds; whether a connection still answers the
  probe \<^verbatim>\<open>connAlive\<close> and how many bytes its reader holds are arguments of the operations.  The
  list \<open>p_closed\<close> records the connections the pool has closed.  The map of stacks is an
  association list, iterated in some order.
\<close>

section \<open>The pool\<close>

record poolKey =
  k_srcIP :: string
  k_dialAddr :: string
  k_host :: string

record pooledConn =
  pc_conn :: nat
  pc_idleSince :: int

record upstreamPool =
  p_shared :: bool
  p_idleTTL :: int
  p_maxIdlePer :: nat
  p_idle :: "(poolKey \<times> pooledConn list) list"
  p_isClosed :: bool
  p_closed :: "nat list"

definition newUpstreamPool :: "bool \<Rightarrow> upstreamPool" where
  "newUpstreamPool shared = \<lparr>p_shared = shared, p_idleTTL = 10 * 1000000000, p_maxIdlePer = 8, p_idle = [],
     p_isClosed = False, p_closed = []\<rparr>"

definition keyFor :: "upstreamPool \<Rightarrow> string \<Rightarrow> string \<Rightarrow> string \<Rightarrow> poolKey" where
  "keyFor p srcIP dialAddr host =
     \<lparr>k_srcIP = (if p_shared p then [] else srcIP), k_dialAddr = dialAddr, k_host = host\<rparr>"

definition stack_of :: "upstreamPool \<Rightarrow> poolKey \<Rightarrow> pooledConn list" where
  "stack_of p key = (case map_of (p_idle p) key of None \<Rightarrow> [] | Some stack \<Rightarrow> stack)"

definition close_conns :: "nat list \<Rightarrow> upstreamPool \<Rightarrow> upstreamPool" where
  "close_conns cs p = p\<lparr>p_closed := p_closed p @ cs\<rparr>"

text \<open>
  One round of the loop of \<^verbatim>\<open>get\<close>, the part under the lock: the newest connection of the
  stack, if the pool is open and has one.
\<close>

definition pop :: "poolKey \<Rightarrow> upstreamPool \<Rightarrow> pooledConn option \<times> upstreamPool" where
  "pop key p =
     (let stack = stack_of p key in
      if p_isClosed p \<or> stack = [] then (None, p)
      else (Some (last stack), p\<lparr>p_idle := AList.update key (butlast stack) (p_idle p)\<rparr>))"

definition usable :: "(nat \<Rightarrow> bool) \<Rightarrow> int \<Rightarrow> upstreamPool \<Rightarrow> pooledConn \<Rightarrow> bool" where
  "usable connAlive now p pc \<longleftrightarrow> \<not> now - pc_idleSince pc > p_idleTTL p \<and> connAlive (pc_conn pc)"

lemma stack_of_update [simp]:
  "stack_of (p\<lparr>p_idle := AList.update k st (p_idle p)\<rparr>) key = (if key = k then st else stack_of p key)"
  by (simp add: stack_of_def update_conv')

lemma stack_of_close [simp]: "stack_of (close_conns cs p) key = stack_of p key"
  by (simp add: stack_of_def close_conns_def)

lemma pop_Some:
  assumes "pop key p = (Some pc, p1)"
  shows "stack_of p key = stack_of p1 key @ [pc]" "p1 = p\<lparr>p_idle := AList.update key (stack_of p1 key) (p_idle p)\<rparr>"
    "key' \<noteq> key \<Longrightarrow> stack_of p1 key' = stack_of p key'" "\<not> p_isClosed p"
  using assms by (auto simp: pop_def Let_def split: if_splits)

text \<open>The whole loop, when no other operation runs in between.\<close>

function pool_get :: "(nat \<Rightarrow> bool) \<Rightarrow> int \<Rightarrow> poolKey \<Rightarrow> upstreamPool \<Rightarrow> nat option \<times> upstreamPool" where
  "pool_get connAlive now key p =
     (case pop key p of
        (None, p1) \<Rightarrow> (None, p1)
      | (Some pc, p1) \<Rightarrow>
          if usable connAlive now p pc then (Some (pc_conn pc), p1)
          else pool_get connAlive now key (close_conns [pc_conn pc] p1))"
  by pat_completeness auto

termination
  by (relation "measure (\<lambda>(connAlive, now, key, p). length (stack_of p key))") (auto dest: pop_Some(1) [OF sym])

declare pool_get.simps [simp del]

definition pool_put :: "int \<Rightarrow> nat \<Rightarrow> poolKey \<Rightarrow> nat \<Rightarrow> upstreamPool \<Rightarrow> upstreamPool" where
  "pool_put now buffered key conn p =
     (if buffered \<noteq> 0 then close_conns [conn] p
      else if p_isClosed p \<or> length (stack_of p key) \<ge> p_maxIdlePer p then close_conns [conn] p
      else p\<lparr>p_idle := AList.update key (stack_of p key @ [\<lparr>pc_conn = conn, pc_idleSince = now\<rparr>]) (p_idle p)\<rparr>)"

definition conns_of :: "(poolKey \<times> pooledConn list) list \<Rightarrow> nat list" where
  "conns_of idle = concat (map (\<lambda>(key, stack). map pc_conn stack) idle)"

definition evictSource :: "string \<Rightarrow> upstreamPool \<Rightarrow> upstreamPool" where
  "evictSource srcIP p =
     (if p_shared p then p
      else let drop = filter (\<lambda>(key, stack). k_srcIP key = srcIP) (p_idle p)
           in close_conns (conns_of drop) (p\<lparr>p_idle := filter (\<lambda>(key, stack). k_srcIP key \<noteq> srcIP) (p_idle p)\<rparr>))"

definition stale :: "int \<Rightarrow> upstreamPool \<Rightarrow> pooledConn \<Rightarrow> bool" where
  "stale now p pc \<longleftrightarrow> now - pc_idleSince pc > p_idleTTL p"

definition sweep :: "int \<Rightarrow> upstreamPool \<Rightarrow> upstreamPool" where
  "sweep now p =
     (let kept = map (\<lambda>(key, stack). (key, filter (\<lambda>pc. \<not> stale now p pc) stack)) (p_idle p);
          drop = map (\<lambda>(key, stack). (key, filter (stale now p) stack)) (p_idle p)
      in close_conns (conns_of drop) (p\<lparr>p_idle := filter (\<lambda>(key, stack). stack \<noteq> []) kept\<rparr>))"

definition closeAll :: "upstreamPool \<Rightarrow> upstreamPool" where
  "closeAll p = close_conns (conns_of (p_idle p)) (p\<lparr>p_isClosed := True, p_idle := []\<rparr>)"

section \<open>Requests sharing the pool\<close>

text \<open>
  The requests of all sandboxes run concurrently.  A step is a dial, one round of \<^verbatim>\<open>get\<close>, a
  \<^verbatim>\<open>put\<close> or a close by the request that holds a connection, an eviction, a sweep, or the
  shutdown.  The system remembers for whom each connection was opened.
\<close>

record request =
  rq_srcIP :: string
  rq_dialAddr :: string
  rq_host :: string

abbreviation key_of :: "upstreamPool \<Rightarrow> request \<Rightarrow> poolKey" where
  "key_of p t \<equiv> keyFor p (rq_srcIP t) (rq_dialAddr t) (rq_host t)"

record pool_sys =
  ps_pool :: upstreamPool
  ps_use :: "nat \<rightharpoonup> request"
  ps_opened :: "nat \<rightharpoonup> request"
  ps_next :: nat

inductive pool_step :: "pool_sys \<Rightarrow> pool_sys \<Rightarrow> bool" where
  dial: "pool_step s (s\<lparr>ps_use := (ps_use s)(ps_next s \<mapsto> t), ps_opened := (ps_opened s)(ps_next s \<mapsto> t),
     ps_next := Suc (ps_next s)\<rparr>)"
| get_hit: "pop (key_of (ps_pool s) t) (ps_pool s) = (Some pc, p1) \<Longrightarrow> usable connAlive now (ps_pool s) pc \<Longrightarrow>
     pool_step s (s\<lparr>ps_pool := p1, ps_use := (ps_use s)(pc_conn pc \<mapsto> t)\<rparr>)"
| get_drop: "pop (key_of (ps_pool s) t) (ps_pool s) = (Some pc, p1) \<Longrightarrow> \<not> usable connAlive now (ps_pool s) pc \<Longrightarrow>
     pool_step s (s\<lparr>ps_pool := close_conns [pc_conn pc] p1\<rparr>)"
| put_back: "ps_use s c = Some t \<Longrightarrow>
     pool_step s (s\<lparr>ps_pool := pool_put now buffered (key_of (ps_pool s) t) c (ps_pool s), ps_use := (ps_use s)(c := None)\<rparr>)"
| close_use: "ps_use s c = Some t \<Longrightarrow>
     pool_step s (s\<lparr>ps_pool := close_conns [c] (ps_pool s), ps_use := (ps_use s)(c := None)\<rparr>)"
| evict: "pool_step s (s\<lparr>ps_pool := evictSource src (ps_pool s)\<rparr>)"
| sweeping: "pool_step s (s\<lparr>ps_pool := sweep now (ps_pool s)\<rparr>)"
| shutdown: "pool_step s (s\<lparr>ps_pool := closeAll (ps_pool s)\<rparr>)"

definition pool_init :: "pool_sys \<Rightarrow> bool" where
  "pool_init s \<longleftrightarrow> (\<exists>shared. s = \<lparr>ps_pool = newUpstreamPool shared, ps_use = (\<lambda>_. None), ps_opened = (\<lambda>_. None), ps_next = 0\<rparr>)"

text \<open>The connections in the pool, in a request and closed, each counted.\<close>

definition held :: "pool_sys \<Rightarrow> nat multiset" where
  "held s = mset (conns_of (p_idle (ps_pool s))) + mset_set (dom (ps_use s)) + mset (p_closed (ps_pool s))"

definition idle_ok :: "upstreamPool \<Rightarrow> (nat \<rightharpoonup> request) \<Rightarrow> bool" where
  "idle_ok p opened \<longleftrightarrow> distinct (map fst (p_idle p)) \<and>
     (\<forall>(key, stack) \<in> set (p_idle p). length stack \<le> p_maxIdlePer p \<and>
        (\<forall>pc \<in> set stack. \<exists>t. opened (pc_conn pc) = Some t \<and> key_of p t = key))"

definition pool_ok :: "pool_sys \<Rightarrow> bool" where
  "pool_ok s \<longleftrightarrow> idle_ok (ps_pool s) (ps_opened s) \<and> finite (dom (ps_use s)) \<and>
     held s = mset [0..<ps_next s] \<and> dom (ps_opened s) = {..<ps_next s} \<and>
     (\<forall>c t. ps_use s c = Some t \<longrightarrow> (\<exists>t0. ps_opened s c = Some t0 \<and> key_of (ps_pool s) t0 = key_of (ps_pool s) t))"

lemma conns_of_simps [simp]: "conns_of [] = []" "conns_of ((k, st) # xs) = map pc_conn st @ conns_of xs"
  by (simp_all add: conns_of_def)

lemma conns_update:
  "distinct (map fst idle) \<Longrightarrow>
   mset (conns_of (AList.update k st idle)) + mset (map pc_conn (case map_of idle k of None \<Rightarrow> [] | Some s \<Rightarrow> s)) =
   mset (conns_of idle) + mset (map pc_conn st)"
proof (induction idle)
  case (Cons e idle)
  obtain k' s' where e: "e = (k', s')" by (cases e)
  show ?case
  proof (cases "k' = k")
    case False
    then show ?thesis using Cons e by (simp add: add.assoc)
  qed (simp add: e)
qed simp

lemma mset_conns_stack:
  "idle_ok p op \<Longrightarrow> mset (conns_of (AList.update k st (p_idle p))) + mset (map pc_conn (stack_of p k)) =
   mset (conns_of (p_idle p)) + mset (map pc_conn st)"
  unfolding stack_of_def by (rule conns_update) (simp add: idle_ok_def)

lemma key_of_keep [simp]:
  "keyFor (p\<lparr>p_idle := i\<rparr>) = keyFor p" "keyFor (close_conns cs p) = keyFor p" "keyFor (p\<lparr>p_isClosed := b\<rparr>) = keyFor p"
  by (simp_all add: keyFor_def close_conns_def fun_eq_iff)

lemma close_conns_simps [simp]:
  "p_idle (close_conns cs p) = p_idle p" "p_closed (close_conns cs p) = p_closed p @ cs"
  "p_maxIdlePer (close_conns cs p) = p_maxIdlePer p" "p_idleTTL (close_conns cs p) = p_idleTTL p"
  "idle_ok (close_conns cs p) op = idle_ok p op"
  by (simp_all add: close_conns_def idle_ok_def keyFor_def)

lemma idle_ok_update:
  assumes "idle_ok p op" "length st \<le> p_maxIdlePer p" "\<forall>pc \<in> set st. \<exists>t. op (pc_conn pc) = Some t \<and> key_of p t = k"
  shows "idle_ok (p\<lparr>p_idle := AList.update k st (p_idle p)\<rparr>) op"
proof -
  have d: "distinct (map fst (AList.update k st (p_idle p)))" using assms(1) by (simp add: idle_ok_def distinct_update)
  have "length s \<le> p_maxIdlePer p \<and> (\<forall>pc \<in> set s. \<exists>t. op (pc_conn pc) = Some t \<and> key_of p t = k')"
    if e: "(k', s) \<in> set (AList.update k st (p_idle p))" for k' s
  proof -
    have m: "map_of (AList.update k st (p_idle p)) k' = Some s" using d e by simp
    show ?thesis
    proof (cases "k' = k")
      case True
      then show ?thesis using m assms(2,3) by (simp add: update_conv')
    next
      case False
      then have "(k', s) \<in> set (p_idle p)" using m by (simp add: update_conv' map_of_SomeD)
      then show ?thesis using assms(1) unfolding idle_ok_def by blast
    qed
  qed
  then show ?thesis using d by (auto simp: idle_ok_def)
qed

lemma idle_ok_new:
  assumes "distinct (map fst i)"
    "\<And>k st. (k, st) \<in> set i \<Longrightarrow>
      length st \<le> p_maxIdlePer p \<and> (\<forall>pc \<in> set st. \<exists>t. op (pc_conn pc) = Some t \<and> key_of p t = k)"
  shows "idle_ok (p\<lparr>p_idle := i\<rparr>) op"
  using assms by (auto simp: idle_ok_def)

lemma stack_ok:
  assumes "idle_ok p op"
  shows "length (stack_of p k) \<le> p_maxIdlePer p" "pc \<in> set (stack_of p k) \<Longrightarrow> \<exists>t. op (pc_conn pc) = Some t \<and> key_of p t = k"
proof -
  have "(k, stack_of p k) \<in> set (p_idle p) \<or> stack_of p k = []"
    by (cases "map_of (p_idle p) k") (auto simp: stack_of_def map_of_SomeD)
  then show "length (stack_of p k) \<le> p_maxIdlePer p" "pc \<in> set (stack_of p k) \<Longrightarrow> \<exists>t. op (pc_conn pc) = Some t \<and> key_of p t = k"
    using assms unfolding idle_ok_def by auto
qed

lemma pop_ok:
  assumes "idle_ok p op" "pop k p = (Some pc, p1)"
  shows "idle_ok p1 op" "mset (conns_of (p_idle p1)) + {#pc_conn pc#} = mset (conns_of (p_idle p))"
    "p_closed p1 = p_closed p" "keyFor p1 = keyFor p" "\<exists>t. op (pc_conn pc) = Some t \<and> key_of p t = k"
proof -
  note e = pop_Some(1,2) [OF assms(2)]
  let ?st = "stack_of p1 k"
  have st: "length ?st \<le> p_maxIdlePer p" "\<forall>pc \<in> set ?st. \<exists>t. op (pc_conn pc) = Some t \<and> key_of p t = k"
    using stack_ok(1) [OF assms(1), of k] stack_ok(2) [OF assms(1), of _ k] e(1) by auto
  show "idle_ok p1 op" by (subst e(2)) (rule idle_ok_update [OF assms(1) st])
  have "mset (conns_of (AList.update k ?st (p_idle p))) + mset (map pc_conn (stack_of p k)) =
      mset (conns_of (p_idle p)) + mset (map pc_conn ?st)"
    by (rule mset_conns_stack [OF assms(1)])
  then have "mset (conns_of (AList.update k ?st (p_idle p))) + {#pc_conn pc#} = mset (conns_of (p_idle p))"
    using e(1) by simp
  moreover have "p_idle p1 = AList.update k ?st (p_idle p)" by (subst e(2)) simp
  ultimately show "mset (conns_of (p_idle p1)) + {#pc_conn pc#} = mset (conns_of (p_idle p))" by simp
  show "p_closed p1 = p_closed p" "keyFor p1 = keyFor p" by (subst e(2), simp)+
  show "\<exists>t. op (pc_conn pc) = Some t \<and> key_of p t = k" using stack_ok(2) [OF assms(1), of pc k] e(1) by simp
qed

lemma put_ok:
  assumes "idle_ok p op" "op c = Some t0" "key_of p t0 = k"
  shows "idle_ok (pool_put now b k c p) op" "keyFor (pool_put now b k c p) = keyFor p"
    "mset (conns_of (p_idle (pool_put now b k c p))) + mset (p_closed (pool_put now b k c p)) =
     mset (conns_of (p_idle p)) + mset (p_closed p) + {#c#}"
proof -
  let ?st = "stack_of p k @ [\<lparr>pc_conn = c, pc_idleSince = now\<rparr>]"
  have ok: "\<not> length (stack_of p k) \<ge> p_maxIdlePer p \<Longrightarrow> idle_ok (p\<lparr>p_idle := AList.update k ?st (p_idle p)\<rparr>) op"
    by (rule idle_ok_update [OF assms(1)]) (use stack_ok(2) [OF assms(1), of _ k] assms(2,3) in auto)
  show "idle_ok (pool_put now b k c p) op" using ok assms(1) by (simp add: pool_put_def)
  show "keyFor (pool_put now b k c p) = keyFor p" by (simp add: pool_put_def)
  have "mset (conns_of (AList.update k ?st (p_idle p))) = mset (conns_of (p_idle p)) + {#c#}"
    using mset_conns_stack [OF assms(1), of k ?st] by simp
  then show "mset (conns_of (p_idle (pool_put now b k c p))) + mset (p_closed (pool_put now b k c p)) =
     mset (conns_of (p_idle p)) + mset (p_closed p) + {#c#}"
    by (simp add: pool_put_def)
qed

lemma mset_conns_split:
  "mset (conns_of (filter P idle)) + mset (conns_of (filter (\<lambda>e. \<not> P e) idle)) = mset (conns_of idle)"
  by (induction idle) auto

lemma mset_conns_stale:
  "mset (conns_of (map (\<lambda>(key, stack). (key, filter (\<lambda>pc. \<not> Q pc) stack)) idle)) +
   mset (conns_of (map (\<lambda>(key, stack). (key, filter Q stack)) idle)) = mset (conns_of idle)"
proof (induction idle)
  case (Cons e idle)
  obtain k st where e: "e = (k, st)" by (cases e)
  have "mset (map pc_conn (filter (\<lambda>pc. \<not> Q pc) st)) + mset (map pc_conn (filter Q st)) = mset (map pc_conn st)"
    by (induction st) auto
  with Cons e show ?case by (simp add: ac_simps)
qed simp

lemma conns_nonempty: "conns_of (filter (\<lambda>(key, stack). stack \<noteq> []) idle) = conns_of idle"
  by (induction idle) auto

lemma evict_ok:
  assumes "idle_ok p op"
  shows "idle_ok (evictSource src p) op" "keyFor (evictSource src p) = keyFor p"
    "mset (conns_of (p_idle (evictSource src p))) + mset (p_closed (evictSource src p)) =
     mset (conns_of (p_idle p)) + mset (p_closed p)"
proof -
  show "idle_ok (evictSource src p) op"
    using assms by (auto simp: evictSource_def Let_def idle_ok_def distinct_map_filter)
  show "keyFor (evictSource src p) = keyFor p" by (simp add: evictSource_def Let_def)
  have "mset (conns_of (filter (\<lambda>(key, stack). k_srcIP key \<noteq> src) (p_idle p))) +
      mset (conns_of (filter (\<lambda>(key, stack). k_srcIP key = src) (p_idle p))) = mset (conns_of (p_idle p))"
    using mset_conns_split [of "\<lambda>(key, stack). k_srcIP key \<noteq> src" "p_idle p"] by (simp add: case_prod_beta')
  then show "mset (conns_of (p_idle (evictSource src p))) + mset (p_closed (evictSource src p)) =
     mset (conns_of (p_idle p)) + mset (p_closed p)"
    by (simp add: evictSource_def Let_def ac_simps)
qed

lemma sweep_ok:
  assumes "idle_ok p op"
  shows "idle_ok (sweep now p) op" "keyFor (sweep now p) = keyFor p"
    "mset (conns_of (p_idle (sweep now p))) + mset (p_closed (sweep now p)) = mset (conns_of (p_idle p)) + mset (p_closed p)"
proof -
  let ?kept = "map (\<lambda>(key, stack). (key, filter (\<lambda>pc. \<not> stale now p pc) stack)) (p_idle p)"
  have k: "map fst ?kept = map fst (p_idle p)" by (induction "p_idle p") auto
  have "distinct (map fst ?kept)" unfolding k using assms by (simp add: idle_ok_def)
  then have d: "distinct (map fst (filter (\<lambda>(key, stack). stack \<noteq> []) ?kept))" by (rule distinct_map_filter)
  have kept: "length s \<le> p_maxIdlePer p \<and> (\<forall>pc \<in> set s. \<exists>t. op (pc_conn pc) = Some t \<and> key_of p t = k)"
    if ks: "(k, s) \<in> set ?kept" for k s
  proof -
    obtain s0 where s0: "(k, s0) \<in> set (p_idle p)" "s = filter (\<lambda>pc. \<not> stale now p pc) s0"
      using ks by auto
    have "length s \<le> length s0" "set s \<subseteq> set s0" unfolding s0(2) by auto
    moreover have "length s0 \<le> p_maxIdlePer p" "\<forall>pc \<in> set s0. \<exists>t. op (pc_conn pc) = Some t \<and> key_of p t = k"
      using assms s0(1) unfolding idle_ok_def by blast+
    ultimately show ?thesis by (meson le_trans subsetD)
  qed
  have "idle_ok (p\<lparr>p_idle := filter (\<lambda>(key, stack). stack \<noteq> []) ?kept\<rparr>) op"
  proof (rule idle_ok_new [OF d], rule kept)
    fix k s
    assume "(k, s) \<in> set (filter (\<lambda>(key, stack). stack \<noteq> []) ?kept)"
    then show "(k, s) \<in> set ?kept" by (simp only: set_filter mem_Collect_eq)
  qed
  then show "idle_ok (sweep now p) op" by (simp add: sweep_def Let_def)
  show "keyFor (sweep now p) = keyFor p" by (simp add: sweep_def Let_def)
  show "mset (conns_of (p_idle (sweep now p))) + mset (p_closed (sweep now p)) = mset (conns_of (p_idle p)) + mset (p_closed p)"
    using mset_conns_stale [of "stale now p" "p_idle p"]
    by (simp add: sweep_def Let_def conns_nonempty ac_simps)
qed

lemma closeAll_ok:
  "idle_ok (closeAll p) op" "keyFor (closeAll p) = keyFor p"
  "mset (conns_of (p_idle (closeAll p))) + mset (p_closed (closeAll p)) = mset (conns_of (p_idle p)) + mset (p_closed p)"
  by (simp_all add: closeAll_def) (simp add: idle_ok_def)

lemma mset_set_insert_use:
  assumes "finite (dom u)" "u c = None" shows "mset_set (dom (u(c \<mapsto> t))) = mset_set (dom u) + {#c#}"
  using assms by (simp add: domIff)

lemma mset_set_remove_use:
  assumes "finite (dom u)" "u c = Some t" shows "mset_set (dom (u(c := None))) + {#c#} = mset_set (dom u)"
proof -
  have "dom u = insert c (dom u - {c})" using assms(2) by auto
  then have "mset_set (dom u) = mset_set (dom u - {c}) + {#c#}"
    using assms(1) by (metis DiffD2 add_mset_add_single finite_Diff insertI1 mset_set.insert)
  then show ?thesis by simp
qed

text \<open>A connection in the pool or being closed is in use by nobody.\<close>

lemma idle_not_used:
  assumes "pool_ok s" "c \<in># mset (conns_of (p_idle (ps_pool s)))"
  shows "ps_use s c = None"
proof (rule ccontr)
  assume "ps_use s c \<noteq> None"
  then have "c \<in># mset_set (dom (ps_use s))" using assms(1) by (simp add: pool_ok_def domIff)
  then have "1 \<le> count (mset_set (dom (ps_use s))) c" by (simp only: count_greater_eq_one_iff)
  moreover have "1 \<le> count (mset (conns_of (p_idle (ps_pool s)))) c"
    using assms(2) by (simp only: count_greater_eq_one_iff)
  ultimately have "2 \<le> count (held s) c" unfolding held_def count_union by linarith
  moreover have "count (held s) c \<le> 1" using assms(1) by (simp add: pool_ok_def count_mset_set')
  ultimately show False by simp
qed

lemma fresh_not_used: "pool_ok s \<Longrightarrow> ps_use s (ps_next s) = None"
  by (fastforce simp: pool_ok_def)

lemma pool_step_ok:
  assumes "pool_step s s'" "pool_ok s"
  shows "pool_ok s'"
  using assms(1)
proof cases
  case (dial t)
  have ok: "idle_ok (ps_pool s) (ps_opened s)" "finite (dom (ps_use s))" "held s = mset [0..<ps_next s]"
    "dom (ps_opened s) = {..<ps_next s}"
    and use: "\<forall>c t. ps_use s c = Some t \<longrightarrow> (\<exists>t0. ps_opened s c = Some t0 \<and> key_of (ps_pool s) t0 = key_of (ps_pool s) t)"
    using assms(2) by (simp_all add: pool_ok_def)
  have new: "ps_opened s (ps_next s) = None" using ok(4) by (metis domIff lessThan_iff less_irrefl)
  have "idle_ok (ps_pool s) ((ps_opened s)(ps_next s \<mapsto> t))"
    using ok(1) new unfolding idle_ok_def by (fastforce split: prod.splits)
  moreover have "held s' = mset [0..<ps_next s']"
    using ok(3) mset_set_insert_use [OF ok(2) fresh_not_used [OF assms(2)], of t] unfolding dial held_def by simp
  moreover have "\<forall>c t'. ps_use s' c = Some t' \<longrightarrow>
      (\<exists>t0. ps_opened s' c = Some t0 \<and> key_of (ps_pool s') t0 = key_of (ps_pool s') t')"
    using use new unfolding dial by auto
  ultimately show ?thesis
    using ok unfolding pool_ok_def dial by (simp add: lessThan_Suc)
next
  case (get_hit t pc p1 connAlive now)
  have i: "idle_ok (ps_pool s) (ps_opened s)" using assms(2) by (simp add: pool_ok_def)
  note p = pop_ok [OF i get_hit(2)]
  have "pc_conn pc \<in># mset (conns_of (p_idle (ps_pool s)))" unfolding p(2) [symmetric] by simp
  then have "ps_use s (pc_conn pc) = None" by (rule idle_not_used [OF assms(2)])
  then show ?thesis
    using assms(2) p mset_set_insert_use [of "ps_use s" "pc_conn pc" t] get_hit(1)
    by (auto simp: pool_ok_def held_def simp flip: p(2))
next
  case (get_drop t pc p1 connAlive now)
  have i: "idle_ok (ps_pool s) (ps_opened s)" using assms(2) by (simp add: pool_ok_def)
  note p = pop_ok [OF i get_drop(2)]
  show ?thesis
    using assms(2) p(1,3,4) get_drop(1) by (auto simp: pool_ok_def held_def simp flip: p(2))
next
  case (put_back c t now buffered)
  obtain t0 where t0: "ps_opened s c = Some t0" "key_of (ps_pool s) t0 = key_of (ps_pool s) t"
    using assms(2) put_back(2) unfolding pool_ok_def by blast
  have i: "idle_ok (ps_pool s) (ps_opened s)" "finite (dom (ps_use s))" using assms(2) by (simp_all add: pool_ok_def)
  note p = put_ok [OF i(1) t0, of now buffered]
  have "held s' = held s"
    using p(3) mset_set_remove_use [OF i(2) put_back(2)] unfolding held_def put_back(1)
    by (simp add: ac_simps)
  then show ?thesis using assms(2) p(1,2) put_back(1) by (auto simp: pool_ok_def)
next
  case (close_use c t)
  have f: "finite (dom (ps_use s))" using assms(2) by (simp add: pool_ok_def)
  have "held s' = held s"
    using mset_set_remove_use [OF f close_use(2)] unfolding held_def close_use(1) by (simp add: ac_simps)
  then show ?thesis using assms(2) close_use(1) by (auto simp: pool_ok_def)
next
  case (evict src)
  have i: "idle_ok (ps_pool s) (ps_opened s)" using assms(2) by (simp add: pool_ok_def)
  show ?thesis using assms(2) evict_ok [OF i, of src] unfolding evict by (simp add: pool_ok_def held_def ac_simps)
next
  case (sweeping now)
  have i: "idle_ok (ps_pool s) (ps_opened s)" using assms(2) by (simp add: pool_ok_def)
  show ?thesis using assms(2) sweep_ok [OF i, of now] unfolding sweeping by (simp add: pool_ok_def held_def ac_simps)
next
  case shutdown
  show ?thesis using assms(2) closeAll_ok [of "ps_pool s"] unfolding shutdown by (simp add: pool_ok_def held_def ac_simps)
qed

interpretation poolsys: invariant_system pool_init pool_step pool_ok
proof
  show "pool_init s \<Longrightarrow> pool_ok s" for s
    by (auto simp: pool_init_def pool_ok_def held_def idle_ok_def newUpstreamPool_def)
qed (rule pool_step_ok)

text \<open>After the shutdown nothing is pooled any more, and the cap never changes.\<close>

definition pool_shut_ok :: "pool_sys \<Rightarrow> bool" where
  "pool_shut_ok s \<longleftrightarrow> p_maxIdlePer (ps_pool s) = 8 \<and> (p_isClosed (ps_pool s) \<longrightarrow> p_idle (ps_pool s) = [])"

lemma pool_shut_step: "pool_step s s' \<Longrightarrow> pool_shut_ok s \<Longrightarrow> pool_shut_ok s'"
proof (induction rule: pool_step.induct)
  case (get_hit s t pc p1 connAlive now)
  have "p_isClosed p1 = p_isClosed (ps_pool s)" "p_maxIdlePer p1 = p_maxIdlePer (ps_pool s)"
    by (subst pop_Some(2) [OF get_hit(1)], simp)+
  then show ?case using pop_Some(4) [OF get_hit(1)] get_hit(3) by (simp add: pool_shut_ok_def)
next
  case (get_drop s t pc p1 connAlive now)
  have "p_isClosed p1 = p_isClosed (ps_pool s)" "p_maxIdlePer p1 = p_maxIdlePer (ps_pool s)"
    by (subst pop_Some(2) [OF get_drop(1)], simp)+
  then show ?case using pop_Some(4) [OF get_drop(1)] get_drop(3) by (simp add: pool_shut_ok_def close_conns_def)
qed (auto simp: pool_shut_ok_def pool_put_def evictSource_def sweep_def closeAll_def close_conns_def Let_def)

interpretation poolshut: invariant_system pool_init pool_step pool_shut_ok
proof
  show "pool_init s \<Longrightarrow> pool_shut_ok s" for s
    by (auto simp: pool_init_def pool_shut_ok_def newUpstreamPool_def)
qed (rule pool_shut_step)

section \<open>Isolation\<close>

text \<open>
  C33: whatever requests of whatever sandboxes dial, take, return and drop connections, and however
  evictions, sweeps and the shutdown interleave with them: a connection in use by a request was
  opened for the same dial address and the same TLS host, and, unless the pool is shared by the
  pod, for the same source; no connection is in two places (in use, idle, closed) or lost; at
  most eight are idle for a key; and a pool that is shut down holds none.
\<close>

theorem pool_isolates_sources:
  assumes "reachable pool_init pool_step s"
  shows "(\<forall>c t. ps_use s c = Some t \<longrightarrow>
      (\<exists>t0. ps_opened s c = Some t0 \<and> rq_dialAddr t0 = rq_dialAddr t \<and> rq_host t0 = rq_host t \<and>
        (\<not> p_shared (ps_pool s) \<longrightarrow> rq_srcIP t0 = rq_srcIP t))) \<and>
    mset (conns_of (p_idle (ps_pool s))) + mset_set (dom (ps_use s)) + mset (p_closed (ps_pool s)) = mset [0..<ps_next s] \<and>
    (\<forall>key. length (stack_of (ps_pool s) key) \<le> 8) \<and>
    (p_isClosed (ps_pool s) \<longrightarrow> p_idle (ps_pool s) = [])"
proof (intro conjI)
  have ok: "pool_ok s" by (rule poolsys.reach_inv [OF assms])
  have shut: "pool_shut_ok s" by (rule poolshut.reach_inv [OF assms])
  show "\<forall>c t. ps_use s c = Some t \<longrightarrow>
      (\<exists>t0. ps_opened s c = Some t0 \<and> rq_dialAddr t0 = rq_dialAddr t \<and> rq_host t0 = rq_host t \<and>
        (\<not> p_shared (ps_pool s) \<longrightarrow> rq_srcIP t0 = rq_srcIP t))"
    using ok unfolding pool_ok_def keyFor_def by fastforce
  show "mset (conns_of (p_idle (ps_pool s))) + mset_set (dom (ps_use s)) + mset (p_closed (ps_pool s)) = mset [0..<ps_next s]"
    using ok unfolding pool_ok_def held_def by blast
  show "\<forall>key. length (stack_of (ps_pool s) key) \<le> 8"
    using ok shut stack_ok(1) unfolding pool_ok_def pool_shut_ok_def by metis
  show "p_isClosed (ps_pool s) \<longrightarrow> p_idle (ps_pool s) = []" using shut by (simp add: pool_shut_ok_def)
qed

text \<open>
  A lookup hands out the newest idle connection of its key that is young enough and alive, closes
  the unusable ones above it, newest first, keeps the older ones below it and touches no
  other key.
\<close>

theorem pool_get_newest:
  assumes "\<not> p_isClosed p" "stack_of p key = older @ pc # newer" "usable connAlive now p pc"
    "\<forall>d \<in> set newer. \<not> usable connAlive now p d"
  shows "fst (pool_get connAlive now key p) = Some (pc_conn pc) \<and>
    stack_of (snd (pool_get connAlive now key p)) key = older \<and>
    p_closed (snd (pool_get connAlive now key p)) = p_closed p @ map pc_conn (rev newer) \<and>
    (\<forall>key'. key' \<noteq> key \<longrightarrow> stack_of (snd (pool_get connAlive now key p)) key' = stack_of p key')"
  using assms
proof (induction newer arbitrary: p rule: rev_induct)
  case Nil
  then show ?case by (subst (1 2 3 4) pool_get.simps) (simp add: pop_def Let_def)
next
  case (snoc d newer)
  let ?p = "close_conns [pc_conn d] (p\<lparr>p_idle := AList.update key (older @ pc # newer) (p_idle p)\<rparr>)"
  have "pool_get connAlive now key p = pool_get connAlive now key ?p"
    using snoc.prems by (subst pool_get.simps) (simp add: pop_def Let_def butlast_append)
  moreover have "usable connAlive now ?p = usable connAlive now p" by (simp add: usable_def fun_eq_iff)
  moreover have "\<not> p_isClosed ?p" using snoc.prems(1) by (simp add: close_conns_def)
  ultimately show ?case using snoc.IH [of ?p] snoc.prems by simp
qed

section \<open>Witnesses\<close>

definition rq :: "string \<Rightarrow> request" where
  "rq src = \<lparr>rq_srcIP = src, rq_dialAddr = ''9.9.9.9:443'', rq_host = ''h''\<rparr>"

definition pool_start :: pool_sys where
  "pool_start = \<lparr>ps_pool = newUpstreamPool False, ps_use = (\<lambda>_. None), ps_opened = (\<lambda>_. None), ps_next = 0\<rparr>"

definition pool_dialled :: pool_sys where
  "pool_dialled = pool_start\<lparr>ps_use := [0 \<mapsto> rq ''a''], ps_opened := [0 \<mapsto> rq ''a''], ps_next := 1\<rparr>"

lemma pool_dialled_reachable: "reachable pool_init pool_step pool_dialled"
proof (rule reach_next)
  show "reachable pool_init pool_step pool_start"
    by (rule reach_init) (auto simp: pool_init_def pool_start_def)
  show "pool_step pool_start pool_dialled"
    using pool_step.dial [of pool_start "rq ''a''"] by (simp add: pool_start_def pool_dialled_def)
qed

theorem pool_isolates_sources_witness:
  "ps_use pool_dialled 0 = Some (rq ''a'') \<and> p_closed (ps_pool pool_dialled) = [] \<and>
   (\<exists>t0. ps_opened pool_dialled 0 = Some t0 \<and> rq_srcIP t0 = ''a'')"
proof -
  have use: "ps_use pool_dialled 0 = Some (rq ''a'')" "\<not> p_shared (ps_pool pool_dialled)"
    "p_closed (ps_pool pool_dialled) = []"
    by (simp_all add: pool_dialled_def pool_start_def newUpstreamPool_def)
  with pool_isolates_sources [OF pool_dialled_reachable] show ?thesis by (fastforce simp: rq_def)
qed

definition pool_two :: upstreamPool where
  "pool_two = pool_put 5 0 (keyFor (newUpstreamPool False) ''a'' ''9.9.9.9:443'' ''h'') 1
     (pool_put 3 0 (keyFor (newUpstreamPool False) ''a'' ''9.9.9.9:443'' ''h'') 0 (newUpstreamPool False))"

theorem pool_get_newest_witness:
  "fst (pool_get (\<lambda>c. c = 0) 7 (keyFor (newUpstreamPool False) ''a'' ''9.9.9.9:443'' ''h'') pool_two) = Some 0 \<and>
   p_closed (snd (pool_get (\<lambda>c. c = 0) 7 (keyFor (newUpstreamPool False) ''a'' ''9.9.9.9:443'' ''h'') pool_two)) = [1]"
proof -
  let ?k = "keyFor (newUpstreamPool False) ''a'' ''9.9.9.9:443'' ''h''"
  have st: "stack_of pool_two ?k = [] @ \<lparr>pc_conn = 0, pc_idleSince = 3\<rparr> # [\<lparr>pc_conn = 1, pc_idleSince = 5\<rparr>]"
    "\<not> p_isClosed pool_two" "p_closed pool_two = []"
    by (simp_all add: pool_two_def pool_put_def stack_of_def newUpstreamPool_def)
  show ?thesis
    using pool_get_newest [OF st(2) st(1), of "\<lambda>c. c = 0" 7] st(3)
    by (simp add: usable_def pool_two_def pool_put_def stack_of_def newUpstreamPool_def)
qed

end
