(* ===== verification/Hostfs.thy ===== *)
theory Hostfs
  imports Prelude "HOL-Library.List_Lexorder" "HOL-Library.Char_ord"
begin

text \<open>
  The file system of the host as the Go package \<^verbatim>\<open>os\<close> and \<^verbatim>\<open>path/filepath\<close> present it to
  sandboxd: inodes at absolute locations, component-wise path resolution with symbolic links
  (at most forty of them, the limit of Linux), and the calls the snapshot code makes.  Times,
  hard links, the umask and failures for lack of resources are left out.
\<close>

section \<open>Inodes\<close>

datatype file_kind = Dir | Reg string | Lnk string | Fifo | Device | Socket

record inode =
  i_mode :: nat
  i_uid :: int
  i_gid :: int
  i_kind :: file_kind

type_synonym location = "string list"
type_synonym hostfs = "(location \<times> inode) list"

datatype errno = ENOENT | ENOTDIR | ELOOP | EEXIST | EISDIR | ENOTEMPTY | ENXIO | EBUSY

text \<open>The root directory is always there.\<close>

definition root_inode :: inode where
  "root_inode = \<lparr>i_mode = 493, i_uid = 0, i_gid = 0, i_kind = Dir\<rparr>"

definition node_at :: "hostfs \<Rightarrow> location \<Rightarrow> inode option" where
  "node_at fs p = (if p = [] then Some root_inode else map_of fs p)"

definition is_link :: "hostfs \<Rightarrow> location \<Rightarrow> bool" where
  "is_link fs p = (case node_at fs p of Some i \<Rightarrow> (case i_kind i of Lnk _ \<Rightarrow> True | _ \<Rightarrow> False) | None \<Rightarrow> False)"

definition is_dir :: "hostfs \<Rightarrow> location \<Rightarrow> bool" where
  "is_dir fs p = (case node_at fs p of Some i \<Rightarrow> i_kind i = Dir | None \<Rightarrow> False)"

section \<open>Path resolution\<close>

text \<open>
  \<open>namei fs follow n cur segs\<close> resolves the components \<open>segs\<close> from the directory \<open>cur\<close>, with
  \<open>n\<close> more symbolic links allowed; a link in the last place is followed only on demand.  The
  last component may be missing.
\<close>

function namei :: "hostfs \<Rightarrow> bool \<Rightarrow> nat \<Rightarrow> location \<Rightarrow> string list \<Rightarrow> errno + location" where
  "namei fs follow n cur [] = Inr cur"
| "namei fs follow n cur (s # ss) =
     (if s = [] \<or> s = ''.'' then namei fs follow n cur ss
      else if s = ''..'' then namei fs follow n (butlast cur) ss
      else (case map_of fs (cur @ [s]) of
              None \<Rightarrow> if ss = [] then Inr (cur @ [s]) else Inl ENOENT
            | Some i \<Rightarrow>
                (case i_kind i of
                   Lnk t \<Rightarrow>
                     if ss = [] \<and> \<not> follow then Inr (cur @ [s])
                     else if n = 0 then Inl ELOOP
                     else namei fs follow (n - 1) (if HasPrefix t ''/'' then [] else cur) (Split slash t @ ss)
                 | Dir \<Rightarrow> namei fs follow n (cur @ [s]) ss
                 | _ \<Rightarrow> if ss = [] then Inr (cur @ [s]) else Inl ENOTDIR)))"
  by pat_completeness auto

termination
  by (relation "measures [\<lambda>(fs, follow, n, cur, ss). n, \<lambda>(fs, follow, n, cur, ss). length ss]") auto

definition max_links :: nat where
  "max_links = 40"

definition resolve :: "hostfs \<Rightarrow> bool \<Rightarrow> string \<Rightarrow> errno + location" where
  "resolve fs follow p = namei fs follow max_links [] (Split slash p)"

section \<open>Calls\<close>

definition lookup_at :: "bool \<Rightarrow> hostfs \<Rightarrow> string \<Rightarrow> errno + inode" where
  "lookup_at follow fs p =
     (case resolve fs follow p of
        Inl e \<Rightarrow> Inl e
      | Inr l \<Rightarrow> (case node_at fs l of None \<Rightarrow> Inl ENOENT | Some i \<Rightarrow> Inr i))"

abbreviation Stat :: "hostfs \<Rightarrow> string \<Rightarrow> errno + inode" where "Stat \<equiv> lookup_at True"

abbreviation Lstat :: "hostfs \<Rightarrow> string \<Rightarrow> errno + inode" where "Lstat \<equiv> lookup_at False"

definition create_at :: "inode \<Rightarrow> string \<Rightarrow> hostfs \<Rightarrow> errno option \<times> hostfs" where
  "create_at i p fs =
     (case resolve fs False p of
        Inl e \<Rightarrow> (Some e, fs)
      | Inr l \<Rightarrow> if node_at fs l \<noteq> None then (Some EEXIST, fs) else (None, AList.update l i fs))"

definition Mkdir :: "nat \<Rightarrow> string \<Rightarrow> hostfs \<Rightarrow> errno option \<times> hostfs" where
  "Mkdir mode = create_at \<lparr>i_mode = mode, i_uid = 0, i_gid = 0, i_kind = Dir\<rparr>"

definition os_Symlink :: "string \<Rightarrow> string \<Rightarrow> hostfs \<Rightarrow> errno option \<times> hostfs" where
  "os_Symlink target = create_at \<lparr>i_mode = 511, i_uid = 0, i_gid = 0, i_kind = Lnk target\<rparr>"

text \<open>\<^verbatim>\<open>os.MkdirAll\<close>: the missing directories from the top down.\<close>

fun mkdir_all :: "nat \<Rightarrow> string list \<Rightarrow> string list \<Rightarrow> hostfs \<Rightarrow> errno option \<times> hostfs" where
  "mkdir_all mode ds [] fs = (None, fs)"
| "mkdir_all mode ds (s # ss) fs =
     (let p = abs_path (ds @ [s]) in
      case Stat fs p of
        Inr i \<Rightarrow> if i_kind i = Dir then mkdir_all mode (ds @ [s]) ss fs else (Some ENOTDIR, fs)
      | Inl _ \<Rightarrow>
          (case Mkdir mode p fs of
             (None, fs1) \<Rightarrow> mkdir_all mode (ds @ [s]) ss fs1
           | (Some e, fs1) \<Rightarrow>
               (case Lstat fs1 p of
                  Inr i \<Rightarrow> if i_kind i = Dir then mkdir_all mode (ds @ [s]) ss fs1 else (Some e, fs1)
                | Inl _ \<Rightarrow> (Some e, fs1))))"

text \<open>The components of a path.\<close>

definition loc :: "string \<Rightarrow> location" where
  "loc p = filter (\<lambda>s. s \<noteq> []) (Split slash p)"

definition MkdirAll :: "nat \<Rightarrow> string \<Rightarrow> hostfs \<Rightarrow> errno option \<times> hostfs" where
  "MkdirAll mode p fs = mkdir_all mode [] (loc p) fs"

definition update_at :: "bool \<Rightarrow> (inode \<Rightarrow> inode) \<Rightarrow> string \<Rightarrow> hostfs \<Rightarrow> errno option \<times> hostfs" where
  "update_at follow f p fs =
     (case resolve fs follow p of
        Inl e \<Rightarrow> (Some e, fs)
      | Inr l \<Rightarrow>
          if l = [] then (Some EBUSY, fs)
          else (case map_of fs l of
             None \<Rightarrow> (Some ENOENT, fs)
           | Some i \<Rightarrow> (None, AList.update l (f i) fs)))"

definition Chmod :: "nat \<Rightarrow> string \<Rightarrow> hostfs \<Rightarrow> errno option \<times> hostfs" where
  "Chmod mode = update_at True (\<lambda>i. i\<lparr>i_mode := mode\<rparr>)"

definition Lchown :: "int \<Rightarrow> int \<Rightarrow> string \<Rightarrow> hostfs \<Rightarrow> errno option \<times> hostfs" where
  "Lchown uid gid = update_at False (\<lambda>i. i\<lparr>i_uid := uid, i_gid := gid\<rparr>)"

definition os_Remove :: "string \<Rightarrow> hostfs \<Rightarrow> errno option \<times> hostfs" where
  "os_Remove p fs =
     (case resolve fs False p of
        Inl e \<Rightarrow> (Some e, fs)
      | Inr l \<Rightarrow>
          if l = [] then (Some EBUSY, fs)
          else (case map_of fs l of
             None \<Rightarrow> (Some ENOENT, fs)
           | Some i \<Rightarrow>
               if i_kind i = Dir \<and> list_ex (\<lambda>(q, _). strict_prefix l q) fs then (Some ENOTEMPTY, fs)
               else (None, AList.delete l fs)))"

text \<open>
  \<^verbatim>\<open>os.OpenFile\<close> with \<^verbatim>\<open>O_CREATE|O_WRONLY|O_TRUNC\<close> followed by writing \<open>body\<close>: a link in the
  last place is followed, also to a file that does not exist yet.
\<close>

definition write_file :: "nat \<Rightarrow> string \<Rightarrow> string \<Rightarrow> hostfs \<Rightarrow> errno option \<times> hostfs" where
  "write_file mode body p fs =
     (case resolve fs True p of
        Inl e \<Rightarrow> (Some e, fs)
      | Inr l \<Rightarrow>
          (case node_at fs l of
             None \<Rightarrow> (None, AList.update l \<lparr>i_mode = mode, i_uid = 0, i_gid = 0, i_kind = Reg body\<rparr> fs)
           | Some i \<Rightarrow>
               (case i_kind i of
                  Reg _ \<Rightarrow> (None, AList.update l (i\<lparr>i_kind := Reg body\<rparr>) fs)
                | Dir \<Rightarrow> (Some EISDIR, fs)
                | _ \<Rightarrow> (Some ENXIO, fs))))"

definition ReadFile :: "hostfs \<Rightarrow> string \<Rightarrow> errno + string" where
  "ReadFile fs p =
     (case Stat fs p of
        Inl e \<Rightarrow> Inl e
      | Inr i \<Rightarrow> (case i_kind i of Reg body \<Rightarrow> Inr body | Dir \<Rightarrow> Inl EISDIR | _ \<Rightarrow> Inl ENXIO))"

definition os_Rename :: "string \<Rightarrow> string \<Rightarrow> hostfs \<Rightarrow> errno option \<times> hostfs" where
  "os_Rename src dst fs =
     (case (resolve fs False src, resolve fs False dst) of
        (Inr a, Inr b) \<Rightarrow>
          (case map_of fs a of
             None \<Rightarrow> (Some ENOENT, fs)
           | Some i \<Rightarrow>
               if is_dir fs b \<or> i_kind i = Dir then (Some EISDIR, fs)
               else if a = b then (None, fs)
               else (None, AList.update b i (AList.delete a fs)))
      | (Inl e, _) \<Rightarrow> (Some e, fs)
      | (Inr _, Inl e) \<Rightarrow> (Some e, fs))"

text \<open>
  \<^verbatim>\<open>filepath.Walk\<close>: the root as \<^verbatim>\<open>Lstat\<close> sees it and everything below it, directories before
  their entries and the entries of a directory in the order of their names, each with
  its path relative to the root.
\<close>

definition filepath_Walk :: "hostfs \<Rightarrow> string \<Rightarrow> errno + (location \<times> inode) list" where
  "filepath_Walk fs p =
     (case resolve fs False p of
        Inl e \<Rightarrow> Inl e
      | Inr l \<Rightarrow>
          (case node_at fs l of
             None \<Rightarrow> Inl ENOENT
           | Some i \<Rightarrow>
               Inr (([], i) # map (\<lambda>r. (r, the (map_of fs (l @ r))))
                 (sort (remdups (map (drop (length l)) (filter (strict_prefix l) (map fst fs))))))))"

section \<open>Resolution without links\<close>

text \<open>No proper prefix of the location is a link.\<close>

definition unlinked :: "hostfs \<Rightarrow> location \<Rightarrow> bool" where
  "unlinked fs p \<longleftrightarrow> (\<forall>q. strict_prefix q p \<longrightarrow> \<not> is_link fs q)"

lemma node_at_Nil [simp]: "node_at fs [] = Some root_inode"
  by (simp add: node_at_def)

lemma node_at_ne: "p \<noteq> [] \<Longrightarrow> node_at fs p = map_of fs p"
  by (simp add: node_at_def)

lemma root_not_link [simp]: "\<not> is_link fs []"
  by (simp add: is_link_def root_inode_def)

lemma namei_unlinked:
  assumes "\<forall>s \<in> set ss. real_seg s" "\<forall>q. prefix cur q \<and> strict_prefix q (cur @ ss) \<longrightarrow> \<not> is_link fs q"
    "follow \<longrightarrow> \<not> is_link fs (cur @ ss)"
  shows "namei fs follow n cur ss = Inr (cur @ ss) \<or> (\<exists>e. namei fs follow n cur ss = Inl e)"
  using assms
proof (induction ss arbitrary: cur)
  case (Cons s ss)
  have s: "s \<noteq> []" "s \<noteq> ''.''" "s \<noteq> ''..''" using Cons.prems(1) by (simp_all add: real_seg_def)
  show ?case
  proof (cases "map_of fs (cur @ [s])")
    case None
    then show ?thesis using s by simp
  next
    case (Some i)
    have n: "node_at fs (cur @ [s]) = Some i" using Some by (simp add: node_at_ne)
    have l: "ss \<noteq> [] \<or> follow \<longrightarrow> \<not> is_link fs (cur @ [s])"
      using Cons.prems(2,3) by (cases ss) (auto simp: strict_prefix_def)
    have IH: "namei fs follow n (cur @ [s]) ss = Inr (cur @ s # ss) \<or> (\<exists>e. namei fs follow n (cur @ [s]) ss = Inl e)"
      using Cons.IH [of "cur @ [s]"] Cons.prems by (auto simp: prefix_def strict_prefix_def)
    show ?thesis
      using s Some IH l n by (cases "i_kind i") (auto simp: is_link_def)
  qed
qed simp

lemma resolve_unlinked:
  assumes "\<forall>s \<in> set p. real_seg s" "unlinked fs p" "follow \<longrightarrow> \<not> is_link fs p"
  shows "resolve fs follow (abs_path p) = Inr p \<or> (\<exists>e. resolve fs follow (abs_path p) = Inl e)"
proof -
  have "namei fs follow n [] ([] # p) = Inr p \<or> (\<exists>e. namei fs follow n [] ([] # p) = Inl e)" for n
    using namei_unlinked [of p "[]" fs follow n] assms by (auto simp: unlinked_def)
  then have "namei fs follow n [] (Split slash (abs_path p)) = Inr p \<or> (\<exists>e. namei fs follow n [] (Split slash (abs_path p)) = Inl e)" for n
    using assms(1) by (cases "p = []") (auto simp: abs_path_def Split_Join_real)
  then show ?thesis by (simp add: resolve_def)
qed

text \<open>When all of them are directories the location is found.\<close>

lemma namei_dirs:
  assumes "\<forall>s \<in> set ss. real_seg s" "\<forall>q. strict_prefix cur q \<and> strict_prefix q (cur @ ss) \<longrightarrow> is_dir fs q"
    "follow \<longrightarrow> \<not> is_link fs (cur @ ss)"
  shows "namei fs follow n cur ss = Inr (cur @ ss)"
  using assms
proof (induction ss arbitrary: cur)
  case (Cons s ss)
  have s: "s \<noteq> []" "s \<noteq> ''.''" "s \<noteq> ''..''" using Cons.prems(1) by (simp_all add: real_seg_def)
  have IH: "namei fs follow n (cur @ [s]) ss = Inr (cur @ s # ss)"
    using Cons.IH [of "cur @ [s]"] Cons.prems by (auto simp: prefix_def strict_prefix_def)
  show ?case
  proof (cases "ss = []")
    case True
    have "follow \<longrightarrow> \<not> is_link fs (cur @ [s])" using Cons.prems(3) True by simp
    then show ?thesis
      using True s by (auto simp: is_link_def node_at_ne split: option.splits file_kind.splits)
  next
    case False
    have "is_dir fs (cur @ [s])" using Cons.prems(2) False by (auto simp: strict_prefix_def)
    then show ?thesis using s IH by (auto simp: is_dir_def node_at_ne split: option.splits)
  qed
qed simp

lemma resolve_dirs:
  assumes "\<forall>s \<in> set p. real_seg s" "\<forall>q. strict_prefix q p \<longrightarrow> is_dir fs q" "follow \<longrightarrow> \<not> is_link fs p"
  shows "resolve fs follow (abs_path p) = Inr p"
proof -
  have "namei fs follow n [] ([] # p) = Inr p" for n
    using namei_dirs [of p "[]" fs follow n] assms by simp
  then have "namei fs follow n [] (Split slash (abs_path p)) = Inr p" for n
    using assms(1) by (cases "p = []") (auto simp: abs_path_def Split_Join_real)
  then show ?thesis by (simp add: resolve_def)
qed

lemma loc_abs_path [simp]: "\<forall>s \<in> set p. real_seg s \<Longrightarrow> loc (abs_path p) = p"
  by (cases "p = []") (auto simp: loc_def abs_path_def Split_Join_real real_seg_def filter_id_conv)

section \<open>What a call changes\<close>

text \<open>
  At most the locations \<open>W\<close> are written, at most those of \<open>D\<close> disappear and at most those of \<open>K\<close>
  become links.
\<close>

definition frame :: "location set \<Rightarrow> location set \<Rightarrow> location set \<Rightarrow> hostfs \<Rightarrow> hostfs \<Rightarrow> bool" where
  "frame W D K fs fs' \<longleftrightarrow> (\<forall>q. q \<notin> W \<longrightarrow> map_of fs' q = map_of fs q) \<and>
     (\<forall>q. node_at fs q \<noteq> None \<longrightarrow> node_at fs' q \<noteq> None \<or> q \<in> D) \<and> (\<forall>q. is_link fs' q \<longrightarrow> is_link fs q \<or> q \<in> K)"

lemma frame_refl [simp]: "frame W D K fs fs"
  by (simp add: frame_def)

lemma frame_trans: "frame W D K fs fs1 \<Longrightarrow> frame W D K fs1 fs2 \<Longrightarrow> frame W D K fs fs2"
  unfolding frame_def by metis

lemma frame_mono: "frame W D K fs fs' \<Longrightarrow> W \<subseteq> W' \<Longrightarrow> D \<subseteq> D' \<Longrightarrow> K \<subseteq> K' \<Longrightarrow> frame W' D' K' fs fs'"
  unfolding frame_def by blast

lemma frame_unlinked: "frame W D {} fs fs' \<Longrightarrow> unlinked fs p \<Longrightarrow> unlinked fs' p"
  unfolding frame_def unlinked_def by blast

lemma frame_link: "frame W D {} fs fs' \<Longrightarrow> \<not> is_link fs p \<Longrightarrow> \<not> is_link fs' p"
  unfolding frame_def by blast

lemma frame_update:
  assumes "\<And>t. i_kind i = Lnk t \<Longrightarrow> p \<in> K \<or> is_link fs p" shows "frame {p} {} K fs (AList.update p i fs)"
  using assms unfolding frame_def node_at_def is_link_def
  by (auto simp: update_conv' split: file_kind.splits option.splits if_splits)

lemma frame_create_at:
  assumes "\<forall>s \<in> set p. real_seg s" "unlinked fs p" "\<And>t. i_kind i = Lnk t \<Longrightarrow> p \<in> K"
  shows "frame {p} {} K fs (snd (create_at i (abs_path p) fs))"
  using resolve_unlinked [OF assms(1,2), of False] frame_update [of i p K fs] assms(3)
  by (auto simp: create_at_def)

lemma frame_update_at:
  assumes "\<forall>s \<in> set p. real_seg s" "unlinked fs p" "follow \<longrightarrow> \<not> is_link fs p" "\<And>i. i_kind (f i) = i_kind i"
  shows "frame {p} {} {} fs (snd (update_at follow f (abs_path p) fs))"
proof -
  have "frame {p} {} {} fs (AList.update p (f i) fs)" if i: "p \<noteq> []" "map_of fs p = Some i" for i
    by (rule frame_update) (use i assms(4) in \<open>auto simp: is_link_def node_at_def\<close>)
  then show ?thesis
    using resolve_unlinked [OF assms(1-3)] by (auto simp: update_at_def split: option.splits)
qed

lemma frame_os_Remove:
  assumes "\<forall>s \<in> set p. real_seg s" "unlinked fs p"
  shows "frame {p} {p} {} fs (snd (os_Remove (abs_path p) fs))"
proof -
  have "frame {p} {p} {} fs (AList.delete p fs)"
    unfolding frame_def node_at_def is_link_def by (auto simp: delete_conv')
  then show ?thesis
    using resolve_unlinked [OF assms, of False] by (auto simp: os_Remove_def split: option.splits)
qed

lemma frame_write_file:
  assumes "\<forall>s \<in> set p. real_seg s" "unlinked fs p" "\<not> is_link fs p"
  shows "frame {p} {} {} fs (snd (write_file mode body (abs_path p) fs))"
  using resolve_unlinked [OF assms(1,2), of True] assms(3)
  by (auto simp: write_file_def intro!: frame_update split: option.splits file_kind.splits)

lemma frame_Mkdir:
  "\<forall>s \<in> set p. real_seg s \<Longrightarrow> unlinked fs p \<Longrightarrow> frame {p} {} {} fs (snd (Mkdir mode (abs_path p) fs))"
  unfolding Mkdir_def by (rule frame_create_at) simp_all

lemma frame_Chmod:
  "\<forall>s \<in> set p. real_seg s \<Longrightarrow> unlinked fs p \<Longrightarrow> \<not> is_link fs p \<Longrightarrow> frame {p} {} {} fs (snd (Chmod mode (abs_path p) fs))"
  unfolding Chmod_def by (rule frame_update_at) simp_all

lemma frame_Lchown:
  "\<forall>s \<in> set p. real_seg s \<Longrightarrow> unlinked fs p \<Longrightarrow> frame {p} {} {} fs (snd (Lchown uid gid (abs_path p) fs))"
  unfolding Lchown_def by (rule frame_update_at) simp_all

lemma frame_Symlink:
  "\<forall>s \<in> set p. real_seg s \<Longrightarrow> unlinked fs p \<Longrightarrow> frame {p} {} {p} fs (snd (os_Symlink target (abs_path p) fs))"
  unfolding os_Symlink_def by (rule frame_create_at) simp_all

text \<open>\<^verbatim>\<open>MkdirAll\<close> on a path without links only adds what was missing.\<close>

lemma Mkdir_missing:
  assumes "\<forall>s \<in> set p. real_seg s" "unlinked fs p" "Mkdir mode (abs_path p) fs = (None, fs')"
  shows "node_at fs p = None"
  using resolve_unlinked [OF assms(1,2), of False] assms(3)
  by (auto simp: Mkdir_def create_at_def split: if_splits)

lemma Mkdir_failed: "Mkdir mode p fs = (Some e, fs') \<Longrightarrow> fs' = fs"
  by (auto simp: Mkdir_def create_at_def split: sum.splits if_splits)

lemma frame_mkdir_all:
  assumes "\<forall>s \<in> set (ds @ ss). real_seg s" "\<forall>q. prefix q (ds @ ss) \<longrightarrow> \<not> is_link fs q"
  shows "frame {q. prefix q (ds @ ss) \<and> node_at fs q = None} {} {} fs (snd (mkdir_all mode ds ss fs))"
  using assms
proof (induction mode ds ss fs rule: mkdir_all.induct)
  case (2 mode ds s ss fs)
  note IH = 2(1-3) and prems = 2(4,5)
  let ?p = "ds @ [s]" and ?W = "\<lambda>fs. {q. prefix q (ds @ s # ss) \<and> node_at fs q = None}"
  have real: "\<forall>x \<in> set ?p. real_seg x" using prems(1) by simp
  have pre: "prefix ?p (ds @ s # ss)" by (simp add: prefix_def)
  have unl: "unlinked fs ?p"
    using prems(2) prefix_order.trans [OF _ pre] unfolding unlinked_def strict_prefix_def by blast
  show ?case
  proof (cases "Stat fs (abs_path ?p)")
    case (Inr i)
    then show ?thesis using IH(3) [OF refl Inr] prems by (auto simp: Let_def)
  next
    case (Inl e)
    show ?thesis
    proof (cases "Mkdir mode (abs_path ?p) fs")
      case (Pair r fs1)
      show ?thesis
      proof (cases r)
        case None
        have m: "node_at fs ?p = None" using Mkdir_missing [OF real unl] Pair None by simp
        have f: "frame {?p} {} {} fs fs1" using frame_Mkdir [OF real unl, of mode] Pair by simp
        have "frame (?W fs1) {} {} fs1 (snd (mkdir_all mode ?p ss fs1))"
          using IH(1) [OF refl Inl Pair [symmetric] None] prems frame_link [OF f] by simp
        moreover have "?W fs1 \<subseteq> ?W fs" using f unfolding frame_def by auto
        moreover have "{?p} \<subseteq> ?W fs" using m by (auto simp: prefix_def)
        ultimately have "frame (?W fs) {} {} fs (snd (mkdir_all mode ?p ss fs1))"
          using f frame_mono frame_trans by (metis (no_types, lifting) order_refl)
        then show ?thesis using Inl Pair None by (simp add: Let_def)
      next
        case (Some e')
        have eq: "fs1 = fs" using Mkdir_failed Pair Some by blast
        have "frame (?W fs) {} {} fs (snd (mkdir_all mode ?p ss fs))" if "Lstat fs1 (abs_path ?p) = Inr i" "i_kind i = Dir" for i
          using IH(2) [OF refl Inl Pair [symmetric] Some that] prems unfolding eq by simp
        then show ?thesis using Inl Pair Some eq by (auto simp: Let_def split: sum.splits)
      qed
    qed
  qed
qed simp

lemma frame_MkdirAll:
  assumes "\<forall>s \<in> set p. real_seg s" "\<forall>q. prefix q p \<longrightarrow> \<not> is_link fs q"
  shows "frame {q. prefix q p \<and> node_at fs q = None} {} {} fs (snd (MkdirAll mode (abs_path p) fs))"
  using frame_mkdir_all [of "[]" p fs mode] assms by (simp add: MkdirAll_def)

section \<open>Calls below existing directories\<close>

definition dirs_to :: "hostfs \<Rightarrow> location \<Rightarrow> bool" where
  "dirs_to fs p \<longleftrightarrow> (\<forall>s \<in> set p. real_seg s) \<and> (\<forall>q. strict_prefix q p \<longrightarrow> is_dir fs q)"

lemma resolve_dirs_to: "dirs_to fs p \<Longrightarrow> (follow \<longrightarrow> \<not> is_link fs p) \<Longrightarrow> resolve fs follow (abs_path p) = Inr p"
  by (intro resolve_dirs) (auto simp: dirs_to_def)

lemma is_dirD: "is_dir fs p \<Longrightarrow> \<exists>i. node_at fs p = Some i \<and> i_kind i = Dir"
  by (auto simp: is_dir_def split: option.splits)

lemma is_dir_not_link: "is_dir fs q \<Longrightarrow> \<not> is_link fs q"
  by (auto simp: is_dir_def is_link_def split: option.splits)

lemma missing_not_link: "node_at fs q = None \<Longrightarrow> \<not> is_link fs q"
  by (simp add: is_link_def)

lemma Stat_dir: "dirs_to fs p \<Longrightarrow> is_dir fs p \<Longrightarrow> \<exists>i. Stat fs (abs_path p) = Inr i \<and> i_kind i = Dir"
  using resolve_dirs_to [of fs p True] is_dirD [of fs p] by (auto simp: lookup_at_def dest: is_dir_not_link)

lemma lookup_missing: "dirs_to fs p \<Longrightarrow> node_at fs p = None \<Longrightarrow> lookup_at follow fs (abs_path p) = Inl ENOENT"
  using resolve_dirs_to [of fs p follow] by (simp add: lookup_at_def missing_not_link)

lemma dirs_to_prefix: "dirs_to fs p \<Longrightarrow> prefix q p \<Longrightarrow> dirs_to fs q"
  unfolding dirs_to_def by (meson set_mono_prefix subsetD prefix_order.less_le_trans)

lemma create_new:
  "dirs_to fs p \<Longrightarrow> node_at fs p = None \<Longrightarrow> create_at i (abs_path p) fs = (None, AList.update p i fs)"
  using resolve_dirs_to [of fs p False] by (simp add: create_at_def)

lemma update_existing:
  "dirs_to fs p \<Longrightarrow> p \<noteq> [] \<Longrightarrow> map_of fs p = Some i \<Longrightarrow> (follow \<longrightarrow> \<not> is_link fs p) \<Longrightarrow>
   update_at follow f (abs_path p) fs = (None, AList.update p (f i) fs)"
  using resolve_dirs_to [of fs p follow] by (simp add: update_at_def)

lemma write_new:
  "dirs_to fs p \<Longrightarrow> node_at fs p = None \<Longrightarrow> write_file mode body (abs_path p) fs =
     (None, AList.update p \<lparr>i_mode = mode, i_uid = 0, i_gid = 0, i_kind = Reg body\<rparr> fs)"
  using resolve_dirs_to [of fs p True] by (simp add: write_file_def missing_not_link)

lemma remove_missing: "dirs_to fs p \<Longrightarrow> node_at fs p = None \<Longrightarrow> snd (os_Remove (abs_path p) fs) = fs"
  using resolve_dirs_to [of fs p False] by (auto simp: os_Remove_def node_at_def split: if_splits)

lemma mkdir_all_there:
  assumes "dirs_to fs (ds @ ss)" "is_dir fs (ds @ ss)" shows "mkdir_all mode ds ss fs = (None, fs)"
  using assms
proof (induction mode ds ss fs rule: mkdir_all.induct)
  case (2 mode ds s ss fs)
  have "is_dir fs (ds @ [s])"
    using 2(4,5) by (cases "ss = []") (auto simp: dirs_to_def strict_prefix_def prefix_def)
  then obtain i where "Stat fs (abs_path (ds @ [s])) = Inr i" "i_kind i = Dir"
    using Stat_dir dirs_to_prefix [OF 2(4), of "ds @ [s]"] by (auto simp: prefix_def)
  then show ?case using 2(3) [OF refl, of i] 2(4,5) by (simp add: Let_def)
qed simp

lemma MkdirAll_there: "dirs_to fs p \<Longrightarrow> is_dir fs p \<Longrightarrow> MkdirAll mode (abs_path p) fs = (None, fs)"
  using mkdir_all_there [of fs "[]" p mode] by (simp add: MkdirAll_def dirs_to_def)

lemma mkdir_all_last:
  assumes "dirs_to fs (ds @ ss)" "node_at fs (ds @ ss) = None" "ss \<noteq> []"
  shows "mkdir_all mode ds ss fs = (None, AList.update (ds @ ss) \<lparr>i_mode = mode, i_uid = 0, i_gid = 0, i_kind = Dir\<rparr> fs)"
  using assms
proof (induction mode ds ss fs rule: mkdir_all.induct)
  case (2 mode ds s ss fs)
  show ?case
  proof (cases "ss = []")
    case True
    then show ?thesis
      using 2(4,5) lookup_missing [of fs "ds @ [s]" True] create_new [of fs "ds @ [s]"] by (simp add: Let_def Mkdir_def)
  next
    case False
    have "is_dir fs (ds @ [s])" using 2(4) False by (auto simp: dirs_to_def strict_prefix_def prefix_def)
    then obtain i where "Stat fs (abs_path (ds @ [s])) = Inr i" "i_kind i = Dir"
      using Stat_dir dirs_to_prefix [OF 2(4), of "ds @ [s]"] by (auto simp: prefix_def)
    then show ?thesis using 2(3) [OF refl, of i] 2(4,5) False by (simp add: Let_def)
  qed
qed simp

lemma MkdirAll_last: "dirs_to fs p \<Longrightarrow> node_at fs p = None \<Longrightarrow>
    MkdirAll mode (abs_path p) fs = (None, AList.update p \<lparr>i_mode = mode, i_uid = 0, i_gid = 0, i_kind = Dir\<rparr> fs)"
  using mkdir_all_last [of fs "[]" p mode] by (cases "p = []") (auto simp: MkdirAll_def dirs_to_def)

lemma map_of_upd [simp]: "map_of (AList.update p i fs) q = (if q = p then Some i else map_of fs q)"
  by (simp add: update_conv')

lemma dirs_to_upd: "dirs_to fs p \<Longrightarrow> dirs_to (AList.update p i fs) p"
  unfolding dirs_to_def is_dir_def node_at_def by (auto simp: strict_prefix_def root_inode_def split: if_splits)

end
