(* ===== verification/Tar_Snapshot.thy ===== *)
theory Tar_Snapshot
  imports Hostfs
begin

text \<open>
  Capturing and restoring the writable files of a sandbox
  (\<^verbatim>\<open>internal/snapshot/snapshot.go\<close>).  A tarball is the list of its entries; the tar and gzip
  encodings are the arguments \<open>enc\<close> and \<open>dec\<close>.  A tarball that is read back may end in the
  middle of an entry or of a header.
\<close>

section \<open>Tarballs\<close>

datatype typeflag = TypeReg | TypeDir | TypeSymlink | TypeChar | TypeFifo

record tar_entry =
  th_Name :: string
  th_Typeflag :: typeflag
  th_Linkname :: string
  th_Mode :: nat
  th_Uid :: int
  th_Gid :: int
  th_Body :: string

datatype tar_end = TarEOF | TarCorrupt | TarCut tar_entry

type_synonym tar_stream = "tar_entry list \<times> tar_end"

record MountSource =
  ContainerPath :: string
  HostDir :: string

section \<open>Routing\<close>

text \<open>\<^verbatim>\<open>bestMount\<close>: the loop with the index of the best entry so far.\<close>

definition under_mount :: "string \<Rightarrow> MountSource \<Rightarrow> bool" where
  "under_mount containerPath m \<longleftrightarrow>
     containerPath = ContainerPath m \<or> HasPrefix containerPath (ContainerPath m @ ''/'')"

fun best_mount :: "string \<Rightarrow> MountSource option \<Rightarrow> MountSource list \<Rightarrow> MountSource option" where
  "best_mount containerPath best [] = best"
| "best_mount containerPath best (m # ms) =
     best_mount containerPath
       (if \<not> under_mount containerPath m then best
        else case best of
               None \<Rightarrow> Some m
             | Some b \<Rightarrow> if length (ContainerPath m) > length (ContainerPath b) then Some m else best) ms"

definition bestMount :: "MountSource list \<Rightarrow> string \<Rightarrow> MountSource option" where
  "bestMount mounts containerPath = best_mount containerPath None mounts"

definition resolveSource :: "string \<Rightarrow> MountSource list \<Rightarrow> string \<Rightarrow> string \<times> string" where
  "resolveSource upperDir mounts containerPath =
     (case bestMount mounts containerPath of
        Some m \<Rightarrow> (path_Join (HostDir m) (TrimPrefix containerPath (ContainerPath m)), TrimLeft slash containerPath)
      | None \<Rightarrow> (path_Join upperDir containerPath, TrimLeft slash containerPath))"

definition within :: "string \<Rightarrow> string \<Rightarrow> bool" where
  "within dir target \<longleftrightarrow> HasPrefix target (dir @ ''/'') \<or> target = dir"

definition resolveTarget :: "string \<Rightarrow> MountSource list \<Rightarrow> string \<Rightarrow> string" where
  "resolveTarget upperDir mounts tarName =
     (let containerPath = slash # path_Clean tarName in
      case bestMount mounts containerPath of
        Some m \<Rightarrow>
          (let target = path_Join (HostDir m) (TrimPrefix containerPath (ContainerPath m))
           in if \<not> within (HostDir m) target then [] else target)
      | None \<Rightarrow>
          (let target = path_Join upperDir containerPath
           in if \<not> within upperDir target then [] else target))"

text \<open>\<^verbatim>\<open>baseDir\<close>: a trailing \<^verbatim>\<open>/*\<close> or \<^verbatim>\<open>/**\<close> is cut off until there is none.\<close>

definition globbed :: "string \<Rightarrow> bool" where
  "globbed p \<longleftrightarrow> HasSuffix p ''/*'' \<or> HasSuffix p ''/**''"

lemma path_Dir_shorter:
  assumes "globbed p" shows "length (path_Dir p) < length p"
proof -
  obtain u t where p: "p = u @ slash # t" "t = ''*'' \<or> t = ''**''"
    using assms by (auto simp: globbed_def HasSuffix_def suffix_def)
  have "length (path_Clean (u @ [slash])) \<le> Suc (length u)"
    using length_path_Clean [of "u @ [slash]"] by simp
  then show ?thesis using p by (auto simp: path_Dir_def)
qed

function trim_globs :: "string \<Rightarrow> string" where
  "trim_globs p = (if globbed p then trim_globs (path_Dir p) else p)"
  by pat_completeness auto

termination
  by (relation "measure length") (auto dest: path_Dir_shorter)

declare trim_globs.simps [simp del]

definition baseDir :: "string \<Rightarrow> string" where
  "baseDir pattern = trim_globs (TrimRight slash pattern)"

definition includeBases :: "string list \<Rightarrow> string list option" where
  "includeBases include = (if include = [] then None else Some (map baseDir include))"

definition matchesInclude :: "string \<Rightarrow> string list option \<Rightarrow> bool" where
  "matchesInclude tarName bases =
     (case bases of
        None \<Rightarrow> True
      | Some bs \<Rightarrow>
          (let containerPath = slash # path_Clean tarName
           in list_ex (\<lambda>b. containerPath = b \<or> HasPrefix containerPath (TrimRight slash b @ ''/'')) bs))"

section \<open>Capture\<close>

datatype snap_error = TempFailed errno | WalkFailed string | RenameFailed errno | OpenFailed errno
  | MkdirFailed string errno | ChmodFailed string errno | LchownFailed string errno | ParentFailed string errno
  | SymlinkFailed string errno | CreateFailed string errno

text \<open>
  The header of an inode under a name: built by hand for a link, by \<^verbatim>\<open>tar.FileInfoHeader\<close> for
  everything else, which has no header for a socket; only a regular file has a body.
\<close>

definition entry_of :: "string \<Rightarrow> inode \<Rightarrow> tar_entry option" where
  "entry_of name i =
     (let hdr = (\<lambda>t l b. Some \<lparr>th_Name = name, th_Typeflag = t, th_Linkname = l, th_Mode = i_mode i,
          th_Uid = i_uid i, th_Gid = i_gid i, th_Body = b\<rparr>)
      in case i_kind i of
           Lnk target \<Rightarrow> hdr TypeSymlink target []
         | Dir \<Rightarrow> hdr TypeDir [] []
         | Reg body \<Rightarrow> hdr TypeReg [] body
         | Fifo \<Rightarrow> hdr TypeFifo [] []
         | Device \<Rightarrow> hdr TypeChar [] []
         | Socket \<Rightarrow> None)"

text \<open>\<^verbatim>\<open>filepath.Rel\<close> of a walked path.\<close>

definition rel_name :: "location \<Rightarrow> string" where
  "rel_name r = (if r = [] then ''.'' else Join slash r)"

definition walkUpperIntoTar :: "hostfs \<Rightarrow> string \<Rightarrow> tar_entry list option" where
  "walkUpperIntoTar fs upperDir =
     (case filepath_Walk fs upperDir of
        Inl _ \<Rightarrow> None
      | Inr found \<Rightarrow> those (map (\<lambda>(r, i). entry_of (rel_name r) i) (filter (\<lambda>(r, i). rel_name r \<noteq> ''.'') found)))"

definition walkIntoTar :: "hostfs \<Rightarrow> string \<Rightarrow> string \<Rightarrow> tar_entry list option" where
  "walkIntoTar fs hostRoot tarPrefix =
     (case filepath_Walk fs hostRoot of
        Inl _ \<Rightarrow> None
      | Inr found \<Rightarrow> those (map (\<lambda>(r, i). entry_of (path_Join tarPrefix (rel_name r)) i) found))"

fun capture_paths :: "hostfs \<Rightarrow> string \<Rightarrow> MountSource list \<Rightarrow> string list \<Rightarrow> snap_error + tar_entry list" where
  "capture_paths fs upperDir mounts [] = Inr []"
| "capture_paths fs upperDir mounts (pattern # ps) =
     (let (hostRoot, tarPrefix) = resolveSource upperDir mounts (baseDir pattern) in
      if Lstat fs hostRoot = Inl ENOENT then capture_paths fs upperDir mounts ps
      else (case walkIntoTar fs hostRoot tarPrefix of
              None \<Rightarrow> Inl (WalkFailed hostRoot)
            | Some es \<Rightarrow>
                (case capture_paths fs upperDir mounts ps of
                   Inl e \<Rightarrow> Inl e
                 | Inr es' \<Rightarrow> Inr (es @ es'))))"

definition capture_entries :: "hostfs \<Rightarrow> string \<Rightarrow> MountSource list \<Rightarrow> string list \<Rightarrow> snap_error + tar_entry list" where
  "capture_entries fs upperDir mounts include =
     (if include = [] then
        (case Lstat fs upperDir of
           Inl _ \<Rightarrow> Inr []
         | Inr _ \<Rightarrow> (case walkUpperIntoTar fs upperDir of
                     None \<Rightarrow> Inl (WalkFailed upperDir)
                   | Some es \<Rightarrow> Inr es))
      else capture_paths fs upperDir mounts include)"

text \<open>
  \<^verbatim>\<open>Capture\<close> with the states the file system goes through, first to last: the temporary file
  appears, takes the contents \<open>writes\<close> one after the other while the archive is produced, and is
  removed again on an error, or completed and renamed.  \<open>tmpName\<close> is the name
  \<^verbatim>\<open>os.CreateTemp\<close> picks.
\<close>

definition Capture :: "(tar_entry list \<Rightarrow> string) \<Rightarrow> string list \<Rightarrow> string \<Rightarrow> string \<Rightarrow> string \<Rightarrow> MountSource list \<Rightarrow> string list
    \<Rightarrow> hostfs \<Rightarrow> snap_error option \<times> hostfs list" where
  "Capture enc writes tmpName dst upperDir mounts include fs =
     (let tmp = path_Join (path_Dir dst) tmpName in
      case create_at \<lparr>i_mode = 384, i_uid = 0, i_gid = 0, i_kind = Reg []\<rparr> tmp fs of
        (Some e, _) \<Rightarrow> (Some (TempFailed e), [])
      | (None, fs1) \<Rightarrow>
          (let partly = fs1 # map (\<lambda>w. snd (write_file 384 w tmp fs1)) writes in
           case capture_entries fs1 upperDir mounts include of
             Inl e \<Rightarrow> (Some e, partly @ [snd (os_Remove tmp fs1)])
           | Inr es \<Rightarrow>
               (let fs2 = snd (write_file 384 (enc es) tmp fs1) in
                case os_Rename tmp dst fs2 of
                  (Some e, _) \<Rightarrow> (Some (RenameFailed e), partly @ [fs2, snd (os_Remove tmp fs2)])
                | (None, fs3) \<Rightarrow> (None, partly @ [fs2, fs3]))))"

section \<open>Restore\<close>

text \<open>A run of calls that stops at the first error.\<close>

fun steps :: "((hostfs \<Rightarrow> errno option \<times> hostfs) \<times> (errno \<Rightarrow> snap_error)) list \<Rightarrow> hostfs \<Rightarrow> snap_error option \<times> hostfs" where
  "steps [] fs = (None, fs)"
| "steps ((f, err) # ss) fs =
     (case f fs of
        (Some e, fs1) \<Rightarrow> (Some (err e), fs1)
      | (None, fs1) \<Rightarrow> steps ss fs1)"

definition quietly :: "(hostfs \<Rightarrow> errno option \<times> hostfs) \<Rightarrow> hostfs \<Rightarrow> errno option \<times> hostfs" where
  "quietly f fs = (None, snd (f fs))"

definition restore_entry :: "tar_entry \<Rightarrow> string \<Rightarrow> hostfs \<Rightarrow> snap_error option \<times> hostfs" where
  "restore_entry hdr target =
     (case th_Typeflag hdr of
        TypeDir \<Rightarrow> steps
          [(MkdirAll (th_Mode hdr) target, MkdirFailed target),
           (Chmod (th_Mode hdr) target, ChmodFailed target),
           (Lchown (th_Uid hdr) (th_Gid hdr) target, LchownFailed target)]
      | TypeSymlink \<Rightarrow> steps
          [(MkdirAll 493 (path_Dir target), ParentFailed target),
           (quietly (os_Remove target), SymlinkFailed target),
           (os_Symlink (th_Linkname hdr) target, SymlinkFailed target),
           (Lchown (th_Uid hdr) (th_Gid hdr) target, LchownFailed target)]
      | _ \<Rightarrow> steps
          [(MkdirAll 493 (path_Dir target), ParentFailed target),
           (write_file (th_Mode hdr) (th_Body hdr) target, CreateFailed target),
           (Chmod (th_Mode hdr) target, ChmodFailed target),
           (Lchown (th_Uid hdr) (th_Gid hdr) target, LchownFailed target)])"

text \<open>An entry whose body is cut off: the partial file is created and dropped again.\<close>

definition restore_cut :: "tar_entry \<Rightarrow> string \<Rightarrow> hostfs \<Rightarrow> snap_error option \<times> hostfs" where
  "restore_cut hdr target =
     (if th_Typeflag hdr = TypeDir \<or> th_Typeflag hdr = TypeSymlink then restore_entry hdr target
      else steps
        [(MkdirAll 493 (path_Dir target), ParentFailed target),
         (write_file (th_Mode hdr) (th_Body hdr) target, CreateFailed target),
         (quietly (os_Remove target), CreateFailed target)])"

definition admitted :: "string list option \<Rightarrow> string \<Rightarrow> MountSource list \<Rightarrow> tar_entry \<Rightarrow> bool" where
  "admitted bases upperDir mounts hdr \<longleftrightarrow>
     matchesInclude (th_Name hdr) bases \<and> resolveTarget upperDir mounts (th_Name hdr) \<noteq> []"

fun restore_loop :: "string list option \<Rightarrow> string \<Rightarrow> MountSource list \<Rightarrow> tar_entry list \<Rightarrow> tar_end \<Rightarrow> hostfs
    \<Rightarrow> snap_error option \<times> hostfs" where
  "restore_loop bases upperDir mounts [] TarEOF fs = (None, fs)"
| "restore_loop bases upperDir mounts [] TarCorrupt fs = (None, fs)"
| "restore_loop bases upperDir mounts [] (TarCut hdr) fs =
     (if admitted bases upperDir mounts hdr then restore_cut hdr (resolveTarget upperDir mounts (th_Name hdr)) fs
      else (None, fs))"
| "restore_loop bases upperDir mounts (hdr # es) fin fs =
     (if \<not> admitted bases upperDir mounts hdr then restore_loop bases upperDir mounts es fin fs
      else (case restore_entry hdr (resolveTarget upperDir mounts (th_Name hdr)) fs of
              (Some e, fs1) \<Rightarrow> (Some e, fs1)
            | (None, fs1) \<Rightarrow> restore_loop bases upperDir mounts es fin fs1))"

definition Restore :: "(string \<Rightarrow> tar_stream option) \<Rightarrow> string \<Rightarrow> string \<Rightarrow> MountSource list \<Rightarrow> string list \<Rightarrow> hostfs
    \<Rightarrow> snap_error option \<times> hostfs" where
  "Restore dec src upperDir mounts include fs =
     (case ReadFile fs src of
        Inl e \<Rightarrow> (Some (OpenFailed e), fs)
      | Inr blob \<Rightarrow>
          (case dec blob of
             None \<Rightarrow> (None, fs)
           | Some (es, fin) \<Rightarrow> restore_loop (includeBases include) upperDir mounts es fin fs))"

section \<open>Targets stay lexically inside\<close>

definition clean_dir :: "string \<Rightarrow> bool" where
  "clean_dir d \<longleftrightarrow> d = abs_path (loc d) \<and> (\<forall>s \<in> set (loc d). real_seg s) \<and> loc d \<noteq> []"

lemma within_prefix:
  assumes "clean_dir d" "within d (abs_path t)" "\<forall>s \<in> set t. real_seg s"
  shows "prefix (loc d) t"
proof -
  have d: "d = slash # Join slash (loc d)" "\<forall>s \<in> set (loc d). real_seg s" "loc d \<noteq> []"
    using assms(1) unfolding clean_dir_def abs_path_def by blast+
  have ns: "\<forall>s \<in> set (loc d). slash \<notin> set s" "\<forall>s \<in> set t. slash \<notin> set s" using d(2) assms(3) by (auto simp: real_seg_def)
  from assms(2) consider "prefix (Join slash (loc d) @ [slash]) (Join slash t)" | "abs_path t = abs_path (loc d)"
    unfolding within_def HasPrefix_def by (subst (asm) (1 2) d(1)) (auto simp: abs_path_def)
  then show ?thesis
  proof cases
    case 1
    then show ?thesis using prefix_Join [OF ns d(3)] by (simp add: strict_prefix_def)
  next
    case 2
    then show ?thesis using abs_path_inj [OF assms(3) d(2)] by simp
  qed
qed

lemma path_Join_location:
  assumes "clean_dir d" obtains t where "path_Join d p = abs_path t" "\<forall>s \<in> set t. real_seg s"
proof -
  have "hd d = slash" "d \<noteq> []" using assms unfolding clean_dir_def abs_path_def by (metis list.sel(1), metis list.distinct(1))
  then obtain d' where "d = slash # d'" by (cases d) auto
  then have "path_Join d p = path_Clean (slash # (if p = [] then d' else d' @ slash # p))" by (simp add: path_Join_def)
  then show ?thesis using that path_Clean_rooted_ex by metis
qed

definition snap_roots :: "string \<Rightarrow> MountSource list \<Rightarrow> location set" where
  "snap_roots upperDir mounts = insert (loc upperDir) (loc ` HostDir ` set mounts)"

lemma best_mount_in: "best_mount p b ms = Some m \<Longrightarrow> m \<in> set ms \<or> b = Some m"
  by (induction p b ms rule: best_mount.induct) (auto split: if_splits option.splits)

lemma bestMount_in: "bestMount ms p = Some m \<Longrightarrow> m \<in> set ms"
  using best_mount_in [of p None ms m] by (simp add: bestMount_def)

lemma resolveTarget_location:
  assumes "clean_dir upperDir" "\<forall>m \<in> set mounts. clean_dir (HostDir m)" "resolveTarget upperDir mounts name \<noteq> []"
  obtains r t where "r \<in> snap_roots upperDir mounts" "resolveTarget upperDir mounts name = abs_path t"
    "\<forall>s \<in> set t. real_seg s" "prefix r t" "t \<noteq> []"
proof -
  obtain d p where d: "clean_dir d" "loc d \<in> snap_roots upperDir mounts"
    "resolveTarget upperDir mounts name = path_Join d p" "within d (path_Join d p)"
  proof (cases "bestMount mounts (slash # path_Clean name)")
    case None
    then show ?thesis
      using assms that [of upperDir] by (auto simp: resolveTarget_def Let_def snap_roots_def split: if_splits)
  next
    case (Some m)
    then show ?thesis
      using assms that [of "HostDir m"] bestMount_in [OF Some]
      by (auto simp: resolveTarget_def Let_def snap_roots_def split: if_splits)
  qed
  obtain t where t: "path_Join d p = abs_path t" "\<forall>s \<in> set t. real_seg s" by (rule path_Join_location [OF d(1)])
  have pre: "prefix (loc d) t" by (rule within_prefix [OF d(1) _ t(2)]) (use d(4) t(1) in simp)
  have "t \<noteq> []" using pre d(1) by (auto simp: clean_dir_def)
  then show ?thesis using that [OF d(2) _ t(2) pre] d(3) t(1) by simp
qed

section \<open>Restoring stays inside\<close>

lemma steps_frame:
  assumes "\<And>f err fs1. (f, err) \<in> set ss \<Longrightarrow> frame W D K fs fs1 \<Longrightarrow> frame W D K fs1 (snd (f fs1))"
  shows "frame W D K fs (snd (steps ss fs))"
proof -
  have "frame W D K fs fs1 \<Longrightarrow> set ss' \<subseteq> set ss \<Longrightarrow> frame W D K fs (snd (steps ss' fs1))" for ss' fs1
  proof (induction ss' arbitrary: fs1)
    case (Cons a ss')
    obtain f err where a: "a = (f, err)" by (cases a)
    have f: "frame W D K fs (snd (f fs1))"
      using frame_trans [OF Cons.prems(1) assms [of f err fs1]] Cons.prems a by auto
    show ?case
    proof (cases "f fs1")
      case (Pair r fs2)
      then show ?thesis using f Cons.IH [of fs2] Cons.prems a by (cases r) auto
    qed
  qed simp
  then show ?thesis by simp
qed

declare steps.simps [simp del]

text \<open>What the restore of an entry at a location may write, and what it may replace by a link.\<close>

definition writable :: "hostfs \<Rightarrow> location \<Rightarrow> location set" where
  "writable fs t = {q. prefix q t \<and> (node_at fs q = None \<or> q = t)}"

lemma writable_self: "{t} \<subseteq> writable fs t"
  by (simp add: writable_def)

text \<open>A location the restore may work on: no link on the way.\<close>

definition site :: "hostfs \<Rightarrow> location \<Rightarrow> bool" where
  "site fs t \<longleftrightarrow> (\<forall>s \<in> set t. real_seg s) \<and> t \<noteq> [] \<and> unlinked fs t"

lemma framed_site: "site fs t \<Longrightarrow> frame W D K fs fs1 \<Longrightarrow> K \<subseteq> {t} \<Longrightarrow> site fs1 t"
  unfolding site_def frame_def unlinked_def by blast

lemma prefix_butlast: "t \<noteq> [] \<Longrightarrow> prefix q (butlast t) \<Longrightarrow> strict_prefix q t"
  by (cases t rule: rev_cases) (auto simp: strict_prefix_def prefix_def)

lemma parent_frame:
  assumes s: "site fs t" and f: "frame (writable fs t) D K fs fs1" and K: "K \<subseteq> {t}" and D: "D \<subseteq> {t}"
  shows "frame (writable fs t) D K fs1 (snd (MkdirAll mode (path_Dir (abs_path t)) fs1))"
proof -
  have t: "\<forall>s \<in> set t. real_seg s" "t \<noteq> []" "unlinked fs1 t"
    using s framed_site [OF s f K] by (simp_all add: site_def)
  have "\<forall>q. prefix q (butlast t) \<longrightarrow> \<not> is_link fs1 q"
    using t(3) prefix_butlast [OF t(2)] unfolding unlinked_def by blast
  then have g: "frame {q. prefix q (butlast t) \<and> node_at fs1 q = None} {} {} fs1 (snd (MkdirAll mode (abs_path (butlast t)) fs1))"
    using t(1) by (intro frame_MkdirAll) (auto dest: in_set_butlastD)
  have "{q. prefix q (butlast t) \<and> node_at fs1 q = None} \<subseteq> writable fs t"
    using f D prefix_butlast [OF t(2)] unfolding frame_def writable_def strict_prefix_def by blast
  with g show ?thesis unfolding path_Dir_abs_path [OF t(1,2)] by (rule frame_mono) simp_all
qed

lemma self_frame:
  assumes "frame {t} D' K' fs1 fs2" "D' \<subseteq> D" "K' \<subseteq> K" shows "frame (writable fs t) D K fs1 fs2"
  by (rule frame_mono [OF assms(1) writable_self assms(2,3)])

lemma symlink_frame:
  assumes s: "site fs t" and ty: "th_Typeflag hdr = TypeSymlink"
  shows "frame (writable fs t) {t} {t} fs (snd (restore_entry hdr (abs_path t) fs))"
proof -
  let ?ss = "[(MkdirAll 493 (path_Dir (abs_path t)), ParentFailed (abs_path t)),
           (quietly (os_Remove (abs_path t)), SymlinkFailed (abs_path t)),
           (os_Symlink (th_Linkname hdr) (abs_path t), SymlinkFailed (abs_path t)),
           (Lchown (th_Uid hdr) (th_Gid hdr) (abs_path t), LchownFailed (abs_path t))]"
  have "frame (writable fs t) {t} {t} fs1 (snd (f fs1))"
    if f: "(f, err) \<in> set ?ss" and fr: "frame (writable fs t) {t} {t} fs fs1" for f err fs1
  proof -
    have u: "\<forall>s \<in> set t. real_seg s" "unlinked fs1 t" using framed_site [OF s fr] by (simp_all add: site_def)
    have "frame (writable fs t) {t} {t} fs1 (snd (MkdirAll 493 (path_Dir (abs_path t)) fs1))"
      using parent_frame [OF s fr] by simp
    moreover have "frame (writable fs t) {t} {t} fs1 (snd (quietly (os_Remove (abs_path t)) fs1))"
      using self_frame [OF frame_os_Remove [OF u]] by (simp add: quietly_def)
    moreover have "frame (writable fs t) {t} {t} fs1 (snd (os_Symlink (th_Linkname hdr) (abs_path t) fs1))"
      by (rule self_frame [OF frame_Symlink [OF u]]) simp_all
    moreover have "frame (writable fs t) {t} {t} fs1 (snd (Lchown (th_Uid hdr) (th_Gid hdr) (abs_path t) fs1))"
      by (rule self_frame [OF frame_Lchown [OF u]]) simp_all
    ultimately show ?thesis using f by auto
  qed
  then show ?thesis unfolding restore_entry_def ty typeflag.case by (rule steps_frame)
qed

lemma plain_frames:
  assumes s: "site fs t" and link: "\<not> is_link fs t" and fr: "frame (writable fs t) D {} fs fs1" and D: "D \<subseteq> {t}"
  shows "frame (writable fs t) D {} fs1 (snd (MkdirAll mode (path_Dir (abs_path t)) fs1))"
    "frame (writable fs t) D {} fs1 (snd (MkdirAll mode (abs_path t) fs1))"
    "frame (writable fs t) D {} fs1 (snd (write_file mode body (abs_path t) fs1))"
    "frame (writable fs t) D {} fs1 (snd (Chmod mode (abs_path t) fs1))"
    "frame (writable fs t) D {} fs1 (snd (Lchown uid gid (abs_path t) fs1))"
    "t \<in> D \<Longrightarrow> frame (writable fs t) D {} fs1 (snd (quietly (os_Remove (abs_path t)) fs1))"
proof -
  have u: "\<forall>s \<in> set t. real_seg s" "unlinked fs1 t" using framed_site [OF s fr] by (simp_all add: site_def)
  have l: "\<not> is_link fs1 t" by (rule frame_link [OF fr link])
  show "frame (writable fs t) D {} fs1 (snd (MkdirAll mode (path_Dir (abs_path t)) fs1))"
    by (rule parent_frame [OF s fr _ D]) simp
  have "\<forall>q. prefix q t \<longrightarrow> \<not> is_link fs1 q" using u(2) l unfolding unlinked_def strict_prefix_def by blast
  moreover have "{q. prefix q t \<and> node_at fs1 q = None} \<subseteq> writable fs t"
    using fr D unfolding frame_def writable_def by blast
  ultimately show "frame (writable fs t) D {} fs1 (snd (MkdirAll mode (abs_path t) fs1))"
    using frame_mono [OF frame_MkdirAll [OF u(1)]] by simp
  show "frame (writable fs t) D {} fs1 (snd (write_file mode body (abs_path t) fs1))"
    by (rule self_frame [OF frame_write_file [OF u l]]) simp_all
  show "frame (writable fs t) D {} fs1 (snd (Chmod mode (abs_path t) fs1))"
    by (rule self_frame [OF frame_Chmod [OF u l]]) simp_all
  show "frame (writable fs t) D {} fs1 (snd (Lchown uid gid (abs_path t) fs1))"
    by (rule self_frame [OF frame_Lchown [OF u]]) simp_all
  show "t \<in> D \<Longrightarrow> frame (writable fs t) D {} fs1 (snd (quietly (os_Remove (abs_path t)) fs1))"
    using self_frame [OF frame_os_Remove [OF u], of D "{}"] by (simp add: quietly_def)
qed

lemma plain_entry_frame:
  assumes s: "site fs t" and link: "\<not> is_link fs t" and ty: "th_Typeflag hdr \<noteq> TypeSymlink"
  shows "frame (writable fs t) {} {} fs (snd (restore_entry hdr (abs_path t) fs))"
proof -
  note fr = plain_frames(1-5) [OF s link _ empty_subsetI]
  show ?thesis
    using ty unfolding restore_entry_def
    by (cases "th_Typeflag hdr") (simp_all only: typeflag.case, auto intro!: steps_frame intro: fr)
qed

lemma cut_frame:
  assumes s: "site fs t" and link: "\<not> is_link fs t" and ty: "th_Typeflag hdr \<noteq> TypeSymlink" "th_Typeflag hdr \<noteq> TypeDir"
  shows "frame (writable fs t) {t} {} fs (snd (restore_cut hdr (abs_path t) fs))"
proof -
  note fr = plain_frames [OF s link _ subset_refl]
  show ?thesis
    using ty unfolding restore_cut_def by simp (rule steps_frame, auto intro: fr)
qed

text \<open>
  An entry of a stream: where it goes, and whether it is a link.  The links of the stream stand
  alone when nothing else of it is to be restored at or below one of them.
\<close>

definition tgt :: "string \<Rightarrow> MountSource list \<Rightarrow> tar_entry \<Rightarrow> location" where
  "tgt upperDir mounts e = loc (resolveTarget upperDir mounts (th_Name e))"

definition stream_entries :: "tar_stream \<Rightarrow> tar_entry list" where
  "stream_entries st = fst st @ (case snd st of TarCut e \<Rightarrow> [e] | _ \<Rightarrow> [])"

definition links_alone :: "string \<Rightarrow> MountSource list \<Rightarrow> tar_entry list \<Rightarrow> bool" where
  "links_alone upperDir mounts es \<longleftrightarrow>
     (\<forall>l \<in> set es. \<forall>e \<in> set es. th_Typeflag l = TypeSymlink \<and> resolveTarget upperDir mounts (th_Name l) \<noteq> [] \<and>
        resolveTarget upperDir mounts (th_Name e) \<noteq> [] \<and> prefix (tgt upperDir mounts l) (tgt upperDir mounts e) \<longrightarrow>
        th_Typeflag e = TypeSymlink \<and> tgt upperDir mounts e = tgt upperDir mounts l)"

definition safe_at :: "location set \<Rightarrow> hostfs \<Rightarrow> location \<Rightarrow> bool \<Rightarrow> bool" where
  "safe_at R fs t link \<longleftrightarrow> site fs t \<and> (\<not> link \<longrightarrow> \<not> is_link fs t) \<and>
     (\<exists>r \<in> R. prefix r t \<and> (\<forall>q. prefix q r \<and> q \<noteq> t \<longrightarrow> node_at fs q \<noteq> None))"

lemma writable_inside: "safe_at R fs t link \<Longrightarrow> q \<in> writable fs t \<Longrightarrow> \<exists>r \<in> R. prefix r q"
  unfolding safe_at_def writable_def using prefix_same_cases by blast

text \<open>Whatever one entry does, the others stay as safe as they were.\<close>

lemma safe_at_step:
  assumes "frame W D K fs fs1" "D \<subseteq> {t0}" "K \<subseteq> (if link0 then {t0} else {})" "safe_at R fs t link"
    and alone: "link0 \<Longrightarrow> prefix t0 t \<Longrightarrow> link \<and> t = t0" and D: "\<not> link0 \<Longrightarrow> D = {}"
  shows "safe_at R fs1 t link"
proof -
  have s: "site fs t" "\<not> link \<longrightarrow> \<not> is_link fs t" using assms(4) by (simp_all add: safe_at_def)
  obtain r where r: "r \<in> R" "prefix r t" "\<forall>q. prefix q r \<and> q \<noteq> t \<longrightarrow> node_at fs q \<noteq> None"
    using assms(4) by (auto simp: safe_at_def)
  have new: "is_link fs1 q \<Longrightarrow> is_link fs q \<or> link0 \<and> q = t0" for q
    using assms(1,3) unfolding frame_def by (auto split: if_splits)
  have "unlinked fs1 t"
    unfolding unlinked_def
  proof (intro allI impI notI)
    fix q
    assume q: "strict_prefix q t" "is_link fs1 q"
    then have "link0 \<and> q = t0" using new s(1) unfolding site_def unlinked_def by blast
    then show False using alone q(1) by (auto simp: strict_prefix_def)
  qed
  then have "site fs1 t" using s(1) by (simp add: site_def)
  moreover have "\<not> link \<longrightarrow> \<not> is_link fs1 t" using new s(2) alone by blast
  moreover have "node_at fs1 q \<noteq> None" if q: "prefix q r" "q \<noteq> t" for q
  proof (rule ccontr)
    assume "\<not> node_at fs1 q \<noteq> None"
    then have "q \<in> D" using assms(1) r(3) q unfolding frame_def by blast
    then have "link0" "q = t0" using assms(2) D by auto
    then show False using alone q prefix_order.trans [OF q(1) r(2)] by blast
  qed
  ultimately show ?thesis unfolding safe_at_def using r(1,2) by blast
qed

lemma admitted_target:
  assumes "clean_dir upperDir" "\<forall>m \<in> set mounts. clean_dir (HostDir m)" "admitted bases upperDir mounts e"
  shows "resolveTarget upperDir mounts (th_Name e) = abs_path (tgt upperDir mounts e)"
    "resolveTarget upperDir mounts (th_Name e) \<noteq> []"
proof -
  show ne: "resolveTarget upperDir mounts (th_Name e) \<noteq> []" using assms(3) by (simp add: admitted_def)
  obtain t where "resolveTarget upperDir mounts (th_Name e) = abs_path t" "\<forall>s \<in> set t. real_seg s"
    using resolveTarget_location [OF assms(1,2) ne] by metis
  then show "resolveTarget upperDir mounts (th_Name e) = abs_path (tgt upperDir mounts e)" by (simp add: tgt_def)
qed

lemma restore_one:
  assumes "clean_dir upperDir" "\<forall>m \<in> set mounts. clean_dir (HostDir m)" "admitted bases upperDir mounts e"
    "safe_at R fs (tgt upperDir mounts e) (th_Typeflag e = TypeSymlink)"
  shows "\<exists>D. frame (writable fs (tgt upperDir mounts e)) D D fs (snd (restore_entry e (resolveTarget upperDir mounts (th_Name e)) fs)) \<and>
    D = (if th_Typeflag e = TypeSymlink then {tgt upperDir mounts e} else {})"
  using symlink_frame [of fs "tgt upperDir mounts e" e] plain_entry_frame [of fs "tgt upperDir mounts e" e]
    admitted_target [OF assms(1-3)] assms(4) by (simp add: safe_at_def)

lemma restore_loop_inside:
  assumes dirs: "clean_dir upperDir" "\<forall>m \<in> set mounts. clean_dir (HostDir m)"
    and "links_alone upperDir mounts (stream_entries (es, fin))"
    and "\<forall>e \<in> set (stream_entries (es, fin)). admitted bases upperDir mounts e \<longrightarrow>
      safe_at R fs (tgt upperDir mounts e) (th_Typeflag e = TypeSymlink)"
    and "\<forall>r \<in> R. \<not> prefix r q"
  shows "map_of (snd (restore_loop bases upperDir mounts es fin fs)) q = map_of fs q"
  using assms(3-5)
proof (induction es arbitrary: fs)
  case Nil
  show ?case
  proof (cases fin)
    case (TarCut e)
    show ?thesis
    proof (cases "admitted bases upperDir mounts e")
      case True
      then have s: "safe_at R fs (tgt upperDir mounts e) (th_Typeflag e = TypeSymlink)"
        using Nil(2) TarCut by (simp add: stream_entries_def)
      have "\<exists>D K. frame (writable fs (tgt upperDir mounts e)) D K fs (snd (restore_cut e (resolveTarget upperDir mounts (th_Name e)) fs))"
      proof (cases "th_Typeflag e = TypeDir \<or> th_Typeflag e = TypeSymlink")
        case True
        then show ?thesis using restore_one [OF dirs \<open>admitted bases upperDir mounts e\<close> s] by (auto simp: restore_cut_def)
      next
        case False
        then show ?thesis using cut_frame [of fs "tgt upperDir mounts e" e] s admitted_target [OF dirs True]
          by (auto simp: safe_at_def)
      qed
      then show ?thesis
        using writable_inside [OF s] Nil(3) True TarCut unfolding frame_def by auto
    qed (simp add: TarCut)
  qed simp_all
next
  case (Cons e es)
  have sub: "set (stream_entries (es, fin)) \<subseteq> set (stream_entries (e # es, fin))"
    "e \<in> set (stream_entries (e # es, fin))" by (auto simp: stream_entries_def)
  have la: "links_alone upperDir mounts (stream_entries (es, fin))"
    using Cons.prems(1) sub(1) unfolding links_alone_def by blast
  show ?case
  proof (cases "admitted bases upperDir mounts e")
    case False
    then show ?thesis using Cons.IH [OF la] Cons.prems sub(1) by (simp add: subset_iff)
  next
    case True
    let ?t = "tgt upperDir mounts e" and ?l = "th_Typeflag e = TypeSymlink"
    have s: "safe_at R fs ?t ?l" using Cons.prems(2) sub(2) True by blast
    obtain r fs1 where st: "restore_entry e (resolveTarget upperDir mounts (th_Name e)) fs = (r, fs1)"
      by (cases "restore_entry e (resolveTarget upperDir mounts (th_Name e)) fs")
    have f: "frame (writable fs ?t) (if ?l then {?t} else {}) (if ?l then {?t} else {}) fs fs1"
      using restore_one [OF dirs True s] st by auto
    have same: "map_of fs1 q = map_of fs q"
      using f writable_inside [OF s] Cons.prems(3) unfolding frame_def by blast
    have "safe_at R fs1 (tgt upperDir mounts e') (th_Typeflag e' = TypeSymlink)"
      if e': "e' \<in> set (stream_entries (es, fin))" "admitted bases upperDir mounts e'" for e'
    proof (rule safe_at_step [OF f, of ?t ?l])
      show "safe_at R fs (tgt upperDir mounts e') (th_Typeflag e' = TypeSymlink)" using Cons.prems(2) sub(1) e' by blast
      show "th_Typeflag e' = TypeSymlink \<and> tgt upperDir mounts e' = ?t" if "?l" "prefix ?t (tgt upperDir mounts e')"
        using Cons.prems(1) sub e' that admitted_target(2) [OF dirs True] admitted_target(2) [OF dirs e'(2)]
        unfolding links_alone_def by blast
    qed auto
    then show ?thesis using Cons.IH [OF la _ Cons.prems(3)] True st same by (cases r) auto
  qed
qed

lemma fresh_safe:
  assumes "clean_dir upperDir" "\<forall>m \<in> set mounts. clean_dir (HostDir m)" "admitted bases upperDir mounts e"
    and "\<forall>r \<in> snap_roots upperDir mounts. \<forall>q. prefix q r \<longrightarrow> is_dir fs q"
    and "\<forall>r \<in> snap_roots upperDir mounts. \<forall>q. prefix r q \<longrightarrow> \<not> is_link fs q"
  shows "safe_at (snap_roots upperDir mounts) fs (tgt upperDir mounts e) link"
proof -
  obtain r t where t: "r \<in> snap_roots upperDir mounts" "resolveTarget upperDir mounts (th_Name e) = abs_path t"
    "\<forall>s \<in> set t. real_seg s" "prefix r t" "t \<noteq> []"
    using assms(3) by (auto simp: admitted_def intro: resolveTarget_location [OF assms(1,2)])
  have "\<not> is_link fs q" if "prefix q t" for q
    using that t(1,4) assms(4,5) prefix_same_cases is_dir_not_link by metis
  moreover have "node_at fs q \<noteq> None" if "prefix q r" for q
    using assms(4) t(1) that by (auto simp: is_dir_def split: option.splits)
  moreover have "tgt upperDir mounts e = t" using t(2,3) by (simp add: tgt_def)
  ultimately show ?thesis
    using t by (auto simp: safe_at_def site_def unlinked_def strict_prefix_def)
qed

text \<open>
  C34: Restoring a tarball into fresh directories changes nothing outside the overlay directory and
  the backend directories of the mounts, whatever the names in it (rooted, with \<^verbatim>\<open>..\<close>, routed to
  a mount or not), however it is cut off and whatever call fails, provided its links stand
  alone, as they do in a captured one.
\<close>

theorem restore_confined:
  assumes "clean_dir upperDir" "\<forall>m \<in> set mounts. clean_dir (HostDir m)"
    and "\<forall>r \<in> snap_roots upperDir mounts. \<forall>q. prefix q r \<longrightarrow> is_dir fs q"
    and "\<forall>r \<in> snap_roots upperDir mounts. \<forall>q. prefix r q \<longrightarrow> \<not> is_link fs q"
    and "\<And>blob st. ReadFile fs src = Inr blob \<Longrightarrow> dec blob = Some st \<Longrightarrow> links_alone upperDir mounts (stream_entries st)"
    and "\<forall>r \<in> snap_roots upperDir mounts. \<not> prefix r q"
  shows "map_of (snd (Restore dec src upperDir mounts include fs)) q = map_of fs q"
proof (cases "ReadFile fs src")
  case (Inr blob)
  show ?thesis
  proof (cases "dec blob")
    case (Some st)
    obtain es fin where st: "st = (es, fin)" by (cases st)
    have "map_of (snd (restore_loop (includeBases include) upperDir mounts es fin fs)) q = map_of fs q"
      by (rule restore_loop_inside [OF assms(1,2) assms(5) [OF Inr Some, unfolded st] _ assms(6)])
        (use fresh_safe [OF assms(1,2) _ assms(3,4)] in blast)
    then show ?thesis using Inr Some st by (simp add: Restore_def)
  qed (simp add: Restore_def Inr)
qed (simp add: Restore_def)

text \<open>A host with an overlay directory and a file of its own.\<close>

definition plain_inode :: "file_kind \<Rightarrow> inode" where
  "plain_inode k = \<lparr>i_mode = 420, i_uid = 0, i_gid = 0, i_kind = k\<rparr>"

definition small_host :: hostfs where
  "small_host = [([''up''], plain_inode Dir), ([''etc''], plain_inode Dir), ([''etc'', ''passwd''], plain_inode (Reg ''root'')),
     ([''snap''], plain_inode (Reg ''tar''))]"

definition tar_of :: "string \<Rightarrow> typeflag \<Rightarrow> string \<Rightarrow> string \<Rightarrow> tar_entry" where
  "tar_of name ty link body = \<lparr>th_Name = name, th_Typeflag = ty, th_Linkname = link, th_Mode = 420, th_Uid = 0, th_Gid = 0, th_Body = body\<rparr>"

theorem restore_confined_witness:
  "map_of (snd (Restore (\<lambda>_. Some ([tar_of ''../../etc/passwd'' TypeReg [] ''evil''], TarEOF)) ''/snap'' ''/up'' [] [] small_host))
     [''etc'', ''passwd''] = Some (plain_inode (Reg ''root''))"
proof -
  have up: "loc ''/up'' = [''up'']" by (simp add: loc_def)
  have cases: "prefix q [''up''] \<Longrightarrow> q = [] \<or> q = [''up'']" for q by (cases q) (auto simp: prefix_def)
  have links: "prefix [''up''] q \<Longrightarrow> \<not> is_link small_host q" for q
    by (auto simp: is_link_def node_at_def small_host_def plain_inode_def prefix_def)
  have "map_of (snd (Restore (\<lambda>_. Some ([tar_of ''../../etc/passwd'' TypeReg [] ''evil''], TarEOF)) ''/snap'' ''/up'' [] [] small_host))
     [''etc'', ''passwd''] = map_of small_host [''etc'', ''passwd'']"
  proof (rule restore_confined)
    show "clean_dir ''/up''" by (simp add: clean_dir_def up abs_path_def real_seg_def)
    show "\<forall>r \<in> snap_roots ''/up'' []. \<forall>q. prefix q r \<longrightarrow> is_dir small_host q"
      using cases by (auto simp: snap_roots_def up is_dir_def root_inode_def node_at_def small_host_def plain_inode_def)
    show "\<forall>r \<in> snap_roots ''/up'' []. \<forall>q. prefix r q \<longrightarrow> \<not> is_link small_host q"
      using links by (simp add: snap_roots_def up)
    show "links_alone ''/up'' [] (stream_entries st)"
      if "Some ([tar_of ''../../etc/passwd'' TypeReg [] ''evil''], TarEOF) = Some st" for st
      using that by (auto simp: links_alone_def stream_entries_def tar_of_def)
  qed (simp_all add: snap_roots_def up)
  then show ?thesis by (simp add: small_host_def)
qed

text \<open>
  The check of the names is lexical only.  A tarball with a link and an entry below the link
  (or a link left in the overlay) writes through the link: here the file
  \<^verbatim>\<open>/etc/passwd\<close> of the host is replaced.
\<close>

theorem restore_escapes_through_link:
  "Restore (\<lambda>_. Some ([tar_of ''a'' TypeSymlink ''/etc'' [], tar_of ''a/passwd'' TypeReg [] ''evil''], TarEOF)) ''/snap'' ''/up'' [] []
     small_host = (None, small_host[2 := ([''etc'', ''passwd''], plain_inode (Reg ''evil''))] @
       [([''up'', ''a''], \<lparr>i_mode = 511, i_uid = 0, i_gid = 0, i_kind = Lnk ''/etc''\<rparr>)])"
  by code_simp

text \<open>
  A capture reads through links the agent has planted: with \<^verbatim>\<open>/home\<close> replaced by a link the
  tarball holds a file of the host that is not in the overlay at all.
\<close>

theorem capture_follows_planted_link:
  "capture_entries [([''up''], plain_inode Dir), ([''up'', ''home''], plain_inode (Lnk ''/secret'')),
      ([''secret''], plain_inode Dir), ([''secret'', ''key''], plain_inode (Reg ''k''))] ''/up'' [] [''/home/key''] =
   Inr [tar_of ''home/key'' TypeReg [] ''k'']"
  by code_simp

text \<open>
  A file deleted from the image is a device node in the overlay (a whiteout); captured and
  restored it comes back as an empty regular file, so the file is there again.
\<close>

theorem whiteout_becomes_file:
  "capture_entries [([''up''], plain_inode Dir), ([''up'', ''hosts''], plain_inode Device)] ''/up'' [] [] =
     Inr [tar_of ''hosts'' TypeChar [] []] \<and>
   Restore (\<lambda>_. Some ([tar_of ''hosts'' TypeChar [] []], TarEOF)) ''/snap'' ''/up'' [] [] small_host =
     (None, small_host @ [([''up'', ''hosts''], plain_inode (Reg []))])"
  by code_simp

text \<open>One socket in the overlay makes the whole capture fail.\<close>

theorem socket_fails_capture:
  "capture_entries [([''up''], plain_inode Dir), ([''up'', ''s''], plain_inode Socket)] ''/up'' [] [] = Inl (WalkFailed ''/up'')"
  by code_simp

section \<open>Capturing and restoring a tree\<close>

text \<open>The kinds a tarball can carry over.\<close>

definition portable :: "inode \<Rightarrow> bool" where
  "portable i \<longleftrightarrow> (case i_kind i of Dir \<Rightarrow> True | Reg _ \<Rightarrow> True | Lnk _ \<Rightarrow> i_mode i = 511 | _ \<Rightarrow> False)"

lemma entry_of_name: "entry_of name i = Some e \<Longrightarrow> th_Name e = name"
  by (auto simp: entry_of_def Let_def split: file_kind.splits)

lemma restore_exact:
  assumes d: "dirs_to fs p" and p: "p \<noteq> []" and new: "map_of fs p = None"
    and e: "entry_of name i = Some hdr" and i: "portable i"
  shows "\<exists>fs'. restore_entry hdr (abs_path p) fs = (None, fs') \<and> (\<forall>q. map_of fs' q = (if q = p then Some i else map_of fs q))"
proof -
  have real: "\<forall>s \<in> set p. real_seg s" using d by (simp add: dirs_to_def)
  have pre: "strict_prefix (butlast p) p" using p prefix_butlast [of p "butlast p"] by simp
  have par: "dirs_to fs (butlast p)" "is_dir fs (butlast p)"
    using dirs_to_prefix [OF d] pre d by (auto simp: dirs_to_def strict_prefix_def)
  have mk: "MkdirAll mode (path_Dir (abs_path p)) fs = (None, fs)" for mode
    using MkdirAll_there [OF par] path_Dir_abs_path [OF real p] by simp
  have n: "node_at fs p = None" using new p by (simp add: node_at_ne)
  have up: "update_at follow f (abs_path p) (AList.update p j fs) = (None, AList.update p (f j) (AList.update p j fs))"
    if "follow \<longrightarrow> (\<forall>t. i_kind j \<noteq> Lnk t)" for follow f j
    using update_existing [OF dirs_to_upd [OF d] p, of j j follow f] that p
    by (auto simp: is_link_def node_at_ne split: file_kind.splits)
  note sim = restore_entry_def entry_of_def steps.simps mk n up Let_def Chmod_def Lchown_def quietly_def
  show ?thesis
  proof (cases "i_kind i")
    case Dir
    then show ?thesis
      using e MkdirAll_last [OF d n] by (cases i) (auto simp: sim)
  next
    case (Reg body)
    then show ?thesis using e write_new [OF d n] by (cases i) (auto simp: sim)
  next
    case (Lnk target)
    then show ?thesis
      using e i remove_missing [OF d n] create_new [OF d n] by (cases i) (auto simp: sim portable_def os_Symlink_def)
  qed (use i in \<open>simp_all add: portable_def\<close>)
qed

text \<open>The tree below a location, as a list of relative paths in the order of the walk.\<close>

definition rels :: "hostfs \<Rightarrow> location \<Rightarrow> location list" where
  "rels fs l = sort (remdups (map (drop (length l)) (filter (strict_prefix l) (map fst fs))))"

definition portable_tree :: "hostfs \<Rightarrow> location \<Rightarrow> bool" where
  "portable_tree fs l \<longleftrightarrow> (\<forall>r i. r \<noteq> [] \<and> map_of fs (l @ r) = Some i \<longrightarrow> portable i \<and> (\<forall>s \<in> set r. real_seg s) \<and>
     (butlast r = [] \<or> is_dir fs (l @ butlast r)))"

lemma set_rels: "r \<in> set (rels fs l) \<longleftrightarrow> r \<noteq> [] \<and> map_of fs (l @ r) \<noteq> None"
proof -
  have "r \<in> set (rels fs l) \<longleftrightarrow> (\<exists>q \<in> fst ` set fs. strict_prefix l q \<and> r = drop (length l) q)"
    by (auto simp: rels_def image_iff)
  also have "\<dots> \<longleftrightarrow> r \<noteq> [] \<and> l @ r \<in> fst ` set fs"
  proof -
    have "(\<exists>q \<in> K. strict_prefix l q \<and> r = drop (length l) q) \<longleftrightarrow> r \<noteq> [] \<and> l @ r \<in> K" for K :: "location set"
      by (force simp: strict_prefix_def prefix_def)
    then show ?thesis .
  qed
  finally show ?thesis by (simp add: map_of_eq_None_iff)
qed

lemma rels_order: "sorted (rels fs l)" "distinct (rels fs l)"
  by (simp_all add: rels_def)

lemma prefix_less: "strict_prefix x r \<Longrightarrow> x < (r :: location)"
  by (auto simp: list_less_def strict_prefix_def prefix_def intro!: lexord_append_rightI) (metis neq_Nil_conv)

lemma tree_dirs:
  assumes "portable_tree fs l"
  shows "map_of fs (l @ r) \<noteq> None \<Longrightarrow> strict_prefix x r \<Longrightarrow> x \<noteq> [] \<Longrightarrow> is_dir fs (l @ x)"
proof (induction r rule: rev_induct)
  case (snoc s r)
  have p: "prefix x r" using snoc.prems(2) by (auto simp: strict_prefix_def prefix_snoc)
  then have ne: "r \<noteq> []" using snoc.prems(3) by auto
  have d: "is_dir fs (l @ r)" using assms snoc.prems(1) ne unfolding portable_tree_def by (metis append_is_Nil_conv butlast_snoc not_Some_eq)
  show ?case
  proof (cases "x = r")
    case False
    have "map_of fs (l @ r) \<noteq> None" using d ne by (auto simp: is_dir_def node_at_ne split: option.splits)
    then show ?thesis using snoc.IH snoc.prems(3) p False by (simp add: strict_prefix_def)
  qed (simp add: d)
qed simp

lemma walkUpper_rels:
  assumes "dirs_to fs l" "is_dir fs l" "portable_tree fs l"
  shows "walkUpperIntoTar fs (abs_path l) =
    Some (map (\<lambda>r. the (entry_of (Join slash r) (the (map_of fs (l @ r))))) (rels fs l))"
proof -
  have r: "resolve fs False (abs_path l) = Inr l" using resolve_dirs_to [OF assms(1)] by simp
  have name: "rel_name r \<noteq> ''.'' \<and> rel_name r = Join slash r" if "r \<in> set (rels fs l)" for r
  proof -
    have "\<forall>s \<in> set r. real_seg s" "r \<noteq> []" using that assms(3) by (auto simp: set_rels portable_tree_def)
    moreover have "Join slash r \<noteq> ''.''"
    proof
      assume "Join slash r = ''.''"
      then have "r = Split slash ''.''" using Split_Join_real calculation by metis
      then show False using calculation(1) by (simp add: real_seg_def)
    qed
    ultimately show ?thesis by (simp add: rel_name_def)
  qed
  have some: "\<exists>e. entry_of n (the (map_of fs (l @ r))) = Some e" if rr: "r \<in> set (rels fs l)" for r n
  proof -
    obtain i where i: "r \<noteq> []" "map_of fs (l @ r) = Some i" using rr by (auto simp: set_rels)
    then have "portable i" using assms(3) unfolding portable_tree_def by simp
    then show ?thesis using i by (cases "i_kind i") (simp_all add: entry_of_def portable_def Let_def)
  qed
  have those: "(\<forall>x \<in> set xs. \<exists>y. f x = Some y) \<Longrightarrow> those (map f xs) = Some (map (\<lambda>x. the (f x)) xs)" for f :: "location \<Rightarrow> tar_entry option" and xs
    by (induction xs) auto
  obtain i where "node_at fs l = Some i" using is_dirD [OF assms(2)] by blast
  then have w: "filepath_Walk fs (abs_path l) = Inr (([], i) # map (\<lambda>r. (r, the (map_of fs (l @ r)))) (rels fs l))"
    by (simp add: filepath_Walk_def r rels_def)
  have f: "filter (\<lambda>(r, i). rel_name r \<noteq> ''.'') (map (\<lambda>r. (r, the (map_of fs (l @ r)))) (rels fs l)) =
      map (\<lambda>r. (r, the (map_of fs (l @ r)))) (rels fs l)"
  proof (rule filter_True, rule ballI)
    fix x
    assume "x \<in> set (map (\<lambda>r. (r, the (map_of fs (l @ r)))) (rels fs l))"
    then obtain r where "r \<in> set (rels fs l)" "x = (r, the (map_of fs (l @ r)))" by auto
    then show "case x of (r, i) \<Rightarrow> rel_name r \<noteq> ''.''" using name by blast
  qed
  have "those (map (\<lambda>r. entry_of (rel_name r) (the (map_of fs (l @ r)))) (rels fs l)) =
      Some (map (\<lambda>r. the (entry_of (Join slash r) (the (map_of fs (l @ r))))) (rels fs l))"
    using those [of "rels fs l" "\<lambda>r. entry_of (rel_name r) (the (map_of fs (l @ r)))"] some name by simp
  then show ?thesis by (simp add: walkUpperIntoTar_def w f comp_def rel_name_def [of "[]"])
qed

lemma target_of_rel:
  assumes "clean_dir upperDir" "\<forall>s \<in> set r. real_seg s" "r \<noteq> []" "bestMount mounts (abs_path r) = None"
  shows "resolveTarget upperDir mounts (Join slash r) = abs_path (loc upperDir @ r)"
proof -
  have u: "upperDir = slash # Join slash (loc upperDir)" "\<forall>s \<in> set (loc upperDir). real_seg s" "loc upperDir \<noteq> []"
    using assms(1) unfolding clean_dir_def abs_path_def by blast+
  have "path_Clean (Join slash r) = Join slash r"
  proof -
    obtain a ss where r: "r = a # ss" using assms(3) by (cases r) auto
    then obtain c cs where a: "a = c # cs" "c \<noteq> slash" using assms(2) by (cases a) (auto simp: real_seg_def)
    have "hd (Join slash r) \<noteq> slash" "Join slash r \<noteq> []" using a r by (cases ss; simp)+
    then show ?thesis
      using assms(2,3) by (simp add: path_Clean_def Let_def Split_Join_real clean_segs_id)
  qed
  then have c: "slash # path_Clean (Join slash r) = abs_path r" by (simp add: abs_path_def)
  have "path_Join upperDir (abs_path r) = path_Clean (slash # Join slash (loc upperDir) @ slash # abs_path r)"
    by (subst u(1)) (simp add: path_Join_def abs_path_def)
  also have "\<dots> = abs_path (loc upperDir @ r)"
    using path_Clean_append_slash [OF assms(2), of "Join slash (loc upperDir)"] u(2,3) by (simp add: Split_Join_real clean_segs_id)
  finally have j: "path_Join upperDir (abs_path r) = abs_path (loc upperDir @ r)" .
  have "within upperDir (abs_path (loc upperDir @ r))"
    unfolding within_def HasPrefix_def by (subst u(1)) (simp add: abs_path_def Join_append u(3) assms(3))
  then show ?thesis using c j assms(4) by (simp add: resolveTarget_def abs_path_def)
qed

text \<open>Restoring the entries one after the other fills the tree in.\<close>

lemma restore_rels:
  assumes u: "clean_dir upperDir" and tree: "portable_tree fs l"
    and "\<forall>r \<in> set (rels fs l). bestMount mounts (abs_path r) = None"
    and "\<forall>q. prefix q (loc upperDir) \<longrightarrow> is_dir fs2 q"
    and "rels fs l = rs1 @ rs2"
    and "\<forall>r. r \<noteq> [] \<longrightarrow> map_of fs2 (loc upperDir @ r) = (if r \<in> set rs1 then map_of fs (l @ r) else None)"
  shows "\<exists>fs3. restore_loop None upperDir mounts (map (\<lambda>r. the (entry_of (Join slash r) (the (map_of fs (l @ r))))) rs2) TarEOF fs2 = (None, fs3) \<and>
    (\<forall>r. r \<noteq> [] \<longrightarrow> map_of fs3 (loc upperDir @ r) = map_of fs (l @ r)) \<and>
    (\<forall>q. \<not> strict_prefix (loc upperDir) q \<longrightarrow> map_of fs3 q = map_of fs2 q)"
  using assms(4-6)
proof (induction rs2 arbitrary: rs1 fs2)
  case Nil
  then have "map_of fs2 (loc upperDir @ r) = map_of fs (l @ r)" if "r \<noteq> []" for r
    using that set_rels [of r fs l] by (cases "map_of fs (l @ r)") auto
  then show ?case by simp
next
  case (Cons r rs2)
  let ?v = "loc upperDir" and ?e = "the (entry_of (Join slash r) (the (map_of fs (l @ r))))"
  have r: "r \<in> set (rels fs l)" using Cons.prems(2) by simp
  then obtain i where i: "r \<noteq> []" "map_of fs (l @ r) = Some i" by (auto simp: set_rels)
  then have p: "portable i" "\<forall>s \<in> set r. real_seg s" "butlast r = [] \<or> is_dir fs (l @ butlast r)"
    using tree unfolding portable_tree_def by blast+
  have e: "entry_of (Join slash r) i = Some ?e"
    using p(1) i(2) by (cases "i_kind i") (simp_all add: entry_of_def portable_def Let_def)
  have v: "\<forall>s \<in> set ?v. real_seg s" "?v \<noteq> []" using u unfolding clean_dir_def by blast+
  have above: "is_dir fs2 (?v @ x)" if x: "strict_prefix x r" "x \<noteq> []" for x
  proof -
    have d: "is_dir fs (l @ x)" using tree_dirs [OF tree _ x] i(2) by simp
    then have "x \<in> set (rels fs l)" using x(2) by (auto simp: set_rels is_dir_def node_at_ne split: option.splits)
    moreover have "x \<notin> set (r # rs2)"
      using rels_order(1) [of fs l] prefix_less [OF x(1)] Cons.prems(2) by (auto simp: sorted_append)
    ultimately have "x \<in> set rs1" using Cons.prems(2) by auto
    then show ?thesis using Cons.prems(3) x(2) d by (simp add: is_dir_def node_at_ne)
  qed
  have "is_dir fs2 q" if q: "strict_prefix q (?v @ r)" for q
  proof (cases "prefix q ?v")
    case False
    then obtain x where x: "q = ?v @ x" "prefix x r" using q by (auto simp: strict_prefix_def prefix_append)
    then show ?thesis using above [of x] q False by (auto simp: strict_prefix_def)
  qed (use Cons.prems(1) in blast)
  then have d: "dirs_to fs2 (?v @ r)" using v(1) p(2) by (auto simp: dirs_to_def)
  have "r \<notin> set rs1" using rels_order(2) [of fs l] Cons.prems(2) by auto
  then have "map_of fs2 (?v @ r) = None" using Cons.prems(3) i(1) by simp
  then obtain fs' where st: "restore_entry ?e (abs_path (?v @ r)) fs2 = (None, fs')"
    and fs': "\<forall>q. map_of fs' q = (if q = ?v @ r then Some i else map_of fs2 q)"
    using restore_exact [OF d _ _ e p(1)] v(2) by auto
  have keep: "\<forall>q. prefix q ?v \<longrightarrow> is_dir fs' q"
    using Cons.prems(1) fs' i(1) by (auto simp: is_dir_def node_at_def prefix_def root_inode_def)
  have "\<forall>x. x \<noteq> [] \<longrightarrow> map_of fs' (?v @ x) = (if x \<in> set (rs1 @ [r]) then map_of fs (l @ x) else None)"
    using fs' Cons.prems(3) i by auto
  with Cons.IH [OF keep, of "rs1 @ [r]"] Cons.prems(2) obtain fs3 where
    rest: "restore_loop None upperDir mounts (map (\<lambda>r. the (entry_of (Join slash r) (the (map_of fs (l @ r))))) rs2) TarEOF fs' = (None, fs3)"
    and fs3: "\<forall>r. r \<noteq> [] \<longrightarrow> map_of fs3 (?v @ r) = map_of fs (l @ r)"
    "\<forall>q. \<not> strict_prefix ?v q \<longrightarrow> map_of fs3 q = map_of fs' q" by auto
  have name: "th_Name ?e = Join slash r" by (rule entry_of_name [OF e])
  have t: "resolveTarget upperDir mounts (Join slash r) = abs_path (?v @ r)"
    using target_of_rel [OF u p(2) i(1)] assms(3) r by blast
  then have "admitted None upperDir mounts ?e" by (simp add: admitted_def matchesInclude_def name) (simp add: abs_path_def)
  then have "restore_loop None upperDir mounts (map (\<lambda>r. the (entry_of (Join slash r) (the (map_of fs (l @ r))))) (r # rs2)) TarEOF fs2 = (None, fs3)"
    using st rest t name by simp
  moreover have "map_of fs3 q = map_of fs2 q" if "\<not> strict_prefix ?v q" for q
    using fs3(2) fs' that i(1) by (auto simp: strict_prefix_def)
  ultimately show ?case using fs3(1) by blast
qed


definition two_hosts :: "hostfs \<times> hostfs" where
  "two_hosts = ([([''up''], plain_inode Dir), ([''up'', ''d''], plain_inode Dir), ([''up'', ''d'', ''f''], plain_inode (Reg ''x''))],
     [([''new''], plain_inode Dir), ([''snap''], plain_inode (Reg ''t''))])"


section \<open>Capturing is atomic\<close>

lemma path_Join_last:
  assumes "\<forall>s \<in> set d. real_seg s" "real_seg n" shows "path_Join (abs_path d) n = abs_path (d @ [n])"
proof -
  have "path_Join (abs_path d) n = path_Clean (slash # Join slash d @ abs_path [n])"
    using assms(2) by (auto simp: path_Join_def abs_path_def real_seg_def)
  also have "\<dots> = abs_path (clean_segs True (Split slash (Join slash d)) @ [n])"
    using assms(2) by (intro path_Clean_append) simp
  also have "clean_segs True (Split slash (Join slash d)) = d"
    using assms(1) by (cases "d = []") (simp add: clean_segs_def clean_step_def, simp add: Split_Join_real clean_segs_id)
  finally show ?thesis .
qed

lemma ReadFile_at:
  assumes "dirs_to fs p" "\<not> is_link fs p" "p \<noteq> []"
  shows "ReadFile fs (abs_path p) =
    (case map_of fs p of None \<Rightarrow> Inl ENOENT | Some i \<Rightarrow> (case i_kind i of Reg body \<Rightarrow> Inr body | Dir \<Rightarrow> Inl EISDIR | _ \<Rightarrow> Inl ENXIO))"
  using resolve_dirs_to [of fs p True] assms by (simp add: ReadFile_def lookup_at_def node_at_ne split: option.splits)

lemma same_above:
  assumes "dirs_to fs p" "\<forall>q. strict_prefix q p \<longrightarrow> map_of st q = map_of fs q"
  shows "dirs_to st p"
  using assms by (auto simp: dirs_to_def is_dir_def node_at_def split: if_splits)

text \<open>The states of a capture, with the temporary file at its location.\<close>

lemma Capture_states:
  assumes dst: "dst = abs_path (d @ [n])" and d: "dirs_to fs (d @ [n])" and dst_ok: "\<not> is_link fs (d @ [n])" "\<not> is_dir fs (d @ [n])"
    and tmp: "real_seg tmpName" "tmpName \<noteq> n" "map_of fs (d @ [tmpName]) = None"
    and run: "Capture enc writes tmpName dst upperDir mounts include fs = (r, sts)"
  shows "sts \<noteq> [] \<and> (if r = None
      then \<exists>es. capture_entries (hd sts) upperDir mounts include = Inr es \<and>
        map_of (last sts) = (map_of fs)(d @ [n] \<mapsto> \<lparr>i_mode = 384, i_uid = 0, i_gid = 0, i_kind = Reg (enc es)\<rparr>)
      else map_of (last sts) = map_of fs) \<and>
    (\<forall>st \<in> set (if r = None then butlast sts else sts). \<forall>q. q \<noteq> d @ [tmpName] \<longrightarrow> map_of st q = map_of fs q)"
proof -
  let ?t = "d @ [tmpName]" and ?i = "\<lambda>c. \<lparr>i_mode = 384, i_uid = 0, i_gid = 0, i_kind = Reg c\<rparr>"
  have dr: "\<forall>s \<in> set d. real_seg s" and nr: "real_seg n" using d by (simp_all add: dirs_to_def)
  have tmp': "path_Join (path_Dir dst) tmpName = abs_path ?t"
    using path_Dir_abs_path [of "d @ [n]"] path_Join_last [OF dr tmp(1)] dr nr by (simp add: dst)
  have dt: "dirs_to fs ?t"
    using d tmp(1) dr unfolding dirs_to_def by (auto simp: strict_prefix_def prefix_snoc)
  have dts: "dirs_to (AList.update ?t (?i c) fs) ?t" for c by (rule dirs_to_upd [OF dt])
  have w: "snd (write_file 384 c (abs_path ?t) (AList.update ?t (?i []) fs)) = AList.update ?t (?i c) fs" for c
    using resolve_dirs_to [OF dts, of True "[]"] by (simp add: write_file_def is_link_def node_at_ne)
  have dd: "dirs_to (AList.update ?t (?i c) fs) (d @ [n])" for c
    by (rule same_above [OF d]) (auto simp: strict_prefix_def prefix_snoc)
  have rn: "os_Rename (abs_path ?t) dst (AList.update ?t (?i c) fs) =
      (None, AList.update (d @ [n]) (?i c) (AList.delete ?t (AList.update ?t (?i c) fs)))" for c
    using resolve_dirs_to [OF dts, of False c] resolve_dirs_to [OF dd, of False c] dst_ok tmp(2)
    by (simp add: os_Rename_def dst is_dir_def node_at_ne)
  have rm: "map_of (snd (os_Remove (abs_path ?t) (AList.update ?t (?i c) fs))) = map_of fs" for c
    using resolve_dirs_to [OF dts, of False c] tmp(3)
    by (auto simp: os_Remove_def delete_conv' fun_eq_iff)
  have c1: "create_at (?i []) (abs_path ?t) fs = (None, AList.update ?t (?i []) fs)"
    using create_new [OF dt] tmp(3) by (simp add: node_at_ne)
  let ?f1 = "AList.update ?t (?i []) fs"
  have base: "map_of st q = map_of fs q" if "st \<in> set (?f1 # map (\<lambda>c. AList.update ?t (?i c) fs) writes)" "q \<noteq> ?t" for st q
    using that by auto
  show ?thesis
  proof (cases "capture_entries ?f1 upperDir mounts include")
    case (Inl e)
    then have "r = Some e" "sts = (?f1 # map (\<lambda>c. AList.update ?t (?i c) fs) writes) @ [snd (os_Remove (abs_path ?t) ?f1)]"
      using run by (simp_all add: Capture_def Let_def tmp' c1 w)
    then show ?thesis using base rm [of "[]"] by auto
  next
    case (Inr es)
    then have r: "r = None" and sts: "sts = (?f1 # map (\<lambda>c. AList.update ?t (?i c) fs) writes) @ [AList.update ?t (?i (enc es)) fs,
        AList.update (d @ [n]) (?i (enc es)) (AList.delete ?t (AList.update ?t (?i (enc es)) fs))]"
      using run by (simp_all add: Capture_def Let_def tmp' c1 w rn)
    have "map_of (last sts) = (map_of fs)(d @ [n] \<mapsto> ?i (enc es))"
      using tmp(2,3) by (auto simp: sts fun_eq_iff delete_conv')
    then show ?thesis using Inr r base by (auto simp: sts butlast_append)
  qed
qed

text \<open>
  C36: A capture replaces the previous snapshot in one step: in every state the host goes through,
  and so after a crash at any point, the destination holds the old snapshot or the complete
  new one, and a capture that fails leaves the host as it was.
\<close>

theorem capture_atomic:
  assumes "dst = abs_path (d @ [n])" "dirs_to fs (d @ [n])" "\<not> is_link fs (d @ [n])" "\<not> is_dir fs (d @ [n])"
    and "real_seg tmpName" "tmpName \<noteq> n" "map_of fs (d @ [tmpName]) = None"
    and "Capture enc writes tmpName dst upperDir mounts include fs = (r, sts)"
  shows "(\<forall>st \<in> set (if r = None then butlast sts else sts). ReadFile st dst = ReadFile fs dst) \<and>
    (if r = None then \<exists>es. capture_entries (hd sts) upperDir mounts include = Inr es \<and> ReadFile (last sts) dst = Inr (enc es)
     else map_of (last sts) = map_of fs)"
proof -
  let ?p = "d @ [n]"
  note st = Capture_states [OF assms]
  have read: "ReadFile s dst = (case map_of s ?p of None \<Rightarrow> Inl ENOENT | Some i \<Rightarrow> (case i_kind i of Reg body \<Rightarrow> Inr body | Dir \<Rightarrow> Inl EISDIR | _ \<Rightarrow> Inl ENXIO))"
    if q: "\<forall>q. strict_prefix q ?p \<longrightarrow> map_of s q = map_of fs q" and l: "\<not> is_link s ?p" for s
    unfolding assms(1) using ReadFile_at [OF same_above [OF assms(2) q] l] by simp
  have above: "strict_prefix q ?p \<Longrightarrow> q \<noteq> d @ [tmpName]" for q by (auto simp: strict_prefix_def)
  have old: "ReadFile s dst = ReadFile fs dst" if s: "s \<in> set (if r = None then butlast sts else sts)" for s
  proof -
    have m: "\<forall>q. q \<noteq> d @ [tmpName] \<longrightarrow> map_of s q = map_of fs q" using st s by blast
    have "\<not> is_link s ?p" using assms(3,6) m by (simp add: is_link_def node_at_ne)
    then show ?thesis using read [of s] read [of fs] m above assms(3,6) by simp
  qed
  have new: "ReadFile (last sts) dst = Inr (enc es)"
    if "map_of (last sts) = (map_of fs)(?p \<mapsto> \<lparr>i_mode = 384, i_uid = 0, i_gid = 0, i_kind = Reg (enc es)\<rparr>)" for es
  proof -
    have "\<not> is_link (last sts) ?p" by (simp add: is_link_def node_at_ne that)
    then show ?thesis using read [of "last sts"] by (auto simp: that strict_prefix_def)
  qed
  show ?thesis using st old new by (auto split: if_splits)
qed

theorem capture_atomic_witness:
  "list_all (\<lambda>st. ReadFile st ''/snap'' = Inr ''tar'') (butlast (snd (Capture (\<lambda>_. ''new'') [''n'', ''ne''] ''tmp'' ''/snap'' ''/up'' [] [] small_host)))"
proof -
  obtain r sts where run: "Capture (\<lambda>_. ''new'') [''n'', ''ne''] ''tmp'' ''/snap'' ''/up'' [] [] small_host = (r, sts)"
    by (cases "Capture (\<lambda>_. ''new'') [''n'', ''ne''] ''tmp'' ''/snap'' ''/up'' [] [] small_host")
  have r: "fst (Capture (\<lambda>_. ''new'') [''n'', ''ne''] ''tmp'' ''/snap'' ''/up'' [] [] small_host) = None" by code_simp
  have snap: "map_of small_host [''snap''] = Some (plain_inode (Reg ''tar''))" by (simp add: small_host_def)
  have "(\<forall>st \<in> set (if r = None then butlast sts else sts). ReadFile st ''/snap'' = ReadFile small_host ''/snap'') \<and>
    (if r = None then \<exists>es. capture_entries (hd sts) ''/up'' [] [] = Inr es \<and> ReadFile (last sts) ''/snap'' = Inr ''new''
     else map_of (last sts) = map_of small_host)"
  proof (rule capture_atomic [OF _ _ _ _ _ _ _ run])
    show "''/snap'' = abs_path ([] @ [''snap''])" by (simp add: abs_path_def)
    show "dirs_to small_host ([] @ [''snap''])" by (auto simp: dirs_to_def real_seg_def strict_prefix_def prefix_Cons is_dir_def root_inode_def)
  qed (simp_all add: is_link_def is_dir_def node_at_def snap plain_inode_def real_seg_def, simp add: small_host_def)
  moreover have "ReadFile small_host ''/snap'' = Inr ''tar''" by code_simp
  ultimately show ?thesis using run r by (simp add: list_all_iff)
qed

end
