(* ===== verification/Egress_Reload.thy ===== *)
theory Egress_Reload
  imports Egress
begin

text \<open>
  How a change of a sandbox's egress rules reaches the shared proxy of a pod: \<^verbatim>\<open>setEgress\<close>, the
  generation gate and the coalescing reloader (\<^verbatim>\<open>internal/sandboxd/packed.go\<close>), the reload of the
  rules file on a hang-up signal (\<^verbatim>\<open>cmd/sbxproxy/main.go\<close>) and the acknowledgement that travels back
  over the events socket (\<^verbatim>\<open>internal/sandboxd/run.go\<close>).  The callers, the reloader, the proxy and
  the reader of the acknowledgements are concurrent; a step is one critical section of one of them.
\<close>

section \<open>The per-source rules of a pod\<close>

record pack_egress =
  pe_egress :: "string \<rightharpoonup> EgressRule list"
  pe_denyWait :: "string \<rightharpoonup> int"

record egressFile =
  ef_Generation :: nat
  ef_Sources :: "string \<rightharpoonup> EgressRule list"
  ef_DenyWait :: "string \<rightharpoonup> int"

text \<open>The part of \<^verbatim>\<open>setEgress\<close> under the pod's lock; no rules is the nil slice.\<close>

definition set_source :: "string \<Rightarrow> EgressRule list option \<Rightarrow> int \<Rightarrow> pack_egress \<Rightarrow> pack_egress" where
  "set_source ip rules denyWaitSecs p =
     (case rules of
        None \<Rightarrow> p\<lparr>pe_egress := (pe_egress p)(ip := None), pe_denyWait := (pe_denyWait p)(ip := None)\<rparr>
      | Some rs \<Rightarrow> p\<lparr>pe_egress := (pe_egress p)(ip \<mapsto> rs),
                    pe_denyWait := (pe_denyWait p)(ip := if denyWaitSecs > 0 then Some denyWaitSecs else None)\<rparr>)"

section \<open>The generation gate\<close>

text \<open>
  \<open>eg_wake\<close> is the one-place wake-up channel.  The generations are 64-bit counters in the code,
  one step per change.
\<close>

record egressGate =
  eg_wake :: bool
  eg_desired :: nat
  eg_applied :: nat

definition newEgressGate :: egressGate where
  "newEgressGate = \<lparr>eg_wake = False, eg_desired = 0, eg_applied = 0\<rparr>"

definition bumpDesired :: "egressGate \<Rightarrow> nat \<times> egressGate" where
  "bumpDesired g = (eg_desired g + 1, g\<lparr>eg_desired := eg_desired g + 1\<rparr>)"

definition currentDesired :: "egressGate \<Rightarrow> nat" where
  "currentDesired g = eg_desired g"

definition signal :: "egressGate \<Rightarrow> egressGate" where
  "signal g = g\<lparr>eg_wake := True\<rparr>"

definition markApplied :: "nat \<Rightarrow> egressGate \<Rightarrow> egressGate" where
  "markApplied n g = (if n > eg_applied g then g\<lparr>eg_applied := n\<rparr> else g)"

text \<open>The test at the head of the loop of \<^verbatim>\<open>waitApplied\<close>.\<close>

definition applied_enough :: "nat \<Rightarrow> egressGate \<Rightarrow> bool" where
  "applied_enough n g \<longleftrightarrow> eg_applied g \<ge> n"

section \<open>Reading the rules file\<close>

text \<open>
  The contents of the rules file after decoding: an array, an object with a \<^verbatim>\<open>sources\<close> member,
  another object, or something that does not parse.
\<close>

datatype rules_doc = DocArray "EgressRule list" | DocEnvelope egressFile
  | DocSources "string \<rightharpoonup> EgressRule list" | DocBad

datatype rules_error = ReadFailed string | ParseFailed string

text \<open>Seconds become nanoseconds; a value that is not positive is dropped.\<close>

definition denyWaitDurations :: "(string \<rightharpoonup> int) \<Rightarrow> (string \<rightharpoonup> int)" where
  "denyWaitDurations secs = (\<lambda>ip. case secs ip of None \<Rightarrow> None | Some s \<Rightarrow> if s > 0 then Some (s * 10 ^ 9) else None)"

definition readRules :: "string \<Rightarrow> rules_doc option
    \<Rightarrow> rules_error + (string \<rightharpoonup> EgressRule list) \<times> (string \<rightharpoonup> int) \<times> nat" where
  "readRules path file =
     (if path = [] then Inr (Map.empty, Map.empty, 0)
      else case file of
             None \<Rightarrow> Inl (ReadFailed path)
           | Some (DocArray rules) \<Rightarrow> Inr ([[] \<mapsto> rules], Map.empty, 0)
           | Some (DocEnvelope env) \<Rightarrow> Inr (ef_Sources env, denyWaitDurations (ef_DenyWait env), ef_Generation env)
           | Some (DocSources m) \<Rightarrow> Inr (m, Map.empty, 0)
           | Some DocBad \<Rightarrow> Inl (ParseFailed path))"

section \<open>The concurrent reload\<close>

text \<open>
  A caller of \<^verbatim>\<open>setEgress\<close> followed by \<^verbatim>\<open>waitApplied\<close>; once its change is in the map it carries the
  position of the change in the history.
\<close>

datatype caller = CStart string "EgressRule list option" int | CBump nat | CSignal nat nat
  | CWait nat nat | CAcked nat nat | CGaveUp nat nat

datatype reloader = RIdle | RWoken | RGen nat | RCopied nat pack_egress nat | RWritten

datatype reader = PIdle | PWoken | PRead "string \<rightharpoonup> EgressRule list" "string \<rightharpoonup> int" nat nat
  | PWaitSet "string \<rightharpoonup> EgressRule list" nat nat | PInstalled nat

type_synonym change = "string \<times> EgressRule list option \<times> int"

text \<open>
  The whole system.  The history of changes \<open>rs_hist\<close>, the numbers of changes a copy of the map
  contains (the last argument of \<open>RCopied\<close>, \<open>PRead\<close> and \<open>PWaitSet\<close>, \<open>rs_fileN\<close> for the rules file,
  \<open>rs_policyN\<close> for what the proxy enforces) and the flag \<open>rs_lost\<close> of a failed write, signal or read
  only serve the statements.
\<close>

record reload_sys =
  rs_pack :: pack_egress
  rs_gate :: egressGate
  rs_callers :: "nat \<rightharpoonup> caller"
  rs_reloader :: reloader
  rs_file :: rules_doc
  rs_fileN :: nat
  rs_hup :: bool
  rs_reader :: reader
  rs_policy :: policy_state
  rs_policyN :: nat
  rs_echo :: "nat list"
  rs_hist :: "change list"
  rs_lost :: bool

inductive reload_work :: "string \<Rightarrow> reload_sys \<Rightarrow> reload_sys \<Rightarrow> bool" for rulesPath where
  set_map: "rs_callers s i = Some (CStart ip rules wait) \<Longrightarrow>
     reload_work rulesPath s (s\<lparr>rs_pack := set_source ip rules wait (rs_pack s),
       rs_callers := (rs_callers s)(i \<mapsto> CBump (length (rs_hist s))), rs_hist := rs_hist s @ [(ip, rules, wait)]\<rparr>)"
| bump: "rs_callers s i = Some (CBump n) \<Longrightarrow> bumpDesired (rs_gate s) = (gen, g) \<Longrightarrow>
     reload_work rulesPath s (s\<lparr>rs_gate := g, rs_callers := (rs_callers s)(i \<mapsto> CSignal n gen)\<rparr>)"
| signal: "rs_callers s i = Some (CSignal n gen) \<Longrightarrow>
     reload_work rulesPath s (s\<lparr>rs_gate := signal (rs_gate s), rs_callers := (rs_callers s)(i \<mapsto> CWait n gen)\<rparr>)"
| acked: "rs_callers s i = Some (CWait n gen) \<Longrightarrow> applied_enough gen (rs_gate s) \<Longrightarrow>
     reload_work rulesPath s (s\<lparr>rs_callers := (rs_callers s)(i \<mapsto> CAcked n gen)\<rparr>)"
| woken: "rs_reloader s = RIdle \<Longrightarrow> eg_wake (rs_gate s) \<Longrightarrow>
     reload_work rulesPath s (s\<lparr>rs_reloader := RWoken, rs_gate := (rs_gate s)\<lparr>eg_wake := False\<rparr>\<rparr>)"
| read_gen: "rs_reloader s = RWoken \<Longrightarrow>
     reload_work rulesPath s (s\<lparr>rs_reloader := RGen (currentDesired (rs_gate s))\<rparr>)"
| copy: "rs_reloader s = RGen g \<Longrightarrow>
     reload_work rulesPath s (s\<lparr>rs_reloader := RCopied g (rs_pack s) (length (rs_hist s))\<rparr>)"
| written: "rs_reloader s = RCopied g p n \<Longrightarrow>
     reload_work rulesPath s (s\<lparr>rs_reloader := RWritten, rs_fileN := n,
       rs_file := DocEnvelope \<lparr>ef_Generation = g, ef_Sources = pe_egress p, ef_DenyWait = pe_denyWait p\<rparr>\<rparr>)"
| hangup: "rs_reloader s = RWritten \<Longrightarrow> reload_work rulesPath s (s\<lparr>rs_reloader := RIdle, rs_hup := True\<rparr>)"
| hup: "rs_reader s = PIdle \<Longrightarrow> rs_hup s \<Longrightarrow> reload_work rulesPath s (s\<lparr>rs_reader := PWoken, rs_hup := False\<rparr>)"
| read: "rs_reader s = PWoken \<Longrightarrow> readRules rulesPath (Some (rs_file s)) = Inr (rules, wait, gen) \<Longrightarrow>
     reload_work rulesPath s (s\<lparr>rs_reader := PRead rules wait gen (rs_fileN s)\<rparr>)"
| set_wait: "rs_reader s = PRead rules wait gen n \<Longrightarrow>
     reload_work rulesPath s (s\<lparr>rs_reader := PWaitSet rules gen n, rs_policy := SetDenyWaitBySource wait (rs_policy s)\<rparr>)"
| set_rules: "rs_reader s = PWaitSet rules gen n \<Longrightarrow>
     reload_work rulesPath s (s\<lparr>rs_reader := PInstalled gen, rs_policy := SetRulesBySource rules (rs_policy s), rs_policyN := n\<rparr>)"
| echo: "rs_reader s = PInstalled gen \<Longrightarrow>
     reload_work rulesPath s (s\<lparr>rs_reader := PIdle, rs_echo := (if gen > 0 then rs_echo s @ [gen] else rs_echo s)\<rparr>)"
| mark: "rs_echo s = gen # es \<Longrightarrow>
     reload_work rulesPath s (s\<lparr>rs_echo := es, rs_gate := markApplied gen (rs_gate s)\<rparr>)"

text \<open>
  A new caller, a timeout or a failure can come in between at any moment.
\<close>

inductive reload_step :: "string \<Rightarrow> reload_sys \<Rightarrow> reload_sys \<Rightarrow> bool" for rulesPath where
  working: "reload_work rulesPath s t \<Longrightarrow> reload_step rulesPath s t"
| call: "rs_callers s i = None \<Longrightarrow> ip \<noteq> [] \<Longrightarrow>
     reload_step rulesPath s (s\<lparr>rs_callers := (rs_callers s)(i \<mapsto> CStart ip rules wait)\<rparr>)"
| gave_up: "rs_callers s i = Some (CWait n gen) \<Longrightarrow>
     reload_step rulesPath s (s\<lparr>rs_callers := (rs_callers s)(i \<mapsto> CGaveUp n gen)\<rparr>)"
| write_failed: "rs_reloader s = RCopied g p n \<Longrightarrow> reload_step rulesPath s (s\<lparr>rs_reloader := RIdle, rs_lost := True\<rparr>)"
| kill_failed: "rs_reloader s = RWritten \<Longrightarrow> reload_step rulesPath s (s\<lparr>rs_reloader := RIdle, rs_lost := True\<rparr>)"
| read_failed: "rs_reader s = PWoken \<Longrightarrow> reload_step rulesPath s (s\<lparr>rs_reader := PIdle, rs_lost := True\<rparr>)"

text \<open>The state at boot: the seed file holds an empty array, and the proxy has loaded it.\<close>

definition reload_init :: "reload_sys \<Rightarrow> bool" where
  "reload_init s \<longleftrightarrow>
     s = \<lparr>rs_pack = \<lparr>pe_egress = Map.empty, pe_denyWait = Map.empty\<rparr>, rs_gate = newEgressGate, rs_callers = Map.empty,
          rs_reloader = RIdle, rs_file = DocArray [], rs_fileN = 0, rs_hup = False, rs_reader = PIdle,
          rs_policy = \<lparr>bySource = Some [[] \<mapsto> []], denyWait = Some Map.empty\<rparr>, rs_policyN = 0, rs_echo = [],
          rs_hist = [], rs_lost = False\<rparr>"

section \<open>What the generations stand for\<close>

definition no_egress :: pack_egress where
  "no_egress = \<lparr>pe_egress = Map.empty, pe_denyWait = Map.empty\<rparr>"

text \<open>The map after the first \<open>n\<close> changes.\<close>

definition state_at :: "nat \<Rightarrow> change list \<Rightarrow> pack_egress" where
  "state_at n h = fold (\<lambda>(ip, rules, wait). set_source ip rules wait) (take n h) no_egress"

lemma state_at_append [simp]: "n \<le> length h \<Longrightarrow> state_at n (h @ [c]) = state_at n h"
  by (simp add: state_at_def)

lemma state_at_snoc: "state_at (Suc (length h)) (h @ [(ip, rules, wait)]) = set_source ip rules wait (state_at (length h) h)"
  by (simp add: state_at_def)

lemma state_at_0 [simp]: "state_at 0 h = no_egress"
  by (simp add: state_at_def)

text \<open>The position and the generation a caller holds.\<close>

fun stamp_of :: "caller \<Rightarrow> (nat \<times> nat) option" where
  "stamp_of (CStart _ _ _) = None"
| "stamp_of (CBump _) = None"
| "stamp_of (CSignal n g) = Some (n, g)"
| "stamp_of (CWait n g) = Some (n, g)"
| "stamp_of (CAcked n g) = Some (n, g)"
| "stamp_of (CGaveUp n g) = Some (n, g)"

text \<open>The first \<open>n\<close> changes contain every change with a generation up to \<open>g\<close>.\<close>

definition holds_upto :: "reload_sys \<Rightarrow> nat \<Rightarrow> nat \<Rightarrow> bool" where
  "holds_upto s g n \<longleftrightarrow> g \<le> eg_desired (rs_gate s) \<and> n \<le> length (rs_hist s) \<and>
     (\<forall>i c m gen. rs_callers s i = Some c \<and> stamp_of c = Some (m, gen) \<and> gen \<le> g \<longrightarrow> m < n)"

definition doc_rules :: "reload_sys \<Rightarrow> nat \<Rightarrow> (string \<rightharpoonup> EgressRule list) \<Rightarrow> bool" where
  "doc_rules s n rules \<longleftrightarrow> rules = pe_egress (state_at n (rs_hist s)) \<or> n = 0 \<and> rules = [[] \<mapsto> []]"

definition waits_at :: "reload_sys \<Rightarrow> nat \<Rightarrow> (string \<rightharpoonup> int)" where
  "waits_at s n = denyWaitDurations (pe_denyWait (state_at n (rs_hist s)))"

definition caller_ok :: "reload_sys \<Rightarrow> caller \<Rightarrow> bool" where
  "caller_ok s c \<longleftrightarrow>
     (case c of
        CStart ip rules wait \<Rightarrow> ip \<noteq> []
      | CBump n \<Rightarrow> n < length (rs_hist s)
      | CAcked n g \<Rightarrow> n < length (rs_hist s) \<and> 0 < g \<and> g \<le> eg_desired (rs_gate s) \<and> g \<le> eg_applied (rs_gate s)
      | CSignal n g \<Rightarrow> n < length (rs_hist s) \<and> 0 < g \<and> g \<le> eg_desired (rs_gate s)
      | CWait n g \<Rightarrow> n < length (rs_hist s) \<and> 0 < g \<and> g \<le> eg_desired (rs_gate s)
      | CGaveUp n g \<Rightarrow> n < length (rs_hist s) \<and> 0 < g \<and> g \<le> eg_desired (rs_gate s))"

definition callers_ok :: "reload_sys \<Rightarrow> bool" where
  "callers_ok s \<longleftrightarrow>
     rs_pack s = state_at (length (rs_hist s)) (rs_hist s) \<and> finite (dom (rs_callers s)) \<and>
     (\<forall>c \<in> set (rs_hist s). fst c \<noteq> []) \<and> (\<forall>i c. rs_callers s i = Some c \<longrightarrow> caller_ok s c)"

text \<open>The generation the rules file carries.\<close>

definition file_gen :: "reload_sys \<Rightarrow> nat" where
  "file_gen s = (case rs_file s of DocEnvelope e \<Rightarrow> ef_Generation e | _ \<Rightarrow> 0)"

definition file_ok :: "reload_sys \<Rightarrow> bool" where
  "file_ok s \<longleftrightarrow>
     (case rs_file s of
        DocArray rules \<Rightarrow> rules = [] \<and> rs_fileN s = 0
      | DocEnvelope e \<Rightarrow> ef_Sources e = pe_egress (state_at (rs_fileN s) (rs_hist s)) \<and>
          ef_DenyWait e = pe_denyWait (state_at (rs_fileN s) (rs_hist s))
      | _ \<Rightarrow> False) \<and>
     holds_upto s (file_gen s) (rs_fileN s) \<and>
     (case rs_reloader s of
        RGen g \<Rightarrow> file_gen s \<le> g \<and> g \<le> eg_desired (rs_gate s)
      | RCopied g p n \<Rightarrow> file_gen s \<le> g \<and> holds_upto s g n \<and> p = state_at n (rs_hist s) \<and> rs_fileN s \<le> n
      | _ \<Rightarrow> True)"

definition policy_ok :: "reload_sys \<Rightarrow> bool" where
  "policy_ok s \<longleftrightarrow>
     rs_policyN s \<le> rs_fileN s \<and>
     (case rs_reader s of
        PRead rules wait gen n \<Rightarrow> holds_upto s gen n \<and> rs_policyN s \<le> n \<and> n \<le> rs_fileN s \<and>
          doc_rules s n rules \<and> wait = waits_at s n
      | PWaitSet rules gen n \<Rightarrow> holds_upto s gen n \<and> rs_policyN s \<le> n \<and> n \<le> rs_fileN s \<and>
          doc_rules s n rules
      | PInstalled gen \<Rightarrow> holds_upto s gen (rs_policyN s)
      | _ \<Rightarrow> True) \<and>
     (\<exists>rules. bySource (rs_policy s) = Some rules \<and> doc_rules s (rs_policyN s) rules) \<and>
     (\<forall>g \<in> set (rs_echo s). holds_upto s g (rs_policyN s)) \<and>
     holds_upto s (eg_applied (rs_gate s)) (rs_policyN s)"

lemmas reload_defs = bumpDesired_def currentDesired_def signal_def markApplied_def applied_enough_def

text \<open>
  What every step guarantees: the counters and the history only grow, and a caller keeps its
  stamp or gets a fresh one.
\<close>

definition grows :: "reload_sys \<Rightarrow> reload_sys \<Rightarrow> bool" where
  "grows s t \<longleftrightarrow> eg_desired (rs_gate s) \<le> eg_desired (rs_gate t) \<and> eg_applied (rs_gate s) \<le> eg_applied (rs_gate t) \<and>
     (\<exists>h. rs_hist t = rs_hist s @ h) \<and>
     (\<forall>i c m gen. rs_callers t i = Some c \<and> stamp_of c = Some (m, gen) \<longrightarrow>
        gen = Suc (eg_desired (rs_gate s)) \<or> (\<exists>d. rs_callers s i = Some d \<and> stamp_of d = Some (m, gen)))"

lemma reload_work_grows: "reload_work rulesPath s t \<Longrightarrow> grows s t"
  by (induction rule: reload_work.induct) (auto simp: grows_def reload_defs)

lemma reload_step_grows: "reload_step rulesPath s t \<Longrightarrow> grows s t"
  by (induction rule: reload_step.induct) (auto simp: reload_work_grows, auto simp: grows_def)

lemma grows_state_at: "grows s t \<Longrightarrow> n \<le> length (rs_hist s) \<Longrightarrow> state_at n (rs_hist t) = state_at n (rs_hist s)"
  by (auto simp: grows_def state_at_def)

lemma grows_length: "grows s t \<Longrightarrow> length (rs_hist s) \<le> length (rs_hist t)"
  by (auto simp: grows_def)

lemma grows_caller_ok: "grows s t \<Longrightarrow> caller_ok s c \<Longrightarrow> caller_ok t c"
  by (cases c) (auto simp: grows_def caller_ok_def)

lemma grows_holds_upto:
  assumes "grows s t" "holds_upto s g n" shows "holds_upto t g n"
proof -
  have "m < n" if "rs_callers t i = Some c" "stamp_of c = Some (m, gen)" "gen \<le> g" for i c m gen
  proof -
    note h = that
    have "gen \<noteq> Suc (eg_desired (rs_gate s))" using h(3) assms(2) by (auto simp: holds_upto_def)
    then obtain d where "rs_callers s i = Some d" "stamp_of d = Some (m, gen)"
      using assms(1) h(1,2) unfolding grows_def by blast
    then show ?thesis using assms(2) h(3) unfolding holds_upto_def by blast
  qed
  then show ?thesis using assms by (auto simp: holds_upto_def grows_def)
qed

lemma grows_doc_rules: "grows s t \<Longrightarrow> n \<le> length (rs_hist s) \<Longrightarrow> doc_rules s n r \<Longrightarrow> doc_rules t n r"
  by (simp add: doc_rules_def grows_state_at)

lemma grows_waits_at: "grows s t \<Longrightarrow> n \<le> length (rs_hist s) \<Longrightarrow> waits_at t n = waits_at s n"
  by (simp add: waits_at_def grows_state_at)

lemma holds_upto_length: "holds_upto s g n \<Longrightarrow> n \<le> length (rs_hist s)"
  by (simp add: holds_upto_def)

lemma caller_ok_stamp:
  "caller_ok s c \<Longrightarrow> stamp_of c = Some (m, k) \<Longrightarrow> m < length (rs_hist s) \<and> 0 < k \<and> k \<le> eg_desired (rs_gate s)"
  by (cases c) (auto simp: caller_ok_def)

lemma callers_ok_stamp:
  "callers_ok s \<Longrightarrow> rs_callers s i = Some c \<Longrightarrow> stamp_of c = Some (m, k) \<Longrightarrow> m < length (rs_hist s) \<and> 0 < k \<and> k \<le> eg_desired (rs_gate s)"
  unfolding callers_ok_def using caller_ok_stamp by blast

lemma callers_ok_step:
  assumes "reload_step rulesPath s t" "callers_ok s" shows "callers_ok t"
proof -
  have g: "grows s t" by (rule reload_step_grows [OF assms(1)])
  have pre: "rs_callers s i = Some c \<Longrightarrow> caller_ok s c" for i c using assms(2) by (simp add: callers_ok_def)
  have "rs_callers s i = Some c \<or> caller_ok t c" if c: "rs_callers t i = Some c" for i c
    using assms(1)
  proof cases
    case working
    then show ?thesis using c pre [of i]
      by cases (auto simp: reload_defs caller_ok_def split: if_splits)
  qed (use c pre [of i] in \<open>auto simp: caller_ok_def split: if_splits\<close>)
  then have "caller_ok t c" if "rs_callers t i = Some c" for i c
    using that pre grows_caller_ok [OF g] by blast
  moreover have start: "rs_callers s i = Some (CStart ip r w) \<Longrightarrow> ip \<noteq> []" for i ip r w
    using pre [of i "CStart ip r w"] by (simp add: caller_ok_def)
  have "rs_pack t = state_at (length (rs_hist t)) (rs_hist t) \<and> finite (dom (rs_callers t)) \<and> (\<forall>c \<in> set (rs_hist t). fst c \<noteq> [])"
    using assms(1)
  proof cases
    case working
    then show ?thesis using assms(2)
      by cases (auto simp: callers_ok_def state_at_snoc dest: start)
  qed (use assms(2) in \<open>auto simp: callers_ok_def\<close>)
  ultimately show ?thesis by (simp add: callers_ok_def)
qed

lemma file_ok_step:
  assumes "reload_step rulesPath s t" "callers_ok s" "file_ok s" shows "file_ok t"
proof -
  have g: "grows s t" by (rule reload_step_grows [OF assms(1)])
  note up = grows_holds_upto [OF g] grows_state_at [OF g]
  have n: "rs_fileN s \<le> length (rs_hist s)" using assms(3) by (auto simp: file_ok_def holds_upto_def)
  have new: "holds_upto t (file_gen s) (rs_fileN s)" using assms(3) up(1) by (simp add: file_ok_def)
  show ?thesis using assms(1)
  proof cases
    case working
    then show ?thesis
    proof cases
      case (copy gen)
      have "\<forall>i c m k. rs_callers s i = Some c \<and> stamp_of c = Some (m, k) \<longrightarrow> m < length (rs_hist s)"
        using callers_ok_stamp [OF assms(2)] by blast
      then have "holds_upto s gen (length (rs_hist s))" using assms(3) copy by (auto simp: file_ok_def holds_upto_def)
      then show ?thesis using assms(2,3) copy n up(1) new by (auto simp: file_ok_def file_gen_def callers_ok_def split: rules_doc.splits)
    next
      case (read_gen)
      then show ?thesis using assms(3) new n up by (auto simp: file_ok_def file_gen_def holds_upto_def currentDesired_def split: rules_doc.splits)
    next
      case (written gen p k)
      then show ?thesis using assms by (auto simp: file_ok_def file_gen_def holds_upto_def)
    qed (use assms(3) n new up in \<open>auto simp: file_ok_def file_gen_def reload_defs holds_upto_length split: rules_doc.splits reloader.splits\<close>)
  qed (use assms(3) n new up in \<open>auto simp: file_ok_def file_gen_def holds_upto_length split: rules_doc.splits reloader.splits\<close>)
qed

lemma read_file:
  assumes "file_ok s" "rulesPath \<noteq> []"
  shows "\<exists>rules. readRules rulesPath (Some (rs_file s)) = Inr (rules, waits_at s (rs_fileN s), file_gen s) \<and> doc_rules s (rs_fileN s) rules"
  using assms
  by (auto simp: file_ok_def readRules_def doc_rules_def waits_at_def file_gen_def denyWaitDurations_def no_egress_def split: rules_doc.splits)

lemma policy_ok_step:
  assumes "reload_step rulesPath s t" "rulesPath \<noteq> []" "file_ok s" "policy_ok s" shows "policy_ok t"
proof -
  have g: "grows s t" by (rule reload_step_grows [OF assms(1)])
  have n: "rs_fileN s \<le> length (rs_hist s)" using assms(3) by (auto simp: file_ok_def holds_upto_def)
  then have pn: "rs_policyN s \<le> length (rs_hist s)" using assms(4) by (auto simp: policy_ok_def)
  have le: "k \<le> rs_fileN s \<Longrightarrow> k \<le> length (rs_hist s)" for k using n by simp
  note up = grows_holds_upto [OF g] grows_doc_rules [OF g] grows_waits_at [OF g]
  have old: "\<exists>rules. bySource (rs_policy s) = Some rules \<and> doc_rules t (rs_policyN s) rules"
    "\<forall>g \<in> set (rs_echo s). holds_upto t g (rs_policyN s)" "holds_upto t (eg_applied (rs_gate s)) (rs_policyN s)"
    "rs_policyN s \<le> rs_fileN s"
    using assms(4) up pn by (auto simp: policy_ok_def)
  have mono: "holds_upto t k a \<Longrightarrow> a \<le> b \<Longrightarrow> b \<le> length (rs_hist t) \<Longrightarrow> holds_upto t k b" for k a b
    unfolding holds_upto_def by (meson order_less_le_trans)
  have reader: "case rs_reader s of
        PRead rules wait gen n \<Rightarrow> holds_upto t gen n \<and> rs_policyN s \<le> n \<and> n \<le> rs_fileN s \<and> doc_rules t n rules \<and> wait = waits_at t n
      | PWaitSet rules gen n \<Rightarrow> holds_upto t gen n \<and> rs_policyN s \<le> n \<and> n \<le> rs_fileN s \<and> doc_rules t n rules
      | PInstalled gen \<Rightarrow> holds_upto t gen (rs_policyN s) | _ \<Rightarrow> True"
    using assms(4) up le by (auto simp: policy_ok_def split: reader.splits)
  show ?thesis using assms(1)
  proof cases
    case working
    then show ?thesis
    proof cases
      case (read rules wait gen)
      then have "wait = waits_at s (rs_fileN s)" "gen = file_gen s" "doc_rules s (rs_fileN s) rules"
        using read_file [OF assms(3,2)] by auto
      moreover have "holds_upto s (file_gen s) (rs_fileN s)" using assms(3) by (simp add: file_ok_def)
      ultimately show ?thesis using read old up n by (auto simp: policy_ok_def)
    next
      case (written gen p k)
      then have "rs_fileN s \<le> k" using assms(3) by (auto simp: file_ok_def)
      then show ?thesis using written old reader by (auto simp: policy_ok_def split: reader.splits)
    next
      case (set_rules rules gen k)
      have "k \<le> length (rs_hist t)" "rs_policyN s \<le> k"
        using set_rules reader le grows_length [OF g] by (auto intro: order_trans)
      then have "holds_upto t e k" if "holds_upto t e (rs_policyN s)" for e using that mono by blast
      then show ?thesis using set_rules old reader by (auto simp: policy_ok_def SetRulesBySource_def)
    qed (use old reader in \<open>auto simp: policy_ok_def reload_defs SetDenyWaitBySource_def split: reader.splits\<close>)
  qed (use old reader in \<open>auto simp: policy_ok_def split: reader.splits\<close>)
qed

definition reload_inv :: "reload_sys \<Rightarrow> bool" where
  "reload_inv s \<longleftrightarrow> callers_ok s \<and> file_ok s \<and> policy_ok s"

interpretation reloads: invariant_system reload_init "\<lambda>s t. rulesPath \<noteq> [] \<and> reload_step rulesPath s t" reload_inv for rulesPath
proof
  fix s assume "reload_init s"
  then show "reload_inv s"
    by (auto simp: reload_init_def reload_inv_def callers_ok_def file_ok_def policy_ok_def file_gen_def holds_upto_def
      newEgressGate_def doc_rules_def no_egress_def)
next
  fix s t assume "rulesPath \<noteq> [] \<and> reload_step rulesPath s t" "reload_inv s"
  then show "reload_inv t"
    using callers_ok_step [of rulesPath s t] file_ok_step [of rulesPath s t] policy_ok_step [of rulesPath s t] by (simp add: reload_inv_def)
qed

lemma reload_reachable_inv:
  assumes "reachable reload_init (reload_step rulesPath) s" "rulesPath \<noteq> []" shows "reload_inv s"
proof -
  have "reachable reload_init (\<lambda>s t. rulesPath \<noteq> [] \<and> reload_step rulesPath s t) s"
    using assms by (simp cong: conj_cong)
  then show ?thesis by (rule reloads.reach_inv)
qed

section \<open>An acknowledged change is in force\<close>

lemma state_at_Suc: "k < length h \<Longrightarrow> state_at (Suc k) h = (case h ! k of (ip, rules, wait) \<Rightarrow> set_source ip rules wait (state_at k h))"
  by (simp add: state_at_def take_Suc_conv_app_nth split: prod.splits)

lemma state_at_latest:
  assumes "n < k" "k \<le> length h"
  shows "\<exists>j. n \<le> j \<and> j < k \<and> fst (h ! j) = fst (h ! n) \<and> pe_egress (state_at k h) (fst (h ! n)) = fst (snd (h ! j))"
  using assms
proof (induction k)
  case (Suc k)
  obtain ip rules wait where hk: "h ! k = (ip, rules, wait)" by (cases "h ! k")
  have st: "state_at (Suc k) h = set_source ip rules wait (state_at k h)" using Suc.prems hk by (simp add: state_at_Suc)
  show ?case
  proof (cases "ip = fst (h ! n)")
    case True
    then show ?thesis using Suc.prems st hk by (intro exI [of _ k]) (auto simp: set_source_def split: option.splits)
  next
    case False
    then have "n < k" using Suc.prems(1) hk by (cases "n = k") auto
    then obtain j where "n \<le> j" "j < k" "fst (h ! j) = fst (h ! n)" "pe_egress (state_at k h) (fst (h ! n)) = fst (snd (h ! j))"
      using Suc.IH Suc.prems by auto
    then show ?thesis using st False by (intro exI [of _ j]) (auto simp: set_source_def split: option.splits)
  qed
qed simp

lemma state_at_unnamed:
  assumes "\<forall>c \<in> set h. fst c \<noteq> []" "k \<le> length h" shows "pe_egress (state_at k h) [] = None"
  using assms(2)
proof (induction k)
  case (Suc k)
  then have "fst (h ! k) \<noteq> []" using assms(1) by simp
  then show ?case using Suc by (auto simp: state_at_Suc set_source_def split: prod.splits option.splits)
qed (simp add: no_egress_def)

text \<open>
  C11: in every interleaving of any number of callers with the reloader, the proxy and the reader of
  the acknowledgements, also with writes, signals and reads that fail, once \<^verbatim>\<open>waitApplied\<close> has
  returned because of an acknowledgement the proxy decides the requests of that source by the
  caller's change or by a later change to the same source, from then on.
\<close>

theorem acked_rules_enforced:
  assumes "reachable reload_init (reload_step rulesPath) s" "rulesPath \<noteq> []"
    and "rs_callers s i = Some (CAcked n gen)"
  shows "\<exists>j ip rules wait. n \<le> j \<and> j < length (rs_hist s) \<and> fst (rs_hist s ! n) = ip \<and> rs_hist s ! j = (ip, rules, wait) \<and>
    rulesForSource (rs_policy s) ip = (case rules of None \<Rightarrow> [] | Some rs \<Rightarrow> rs)"
proof -
  have inv: "callers_ok s" "file_ok s" "policy_ok s" using reload_reachable_inv [OF assms(1,2)] by (auto simp: reload_inv_def)
  have "caller_ok s (CAcked n gen)" using inv(1) assms(3) by (auto simp: callers_ok_def)
  then have "gen \<le> eg_applied (rs_gate s)" by (simp add: caller_ok_def)
  moreover have applied: "holds_upto s (eg_applied (rs_gate s)) (rs_policyN s)" using inv(3) by (simp add: policy_ok_def)
  ultimately have n: "n < rs_policyN s" using assms(3) unfolding holds_upto_def by force
  have k: "rs_policyN s \<le> length (rs_hist s)" using applied by (rule holds_upto_length)
  have named: "\<forall>c \<in> set (rs_hist s). fst c \<noteq> []" using inv(1) by (simp add: callers_ok_def)
  obtain j where j: "n \<le> j" "j < rs_policyN s" "fst (rs_hist s ! j) = fst (rs_hist s ! n)"
    "pe_egress (state_at (rs_policyN s) (rs_hist s)) (fst (rs_hist s ! n)) = fst (snd (rs_hist s ! j))"
    using state_at_latest [OF n k] by blast
  have "bySource (rs_policy s) = Some (pe_egress (state_at (rs_policyN s) (rs_hist s)))"
    using inv(3) n by (auto simp: policy_ok_def doc_rules_def)
  then have "rulesForSource (rs_policy s) (fst (rs_hist s ! n)) = (case fst (snd (rs_hist s ! j)) of None \<Rightarrow> [] | Some rs \<Rightarrow> rs)"
    using j(4) state_at_unnamed [OF named k] by (auto simp: rulesForSource_def split: option.splits)
  then show ?thesis using j k by (intro exI [of _ j] exI [of _ "fst (rs_hist s ! n)"]) (auto intro!: exI [of _ "snd (snd (rs_hist s ! j))"] exI [of _ "fst (snd (rs_hist s ! j))"] prod_eqI)
qed

section \<open>No change is forgotten\<close>

text \<open>
  As long as nothing has failed, the latest generation is applied or somewhere on its way:
  a wake-up is due, the reloader carries it, it is in the file and a hang-up is due, or the proxy
  or the socket carries it.
\<close>

definition under_way :: "reload_sys \<Rightarrow> bool" where
  "under_way s \<longleftrightarrow>
     (let d = eg_desired (rs_gate s) in
      (\<exists>i n g. rs_callers s i = Some (CSignal n g)) \<or> eg_wake (rs_gate s) \<or> rs_reloader s = RWoken \<or> rs_reloader s = RGen d \<or>
      (\<exists>p n. rs_reloader s = RCopied d p n) \<or>
      file_gen s = d \<and> (rs_reloader s = RWritten \<or> rs_hup s \<or> rs_reader s = PWoken) \<or>
      (\<exists>rules wait n. rs_reader s = PRead rules wait d n) \<or> (\<exists>rules n. rs_reader s = PWaitSet rules d n) \<or>
      rs_reader s = PInstalled d \<or> d \<in> set (rs_echo s) \<or> eg_applied (rs_gate s) = d)"

definition nothing_lost :: "reload_sys \<Rightarrow> bool" where
  "nothing_lost s \<longleftrightarrow> (\<not> rs_lost s \<longrightarrow> under_way s)"

lemma under_way_caller:
  assumes "under_way s" "eg_desired (rs_gate t) = eg_desired (rs_gate s)" "eg_applied (rs_gate t) = eg_applied (rs_gate s)"
    "eg_wake (rs_gate s) \<longrightarrow> eg_wake (rs_gate t)" "rs_reloader t = rs_reloader s" "rs_file t = rs_file s" "rs_hup t = rs_hup s"
    "rs_reader t = rs_reader s" "rs_echo t = rs_echo s"
    "\<forall>i n g. rs_callers s i = Some (CSignal n g) \<longrightarrow> rs_callers t i = Some (CSignal n g) \<or> eg_wake (rs_gate t)"
  shows "under_way t"
  using assms by (auto simp: under_way_def file_gen_def Let_def)

lemma nothing_lost_work:
  assumes "reload_work rulesPath s t" "rulesPath \<noteq> []" "reload_inv s" "nothing_lost s" shows "nothing_lost t"
proof (cases "rs_lost s")
  case True
  have "rs_lost t" using assms(1) True by cases simp_all
  then show ?thesis by (simp add: nothing_lost_def)
next
  case False
  have f: "file_gen s \<le> eg_desired (rs_gate s)" and a: "eg_applied (rs_gate s) \<le> eg_desired (rs_gate s)"
    using assms(3) by (auto simp: reload_inv_def file_ok_def policy_ok_def holds_upto_def)
  have u: "under_way s" using assms(4) False by (simp add: nothing_lost_def)
  have "under_way t" using assms(1)
  proof cases
    case (set_map i ip rules wait)
    then show ?thesis by (auto intro!: under_way_caller [OF u])
  next
    case (bump i n gen g)
    then show ?thesis by (auto simp: under_way_def Let_def intro!: exI [of _ i])
  next
    case (signal i n gen)
    then show ?thesis by (auto simp: under_way_def Let_def signal_def)
  next
    case (acked i n gen)
    then show ?thesis by (auto intro!: under_way_caller [OF u])
  next
    case (copy gen)
    then show ?thesis using u by (auto simp: under_way_def Let_def file_gen_def)
  next
    case (written gen p n)
    moreover have "file_gen s \<le> gen" "gen \<le> eg_desired (rs_gate s)" using assms(3) written by (auto simp: reload_inv_def file_ok_def holds_upto_def)
    ultimately show ?thesis using u by (auto simp: under_way_def Let_def file_gen_def)
  next
    case (read rules wait gen)
    then have "gen = file_gen s" using read_file [OF _ assms(2), of s] assms(3) by (auto simp: reload_inv_def)
    then show ?thesis using u read by (auto simp: under_way_def Let_def file_gen_def)
  next
    case (echo gen)
    then show ?thesis using u a by (auto simp: under_way_def Let_def file_gen_def)
  next
    case (mark gen es)
    have "gen \<le> eg_desired (rs_gate s)" using assms(3) mark by (auto simp: reload_inv_def policy_ok_def holds_upto_def)
    then show ?thesis using u a mark by (auto simp: under_way_def Let_def file_gen_def markApplied_def)
  qed (use u in \<open>auto simp: under_way_def Let_def file_gen_def currentDesired_def\<close>)
  then show ?thesis by (simp add: nothing_lost_def)
qed

lemma nothing_lost_step:
  assumes "reload_step rulesPath s t" "rulesPath \<noteq> []" "reload_inv s" "nothing_lost s" shows "nothing_lost t"
  using assms(1)
proof cases
  case working
  then show ?thesis using nothing_lost_work assms(2-4) by blast
next
  case (call i ip rules wait)
  then have "under_way s \<Longrightarrow> under_way t" using under_way_caller [of s t] by auto
  then show ?thesis using assms(4) call(1) by (simp add: nothing_lost_def)
next
  case (gave_up i n gen)
  then have "under_way s \<Longrightarrow> under_way t" using under_way_caller [of s t] by auto
  then show ?thesis using assms(4) gave_up(1) by (simp add: nothing_lost_def)
qed (simp_all add: nothing_lost_def)

text \<open>Progress: work left to do, with everything that a step can set off counted above it.\<close>

fun caller_work :: "caller \<Rightarrow> nat" where
  "caller_work (CStart _ _ _) = 50"
| "caller_work (CBump _) = 40"
| "caller_work (CSignal _ _) = 30"
| "caller_work (CWait _ _) = 1"
| "caller_work _ = 0"

fun reloader_work :: "reloader \<Rightarrow> nat" where
  "reloader_work RIdle = 0"
| "reloader_work RWoken = 19"
| "reloader_work (RGen _) = 18"
| "reloader_work (RCopied _ _ _) = 17"
| "reloader_work RWritten = 16"

fun reader_work :: "reader \<Rightarrow> nat" where
  "reader_work PIdle = 0"
| "reader_work PWoken = 14"
| "reader_work (PRead _ _ _ _) = 13"
| "reader_work (PWaitSet _ _ _) = 12"
| "reader_work (PInstalled _) = 11"

definition callers_work :: "reload_sys \<Rightarrow> nat" where
  "callers_work s = (\<Sum>i \<in> dom (rs_callers s). caller_work (the (rs_callers s i)))"

definition work_left :: "reload_sys \<Rightarrow> nat" where
  "work_left s = callers_work s + (if eg_wake (rs_gate s) then 20 else 0) + reloader_work (rs_reloader s) +
     (if rs_hup s then 15 else 0) + reader_work (rs_reader s) + 5 * length (rs_echo s)"

lemma callers_work_upd:
  assumes "finite (dom (rs_callers s))" "rs_callers s i = Some c" "rs_callers t = (rs_callers s)(i \<mapsto> d)"
  shows "callers_work t + caller_work c = callers_work s + caller_work d"
proof -
  have i: "i \<in> dom (rs_callers s)" "dom (rs_callers t) = dom (rs_callers s)" using assms(2,3) by auto
  have "(\<Sum>j \<in> dom (rs_callers s) - {i}. caller_work (the (rs_callers t j))) = (\<Sum>j \<in> dom (rs_callers s) - {i}. caller_work (the (rs_callers s j)))"
    using assms(3) by (intro sum.cong) auto
  then show ?thesis unfolding callers_work_def i(2) using sum.remove [OF assms(1) i(1), of "\<lambda>j. caller_work (the (rs_callers t j))"]
    sum.remove [OF assms(1) i(1), of "\<lambda>j. caller_work (the (rs_callers s j))"] assms(2,3) by simp
qed

lemma work_decreases:
  assumes "reload_work rulesPath s t" "finite (dom (rs_callers s))" shows "work_left t < work_left s"
  using assms(1)
proof cases
  case (set_map i ip rules wait)
  then show ?thesis using callers_work_upd [OF assms(2) set_map(2), of t "CBump (length (rs_hist s))"] by (simp add: work_left_def)
next
  case (bump i n gen g)
  then show ?thesis using callers_work_upd [OF assms(2) bump(2), of t "CSignal n gen"] by (auto simp: work_left_def bumpDesired_def)
next
  case (signal i n gen)
  then show ?thesis using callers_work_upd [OF assms(2) signal(2), of t "CWait n gen"] by (simp add: work_left_def signal_def)
next
  case (acked i n gen)
  then show ?thesis using callers_work_upd [OF assms(2) acked(2), of t "CAcked n gen"] by (simp add: work_left_def)
qed (simp_all add: work_left_def callers_work_def markApplied_def)

lemma idle_state:
  assumes "\<forall>u. \<not> reload_work rulesPath t u" "rulesPath \<noteq> []" "reload_inv t"
  shows "rs_reloader t = RIdle" "\<not> eg_wake (rs_gate t)" "rs_reader t = PIdle" "\<not> rs_hup t" "rs_echo t = []"
    "rs_callers t i \<noteq> Some (CStart ip rules wait)" "rs_callers t i \<noteq> Some (CBump n)" "rs_callers t i \<noteq> Some (CSignal n gen)"
proof -
  note no = assms(1) [rule_format]
  show r: "rs_reloader t = RIdle"
    using no read_gen [of t] copy [of t] written [of t] hangup [of t] by (cases "rs_reloader t") blast+
  show "\<not> eg_wake (rs_gate t)" using no woken [OF r] by blast
  show p: "rs_reader t = PIdle"
  proof (cases "rs_reader t")
    case PWoken
    then show ?thesis using no read_file [of t rulesPath] read [OF PWoken] assms(2,3) unfolding reload_inv_def by blast
  qed (use no set_wait [of t] set_rules [of t] echo [of t] in blast)+
  show "\<not> rs_hup t" using no hup [OF p] by blast
  show "rs_echo t = []" using no mark [of t] by (cases "rs_echo t") blast+
  show "rs_callers t i \<noteq> Some (CStart ip rules wait)" using no set_map by blast
  show "rs_callers t i \<noteq> Some (CBump n)" using no bump [of t i n] by (metis surj_pair)
  show "rs_callers t i \<noteq> Some (CSignal n gen)" using no signal by blast
qed

lemma settled_state:
  assumes "\<forall>u. \<not> reload_work rulesPath t u" "rulesPath \<noteq> []" "reload_inv t" "nothing_lost t" "\<not> rs_lost t"
  shows "eg_applied (rs_gate t) = eg_desired (rs_gate t) \<and> (\<forall>i c. rs_callers t i = Some c \<longrightarrow> (\<exists>n g. c = CAcked n g \<or> c = CGaveUp n g))"
proof -
  note idle = idle_state [OF assms(1-3)]
  have a: "eg_applied (rs_gate t) = eg_desired (rs_gate t)"
    using assms(4,5) idle by (auto simp: nothing_lost_def under_way_def Let_def)
  have "\<exists>n g. c = CAcked n g \<or> c = CGaveUp n g" if c: "rs_callers t i = Some c" for i c
  proof (cases c)
    case (CWait n g)
    have "caller_ok t c" using assms(3) c by (auto simp: reload_inv_def callers_ok_def)
    then have "applied_enough g (rs_gate t)" using a CWait by (simp add: caller_ok_def applied_enough_def)
    then show ?thesis using assms(1) acked [of t i n g] c CWait by blast
  qed (use c idle(6-8) in auto)
  then show ?thesis using a by blast
qed

lemma work_run:
  assumes "(reload_work rulesPath)\<^sup>*\<^sup>* s t" "rulesPath \<noteq> []" "reload_inv s" "nothing_lost s"
  shows "reload_inv t \<and> nothing_lost t \<and> rs_lost t = rs_lost s"
  using assms(1)
proof (induction rule: rtranclp_induct)
  case (step t u)
  have "rs_lost u = rs_lost t" using step(2) by cases simp_all
  then show ?case using step working [OF step(2)] nothing_lost_step reloads.step_inv [of rulesPath t u] assms(2) by blast
qed (use assms in auto)

lemma nothing_lost_reachable:
  assumes "reachable reload_init (reload_step rulesPath) s" "rulesPath \<noteq> []" shows "nothing_lost s"
  using assms(1)
proof (induction rule: reachable.induct)
  case (reach_init s)
  then show ?case by (auto simp: reload_init_def nothing_lost_def under_way_def newEgressGate_def)
next
  case (reach_next s t)
  then show ?case using nothing_lost_step assms(2) reload_reachable_inv by blast
qed

text \<open>
  No wake-up, signal or acknowledgement is lost however the changes are coalesced: from every
  reachable state in which no write, signal or read has failed the work ends after finitely many
  steps, and when it ends the latest generation is applied and no caller is left waiting.
\<close>

theorem reload_settles:
  assumes "reachable reload_init (reload_step rulesPath) s" "rulesPath \<noteq> []" "\<not> rs_lost s"
  shows "(\<forall>run. run 0 = s \<longrightarrow> (\<exists>k. \<not> reload_work rulesPath (run k) (run (Suc k)))) \<and>
    (\<forall>t. (reload_work rulesPath)\<^sup>*\<^sup>* s t \<longrightarrow> (\<forall>u. \<not> reload_work rulesPath t u) \<longrightarrow>
       eg_applied (rs_gate t) = eg_desired (rs_gate t) \<and>
       (\<forall>i c. rs_callers t i = Some c \<longrightarrow> (\<exists>n g. c = CAcked n g \<or> c = CGaveUp n g)))"
proof -
  have inv: "reload_inv s" "nothing_lost s" using reload_reachable_inv nothing_lost_reachable assms(1,2) by blast+
  have "\<exists>k. \<not> reload_work rulesPath (run k) (run (Suc k))" if run: "run 0 = s" for run
  proof (rule ccontr)
    assume "\<not> ?thesis"
    then have step: "reload_work rulesPath (run k) (run (Suc k))" for k by blast
    have "(reload_work rulesPath)\<^sup>*\<^sup>* s (run k)" for k
      by (induction k) (use run step in \<open>auto intro: rtranclp.rtrancl_into_rtrancl\<close>)
    then have "finite (dom (rs_callers (run k)))" for k
      using work_run [OF _ assms(2) inv] by (auto simp: reload_inv_def callers_ok_def)
    then have "work_left (run (Suc k)) < work_left (run k)" for k using work_decreases [OF step] by blast
    then show False using wf_iff_no_infinite_down_chain [THEN iffD1, OF wf_measure [of work_left]] by (auto simp: in_measure)
  qed
  moreover have "eg_applied (rs_gate t) = eg_desired (rs_gate t) \<and> (\<forall>i c. rs_callers t i = Some c \<longrightarrow> (\<exists>n g. c = CAcked n g \<or> c = CGaveUp n g))"
    if "(reload_work rulesPath)\<^sup>*\<^sup>* s t" "\<forall>u. \<not> reload_work rulesPath t u" for t
    using settled_state [OF that(2) assms(2)] work_run [OF that(1) assms(2) inv] assms(3) by blast
  ultimately show ?thesis by blast
qed

section \<open>Concrete runs\<close>

text \<open>The steps as a function of who moves, so that a run can be computed.\<close>

datatype mover = Call nat string "EgressRule list option" int | Caller nat | Reloader | Reloader_fails | Proxy | Acks

fun fire :: "string \<Rightarrow> mover \<Rightarrow> reload_sys \<Rightarrow> reload_sys option" where
  "fire path (Call i ip rules wait) s =
     (if rs_callers s i = None \<and> ip \<noteq> [] then Some (s\<lparr>rs_callers := (rs_callers s)(i \<mapsto> CStart ip rules wait)\<rparr>) else None)"
| "fire path (Caller i) s =
     (case rs_callers s i of
        Some (CStart ip rules wait) \<Rightarrow> Some (s\<lparr>rs_pack := set_source ip rules wait (rs_pack s),
          rs_callers := (rs_callers s)(i \<mapsto> CBump (length (rs_hist s))), rs_hist := rs_hist s @ [(ip, rules, wait)]\<rparr>)
      | Some (CBump n) \<Rightarrow> (case bumpDesired (rs_gate s) of (gen, g) \<Rightarrow>
          Some (s\<lparr>rs_gate := g, rs_callers := (rs_callers s)(i \<mapsto> CSignal n gen)\<rparr>))
      | Some (CSignal n gen) \<Rightarrow> Some (s\<lparr>rs_gate := signal (rs_gate s), rs_callers := (rs_callers s)(i \<mapsto> CWait n gen)\<rparr>)
      | Some (CWait n gen) \<Rightarrow> if applied_enough gen (rs_gate s) then Some (s\<lparr>rs_callers := (rs_callers s)(i \<mapsto> CAcked n gen)\<rparr>) else None
      | _ \<Rightarrow> None)"
| "fire path Reloader s =
     (case rs_reloader s of
        RIdle \<Rightarrow> if eg_wake (rs_gate s) then Some (s\<lparr>rs_reloader := RWoken, rs_gate := (rs_gate s)\<lparr>eg_wake := False\<rparr>\<rparr>) else None
      | RWoken \<Rightarrow> Some (s\<lparr>rs_reloader := RGen (currentDesired (rs_gate s))\<rparr>)
      | RGen g \<Rightarrow> Some (s\<lparr>rs_reloader := RCopied g (rs_pack s) (length (rs_hist s))\<rparr>)
      | RCopied g p n \<Rightarrow> Some (s\<lparr>rs_reloader := RWritten, rs_fileN := n,
          rs_file := DocEnvelope \<lparr>ef_Generation = g, ef_Sources = pe_egress p, ef_DenyWait = pe_denyWait p\<rparr>\<rparr>)
      | RWritten \<Rightarrow> Some (s\<lparr>rs_reloader := RIdle, rs_hup := True\<rparr>))"
| "fire path Reloader_fails s =
     (case rs_reloader s of RCopied g p n \<Rightarrow> Some (s\<lparr>rs_reloader := RIdle, rs_lost := True\<rparr>) | _ \<Rightarrow> None)"
| "fire path Proxy s =
     (case rs_reader s of
        PIdle \<Rightarrow> if rs_hup s then Some (s\<lparr>rs_reader := PWoken, rs_hup := False\<rparr>) else None
      | PWoken \<Rightarrow> (case readRules path (Some (rs_file s)) of
          Inr (rules, wait, gen) \<Rightarrow> Some (s\<lparr>rs_reader := PRead rules wait gen (rs_fileN s)\<rparr>) | Inl e \<Rightarrow> None)
      | PRead rules wait gen n \<Rightarrow> Some (s\<lparr>rs_reader := PWaitSet rules gen n, rs_policy := SetDenyWaitBySource wait (rs_policy s)\<rparr>)
      | PWaitSet rules gen n \<Rightarrow> Some (s\<lparr>rs_reader := PInstalled gen, rs_policy := SetRulesBySource rules (rs_policy s), rs_policyN := n\<rparr>)
      | PInstalled gen \<Rightarrow> Some (s\<lparr>rs_reader := PIdle, rs_echo := (if gen > 0 then rs_echo s @ [gen] else rs_echo s)\<rparr>))"
| "fire path Acks s =
     (case rs_echo s of [] \<Rightarrow> None | gen # es \<Rightarrow> Some (s\<lparr>rs_echo := es, rs_gate := markApplied gen (rs_gate s)\<rparr>))"

fun schedule :: "string \<Rightarrow> mover list \<Rightarrow> reload_sys \<Rightarrow> reload_sys option" where
  "schedule path [] s = Some s"
| "schedule path (m # ms) s = (case fire path m s of None \<Rightarrow> None | Some t \<Rightarrow> schedule path ms t)"

lemma fire_step: "fire path m s = Some t \<Longrightarrow> reload_step path s t"
proof (cases m)
  case Proxy
  assume "fire path m s = Some t"
  then show ?thesis using working [OF echo [of s]]
    by (auto simp: Proxy intro: working reload_work.intros split: reader.splits if_splits prod.splits sum.splits)
qed (auto intro: reload_step.intros reload_work.intros split: option.splits caller.splits reloader.splits list.splits if_splits prod.splits)

lemma schedule_reachable:
  "schedule path ms s = Some t \<Longrightarrow> reachable reload_init (reload_step path) s \<Longrightarrow> reachable reload_init (reload_step path) t"
proof (induction ms arbitrary: s)
  case (Cons m ms)
  then obtain u where u: "fire path m s = Some u" "schedule path ms u = Some t" by (auto split: option.splits)
  have "reachable reload_init (reload_step path) u" using Cons.prems(2) fire_step [OF u(1)] by (rule reach_next)
  then show ?case using Cons.IH [OF u(2)] by blast
qed simp

definition boot_state :: reload_sys where
  "boot_state = \<lparr>rs_pack = \<lparr>pe_egress = Map.empty, pe_denyWait = Map.empty\<rparr>, rs_gate = newEgressGate, rs_callers = Map.empty,
     rs_reloader = RIdle, rs_file = DocArray [], rs_fileN = 0, rs_hup = False, rs_reader = PIdle,
     rs_policy = \<lparr>bySource = Some [[] \<mapsto> []], denyWait = Some Map.empty\<rparr>, rs_policyN = 0, rs_echo = [], rs_hist = [], rs_lost = False\<rparr>"

lemma scheduled: "schedule path ms boot_state = Some t \<Longrightarrow> reachable reload_init (reload_step path) t"
  by (rule schedule_reachable) (auto intro: reach_init simp: reload_init_def boot_state_def)

definition full_round :: "mover list" where
  "full_round = [Call 0 ''172.16.2.2'' (Some [sample_allow]) 5, Caller 0, Caller 0, Caller 0] @ replicate 5 Reloader @ replicate 5 Proxy @ [Acks, Caller 0]"

definition after_round :: reload_sys where
  "after_round = the (schedule ''/rules'' full_round boot_state)"

lemma full_round_runs: "schedule ''/rules'' full_round boot_state \<noteq> None"
  by code_simp

lemma after_round_reachable: "reachable reload_init (reload_step ''/rules'') after_round"
  using full_round_runs scheduled unfolding after_round_def by auto

theorem acked_rules_enforced_witness:
  "\<exists>j ip rules wait. 0 \<le> j \<and> j < length (rs_hist after_round) \<and> fst (rs_hist after_round ! 0) = ip \<and>
     rs_hist after_round ! j = (ip, rules, wait) \<and>
     rulesForSource (rs_policy after_round) ip = (case rules of None \<Rightarrow> [] | Some rs \<Rightarrow> rs)"
proof (rule acked_rules_enforced [OF after_round_reachable])
  show "rs_callers after_round 0 = Some (CAcked 0 1)" by code_simp
qed simp

lemma work_zero: "reloader_work r = 0 \<longleftrightarrow> r = RIdle" "reader_work p = 0 \<longleftrightarrow> p = PIdle"
  by (cases r; simp) (cases p; simp)

lemma after_round_idle: "\<not> reload_work ''/rules'' after_round u"
proof
  have "reloader_work (rs_reloader after_round) = 0" "reader_work (rs_reader after_round) = 0" by code_simp+
  then have idle: "rs_reloader after_round = RIdle" "rs_reader after_round = PIdle" by (simp_all add: work_zero)
  have calm: "eg_wake (rs_gate after_round) = False" "rs_hup after_round = False" "rs_echo after_round = []" by code_simp+
  have callers: "rs_callers after_round = [0 \<mapsto> CAcked 0 1]"
    by (simp add: after_round_def full_round_def boot_state_def numeral_eq_Suc newEgressGate_def bumpDesired_def signal_def
      applied_enough_def markApplied_def currentDesired_def readRules_def)
  assume "reload_work ''/rules'' after_round u"
  then show False using callers idle calm by cases (auto split: if_splits)
qed

theorem reload_settles_witness:
  "eg_applied (rs_gate after_round) = eg_desired (rs_gate after_round) \<and> eg_desired (rs_gate after_round) = 1"
proof -
  have "\<not> rs_lost after_round" by code_simp
  then have "eg_applied (rs_gate after_round) = eg_desired (rs_gate after_round)"
    using reload_settles [OF after_round_reachable] after_round_idle by blast
  moreover have "eg_desired (rs_gate after_round) = 1" by code_simp
  ultimately show ?thesis by simp
qed

text \<open>
  A failed write of the rules file is not retried: the reloader goes back to sleep, nothing is left
  that could move on, and the change waits for the next change of any sandbox of the pod.
\<close>

definition failing_round :: "mover list" where
  "failing_round = [Call 0 ''172.16.2.2'' (Some [sample_allow]) 5, Caller 0, Caller 0, Caller 0] @ replicate 3 Reloader @ [Reloader_fails]"

definition after_failure :: reload_sys where
  "after_failure = the (schedule ''/rules'' failing_round boot_state)"

theorem failed_write_stalls:
  "reachable reload_init (reload_step ''/rules'') after_failure \<and> rs_callers after_failure 0 = Some (CWait 0 1) \<and>
   eg_applied (rs_gate after_failure) < eg_desired (rs_gate after_failure) \<and>
   list_all (\<lambda>m. Option.is_none (fire ''/rules'' m after_failure)) [Caller 0, Reloader, Proxy, Acks]"
proof -
  have "schedule ''/rules'' failing_round boot_state \<noteq> None" by code_simp
  then have "reachable reload_init (reload_step ''/rules'') after_failure" using scheduled unfolding after_failure_def by auto
  moreover have "rs_callers after_failure 0 = Some (CWait 0 1)" by code_simp
  moreover have "eg_applied (rs_gate after_failure) < eg_desired (rs_gate after_failure)" by code_simp
  moreover have "list_all (\<lambda>m. Option.is_none (fire ''/rules'' m after_failure)) [Caller 0, Reloader, Proxy, Acks]" by code_simp
  ultimately show ?thesis by simp
qed

end
