(* ===== verification/Audit_Route.thy ===== *)
theory Audit_Route
  imports Broker Sandbox_Spec
begin

text \<open>
  From the audit records of the side processes to the events of a sandbox
  (\<^verbatim>\<open>internal/sandboxd/sidecar.go\<close>, \<^verbatim>\<open>internal/sandboxd/fusecontrol.go\<close>): the correlator, the
  translators of the proxy's, the file system's and the storage backend's records, and the two
  routers that find the sandbox a record of the shared proxy or of the shared FUSE process belongs
  to.  A record is the JSON object it was decoded from.
\<close>

section \<open>Fields of a record\<close>

definition raw_str :: "json_object \<Rightarrow> string \<Rightarrow> string" where
  "raw_str raw k = (case map_of raw k of Some (JStr s) \<Rightarrow> s | _ \<Rightarrow> [])"

text \<open>The conversion of a decoded number to an integer, towards zero.\<close>

definition int_of_num :: "rat \<Rightarrow> int" where
  "int_of_num r = (if r \<ge> 0 then \<lfloor>r\<rfloor> else \<lceil>r\<rceil>)"

definition intField :: "json_object \<Rightarrow> string \<Rightarrow> int" where
  "intField raw k = (case map_of raw k of Some (JNum r) \<Rightarrow> int_of_num r | _ \<Rightarrow> 0)"

definition requestIDKey :: "jval option \<Rightarrow> string" where
  "requestIDKey v = (case v of Some (JStr s) \<Rightarrow> s | Some (JNum r) \<Rightarrow> Itoa (int_of_num r) | _ \<Rightarrow> [])"

definition non_empty :: "string \<Rightarrow> string option" where
  "non_empty s = (if s = [] then None else Some s)"

definition rawToStringMap :: "jval option \<Rightarrow> (string \<times> string) list option" where
  "rawToStringMap v =
     (case v of
        Some (JObj m) \<Rightarrow>
          (let out = List.map_filter (\<lambda>(k, x). case x of JStr s \<Rightarrow> Some (k, s) | _ \<Rightarrow> None) m
           in if out = [] then None else Some out)
      | _ \<Rightarrow> None)"

section \<open>Events\<close>

datatype event_access = Allowed | Denied

datatype fs_operation = OpRead | OpWrite | OpDelete

datatype sandbox_event =
    EgressRequest int event_access string string string "string option" "(string \<times> string) list option" "string option" "string option"
  | EgressResponse int int int int "(string \<times> string) list option"
  | EgressChunk int int string "string option"
  | FSRequest int event_access string string fs_operation
  | FSResponse int int Backend int "string option"
  | FsSyncRequest int Backend string string
  | FsSyncResponse int int int "string option"

type_synonym factory = "int \<Rightarrow> int \<Rightarrow> sandbox_event"

text \<open>The discriminator of the generated event type.\<close>

fun Discriminator :: "sandbox_event \<Rightarrow> string option" where
  "Discriminator (EgressRequest _ _ _ _ _ _ _ _ _) = Some ''egress.request''"
| "Discriminator (EgressResponse _ _ _ _ _) = Some ''egress.response''"
| "Discriminator (EgressChunk _ _ _ _) = Some ''egress.chunk''"
| "Discriminator (FSRequest _ _ _ _ _) = Some ''fs.request''"
| "Discriminator (FSResponse _ _ _ _ _) = Some ''fs.response''"
| "Discriminator (FsSyncRequest _ _ _ _) = Some ''system.fs-sync-request''"
| "Discriminator (FsSyncResponse _ _ _ _) = Some ''system.fs-sync-response''"

definition access_of :: "string \<Rightarrow> event_access option" where
  "access_of verdict = (if verdict = ''allow'' then Some Allowed else if verdict = ''deny'' then Some Denied else None)"

definition proxyRequestFactory :: "json_object \<Rightarrow> factory option" where
  "proxyRequestFactory raw =
     (case access_of (raw_str raw ''verdict'') of
        None \<Rightarrow> None
      | Some access \<Rightarrow>
          (let path = (if raw_str raw ''path'' = [] then ''/'' else raw_str raw ''path'')
           in Some (\<lambda>i ts. EgressRequest i access (raw_str raw ''host'') (raw_str raw ''method'') path (non_empty (raw_str raw ''query''))
                (rawToStringMap (map_of raw ''headers'')) (non_empty (raw_str raw ''body'')) (non_empty (raw_str raw ''upstream'')))))"

definition proxyResponseFactory :: "json_object \<Rightarrow> int \<Rightarrow> factory" where
  "proxyResponseFactory raw requestID =
     (\<lambda>i ts. EgressResponse i requestID (intField raw ''status'') (intField raw ''duration_ms'') (rawToStringMap (map_of raw ''headers'')))"

definition proxyStreamChunkFactory :: "json_object \<Rightarrow> int \<Rightarrow> factory option" where
  "proxyStreamChunkFactory raw requestID =
     (if raw_str raw ''body'' = [] then None
      else Some (\<lambda>i ts. EgressChunk i requestID (raw_str raw ''body'') (non_empty (raw_str raw ''label''))))"

definition isConcreteFuseOp :: "string \<Rightarrow> bool" where
  "isConcreteFuseOp opn \<longleftrightarrow> opn \<in> set [''read'', ''readdir'', ''write'', ''mkdir'', ''remove'', ''rename'', ''symlink'']"

definition fuseOpKind :: "string \<Rightarrow> fs_operation option" where
  "fuseOpKind opn =
     (if opn \<in> set [''attr'', ''lookup'', ''readdir'', ''open'', ''read''] then Some OpRead
      else if opn \<in> set [''open-write'', ''write'', ''create'', ''mkdir'', ''truncate'', ''symlink''] then Some OpWrite
      else if opn = ''remove'' then Some OpDelete else None)"

definition fuseRequestFactory :: "json_object \<Rightarrow> string \<Rightarrow> factory option" where
  "fuseRequestFactory raw mnt =
     (case access_of (raw_str raw ''verdict'') of
        None \<Rightarrow> None
      | Some access \<Rightarrow>
          (case fuseOpKind (raw_str raw ''op'') of
             None \<Rightarrow> None
           | Some operation \<Rightarrow> Some (\<lambda>i ts. FSRequest i access mnt (raw_str raw ''path'') operation)))"

definition fuseResponseFactory :: "json_object \<Rightarrow> Backend \<Rightarrow> int \<Rightarrow> factory" where
  "fuseResponseFactory raw backend requestID =
     (\<lambda>i ts. FSResponse i requestID backend (intField raw ''duration_ms'') (non_empty (raw_str raw ''err'')))"

definition sync_operation :: "string \<Rightarrow> bool" where
  "sync_operation opn \<longleftrightarrow> opn \<in> set [''delete'', ''get'', ''list'', ''list-dir'', ''move'', ''put'', ''stat'']"

definition syncRequestFactory :: "json_object \<Rightarrow> Backend \<Rightarrow> factory option" where
  "syncRequestFactory raw backend =
     (if \<not> sync_operation (raw_str raw ''op'') then None
      else Some (\<lambda>i ts. FsSyncRequest i backend (raw_str raw ''op'') (raw_str raw ''path'')))"

definition syncResponseFactory :: "json_object \<Rightarrow> int \<Rightarrow> factory" where
  "syncResponseFactory raw requestID =
     (\<lambda>i ts. FsSyncResponse i requestID (intField raw ''duration_ms'') (non_empty (raw_str raw ''err'')))"

section \<open>Translators\<close>

text \<open>
  A translator's state: its correlator, from the record's request id to the event id the request
  was published under, and the broker of the sandbox; \<open>tr_log\<close> remembers for the statements what it
  published, with the record's request id and the event id.
\<close>

record translator =
  tr_corr :: "(string \<times> int) list"
  tr_broker :: "sandbox_event broker"
  tr_log :: "(string \<times> int \<times> sandbox_event) list"

definition corr_put :: "string \<Rightarrow> int \<Rightarrow> (string \<times> int) list \<Rightarrow> (string \<times> int) list" where
  "corr_put internalID sseID m = AList.update internalID sseID m"

definition corr_peek :: "string \<Rightarrow> (string \<times> int) list \<Rightarrow> int option" where
  "corr_peek internalID m = map_of m internalID"

definition corr_take :: "string \<Rightarrow> (string \<times> int) list \<Rightarrow> int option \<times> (string \<times> int) list" where
  "corr_take internalID m = (case map_of m internalID of None \<Rightarrow> (None, m) | Some i \<Rightarrow> (Some i, AList.delete internalID m))"

definition emit :: "string \<Rightarrow> factory option \<Rightarrow> int \<Rightarrow> translator \<Rightarrow> int option \<times> translator" where
  "emit internalID f now t =
     (case f of
        None \<Rightarrow> (None, t)
      | Some build \<Rightarrow> (case Publish Discriminator build now (tr_broker t) of (i, b) \<Rightarrow>
          (Some i, t\<lparr>tr_broker := b, tr_log := tr_log t @ [(internalID, i, build i now)]\<rparr>)))"

definition proxy_handle :: "int \<Rightarrow> json_object \<Rightarrow> translator \<Rightarrow> translator" where
  "proxy_handle now raw t =
     (let phase = raw_str raw ''phase''; internalID = requestIDKey (map_of raw ''request_id''); verdict = raw_str raw ''verdict'' in
      if phase = ''request'' then
        (case emit internalID (proxyRequestFactory raw) now t of
           (None, t1) \<Rightarrow> t1
         | (Some sseID, t1) \<Rightarrow>
             if verdict = ''allow'' \<or> verdict = ''deny'' then t1\<lparr>tr_corr := corr_put internalID sseID (tr_corr t1)\<rparr> else t1)
      else if phase = ''response_chunk'' then
        (case corr_peek internalID (tr_corr t) of
           None \<Rightarrow> t
         | Some sseID \<Rightarrow> snd (emit internalID (proxyStreamChunkFactory raw sseID) now t))
      else if phase = ''response'' then
        (if verdict \<noteq> ''allow'' \<and> verdict \<noteq> ''error'' \<and> verdict \<noteq> ''deny'' then t
         else
           (case (if verdict = ''allow'' \<and> raw_str raw ''method'' \<noteq> ''DNS'' then (corr_peek internalID (tr_corr t), tr_corr t)
                  else corr_take internalID (tr_corr t)) of
              (None, c) \<Rightarrow> t\<lparr>tr_corr := c\<rparr>
            | (Some sseID, c) \<Rightarrow> snd (emit internalID (Some (proxyResponseFactory raw sseID)) now (t\<lparr>tr_corr := c\<rparr>))))
      else t)"

definition fuse_handle :: "string \<Rightarrow> Backend \<Rightarrow> int \<Rightarrow> json_object \<Rightarrow> translator \<Rightarrow> translator" where
  "fuse_handle mnt backend now raw t =
     (let phase = raw_str raw ''phase''; opn = raw_str raw ''op''; internalID = raw_str raw ''request_id''; verdict = raw_str raw ''verdict'' in
      if phase = ''request'' then
        (if verdict = ''allow'' \<and> \<not> isConcreteFuseOp opn then t
         else
           (case emit internalID (fuseRequestFactory raw mnt) now t of
              (None, t1) \<Rightarrow> t1
            | (Some sseID, t1) \<Rightarrow>
                if verdict = ''allow'' \<or> verdict = ''deny'' then t1\<lparr>tr_corr := corr_put internalID sseID (tr_corr t1)\<rparr> else t1))
      else if phase = ''response'' then
        (if verdict \<noteq> ''deny'' \<and> \<not> isConcreteFuseOp opn then t
         else
           (case corr_take internalID (tr_corr t) of
              (None, c) \<Rightarrow> t\<lparr>tr_corr := c\<rparr>
            | (Some sseID, c) \<Rightarrow> snd (emit internalID (Some (fuseResponseFactory raw backend sseID)) now (t\<lparr>tr_corr := c\<rparr>))))
      else t)"

definition sync_handle :: "Backend \<Rightarrow> int \<Rightarrow> json_object \<Rightarrow> translator \<Rightarrow> translator" where
  "sync_handle backend now raw t =
     (let phase = raw_str raw ''phase''; internalID = raw_str raw ''request_id'' in
      if phase = ''request'' then
        (case emit internalID (syncRequestFactory raw backend) now t of
           (None, t1) \<Rightarrow> t1
         | (Some sseID, t1) \<Rightarrow> t1\<lparr>tr_corr := corr_put internalID sseID (tr_corr t1)\<rparr>)
      else if phase = ''response'' then
        (case corr_take internalID (tr_corr t) of
           (None, c) \<Rightarrow> t\<lparr>tr_corr := c\<rparr>
         | (Some sseID, c) \<Rightarrow> snd (emit internalID (Some (syncResponseFactory raw sseID)) now (t\<lparr>tr_corr := c\<rparr>)))
      else t)"

section \<open>A response refers to its request\<close>

text \<open>The request an event refers to, and its own id.\<close>

fun refers :: "sandbox_event \<Rightarrow> int option" where
  "refers (EgressResponse _ r _ _ _) = Some r"
| "refers (EgressChunk _ r _ _) = Some r"
| "refers (FSResponse _ r _ _ _) = Some r"
| "refers (FsSyncResponse _ r _ _) = Some r"
| "refers _ = None"

text \<open>What a translator may do with one record.\<close>

definition published :: "string \<Rightarrow> sandbox_event \<Rightarrow> translator \<Rightarrow> translator \<Rightarrow> bool" where
  "published k ev t t' \<longleftrightarrow> nextID (tr_broker t') = nextID (tr_broker t) + 1 \<and> tr_log t' = tr_log t @ [(k, nextID (tr_broker t'), ev)]"

definition forgets :: "translator \<Rightarrow> translator \<Rightarrow> bool" where
  "forgets t t' \<longleftrightarrow> (\<forall>k v. map_of (tr_corr t') k = Some v \<longrightarrow> map_of (tr_corr t) k = Some v)"

definition silent :: "translator \<Rightarrow> translator \<Rightarrow> bool" where
  "silent t t' \<longleftrightarrow> tr_broker t' = tr_broker t \<and> tr_log t' = tr_log t \<and> forgets t t'"

definition asked :: "string \<Rightarrow> translator \<Rightarrow> translator \<Rightarrow> bool" where
  "asked k t t' \<longleftrightarrow> (\<exists>ev. published k ev t t' \<and> refers ev = None \<and>
     (map_of (tr_corr t') = (map_of (tr_corr t))(k \<mapsto> nextID (tr_broker t')) \<or> forgets t t'))"

definition answered :: "string \<Rightarrow> translator \<Rightarrow> translator \<Rightarrow> bool" where
  "answered k t t' \<longleftrightarrow> (\<exists>ev v. published k ev t t' \<and> map_of (tr_corr t) k = Some v \<and> refers ev = Some v \<and> forgets t t')"

text \<open>Between two records other parts of the sandbox publish to the same broker.\<close>

inductive fed :: "(int \<Rightarrow> json_object \<Rightarrow> translator \<Rightarrow> translator) \<Rightarrow> translator \<Rightarrow> translator \<Rightarrow> bool" for handle where
  translated: "fed handle t (handle now raw t)"
| others: "nextID (tr_broker t) \<le> nextID b \<Longrightarrow> fed handle t (t\<lparr>tr_broker := b\<rparr>)"

definition tr_init :: "translator \<Rightarrow> bool" where
  "tr_init t \<longleftrightarrow> tr_corr t = [] \<and> tr_log t = []"

definition tr_ok :: "translator \<Rightarrow> bool" where
  "tr_ok t \<longleftrightarrow>
     (\<forall>k v. map_of (tr_corr t) k = Some v \<longrightarrow> (\<exists>ev. (k, v, ev) \<in> set (tr_log t) \<and> refers ev = None)) \<and>
     sorted_wrt (<) (map (fst o snd) (tr_log t)) \<and> (\<forall>x \<in> set (tr_log t). fst (snd x) \<le> nextID (tr_broker t)) \<and>
     (\<forall>l1 k i ev l2 v. tr_log t = l1 @ (k, i, ev) # l2 \<and> refers ev = Some v \<longrightarrow> (\<exists>ev'. (k, v, ev') \<in> set l1 \<and> refers ev' = None))"

lemma tr_ok_corr: "tr_ok t \<Longrightarrow> map_of (tr_corr t) k = Some v \<Longrightarrow> \<exists>ev. (k, v, ev) \<in> set (tr_log t) \<and> refers ev = None"
  by (simp add: tr_ok_def)

lemma published_ok:
  assumes "tr_ok t" "published k ev t t'"
  shows "sorted_wrt (<) (map (fst o snd) (tr_log t'))" "\<forall>x \<in> set (tr_log t'). fst (snd x) \<le> nextID (tr_broker t')"
  using assms by (fastforce simp: tr_ok_def published_def sorted_wrt_append)+

lemma split_snoc:
  assumes "xs @ [x] = l1 @ y # l2" obtains "l1 = xs" "y = x" "l2 = []" | l where "l2 = l @ [x]" "xs = l1 @ y # l"
  using assms by (cases l2 rule: rev_cases) auto

lemma answers_kept:
  assumes "tr_ok t" "published k ev t t'" "\<And>v. refers ev = Some v \<Longrightarrow> \<exists>ev'. (k, v, ev') \<in> set (tr_log t) \<and> refers ev' = None"
    and "tr_log t' = l1 @ (k', i, e) # l2" "refers e = Some v"
  shows "\<exists>ev'. (k', v, ev') \<in> set l1 \<and> refers ev' = None"
proof -
  have "tr_log t @ [(k, nextID (tr_broker t'), ev)] = l1 @ (k', i, e) # l2" using assms(2,4) by (simp add: published_def)
  then show ?thesis
  proof (cases rule: split_snoc)
    case 1
    then show ?thesis using assms(3,5) by auto
  next
    case (2 l)
    then show ?thesis using assms(1,5) unfolding tr_ok_def by blast
  qed
qed

locale correlated =
  fixes handle :: "int \<Rightarrow> json_object \<Rightarrow> translator \<Rightarrow> translator" and key :: "json_object \<Rightarrow> string"
  assumes handle_cases: "silent t (handle now raw t) \<or> asked (key raw) t (handle now raw t) \<or> answered (key raw) t (handle now raw t)"
begin

lemma handle_ok:
  assumes "tr_ok t" shows "tr_ok (handle now raw t)"
proof -
  let ?t = "handle now raw t"
  from handle_cases [of t now raw] consider "silent t ?t" | "asked (key raw) t ?t" | "answered (key raw) t ?t" by blast
  then show ?thesis
  proof cases
    case 1
    then have "tr_broker ?t = tr_broker t" "tr_log ?t = tr_log t" "forgets t ?t" by (auto simp: silent_def)
    then show ?thesis using assms unfolding tr_ok_def forgets_def by metis
  next
    case 2
    then obtain ev where ev: "published (key raw) ev t ?t" "refers ev = None"
      "map_of (tr_corr ?t) = (map_of (tr_corr t))(key raw \<mapsto> nextID (tr_broker ?t)) \<or> forgets t ?t" by (auto simp: asked_def)
    have "\<exists>e. (k, v, e) \<in> set (tr_log ?t) \<and> refers e = None" if "map_of (tr_corr ?t) k = Some v" for k v
    proof (cases "forgets t ?t")
      case True
      then show ?thesis using that tr_ok_corr [OF assms, of k v] ev(1) by (auto simp: published_def forgets_def)
    next
      case False
      then have "k = key raw \<and> v = nextID (tr_broker ?t) \<or> map_of (tr_corr t) k = Some v" using that ev(3) by (auto split: if_splits)
      then show ?thesis using tr_ok_corr [OF assms, of k v] ev(1,2) by (auto simp: published_def)
    qed
    then show ?thesis unfolding tr_ok_def [of ?t] using published_ok [OF assms ev(1)] answers_kept [OF assms ev(1)] ev(2) by auto
  next
    case 3
    then obtain ev v where ev: "published (key raw) ev t ?t" "map_of (tr_corr t) (key raw) = Some v" "refers ev = Some v" "forgets t ?t"
      by (auto simp: answered_def)
    have "\<exists>e. (k, v, e) \<in> set (tr_log ?t) \<and> refers e = None" if "map_of (tr_corr ?t) k = Some v" for k v
      using that ev tr_ok_corr [OF assms, of k v] by (auto simp: published_def forgets_def)
    moreover have "\<exists>ev'. (key raw, v, ev') \<in> set (tr_log t) \<and> refers ev' = None" using tr_ok_corr [OF assms ev(2)] .
    ultimately show ?thesis unfolding tr_ok_def [of ?t]
      using published_ok [OF assms ev(1)] answers_kept [OF assms ev(1)] ev(3) by auto
  qed
qed

lemma fed_ok: "fed handle t t' \<Longrightarrow> tr_ok t \<Longrightarrow> tr_ok t'"
  by (induction rule: fed.induct) (auto simp: handle_ok, fastforce simp: tr_ok_def)

lemma reach_ok: "reachable tr_init (fed handle) t \<Longrightarrow> tr_ok t"
proof (induction rule: reachable.induct)
  case (reach_init t)
  then show ?case by (simp add: tr_init_def tr_ok_def)
qed (rule fed_ok)

lemma matched:
  assumes "reachable tr_init (fed handle) t" "tr_log t = l1 @ (k, i, ev) # l2" "refers ev = Some v"
  shows "\<exists>ev'. (k, v, ev') \<in> set l1 \<and> refers ev' = None \<and> v < i"
proof -
  have ok: "tr_ok t" by (rule reach_ok [OF assms(1)])
  then obtain ev' where ev': "(k, v, ev') \<in> set l1" "refers ev' = None" using assms(2,3) unfolding tr_ok_def by blast
  have "sorted_wrt (<) (map (fst o snd) l1 @ i # map (fst o snd) l2)" using ok assms(2) by (simp add: tr_ok_def)
  then show ?thesis using ev' by (force simp: sorted_wrt_append)
qed

end

lemma Publish_next: "Publish d f now b = (i, b') \<Longrightarrow> i = nextID b + 1 \<and> nextID b' = nextID b + 1"
  by (auto simp: Publish_def publish_def fan_out_def Let_def split: if_splits prod.splits)

lemma emit_None: "emit k f now t = (None, t') \<Longrightarrow> f = None \<and> t' = t"
  by (auto simp: emit_def split: option.splits prod.splits)

lemma emit_Some:
  "emit k f now t = (Some i, t') \<Longrightarrow> \<exists>build. f = Some build \<and> i = nextID (tr_broker t') \<and> published k (build i now) t t' \<and> tr_corr t' = tr_corr t"
  by (auto simp: emit_def published_def split: option.splits prod.splits dest!: Publish_next)

lemma forgets_refl [simp]: "tr_corr t' = tr_corr t \<Longrightarrow> forgets t t'"
  by (simp add: forgets_def)

lemma forgets_take:
  assumes "corr_take k (tr_corr t) = (r, c)" "tr_corr t' = c" shows "forgets t t'" "r = map_of (tr_corr t) k"
proof -
  have c: "c = tr_corr t \<or> c = AList.delete k (tr_corr t)" using assms(1) by (auto simp: corr_take_def split: option.splits)
  have "map_of (AList.delete k (tr_corr t)) = (map_of (tr_corr t))(k := None)" by (rule delete_conv')
  then show "forgets t t'" using c assms(2) by (auto simp: forgets_def fun_upd_def split: if_splits)
  show "r = map_of (tr_corr t) k" using assms(1) by (auto simp: corr_take_def split: option.splits)
qed

definition builds_requests :: "factory option \<Rightarrow> bool" where
  "builds_requests f \<longleftrightarrow> (\<forall>build i ts. f = Some build \<longrightarrow> refers (build i ts) = None)"

definition builds_answers :: "(int \<Rightarrow> factory) \<Rightarrow> bool" where
  "builds_answers build \<longleftrightarrow> (\<forall>v i ts. refers (build v i ts) = Some v)"

lemma asked_put:
  assumes "emit k f now t = (Some i, t1)" "builds_requests f"
  shows "asked k t (if c then t1\<lparr>tr_corr := corr_put k i (tr_corr t1)\<rparr> else t1)"
proof -
  obtain build where b: "f = Some build" "i = nextID (tr_broker t1)" "published k (build i now) t t1" "tr_corr t1 = tr_corr t"
    using emit_Some [OF assms(1)] by blast
  have "published k (build i now) t (if c then t1\<lparr>tr_corr := corr_put k i (tr_corr t1)\<rparr> else t1)" using b(3) by (simp add: published_def)
  then show ?thesis unfolding asked_def using assms(2) b(1,2,4)
    by (intro exI [of _ "build i now"]) (auto simp: builds_requests_def corr_put_def update_conv')
qed

lemma answered_emit:
  assumes "map_of (tr_corr t) k = Some v" "forgets t t0" "tr_broker t0 = tr_broker t" "tr_log t0 = tr_log t" "\<And>i ts. refers (build i ts) = Some v"
  shows "answered k t (snd (emit k (Some build) now t0))"
proof -
  obtain i t1 where e: "emit k (Some build) now t0 = (Some i, t1)" by (cases "Publish Discriminator build now (tr_broker t0)") (auto simp: emit_def)
  then have "published k (build i now) t0 t1" "tr_corr t1 = tr_corr t0" using emit_Some [OF e] by auto
  then have "published k (build i now) t t1" "forgets t t1" using assms(2-4) by (auto simp: published_def forgets_def)
  then show ?thesis unfolding answered_def using e assms(1,5) by auto
qed

lemmas request_builders = proxyRequestFactory_def fuseRequestFactory_def syncRequestFactory_def

lemma request_refers:
  "builds_requests (proxyRequestFactory raw)" "builds_requests (fuseRequestFactory raw mnt)" "builds_requests (syncRequestFactory raw backend)"
  by (auto simp: builds_requests_def request_builders Let_def split: option.splits if_splits)

lemma silent_refl [simp]: "silent t t"
  by (simp add: silent_def)

lemma silent_take: "corr_take k (tr_corr t) = (None, c) \<Longrightarrow> silent t (t\<lparr>tr_corr := c\<rparr>)"
  using forgets_take [of k t None c "t\<lparr>tr_corr := c\<rparr>"] by (simp add: silent_def)

lemma answered_take:
  assumes "corr_take k (tr_corr t) = (Some v, c)" "\<And>i ts. refers (build i ts) = Some v"
  shows "answered k t (snd (emit k (Some build) now (t\<lparr>tr_corr := c\<rparr>)))"
  using forgets_take [OF assms(1), of "t\<lparr>tr_corr := c\<rparr>"] assms(2) by (intro answered_emit [where v = v]) auto

lemma answered_peek:
  assumes "corr_peek k (tr_corr t) = Some v" "\<And>i ts. refers (build i ts) = Some v"
  shows "answered k t (snd (emit k (Some build) now t))"
  using assms by (intro answered_emit) (auto simp: corr_peek_def)

lemma request_step:
  assumes "builds_requests f"
  shows "silent t (case emit k f now t of (None, t1) \<Rightarrow> t1 | (Some i, t1) \<Rightarrow> if c then t1\<lparr>tr_corr := corr_put k i (tr_corr t1)\<rparr> else t1) \<or>
    asked k t (case emit k f now t of (None, t1) \<Rightarrow> t1 | (Some i, t1) \<Rightarrow> if c then t1\<lparr>tr_corr := corr_put k i (tr_corr t1)\<rparr> else t1)"
proof -
  obtain r t1 where e: "emit k f now t = (r, t1)" by fastforce
  show ?thesis
  proof (cases r)
    case None
    then show ?thesis using emit_None [OF e [unfolded None]] e by simp
  next
    case (Some i)
    have "asked k t (if c then t1\<lparr>tr_corr := corr_put k i (tr_corr t1)\<rparr> else t1)"
      by (rule asked_put [OF e [unfolded Some] assms])
    then show ?thesis using e Some by simp
  qed
qed

lemma response_step:
  assumes "builds_answers build"
  shows "silent t (case corr_take k (tr_corr t) of (None, c) \<Rightarrow> t\<lparr>tr_corr := c\<rparr> | (Some v, c) \<Rightarrow> snd (emit k (Some (build v)) now (t\<lparr>tr_corr := c\<rparr>))) \<or>
    answered k t (case corr_take k (tr_corr t) of (None, c) \<Rightarrow> t\<lparr>tr_corr := c\<rparr> | (Some v, c) \<Rightarrow> snd (emit k (Some (build v)) now (t\<lparr>tr_corr := c\<rparr>)))"
proof -
  obtain r c where e: "corr_take k (tr_corr t) = (r, c)" by fastforce
  show ?thesis
  proof (cases r)
    case None
    then show ?thesis using silent_take e by simp
  next
    case (Some v)
    then show ?thesis using answered_take [of k t v c "build v" now] e assms by (simp add: builds_answers_def)
  qed
qed

lemma response_refers:
  "builds_answers (proxyResponseFactory raw)" "builds_answers (fuseResponseFactory raw backend)" "builds_answers (syncResponseFactory raw)"
  by (auto simp: builds_answers_def proxyResponseFactory_def fuseResponseFactory_def syncResponseFactory_def)

lemma chunk_refers: "proxyStreamChunkFactory raw v = Some build \<Longrightarrow> refers (build i ts) = Some v"
  by (auto simp: proxyStreamChunkFactory_def split: if_splits)

interpretation sync_records: correlated "sync_handle backend" "\<lambda>raw. raw_str raw ''request_id''" for backend
proof
  fix t now raw
  show "silent t (sync_handle backend now raw t) \<or> asked (raw_str raw ''request_id'') t (sync_handle backend now raw t) \<or>
    answered (raw_str raw ''request_id'') t (sync_handle backend now raw t)"
    using request_step [where f = "syncRequestFactory raw backend" and t = t and k = "raw_str raw ''request_id''" and now = now and c = True, OF request_refers(3)]
      response_step [where build = "syncResponseFactory raw" and t = t and k = "raw_str raw ''request_id''" and now = now, OF response_refers(3)]
    unfolding sync_handle_def Let_def if_True by (auto simp del: fun_upd_apply)
qed

interpretation fuse_records: correlated "fuse_handle mnt backend" "\<lambda>raw. raw_str raw ''request_id''" for mnt backend
proof
  fix t now raw
  show "silent t (fuse_handle mnt backend now raw t) \<or> asked (raw_str raw ''request_id'') t (fuse_handle mnt backend now raw t) \<or>
    answered (raw_str raw ''request_id'') t (fuse_handle mnt backend now raw t)"
    using request_step [where f = "fuseRequestFactory raw mnt" and t = t and k = "raw_str raw ''request_id''" and now = now and c = "raw_str raw ''verdict'' = ''allow'' \<or> raw_str raw ''verdict'' = ''deny''", OF request_refers(2)]
      response_step [where build = "fuseResponseFactory raw backend" and t = t and k = "raw_str raw ''request_id''" and now = now, OF response_refers(2)]
    unfolding fuse_handle_def Let_def by auto
qed

interpretation proxy_records: correlated proxy_handle "\<lambda>raw. requestIDKey (map_of raw ''request_id'')"
proof
  fix t now raw
  let ?k = "requestIDKey (map_of raw ''request_id'')"
  have chunk: "silent t t' \<or> answered ?k t t'"
    if "t' = (case corr_peek ?k (tr_corr t) of None \<Rightarrow> t | Some v \<Rightarrow> snd (emit ?k (proxyStreamChunkFactory raw v) now t))" for t'
  proof (cases "corr_peek ?k (tr_corr t)")
    case (Some v)
    show ?thesis
    proof (cases "proxyStreamChunkFactory raw v")
      case None
      then show ?thesis using that Some by (simp add: emit_def)
    next
      case (Some build)
      then show ?thesis using that \<open>corr_peek ?k (tr_corr t) = Some v\<close> answered_peek [of ?k t v build now] chunk_refers by simp
    qed
  qed (use that in simp)
  have peek: "silent t t' \<or> answered ?k t t'"
    if "t' = (case (corr_peek ?k (tr_corr t), tr_corr t) of (None, c) \<Rightarrow> t\<lparr>tr_corr := c\<rparr>
        | (Some v, c) \<Rightarrow> snd (emit ?k (Some (proxyResponseFactory raw v)) now (t\<lparr>tr_corr := c\<rparr>)))" for t'
    using that answered_peek [of ?k t _ "proxyResponseFactory raw _" now] response_refers(1) by (auto simp: builds_answers_def split: option.splits)
  show "silent t (proxy_handle now raw t) \<or> asked ?k t (proxy_handle now raw t) \<or> answered ?k t (proxy_handle now raw t)"
    using request_step [where f = "proxyRequestFactory raw" and t = t and k = ?k and now = now and c = "raw_str raw ''verdict'' = ''allow'' \<or> raw_str raw ''verdict'' = ''deny''", OF request_refers(1)]
      response_step [where build = "proxyResponseFactory raw" and t = t and k = ?k and now = now, OF response_refers(1)] chunk peek
    unfolding proxy_handle_def Let_def by auto
qed

section \<open>A request is answered once\<close>

definition answered_last :: "string \<Rightarrow> translator \<Rightarrow> translator \<Rightarrow> bool" where
  "answered_last k t t' \<longleftrightarrow> (\<exists>ev v. published k ev t t' \<and> map_of (tr_corr t) k = Some v \<and> refers ev = Some v \<and>
     map_of (tr_corr t') = (map_of (tr_corr t))(k := None))"

definition answers :: "translator \<Rightarrow> int list" where
  "answers t = List.map_filter (\<lambda>(k, i, ev). refers ev) (tr_log t)"

definition once_ok :: "translator \<Rightarrow> bool" where
  "once_ok t \<longleftrightarrow> distinct (answers t) \<and> (\<forall>v \<in> set (answers t). v \<le> nextID (tr_broker t)) \<and>
     (\<forall>k v. map_of (tr_corr t) k = Some v \<longrightarrow> v \<le> nextID (tr_broker t) \<and> v \<notin> set (answers t) \<and>
        (\<forall>k'. map_of (tr_corr t) k' = Some v \<longrightarrow> k' = k))"

lemma answers_published:
  "published k ev t t' \<Longrightarrow> answers t' = answers t @ (case refers ev of None \<Rightarrow> [] | Some v \<Rightarrow> [v])"
  by (simp add: answers_def published_def map_filter_def split: option.splits)

lemma once_okD:
  assumes "once_ok t" "map_of (tr_corr t) k = Some v"
  shows "v \<le> nextID (tr_broker t)" "v \<notin> set (answers t)" "map_of (tr_corr t) k' = Some v \<Longrightarrow> k' = k"
  using assms by (auto simp: once_ok_def)

lemma once_weaker:
  assumes "once_ok t" "answers t' = answers t" "nextID (tr_broker t) \<le> nextID (tr_broker t')" "forgets t t'"
  shows "once_ok t'"
  unfolding once_ok_def assms(2)
proof (intro conjI allI impI ballI)
  show "distinct (answers t)" using assms(1) by (simp add: once_ok_def)
  show "v \<le> nextID (tr_broker t')" if "v \<in> set (answers t)" for v using that assms(1,3) by (force simp: once_ok_def)
next
  fix k v assume "map_of (tr_corr t') k = Some v"
  then have kv: "map_of (tr_corr t) k = Some v" using assms(4) by (simp add: forgets_def)
  show "v \<le> nextID (tr_broker t')" using once_okD(1) [OF assms(1) kv] assms(3) by simp
  show "v \<notin> set (answers t)" by (rule once_okD(2) [OF assms(1) kv])
  show "k' = k" if "map_of (tr_corr t') k' = Some v" for k'
    using once_okD(3) [OF assms(1) kv, of k'] that assms(4) by (simp add: forgets_def)
qed

locale pair_once = correlated +
  assumes once: "answered (key raw) t (handle now raw t) \<Longrightarrow> answered_last (key raw) t (handle now raw t)"
begin

lemma handle_once:
  assumes "once_ok t" shows "once_ok (handle now raw t)"
proof -
  let ?t = "handle now raw t"
  from handle_cases [of t now raw] consider "silent t ?t" | "asked (key raw) t ?t" | "answered_last (key raw) t ?t"
    using once by blast
  then show ?thesis
  proof cases
    case 1
    then show ?thesis using once_weaker [OF assms, of ?t] by (simp add: answers_def silent_def)
  next
    case 2
    then obtain ev where ev: "published (key raw) ev t ?t" "refers ev = None"
      "map_of (tr_corr ?t) = (map_of (tr_corr t))(key raw \<mapsto> nextID (tr_broker ?t)) \<or> forgets t ?t" by (auto simp: asked_def)
    have a: "answers ?t = answers t" "nextID (tr_broker ?t) = nextID (tr_broker t) + 1"
      using answers_published [OF ev(1)] ev(1,2) by (auto simp: published_def)
    have old: "v \<in> set (answers t) \<Longrightarrow> v \<le> nextID (tr_broker t)" "map_of (tr_corr t) k = Some v \<Longrightarrow> v \<le> nextID (tr_broker t)" for k v
      using assms by (auto simp: once_ok_def)
    from ev(3) show ?thesis
    proof
      assume m: "map_of (tr_corr ?t) = (map_of (tr_corr t))(key raw \<mapsto> nextID (tr_broker ?t))"
      have "v \<le> nextID (tr_broker ?t) \<and> v \<notin> set (answers t) \<and> (\<forall>k'. map_of (tr_corr ?t) k' = Some v \<longrightarrow> k' = k)"
        if v: "map_of (tr_corr ?t) k = Some v" for k v
      proof (cases "k = key raw")
        case True
        then have "v = nextID (tr_broker t) + 1" using v m a(2) by simp
        then show ?thesis using old True unfolding m a(2) by (fastforce split: if_splits)
      next
        case False
        then have kv: "map_of (tr_corr t) k = Some v" using v m by simp
        have le: "v \<le> nextID (tr_broker t)" by (rule old(2) [OF kv])
        have "v \<notin> set (answers t)" "\<forall>k'. map_of (tr_corr t) k' = Some v \<longrightarrow> k' = k" using assms kv by (auto simp: once_ok_def)
        then show ?thesis using le unfolding m a(2) by auto
      qed
      then show ?thesis using assms old(1) unfolding once_ok_def a(1) by (auto simp: a(2); fastforce)
    next
      assume "forgets t ?t"
      then show ?thesis using once_weaker [OF assms a(1)] a(2) by simp
    qed
  next
    case 3
    then obtain ev v where ev: "published (key raw) ev t ?t" "map_of (tr_corr t) (key raw) = Some v" "refers ev = Some v"
      "map_of (tr_corr ?t) = (map_of (tr_corr t))(key raw := None)" by (auto simp: answered_last_def)
    have a: "answers ?t = answers t @ [v]" "nextID (tr_broker ?t) = nextID (tr_broker t) + 1"
      using answers_published [OF ev(1)] ev(1,3) by (auto simp: published_def)
    show ?thesis unfolding once_ok_def a(1)
    proof (intro conjI allI impI ballI)
      show "distinct (answers t @ [v])" using assms once_okD(2) [OF assms ev(2)] by (simp add: once_ok_def)
      show "u \<le> nextID (tr_broker ?t)" if "u \<in> set (answers t @ [v])" for u
        using that assms once_okD(1) [OF assms ev(2)] unfolding a(2) by (force simp: once_ok_def)
    next
      fix k u assume "map_of (tr_corr ?t) k = Some u"
      then have ku: "map_of (tr_corr t) k = Some u" "k \<noteq> key raw" using ev(4) by (auto split: if_splits)
      show "u \<le> nextID (tr_broker ?t)" using once_okD(1) [OF assms ku(1)] a(2) by simp
      show "u \<notin> set (answers t @ [v])" using once_okD(2) [OF assms ku(1)] once_okD(3) [OF assms ev(2), of k] ku by auto
      show "k' = k" if "map_of (tr_corr ?t) k' = Some u" for k'
        using once_okD(3) [OF assms ku(1), of k'] that ev(4) by (simp split: if_splits)
    qed
  qed
qed

lemma reach_once: "reachable tr_init (fed handle) t \<Longrightarrow> once_ok t"
proof (induction rule: reachable.induct)
  case (reach_init t)
  then show ?case by (simp add: tr_init_def once_ok_def answers_def map_filter_def)
next
  case (reach_next t t')
  from reach_next(2) show ?case
  proof cases
    case (others b)
    then show ?thesis using once_weaker [OF reach_next(3), of t'] by (simp add: answers_def)
  qed (use reach_next handle_once in auto)
qed

end

lemma answered_last_emit:
  assumes "corr_take k (tr_corr t) = (Some v, c)" "builds_answers build"
  shows "answered_last k t (snd (emit k (Some (build v)) now (t\<lparr>tr_corr := c\<rparr>)))"
proof -
  let ?t0 = "t\<lparr>tr_corr := c\<rparr>"
  obtain i t1 where e: "emit k (Some (build v)) now ?t0 = (Some i, t1)"
    by (cases "Publish Discriminator (build v) now (tr_broker ?t0)") (auto simp: emit_def)
  then have p: "published k (build v i now) ?t0 t1" "tr_corr t1 = c" using emit_Some [OF e] by auto
  have c: "map_of (tr_corr t) k = Some v" "c = AList.delete k (tr_corr t)" using assms(1) by (auto simp: corr_take_def split: option.splits)
  have "map_of (tr_corr t1) = (map_of (tr_corr t))(k := None)" unfolding p(2) c(2) by (rule delete_conv')
  moreover have "published k (build v i now) t t1" using p(1) by (simp add: published_def)
  moreover have "refers (build v i now) = Some v" using assms(2) by (simp add: builds_answers_def)
  ultimately show ?thesis unfolding answered_last_def using c(1) e by auto
qed

lemma not_answered:
  "silent t t' \<Longrightarrow> \<not> answered k t t'" "asked k t t' \<Longrightarrow> \<not> answered k t t'"
  by (auto simp: silent_def asked_def answered_def published_def)

lemma response_once:
  assumes "builds_answers build"
    and "answered k t (case corr_take k (tr_corr t) of (None, c) \<Rightarrow> t\<lparr>tr_corr := c\<rparr> | (Some v, c) \<Rightarrow> snd (emit k (Some (build v)) now (t\<lparr>tr_corr := c\<rparr>)))"
  shows "answered_last k t (case corr_take k (tr_corr t) of (None, c) \<Rightarrow> t\<lparr>tr_corr := c\<rparr> | (Some v, c) \<Rightarrow> snd (emit k (Some (build v)) now (t\<lparr>tr_corr := c\<rparr>)))"
proof (cases "corr_take k (tr_corr t)")
  case (Pair r c)
  show ?thesis
  proof (cases r)
    case None
    then show ?thesis using assms(2) Pair not_answered(1) [OF silent_take [of k t c]] by simp
  next
    case (Some v)
    then show ?thesis using Pair answered_last_emit [of k t v c build now] assms(1) by simp
  qed
qed

interpretation sync_once: pair_once "sync_handle backend" "\<lambda>raw. raw_str raw ''request_id''" for backend
proof
  fix raw t now
  assume a: "answered (raw_str raw ''request_id'') t (sync_handle backend now raw t)"
  then show "answered_last (raw_str raw ''request_id'') t (sync_handle backend now raw t)"
    using request_step [where f = "syncRequestFactory raw backend" and t = t and k = "raw_str raw ''request_id''" and now = now and c = True, OF request_refers(3)]
      response_once [where build = "syncResponseFactory raw" and t = t and k = "raw_str raw ''request_id''" and now = now, OF response_refers(3)]
      not_answered silent_refl
    unfolding sync_handle_def Let_def if_True by (auto split: if_splits)
qed

interpretation fuse_once: pair_once "fuse_handle mnt backend" "\<lambda>raw. raw_str raw ''request_id''" for mnt backend
proof
  fix raw t now
  assume a: "answered (raw_str raw ''request_id'') t (fuse_handle mnt backend now raw t)"
  then show "answered_last (raw_str raw ''request_id'') t (fuse_handle mnt backend now raw t)"
    using request_step [where f = "fuseRequestFactory raw mnt" and t = t and k = "raw_str raw ''request_id''" and now = now and c = "raw_str raw ''verdict'' = ''allow'' \<or> raw_str raw ''verdict'' = ''deny''", OF request_refers(2)]
      response_once [where build = "fuseResponseFactory raw backend" and t = t and k = "raw_str raw ''request_id''" and now = now, OF response_refers(2)]
      not_answered silent_refl
    unfolding fuse_handle_def Let_def by (auto split: if_splits)
qed

section \<open>Routing\<close>

text \<open>
  The brokers of the sandboxes of a pod and the two routers: by source address for the records of
  the shared proxy, by host mount for the records of the shared FUSE process.
\<close>

record mount_route =
  mg_guestMount :: string
  mg_backend :: Backend
  mg_broker :: nat
  mg_corr :: "(string \<times> int) list"
  mg_syncCorr :: "(string \<times> int) list"

record hub =
  hb_brokers :: "nat \<Rightarrow> sandbox_event broker"
  hb_router :: "(string \<times> nat \<times> (string \<times> int) list) list"
  hb_mounts :: "(string \<times> mount_route) list"

definition router_register :: "string \<Rightarrow> nat \<Rightarrow> hub \<Rightarrow> hub" where
  "router_register srcIP broker h = h\<lparr>hb_router := AList.update srcIP (broker, []) (hb_router h)\<rparr>"

definition router_unregister :: "string \<Rightarrow> hub \<Rightarrow> hub" where
  "router_unregister srcIP h = h\<lparr>hb_router := AList.delete srcIP (hb_router h)\<rparr>"

definition router_handle :: "int \<Rightarrow> json_object \<Rightarrow> hub \<Rightarrow> hub" where
  "router_handle now raw h =
     (case map_of (hb_router h) (raw_str raw ''src_ip'') of
        None \<Rightarrow> h
      | Some (b, c) \<Rightarrow>
          (let t = proxy_handle now raw \<lparr>tr_corr = c, tr_broker = hb_brokers h b, tr_log = []\<rparr>
           in h\<lparr>hb_brokers := (hb_brokers h)(b := tr_broker t),
                hb_router := AList.update (raw_str raw ''src_ip'') (b, tr_corr t) (hb_router h)\<rparr>))"

definition mount_register :: "string \<Rightarrow> string \<Rightarrow> Backend \<Rightarrow> nat \<Rightarrow> hub \<Rightarrow> hub" where
  "mount_register hostMount guestMount backend broker h =
     h\<lparr>hb_mounts := AList.update hostMount
         \<lparr>mg_guestMount = guestMount, mg_backend = backend, mg_broker = broker, mg_corr = [], mg_syncCorr = []\<rparr> (hb_mounts h)\<rparr>"

definition mount_unregister :: "string \<Rightarrow> hub \<Rightarrow> hub" where
  "mount_unregister hostMount h = h\<lparr>hb_mounts := AList.delete hostMount (hb_mounts h)\<rparr>"

definition below :: "string \<Rightarrow> string \<Rightarrow> bool" where
  "below host path \<longleftrightarrow> path = host \<or> HasPrefix path (TrimRight slash host @ ''/'')"

text \<open>The loop of \<^verbatim>\<open>lookup\<close> over the registrations, in the order the map is ranged over.\<close>

fun lookup_best :: "string \<Rightarrow> (string \<times> mount_route) option \<Rightarrow> (string \<times> mount_route) list \<Rightarrow> (string \<times> mount_route) option" where
  "lookup_best path best [] = best"
| "lookup_best path best ((h, reg) # ms) =
     lookup_best path
       (if below h path then (case best of None \<Rightarrow> Some (h, reg) | Some (bh, breg) \<Rightarrow> if length h > length bh then Some (h, reg) else best)
        else best) ms"

definition mount_lookup :: "string \<Rightarrow> (string \<times> mount_route) list \<Rightarrow> (string \<times> mount_route) option" where
  "mount_lookup path ms = lookup_best path None ms"

definition set_path :: "string \<Rightarrow> json_object \<Rightarrow> json_object" where
  "set_path p raw = AList.update ''path'' (JStr p) raw"

definition shared_handle :: "int \<Rightarrow> json_object \<Rightarrow> hub \<Rightarrow> hub" where
  "shared_handle now raw h =
     (let path = raw_str raw ''path'' in
      case mount_lookup path (hb_mounts h) of
        None \<Rightarrow> h
      | Some (hostMount, reg) \<Rightarrow>
          (let raw' = set_path (mg_guestMount reg @ TrimPrefix path hostMount) raw; b = mg_broker reg in
           if raw_str raw ''type'' = ''fs-sync'' then
             (let t = sync_handle (mg_backend reg) now raw' \<lparr>tr_corr = mg_syncCorr reg, tr_broker = hb_brokers h b, tr_log = []\<rparr>
              in h\<lparr>hb_brokers := (hb_brokers h)(b := tr_broker t),
                   hb_mounts := AList.update hostMount (reg\<lparr>mg_syncCorr := tr_corr t\<rparr>) (hb_mounts h)\<rparr>)
           else
             (let t = fuse_handle (mg_guestMount reg) (mg_backend reg) now raw' \<lparr>tr_corr = mg_corr reg, tr_broker = hb_brokers h b, tr_log = []\<rparr>
              in h\<lparr>hb_brokers := (hb_brokers h)(b := tr_broker t),
                   hb_mounts := AList.update hostMount (reg\<lparr>mg_corr := tr_corr t\<rparr>) (hb_mounts h)\<rparr>)))"

lemma lookup_best_spec:
  "lookup_best path best ms = r \<Longrightarrow>
   (case best of None \<Rightarrow> True | Some (h, reg) \<Rightarrow> below h path) \<Longrightarrow>
   (r = None \<longleftrightarrow> best = None \<and> (\<forall>(h, reg) \<in> set ms. \<not> below h path)) \<and>
   (\<forall>h reg. r = Some (h, reg) \<longrightarrow> below h path \<and> (best = Some (h, reg) \<or> (h, reg) \<in> set ms) \<and>
      (\<forall>(h', reg') \<in> set ms. below h' path \<longrightarrow> length h' \<le> length h) \<and> (\<forall>h' reg'. best = Some (h', reg') \<longrightarrow> length h' \<le> length h))"
proof (induction path best ms arbitrary: r rule: lookup_best.induct)
  case (2 path best h reg ms)
  let ?b = "if below h path then (case best of None \<Rightarrow> Some (h, reg) | Some (bh, breg) \<Rightarrow> if length h > length bh then Some (h, reg) else best) else best"
  have r: "lookup_best path ?b ms = r" using 2(2) by simp
  have ok: "case ?b of None \<Rightarrow> True | Some (h, reg) \<Rightarrow> below h path" using 2(3) by (auto split: option.splits)
  note IH = 2(1) [OF r ok]
  show ?case
  proof (cases best)
    case None
    then show ?thesis using IH by (cases "below h path") auto
  next
    case (Some p)
    obtain bh breg where p: "best = Some (bh, breg)" using Some by (cases p) auto
    then show ?thesis using IH 2(3) by (cases "below h path"; cases "length bh < length h") auto
  qed
qed (auto split: option.splits)

lemma mount_lookup_Some:
  assumes "mount_lookup path ms = Some (h, reg)"
  shows "below h path" "(h, reg) \<in> set ms" "(h', reg') \<in> set ms \<Longrightarrow> below h' path \<Longrightarrow> length h' \<le> length h"
  using lookup_best_spec [of path None ms] assms by (auto simp: mount_lookup_def)

lemma mount_lookup_None: "mount_lookup path ms = None \<longleftrightarrow> (\<forall>(h, reg) \<in> set ms. \<not> below h path)"
  using lookup_best_spec [of path None ms] by (simp add: mount_lookup_def)

lemma below_same_length:
  assumes "below h path" "below h' path" "length h = length h'" "TrimRight slash h = h" "TrimRight slash h' = h'" shows "h = h'"
proof -
  have "prefix h path" "prefix h' path" using assms(1,2,4,5) by (auto simp: below_def HasPrefix_def intro: append_prefixD)
  then show ?thesis using assms(3) by (metis prefix_order.dual_order.eq_iff prefix_length_prefix order_refl)
qed

text \<open>
  For host mounts without a trailing slash the result does not depend on the order the
  registrations are ranged over.
\<close>

lemma mount_lookup_order:
  assumes "set ms = set ms'" "distinct (map fst ms)" "\<forall>(h, reg) \<in> set ms. TrimRight slash h = h"
  shows "mount_lookup path ms = mount_lookup path ms'"
proof (cases "mount_lookup path ms")
  case None
  then have "mount_lookup path ms' = None" using assms(1) unfolding mount_lookup_None by simp
  then show ?thesis using None by simp
next
  case (Some p)
  obtain h reg where p: "mount_lookup path ms = Some (h, reg)" using Some by (cases p) auto
  note one = mount_lookup_Some [OF p]
  have "mount_lookup path ms' \<noteq> None" using one assms(1) mount_lookup_None [of path ms'] by auto
  then obtain h' reg' where p': "mount_lookup path ms' = Some (h', reg')" by fastforce
  note two = mount_lookup_Some [OF p']
  have "length h = length h'" using one(3) [of h' reg'] two(3) [of h reg] one(1,2) two(1,2) assms(1) by (simp add: le_antisym)
  then have "h = h'" using below_same_length [of h path h'] one(1,2) two(1,2) assms(1,3) by auto
  moreover have "reg = reg'" using one(2) two(2) assms(1,2) \<open>h = h'\<close> by (metis eq_key_imp_eq_value)
  ultimately show ?thesis using p p' by simp
qed

section \<open>Properties\<close>

text \<open>
  C22: whatever records arrive in whatever order, and whoever else publishes in between, a response
  or a chunk that is published carries the event id of a request that the same translator
  published before under the same request id of the side process; and no request of the file
  system or of a storage backend is answered twice.
\<close>

theorem responses_match_requests:
  assumes "handle = proxy_handle \<or> handle = fuse_handle mnt backend \<or> handle = sync_handle backend"
    and "reachable tr_init (fed handle) t"
  shows "(\<forall>l1 k i ev l2 v. tr_log t = l1 @ (k, i, ev) # l2 \<and> refers ev = Some v \<longrightarrow>
      (\<exists>ev'. (k, v, ev') \<in> set l1 \<and> refers ev' = None \<and> v < i)) \<and>
    (handle \<noteq> proxy_handle \<longrightarrow> distinct (answers t))"
proof -
  have "\<exists>ev'. (k, v, ev') \<in> set l1 \<and> refers ev' = None \<and> v < i"
    if "tr_log t = l1 @ (k, i, ev) # l2" "refers ev = Some v" for l1 k i ev l2 v
    using assms proxy_records.matched [OF _ that] fuse_records.matched [OF _ that] sync_records.matched [OF _ that] by blast
  moreover have "handle \<noteq> proxy_handle \<Longrightarrow> distinct (answers t)"
    using assms fuse_once.reach_once sync_once.reach_once unfolding once_ok_def by blast
  ultimately show ?thesis by blast
qed

definition read_request :: json_object where
  "read_request = [(''type'', JStr ''filesystem''), (''phase'', JStr ''request''), (''request_id'', JStr ''7''), (''op'', JStr ''read''),
     (''path'', JStr ''/run/sandboxd/k/mnt/workspace/a''), (''verdict'', JStr ''allow'')]"

definition read_response :: json_object where
  "read_response = [(''type'', JStr ''filesystem''), (''phase'', JStr ''response''), (''request_id'', JStr ''7''), (''op'', JStr ''read''),
     (''path'', JStr ''/run/sandboxd/k/mnt/workspace/a''), (''duration_ms'', JNum 3)]"

definition idle_translator :: translator where
  "idle_translator = \<lparr>tr_corr = [], tr_broker = New 0 0, tr_log = []\<rparr>"

definition after_read :: translator where
  "after_read = fuse_handle ''/workspace'' BackendLocal 2 read_response (fuse_handle ''/workspace'' BackendLocal 1 read_request idle_translator)"

lemma after_read_reachable: "reachable tr_init (fed (fuse_handle ''/workspace'' BackendLocal)) after_read"
proof -
  let ?h = "fuse_handle ''/workspace'' BackendLocal"
  have a: "reachable tr_init (fed ?h) idle_translator" by (rule reach_init) (simp add: tr_init_def idle_translator_def)
  have b: "reachable tr_init (fed ?h) (?h 1 read_request idle_translator)" by (rule reach_next [OF a]) (rule translated)
  show ?thesis unfolding after_read_def by (rule reach_next [OF b]) (rule translated)
qed

theorem responses_match_requests_witness:
  "tr_log after_read = [(''7'', 1, FSRequest 1 Allowed ''/workspace'' ''/run/sandboxd/k/mnt/workspace/a'' OpRead), (''7'', 2, FSResponse 2 1 BackendLocal 3 None)] \<and>
   (\<exists>ev'. (''7'', 1, ev') \<in> set [(''7'', 1, FSRequest 1 Allowed ''/workspace'' ''/run/sandboxd/k/mnt/workspace/a'' OpRead)] \<and> refers ev' = None \<and> (1 :: int) < 2)"
proof -
  have l: "tr_log after_read = [(''7'', 1, FSRequest 1 Allowed ''/workspace'' ''/run/sandboxd/k/mnt/workspace/a'' OpRead)] @
      (''7'', 2, FSResponse 2 1 BackendLocal 3 None) # []" by code_simp
  have "\<exists>ev'. (''7'', 1, ev') \<in> set [(''7'', 1, FSRequest 1 Allowed ''/workspace'' ''/run/sandboxd/k/mnt/workspace/a'' OpRead)] \<and> refers ev' = None \<and> (1 :: int) < 2"
    using responses_match_requests [OF _ after_read_reachable, of "''/workspace''" BackendLocal, THEN conjunct1, rule_format, OF _ conjI [OF l], of 1] by simp
  then show ?thesis using l by simp
qed

lemma set_path_str: "raw_str (set_path p raw) k = (if k = ''path'' then p else raw_str raw k)"
  by (simp add: raw_str_def set_path_def update_conv')

text \<open>
  A record of the shared proxy only reaches the sandbox registered for its source address, and
  a record of the shared FUSE process only the sandbox of the longest registered host mount that
  contains its path, whatever order the registrations are visited in; the path it reports is the
  one below the guest's mount point.
\<close>

theorem audit_routed:
  assumes "distinct (map fst (hb_mounts h))" "\<forall>(host, reg) \<in> set (hb_mounts h). TrimRight slash host = host"
  shows "(\<forall>b. hb_brokers (router_handle now raw h) b \<noteq> hb_brokers h b \<longrightarrow> (\<exists>c. map_of (hb_router h) (raw_str raw ''src_ip'') = Some (b, c))) \<and>
    (\<forall>b. hb_brokers (shared_handle now raw h) b \<noteq> hb_brokers h b \<longrightarrow>
       (\<exists>host reg. (host, reg) \<in> set (hb_mounts h) \<and> mg_broker reg = b \<and> below host (raw_str raw ''path'') \<and>
          (\<forall>(host', reg') \<in> set (hb_mounts h). below host' (raw_str raw ''path'') \<longrightarrow> length host' \<le> length host))) \<and>
    (\<forall>ms. set ms = set (hb_mounts h) \<longrightarrow> mount_lookup (raw_str raw ''path'') ms = mount_lookup (raw_str raw ''path'') (hb_mounts h)) \<and>
    (\<forall>host guest rel. raw_str (set_path (guest @ TrimPrefix (host @ rel) host) raw) ''path'' = guest @ rel)"
proof (intro conjI allI impI)
  fix b assume b: "hb_brokers (shared_handle now raw h) b \<noteq> hb_brokers h b"
  then obtain host reg where l: "mount_lookup (raw_str raw ''path'') (hb_mounts h) = Some (host, reg)"
    by (cases "mount_lookup (raw_str raw ''path'') (hb_mounts h)") (auto simp: shared_handle_def Let_def)
  then have "mg_broker reg = b" using b by (auto simp: shared_handle_def Let_def split: if_splits)
  then show "\<exists>host reg. (host, reg) \<in> set (hb_mounts h) \<and> mg_broker reg = b \<and> below host (raw_str raw ''path'') \<and>
      (\<forall>(host', reg') \<in> set (hb_mounts h). below host' (raw_str raw ''path'') \<longrightarrow> length host' \<le> length host)"
    using mount_lookup_Some [OF l] by blast
next
  fix ms assume "set ms = set (hb_mounts h)"
  then show "mount_lookup (raw_str raw ''path'') ms = mount_lookup (raw_str raw ''path'') (hb_mounts h)"
    using mount_lookup_order [of "hb_mounts h" ms] assms by simp
next
  fix b assume "hb_brokers (router_handle now raw h) b \<noteq> hb_brokers h b"
  then show "\<exists>c. map_of (hb_router h) (raw_str raw ''src_ip'') = Some (b, c)"
    by (auto simp: router_handle_def Let_def split: option.splits if_splits)
qed (simp add: set_path_str TrimPrefix_def HasPrefix_def)

definition two_guests :: hub where
  "two_guests = mount_register ''/run/sandboxd/k/mnt/workspace'' ''/workspace'' BackendLocal 0
     (mount_register ''/run/sandboxd/j/mnt/workspace'' ''/workspace'' BackendS3 1 \<lparr>hb_brokers = (\<lambda>_. New 0 0), hb_router = [], hb_mounts = []\<rparr>)"

theorem audit_routed_witness:
  "mount_lookup (raw_str read_request ''path'') (rev (hb_mounts two_guests)) = mount_lookup (raw_str read_request ''path'') (hb_mounts two_guests) \<and>
   map_option (mg_broker o snd) (mount_lookup (raw_str read_request ''path'') (hb_mounts two_guests)) = Some 0"
proof -
  have "distinct (map fst (hb_mounts two_guests))" "\<forall>(host, reg) \<in> set (hb_mounts two_guests). TrimRight slash host = host" by code_simp+
  from audit_routed [OF this, of 1 read_request, THEN conjunct2, THEN conjunct2, THEN conjunct1, rule_format, of "rev (hb_mounts two_guests)"]
  have "mount_lookup (raw_str read_request ''path'') (rev (hb_mounts two_guests)) = mount_lookup (raw_str read_request ''path'') (hb_mounts two_guests)" by simp
  moreover have "map_option (mg_broker o snd) (mount_lookup (raw_str read_request ''path'') (hb_mounts two_guests)) = Some 0" by code_simp
  ultimately show ?thesis by simp
qed

text \<open>
  Renames never reach the event stream: the operation counts as concrete, but no event kind is
  assigned to it, so neither an allowed nor a denied rename is published.
\<close>

theorem renames_not_surfaced:
  assumes "raw_str raw ''op'' = ''rename''" "raw_str raw ''phase'' = ''request''"
  shows "tr_log (fuse_handle mnt backend now raw t) = tr_log t"
proof -
  have "fuseRequestFactory raw mnt = None" using assms(1) by (simp add: fuseRequestFactory_def fuseOpKind_def split: option.splits)
  then show ?thesis using assms by (simp add: fuse_handle_def emit_def isConcreteFuseOp_def)
qed

text \<open>Likewise the symbolic-link calls to a storage backend.\<close>

theorem backend_links_not_surfaced:
  assumes "raw_str raw ''op'' = ''symlink'' \<or> raw_str raw ''op'' = ''readlink''" "raw_str raw ''phase'' = ''request''"
  shows "tr_log (sync_handle backend now raw t) = tr_log t"
proof -
  have "syncRequestFactory raw backend = None" using assms(1) by (auto simp: syncRequestFactory_def sync_operation_def)
  then show ?thesis using assms by (simp add: sync_handle_def emit_def)
qed

text \<open>
  The correlator of the proxy's records only ever grows with allowed requests: their entry is kept
  for the chunks that may follow the response, and nothing removes it afterwards.
\<close>

definition egress_request :: "int \<Rightarrow> json_object" where
  "egress_request n = [(''phase'', JStr ''request''), (''request_id'', JNum (of_int n)), (''verdict'', JStr ''allow''), (''host'', JStr ''example.com'')]"

definition egress_response :: "int \<Rightarrow> json_object" where
  "egress_response n = [(''phase'', JStr ''response''), (''request_id'', JNum (of_int n)), (''verdict'', JStr ''allow''), (''status'', JNum 200)]"

theorem allowed_requests_accumulate:
  "map fst (tr_corr (fold (\<lambda>n t. proxy_handle 1 (egress_response n) (proxy_handle 1 (egress_request n) t)) [1, 2, 3] idle_translator)) = [''1'', ''2'', ''3'']"
  by code_simp

end
