(* ===== verification/Slots.thy ===== *)
theory Slots
  imports Prelude Netaddr "HOL-Library.Multiset"
begin

text \<open>
  The network slots of a pod: the address allocator and the choice between it and the
  preallocated pool (\<^verbatim>\<open>internal/sandboxd/packed.go\<close>), and the pool with its worker
  (\<^verbatim>\<open>internal/sandboxd/prealloc.go\<close>).  A slot is the third octet of a sandbox's address.
\<close>

section \<open>The allocator\<close>

record ip_alloc =
  nextN :: nat
  freed :: "nat list"

definition slotIP :: "nat \<Rightarrow> string" where
  "slotIP octet = ''172.16.'' @ Itoa (int octet) @ ''.2''"

definition allocIP :: "ip_alloc \<Rightarrow> (string \<times> nat) \<times> ip_alloc" where
  "allocIP p =
     (if freed p \<noteq> [] then ((slotIP (last (freed p)), last (freed p)), p\<lparr>freed := butlast (freed p)\<rparr>)
      else (let n = (if nextN p = 0 then 2 else nextN p) in ((slotIP n, n), p\<lparr>nextN := n + 1\<rparr>)))"

definition freeIP :: "nat \<Rightarrow> ip_alloc \<Rightarrow> ip_alloc" where
  "freeIP n p = p\<lparr>freed := freed p @ [n]\<rparr>"

section \<open>The preallocated pool\<close>

text \<open>
  \<open>resetCh\<close> is the channel to the worker, with room for \<open>target\<close> octets.  \<open>worker\<close> is the octet the
  worker has taken from it, \<open>provisioned\<close> the worker's own table.
\<close>

record preallocPool =
  target :: nat
  ready :: "nat list"
  inUse :: "nat list"
  resetCh :: "nat list"
  worker :: "nat option"
  provisioned :: "nat list"

definition newPreallocPool :: "nat \<Rightarrow> preallocPool" where
  "newPreallocPool n = \<lparr>target = n, ready = [], inUse = [], resetCh = [], worker = None, provisioned = []\<rparr>"

definition pool_claim :: "preallocPool \<Rightarrow> (string \<times> nat) option \<times> preallocPool" where
  "pool_claim pp =
     (if ready pp = [] then (None, pp)
      else (let octet = last (ready pp)
            in (Some (slotIP octet, octet), pp\<lparr>ready := butlast (ready pp), inUse := List.insert octet (inUse pp)\<rparr>)))"

text \<open>The two halves of \<^verbatim>\<open>release\<close>: under the lock, and the send that follows it.\<close>

definition release_mark :: "nat \<Rightarrow> preallocPool \<Rightarrow> preallocPool" where
  "release_mark octet pp = pp\<lparr>inUse := removeAll octet (inUse pp)\<rparr>"

definition chan_send :: "nat \<Rightarrow> preallocPool \<Rightarrow> preallocPool option" where
  "chan_send octet pp =
     (if length (resetCh pp) < target pp then Some (pp\<lparr>resetCh := resetCh pp @ [octet]\<rparr>) else None)"

definition worker_take :: "preallocPool \<Rightarrow> preallocPool option" where
  "worker_take pp =
     (case (worker pp, resetCh pp) of
        (None, octet # rest) \<Rightarrow> Some (pp\<lparr>worker := Some octet, resetCh := rest\<rparr>)
      | _ \<Rightarrow> None)"

text \<open>
  One round of the worker on the octet it has taken: a new octet is provisioned, which may fail and
  then leaves the octet out for good; a known one is reset, which never fails.
\<close>

definition worker_round :: "bool \<Rightarrow> nat \<Rightarrow> preallocPool \<Rightarrow> preallocPool" where
  "worker_round provision_ok octet pp =
     (if octet \<notin> set (provisioned pp) \<and> \<not> provision_ok then pp\<lparr>worker := None\<rparr>
      else pp\<lparr>worker := None, provisioned := List.insert octet (provisioned pp), ready := ready pp @ [octet]\<rparr>)"

section \<open>Claiming and releasing\<close>

text \<open>
  \<^verbatim>\<open>claimSlot\<close> and \<^verbatim>\<open>releaseSlot\<close> run without interruption, on the allocator and the pool.  A send
  into a full channel would block; \<open>slots_exclusive\<close> below shows that it does not happen.
\<close>

type_synonym slots = "ip_alloc \<times> preallocPool option"

definition claimSlot :: "slots \<Rightarrow> (string \<times> nat \<times> bool) \<times> slots" where
  "claimSlot s =
     (case s of (a, pool) \<Rightarrow>
        (case map_option pool_claim pool of
           Some (Some (ip, octet), pp) \<Rightarrow> ((ip, octet, True), a, Some pp)
         | _ \<Rightarrow> (case allocIP a of ((ip, octet), a1) \<Rightarrow> ((ip, octet, False), a1, pool))))"

definition releaseSlot :: "nat \<Rightarrow> bool \<Rightarrow> slots \<Rightarrow> slots" where
  "releaseSlot octet prealloc s =
     (case s of (a, pool) \<Rightarrow>
        (case pool of
           Some pp \<Rightarrow>
             if prealloc then (a, Some (case chan_send octet (release_mark octet pp) of Some pp1 \<Rightarrow> pp1 | None \<Rightarrow> release_mark octet pp))
             else (freeIP octet a, pool)
         | None \<Rightarrow> (freeIP octet a, pool)))"

text \<open>
  A sandbox claims from the pool, when there is one, and otherwise or when the pool is empty from
  the allocator, under another lock.  The rest of the pod moves in between.
\<close>

datatype holder = Missed | Holds nat bool | Sending nat

record slot_sys =
  sl_alloc :: ip_alloc
  sl_pool :: "preallocPool option"
  sl_starting :: "nat option"
  sl_started :: nat
  sl_holders :: "(nat \<times> holder) list"
  sl_dropped :: "nat list"
  sl_dirty :: "nat list"
  sl_peak :: nat

text \<open>
  The steps.  \<open>start_alloc\<close> and \<open>start_send\<close> are the loop of \<^verbatim>\<open>preallocPool.start\<close>; \<open>claim_hit\<close>,
  \<open>claim_miss\<close> and \<open>claim_alloc\<close> are \<^verbatim>\<open>claimSlot\<close>; \<open>release_pool\<close>, \<open>release_send\<close> and \<open>release_free\<close> are
  \<^verbatim>\<open>releaseSlot\<close>.  The octets that provisioning gave up on, the octets used since their last
  reset and the largest number of octets the allocator had out are only remembered for the statements.
\<close>

definition alloc_out :: "slot_sys \<Rightarrow> nat" where
  "alloc_out s = sl_started s + (if sl_starting s = None then 0 else 1) + length (filter (\<lambda>(i, h). \<exists>n. h = Holds n False) (sl_holders s))"

definition note_peak :: "slot_sys \<Rightarrow> slot_sys" where
  "note_peak s = s\<lparr>sl_peak := max (sl_peak s) (alloc_out s)\<rparr>"

inductive slot_step :: "slot_sys \<Rightarrow> slot_sys \<Rightarrow> bool" where
  start_alloc: "sl_pool s = Some pp \<Longrightarrow> sl_starting s = None \<Longrightarrow> sl_started s < target pp \<Longrightarrow> allocIP (sl_alloc s) = ((ip, n), a) \<Longrightarrow>
     slot_step s (note_peak (s\<lparr>sl_alloc := a, sl_starting := Some n\<rparr>))"
| start_send: "sl_pool s = Some pp \<Longrightarrow> sl_starting s = Some n \<Longrightarrow> chan_send n pp = Some pp1 \<Longrightarrow>
     slot_step s (s\<lparr>sl_pool := Some pp1, sl_starting := None, sl_started := Suc (sl_started s)\<rparr>)"
| take: "sl_pool s = Some pp \<Longrightarrow> worker_take pp = Some pp1 \<Longrightarrow> slot_step s (s\<lparr>sl_pool := Some pp1\<rparr>)"
| round: "sl_pool s = Some pp \<Longrightarrow> worker pp = Some n \<Longrightarrow>
     slot_step s (s\<lparr>sl_pool := Some (worker_round provision_ok n pp),
       sl_dropped := (if n \<notin> set (provisioned pp) \<and> \<not> provision_ok then n # sl_dropped s else sl_dropped s),
       sl_dirty := removeAll n (sl_dirty s)\<rparr>)"
| claim_hit: "sl_pool s = Some pp \<Longrightarrow> pool_claim pp = (Some (ip, n), pp1) \<Longrightarrow> i \<notin> fst ` set (sl_holders s) \<Longrightarrow>
     slot_step s (s\<lparr>sl_pool := Some pp1, sl_holders := (i, Holds n True) # sl_holders s, sl_dirty := n # sl_dirty s\<rparr>)"
| claim_miss: "(\<forall>pp. sl_pool s = Some pp \<longrightarrow> fst (pool_claim pp) = None) \<Longrightarrow> i \<notin> fst ` set (sl_holders s) \<Longrightarrow>
     slot_step s (s\<lparr>sl_holders := (i, Missed) # sl_holders s\<rparr>)"
| claim_alloc: "sl_holders s = hs @ (i, Missed) # hs' \<Longrightarrow> allocIP (sl_alloc s) = ((ip, n), a) \<Longrightarrow>
     slot_step s (note_peak (s\<lparr>sl_alloc := a, sl_holders := hs @ (i, Holds n False) # hs', sl_dirty := n # sl_dirty s\<rparr>))"
| release_pool: "sl_pool s = Some pp \<Longrightarrow> sl_holders s = hs @ (i, Holds n True) # hs' \<Longrightarrow>
     slot_step s (s\<lparr>sl_pool := Some (release_mark n pp), sl_holders := hs @ (i, Sending n) # hs'\<rparr>)"
| release_send: "sl_pool s = Some pp \<Longrightarrow> sl_holders s = hs @ (i, Sending n) # hs' \<Longrightarrow> chan_send n pp = Some pp1 \<Longrightarrow>
     slot_step s (s\<lparr>sl_pool := Some pp1, sl_holders := hs @ hs'\<rparr>)"
| release_free: "sl_holders s = hs @ (i, Holds n False) # hs' \<Longrightarrow>
     slot_step s (s\<lparr>sl_alloc := freeIP n (sl_alloc s), sl_holders := hs @ hs'\<rparr>)"

definition slot_init :: "slot_sys \<Rightarrow> bool" where
  "slot_init s \<longleftrightarrow> (\<exists>pool. s = \<lparr>sl_alloc = \<lparr>nextN = 0, freed = []\<rparr>, sl_pool = map_option newPreallocPool pool, sl_starting = None,
     sl_started = 0, sl_holders = [], sl_dropped = [], sl_dirty = [], sl_peak = 0\<rparr>)"

section \<open>Every octet is in one place\<close>

fun octets_of :: "holder \<Rightarrow> nat list" where
  "octets_of Missed = []"
| "octets_of (Holds n _) = [n]"
| "octets_of (Sending n) = [n]"

fun pool_octets_of :: "holder \<Rightarrow> nat list" where
  "pool_octets_of (Holds n True) = [n]"
| "pool_octets_of (Sending n) = [n]"
| "pool_octets_of _ = []"

definition held :: "slot_sys \<Rightarrow> nat multiset" where
  "held s = mset (concat (map (\<lambda>(i, h). octets_of h) (sl_holders s)))"

definition held_pool :: "slot_sys \<Rightarrow> nat multiset" where
  "held_pool s = mset (concat (map (\<lambda>(i, h). pool_octets_of h) (sl_holders s)))"

definition opt_mset :: "'a option \<Rightarrow> 'a multiset" where
  "opt_mset x = (case x of None \<Rightarrow> {#} | Some a \<Rightarrow> {#a#})"

lemma opt_mset_simps [simp]: "opt_mset None = {#}" "opt_mset (Some a) = {#a#}"
  by (simp_all add: opt_mset_def)

definition pool_places :: "preallocPool \<Rightarrow> nat multiset" where
  "pool_places pp = mset (resetCh pp) + opt_mset (worker pp) + mset (ready pp)"

definition places :: "slot_sys \<Rightarrow> nat multiset" where
  "places s = mset (freed (sl_alloc s)) + opt_mset (sl_starting s) + mset (sl_dropped s) +
     (case sl_pool s of None \<Rightarrow> {#} | Some pp \<Rightarrow> pool_places pp) + held s"

definition issued :: "slot_sys \<Rightarrow> nat multiset" where
  "issued s = mset_set {2..<nextN (sl_alloc s)}"

definition count_ok :: "slot_sys \<Rightarrow> bool" where
  "count_ok s \<longleftrightarrow>
     (case sl_pool s of
        None \<Rightarrow> sl_starting s = None \<and> sl_started s = 0 \<and> held_pool s = {#} \<and> sl_dropped s = []
      | Some pp \<Rightarrow> size (pool_places pp) + length (sl_dropped s) + size (held_pool s) = sl_started s \<and>
          sl_started s + (if sl_starting s = None then 0 else 1) \<le> target pp)"

definition clean_ok :: "slot_sys \<Rightarrow> bool" where
  "clean_ok s \<longleftrightarrow>
     (case sl_pool s of
        None \<Rightarrow> True
      | Some pp \<Rightarrow> set (ready pp) \<subseteq> set (provisioned pp) \<and> set (ready pp) \<inter> set (sl_dirty s) = {} \<and>
          (\<forall>i n. (i, Holds n True) \<in> set (sl_holders s) \<longrightarrow> n \<in> set (provisioned pp)))"

lemma pool_claim_cases:
  assumes "pool_claim pp = (Some (ip, n), pp1)"
  shows "ready pp = ready pp1 @ [n] \<and> ip = slotIP n \<and> resetCh pp1 = resetCh pp \<and> worker pp1 = worker pp \<and> target pp1 = target pp \<and>
    provisioned pp1 = provisioned pp"
  using assms by (auto simp: pool_claim_def Let_def split: if_splits)

lemma allocIP_cases:
  assumes "allocIP p = ((ip, n), a)"
  obtains "freed p = freed a @ [n]" "nextN a = nextN p" "ip = slotIP n"
  | "freed p = []" "freed a = []" "nextN p = 0 \<and> n = 2 \<or> nextN p = n \<and> n \<noteq> 0" "nextN a = Suc n" "ip = slotIP n"
  using assms by (cases "freed p = []") (auto simp: allocIP_def Let_def split: if_splits)

definition next_ok :: "slot_sys \<Rightarrow> bool" where
  "next_ok s \<longleftrightarrow> nextN (sl_alloc s) = 0 \<or> 2 < nextN (sl_alloc s)"

definition slots_ok :: "slot_sys \<Rightarrow> bool" where
  "slots_ok s \<longleftrightarrow> places s = issued s \<and> next_ok s \<and> count_ok s \<and> clean_ok s \<and> distinct (map fst (sl_holders s))"

lemma note_peak_same [simp]:
  "places (note_peak s) = places s" "issued (note_peak s) = issued s" "next_ok (note_peak s) = next_ok s"
  "count_ok (note_peak s) = count_ok s" "clean_ok (note_peak s) = clean_ok s" "sl_holders (note_peak s) = sl_holders s" "sl_alloc (note_peak s) = sl_alloc s"
  "sl_pool (note_peak s) = sl_pool s" "sl_starting (note_peak s) = sl_starting s" "sl_started (note_peak s) = sl_started s"
  "sl_dropped (note_peak s) = sl_dropped s" "sl_dirty (note_peak s) = sl_dirty s"
  by (simp_all add: note_peak_def places_def issued_def next_ok_def count_ok_def clean_ok_def held_def held_pool_def cong: option.case_cong if_cong)

lemma alloc_places:
  assumes "allocIP p = ((ip, n), a)" "nextN p = 0 \<or> 2 < nextN p" "mset (freed p) + X = mset_set {2..<nextN p}"
  shows "mset (freed a) + {#n#} + X = mset_set {2..<nextN a} \<and> (nextN a = 0 \<or> 2 < nextN a)"
  using assms(1)
proof (cases rule: allocIP_cases)
  case 2
  then have "{2..<Suc n} = insert n {2..<nextN p}" "n \<notin> {2..<nextN p}" using assms(2) by auto
  then have "mset_set {2..<Suc n} = mset_set {2..<nextN p} + {#n#}" by simp
  then show ?thesis
    using 2 assms(2,3) by auto
qed (use assms(2,3) in \<open>auto simp: ac_simps\<close>)

lemma places_step: "slot_step s t \<Longrightarrow> slots_ok s \<Longrightarrow> places t = issued t \<and> next_ok t"
proof (induction rule: slot_step.induct)
  case (start_alloc s pp ip n a)
  let ?X = "mset (sl_dropped s) + pool_places pp + held s"
  have "mset (freed (sl_alloc s)) + ?X = mset_set {2..<nextN (sl_alloc s)}"
    using start_alloc by (simp add: slots_ok_def places_def issued_def ac_simps)
  note new = alloc_places [OF start_alloc(4) _ this]
  show ?case using new start_alloc by (simp add: slots_ok_def next_ok_def places_def issued_def held_def ac_simps)
next
  case (claim_alloc s hs i hs' ip n a)
  let ?X = "opt_mset (sl_starting s) + mset (sl_dropped s) + (case sl_pool s of None \<Rightarrow> {#} | Some pp \<Rightarrow> pool_places pp) + held s"
  have "mset (freed (sl_alloc s)) + ?X = mset_set {2..<nextN (sl_alloc s)}"
    using claim_alloc by (simp add: slots_ok_def places_def issued_def ac_simps)
  note new = alloc_places [OF claim_alloc(2) _ this]
  show ?case using new claim_alloc by (simp add: slots_ok_def next_ok_def places_def issued_def held_def ac_simps)
qed (auto simp: slots_ok_def next_ok_def places_def issued_def held_def pool_places_def chan_send_def worker_take_def worker_round_def
    release_mark_def freeIP_def ac_simps dest!: pool_claim_cases split: if_splits option.splits list.splits)

lemma count_step: "slot_step s t \<Longrightarrow> slots_ok s \<Longrightarrow> count_ok t"
proof (induction rule: slot_step.induct)
  case (claim_alloc s hs i hs' ip n a)
  then show ?case by (auto simp: slots_ok_def count_ok_def held_pool_def split: option.splits)
qed (auto simp: slots_ok_def count_ok_def held_pool_def pool_places_def chan_send_def worker_take_def worker_round_def
    release_mark_def freeIP_def ac_simps dest!: pool_claim_cases split: if_splits option.splits list.splits)

lemma places_disjoint:
  assumes "slots_ok s" shows "count (places s) n \<le> 1"
  using assms by (simp add: slots_ok_def issued_def count_mset_set')

lemma clean_step: "slot_step s t \<Longrightarrow> slots_ok s \<Longrightarrow> clean_ok t"
proof (induction rule: slot_step.induct)
  case (claim_hit s pp ip n pp1 i)
  then have r: "ready pp = ready pp1 @ [n]" "provisioned pp1 = provisioned pp" by (auto dest: pool_claim_cases)
  have "count (mset (ready pp)) n \<le> 1"
    using places_disjoint [OF claim_hit(4), of n] claim_hit(1) by (simp add: places_def pool_places_def)
  then have "n \<notin> set (ready pp1)" by (simp add: r(1) not_in_iff [symmetric])
  then show ?case using claim_hit r by (auto simp: slots_ok_def clean_ok_def)
next
  case (claim_alloc s hs i hs' ip n a)
  have "n \<notin> set (ready pp)" if pp: "sl_pool s = Some pp" for pp
  proof -
    have "places (note_peak (s\<lparr>sl_alloc := a, sl_holders := hs @ (i, Holds n False) # hs', sl_dirty := n # sl_dirty s\<rparr>)) =
      issued (note_peak (s\<lparr>sl_alloc := a, sl_holders := hs @ (i, Holds n False) # hs', sl_dirty := n # sl_dirty s\<rparr>))" (is "places ?t = _")
      using places_step [OF slot_step.claim_alloc [OF claim_alloc(1,2)] claim_alloc(3)] by blast
    then have "count (places ?t) n \<le> 1" by (simp add: issued_def count_mset_set')
    then show ?thesis using pp by (simp add: places_def pool_places_def held_def not_in_iff [symmetric])
  qed
  then show ?case using claim_alloc by (auto simp: slots_ok_def clean_ok_def split: option.splits)
qed (auto simp: slots_ok_def clean_ok_def chan_send_def worker_take_def worker_round_def
    release_mark_def freeIP_def split: if_splits option.splits list.splits)

lemma holders_step: "slot_step s t \<Longrightarrow> slots_ok s \<Longrightarrow> distinct (map fst (sl_holders t))"
  by (induction rule: slot_step.induct) (auto simp: slots_ok_def)

interpretation slots: invariant_system slot_init slot_step slots_ok
proof
  show "slots_ok s" if "slot_init s" for s
    using that by (auto simp: slot_init_def slots_ok_def places_def issued_def next_ok_def count_ok_def clean_ok_def held_def
      held_pool_def pool_places_def newPreallocPool_def split: option.splits)
qed (auto simp: slots_ok_def [of t for t] places_step count_step clean_step holders_step)

section \<open>How far the octets grow\<close>

lemma size_held: "size (held s) = size (held_pool s) + length (filter (\<lambda>(i, h). \<exists>n. h = Holds n False) (sl_holders s))"
proof -
  have "length (octets_of h) = length (pool_octets_of h) + (if \<exists>n. h = Holds n False then 1 else 0)" for h
    by (cases h rule: pool_octets_of.cases) auto
  then have "length (concat (map (\<lambda>(i, h). octets_of h) hs)) =
    length (concat (map (\<lambda>(i, h). pool_octets_of h) hs)) + length (filter (\<lambda>(i, h). \<exists>n. h = Holds n False) hs)" for hs :: "(nat \<times> holder) list"
    by (induction hs) (auto split: prod.splits)
  then show ?thesis by (simp add: held_def held_pool_def)
qed

lemma alloc_out_exact:
  assumes "slots_ok s" shows "length (freed (sl_alloc s)) + alloc_out s = nextN (sl_alloc s) - 2"
proof -
  have "size (places s) = nextN (sl_alloc s) - 2" using assms by (simp add: slots_ok_def issued_def)
  then show ?thesis using assms size_held [of s]
    by (auto simp: slots_ok_def count_ok_def places_def alloc_out_def opt_mset_def split: option.splits)
qed

definition peak_ok :: "slot_sys \<Rightarrow> bool" where
  "peak_ok s \<longleftrightarrow> slots_ok s \<and> nextN (sl_alloc s) \<le> 2 + sl_peak s"

lemma peak_alloc:
  assumes "slots_ok (note_peak s)" "allocIP p = ((ip, n), sl_alloc s)" "nextN p \<le> 2 + sl_peak s" shows "nextN (sl_alloc s) \<le> 2 + sl_peak (note_peak s)"
  using assms(2)
proof (cases rule: allocIP_cases)
  case 2
  have "alloc_out (note_peak s) = alloc_out s" by (simp add: alloc_out_def)
  then have "alloc_out s = nextN (sl_alloc s) - 2" using alloc_out_exact [OF assms(1)] 2(2) by simp
  then show ?thesis using 2 by (auto simp: note_peak_def)
qed (use assms(3) in \<open>auto simp: note_peak_def\<close>)

lemma peak_step:
  assumes "slot_step s t" "peak_ok s" shows "peak_ok t"
proof -
  have ok: "slots_ok t" using slots.step_inv assms by (simp add: peak_ok_def)
  have "nextN (sl_alloc t) \<le> 2 + sl_peak t" using assms(1)
  proof cases
    case (start_alloc pp ip n a)
    then show ?thesis using peak_alloc [of "s\<lparr>sl_alloc := a, sl_starting := Some n\<rparr>"] ok assms(2) by (simp add: peak_ok_def)
  next
    case (claim_alloc hs i hs' ip n a)
    then show ?thesis using peak_alloc [of "s\<lparr>sl_alloc := a, sl_holders := hs @ (i, Holds n False) # hs', sl_dirty := n # sl_dirty s\<rparr>"] ok assms(2)
      by (simp add: peak_ok_def)
  qed (use assms(2) in \<open>auto simp: peak_ok_def freeIP_def\<close>)
  then show ?thesis using ok by (simp add: peak_ok_def)
qed

interpretation peaks: invariant_system slot_init slot_step peak_ok
proof
  show "peak_ok s" if "slot_init s" for s
    using slots.init_inv [OF that] that by (auto simp: peak_ok_def slot_init_def)
qed (rule peak_step)

lemma held_octet:
  assumes "slots_ok s" "(i, h) \<in> set (sl_holders s)" "n \<in> set (octets_of h)" shows "n \<in># held s" "2 \<le> n \<and> n < nextN (sl_alloc s)"
proof -
  show h: "n \<in># held s" using assms(2,3) by (fastforce simp: held_def)
  then have "n \<in># places s" by (simp add: places_def)
  then show "2 \<le> n \<and> n < nextN (sl_alloc s)" using assms(1) by (simp add: slots_ok_def issued_def)
qed

lemma slotIP_inj: "slotIP m = slotIP n \<longleftrightarrow> m = n"
proof
  assume "slotIP m = slotIP n"
  then have "itoa_nat m = itoa_nat n" by (simp add: slotIP_def Itoa_def)
  then have "digits_val 0 (itoa_nat m) = digits_val 0 (itoa_nat n)" by simp
  then show "m = n" by (simp add: digits_val_itoa_nat)
qed simp

lemma two_holders:
  assumes "slots_ok s" "(i, h) \<in> set (sl_holders s)" "(j, k) \<in> set (sl_holders s)" "i \<noteq> j" "m \<in> set (octets_of h)" "n \<in> set (octets_of k)"
  shows "m \<noteq> n"
proof
  assume "m = n"
  obtain hs hs' where hs: "sl_holders s = hs @ (i, h) # hs'" using split_list [OF assms(2)] by blast
  then have "(j, k) \<in> set (hs @ hs')" using assms(3,4) by auto
  then have "n \<in># mset (concat (map (\<lambda>(i, h). octets_of h) (hs @ hs')))" using assms(6) by fastforce
  then have "count (held s) n \<ge> 2" using hs assms(5) \<open>m = n\<close> by (cases h) (auto simp: held_def count_mset_0_iff less_Suc_eq_le Suc_le_eq)
  then show False using places_disjoint [OF assms(1), of n] by (simp add: places_def)
qed

section \<open>Properties\<close>

lemma never_blocked:
  assumes "slots_ok s" "(i, Sending n) \<in> set (sl_holders s)" shows "\<exists>pp pp1. sl_pool s = Some pp \<and> chan_send n pp = Some pp1"
proof -
  have "n \<in># held_pool s" using assms(2) by (fastforce simp: held_pool_def)
  then have p: "size (held_pool s) \<ge> 1" by (cases "held_pool s") auto
  then obtain pp where pp: "sl_pool s = Some pp" using assms(1) by (auto simp: slots_ok_def count_ok_def split: option.splits)
  then have "length (resetCh pp) < target pp" using p assms(1) by (auto simp: slots_ok_def count_ok_def pool_places_def split: if_splits)
  then show ?thesis using pp by (simp add: chan_send_def)
qed

text \<open>
  C12: in every interleaving of creates, teardowns and the pool's worker, two sandboxes never hold
  the same address, a slot taken from the pool has been provisioned and was reset after its last
  use, and giving a slot back to the pool never blocks the teardown.
\<close>

theorem slots_exclusive:
  assumes "reachable slot_init slot_step s"
  shows "(\<forall>i j m n h k. (i, h) \<in> set (sl_holders s) \<and> (j, k) \<in> set (sl_holders s) \<and> i \<noteq> j \<and> m \<in> set (octets_of h) \<and> n \<in> set (octets_of k)
      \<longrightarrow> slotIP m \<noteq> slotIP n) \<and>
    (\<forall>pp ip n pp1. sl_pool s = Some pp \<and> pool_claim pp = (Some (ip, n), pp1) \<longrightarrow> n \<in> set (provisioned pp) \<and> n \<notin> set (sl_dirty s)) \<and>
    (\<forall>i n. (i, Sending n) \<in> set (sl_holders s) \<longrightarrow> (\<exists>pp pp1. sl_pool s = Some pp \<and> chan_send n pp = Some pp1))"
proof -
  have ok: "slots_ok s" by (rule slots.reach_inv [OF assms])
  have "n \<in> set (provisioned pp) \<and> n \<notin> set (sl_dirty s)" if pp: "sl_pool s = Some pp" "pool_claim pp = (Some (ip, n), pp1)" for pp ip n pp1
    using ok pool_claim_cases [OF pp(2)] pp(1) by (auto simp: slots_ok_def clean_ok_def)
  moreover have "slotIP m \<noteq> slotIP n"
    if "(i, h) \<in> set (sl_holders s) \<and> (j, k) \<in> set (sl_holders s) \<and> i \<noteq> j \<and> m \<in> set (octets_of h) \<and> n \<in> set (octets_of k)" for i j m n h k
    unfolding slotIP_inj by (rule two_holders [OF ok, of i h j k]) (use that in simp_all)
  moreover have "\<exists>pp pp1. sl_pool s = Some pp \<and> chan_send n pp = Some pp1" if "(i, Sending n) \<in> set (sl_holders s)" for i n
    using never_blocked [OF ok that] .
  ultimately show ?thesis by blast
qed

definition fresh_pod :: "nat option \<Rightarrow> slot_sys" where
  "fresh_pod pool = \<lparr>sl_alloc = \<lparr>nextN = 0, freed = []\<rparr>, sl_pool = map_option newPreallocPool pool, sl_starting = None,
     sl_started = 0, sl_holders = [], sl_dropped = [], sl_dirty = [], sl_peak = 0\<rparr>"

lemma fresh_pod_reachable: "reachable slot_init slot_step (fresh_pod pool)"
  by (rule reach_init) (auto simp: slot_init_def fresh_pod_def)

lemma create_step:
  assumes "reachable slot_init slot_step s" "sl_pool s = None" "i \<notin> fst ` set (sl_holders s)" "allocIP (sl_alloc s) = ((ip, n), a)"
  shows "reachable slot_init slot_step (note_peak (s\<lparr>sl_alloc := a, sl_holders := (i, Holds n False) # sl_holders s, sl_dirty := n # sl_dirty s\<rparr>))"
proof -
  let ?m = "s\<lparr>sl_holders := (i, Missed) # sl_holders s\<rparr>"
  have "slot_step s ?m" by (rule claim_miss) (use assms in auto)
  then have m: "reachable slot_init slot_step ?m" by (rule reach_next [OF assms(1)])
  have "slot_step ?m (note_peak (?m\<lparr>sl_alloc := a, sl_holders := [] @ (i, Holds n False) # sl_holders s, sl_dirty := n # sl_dirty ?m\<rparr>))"
    by (rule claim_alloc) (use assms(4) in auto)
  then show ?thesis using reach_next [OF m] by simp
qed

definition two_sandboxes :: slot_sys where
  "two_sandboxes = \<lparr>sl_alloc = \<lparr>nextN = 4, freed = []\<rparr>, sl_pool = None, sl_starting = None, sl_started = 0,
     sl_holders = [(1, Holds 3 False), (0, Holds 2 False)], sl_dropped = [], sl_dirty = [3, 2], sl_peak = 2\<rparr>"

lemma two_sandboxes_reachable: "reachable slot_init slot_step two_sandboxes"
proof -
  have "reachable slot_init slot_step (note_peak ((fresh_pod None)\<lparr>sl_alloc := \<lparr>nextN = 3, freed = []\<rparr>, sl_holders := [(0, Holds 2 False)], sl_dirty := [2]\<rparr>))" (is "reachable _ _ ?s")
    using create_step [OF fresh_pod_reachable [of None], of 0 "slotIP 2" 2 "\<lparr>nextN = 3, freed = []\<rparr>"] by (simp add: fresh_pod_def allocIP_def)
  from create_step [OF this, of 1 "slotIP 3" 3 "\<lparr>nextN = 4, freed = []\<rparr>"] show ?thesis
    by (simp add: fresh_pod_def allocIP_def two_sandboxes_def note_peak_def alloc_out_def numeral_2_eq_2)
qed

theorem slots_exclusive_witness: "slotIP 3 \<noteq> slotIP 2 \<and> (1, Holds 3 False) \<in> set (sl_holders two_sandboxes) \<and> (0, Holds 2 False) \<in> set (sl_holders two_sandboxes)"
proof -
  have h: "(1, Holds 3 False) \<in> set (sl_holders two_sandboxes)" "(0, Holds 2 False) \<in> set (sl_holders two_sandboxes)"
    by (simp_all add: two_sandboxes_def)
  then have "slotIP 3 \<noteq> slotIP 2"
    using slots_exclusive [OF two_sandboxes_reachable, THEN conjunct1, rule_format, of 1 "Holds 3 False" 0 "Holds 2 False" 3 2] by simp
  then show ?thesis using h by simp
qed

text \<open>
  The octet of a slot is at least 2 and at most one more than the largest number of slots the
  allocator ever had out at once, so a pod with at most 254 of them hands out byte-sized octets.
\<close>

theorem slot_octet_bounded:
  assumes "reachable slot_init slot_step s" "(i, h) \<in> set (sl_holders s)" "n \<in> set (octets_of h)"
  shows "2 \<le> n \<and> n \<le> Suc (sl_peak s)"
proof -
  have ok: "slots_ok s" "nextN (sl_alloc s) \<le> 2 + sl_peak s" using peaks.reach_inv [OF assms(1)] by (auto simp: peak_ok_def)
  then show ?thesis using held_octet(2) [OF ok(1) assms(2,3)] by linarith
qed

theorem slot_octet_bounded_witness: "2 \<le> (3 :: nat) \<and> 3 \<le> Suc (sl_peak two_sandboxes)"
  using slot_octet_bounded [OF two_sandboxes_reachable, of 1 "Holds 3 False" 3] by (simp add: two_sandboxes_def)

lemma many_sandboxes:
  "\<exists>s. reachable slot_init slot_step s \<and> sl_pool s = None \<and> freed (sl_alloc s) = [] \<and> nextN (sl_alloc s) = k + 3 \<and>
     (\<forall>i \<in> fst ` set (sl_holders s). i \<le> k) \<and> (k, Holds (k + 2) False) \<in> set (sl_holders s)"
proof (induction k)
  case 0
  have "reachable slot_init slot_step (note_peak ((fresh_pod None)\<lparr>sl_alloc := \<lparr>nextN = 3, freed = []\<rparr>, sl_holders := [(0, Holds 2 False)], sl_dirty := [2]\<rparr>))" (is "reachable _ _ ?s")
    using create_step [OF fresh_pod_reachable [of None], of 0 "slotIP 2" 2 "\<lparr>nextN = 3, freed = []\<rparr>"] by (simp add: fresh_pod_def allocIP_def)
  then show ?case by (intro exI [of _ ?s]) (simp add: fresh_pod_def)
next
  case (Suc k)
  then obtain s where s: "reachable slot_init slot_step s" "sl_pool s = None" "freed (sl_alloc s) = []" "nextN (sl_alloc s) = k + 3"
    "\<forall>i \<in> fst ` set (sl_holders s). i \<le> k" by blast
  have "allocIP (sl_alloc s) = ((slotIP (k + 3), k + 3), (sl_alloc s)\<lparr>nextN := k + 3 + 1\<rparr>)" using s(3,4) by (simp add: allocIP_def Let_def)
  moreover have "Suc k \<notin> fst ` set (sl_holders s)" using s(5) by auto
  ultimately have "reachable slot_init slot_step (note_peak (s\<lparr>sl_alloc := (sl_alloc s)\<lparr>nextN := k + 3 + 1\<rparr>,
      sl_holders := (Suc k, Holds (k + 3) False) # sl_holders s, sl_dirty := (k + 3) # sl_dirty s\<rparr>))" (is "reachable _ _ ?s")
    using create_step [OF s(1,2)] by blast
  then show ?case using s by (intro exI [of _ ?s]) (auto intro: le_SucI)
qed

text \<open>
  Nothing bounds the octet from above: the 255th sandbox of a pod is given an address that is not
  an IPv4 address.
\<close>

theorem octet_out_of_range:
  "\<exists>s i. reachable slot_init slot_step s \<and> (i, Holds 256 False) \<in> set (sl_holders s) \<and> slotIP 256 = ''172.16.256.2''"
proof -
  have "slotIP 256 = ''172.16.256.2''" by code_simp
  then show ?thesis using many_sandboxes [of 254] by auto
qed

section \<open>Slots in sequence\<close>

definition free_slots :: "slots \<Rightarrow> nat multiset" where
  "free_slots s = mset (freed (fst s)) + (case snd s of None \<Rightarrow> {#} | Some pp \<Rightarrow> pool_places pp)"

definition all_slots :: "slots \<Rightarrow> nat multiset" where
  "all_slots s = mset_set {2..<nextN (fst s)}"

text \<open>The octets that were handed out and not given back.\<close>

definition slots_out :: "slots \<Rightarrow> nat multiset" where
  "slots_out s = all_slots s - free_slots s"

definition slots_wf :: "slots \<Rightarrow> bool" where
  "slots_wf s \<longleftrightarrow> free_slots s \<subseteq># all_slots s \<and> (nextN (fst s) = 0 \<or> 2 < nextN (fst s)) \<and>
     (case snd s of None \<Rightarrow> True | Some pp \<Rightarrow> distinct (inUse pp) \<and> set (inUse pp) \<inter> set (ready pp) = {} \<and>
        size (pool_places pp) + length (inUse pp) \<le> target pp)"

definition slot_owned :: "nat \<Rightarrow> bool \<Rightarrow> slots \<Rightarrow> bool" where
  "slot_owned octet prealloc s \<longleftrightarrow> octet \<in># slots_out s \<and>
     (prealloc \<longrightarrow> (\<exists>pp. snd s = Some pp \<and> octet \<in> set (inUse pp)))"

lemma slots_split: "slots_wf s \<Longrightarrow> all_slots s = free_slots s + slots_out s"
  by (simp add: slots_wf_def slots_out_def)

lemma slots_out_eqI: "all_slots s = free_slots s + X \<Longrightarrow> slots_out s = X"
  by (simp add: slots_out_def)

lemma all_slots_distinct: "count (all_slots s) n \<le> 1"
  by (simp add: all_slots_def count_mset_set')

lemma claim_alloc_out:
  assumes "slots_wf (a, pool)" "allocIP a = ((ip, n), a1)"
  shows "slots_wf (a1, pool) \<and> slots_out (a1, pool) = add_mset n (slots_out (a, pool)) \<and> ip = slotIP n"
proof -
  let ?P = "case pool of None \<Rightarrow> {#} | Some pp \<Rightarrow> pool_places pp"
  have "mset (freed a) + (?P + slots_out (a, pool)) = mset_set {2..<nextN a}" "nextN a = 0 \<or> 2 < nextN a"
    using slots_split [OF assms(1)] assms(1) by (auto simp: free_slots_def all_slots_def slots_wf_def ac_simps)
  note new = alloc_places [OF assms(2) this(2,1)]
  then have "all_slots (a1, pool) = free_slots (a1, pool) + add_mset n (slots_out (a, pool))"
    by (simp add: free_slots_def all_slots_def ac_simps)
  moreover have "free_slots (a1, pool) \<subseteq># all_slots (a1, pool)" using calculation by simp
  moreover have "ip = slotIP n" using assms(2) by (cases rule: allocIP_cases) auto
  ultimately show ?thesis using assms(1) new by (auto simp: slots_wf_def slots_out_eqI)
qed

lemma claim_out:
  assumes "slots_wf s" "claimSlot s = ((ip, octet, prealloc), s1)"
  shows "slots_wf s1 \<and> slots_out s1 = add_mset octet (slots_out s) \<and> ip = slotIP octet \<and> slot_owned octet prealloc s1"
proof -
  obtain a pool where s: "s = (a, pool)" by (cases s)
  consider pp where "pool = Some pp" "ready pp \<noteq> []" | "\<forall>pp. pool = Some pp \<longrightarrow> ready pp = []" by blast
  then show ?thesis
  proof cases
    case 1
    let ?n = "last (ready pp)" let ?pp = "pp\<lparr>ready := butlast (ready pp), inUse := List.insert ?n (inUse pp)\<rparr>"
    have r: "ip = slotIP ?n" "octet = ?n" "prealloc" "s1 = (a, Some ?pp)"
      using assms(2) 1 by (auto simp: s claimSlot_def pool_claim_def Let_def)
    have rd: "ready pp = butlast (ready pp) @ [?n]" using 1 by simp
    have pl: "pool_places pp = add_mset ?n (pool_places ?pp)"
      by (subst (1) pool_places_def, subst rd) (simp add: pool_places_def)
    have out: "all_slots s1 = free_slots s1 + add_mset ?n (slots_out s)"
      using slots_split [OF assms(1)] pl by (simp add: s r(4) 1 free_slots_def all_slots_def)
    have nu: "?n \<notin> set (inUse pp)" using assms(1) 1 by (auto simp: s slots_wf_def)
    have "count (mset (ready pp)) ?n \<le> count (all_slots s) ?n"
      using assms(1) by (intro mset_subset_eq_count) (auto simp: s 1 slots_wf_def free_slots_def pool_places_def
        intro: subset_mset.order_trans [OF mset_subset_eq_add_right])
    then have "count (mset (ready pp)) ?n \<le> 1" using all_slots_distinct [of s ?n] by simp
    then have nr: "?n \<notin> set (butlast (ready pp))" by (subst (asm) rd) (simp add: not_in_iff [symmetric])
    have "free_slots s1 \<subseteq># all_slots s1" using out by simp
    moreover have "size (pool_places ?pp) + length (inUse ?pp) \<le> target pp"
      using assms(1) nu pl by (simp add: s 1 slots_wf_def)
    moreover have "set (inUse ?pp) \<inter> set (ready ?pp) = {}" using assms(1) nr by (auto simp: s 1 slots_wf_def dest: in_set_butlastD)
    ultimately have "slots_wf s1" using assms(1) nu by (simp add: s r(4) 1 slots_wf_def all_slots_def)
    then show ?thesis using slots_out_eqI [OF out] r by (auto simp: slot_owned_def)
  next
    case 2
    obtain n a1 where al: "allocIP a = ((ip, n), a1)" "octet = n" "prealloc = False" "s1 = (a1, pool)"
      using assms(2) 2 by (auto simp: s claimSlot_def pool_claim_def split: option.splits prod.splits)
    then show ?thesis using claim_alloc_out [OF _ al(1), of pool] assms(1) by (auto simp: s slot_owned_def)
  qed
qed

lemma release_out:
  assumes "slots_wf s" "slot_owned octet prealloc s"
  shows "slots_wf (releaseSlot octet prealloc s) \<and> slots_out (releaseSlot octet prealloc s) = slots_out s - {#octet#}"
proof -
  obtain a pool where s: "s = (a, pool)" by (cases s)
  have o: "add_mset octet (slots_out s - {#octet#}) = slots_out s" using assms(2) by (simp add: slot_owned_def)
  show ?thesis
  proof (cases prealloc)
    case True
    then obtain pp where pp: "pool = Some pp" "octet \<in> set (inUse pp)" using assms(2) by (auto simp: s slot_owned_def)
    have len: "length (removeAll octet (inUse pp)) + 1 = length (inUse pp)"
      using pp(2) assms(1) length_pos_if_in_set [OF pp(2)]
      by (simp add: s pp(1) slots_wf_def distinct_remove1_removeAll [symmetric] length_remove1)
    let ?pp = "pp\<lparr>inUse := removeAll octet (inUse pp), resetCh := resetCh pp @ [octet]\<rparr>"
    have "length (resetCh pp) < target pp" using len assms(1) by (simp add: s pp(1) slots_wf_def pool_places_def)
    then have r: "releaseSlot octet prealloc s = (a, Some ?pp)"
      using True by (simp add: s pp(1) releaseSlot_def chan_send_def release_mark_def)
    have pl: "pool_places ?pp = add_mset octet (pool_places pp)" by (simp add: pool_places_def)
    have out: "all_slots (a, Some ?pp) = free_slots (a, Some ?pp) + (slots_out s - {#octet#})"
      using slots_split [OF assms(1)] o pl by (simp add: s pp(1) free_slots_def all_slots_def)
    have "free_slots (a, Some ?pp) \<subseteq># all_slots (a, Some ?pp)" using out by simp
    then have "slots_wf (a, Some ?pp)" using assms(1) pl len
      by (auto simp: s pp(1) slots_wf_def all_slots_def distinct_removeAll)
    then show ?thesis using r slots_out_eqI [OF out] by simp
  next
    case False
    then have r: "releaseSlot octet prealloc s = (freeIP octet a, pool)" by (simp add: s releaseSlot_def split: option.splits)
    have out: "all_slots (freeIP octet a, pool) = free_slots (freeIP octet a, pool) + (slots_out s - {#octet#})"
      using slots_split [OF assms(1)] o by (simp add: s free_slots_def all_slots_def freeIP_def)
    have "free_slots (freeIP octet a, pool) \<subseteq># all_slots (freeIP octet a, pool)" using out by simp
    then have "slots_wf (freeIP octet a, pool)" using assms(1) by (simp add: s slots_wf_def freeIP_def all_slots_def)
    then show ?thesis using r slots_out_eqI [OF out] by simp
  qed
qed

end
