(* ===== verification/Launch.thy ===== *)
theory Launch
  imports Sandbox_Spec
begin

text \<open>
  What a packed sandbox runs and in which environment (the launch part of \<^verbatim>\<open>createPacked\<close> in
  \<^verbatim>\<open>internal/sandboxd/packed.go\<close>, \<^verbatim>\<open>entrypointIsTail\<close> and \<^verbatim>\<open>injectGatewayURL\<close> of
  \<^verbatim>\<open>internal/sandboxd/run.go\<close>).
\<close>

record ImageConfig =
  im_Entrypoint :: "string list"
  im_Cmd :: "string list"
  im_WorkingDir :: string

definition last_segment :: "string \<Rightarrow> string" where
  "last_segment s = (if slash \<in> set s then rev (takeWhile (\<lambda>c. c \<noteq> slash) (rev s)) else s)"

definition entrypointIsTail :: "ImageConfig \<Rightarrow> bool" where
  "entrypointIsTail img =
     (let argv = (if im_Entrypoint img = [] then im_Cmd img else im_Entrypoint img) in
      if argv = [] then False
      else (let first = last_segment (hd argv) in
            if first = ''tail'' then True
            else if first \<in> set [''sh'', ''bash'', ''dash'', ''ash''] \<and> length argv \<ge> 3 \<and> argv ! 1 = ''-c''
            then HasSuffix (TrimSpace (last argv)) ''tail -f /dev/null''
            else False))"

definition EnvGatewayURL :: string where
  "EnvGatewayURL = ''HIVER_GATEWAY_URL''"

type_synonym env_map = "(string \<times> string) list"

definition injectGatewayURL :: "(string \<Rightarrow> string) \<Rightarrow> env_map \<Rightarrow> env_map" where
  "injectGatewayURL getenv e =
     (if map_of e EnvGatewayURL \<noteq> None then e
      else if getenv EnvGatewayURL \<noteq> [] then AList.update EnvGatewayURL (getenv EnvGatewayURL) e
      else e)"

definition set_default :: "string \<Rightarrow> string \<Rightarrow> env_map \<Rightarrow> env_map" where
  "set_default k v e = (if map_of e k = None then AList.update k v e else e)"

text \<open>
  The decisions between the image and the specification: whether the entrypoint gets a terminal,
  whether it runs as a terminal session in the guest rather than on its console, what the image
  configuration handed to the backend says, and the environment.
\<close>

record launch_plan =
  lp_tty :: bool
  lp_ttyExec :: bool
  lp_image :: ImageConfig
  lp_env :: env_map

definition plan_launch :: "(string \<Rightarrow> string) \<Rightarrow> string \<Rightarrow> bool \<Rightarrow> ImageConfig \<Rightarrow> SandboxSpec \<Rightarrow> launch_plan" where
  "plan_launch getenv nodeCA microvm img sp =
     (let over = sp_Entrypoint sp \<noteq> [];
          effCfg = (if over then img\<lparr>im_Entrypoint := sp_Entrypoint sp, im_Cmd := []\<rparr> else img);
          tty = (sp_Tty sp = Some True \<and> \<not> entrypointIsTail effCfg);
          ttyExec = (tty \<and> over \<and> microvm);
          img1 = (if over \<and> \<not> ttyExec then img\<lparr>im_Entrypoint := sp_Entrypoint sp, im_Cmd := []\<rparr> else img);
          img2 = (if sp_Cwd sp \<noteq> [] \<and> \<not> ttyExec then img1\<lparr>im_WorkingDir := sp_Cwd sp\<rparr> else img1);
          e1 = injectGatewayURL getenv (AList.update ''NODE_EXTRA_CA_CERTS'' nodeCA (sp_Env sp));
          e2 = (if tty then set_default ''COLORTERM'' ''truecolor'' (set_default ''TERM'' ''xterm-256color'' e1) else e1)
      in \<lparr>lp_tty = tty, lp_ttyExec = ttyExec, lp_image = img2, lp_env = e2\<rparr>)"

definition argv_of :: "ImageConfig \<Rightarrow> string list" where
  "argv_of img = im_Entrypoint img @ im_Cmd img"

lemma map_of_update [simp]: "map_of (AList.update k v e) x = (if x = k then Some v else map_of e x)"
  by (simp add: update_conv')

lemma inject_keeps: "map_of e k = Some v \<Longrightarrow> map_of (injectGatewayURL getenv e) k = Some v"
  by (auto simp: injectGatewayURL_def)

lemma inject_adds:
  "map_of e k = None \<Longrightarrow> map_of (injectGatewayURL getenv e) k = Some v \<Longrightarrow> k = EnvGatewayURL \<and> v = getenv EnvGatewayURL"
  by (auto simp: injectGatewayURL_def split: if_splits)

lemma default_keeps: "map_of e k = Some v \<Longrightarrow> map_of (set_default d x e) k = Some v"
  by (auto simp: set_default_def)

lemma default_adds: "map_of e k = None \<Longrightarrow> map_of (set_default d x e) k = Some v \<Longrightarrow> k = d"
  by (auto simp: set_default_def split: if_splits)

text \<open>
  An overriding entrypoint is run exactly once, as a terminal session of the guest or as the
  workload, never as both; without an override the image's own command runs.  A variable of the
  specification is kept, except that the workload always trusts the sandbox's certificate authority,
  and only a terminal adds terminal variables.
\<close>

theorem launch_plan_sound:
  assumes "p = plan_launch getenv nodeCA microvm img sp"
  shows "(lp_ttyExec p \<longrightarrow> lp_tty p \<and> microvm \<and> sp_Entrypoint sp \<noteq> [] \<and> argv_of (lp_image p) = argv_of img) \<and>
    (\<not> lp_ttyExec p \<longrightarrow> argv_of (lp_image p) = (if sp_Entrypoint sp \<noteq> [] then sp_Entrypoint sp else argv_of img)) \<and>
    map_of (lp_env p) ''NODE_EXTRA_CA_CERTS'' = Some nodeCA \<and>
    (\<forall>k v. k \<noteq> ''NODE_EXTRA_CA_CERTS'' \<and> map_of (sp_Env sp) k = Some v \<longrightarrow> map_of (lp_env p) k = Some v) \<and>
    (\<forall>k v. map_of (sp_Env sp) k = None \<and> map_of (lp_env p) k = Some v \<longrightarrow>
       k = ''NODE_EXTRA_CA_CERTS'' \<or> k = EnvGatewayURL \<and> v = getenv EnvGatewayURL \<or> lp_tty p \<and> k \<in> {''TERM'', ''COLORTERM''})"
proof -
  let ?e0 = "AList.update ''NODE_EXTRA_CA_CERTS'' nodeCA (sp_Env sp)"
  let ?e1 = "injectGatewayURL getenv ?e0"
  have env: "lp_env p = (if lp_tty p then set_default ''COLORTERM'' ''truecolor'' (set_default ''TERM'' ''xterm-256color'' ?e1) else ?e1)"
    unfolding assms plan_launch_def Let_def by simp
  have keeps: "map_of (lp_env p) k = Some v" if "map_of ?e0 k = Some v" for k v
    unfolding env using that by (simp add: inject_keeps default_keeps)
  have adds: "k = EnvGatewayURL \<and> v = getenv EnvGatewayURL \<or> lp_tty p \<and> k \<in> {''TERM'', ''COLORTERM''}"
    if none: "map_of ?e0 k = None" and some: "map_of (lp_env p) k = Some v" for k v
  proof (cases "map_of ?e1 k")
    case None
    have tty: "lp_tty p" using some None unfolding env by (simp split: if_splits)
    let ?e2 = "set_default ''TERM'' ''xterm-256color'' ?e1"
    show ?thesis
    proof (cases "map_of ?e2 k")
      case none2: None
      have "k = ''COLORTERM''" by (rule default_adds [OF none2]) (use some tty env in simp)
      then show ?thesis using tty by simp
    next
      case (Some u)
      then show ?thesis using default_adds [OF None Some] tty by simp
    qed
  next
    case (Some w)
    have "map_of (lp_env p) k = Some w" unfolding env using Some by (simp add: default_keeps)
    then have "w = v" using some by simp
    then show ?thesis using inject_adds [OF none Some] by simp
  qed
  have argv: "lp_ttyExec p \<longrightarrow> lp_tty p \<and> microvm \<and> sp_Entrypoint sp \<noteq> [] \<and> argv_of (lp_image p) = argv_of img"
    "\<not> lp_ttyExec p \<longrightarrow> argv_of (lp_image p) = (if sp_Entrypoint sp \<noteq> [] then sp_Entrypoint sp else argv_of img)"
    unfolding assms plan_launch_def Let_def by (simp_all add: argv_of_def)
  have "map_of (lp_env p) ''NODE_EXTRA_CA_CERTS'' = Some nodeCA" by (rule keeps) simp
  moreover have "map_of (lp_env p) k = Some v" if "k \<noteq> ''NODE_EXTRA_CA_CERTS'' \<and> map_of (sp_Env sp) k = Some v" for k v
    by (rule keeps) (use that in simp)
  moreover have "k = ''NODE_EXTRA_CA_CERTS'' \<or> k = EnvGatewayURL \<and> v = getenv EnvGatewayURL \<or> lp_tty p \<and> k \<in> {''TERM'', ''COLORTERM''}"
    if "map_of (sp_Env sp) k = None \<and> map_of (lp_env p) k = Some v" for k v
    using adds [of k v] that by (cases "k = ''NODE_EXTRA_CA_CERTS''") simp_all
  ultimately show ?thesis using argv by blast
qed

theorem launch_plan_sound_witness:
  "map_of (lp_env (plan_launch (\<lambda>_. []) ''/ca'' True \<lparr>im_Entrypoint = [''/bin/sh''], im_Cmd = [], im_WorkingDir = []\<rparr>
      ((spec_of [])\<lparr>sp_Entrypoint := [''bash''], sp_Tty := Some True\<rparr>))) ''NODE_EXTRA_CA_CERTS'' = Some ''/ca'' \<and>
   lp_ttyExec (plan_launch (\<lambda>_. []) ''/ca'' True \<lparr>im_Entrypoint = [''/bin/sh''], im_Cmd = [], im_WorkingDir = []\<rparr>
      ((spec_of [])\<lparr>sp_Entrypoint := [''bash''], sp_Tty := Some True\<rparr>))"
proof -
  have "lp_ttyExec (plan_launch (\<lambda>_. []) ''/ca'' True \<lparr>im_Entrypoint = [''/bin/sh''], im_Cmd = [], im_WorkingDir = []\<rparr>
      ((spec_of [])\<lparr>sp_Entrypoint := [''bash''], sp_Tty := Some True\<rparr>))" by code_simp
  then show ?thesis using launch_plan_sound [OF refl] by simp
qed

end
