(* ===== verification/Supervisor.thy ===== *)
theory Supervisor
  imports Mounts Slots Egress_Reload Launch
begin

text \<open>
  Bringing a packed sandbox up and tearing it down (\<^verbatim>\<open>createPacked\<close> in
  \<^verbatim>\<open>internal/sandboxd/packed.go\<close>) and the pod's table of sandboxes
  (\<^verbatim>\<open>internal/sandboxd/supervisor.go\<close>).  What is asked of the isolation backend, of the operating
  system and of the side processes is a \<open>pcall\<close>, answered by an arbitrary environment.  A create
  runs in the phases \<open>prepare\<close>, \<open>register\<close> and \<open>finish\<close>; a teardown runs once the sandbox's context
  is cancelled.
\<close>

section \<open>State\<close>

datatype pcall = AcquireLaunch | NewIsolation string string bool | MountRoot | InstallCA | MountCall mcall
  | RedirectEgress string | BindWorkspaces | DNSSink nat | WriteResolv string | HasPrewarm | ResumeAgent
  | LaunchAgent launch_plan | StartChild string | ResumeReady | ApplyResumeState | WaitReady
  | AwaitEgress | FlushAgent | StopAgent | CaptureSnapshot string "string list" | UnmountRoot | ClearWorkspace string

datatype pod_status = Starting | Running | Stopping | Stopped

text \<open>The fields of \<^verbatim>\<open>packState\<close> that are fixed when the pod has booted.\<close>

record pack_cfg =
  pc_microvm :: bool
  pc_snapshotDir :: string
  pc_workDir :: string
  pc_soMark :: int
  pc_hasCA :: bool
  pc_image :: ImageConfig
  pc_single :: bool

text \<open>
  The pod: slots, egress rules, the routes of the proxy's records, what the shared FUSE process
  and its translator hold, the mount manager of each sandbox, and the table of the supervisor.
\<close>

record 'w pod =
  pd_slots :: slots
  pd_egress :: pack_egress
  pd_gate :: egressGate
  pd_router :: "(string \<times> nat) list"
  pd_trans :: "(string \<times> fuseMountReg) list"
  pd_files :: "string \<rightharpoonup> Rule list"
  pd_daemon :: "(string \<times> ctrlMount) list"
  pd_live :: "nat \<Rightarrow> (string \<times> fsSidecar) list"
  pd_restored :: "nat \<Rightarrow> bool"
  pd_workloadLive :: "nat \<Rightarrow> bool"
  pd_sandboxes :: "(string \<times> nat) list"
  pd_stopping :: "nat list"
  pd_ready :: "nat list"
  pd_flushed :: "nat list"
  pd_podImage :: string
  pd_lifecycle :: "(string \<times> pod_status) list"
  pd_shutdown :: bool
  pd_trace :: "pcall list"
  pd_world :: 'w

type_synonym 'w penv = "pcall \<Rightarrow> 'w \<Rightarrow> bool \<times> 'w"
type_synonym ('w, 'a) pop = "('w pod, 'a) state"

definition pask :: "'w penv \<Rightarrow> pcall \<Rightarrow> ('w, bool) pop" where
  "pask env c = State (\<lambda>p. case env c (pd_world p) of (r, w) \<Rightarrow> (r, p\<lparr>pd_world := w, pd_trace := pd_trace p @ [c]\<rparr>))"

text \<open>
  One sandbox: what the closures of \<^verbatim>\<open>createPacked\<close> share.  \<open>in_id\<close> tells the sandboxes apart that
  were ever created under the same key.
\<close>

record inst =
  in_id :: nat
  in_key :: string
  in_ip :: string
  in_octet :: nat
  in_prealloc :: bool
  in_spec :: SandboxSpec
  in_resumed :: bool

definition keyRoot :: "string \<Rightarrow> string" where
  "keyRoot key = path_Join ''/run/sandboxd'' key"

definition manager_of :: "pack_cfg \<Rightarrow> string \<Rightarrow> mountManager" where
  "manager_of cfg key = \<lparr>mm_workDir = pc_workDir cfg, mm_snapshotDir = pc_snapshotDir cfg, mm_soMark = pc_soMark cfg, mm_keyPrefix = keyRoot key\<rparr>"

text \<open>An operation of the sandbox's mount manager, on the shared and on its own state.\<close>

definition node_of :: "nat \<Rightarrow> 'w pod \<Rightarrow> 'w node" where
  "node_of i p = \<lparr>nd_live = pd_live p i, nd_rootMounted = True, nd_restored = pd_restored p i, nd_workloadLive = pd_workloadLive p i,
     nd_trans = pd_trans p, nd_files = pd_files p, nd_daemon = pd_daemon p, nd_trace = [], nd_world = pd_world p\<rparr>"

definition mounting :: "nat \<Rightarrow> ('w, 'a) mop \<Rightarrow> ('w, 'a) pop" where
  "mounting i m = State (\<lambda>p. case run_state m (node_of i p) of (r, n) \<Rightarrow>
     (r, p\<lparr>pd_live := (pd_live p)(i := nd_live n), pd_restored := (pd_restored p)(i := nd_restored n),
           pd_trans := nd_trans n, pd_files := nd_files n, pd_daemon := nd_daemon n,
           pd_trace := pd_trace p @ map MountCall (nd_trace n), pd_world := nd_world n\<rparr>))"

definition mount_env :: "'w penv \<Rightarrow> 'w menv" where
  "mount_env env = (\<lambda>c. env (MountCall c))"

section \<open>Creating\<close>

definition setEgress :: "string \<Rightarrow> EgressRule list option \<Rightarrow> int \<Rightarrow> ('w, nat) pop" where
  "setEgress ip rules wait = State (\<lambda>p.
     case bumpDesired (pd_gate p) of (gen, g) \<Rightarrow>
       (gen, p\<lparr>pd_egress := set_source ip rules wait (pd_egress p), pd_gate := signal g\<rparr>))"

definition take_slot :: "('w, string \<times> nat \<times> bool) pop" where
  "take_slot = State (\<lambda>p. case claimSlot (pd_slots p) of (r, s) \<Rightarrow> (r, p\<lparr>pd_slots := s\<rparr>))"

definition give_slot :: "nat \<Rightarrow> bool \<Rightarrow> ('w, unit) pop" where
  "give_slot octet prealloc = modify (\<lambda>p. p\<lparr>pd_slots := releaseSlot octet prealloc (pd_slots p)\<rparr>)"

datatype create_error = ParseConfig | LaunchCancelled | IsolationFailed | MountRootFailed | WorkspacesFailed "(string \<times> mount_error) list"
  | EgressFailed | BindFailed | ResolvFailed | PrepareFailed | StartFailed | ResumeFailed | ApplyResumeFailed | WaitReadyFailed | PodOccupied

definition give_up :: "nat \<Rightarrow> bool \<Rightarrow> create_error \<Rightarrow> ('w, create_error + inst) pop" where
  "give_up octet prealloc e = do { give_slot octet prealloc; ret (Inl e) }"

text \<open>The configuration as received: the decoded specification, and whether the rules are present at all.\<close>

record create_config =
  cf_spec :: "SandboxSpec option"
  cf_hasEgress :: bool

definition rules_of :: "create_config \<Rightarrow> SandboxSpec \<Rightarrow> EgressRule list option" where
  "rules_of c sp = (if cf_hasEgress c then Some (sp_Egress sp) else None)"

definition derefInt :: "int option \<Rightarrow> int" where
  "derefInt p = (case p of None \<Rightarrow> 0 | Some i \<Rightarrow> i)"

text \<open>Starting the workload, with the slot given back when it fails.\<close>

definition launch :: "(string \<Rightarrow> string) \<Rightarrow> 'w penv \<Rightarrow> pack_cfg \<Rightarrow> inst \<Rightarrow> ('w, create_error + inst) pop" where
  "launch getenv env cfg x = do {
     let plan = plan_launch getenv ''/etc/ssl/certs/sandbox-ca.crt'' (pc_microvm cfg) (pc_image cfg) (in_spec x);
     if pc_microvm cfg then do {
       prewarm \<leftarrow> pask env HasPrewarm;
       prepared \<leftarrow> pask env (if prewarm then ResumeAgent else LaunchAgent plan);
       if \<not> prepared then give_up (in_octet x) (in_prealloc x) PrepareFailed
       else do {
         started \<leftarrow> pask env (StartChild (in_key x));
         if \<not> started then give_up (in_octet x) (in_prealloc x) StartFailed
         else if \<not> prewarm then ret (Inr x)
         else do {
           loaded \<leftarrow> pask env ResumeReady;
           if loaded then ret (Inr (x\<lparr>in_resumed := True\<rparr>)) else give_up (in_octet x) (in_prealloc x) ResumeFailed
         }
       }
     } else do {
       prepared \<leftarrow> pask env (LaunchAgent plan);
       if \<not> prepared then give_up (in_octet x) (in_prealloc x) PrepareFailed
       else do {
         started \<leftarrow> pask env (StartChild (in_key x));
         if started then ret (Inr x) else give_up (in_octet x) (in_prealloc x) StartFailed
       }
     }
   }"

text \<open>The network of the sandbox and its workspaces, up to the launch.\<close>

definition connect :: "(string \<Rightarrow> string) \<Rightarrow> 'w penv \<Rightarrow> pack_cfg \<Rightarrow> create_config \<Rightarrow> inst \<Rightarrow> ('w, create_error + inst) pop" where
  "connect getenv env cfg c x = do {
     redirected \<leftarrow> pask env (RedirectEgress (in_ip x));
     if \<not> redirected then give_up (in_octet x) (in_prealloc x) EgressFailed
     else do {
       gen \<leftarrow> setEgress (in_ip x) (rules_of c (in_spec x)) (derefInt (sp_EgressDenyWait (in_spec x)));
       bound \<leftarrow> pask env BindWorkspaces;
       if \<not> bound then give_up (in_octet x) (in_prealloc x) BindFailed
       else do {
         modify (\<lambda>p. p\<lparr>pd_router := AList.update (in_ip x) (in_id x) (pd_router p)\<rparr>);
         if pc_microvm cfg then launch getenv env cfg x
         else do {
           _ \<leftarrow> pask env (DNSSink (in_octet x));
           wrote \<leftarrow> pask env (WriteResolv (path_Join (keyRoot (in_key x)) ''resolv.conf''));
           if \<not> wrote then give_up (in_octet x) (in_prealloc x) ResolvFailed
           else launch getenv env cfg x
         }
       }
     }
   }"

definition prepare :: "(string \<Rightarrow> string) \<Rightarrow> 'w penv \<Rightarrow> pack_cfg \<Rightarrow> nat \<Rightarrow> string \<Rightarrow> create_config \<Rightarrow> ('w, create_error + inst) pop" where
  "prepare getenv env cfg i key c =
     (case cf_spec c of
        None \<Rightarrow> ret (Inl ParseConfig)
      | Some sp \<Rightarrow> do {
          admitted \<leftarrow> pask env AcquireLaunch;
          if \<not> admitted then ret (Inl LaunchCancelled)
          else do {
            (ip, octet, prealloc) \<leftarrow> take_slot;
            built \<leftarrow> pask env (NewIsolation key ip prealloc);
            if \<not> built then give_up octet prealloc IsolationFailed
            else do {
              rooted \<leftarrow> pask env MountRoot;
              if \<not> rooted then give_up octet prealloc MountRootFailed
              else do {
                _ \<leftarrow> (if pc_hasCA cfg then pask env InstallCA else ret True);
                errs \<leftarrow> mounting i (Reconcile getenv (mount_env env) (manager_of cfg key) sp);
                if errs \<noteq> [] then give_up octet prealloc (WorkspacesFailed errs)
                else connect getenv env cfg c
                  \<lparr>in_id = i, in_key = key, in_ip = ip, in_octet = octet, in_prealloc = prealloc, in_spec = sp, in_resumed = False\<rparr>
              }
            }
          }
        })"

definition note_status :: "string \<Rightarrow> pod_status \<Rightarrow> 'w pod \<Rightarrow> 'w pod" where
  "note_status key st p = p\<lparr>pd_lifecycle := pd_lifecycle p @ [(key, st)]\<rparr>"

definition register :: "inst \<Rightarrow> ('w, unit) pop" where
  "register x = modify (\<lambda>p. note_status (in_key x) Starting
     (p\<lparr>pd_sandboxes := AList.update (in_key x) (in_id x) (pd_sandboxes p),
        pd_podImage := (if pd_podImage p = [] then sp_Image (in_spec x) else pd_podImage p)\<rparr>))"

text \<open>A failure here cancels the sandbox, and its teardown follows.\<close>

definition finish :: "'w penv \<Rightarrow> inst \<Rightarrow> ('w, create_error option) pop" where
  "finish env x = do {
     up \<leftarrow> pask env (if in_resumed x then ApplyResumeState else WaitReady);
     if \<not> up then ret (Some (if in_resumed x then ApplyResumeFailed else WaitReadyFailed))
     else do {
       _ \<leftarrow> pask env AwaitEgress;
       modify (\<lambda>p. note_status (in_key x) Running
         (p\<lparr>pd_workloadLive := (pd_workloadLive p)(in_id x := True), pd_ready := in_id x # pd_ready p\<rparr>));
       ret None
     }
   }"

text \<open>
  A configuration that was applied to the running sandbox: its rules are replaced and its
  workspaces reconciled.  A configuration that cannot be read is skipped.
\<close>

definition apply_config :: "(string \<Rightarrow> string) \<Rightarrow> 'w penv \<Rightarrow> pack_cfg \<Rightarrow> inst \<times> create_config \<Rightarrow> create_config \<Rightarrow> ('w, inst \<times> create_config) pop" where
  "apply_config getenv env cfg xc c =
     (case cf_spec c of
        None \<Rightarrow> ret xc
      | Some sp \<Rightarrow> do {
          _ \<leftarrow> setEgress (in_ip (fst xc)) (rules_of c sp) (derefInt (sp_EgressDenyWait sp));
          _ \<leftarrow> mounting (in_id (fst xc)) (Reconcile getenv (mount_env env) (manager_of cfg (in_key (fst xc))) sp);
          ret ((fst xc)\<lparr>in_spec := sp\<rparr>, c)
        })"

section \<open>Tearing down\<close>

text \<open>The snapshot a specification asks for on shutdown: where it goes and what it holds.\<close>

definition shutdown_snapshot :: "pack_cfg \<Rightarrow> inst \<Rightarrow> (string \<times> string list) option" where
  "shutdown_snapshot cfg x =
     (case Option.bind (sp_Snapshot (in_spec x)) sn_Files of
        None \<Rightarrow> None
      | Some f \<Rightarrow>
          (let dir = (if sf_Mount f \<noteq> [] then hostMountPath (manager_of cfg (in_key x)) (sf_Mount f) else pc_snapshotDir cfg)
           in if sf_Key f \<noteq> [] \<and> sf_WriteOnShutdown f \<and> dir \<noteq> [] then Some (SnapshotPath dir (sf_Key f), sf_Include f) else None))"

definition teardown :: "'w penv \<Rightarrow> pack_cfg \<Rightarrow> inst \<Rightarrow> ('w, unit) pop" where
  "teardown env cfg x = do {
     modify (\<lambda>p. note_status (in_key x) Stopping (p\<lparr>pd_stopping := in_id x # pd_stopping p\<rparr>));
     _ \<leftarrow> (if pc_microvm cfg then pask env FlushAgent else ret True);
     _ \<leftarrow> pask env StopAgent;
     (case shutdown_snapshot cfg x of
        None \<Rightarrow> ret ()
      | Some (dst, include) \<Rightarrow> do { _ \<leftarrow> pask env (CaptureSnapshot dst include); ret () });
     mounting (in_id x) (mm_stopAll (mount_env env));
     modify (\<lambda>p. p\<lparr>pd_flushed := in_id x # pd_flushed p\<rparr>);
     _ \<leftarrow> pask env UnmountRoot;
     modify (\<lambda>p. p\<lparr>pd_router := AList.delete (in_ip x) (pd_router p)\<rparr>);
     _ \<leftarrow> setEgress (in_ip x) None 0;
     give_slot (in_octet x) (in_prealloc x);
     _ \<leftarrow> pask env (ClearWorkspace (keyRoot (in_key x)));
     modify (\<lambda>p. note_status (in_key x) Stopped (p\<lparr>pd_sandboxes := AList.delete (in_key x) (pd_sandboxes p)\<rparr>));
     if pc_single cfg then modify (\<lambda>p. p\<lparr>pd_shutdown := True\<rparr>) else ret ()
   }"

section \<open>The supervisor\<close>

text \<open>
  \<^verbatim>\<open>createPacked\<close> as a whole; a sandbox that fails to come up after its registration is torn down.
\<close>

definition createPacked :: "(string \<Rightarrow> string) \<Rightarrow> 'w penv \<Rightarrow> pack_cfg \<Rightarrow> nat \<Rightarrow> string \<Rightarrow> create_config \<Rightarrow> ('w, create_error + inst) pop" where
  "createPacked getenv env cfg i key c = do {
     r \<leftarrow> prepare getenv env cfg i key c;
     (case r of
        Inl e \<Rightarrow> ret (Inl e)
      | Inr x \<Rightarrow> do {
          register x;
          e \<leftarrow> finish env x;
          (case e of
             None \<Rightarrow> ret (Inr x)
           | Some err \<Rightarrow> do { teardown env cfg x; ret (Inl err) })
        })
   }"

datatype create_result = Existing nat | Created inst | CreateFailed create_error

definition Create :: "(string \<Rightarrow> string) \<Rightarrow> 'w penv \<Rightarrow> pack_cfg option \<Rightarrow> nat \<Rightarrow> string \<Rightarrow> create_config \<Rightarrow> ('w, create_result) pop" where
  "Create getenv env pack i key c = do {
     found \<leftarrow> gets (\<lambda>p. map_of (pd_sandboxes p) key);
     (case found of
        Some j \<Rightarrow> ret (Existing j)
      | None \<Rightarrow>
          (case pack of
             None \<Rightarrow> ret (CreateFailed PodOccupied)
           | Some cfg \<Rightarrow> do {
               r \<leftarrow> createPacked getenv env cfg i key c;
               ret (case r of Inl e \<Rightarrow> CreateFailed e | Inr x \<Rightarrow> Created x)
             }))
   }"

text \<open>
  \<^verbatim>\<open>Delete\<close> cancels the sandbox registered under the key; its teardown follows, up to the point
  where the snapshot is flushed before the call returns.
\<close>

definition Delete :: "'w penv \<Rightarrow> pack_cfg \<Rightarrow> (nat \<Rightarrow> inst) \<Rightarrow> string \<Rightarrow> ('w, bool) pop" where
  "Delete env cfg insts key = do {
     found \<leftarrow> gets (\<lambda>p. map_of (pd_sandboxes p) key);
     (case found of
        None \<Rightarrow> ret False
      | Some i \<Rightarrow> do { teardown env cfg (insts i); ret True })
   }"

section \<open>Slots of the other sandboxes\<close>

lemma slots_out_distinct:
  assumes "slots_wf s" shows "count (slots_out s) n \<le> 1"
proof -
  have "count (slots_out s) n \<le> count (all_slots s) n" using slots_split [OF assms] by (simp add: multiset_eq_iff)
  then show ?thesis using all_slots_distinct [of s n] by simp
qed

lemma claim_fresh:
  assumes "slots_wf s" "claimSlot s = ((ip, octet, prealloc), s1)"
  shows "octet \<notin># slots_out s"
  using claim_out [OF assms] slots_out_distinct [of s1 octet] by (simp add: not_in_iff)

lemma claim_keeps_owned:
  assumes "slots_wf s" "claimSlot s = ((ip, octet, prealloc), s1)" "slot_owned n pre s"
  shows "slot_owned n pre s1"
  using claim_out [OF assms(1,2)] assms(2,3)
  by (cases s) (auto simp: slot_owned_def claimSlot_def pool_claim_def Let_def split: option.splits prod.splits if_splits)

lemma release_keeps_owned:
  assumes "slots_wf s" "slot_owned octet prealloc s" "slot_owned n pre s" "n \<noteq> octet"
  shows "slot_owned n pre (releaseSlot octet prealloc s)"
  using release_out [OF assms(1,2)] assms(3,4)
  by (cases s) (auto simp: slot_owned_def in_diff_count releaseSlot_def chan_send_def release_mark_def split: option.splits prod.splits if_splits)

section \<open>What each step leaves alone\<close>

lemma wp_pask [wps]:
  assumes "\<And>r q. pd_slots q = pd_slots p \<Longrightarrow> pd_egress q = pd_egress p \<Longrightarrow> pd_router q = pd_router p \<Longrightarrow>
    pd_sandboxes q = pd_sandboxes p \<Longrightarrow> pd_live q = pd_live p \<Longrightarrow> pd_trace q = pd_trace p @ [c] \<Longrightarrow> Q r q"
  shows "wp (pask env c) Q p"
  unfolding wp_def pask_def by (auto split: prod.splits intro!: assms)

lemma wp_mounting:
  assumes "\<And>r q ms. pd_slots q = pd_slots p \<Longrightarrow> pd_egress q = pd_egress p \<Longrightarrow> pd_router q = pd_router p \<Longrightarrow>
    pd_sandboxes q = pd_sandboxes p \<Longrightarrow> (\<forall>j. j \<noteq> i \<longrightarrow> pd_live q j = pd_live p j) \<Longrightarrow>
    pd_live q i = nd_live (snd (run_state m (node_of i p))) \<Longrightarrow> pd_trace q = pd_trace p @ map MountCall ms \<Longrightarrow> Q r q"
  shows "wp (mounting i m) Q p"
  unfolding wp_def mounting_def by (auto split: prod.splits intro!: assms)

lemma wp_setEgress [wps]:
  assumes "\<And>r q. pd_slots q = pd_slots p \<Longrightarrow> pd_egress q = set_source ip rules wait (pd_egress p) \<Longrightarrow> pd_router q = pd_router p \<Longrightarrow>
    pd_sandboxes q = pd_sandboxes p \<Longrightarrow> pd_live q = pd_live p \<Longrightarrow> pd_trace q = pd_trace p \<Longrightarrow> Q r q"
  shows "wp (setEgress ip rules wait) Q p"
  unfolding wp_def setEgress_def by (auto split: prod.splits intro!: assms)

text \<open>A step that ends as it began, but for the slot of the failed sandbox.\<close>

definition same_net :: "'w pod \<Rightarrow> 'w pod \<Rightarrow> bool" where
  "same_net p q \<longleftrightarrow> pd_egress q = pd_egress p \<and> pd_router q = pd_router p \<and> pd_sandboxes q = pd_sandboxes p"

definition gave_back :: "nat \<Rightarrow> bool \<Rightarrow> slots \<Rightarrow> slots \<Rightarrow> bool" where
  "gave_back n prealloc s t \<longleftrightarrow> t = releaseSlot n prealloc s \<and> slots_wf t \<and> slots_out t = slots_out s - {#n#} \<and>
     (\<forall>m pre. m \<noteq> n \<longrightarrow> slot_owned m pre s \<longrightarrow> slot_owned m pre t)"

lemma gave_back_owned: "gave_back n prealloc s t \<Longrightarrow> m \<noteq> n \<Longrightarrow> slot_owned m pre s \<Longrightarrow> slot_owned m pre t"
  by (auto simp: gave_back_def)

lemma wp_give_slot:
  assumes "slots_wf (pd_slots p)" "slot_owned octet prealloc (pd_slots p)"
    "\<And>q. gave_back octet prealloc (pd_slots p) (pd_slots q) \<Longrightarrow> same_net p q \<Longrightarrow> pd_live q = pd_live p \<Longrightarrow> pd_trace q = pd_trace p \<Longrightarrow> Q () q"
  shows "wp (give_slot octet prealloc) Q p"
  unfolding give_slot_def using release_out [OF assms(1,2)]
  by (intro wp_update assms(3)) (auto simp: gave_back_def same_net_def intro: release_keeps_owned [OF assms(1,2)])

lemma wp_give_up:
  assumes "slots_wf (pd_slots p)" "slot_owned octet prealloc (pd_slots p)"
    "\<And>q. gave_back octet prealloc (pd_slots p) (pd_slots q) \<Longrightarrow> same_net p q \<Longrightarrow> Q (Inl e) q"
  shows "wp (give_up octet prealloc e) Q p"
  unfolding give_up_def by (intro wps wp_give_slot assms) auto

definition launched :: "inst \<Rightarrow> 'w pod \<Rightarrow> create_error + inst \<Rightarrow> 'w pod \<Rightarrow> bool" where
  "launched x p r q \<longleftrightarrow> same_net p q \<and>
     (case r of Inl e \<Rightarrow> gave_back (in_octet x) (in_prealloc x) (pd_slots p) (pd_slots q)
      | Inr y \<Rightarrow> pd_slots q = pd_slots p \<and> (y = x \<or> y = x\<lparr>in_resumed := True\<rparr>))"

lemma wp_launch:
  assumes "slots_wf (pd_slots p)" "slot_owned (in_octet x) (in_prealloc x) (pd_slots p)"
  shows "wp (launch getenv env cfg x) (launched x p) p"
  unfolding launch_def
  by (intro wps wp_give_up) (auto simp: assms launched_def same_net_def)

text \<open>The sandbox \<open>x\<close> holds its address: the routes and the rules there are its own.\<close>

definition holds_address :: "inst \<Rightarrow> create_config \<Rightarrow> 'w pod \<Rightarrow> bool" where
  "holds_address x c q \<longleftrightarrow> slot_owned (in_octet x) (in_prealloc x) (pd_slots q) \<and> in_ip x = slotIP (in_octet x) \<and>
     map_of (pd_router q) (in_ip x) = Some (in_id x) \<and> pe_egress (pd_egress q) (in_ip x) = rules_of c (in_spec x)"

text \<open>Nothing changes at an address but the rules, the route and the slot of \<open>n\<close>.\<close>

definition others_kept :: "nat \<Rightarrow> 'w pod \<Rightarrow> 'w pod \<Rightarrow> bool" where
  "others_kept n p q \<longleftrightarrow> (\<forall>m. m \<noteq> n \<longrightarrow> pe_egress (pd_egress q) (slotIP m) = pe_egress (pd_egress p) (slotIP m) \<and>
     map_of (pd_router q) (slotIP m) = map_of (pd_router p) (slotIP m) \<and>
     (\<forall>pre. slot_owned m pre (pd_slots p) \<longrightarrow> slot_owned m pre (pd_slots q)))"

lemma others_kept_refl: "pd_egress q = pd_egress p \<Longrightarrow> pd_router q = pd_router p \<Longrightarrow> pd_slots q = pd_slots p \<Longrightarrow> others_kept n p q"
  by (simp add: others_kept_def)

lemma set_source_at: "pe_egress (set_source ip rules wait e) a = (if a = ip then rules else pe_egress e a)"
  by (simp add: set_source_def split: option.splits)

definition connected :: "inst \<Rightarrow> create_config \<Rightarrow> 'w pod \<Rightarrow> create_error + inst \<Rightarrow> 'w pod \<Rightarrow> bool" where
  "connected x c p r q \<longleftrightarrow> pd_sandboxes q = pd_sandboxes p \<and> others_kept (in_octet x) p q \<and>
     (case r of Inl e \<Rightarrow> gave_back (in_octet x) (in_prealloc x) (pd_slots p) (pd_slots q)
      | Inr y \<Rightarrow> pd_slots q = pd_slots p \<and> holds_address y c q \<and> (y = x \<or> y = x\<lparr>in_resumed := True\<rparr>))"

lemma launched_connected:
  assumes "launched x p1 r q" "pd_slots p1 = pd_slots p" "pd_sandboxes p1 = pd_sandboxes p"
    "pd_egress p1 = set_source (in_ip x) (rules_of c (in_spec x)) wait (pd_egress p)"
    "pd_router p1 = AList.update (in_ip x) (in_id x) (pd_router p)"
    "in_ip x = slotIP (in_octet x)" "slot_owned (in_octet x) (in_prealloc x) (pd_slots p)"
  shows "connected x c p r q"
  using assms
  by (auto simp: launched_def connected_def others_kept_def holds_address_def same_net_def set_source_at update_conv' slotIP_inj
      split: sum.splits intro: gave_back_owned)

lemma wp_connect:
  assumes "slots_wf (pd_slots p)" "slot_owned (in_octet x) (in_prealloc x) (pd_slots p)" "in_ip x = slotIP (in_octet x)"
  shows "wp (connect getenv env cfg c x) (connected x c p) p"
proof -
  have failed: "connected x c p (Inl e) q"
    if "gave_back (in_octet x) (in_prealloc x) (pd_slots p1) (pd_slots q)" "same_net p1 q" "pd_slots p1 = pd_slots p" "pd_sandboxes p1 = pd_sandboxes p"
      "pd_router p1 = pd_router p \<or> pd_router p1 = AList.update (in_ip x) (in_id x) (pd_router p)"
      "pd_egress p1 = pd_egress p \<or> pd_egress p1 = set_source (in_ip x) rs w (pd_egress p)" for e q rs w and p1 :: "'a pod"
    using that assms(3)
    by (auto simp: connected_def others_kept_def same_net_def set_source_at update_conv' slotIP_inj intro: gave_back_owned)
  have gives_up: "wp (give_up (in_octet x) (in_prealloc x) e) (connected x c p) p1"
    if "pd_slots p1 = pd_slots p" "pd_sandboxes p1 = pd_sandboxes p"
      "pd_router p1 = pd_router p \<or> pd_router p1 = AList.update (in_ip x) (in_id x) (pd_router p)"
      "pd_egress p1 = pd_egress p \<or> pd_egress p1 = set_source (in_ip x) (rules_of c (in_spec x)) (derefInt (sp_EgressDenyWait (in_spec x))) (pd_egress p)" for e p1
    by (intro wp_give_up failed [OF _ _ that]) (simp_all add: that(1) assms(1,2))
  have launches: "wp (launch getenv env cfg x) (connected x c p) p1"
    if "pd_slots p1 = pd_slots p" "pd_sandboxes p1 = pd_sandboxes p"
      "pd_egress p1 = set_source (in_ip x) (rules_of c (in_spec x)) (derefInt (sp_EgressDenyWait (in_spec x))) (pd_egress p)"
      "pd_router p1 = AList.update (in_ip x) (in_id x) (pd_router p)" for p1
    by (rule wp_mono [OF wp_launch launched_connected [OF _ that assms(3,2)]]) (simp_all add: that(1) assms(1,2))
  show ?thesis
    unfolding connect_def
    by (intro wps wp_update; (rule gives_up | rule launches); simp)
qed


text \<open>
  Preparing a sandbox: on failure no slot is lost; on success the sandbox holds a slot that was
  free.  Either way nothing changes at the addresses of the slots that were out.
\<close>

definition prepared :: "nat \<Rightarrow> string \<Rightarrow> create_config \<Rightarrow> 'w pod \<Rightarrow> create_error + inst \<Rightarrow> 'w pod \<Rightarrow> bool" where
  "prepared i key c p r q \<longleftrightarrow> slots_wf (pd_slots q) \<and> pd_sandboxes q = pd_sandboxes p \<and>
     (case r of
        Inl e \<Rightarrow> slots_out (pd_slots q) = slots_out (pd_slots p) \<and> (\<exists>n. n \<notin># slots_out (pd_slots p) \<and> others_kept n p q)
      | Inr x \<Rightarrow> slots_out (pd_slots q) = add_mset (in_octet x) (slots_out (pd_slots p)) \<and> in_octet x \<notin># slots_out (pd_slots p) \<and>
          claimSlot (pd_slots p) = ((in_ip x, in_octet x, in_prealloc x), pd_slots q) \<and> others_kept (in_octet x) p q \<and> holds_address x c q \<and> in_id x = i \<and> in_key x = key \<and> cf_spec c = Some (in_spec x))"

lemma free_slot_exists: "\<exists>n. n \<notin># slots_out s"
  using finite_set_mset [of "slots_out s"] ex_new_if_finite infinite_UNIV_nat by blast

lemma prepared_nothing:
  assumes "slots_wf (pd_slots p)" "pd_slots q = pd_slots p" "pd_egress q = pd_egress p" "pd_router q = pd_router p" "pd_sandboxes q = pd_sandboxes p"
  shows "prepared i key c p (Inl e) q"
  using assms free_slot_exists [of "pd_slots p"] by (auto simp: prepared_def others_kept_def)

text \<open>The state once a slot was claimed, until the sandbox holds its address.\<close>

definition claimed :: "nat \<Rightarrow> bool \<Rightarrow> 'w pod \<Rightarrow> 'w pod \<Rightarrow> bool" where
  "claimed octet prealloc p q \<longleftrightarrow> claimSlot (pd_slots p) = ((slotIP octet, octet, prealloc), pd_slots q) \<and> slots_wf (pd_slots q) \<and> slots_out (pd_slots q) = add_mset octet (slots_out (pd_slots p)) \<and>
     slot_owned octet prealloc (pd_slots q) \<and> octet \<notin># slots_out (pd_slots p) \<and> others_kept octet p q \<and> pd_sandboxes q = pd_sandboxes p"

lemma claimed_cong:
  assumes "claimed octet prealloc p p1" "pd_slots q = pd_slots p1" "pd_egress q = pd_egress p1" "pd_router q = pd_router p1"
    "pd_sandboxes q = pd_sandboxes p1"
    "pd_slots p = pd_slots p0" "pd_egress p = pd_egress p0" "pd_router p = pd_router p0" "pd_sandboxes p = pd_sandboxes p0"
  shows "claimed octet prealloc p0 q"
  using assms by (simp add: claimed_def others_kept_def)

lemma wp_take_slot:
  assumes "slots_wf (pd_slots p)"
    "\<And>ip octet prealloc q. claimed octet prealloc p q \<Longrightarrow> ip = slotIP octet \<Longrightarrow> Q (ip, octet, prealloc) q"
  shows "wp take_slot Q p"
proof -
  obtain ip octet prealloc s where c: "claimSlot (pd_slots p) = ((ip, octet, prealloc), s)" by (metis prod.collapse)
  have "Q (ip, octet, prealloc) (p\<lparr>pd_slots := s\<rparr>)"
    using claim_out [OF assms(1) c] claim_fresh [OF assms(1) c] claim_keeps_owned [OF assms(1) c]
    by (intro assms(2)) (auto simp: claimed_def others_kept_def c)
  then show ?thesis by (simp add: wp_def take_slot_def c)
qed

lemma claimed_give_up:
  assumes "claimed octet prealloc p p1"
  shows "wp (give_up octet prealloc e) (prepared i key c p) p1"
proof (rule wp_give_up)
  show "slots_wf (pd_slots p1)" "slot_owned octet prealloc (pd_slots p1)" using assms by (simp_all add: claimed_def)
  show "prepared i key c p (Inl e) q" if "gave_back octet prealloc (pd_slots p1) (pd_slots q)" "same_net p1 q" for q
    using that assms by (auto simp: prepared_def claimed_def gave_back_def same_net_def others_kept_def intro!: exI [of _ octet])
qed

lemma claimed_connect:
  assumes "claimed (in_octet x) (in_prealloc x) p p1" "in_ip x = slotIP (in_octet x)" "in_id x = i" "in_key x = key" "cf_spec c = Some (in_spec x)"
  shows "wp (connect getenv env cfg c x) (prepared i key c p) p1"
proof (rule wp_mono [OF wp_connect])
  show "slots_wf (pd_slots p1)" "slot_owned (in_octet x) (in_prealloc x) (pd_slots p1)" using assms(1) by (simp_all add: claimed_def)
  show "in_ip x = slotIP (in_octet x)" by (rule assms(2))
  show "prepared i key c p r q" if con: "connected x c p1 r q" for r q
    using con assms
    by (auto simp: prepared_def claimed_def connected_def gave_back_def others_kept_def split: sum.splits intro!: exI [of _ "in_octet x"])
qed

lemma wp_prepare:
  assumes "slots_wf (pd_slots p)"
  shows "wp (prepare getenv env cfg i key c) (prepared i key c p) p"
proof -
  have gone_on: "wp (connect getenv env cfg c \<lparr>in_id = i, in_key = key, in_ip = slotIP octet, in_octet = octet, in_prealloc = prealloc, in_spec = sp, in_resumed = False\<rparr>)
     (prepared i key c p) p1" if "claimed octet prealloc p p1" "cf_spec c = Some sp" for octet prealloc p1 sp
    using that by (intro claimed_connect) simp_all
  show ?thesis
    unfolding prepare_def
    apply (intro wps wp_take_slot)
    subgoal by (rule prepared_nothing) (simp_all add: assms)
    subgoal by (rule prepared_nothing) (simp_all add: assms)
    subgoal by (simp add: assms)
    subgoal for sp r q ip octet prealloc q1
      unfolding prod.case
      by (intro wps wp_mounting; (rule claimed_give_up | simp only:, rule gone_on); (erule claimed_cong)?; simp)
    done
qed

section \<open>What a teardown leaves\<close>

lemma wp_mm_stop: "wp (mm_stop env mt) (\<lambda>_ s'. map_of (nd_live s') = (map_of (nd_live s))(mt := None)) s"
  unfolding mm_stop_def trans_unregister_def
  by (intro wps wp_gets wp_update wp_fc_Unmount)
     (auto simp: core_def delete_conv' intro!: wps wp_gets wp_update ext)

lemma wp_mm_stops: "wp (mm_stops env mts) (\<lambda>_ s'. map_of (nd_live s') = map_of (nd_live s) |` (- set mts)) s"
proof (induction mts arbitrary: s)
  case (Cons mt mts)
  show ?case
    unfolding mm_stops.simps
    by (rule wp_bind, rule wp_mono [OF wp_mm_stop], rule wp_mono [OF Cons.IH])
       (auto simp: restrict_map_def fun_eq_iff)
qed (simp add: wp_def restrict_map_def)

lemma stopAll_empties: "nd_live (snd (run_state (mm_stopAll env) s)) = []"
proof -
  have "wp (mm_stopAll env) (\<lambda>_ s'. map_of (nd_live s') = Map.empty) s"
    unfolding mm_stopAll_def
    by (intro wp_bind wp_gets, rule wp_mono [OF wp_mm_stops])
       (auto simp: restrict_map_def fun_eq_iff map_of_eq_None_iff)
  from wp_D [OF this] show ?thesis by simp
qed

definition torn_down :: "pack_cfg \<Rightarrow> inst \<Rightarrow> 'w pod \<Rightarrow> 'w pod \<Rightarrow> bool" where
  "torn_down cfg x p q \<longleftrightarrow> gave_back (in_octet x) (in_prealloc x) (pd_slots p) (pd_slots q) \<and> others_kept (in_octet x) p q \<and>
     map_of (pd_router q) (in_ip x) = None \<and> pe_egress (pd_egress q) (in_ip x) = None \<and>
     map_of (pd_sandboxes q) = (map_of (pd_sandboxes p))(in_key x := None) \<and>
     pd_live q (in_id x) = [] \<and> (\<forall>j. j \<noteq> in_id x \<longrightarrow> pd_live q j = pd_live p j) \<and>
     (\<exists>ms. pd_trace q = pd_trace p @ (if pc_microvm cfg then [FlushAgent] else []) @ [StopAgent] @
        (case shutdown_snapshot cfg x of None \<Rightarrow> [] | Some (dst, include) \<Rightarrow> [CaptureSnapshot dst include]) @
        map MountCall ms @ [UnmountRoot, ClearWorkspace (keyRoot (in_key x))])"

lemma wp_teardown:
  assumes "slots_wf (pd_slots p)" "slot_owned (in_octet x) (in_prealloc x) (pd_slots p)" "in_ip x = slotIP (in_octet x)"
  shows "wp (teardown env cfg x) (\<lambda>_. torn_down cfg x p) p"
proof -
  obtain snap where snap: "snap = (case shutdown_snapshot cfg x of None \<Rightarrow> [] | Some (dst, include) \<Rightarrow> [CaptureSnapshot dst include])" by blast
  have capture: "wp (case shutdown_snapshot cfg x of None \<Rightarrow> ret () | Some (dst, include) \<Rightarrow> do { _ \<leftarrow> pask env (CaptureSnapshot dst include); ret () }) Q p1"
    if "\<And>q. pd_slots q = pd_slots p1 \<Longrightarrow> pd_egress q = pd_egress p1 \<Longrightarrow> pd_router q = pd_router p1 \<Longrightarrow>
      pd_sandboxes q = pd_sandboxes p1 \<Longrightarrow> pd_live q = pd_live p1 \<Longrightarrow> pd_trace q = pd_trace p1 @ snap \<Longrightarrow> Q () q" for Q and p1 :: "'a pod"
    by (cases "shutdown_snapshot cfg x") (auto simp: snap split: prod.splits intro!: wps that)
  show ?thesis
    unfolding teardown_def
    by (intro wps wp_update capture wp_mounting wp_give_slot)
       (auto simp: note_status_def assms torn_down_def others_kept_def same_net_def delete_conv' set_source_at slotIP_inj
          stopAll_empties snap [symmetric] intro: gave_back_owned)
qed

section \<open>A create as a whole\<close>

lemma wp_register [wps]:
  assumes "\<And>q. pd_slots q = pd_slots p \<Longrightarrow> pd_egress q = pd_egress p \<Longrightarrow> pd_router q = pd_router p \<Longrightarrow>
    map_of (pd_sandboxes q) = (map_of (pd_sandboxes p))(in_key x \<mapsto> in_id x) \<Longrightarrow> Q () q"
  shows "wp (register x) Q p"
  unfolding register_def by (rule wp_update, rule assms) (simp_all add: note_status_def update_conv')

lemma wp_finish:
  assumes "\<And>r q. pd_slots q = pd_slots p \<Longrightarrow> pd_egress q = pd_egress p \<Longrightarrow> pd_router q = pd_router p \<Longrightarrow>
    pd_sandboxes q = pd_sandboxes p \<Longrightarrow> Q r q"
  shows "wp (finish env x) Q p"
  unfolding finish_def by (intro wps wp_update) (rule assms; simp add: note_status_def)+

text \<open>
  C15: a create that fails gives its slot back and leaves no entry under the key; one that succeeds
  holds one slot more, its address routes to the new sandbox and carries the rules of its
  configuration, and the key names it.  In both cases the slots, routes and rules of the sandboxes
  that are up stay as they are.
\<close>

theorem create_all_or_nothing:
  assumes "slots_wf (pd_slots p)"
  shows "wp (createPacked getenv env cfg i key c) (\<lambda>r q. slots_wf (pd_slots q) \<and>
      (\<exists>n. n \<notin># slots_out (pd_slots p) \<and> others_kept n p q) \<and>
      (\<forall>k. k \<noteq> key \<longrightarrow> map_of (pd_sandboxes q) k = map_of (pd_sandboxes p) k) \<and>
      (case r of
         Inl e \<Rightarrow> slots_out (pd_slots q) = slots_out (pd_slots p) \<and> map_of (pd_sandboxes q) key \<in> {map_of (pd_sandboxes p) key, None}
       | Inr x \<Rightarrow> slots_out (pd_slots q) = add_mset (in_octet x) (slots_out (pd_slots p)) \<and> holds_address x c q \<and>
           cf_spec c = Some (in_spec x) \<and> map_of (pd_sandboxes q) key = Some i)) p" (is "wp _ ?Q p")
proof -
  have up: "wp (do { register x; e \<leftarrow> finish env x; (case e of None \<Rightarrow> ret (Inr x) | Some err \<Rightarrow> do { teardown env cfg x; ret (Inl err) }) }) ?Q q"
    if prep: "prepared i key c p (Inr x) q" for x q
  proof (intro wps wp_finish)
    fix q1 q2 :: "'a pod"
    assume q: "pd_slots q1 = pd_slots q" "pd_egress q1 = pd_egress q" "pd_router q1 = pd_router q"
      "map_of (pd_sandboxes q1) = (map_of (pd_sandboxes q))(in_key x \<mapsto> in_id x)"
      "pd_slots q2 = pd_slots q1" "pd_egress q2 = pd_egress q1" "pd_router q2 = pd_router q1" "pd_sandboxes q2 = pd_sandboxes q1"
    let ?n = "in_octet x"
    have kept: "others_kept ?n p q2" and n: "?n \<notin># slots_out (pd_slots p)" using prep q by (auto simp: prepared_def others_kept_def)
    show "?Q (Inr x) q2"
      using prep n kept q by (auto simp: prepared_def holds_address_def)
    have own: "slots_wf (pd_slots q2)" "slot_owned (in_octet x) (in_prealloc x) (pd_slots q2)" "in_ip x = slotIP (in_octet x)"
      using prep q by (auto simp: prepared_def holds_address_def)
    show "wp (teardown env cfg x) (\<lambda>_. wp (ret (Inl err)) ?Q) q2" for err
    proof (rule wp_mono [OF wp_teardown [OF own]], rule wp_ret)
      fix q3 assume t: "torn_down cfg x q2 q3"
      show "?Q (Inl err) q3"
        using prep t q n kept by (auto simp: prepared_def torn_down_def gave_back_def others_kept_def)
    qed
  qed
  show ?thesis
    unfolding createPacked_def
  proof (intro wps wp_mono [OF wp_prepare [OF assms]])
    fix r q assume prep: "prepared i key c p r q"
    show "wp (case r of Inl e \<Rightarrow> ret (Inl e) | Inr x \<Rightarrow> do { register x; e \<leftarrow> finish env x;
        (case e of None \<Rightarrow> ret (Inr x) | Some err \<Rightarrow> do { teardown env cfg x; ret (Inl err) }) }) ?Q q"
    proof (cases r)
      case (Inl e)
      then show ?thesis using prep by (simp add: prepared_def wp_ret)
    next
      case (Inr x)
      then show ?thesis using up prep by simp
    qed
  qed
qed

section \<open>Many sandboxes\<close>

text \<open>
  The pod with the sandboxes that are up, each with its current configuration.  The
  phases of any number of creates, changes and teardowns interleave; every step may see another environment.
\<close>

type_synonym 'w fleet = "'w pod \<times> (inst \<times> create_config) list"

inductive fleet_step :: "(string \<Rightarrow> string) \<Rightarrow> pack_cfg \<Rightarrow> 'w fleet \<Rightarrow> 'w fleet \<Rightarrow> bool" for getenv cfg where
  create_failed: "i \<notin> set (map (in_id \<circ> fst) up) \<Longrightarrow> run_state (prepare getenv env cfg i key c) p = (Inl e, q) \<Longrightarrow>
     fleet_step getenv cfg (p, up) (q, up)"
| created: "i \<notin> set (map (in_id \<circ> fst) up) \<Longrightarrow> run_state (prepare getenv env cfg i key c) p = (Inr x, q) \<Longrightarrow>
     fleet_step getenv cfg (p, up) (q, (x, c) # up)"
| registered: "(x, c) \<in> set up \<Longrightarrow> run_state (register x) p = (r, q) \<Longrightarrow> fleet_step getenv cfg (p, up) (q, up)"
| finished: "(x, c) \<in> set up \<Longrightarrow> run_state (finish env x) p = (r, q) \<Longrightarrow> fleet_step getenv cfg (p, up) (q, up)"
| stopped: "(x, c) \<in> set up \<Longrightarrow> run_state (teardown env cfg x) p = (r, q) \<Longrightarrow> fleet_step getenv cfg (p, up) (q, remove1 (x, c) up)"
| reconfigured: "up = as @ xc # bs \<Longrightarrow> run_state (apply_config getenv env cfg xc c) p = (yd, q) \<Longrightarrow>
     fleet_step getenv cfg (p, up) (q, as @ yd # bs)"

definition fleet_init :: "'w fleet \<Rightarrow> bool" where
  "fleet_init s \<longleftrightarrow> snd s = [] \<and> slots_wf (pd_slots (fst s)) \<and> slots_out (pd_slots (fst s)) = {#}"

definition fleet_ok :: "'w fleet \<Rightarrow> bool" where
  "fleet_ok s \<longleftrightarrow> slots_wf (pd_slots (fst s)) \<and> slots_out (pd_slots (fst s)) = mset (map (in_octet \<circ> fst) (snd s)) \<and>
     distinct (map (in_id \<circ> fst) (snd s)) \<and> (\<forall>(x, c) \<in> set (snd s). holds_address x c (fst s))"

lemma run_wp: "wp m Q p \<Longrightarrow> run_state m p = (r, q) \<Longrightarrow> Q r q"
  by (simp add: wp_def)

lemma fleet_distinct: "fleet_ok s \<Longrightarrow> distinct (map (in_octet \<circ> fst) (snd s))"
  using slots_out_distinct [of "pd_slots (fst s)"]
  by (auto simp: fleet_ok_def distinct_count_atmost_1 le_Suc_eq count_eq_zero_iff)

lemma other_octet:
  assumes "distinct (map (in_octet \<circ> fst) (as @ (x, c) # bs))" "(y, e) \<in> set (as @ bs)" shows "in_octet y \<noteq> in_octet x"
proof -
  have "in_octet y \<in> set (map (in_octet \<circ> fst) (as @ bs))" using assms(2) by force
  moreover have "in_octet x \<notin> set (map (in_octet \<circ> fst) (as @ bs))" using assms(1) by auto
  ultimately show ?thesis by metis
qed

lemma holds_kept:
  assumes "holds_address x c p" "others_kept n p q" "in_octet x \<noteq> n" shows "holds_address x c q"
  using assms by (auto simp: holds_address_def others_kept_def)

lemma fleet_same:
  assumes "fleet_ok (p, up)" "pd_slots q = pd_slots p" "pd_egress q = pd_egress p" "pd_router q = pd_router p"
  shows "fleet_ok (q, up)"
  using assms by (auto simp: fleet_ok_def holds_address_def)

lemma fleet_prepared:
  assumes ok: "fleet_ok (p, up)" and new: "i \<notin> set (map (in_id \<circ> fst) up)" and prep: "prepared i key c p r q"
  shows "fleet_ok (q, case r of Inl e \<Rightarrow> up | Inr x \<Rightarrow> (x, c) # up)"
proof -
  obtain n where n: "n \<notin># slots_out (pd_slots p)" "others_kept n p q" using prep by (auto simp: prepared_def split: sum.splits)
  have "holds_address y d q" if "(y, d) \<in> set up" for y d
    using ok n that by (intro holds_kept [of y d p n q]) (force simp: fleet_ok_def)+
  then show ?thesis using ok new prep by (auto simp: fleet_ok_def prepared_def split: sum.splits)
qed

lemma fleet_torn_down:
  assumes ok: "fleet_ok (p, up)" and x: "(x, c) \<in> set up" and down: "torn_down cfg x p q"
  shows "fleet_ok (q, remove1 (x, c) up)"
proof -
  have d: "distinct (map (in_octet \<circ> fst) up)" using fleet_distinct [OF ok] by simp
  obtain as bs where up: "up = as @ (x, c) # bs" "(x, c) \<notin> set as" using split_list_first [OF x] by blast
  have "holds_address y e q" if "(y, e) \<in> set (as @ bs)" for y e
  proof (rule holds_kept [of y e p])
    show "in_octet y \<noteq> in_octet x" using other_octet d that by (simp add: up(1))
    show "holds_address y e p" using ok that by (auto simp: fleet_ok_def up(1))
    show "others_kept (in_octet x) p q" using down by (simp add: torn_down_def)
  qed
  then show ?thesis using ok down up by (auto simp: fleet_ok_def torn_down_def gave_back_def remove1_append)
qed

lemma fleet_reconfigured:
  assumes ok: "fleet_ok (p, as @ (x, c) # bs)" and run: "run_state (apply_config getenv env cfg (x, c) d) p = (yd, q)"
  shows "fleet_ok (q, as @ yd # bs)"
proof (cases "cf_spec d")
  case None
  then show ?thesis using run ok by (simp add: apply_config_def)
next
  case (Some sp)
  have "wp (apply_config getenv env cfg (x, c) d) (\<lambda>r q. r = (x\<lparr>in_spec := sp\<rparr>, d) \<and> pd_slots q = pd_slots p \<and> pd_router q = pd_router p \<and>
      pe_egress (pd_egress q) = (pe_egress (pd_egress p))(in_ip x := rules_of d sp)) p"
    by (simp add: apply_config_def Some) (intro wps wp_mounting; simp add: set_source_at fun_eq_iff)
  note q = run_wp [OF this run]
  have dis: "distinct (map (in_octet \<circ> fst) (as @ (x, c) # bs))" using fleet_distinct [OF ok] by simp
  have "holds_address y e q" if "(y, e) \<in> set (as @ bs)" for y e
  proof -
    have y: "holds_address y e p" using ok that by (auto simp: fleet_ok_def)
    have "in_ip y \<noteq> in_ip x" using other_octet [OF dis that] y ok by (auto simp: fleet_ok_def holds_address_def slotIP_inj)
    then show ?thesis using y q by (auto simp: holds_address_def)
  qed
  then show ?thesis using ok q by (auto simp: fleet_ok_def holds_address_def)
qed

lemma fleet_step_ok: "fleet_step getenv cfg s t \<Longrightarrow> fleet_ok s \<Longrightarrow> fleet_ok t"
proof (induction rule: fleet_step.induct)
  case (create_failed i up env key c p e q)
  then show ?case using fleet_prepared [of p up i key c "Inl e" q] run_wp [OF wp_prepare create_failed(2)] by (simp add: fleet_ok_def)
next
  case (created i up env key c p x q)
  then show ?case using fleet_prepared [of p up i key c "Inr x" q] run_wp [OF wp_prepare created(2)] by (simp add: fleet_ok_def)
next
  case (registered x c up p r q)
  show ?case
    by (rule fleet_same [OF registered(3)]; rule run_wp [OF _ registered(2), where Q = "\<lambda>_ q. _ q = _"]; rule wp_register; simp)
next
  case (finished x c up env p r q)
  show ?case
    by (rule fleet_same [OF finished(3)]; rule run_wp [OF _ finished(2), where Q = "\<lambda>_ q. _ q = _"]; rule wp_finish; simp)
next
  case (stopped x c up env p r q)
  then have "torn_down cfg x p q"
    by (intro run_wp [OF wp_teardown stopped(2)]) (auto simp: fleet_ok_def holds_address_def)
  then show ?case using fleet_torn_down [OF stopped(3,1)] by simp
next
  case (reconfigured up as xc bs env c p yd q)
  then show ?case using fleet_reconfigured [of p as "fst xc" "snd xc" bs] by simp
qed

interpretation fleet: invariant_system fleet_init "fleet_step getenv cfg" fleet_ok
  for getenv cfg
proof
  show "fleet_ok s" if "fleet_init s" for s :: "'a fleet" using that by (simp add: fleet_init_def fleet_ok_def)
qed (rule fleet_step_ok)


lemma teardown_left:
  assumes "reachable fleet_init (fleet_step getenv cfg) (p, up)" "(x, c) \<in> set up"
  shows "wp (teardown env cfg x) (\<lambda>_ q. torn_down cfg x p q \<and> (\<forall>(y, d) \<in> set (remove1 (x, c) up). holds_address y d q)) p"
proof -
  have ok: "fleet_ok (p, up)" using fleet.reach_inv [OF assms(1)] .
  then have "wp (teardown env cfg x) (\<lambda>_. torn_down cfg x p) p"
    using assms(2) by (intro wp_teardown) (auto simp: fleet_ok_def holds_address_def)
  then show ?thesis by (rule wp_mono) (use fleet_torn_down [OF ok assms(2)] in \<open>auto simp: fleet_ok_def\<close>)
qed


section \<open>Concrete pods\<close>

definition boot_pod :: "unit pod" where
  "boot_pod = \<lparr>pd_slots = (\<lparr>nextN = 0, freed = []\<rparr>, None), pd_egress = no_egress, pd_gate = newEgressGate, pd_router = [], pd_trans = [],
     pd_files = (\<lambda>_. None), pd_daemon = [], pd_live = (\<lambda>_. []), pd_restored = (\<lambda>_. False), pd_workloadLive = (\<lambda>_. False),
     pd_sandboxes = [], pd_stopping = [], pd_ready = [], pd_flushed = [], pd_podImage = [], pd_lifecycle = [], pd_shutdown = False,
     pd_trace = [], pd_world = ()\<rparr>"

definition plain_cfg :: pack_cfg where
  "plain_cfg = \<lparr>pc_microvm = False, pc_snapshotDir = [], pc_workDir = ''/run'', pc_soMark = 0, pc_hasCA = False,
     pc_image = \<lparr>im_Entrypoint = [''/bin/sh''], im_Cmd = [], im_WorkingDir = []\<rparr>, pc_single = False\<rparr>"

definition host_rule :: "string \<Rightarrow> EgressRule" where
  "host_rule h = \<lparr>e_Access = ''allow'', e_Host = h, e_Ports = [], e_Methods = [], e_Paths = [], e_Override = None, e_OverrideScript = [], e_Passthrough = False\<rparr>"

definition config_for :: "string \<Rightarrow> FS list \<Rightarrow> create_config" where
  "config_for h fs = \<lparr>cf_spec = Some ((spec_of fs)\<lparr>sp_Egress := [host_rule h]\<rparr>), cf_hasEgress = True\<rparr>"

definition works :: "unit penv" where
  "works = (\<lambda>_ _. (True, ()))"

definition prep :: "nat \<Rightarrow> string \<Rightarrow> string \<Rightarrow> unit pod \<Rightarrow> (create_error + inst) \<times> unit pod" where
  "prep i key h p = run_state (prepare no_env works plain_cfg i key (config_for h [])) p"

definition first_pod :: "unit pod" where
  "first_pod = snd (prep 0 ''k'' ''a.org'' boot_pod)"

definition first_sandbox :: inst where
  "first_sandbox = projr (fst (prep 0 ''k'' ''a.org'' boot_pod))"

definition second_pod :: "unit pod" where
  "second_pod = snd (prep 1 ''k'' ''b.org'' first_pod)"

definition second_sandbox :: inst where
  "second_sandbox = projr (fst (prep 1 ''k'' ''b.org'' first_pod))"

lemma boot_pod_ready: "slots_wf (pd_slots boot_pod)" "slots_out (pd_slots boot_pod) = {#}"
  by (simp_all add: boot_pod_def slots_wf_def slots_out_def free_slots_def all_slots_def)

lemma first_prepared: "prep 0 ''k'' ''a.org'' boot_pod = (Inr first_sandbox, first_pod)"
proof -
  have "isl (fst (prep 0 ''k'' ''a.org'' boot_pod)) = False" by code_simp
  then show ?thesis by (simp add: first_sandbox_def first_pod_def prod_eq_iff)
qed

lemma second_prepared: "prep 1 ''k'' ''b.org'' first_pod = (Inr second_sandbox, second_pod)"
proof -
  have "isl (fst (prep 1 ''k'' ''b.org'' first_pod)) = False" by code_simp
  then show ?thesis by (simp add: second_sandbox_def second_pod_def prod_eq_iff)
qed

lemma first_id: "in_id first_sandbox = 0" by code_simp

lemma two_up:
  "reachable fleet_init (fleet_step no_env plain_cfg)
     (second_pod, [(second_sandbox, config_for ''b.org'' []), (first_sandbox, config_for ''a.org'' [])])"
proof -
  have "reachable fleet_init (fleet_step no_env plain_cfg) (boot_pod, [])"
    by (rule reach_init) (simp add: fleet_init_def boot_pod_ready)
  then have "reachable fleet_init (fleet_step no_env plain_cfg) (first_pod, [(first_sandbox, config_for ''a.org'' [])])"
    by (rule reach_next, intro created [OF _ first_prepared [unfolded prep_def]]) simp
  then show ?thesis
    by (rule reach_next, intro created [OF _ second_prepared [unfolded prep_def]]) (simp add: first_id)
qed


theorem create_all_or_nothing_witness:
  "wp (createPacked no_env works plain_cfg 0 ''k'' (config_for ''a.org'' []))
     (\<lambda>r q. slots_wf (pd_slots q) \<and> map_of (pd_sandboxes q) ''other'' = None) boot_pod"
  using create_all_or_nothing [OF boot_pod_ready(1), of no_env works plain_cfg 0 "''k''" "config_for ''a.org'' []"]
  by (rule wp_mono) (auto simp: boot_pod_def)


text \<open>
  When the workspaces cannot be bound, the failed create has given its slot back, but the rules it
  registered stay in force for the address, its workspace stays mounted in the shared process, and
  the root is not unmounted.
\<close>

definition bind_fails :: "unit penv" where
  "bind_fails c w = (case c of BindWorkspaces \<Rightarrow> (False, ()) | _ \<Rightarrow> (True, ()))"

definition half_created :: "(create_error + inst) \<times> unit pod" where
  "half_created = run_state (createPacked no_env bind_fails plain_cfg 0 ''k'' (config_for ''a.org'' [local_fs ''/data''])) boot_pod"

theorem failed_create_leaves_mounts:
  "fst half_created = Inl BindFailed \<and> freed (fst (pd_slots (snd half_created))) = [2] \<and>
   map_option (map e_Host) (pe_egress (pd_egress (snd half_created)) (slotIP 2)) = Some [''a.org''] \<and>
   map fst (pd_daemon (snd half_created)) = [''/run/sandboxd/k/mnt/data''] \<and>
   UnmountRoot \<notin> set (pd_trace (snd half_created))"
  by code_simp

text \<open>
  Two creates of one key that overlap both find the key free and both bring a sandbox up.  The table
  keeps the second; when the first is torn down it removes the entry of the second, which from then
  on cannot be found or deleted while it still holds its slot.
\<close>

definition both_registered :: "unit pod" where
  "both_registered = snd (run_state (do { register first_sandbox; register second_sandbox }) second_pod)"

definition orphaned :: "unit pod" where
  "orphaned = snd (run_state (teardown works plain_cfg first_sandbox) both_registered)"

lemma both_registered_reachable:
  "reachable fleet_init (fleet_step no_env plain_cfg)
     (both_registered, [(second_sandbox, config_for ''b.org'' []), (first_sandbox, config_for ''a.org'' [])])"
proof -
  have "fst (run_state (register x) p) = ()" for x and p :: "unit pod" by simp
  then have "run_state (register x) p = ((), snd (run_state (register x) p))" for x and p :: "unit pod" by (simp add: prod_eq_iff)
  note reg = registered [OF _ this]
  have "both_registered = snd (run_state (register second_sandbox) (snd (run_state (register first_sandbox) second_pod)))"
    by (simp add: both_registered_def State_Monad.bind_def split: prod.splits)
  then show ?thesis
    using reach_next [OF reach_next [OF two_up reg [where x = first_sandbox and c = "config_for ''a.org'' []"]]
      reg [where x = second_sandbox and c = "config_for ''b.org'' []"]] by simp
qed

lemma both_keys: "in_key first_sandbox = ''k''" "in_key second_sandbox = ''k''" "in_id second_sandbox = 1"
  by code_simp+

theorem overlapping_creates_orphan:
  "map_of (pd_sandboxes both_registered) ''k'' = Some (in_id second_sandbox) \<and>
   fst (run_state (Delete works plain_cfg (\<lambda>_. second_sandbox) ''k'') orphaned) = False \<and>
   map_of (pd_router orphaned) (in_ip second_sandbox) = Some (in_id second_sandbox) \<and>
   in_octet second_sandbox \<in># slots_out (pd_slots orphaned)"
proof -
  have "wp (do { register first_sandbox; register second_sandbox }) (\<lambda>_ q. map_of (pd_sandboxes q) ''k'' = Some (in_id second_sandbox)) second_pod"
    by (intro wps) (simp add: both_keys)
  then have reg: "map_of (pd_sandboxes both_registered) ''k'' = Some (in_id second_sandbox)"
    unfolding both_registered_def by (rule wp_D)
  have "wp (teardown works plain_cfg first_sandbox) (\<lambda>_ q. torn_down plain_cfg first_sandbox both_registered q \<and>
      holds_address second_sandbox (config_for ''b.org'' []) q) both_registered"
    using teardown_left [OF both_registered_reachable, of first_sandbox "config_for ''a.org'' []" works]
    by (rule wp_mono) (auto split: if_splits simp: first_id both_keys dest: arg_cong [where f = in_id])
  from wp_D [OF this] have o: "map_of (pd_sandboxes orphaned) ''k'' = None" "holds_address second_sandbox (config_for ''b.org'' []) orphaned"
    unfolding orphaned_def [symmetric] by (simp_all add: torn_down_def both_keys)
  then show ?thesis using reg by (auto simp: Delete_def gets_def holds_address_def slot_owned_def)
qed

text \<open>
  A change of configuration that is carried out after the sandbox was torn down writes its rules for
  the address of the sandbox that was created next, which has the same one.
\<close>

theorem late_change_hits_successor:
  assumes "slots_wf (pd_slots p)" "holds_address x c p" "snd (pd_slots p) = None" "\<not> in_prealloc x"
    and down: "run_state (teardown env cfg x) p = (u, p1)"
    and up: "run_state (prepare getenv env cfg i key e) p1 = (Inr y, p2)"
    and late: "run_state (apply_config getenv env cfg (x, c) d) p2 = (r, p3)" "cf_spec d = Some sp"
  shows "in_ip y = in_ip x \<and> pe_egress (pd_egress p3) (in_ip y) = rules_of d sp"
proof -
  have "torn_down cfg x p p1" using assms(1,2) by (intro run_wp [OF wp_teardown down]) (simp_all add: holds_address_def)
  then have p1: "pd_slots p1 = releaseSlot (in_octet x) False (pd_slots p)" "slots_wf (pd_slots p1)"
    using assms(4) by (auto simp: torn_down_def gave_back_def)
  have "prepared i key e p1 (Inr y) p2" by (rule run_wp [OF wp_prepare [OF p1(2)] up])
  then have "claimSlot (pd_slots p1) = ((in_ip y, in_octet y, in_prealloc y), pd_slots p2)" by (simp add: prepared_def)
  then have "in_ip y = in_ip x"
    using assms(2,3) p1(1) by (cases "pd_slots p") (auto simp: holds_address_def releaseSlot_def claimSlot_def freeIP_def allocIP_def pool_claim_def)
  moreover have "wp (apply_config getenv env cfg (x, c) d) (\<lambda>_ q. pe_egress (pd_egress q) (in_ip x) = rules_of d sp) p2"
    by (simp add: apply_config_def late(2)) (intro wps wp_mounting; simp add: set_source_at)
  ultimately show ?thesis using run_wp [OF _ late(1)] by auto
qed

end
