(* ===== verification/Override.thy ===== *)
theory Override
  imports Egress "HOL-Library.Multiset"
begin

text \<open>
  Rewriting an allowed request: the declarative override of a rule (\<^verbatim>\<open>applyOverride\<close> and
  \<^verbatim>\<open>applyBodyOverride\<close> in \<^verbatim>\<open>internal/proxy/proxy.go\<close>) and the override script
  (\<^verbatim>\<open>internal/proxy/override_script.go\<close>).  Of \<^verbatim>\<open>net/url\<close> and \<^verbatim>\<open>net/http\<close> the model has what they
  use: query strings and header maps.  The JSON codec and the script interpreter are parameters.
\<close>

section \<open>Query strings\<close>

definition hex_digit :: "nat \<Rightarrow> char" where
  "hex_digit n = (if n < 10 then char_of (48 + n) else char_of (55 + n))"

definition unhex :: "char \<Rightarrow> nat option" where
  "unhex c = (let n = of_char c in
     if 48 \<le> n \<and> n \<le> 57 then Some (n - 48)
     else if 97 \<le> n \<and> n \<le> 102 then Some (n - 87)
     else if 65 \<le> n \<and> n \<le> 70 then Some (n - 55)
     else None)"

definition is_alnum :: "char \<Rightarrow> bool" where
  "is_alnum c = (let n = (of_char c :: nat) in 48 \<le> n \<and> n \<le> 57 \<or> 65 \<le> n \<and> n \<le> 90 \<or> 97 \<le> n \<and> n \<le> 122)"

definition unreserved :: "char \<Rightarrow> bool" where
  "unreserved c = (is_alnum c \<or> c \<in> set ''-_.~'')"

definition escape_char :: "char \<Rightarrow> string" where
  "escape_char c =
     (if unreserved c then [c] else if c = CHR '' '' then ''+''
      else [CHR ''%'', hex_digit (of_char c div 16), hex_digit (of_char c mod 16)])"

definition QueryEscape :: "string \<Rightarrow> string" where
  "QueryEscape s = concat (map escape_char s)"

fun QueryUnescape :: "string \<Rightarrow> string option" where
  "QueryUnescape [] = Some []"
| "QueryUnescape (c # s) =
     (if c = CHR ''%'' then
        (case s of
           a # b # t \<Rightarrow> (case (unhex a, unhex b) of
                           (Some x, Some y) \<Rightarrow> map_option (Cons (char_of (16 * x + y))) (QueryUnescape t)
                         | _ \<Rightarrow> None)
         | _ \<Rightarrow> None)
      else map_option (Cons (if c = CHR ''+'' then CHR '' '' else c)) (QueryUnescape s))"

text \<open>\<^verbatim>\<open>url.Values\<close>: the values of each key, in the order they were added.\<close>

type_synonym url_values = "(string \<times> string list) list"

definition values_of :: "url_values \<Rightarrow> string \<Rightarrow> string list" where
  "values_of q k = (case map_of q k of None \<Rightarrow> [] | Some vs \<Rightarrow> vs)"

definition add_value :: "string \<Rightarrow> string \<Rightarrow> url_values \<Rightarrow> url_values" where
  "add_value k v q = AList.update k (values_of q k @ [v]) q"

definition cut_eq :: "string \<Rightarrow> string \<times> string" where
  "cut_eq s = (takeWhile (\<lambda>c. c \<noteq> CHR ''='') s, drop 1 (dropWhile (\<lambda>c. c \<noteq> CHR ''='') s))"

text \<open>A part with a semicolon or a bad escape is skipped.\<close>

definition parse_part :: "string \<Rightarrow> url_values \<Rightarrow> url_values" where
  "parse_part part q =
     (if CHR '';'' \<in> set part \<or> part = [] then q
      else (case cut_eq part of
              (k, v) \<Rightarrow> (case (QueryUnescape k, QueryUnescape v) of
                            (Some k', Some v') \<Rightarrow> add_value k' v' q
                          | _ \<Rightarrow> q)))"

definition ParseQuery :: "string \<Rightarrow> url_values" where
  "ParseQuery s = fold parse_part (Split (CHR ''&'') s) []"

definition str_le :: "string \<Rightarrow> string \<Rightarrow> bool" where
  "str_le a b = (a = b \<or> lexordp (\<lambda>x y. (of_char x :: nat) < of_char y) a b)"

fun insert_key :: "string \<times> string list \<Rightarrow> url_values \<Rightarrow> url_values" where
  "insert_key p [] = [p]"
| "insert_key p (q # qs) = (if str_le (fst p) (fst q) then p # q # qs else q # insert_key p qs)"

definition sort_keys :: "url_values \<Rightarrow> url_values" where
  "sort_keys q = foldr insert_key q []"

definition value_pairs :: "url_values \<Rightarrow> (string \<times> string) list" where
  "value_pairs q = concat (map (\<lambda>(k, vs). map (Pair k) vs) q)"

definition enc_pair :: "string \<times> string \<Rightarrow> string" where
  "enc_pair p = QueryEscape (fst p) @ CHR ''='' # QueryEscape (snd p)"

definition Encode :: "url_values \<Rightarrow> string" where
  "Encode q = Join (CHR ''&'') (map enc_pair (value_pairs (sort_keys q)))"

section \<open>Headers\<close>

definition to_upper :: "char \<Rightarrow> char" where
  "to_upper c = (if 97 \<le> (of_char c :: nat) \<and> (of_char c :: nat) \<le> 122 then char_of ((of_char c :: nat) - 32) else c)"

definition token_char :: "char \<Rightarrow> bool" where
  "token_char c = (is_alnum c \<or> c \<in> set [CHR ''!'', CHR ''#'', CHR ''$'', CHR ''%'', CHR ''&'', CHR 0x27, CHR ''*'', CHR ''+'', CHR ''-'',
     CHR ''.'', CHR ''^'', CHR ''_'', CHR 0x60, CHR ''|'', CHR ''~''])"

fun canon :: "bool \<Rightarrow> string \<Rightarrow> string" where
  "canon up [] = []"
| "canon up (c # s) = (if up then to_upper c else to_lower c) # canon (c = CHR ''-'') s"

definition CanonicalHeaderKey :: "string \<Rightarrow> string" where
  "CanonicalHeaderKey s = (if list_all token_char s then canon True s else s)"

definition header_get :: "string \<Rightarrow> url_values \<Rightarrow> string" where
  "header_get k h = (case values_of h (CanonicalHeaderKey k) of [] \<Rightarrow> [] | v # vs \<Rightarrow> v)"

definition header_set :: "string \<Rightarrow> string \<Rightarrow> url_values \<Rightarrow> url_values" where
  "header_set k v h = AList.update (CanonicalHeaderKey k) [v] h"

definition header_del :: "string \<Rightarrow> url_values \<Rightarrow> url_values" where
  "header_del k h = AList.delete (CanonicalHeaderKey k) h"

section \<open>The override\<close>

text \<open>A request as the handlers see it; \<open>hr_bodyErr\<close> says that reading the body fails.\<close>

record http_req =
  hr_method :: string
  hr_host :: string
  hr_scheme :: string
  hr_urlHost :: string
  hr_path :: string
  hr_rawPath :: string
  hr_query :: string
  hr_headers :: url_values
  hr_body :: "string option"
  hr_bodyErr :: bool
  hr_length :: int
  hr_close :: bool

text \<open>What decoding the agent's body into a map of raw values gives.\<close>

datatype json_doc = JObject "(string \<times> string) list" | JNull | JNotObject

record json_lib =
  js_decode :: "string \<Rightarrow> json_doc"
  js_encode :: "(string \<times> string) list \<Rightarrow> string"

definition merge_object :: "(string \<times> string) list \<Rightarrow> (string \<times> string) list \<Rightarrow> (string \<times> string) list" where
  "merge_object over base = fold (\<lambda>(k, v) m. AList.update k v m) over base"

definition put_body :: "string \<Rightarrow> http_req \<Rightarrow> http_req" where
  "put_body b r = r\<lparr>hr_body := Some b, hr_bodyErr := False, hr_length := int (length b),
     hr_headers := header_del ''Content-Encoding'' (header_set ''Content-Length'' (Itoa (int (length b))) (hr_headers r))\<rparr>"

text \<open>
  \<open>None\<close> is a panic: a body of \<^verbatim>\<open>null\<close> decodes to the nil map, and an entry of the override
  cannot be assigned to it.
\<close>

definition applyBodyOverride :: "json_lib \<Rightarrow> body_override \<Rightarrow> string \<Rightarrow> http_req \<Rightarrow> http_req option" where
  "applyBodyOverride js body strategy r =
     (case body of
        BodyText s \<Rightarrow> Some (put_body s r)
      | BodyObject over \<Rightarrow>
          (let agent = (case hr_body r of
                          None \<Rightarrow> JNotObject
                        | Some b \<Rightarrow> if \<not> hr_bodyErr r \<and> strategy \<noteq> ''replace'' then js_decode js b else JNotObject)
           in case agent of
                JNull \<Rightarrow> if over = [] then Some (put_body ''null'' r) else None
              | JObject m \<Rightarrow> Some (put_body (js_encode js (merge_object over m)) r)
              | JNotObject \<Rightarrow> Some (put_body (js_encode js (merge_object over [])) r))
      | _ \<Rightarrow> Some r)"

definition override_query :: "(string \<times> string) list \<Rightarrow> string \<Rightarrow> string" where
  "override_query over raw =
     (if over = [] then raw else Encode (fold (\<lambda>(k, v) q. AList.update k [v] q) over (ParseQuery raw)))"

definition override_prefix :: "string \<Rightarrow> http_req \<Rightarrow> http_req" where
  "override_prefix pre r =
     (if pre = [] then r
      else (let p = TrimSuffix pre ''/'' in
            r\<lparr>hr_path := p @ hr_path r, hr_rawPath := (if hr_rawPath r \<noteq> [] then p @ hr_rawPath r else [])\<rparr>))"

definition applyOverride :: "json_lib \<Rightarrow> EgressOverride option \<Rightarrow> http_req \<Rightarrow> http_req option" where
  "applyOverride js ov r =
     (case ov of
        None \<Rightarrow> Some r
      | Some o1 \<Rightarrow>
          (let r1 = r\<lparr>hr_query := override_query (ov_Query o1) (hr_query r),
                      hr_headers := fold (\<lambda>(k, v) h. header_set k v h) (ov_Headers o1) (hr_headers r)\<rparr>
           in applyBodyOverride js (ov_Body o1) (ov_BodyStrategy o1) (override_prefix (ov_PrefixPath o1) r1)))"

section \<open>The override script\<close>

text \<open>
  The interpreter runs the script on its globals and returns the body and the headers table it
  leaves: a body that is not a string and a table entry that is not one are \<open>None\<close>.
\<close>

record lua_globals =
  lg_body :: string
  lg_method :: string
  lg_host :: string
  lg_path :: string
  lg_query :: string
  lg_headers :: "(string \<times> string) list"

record lua_result =
  lr_body :: "string option"
  lr_headers :: "(string \<times> string option) list option"

type_synonym lua = "string \<Rightarrow> lua_globals \<Rightarrow> lua_result option"

definition maxScriptBody :: nat where
  "maxScriptBody = 8 * 1024 * 1024"

definition script_table :: "url_values \<Rightarrow> (string \<times> string) list" where
  "script_table h = map (\<lambda>(k, vs). (k, hd vs)) (filter (\<lambda>(k, vs). vs \<noteq> []) h)"

definition applyScriptBody :: "string \<Rightarrow> string option \<Rightarrow> http_req \<Rightarrow> http_req" where
  "applyScriptBody orig out r =
     (let b = (case out of None \<Rightarrow> orig | Some s \<Rightarrow> s) in
      r\<lparr>hr_body := Some b, hr_bodyErr := False, hr_length := int (length b),
        hr_headers := header_set ''Content-Length'' (Itoa (int (length b))) (hr_headers r)\<rparr>)"

definition applyScriptHeaders :: "string list \<Rightarrow> (string \<times> string option) list option \<Rightarrow> http_req \<Rightarrow> http_req" where
  "applyScriptHeaders orig out r =
     (case out of
        None \<Rightarrow> r
      | Some tbl \<Rightarrow>
          (let present = map (CanonicalHeaderKey \<circ> fst) tbl;
               h1 = fold (\<lambda>(k, v) h. case v of None \<Rightarrow> h | Some s \<Rightarrow> header_set k s h) tbl (hr_headers r)
           in r\<lparr>hr_headers := fold (\<lambda>k h. if k \<in> set present then h else header_del k h) orig h1\<rparr>))"

definition runOverrideScript :: "lua \<Rightarrow> string \<Rightarrow> http_req \<Rightarrow> http_req" where
  "runOverrideScript run script r =
     (if hr_body r \<noteq> None \<and> hr_bodyErr r then r\<lparr>hr_body := Some [], hr_bodyErr := False\<rparr>
      else (let body = (case hr_body r of None \<Rightarrow> [] | Some b \<Rightarrow> take maxScriptBody b);
                g = \<lparr>lg_body = body, lg_method = hr_method r, lg_host = hr_host r, lg_path = hr_path r, lg_query = hr_query r,
                     lg_headers = script_table (hr_headers r)\<rparr>
            in case run script g of
                 None \<Rightarrow> r\<lparr>hr_body := Some body\<rparr>
               | Some out \<Rightarrow> applyScriptHeaders (map fst (hr_headers r)) (lr_headers out) (applyScriptBody body (lr_body out) r)))"

section \<open>Encoding and parsing\<close>

lemma hex_digit_cases: "n < 16 \<Longrightarrow> unhex (hex_digit n) = Some n \<and> is_alnum (hex_digit n)"
proof -
  assume "n < 16"
  then have "n \<in> set [0..<16]" by simp
  then show ?thesis by (simp add: upt_rec) (elim disjE; simp add: hex_digit_def unhex_def is_alnum_def)
qed

lemma unreserved_plain: "unreserved c \<Longrightarrow> c \<notin> {CHR ''%'', CHR ''+'', CHR ''&'', CHR ''='', CHR '';''}"
  by (auto simp: unreserved_def is_alnum_def)

lemma of_char_less: "(of_char c :: nat) < 256"
  by (metis of_char_mod_256 mod_less_divisor zero_less_numeral)

lemma hex_digits_of:
  "unhex (hex_digit (of_char c div 16)) = Some (of_char c div 16)" "is_alnum (hex_digit (of_char c div 16))"
  "unhex (hex_digit (of_char c mod 16)) = Some (of_char c mod 16)" "is_alnum (hex_digit (of_char c mod 16))"
proof -
  have "(of_char c :: nat) div 16 < 16" using of_char_less [of c] by (intro less_mult_imp_div_less) simp
  then show "unhex (hex_digit (of_char c div 16)) = Some (of_char c div 16)" "is_alnum (hex_digit (of_char c div 16))"
    by (simp_all add: hex_digit_cases)
qed (simp_all add: hex_digit_cases)

lemma unescape_char: "QueryUnescape (escape_char c @ t) = map_option (Cons c) (QueryUnescape t)"
proof -
  have "char_of (16 * (of_char c div 16) + of_char c mod 16 :: nat) = c" by simp
  then show ?thesis
    using unreserved_plain [of c] by (auto simp: escape_char_def hex_digits_of)
qed

lemma unescape_escape [simp]: "QueryUnescape (QueryEscape s) = Some s"
  by (induction s) (simp_all add: QueryEscape_def unescape_char)

lemma escape_char_plain: "x \<in> set (escape_char c) \<Longrightarrow> x \<notin> {CHR ''&'', CHR ''='', CHR '';''}"
  using unreserved_plain [of c] unreserved_plain [of x] hex_digits_of [of c]
  by (auto simp: escape_char_def unreserved_def split: if_splits)

lemma escape_plain: "x \<in> set (QueryEscape s) \<Longrightarrow> x \<notin> {CHR ''&'', CHR ''='', CHR '';''}"
  unfolding QueryEscape_def using escape_char_plain by auto

lemma cut_pair: "cut_eq (enc_pair p) = (QueryEscape (fst p), QueryEscape (snd p))"
proof -
  have "CHR ''='' \<notin> set (QueryEscape (fst p))" using escape_plain [of "CHR ''=''"] by blast
  then have "takeWhile (\<lambda>c. c \<noteq> CHR ''='') (QueryEscape (fst p) @ CHR ''='' # QueryEscape (snd p)) = QueryEscape (fst p)"
    "dropWhile (\<lambda>c. c \<noteq> CHR ''='') (QueryEscape (fst p) @ CHR ''='' # QueryEscape (snd p)) = CHR ''='' # QueryEscape (snd p)"
    by (simp_all add: takeWhile_upto) (induction "QueryEscape (fst p)"; auto simp: dropWhile_append)
  then show ?thesis by (simp add: cut_eq_def enc_pair_def)
qed

lemma parse_pair: "parse_part (enc_pair p) q = add_value (fst p) (snd p) q"
proof -
  have "CHR '';'' \<notin> set (enc_pair p)" using escape_plain [of "CHR '';''"] by (auto simp: enc_pair_def)
  then show ?thesis by (simp add: parse_part_def cut_pair enc_pair_def [of p, symmetric]) (simp add: enc_pair_def)
qed

lemma parse_joined: "ParseQuery (Join (CHR ''&'') (map enc_pair ps)) = fold (\<lambda>(k, v). add_value k v) ps []"
proof (cases ps)
  case (Cons p ps')
  have "\<forall>s \<in> set (map enc_pair ps). CHR ''&'' \<notin> set s" using escape_plain [of "CHR ''&''"] by (auto simp: enc_pair_def)
  then have "Split (CHR ''&'') (Join (CHR ''&'') (map enc_pair ps)) = map enc_pair ps" by (intro Split_Join) (simp_all add: Cons)
  then show ?thesis by (simp add: ParseQuery_def fold_map comp_def case_prod_unfold parse_pair [abs_def])
qed (simp add: ParseQuery_def parse_part_def)

lemma values_add: "values_of (add_value k v q) x = values_of q x @ (if x = k then [v] else [])"
  by (simp add: add_value_def values_of_def update_conv')

lemma values_added: "values_of (fold (\<lambda>(k, v). add_value k v) ps q) x = values_of q x @ map snd (filter (\<lambda>p. fst p = x) ps)"
  by (induction ps arbitrary: q) (auto simp: values_add)

lemma insert_key_perm: "mset (insert_key p q) = add_mset p (mset q)"
  by (induction q) auto

lemma sort_keys_perm: "mset (sort_keys q) = mset q"
  unfolding sort_keys_def by (induction q) (simp_all add: insert_key_perm)

lemma pairs_of_key: "distinct (map fst q) \<Longrightarrow> map snd (filter (\<lambda>p. fst p = x) (value_pairs q)) = values_of q x"
proof (induction q)
  case (Cons a q)
  obtain k vs where a: "a = (k, vs)" by (cases a)
  have "map_of q k = None" using Cons.prems by (simp add: a map_of_eq_None_iff)
  then have "values_of q k = []" by (simp add: values_of_def)
  moreover have "filter (\<lambda>p. fst p = k) (map (Pair k) vs) = map (Pair k) vs" by (simp add: filter_map comp_def)
  moreover have "k \<noteq> x \<Longrightarrow> filter (\<lambda>p. fst p = x) (map (Pair k) vs) = []" by (simp add: filter_map comp_def)
  ultimately show ?case using Cons by (auto simp: a value_pairs_def values_of_def comp_def)
qed (simp add: value_pairs_def values_of_def)

text \<open>Encoding a set of values and parsing it again gives the same values for every key.\<close>

lemma values_of_perm: "mset q' = mset q \<Longrightarrow> distinct (map fst q) \<Longrightarrow> values_of q' x = values_of q x"
proof -
  assume m: "mset q' = mset q" and d: "distinct (map fst q)"
  have "distinct (map fst q')" using d m by (metis mset_map mset_eq_imp_distinct_iff)
  then have "map_of q' = map_of q" using m d by (metis mset_eq_setD map_of_inject_set)
  then show ?thesis by (simp add: values_of_def)
qed

lemma ParseQuery_Encode: "distinct (map fst q) \<Longrightarrow> values_of (ParseQuery (Encode q)) x = values_of q x"
proof -
  assume d: "distinct (map fst q)"
  have "distinct (map fst (sort_keys q))" using d sort_keys_perm [of q] by (metis mset_map mset_eq_imp_distinct_iff)
  then have "values_of (ParseQuery (Encode q)) x = values_of (sort_keys q) x"
    by (simp add: Encode_def parse_joined values_added pairs_of_key) (simp add: values_of_def)
  then show ?thesis using values_of_perm [OF sort_keys_perm d] by simp
qed

section \<open>What the upstream is sent\<close>

lemma ParseQuery_distinct: "distinct (map fst (ParseQuery s))"
proof -
  have "distinct (map fst (fold parse_part ps q))" if "distinct (map fst q)" for ps q
    using that
  proof (induction ps arbitrary: q)
    case (Cons p ps)
    have "distinct (map fst (parse_part p q))"
      using Cons.prems by (auto simp: parse_part_def add_value_def distinct_update split: prod.splits option.splits)
    then show ?case using Cons.IH by simp
  qed simp
  then show ?thesis by (simp add: ParseQuery_def)
qed

lemma fold_update_distinct: "distinct (map fst q) \<Longrightarrow> distinct (map fst (fold (\<lambda>(k, v) q. AList.update k [v] q) over q))"
  by (induction over arbitrary: q) (auto simp: distinct_update)

lemma fold_update_values:
  "distinct (map fst over) \<Longrightarrow>
   values_of (fold (\<lambda>(k, v) q. AList.update k [v] q) over q) x = (case map_of over x of None \<Rightarrow> values_of q x | Some v \<Rightarrow> [v])"
proof (induction over arbitrary: q)
  case (Cons a over)
  obtain k v where a: "a = (k, v)" by (cases a)
  have "map_of over k = None" using Cons.prems by (simp add: a map_of_eq_None_iff)
  then show ?case using Cons by (auto simp: a values_of_def update_conv' split: option.splits)
qed simp

lemma fold_headers:
  "fold (\<lambda>(k, v) h. header_set k v h) hs h = fold (\<lambda>(k, v) h. AList.update k [v] h) (map (\<lambda>(k, v). (CanonicalHeaderKey k, v)) hs) h"
  by (induction hs arbitrary: h) (auto simp: header_set_def)

lemma override_query_values:
  assumes "distinct (map fst over)"
  shows "values_of (ParseQuery (override_query over raw)) x = (case map_of over x of None \<Rightarrow> values_of (ParseQuery raw) x | Some v \<Rightarrow> [v])"
  using assms fold_update_distinct [OF ParseQuery_distinct] fold_update_values [OF assms]
  by (simp add: override_query_def ParseQuery_Encode)

lemma body_override_keeps:
  assumes "applyBodyOverride js body strategy r = Some r'"
  shows "hr_query r' = hr_query r \<and> hr_path r' = hr_path r \<and> hr_method r' = hr_method r \<and> hr_host r' = hr_host r \<and> hr_urlHost r' = hr_urlHost r \<and>
    (k \<noteq> ''Content-Length'' \<longrightarrow> k \<noteq> ''Content-Encoding'' \<longrightarrow> values_of (hr_headers r') k = values_of (hr_headers r) k)"
proof -
  have "CanonicalHeaderKey ''Content-Length'' = ''Content-Length''" "CanonicalHeaderKey ''Content-Encoding'' = ''Content-Encoding''"
    by code_simp+
  then show ?thesis
    using assms
    by (auto simp: applyBodyOverride_def put_body_def header_set_def header_del_def values_of_def update_conv' delete_conv' Let_def
        split: body_override.splits json_doc.splits if_splits)
qed

lemma prefix_keeps [simp]:
  "hr_query (override_prefix pre r) = hr_query r" "hr_headers (override_prefix pre r) = hr_headers r"
  "hr_method (override_prefix pre r) = hr_method r" "hr_host (override_prefix pre r) = hr_host r" "hr_urlHost (override_prefix pre r) = hr_urlHost r"
  by (simp_all add: override_prefix_def Let_def)

text \<open>
  C7: after an override the upstream parses from the query string exactly the values of the override
  for the keys it names and the agent's values for all others, the headers the override names have
  its value and the others are the agent's, and the path has the prefix in front; method and host
  stay.  Only a body override touches the length and encoding headers.
\<close>

theorem override_exact:
  assumes "applyOverride js (Some ov) r = Some r'" "distinct (map fst (ov_Query ov))"
    "distinct (map (CanonicalHeaderKey \<circ> fst) (ov_Headers ov))"
  shows "values_of (ParseQuery (hr_query r')) k =
      (case map_of (ov_Query ov) k of None \<Rightarrow> values_of (ParseQuery (hr_query r)) k | Some v \<Rightarrow> [v]) \<and>
    hr_path r' = TrimSuffix (ov_PrefixPath ov) ''/'' @ hr_path r \<and> hr_method r' = hr_method r \<and> hr_host r' = hr_host r \<and>
    (h \<noteq> ''Content-Length'' \<longrightarrow> h \<noteq> ''Content-Encoding'' \<longrightarrow>
      values_of (hr_headers r') h =
        (case map_of (map (\<lambda>(k, v). (CanonicalHeaderKey k, v)) (ov_Headers ov)) h of None \<Rightarrow> values_of (hr_headers r) h | Some v \<Rightarrow> [v]))"
proof -
  let ?r1 = "r\<lparr>hr_query := override_query (ov_Query ov) (hr_query r), hr_headers := fold (\<lambda>(k, v) h. header_set k v h) (ov_Headers ov) (hr_headers r)\<rparr>"
  have b: "applyBodyOverride js (ov_Body ov) (ov_BodyStrategy ov) (override_prefix (ov_PrefixPath ov) ?r1) = Some r'"
    using assms(1) by (simp add: applyOverride_def)
  have "distinct (map fst (map (\<lambda>(k, v). (CanonicalHeaderKey k, v)) (ov_Headers ov)))"
    using assms(3) by (simp add: comp_def case_prod_unfold)
  note hs = fold_update_values [OF this]
  have "hr_path (override_prefix (ov_PrefixPath ov) ?r1) = TrimSuffix (ov_PrefixPath ov) ''/'' @ hr_path r"
    by (simp add: override_prefix_def Let_def TrimSuffix_def)
  then show ?thesis
    using body_override_keeps [OF b, of h] override_query_values [OF assms(2)] hs by (simp add: fold_headers)
qed

text \<open>
  A merged body has the members of the override and the agent's other members; a replaced body
  and one that was not an object are the override alone.
\<close>

lemma merge_object_lookup:
  assumes "distinct (map fst over)"
  shows "map_of (merge_object over base) k = (case map_of over k of None \<Rightarrow> map_of base k | Some v \<Rightarrow> Some v)"
  using assms
proof (induction over arbitrary: base)
  case (Cons a over)
  obtain x v where a: "a = (x, v)" by (cases a)
  have "map_of over x = None" using Cons.prems by (simp add: a map_of_eq_None_iff)
  then show ?case using Cons by (auto simp: a merge_object_def update_conv' split: option.splits)
qed (simp add: merge_object_def)

theorem body_merge:
  assumes "distinct (map fst over)" "hr_body r = Some b" "\<not> hr_bodyErr r" "js_decode js b = JObject m"
  shows "\<exists>n. applyBodyOverride js (BodyObject over) strategy r = Some (put_body (js_encode js n) r) \<and>
    (\<forall>k. map_of n k = (case map_of over k of None \<Rightarrow> if strategy = ''replace'' then None else map_of m k | Some v \<Rightarrow> Some v))"
proof (cases "strategy = ''replace''")
  case True
  then show ?thesis
    using assms merge_object_lookup [OF assms(1), of "[]"] by (intro exI [of _ "merge_object over []"]) (simp add: applyBodyOverride_def split: option.splits)
next
  case False
  then show ?thesis
    using assms merge_object_lookup [OF assms(1), of m] by (intro exI [of _ "merge_object over m"]) (simp add: applyBodyOverride_def)
qed

text \<open>An agent whose body is \<^verbatim>\<open>null\<close> makes the merge of a body override panic.\<close>

theorem null_body_panics:
  assumes "hr_body r = Some b" "\<not> hr_bodyErr r" "js_decode js b = JNull" "over \<noteq> []" "strategy \<noteq> ''replace''"
  shows "applyBodyOverride js (BodyObject over) strategy r = None"
  using assms by (simp add: applyBodyOverride_def)

text \<open>
  A script that changes nothing still drops all but the first value of a repeated header, and a
  script that fails on a body above the limit leaves the body cut off under its old length.
\<close>

definition plain_req :: http_req where
  "plain_req = \<lparr>hr_method = ''POST'', hr_host = ''a.io'', hr_scheme = [], hr_urlHost = [], hr_path = ''/p'', hr_rawPath = [], hr_query = ''x=1&y=2'',
     hr_headers = [(''Accept'', [''a'', ''b''])], hr_body = Some ''t'', hr_bodyErr = False, hr_length = 1, hr_close = False\<rparr>"

definition no_script :: lua where
  "no_script s g = Some \<lparr>lr_body = Some (lg_body g), lr_headers = Some (map (\<lambda>(k, v). (k, Some v)) (lg_headers g))\<rparr>"

theorem idle_script_drops_values: "values_of (hr_headers (runOverrideScript no_script [] (plain_req\<lparr>hr_body := None\<rparr>))) ''Accept'' = [''a'']"
  by code_simp

theorem failed_script_truncates:
  assumes "run script = (\<lambda>_. None)" "hr_body r = Some b" "\<not> hr_bodyErr r"
  shows "hr_body (runOverrideScript run script r) = Some (take maxScriptBody b) \<and> hr_length (runOverrideScript run script r) = hr_length r"
  using assms by (simp add: runOverrideScript_def Let_def)

definition key_override :: EgressOverride where
  "key_override = \<lparr>ov_Host = [], ov_PrefixPath = ''/v1/'', ov_Query = [(''y'', ''a b'')], ov_Headers = [(''authorization'', ''s'')],
     ov_Body = NoBody, ov_BodyStrategy = []\<rparr>"

definition no_json :: json_lib where
  "no_json = \<lparr>js_decode = (\<lambda>_. JNotObject), js_encode = (\<lambda>_. [])\<rparr>"

theorem override_exact_witness:
  "\<exists>r'. applyOverride no_json (Some key_override) plain_req = Some r' \<and>
     values_of (ParseQuery (hr_query r')) ''y'' = [''a b''] \<and> hr_path r' = ''/v1/p'' \<and> hr_method r' = ''POST''"
proof -
  obtain r' where r: "applyOverride no_json (Some key_override) plain_req = Some r'"
    by (simp add: applyOverride_def applyBodyOverride_def key_override_def Let_def)
  have "distinct (map fst (ov_Query key_override))" "distinct (map (CanonicalHeaderKey \<circ> fst) (ov_Headers key_override))"
    "map_of (ov_Query key_override) ''y'' = Some ''a b''" "TrimSuffix (ov_PrefixPath key_override) ''/'' @ hr_path plain_req = ''/v1/p''"
    "hr_method plain_req = ''POST''" by code_simp+
  then show ?thesis using override_exact [OF r, of "''y''"] r by auto
qed

end
