(* ===== verification/Tls_Hello.thy ===== *)
theory Tls_Hello
  imports Bytes
begin

text \<open>
  The first bytes of a transparent connection: telling HTTP from TLS (\<^verbatim>\<open>sniff_protocol_linux.go\<close>),
  peeking the first TLS record and finding the server name in it (\<^verbatim>\<open>clienthello_linux.go\<close>).  An
  index out of range would panic; it is the outer \<open>None\<close>.
\<close>

datatype protocol = protoUnknown | protoHTTP | protoTLS

definition str_bytes :: "string \<Rightarrow> byte list" where
  "str_bytes s = map (\<lambda>c. word_of_nat (of_char c)) s"

definition sniffProtocol :: "byte list \<Rightarrow> protocol" where
  "sniffProtocol peek =
     (if length peek \<ge> 6 \<and> peek ! 0 = 0x16 \<and> peek ! 1 = 0x03 \<and> peek ! 5 = 0x01 then protoTLS
      else if list_ex (\<lambda>m. prefix (str_bytes m) peek) [''GET '', ''POST'', ''HEAD'', ''PUT '', ''DELE'', ''OPTI'', ''PATC'', ''TRAC''] then protoHTTP
      else protoUnknown)"

definition u8 :: "byte list \<Rightarrow> nat \<Rightarrow> nat option" where
  "u8 b p = (if p < length b then Some (unat (b ! p)) else None)"

definition u16 :: "byte list \<Rightarrow> nat \<Rightarrow> nat option" where
  "u16 b p = (if p + 2 \<le> length b then Some (unat (Uint16 (take 2 (drop p b)))) else None)"

text \<open>
  \<^verbatim>\<open>bufio.Reader.Peek\<close> on a reader with a buffer of \<open>bufSize\<close> bytes over a stream that holds
  \<open>avail\<close>: what is there, up to the buffer, and whether that is all that was asked for.
\<close>

definition Peek :: "nat \<Rightarrow> byte list \<Rightarrow> nat \<Rightarrow> byte list \<times> bool" where
  "Peek bufSize avail n = (take (min n bufSize) avail, n \<le> min bufSize (length avail))"

definition maxRecord :: nat where
  "maxRecord = 16384 + 5"

definition peekTLSRecord :: "nat \<Rightarrow> byte list \<Rightarrow> byte list option" where
  "peekTLSRecord bufSize avail =
     (let (hdr, ok) = Peek bufSize avail 5 in
      if \<not> ok \<or> length hdr < 5 then None
      else (case u16 hdr 3 of
              None \<Rightarrow> None
            | Some bodyLen \<Rightarrow>
                if 5 + bodyLen > maxRecord then None
                else (let (full, ok) = Peek bufSize avail (5 + bodyLen) in
                      if \<not> ok \<and> length full < 5 + bodyLen then None else Some full)))"

text \<open>The loop over the extensions, from \<open>p\<close> up to \<open>stop\<close>.\<close>

function sni_loop :: "byte list \<Rightarrow> nat \<Rightarrow> nat \<Rightarrow> byte list option" where
  "sni_loop b p stop =
     (if \<not> p + 4 \<le> stop then Some []
      else (case (u16 b p, u16 b (p + 2)) of
              (Some extType, Some extDataLen) \<Rightarrow>
                if extType = 0 then
                  (if extDataLen < 5 \<or> p + 4 + 5 > length b then Some []
                   else (case u16 b (p + 4 + 3) of
                           None \<Rightarrow> None
                         | Some nameLen \<Rightarrow> if p + 4 + 5 + nameLen > length b then Some []
                                          else Some (take nameLen (drop (p + 4 + 5) b))))
                else sni_loop b (p + 4 + extDataLen) stop
            | _ \<Rightarrow> None))"
  by pat_completeness auto

termination
  by (relation "measure (\<lambda>(b, p, stop). stop - p)") auto

declare sni_loop.simps [simp del]

text \<open>The guards of \<^verbatim>\<open>parseSNI\<close>, each followed by the read it protects.\<close>

definition skip8 :: "byte list \<Rightarrow> nat \<Rightarrow> (nat \<Rightarrow> byte list option) \<Rightarrow> byte list option" where
  "skip8 b p k = (if length b < p + 1 then Some [] else (case u8 b p of None \<Rightarrow> None | Some n \<Rightarrow> k (p + 1 + n)))"

definition skip16 :: "byte list \<Rightarrow> nat \<Rightarrow> (nat \<Rightarrow> byte list option) \<Rightarrow> byte list option" where
  "skip16 b p k = (if length b < p + 2 then Some [] else (case u16 b p of None \<Rightarrow> None | Some n \<Rightarrow> k (p + 2 + n)))"

definition parseSNI :: "byte list \<Rightarrow> byte list option" where
  "parseSNI b =
     (if length b < 9 \<or> b ! 0 \<noteq> 0x16 \<or> b ! 5 \<noteq> 0x01 then Some []
      else skip8 b 43 (\<lambda>p. skip16 b p (\<lambda>p. skip8 b p (\<lambda>p.
             if length b < p + 2 then Some []
             else (case u16 b p of
                     None \<Rightarrow> None
                   | Some extLen \<Rightarrow> sni_loop b (p + 2) (min (p + 2 + extLen) (length b)))))))"

section \<open>No index is out of range\<close>

lemma sublist_stretch [simp]: "sublist (take n (drop i b)) b"
  by (metis sublist_take sublist_drop sublist_order.order_trans)

lemma sni_loop_total: "stop \<le> length b \<Longrightarrow> \<exists>s. sni_loop b p stop = Some s \<and> sublist s b"
proof (induction b p stop rule: sni_loop.induct)
  case (1 b p stop)
  show ?case
  proof (cases "p + 4 \<le> stop")
    case True
    then obtain t n where tn: "u16 b p = Some t" "u16 b (p + 2) = Some n" using 1(2) by (auto simp: u16_def)
    have name: "u16 b (p + 4 + 3) \<noteq> None" if "\<not> p + 4 + 5 > length b" using that by (simp add: u16_def)
    show ?thesis
    proof (cases "t = 0")
      case True
      then show ?thesis using \<open>p + 4 \<le> stop\<close> tn name by (subst sni_loop.simps) (auto simp: add.assoc)
    next
      case False
      then show ?thesis using \<open>p + 4 \<le> stop\<close> tn 1(1) [OF _ refl tn] 1(2) by (subst sni_loop.simps) auto
    qed
  qed (subst sni_loop.simps, simp)
qed

lemma skip_total:
  "(\<And>n. \<exists>s. k n = Some s \<and> P s) \<Longrightarrow> P [] \<Longrightarrow> \<exists>s. skip8 b p k = Some s \<and> P s"
  "(\<And>n. \<exists>s. k n = Some s \<and> P s) \<Longrightarrow> P [] \<Longrightarrow> \<exists>s. skip16 b p k = Some s \<and> P s"
  by (auto simp: skip8_def skip16_def u8_def u16_def)

text \<open>
  Whatever bytes a client sends, looking for the server name reads no byte out of range, and the
  name that is found is a stretch of those bytes.
\<close>

theorem parseSNI_safe: "\<exists>s. parseSNI b = Some s \<and> sublist s b"
proof -
  let ?P = "\<lambda>s. sublist s b"
  have "\<exists>s. (if length b < p + 2 then Some [] else (case u16 b p of None \<Rightarrow> None
      | Some extLen \<Rightarrow> sni_loop b (p + 2) (min (p + 2 + extLen) (length b)))) = Some s \<and> ?P s" for p
    using sni_loop_total [of "min (p + 2 + m) (length b)" b "p + 2" for m] by (auto simp: u16_def)
  then show ?thesis unfolding parseSNI_def by (auto intro!: skip_total)
qed

section \<open>A name that was sent is found\<close>

definition enc16 :: "nat \<Rightarrow> byte list" where
  "enc16 n = PutUint16 (of_nat n)"

definition enc_ext :: "nat \<times> byte list \<Rightarrow> byte list" where
  "enc_ext e = enc16 (fst e) @ enc16 (length (snd e)) @ snd e"

definition sni_ext :: "byte list \<Rightarrow> byte list" where
  "sni_ext name = enc_ext (0, enc16 (length name + 3) @ [0] @ enc16 (length name) @ name)"

text \<open>A client hello as the protocol lays it out, in one record.\<close>

definition client_hello :: "byte list \<Rightarrow> byte list \<Rightarrow> byte list \<Rightarrow> byte list \<Rightarrow> byte list \<Rightarrow> (nat \<times> byte list) list \<Rightarrow> byte list \<Rightarrow> byte list \<Rightarrow> byte list" where
  "client_hello head hs random sid ciphers pre name post =
     [0x16] @ head @ [0x01] @ hs @ random @ [of_nat (length sid)] @ sid @ enc16 (length ciphers) @ ciphers @ [1, 0] @
     enc16 (length (concat (map enc_ext pre) @ sni_ext name @ post)) @ concat (map enc_ext pre) @ sni_ext name @ post"

lemma u16_enc: "n < 65536 \<Longrightarrow> u16 (xs @ enc16 n @ ys) (length xs) = Some n"
  by (simp add: u16_def enc16_def take_Cons' unat_of_nat_small)

lemma u8_at: "u8 (xs @ x # ys) (length xs) = Some (unat x)"
  by (simp add: u8_def)

lemma length_enc16 [simp]: "length (enc16 n) = 2"
  by (simp add: enc16_def)

lemma sni_found:
  assumes "\<forall>(t, d) \<in> set pre. 0 < t \<and> t < 65536 \<and> length d < 65536" "length name < 65527" "b = xs @ concat (map enc_ext pre) @ sni_ext name @ post"
    "length xs + length (concat (map enc_ext pre) @ sni_ext name) \<le> stop"
  shows "sni_loop b (length xs) stop = Some name"
  using assms
proof (induction pre arbitrary: xs)
  case Nil
  let ?d = "enc16 (length name + 3) @ [0] @ enc16 (length name) @ name"
  have b: "b = xs @ enc16 0 @ (enc16 (length ?d) @ ?d @ post)" "b = (xs @ enc16 0) @ enc16 (length ?d) @ (?d @ post)"
    "b = (xs @ enc16 0 @ enc16 (length ?d) @ enc16 (length name + 3) @ [0]) @ enc16 (length name) @ (name @ post)"
    using Nil.prems(3) by (simp_all add: sni_ext_def enc_ext_def)
  have "u16 b (length xs) = Some 0" by (subst b(1), rule u16_enc) simp
  moreover have "u16 b (length xs + 2) = Some (length ?d)"
    using u16_enc [of "length ?d" "xs @ enc16 0" "?d @ post"] Nil.prems(2) by (simp add: b(2))
  moreover have "u16 b (length xs + 4 + 3) = Some (length name)"
  proof -
    let ?y = "xs @ enc16 0 @ enc16 (length ?d) @ enc16 (length name + 3) @ [0]"
    have "length ?y = length xs + 4 + 3" by simp
    moreover have "u16 (?y @ enc16 (length name) @ (name @ post)) (length ?y) = Some (length name)" using Nil.prems(2) by (intro u16_enc) simp
    ultimately show ?thesis unfolding b(3) by metis
  qed
  moreover have "take (length name) (drop (length xs + 4 + 5) b) = name"
  proof -
    let ?y = "xs @ enc16 0 @ enc16 (length ?d) @ enc16 (length name + 3) @ [0] @ enc16 (length name)"
    have y: "length ?y = length xs + 4 + 5" "b = ?y @ (name @ post)" using b(3) by simp_all
    have "drop (length ?y) (?y @ (name @ post)) = name @ post" by (simp only: append_eq_conv_conj [THEN iffD1, THEN conjunct2] drop_append, simp)
    then have "drop (length xs + 4 + 5) b = name @ post" using y by metis
    then show ?thesis by simp
  qed
  moreover have "length b = length xs + 4 + 5 + length name + length post" by (simp add: b(3))
  moreover have "length xs + 4 \<le> stop" using Nil.prems(4) by (simp add: sni_ext_def enc_ext_def)
  ultimately show ?case by (subst sni_loop.simps) simp
next
  case (Cons e pre)
  obtain t d where e: "e = (t, d)" by (cases e)
  let ?rest = "concat (map enc_ext pre) @ sni_ext name @ post"
  have b: "b = xs @ enc16 t @ (enc16 (length d) @ d @ ?rest)" "b = (xs @ enc16 t) @ enc16 (length d) @ (d @ ?rest)"
    "b = (xs @ enc_ext e) @ ?rest"
    using Cons.prems(3) by (simp_all add: e enc_ext_def [of "(t, d)"])
  have t: "0 < t" "t < 65536" "length d < 65536" using Cons.prems(1) by (auto simp: e)
  have "u16 b (length xs) = Some t" by (subst b(1), rule u16_enc) (rule t)
  moreover have "u16 b (length xs + 2) = Some (length d)" using u16_enc [OF t(3), of "xs @ enc16 t"] by (simp add: b(2))
  moreover have "sni_loop b (length (xs @ enc_ext e)) stop = Some name"
    by (rule Cons.IH) (use Cons.prems b in auto)
  moreover have "length (xs @ enc_ext e) = length xs + 4 + length d" by (simp add: e enc_ext_def)
  moreover have "length xs + 4 \<le> stop" using Cons.prems(4) by (simp add: e enc_ext_def)
  ultimately show ?case using t(1) by (subst sni_loop.simps) (simp add: add.assoc)
qed

text \<open>
  For every client hello laid out by the protocol, with any session id, cipher suites and
  extensions around it, the server name found is the one the client sent.
\<close>

theorem sni_roundtrip:
  assumes "length head = 4" "length hs = 5" "length random = 32" "length sid < 256" "length ciphers < 65536"
    "\<forall>(t, d) \<in> set pre. 0 < t \<and> t < 65536 \<and> length d < 65536" "length (concat (map enc_ext pre) @ sni_ext name @ post) < 65536"
  shows "parseSNI (client_hello head hs random sid ciphers pre name post) = Some name"
proof -
  let ?b = "client_hello head hs random sid ciphers pre name post"
  let ?exts = "concat (map enc_ext pre) @ sni_ext name @ post"
  let ?p1 = "[0x16] @ head @ [0x01] @ hs @ random" let ?p2 = "?p1 @ [of_nat (length sid)] @ sid" let ?p3 = "?p2 @ enc16 (length ciphers) @ ciphers"
  let ?p4 = "?p3 @ [1, 0]" let ?p5 = "?p4 @ enc16 (length ?exts)"
  have b: "?b = ?p1 @ ([of_nat (length sid)] @ sid @ enc16 (length ciphers) @ ciphers @ [1, 0] @ enc16 (length ?exts) @ ?exts)"
    "?b = ?p2 @ enc16 (length ciphers) @ (ciphers @ [1, 0] @ enc16 (length ?exts) @ ?exts)"
    "?b = ?p3 @ ([1, 0] @ enc16 (length ?exts) @ ?exts)" "?b = ?p4 @ enc16 (length ?exts) @ ?exts" "?b = ?p5 @ ?exts"
    by (simp_all add: client_hello_def)
  obtain n2 n3 n4 where n: "n2 = 43 + 1 + length sid" "n3 = n2 + 2 + length ciphers" "n4 = n3 + 1 + 1" by simp
  have len: "length ?p1 = 43" "length ?p2 = n2" "length ?p3 = n3" "length ?p4 = n4" "length ?p5 = n4 + 2"
    using assms(1-3) by (simp_all add: n)
  have bl: "length ?b = n4 + 2 + length ?exts" using arg_cong [OF b(5), of length] len(5) by simp
  have "u8 ?b (length ?p1) = Some (unat (of_nat (length sid) :: byte))" unfolding b(1) append_Cons [of "of_nat (length sid)"] by (rule u8_at)
  then have "u8 ?b 43 = Some (length sid)" unfolding len using assms(4) unat_of_nat_small [of "length sid", where 'a = 8] by simp
  then have 1: "skip8 ?b 43 k = k n2" for k using n bl by (simp add: skip8_def)
  have "u16 ?b (length ?p2) = Some (length ciphers)" by (subst b(2), rule u16_enc) (rule assms(5))
  then have 2: "skip16 ?b n2 k = k n3" for k unfolding len using n bl by (simp add: skip16_def)
  have "u8 ?b (length ?p3) = Some (unat (1 :: byte))" unfolding b(3) append_Cons [of 1] by (rule u8_at)
  then have 3: "skip8 ?b n3 k = k n4" for k unfolding len using n bl by (simp add: skip8_def)
  have "u16 ?b (length ?p4) = Some (length ?exts)" by (subst b(4), rule u16_enc) (rule assms(7))
  then have 4: "u16 ?b n4 = Some (length ?exts)" unfolding len .
  have "sni_loop ?b (length ?p5) (length ?p5 + length ?exts) = Some name"
    by (rule sni_found [OF assms(6) _ b(5)]) (use assms(7) in \<open>simp_all add: sni_ext_def enc_ext_def\<close>)
  then have 5: "sni_loop ?b (n4 + 2) (min (n4 + 2 + length ?exts) (length ?b)) = Some name" unfolding len bl by simp
  have "?b ! 0 = 0x16" "?b ! 5 = 0x01" using assms(1) by (simp_all add: client_hello_def nth_append)
  moreover have "\<not> length ?b < 9" "\<not> length ?b < n4 + 2" using bl n by simp_all
  ultimately show ?thesis unfolding parseSNI_def 1 2 3 using 4 5 by simp
qed

theorem sni_roundtrip_witness:
  "parseSNI (client_hello [3, 1, 0, 0] [0, 0, 0, 3, 3] (replicate 32 7) [] [0x13, 1] [(10, [1])] (str_bytes ''a.io'') []) = Some (str_bytes ''a.io'')"
  by (rule sni_roundtrip) (simp_all add: enc_ext_def sni_ext_def str_bytes_def)

text \<open>
  A record larger than the buffer of the reader cannot be peeked, so its server name is not seen
  although the record is within the limit of the protocol.
\<close>

theorem large_hello_unseen:
  assumes "Peek 4096 avail 5 = (hdr, True)" "u16 hdr 3 = Some n" "4096 < 5 + n"
  shows "peekTLSRecord 4096 avail = None"
proof -
  have "\<not> length (fst (Peek 4096 avail (5 + n))) \<ge> 5 + n" "\<not> snd (Peek 4096 avail (5 + n))" using assms(3) by (simp_all add: Peek_def)
  then show ?thesis using assms(1,2) by (cases "Peek 4096 avail (5 + n)") (auto simp: peekTLSRecord_def)
qed

end
