(* ===== verification/Proxy_Serve.thy ===== *)
theory Proxy_Serve
  imports Override Pool Ws Tls_Hello Monads
begin

text \<open>
  Serving a connection in the proxy: the explicit proxy (\<^verbatim>\<open>handleHTTP\<close>, \<^verbatim>\<open>handleConnect\<close>,
  \<^verbatim>\<open>handleWebSocket\<close> in \<^verbatim>\<open>internal/proxy/proxy.go\<close>) and the transparent one
  (\<^verbatim>\<open>transparent_http_linux.go\<close>, \<^verbatim>\<open>transparent_tls_linux.go\<close>, \<^verbatim>\<open>inner_h2_linux.go\<close>,
  \<^verbatim>\<open>forward_http_linux.go\<close>, \<^verbatim>\<open>upstream_tls_linux.go\<close>), with their audit records.  The policy in
  force at each look, the network, the TLS library and the clients are answers of an arbitrary
  environment.  The log holds what the outside can see, and at each positive decision a \<open>Granted\<close>
  entry with the policy it was taken under.
\<close>

section \<open>State\<close>

record auditCtx =
  ac_id :: nat
  ac_src :: string
  ac_method :: string
  ac_host :: string
  ac_path :: string
  ac_query :: string
  ac_requestHeaders :: "(string \<times> string) list"
  ac_requestBody :: string
  ac_responseHeaders :: "(string \<times> string) list"
  ac_upstream :: string

datatype audit_phase = PhRequest | PhResponse | PhChunk
datatype audit_verdict = VAllow | VDeny | VError

record AuditEvent =
  au_phase :: audit_phase
  au_verdict :: audit_verdict
  au_ctx :: auditCtx
  au_headers :: "(string \<times> string) list"
  au_status :: int
  au_reason :: string
  au_body :: string
  au_upstream :: string

text \<open>
  What is written upstream: a request, the bytes of a request as the agent sent them, or the first
  bytes of a stream that is not HTTP.
\<close>

datatype sent = SentRequest http_req | SentRaw http_req string | SentPending string

datatype pxev = Audited AuditEvent | Granted egress_request policy_state EgressRule
  | Dialled string | Reused poolKey nat | RoundTrip string http_req | Sent nat sent
  | Tunnel | Reply int | Alert | Crash

record 'w px =
  px_seq :: nat
  px_pool :: upstreamPool
  px_log :: "pxev list"
  px_world :: 'w

record http_resp =
  rs_status :: int
  rs_headers :: url_values
  rs_gzipOk :: bool
  rs_chunks :: "string list"
  rs_residue :: nat
  rs_bodyErr :: bool
  rs_close :: bool
  rs_http11 :: bool
  rs_buffered :: nat

datatype hello = ChromeHello | MirroredHello | PassthroughHello

text \<open>What the environment answers; an error is \<open>Inl\<close> or \<open>Some\<close> with its text.\<close>

record 'w px_env =
  ev_policy :: "'w \<Rightarrow> policy_state \<times> 'w"
  ev_waits :: "'w \<Rightarrow> policy_state list \<times> 'w"
  ev_dial :: "string \<Rightarrow> 'w \<Rightarrow> (string + nat) \<times> 'w"
  ev_handshake :: "hello \<Rightarrow> string \<Rightarrow> nat \<Rightarrow> 'w \<Rightarrow> string option \<times> 'w"
  ev_write :: "nat \<Rightarrow> 'w \<Rightarrow> string option \<times> 'w"
  ev_read :: "nat \<Rightarrow> 'w \<Rightarrow> (string + http_resp) \<times> 'w"
  ev_roundTrip :: "http_req \<Rightarrow> 'w \<Rightarrow> (string + http_resp) \<times> 'w"
  ev_client :: "'w \<Rightarrow> string option \<times> 'w"
  ev_accept :: "'w \<Rightarrow> (string + bool) \<times> 'w"
  ev_request :: "'w \<Rightarrow> (string \<times> string + http_req \<times> string) \<times> 'w"
  ev_streams :: "'w \<Rightarrow> http_req list \<times> 'w"
  ev_now :: "'w \<Rightarrow> int \<times> 'w"
  ev_alive :: "'w \<Rightarrow> (nat \<Rightarrow> bool) \<times> 'w"

text \<open>The configuration of the proxy and the libraries it uses.\<close>

record px_cfg =
  pf_minter :: bool
  pf_passthroughAll :: bool
  pf_js :: json_lib
  pf_lua :: lua
  pf_decode :: "string \<Rightarrow> string \<Rightarrow> string"
  pf_mediaType :: "string \<Rightarrow> string"

type_synonym ('w, 'a) pxm = "('w px, 'a) state"

definition ask_env :: "('w \<Rightarrow> 'a \<times> 'w) \<Rightarrow> ('w, 'a) pxm" where
  "ask_env f = State (\<lambda>p. case f (px_world p) of (r, w) \<Rightarrow> (r, p\<lparr>px_world := w\<rparr>))"

definition log_ev :: "pxev \<Rightarrow> ('w, unit) pxm" where
  "log_ev e = modify (\<lambda>p. p\<lparr>px_log := px_log p @ [e]\<rparr>)"

section \<open>Audit\<close>

fun join_comma :: "string list \<Rightarrow> string" where
  "join_comma [] = []"
| "join_comma [v] = v"
| "join_comma (v # w # vs) = v @ '', '' @ join_comma (w # vs)"

definition headerMap :: "url_values \<Rightarrow> (string \<times> string) list" where
  "headerMap h = map (\<lambda>(k, vs). (k, join_comma vs)) h"

definition beginAudit :: "string \<Rightarrow> string \<Rightarrow> string \<Rightarrow> string \<Rightarrow> string \<Rightarrow> ('w, auditCtx) pxm" where
  "beginAudit srcIP method host path query = do {
     modify (\<lambda>p. p\<lparr>px_seq := Suc (px_seq p)\<rparr>);
     n \<leftarrow> gets px_seq;
     ret \<lparr>ac_id = n, ac_src = srcIP, ac_method = method, ac_host = host, ac_path = path, ac_query = query,
       ac_requestHeaders = [], ac_requestBody = [], ac_responseHeaders = [], ac_upstream = []\<rparr>
   }"

definition audit :: "audit_phase \<Rightarrow> audit_verdict \<Rightarrow> auditCtx \<Rightarrow> (string \<times> string) list \<Rightarrow> int \<Rightarrow> string \<Rightarrow> string \<Rightarrow> string \<Rightarrow> ('w, unit) pxm" where
  "audit ph v ac hs status reason body up = log_ev (Audited \<lparr>au_phase = ph, au_verdict = v, au_ctx = ac, au_headers = hs, au_status = status,
     au_reason = reason, au_body = body, au_upstream = up\<rparr>)"

definition ac_denyRequest :: "auditCtx \<Rightarrow> string \<Rightarrow> int \<Rightarrow> ('w, unit) pxm" where
  "ac_denyRequest ac reason status = audit PhRequest VDeny ac (ac_requestHeaders ac) status reason (ac_requestBody ac) []"

definition ac_denyResponse :: "auditCtx \<Rightarrow> string \<Rightarrow> int \<Rightarrow> ('w, unit) pxm" where
  "ac_denyResponse ac reason status = audit PhResponse VDeny ac [] status reason [] []"

definition ac_deny :: "auditCtx \<Rightarrow> string \<Rightarrow> int \<Rightarrow> ('w, unit) pxm" where
  "ac_deny ac reason status = do { ac_denyRequest ac reason status; ac_denyResponse ac reason status }"

definition ac_allow :: "auditCtx \<Rightarrow> ('w, unit) pxm" where
  "ac_allow ac = audit PhRequest VAllow ac (ac_requestHeaders ac) 0 [] (ac_requestBody ac) (ac_upstream ac)"

definition ac_response :: "auditCtx \<Rightarrow> int \<Rightarrow> ('w, unit) pxm" where
  "ac_response ac status = audit PhResponse VAllow ac (ac_responseHeaders ac) status [] [] []"

definition ac_streamChunk :: "auditCtx \<Rightarrow> string \<Rightarrow> ('w, unit) pxm" where
  "ac_streamChunk ac body = audit PhChunk VAllow ac [] 0 [] body []"

definition ac_responseError :: "auditCtx \<Rightarrow> string \<Rightarrow> int \<Rightarrow> ('w, unit) pxm" where
  "ac_responseError ac reason status = audit PhResponse VError ac [] status reason [] []"

section \<open>The decision\<close>

text \<open>
  \<^verbatim>\<open>awaitEgress\<close> between its looks at the policy: the policies it sees while it waits, until one
  admits the request or the deadline passes.
\<close>

definition request_of :: "auditCtx \<Rightarrow> int \<Rightarrow> egress_request" where
  "request_of ac port = \<lparr>q_src = ac_src ac, q_method = ac_method ac, q_host = ac_host ac, q_port = port, q_path = ac_path ac\<rparr>"

fun await_loop :: "auditCtx \<Rightarrow> int \<Rightarrow> string \<Rightarrow> int \<Rightarrow> policy_state list \<Rightarrow> ('w, EgressRule option) pxm" where
  "await_loop ac port reason status [] = do { ac_denyResponse ac reason status; ret None }"
| "await_loop ac port reason status (pol # pols) =
     (case allowed_now (request_of ac port) pol of
        Some r \<Rightarrow> do { log_ev (Granted (request_of ac port) pol r); ret (Some r) }
      | None \<Rightarrow> await_loop ac port reason status pols)"

definition awaitEgress :: "'w px_env \<Rightarrow> auditCtx \<Rightarrow> int \<Rightarrow> string \<Rightarrow> int \<Rightarrow> ('w, EgressRule option) pxm" where
  "awaitEgress env ac port reason status = do {
     pol \<leftarrow> ask_env (ev_policy env);
     (case allowed_now (request_of ac port) pol of
        Some r \<Rightarrow> do { log_ev (Granted (request_of ac port) pol r); ret (Some r) }
      | None \<Rightarrow> do {
          pol2 \<leftarrow> ask_env (ev_policy env);
          if denyWaitForSource pol2 (ac_src ac) \<le> 0 then do { ac_deny ac reason status; ret None }
          else do {
            ac_denyRequest ac reason status;
            pols \<leftarrow> ask_env (ev_waits env);
            await_loop ac port reason status pols
          }
        })
   }"

definition overridden :: "EgressRule \<Rightarrow> bool" where
  "overridden r = (case e_Override r of None \<Rightarrow> False | Some ov \<Rightarrow> ov_Host ov \<noteq> [])"

text \<open>The outcome of \<^verbatim>\<open>applyRequestRule\<close>; \<open>Crashed\<close> is the panic of the body override.\<close>

datatype ruling = Denied | Crashed | Ruled EgressRule http_req auditCtx

definition maxAuditBodyBytes :: nat where
  "maxAuditBodyBytes = 1024 * 1024"

definition captured :: "px_cfg \<Rightarrow> http_req \<Rightarrow> auditCtx \<Rightarrow> auditCtx" where
  "captured cfg req ac =
     (case hr_body req of
        None \<Rightarrow> ac
      | Some b \<Rightarrow> if hr_bodyErr req then ac
                 else ac\<lparr>ac_requestBody := pf_decode cfg (header_get ''Content-Encoding'' (hr_headers req)) (take maxAuditBodyBytes b)\<rparr>)"

definition noted :: "EgressRule \<Rightarrow> string \<Rightarrow> int \<Rightarrow> http_req \<Rightarrow> auditCtx \<Rightarrow> auditCtx" where
  "noted rule host port req ac =
     (if e_Access rule = ''allow''
      then ac\<lparr>ac_requestHeaders := headerMap (hr_headers req),
        ac_upstream := (if overridden rule then dialTarget (Some rule) (net_JoinHostPort host (Itoa port)) else ac_upstream ac)\<rparr>
      else ac)"

definition applyRequestRule :: "'w px_env \<Rightarrow> px_cfg \<Rightarrow> http_req \<Rightarrow> string \<Rightarrow> int \<Rightarrow> auditCtx \<Rightarrow> ('w, ruling) pxm" where
  "applyRequestRule env cfg req host port ac0 = do {
     let ac = (captured cfg req ac0)\<lparr>ac_requestHeaders := headerMap (hr_headers req)\<rparr>;
     found \<leftarrow> awaitEgress env ac port ''no matching rule'' 403;
     (case found of
        None \<Rightarrow> ret Denied
      | Some rule \<Rightarrow>
          (case if e_Access rule = ''allow'' then applyOverride (pf_js cfg) (e_Override rule) req else Some req of
             None \<Rightarrow> do { log_ev Crash; ret Crashed }
           | Some req1 \<Rightarrow> do {
               let ac1 = noted rule host port req1 ac;
               ac_allow ac1;
               ret (Ruled rule (if e_OverrideScript rule \<noteq> [] then runOverrideScript (pf_lua cfg) (e_OverrideScript rule) req1 else req1) ac1)
             }))
   }"

section \<open>Forwarding\<close>

definition IsUpgrade :: "http_req \<Rightarrow> bool" where
  "IsUpgrade r = (EqualFold (header_get ''Upgrade'' (hr_headers r)) ''websocket'' \<and>
     Contains (map to_lower (header_get ''Connection'' (hr_headers r))) ''upgrade'')"

definition isTextContentType :: "px_cfg \<Rightarrow> string \<Rightarrow> bool" where
  "isTextContentType cfg ct =
     (if ct = [] then True
      else (let mt = pf_mediaType cfg ct in
            HasPrefix mt ''text/'' \<or>
            mt \<in> set [''application/json'', ''application/xml'', ''application/javascript'', ''application/x-javascript'',
              ''application/x-www-form-urlencoded'', ''application/ld+json'', ''application/graphql'', ''application/graphql+json'',
              ''application/atom+xml'', ''application/rss+xml''] \<or>
            HasSuffix mt ''+json'' \<or> HasSuffix mt ''+xml''))"

text \<open>The headers \<^verbatim>\<open>unwrapBody\<close> leaves; the chunks of a response are those of the unwrapped body.\<close>

definition unwrapBody :: "http_resp \<Rightarrow> http_resp" where
  "unwrapBody resp =
     (let enc = map to_lower (TrimSpace (header_get ''Content-Encoding'' (rs_headers resp))) in
      if enc = ''gzip'' \<and> rs_gzipOk resp \<or> enc = ''zstd'' \<and> rs_gzipOk resp \<or> enc = ''br''
      then resp\<lparr>rs_headers := header_del ''Content-Length'' (header_del ''Content-Encoding'' (rs_headers resp))\<rparr>
      else resp)"

fun chunkForward :: "string list \<Rightarrow> auditCtx \<Rightarrow> bool \<Rightarrow> ('w, unit) pxm" where
  "chunkForward [] ac logBody = ret ()"
| "chunkForward (c # cs) ac logBody = do { (if logBody then ac_streamChunk ac c else ret ()); chunkForward cs ac logBody }"

definition maxReuseDrainBytes :: nat where
  "maxReuseDrainBytes = 65536"

definition reusable :: "http_resp \<Rightarrow> bool" where
  "reusable resp = (\<not> rs_bodyErr resp \<and> rs_residue resp < maxReuseDrainBytes \<and> \<not> rs_close resp \<and> rs_http11 resp \<and> rs_buffered resp = 0)"

definition writeUpstreamRequest :: "'w px_env \<Rightarrow> nat \<Rightarrow> http_req \<Rightarrow> string option \<Rightarrow> bool \<Rightarrow> bool \<Rightarrow> ('w, string option) pxm" where
  "writeUpstreamRequest env conn req raw ws keepAlive = do {
     (if ws then log_ev (Sent conn (case raw of Some b \<Rightarrow> SentRaw req b | None \<Rightarrow> SentRequest req))
      else (let h1 = (if keepAlive then header_del ''Connection'' (hr_headers req) else header_set ''Connection'' ''close'' (hr_headers req));
                h2 = (if map_of h1 ''User-Agent'' = None then AList.update ''User-Agent'' [[]] h1 else h1)
            in log_ev (Sent conn (SentRequest (req\<lparr>hr_headers := h2\<rparr>)))));
     ask_env (ev_write env conn)
   }"

definition forwardHTTP :: "'w px_env \<Rightarrow> px_cfg \<Rightarrow> nat \<Rightarrow> http_req \<Rightarrow> string option \<Rightarrow> auditCtx \<Rightarrow> bool \<Rightarrow> ('w, bool) pxm" where
  "forwardHTTP env cfg conn req raw ac allowReuse = do {
     let ws = IsUpgrade req;
     let keepAlive = (allowReuse \<and> \<not> ws \<and> \<not> hr_close req);
     let raw1 = (if ws then map_option StripExtensionsRaw raw else raw);
     let req1 = (if ws \<and> raw = None then req\<lparr>hr_headers := header_del ''Sec-WebSocket-Extensions'' (hr_headers req)\<rparr> else req);
     failed \<leftarrow> writeUpstreamRequest env conn req1 raw1 ws keepAlive;
     (case failed of
        Some err \<Rightarrow> do { ac_responseError ac (''write request: '' @ err) 502; ret False }
      | None \<Rightarrow> do {
          answer \<leftarrow> ask_env (ev_read env conn);
          (case answer of
             Inl err \<Rightarrow> do { ac_responseError ac (''read response: '' @ err) 502; ret False }
           | Inr resp \<Rightarrow>
               if rs_status resp = 101 then do {
                 gone \<leftarrow> ask_env (ev_client env);
                 (case gone of
                    Some err \<Rightarrow> do { ac_responseError ac (''write 101: '' @ err) 500; ret False }
                  | None \<Rightarrow> do {
                      ac_response (ac\<lparr>ac_responseHeaders := headerMap (rs_headers resp)\<rparr>) 101;
                      log_ev Tunnel;
                      ret False
                    })
               } else do {
                 let resp1 = unwrapBody resp;
                 let ac1 = ac\<lparr>ac_responseHeaders := headerMap (rs_headers resp1)\<rparr>;
                 gone \<leftarrow> ask_env (ev_client env);
                 (case gone of
                    Some err \<Rightarrow> do { ac_responseError ac1 (''write response: '' @ err) 502; ret False }
                  | None \<Rightarrow> do {
                      ac_response ac1 (rs_status resp);
                      chunkForward (rs_chunks resp) ac1 (isTextContentType cfg (header_get ''Content-Type'' (rs_headers resp1)));
                      ret (keepAlive \<and> reusable resp)
                    })
               })
        })
   }"

definition forwardH2Upstream :: "'w px_env \<Rightarrow> px_cfg \<Rightarrow> nat \<Rightarrow> http_req \<Rightarrow> auditCtx \<Rightarrow> ('w, bool) pxm" where
  "forwardH2Upstream env cfg conn req ac = do {
     let keepAlive = (\<not> hr_close req);
     failed \<leftarrow> writeUpstreamRequest env conn req None False keepAlive;
     (case failed of
        Some err \<Rightarrow> do { ac_responseError ac (''write request: '' @ err) 502; log_ev (Reply 502); ret False }
      | None \<Rightarrow> do {
          answer \<leftarrow> ask_env (ev_read env conn);
          (case answer of
             Inl err \<Rightarrow> do { ac_responseError ac (''read response: '' @ err) 502; log_ev (Reply 502); ret False }
           | Inr resp \<Rightarrow> do {
               let resp1 = unwrapBody resp;
               let ac1 = ac\<lparr>ac_responseHeaders := headerMap (rs_headers resp1)\<rparr>;
               log_ev (Reply (rs_status resp));
               ac_response ac1 (rs_status resp);
               chunkForward (rs_chunks resp) ac1 (isTextContentType cfg (header_get ''Content-Type'' (rs_headers resp1)));
               ret (keepAlive \<and> reusable resp)
             })
        })
   }"

section \<open>Reaching the upstream\<close>

definition dial :: "'w px_env \<Rightarrow> string \<Rightarrow> ('w, string + nat) pxm" where
  "dial env addr = do { log_ev (Dialled addr); ask_env (ev_dial env addr) }"

definition chrome_dial :: "'w px_env \<Rightarrow> string \<Rightarrow> string \<Rightarrow> ('w, string + nat) pxm" where
  "chrome_dial env dialAddr host = do {
     up \<leftarrow> dial env dialAddr;
     (case up of
        Inl err \<Rightarrow> ret (Inl err)
      | Inr conn \<Rightarrow> do {
          failed \<leftarrow> ask_env (ev_handshake env ChromeHello host conn);
          ret (case failed of Some err \<Rightarrow> Inl err | None \<Rightarrow> Inr conn)
        })
   }"

text \<open>A handshake with another fingerprint first, and with Chrome's on a new connection when it fails.\<close>

definition fallback_dial :: "'w px_env \<Rightarrow> hello \<Rightarrow> string \<Rightarrow> string \<Rightarrow> ('w, string + nat) pxm" where
  "fallback_dial env hello dialAddr host = do {
     up \<leftarrow> dial env dialAddr;
     (case up of
        Inl err \<Rightarrow> ret (Inl err)
      | Inr conn \<Rightarrow> do {
          failed \<leftarrow> ask_env (ev_handshake env hello host conn);
          (case failed of None \<Rightarrow> ret (Inr conn) | Some err \<Rightarrow> chrome_dial env dialAddr host)
        })
   }"

definition dialUpstreamTLS :: "'w px_env \<Rightarrow> string \<Rightarrow> string \<Rightarrow> bool \<Rightarrow> ('w, string + nat) pxm" where
  "dialUpstreamTLS env dialAddr host ws = (if ws then fallback_dial env MirroredHello dialAddr host else chrome_dial env dialAddr host)"

definition from_pool :: "'w px_env \<Rightarrow> string \<Rightarrow> string \<Rightarrow> string \<Rightarrow> ('w, nat option) pxm" where
  "from_pool env srcIP dialAddr host = do {
     now \<leftarrow> ask_env (ev_now env);
     alive \<leftarrow> ask_env (ev_alive env);
     key \<leftarrow> gets (\<lambda>p. keyFor (px_pool p) srcIP dialAddr host);
     conn \<leftarrow> State (\<lambda>p. case pool_get alive now key (px_pool p) of (c, pool) \<Rightarrow> (c, p\<lparr>px_pool := pool\<rparr>));
     (case conn of None \<Rightarrow> ret None | Some c \<Rightarrow> do { log_ev (Reused key c); ret (Some c) })
   }"

definition to_pool :: "'w px_env \<Rightarrow> string \<Rightarrow> string \<Rightarrow> string \<Rightarrow> nat \<Rightarrow> ('w, unit) pxm" where
  "to_pool env srcIP dialAddr host conn = do {
     now \<leftarrow> ask_env (ev_now env);
     modify (\<lambda>p. p\<lparr>px_pool := pool_put now 0 (keyFor (px_pool p) srcIP dialAddr host) conn (px_pool p)\<rparr>)
   }"

section \<open>The explicit proxy\<close>

definition handleWebSocket :: "'w px_env \<Rightarrow> string \<Rightarrow> http_req \<Rightarrow> auditCtx \<Rightarrow> ('w, unit) pxm" where
  "handleWebSocket env dialAddr r ac = do {
     up \<leftarrow> dial env dialAddr;
     (case up of
        Inl err \<Rightarrow> do { ac_responseError ac err 502; log_ev (Reply 502) }
      | Inr conn \<Rightarrow> do {
          log_ev (Sent conn (SentRequest (r\<lparr>hr_headers := header_del ''Sec-WebSocket-Extensions'' (hr_headers r)\<rparr>)));
          failed \<leftarrow> ask_env (ev_write env conn);
          (case failed of
             Some err \<Rightarrow> do { ac_responseError ac (''ws write request: '' @ err) 502; log_ev (Reply 502) }
           | None \<Rightarrow> do {
               answer \<leftarrow> ask_env (ev_read env conn);
               (case answer of
                  Inl err \<Rightarrow> do { ac_responseError ac (''ws read response: '' @ err) 502; log_ev (Reply 502) }
                | Inr resp \<Rightarrow>
                    if rs_status resp \<noteq> 101 then do {
                      ac_responseError ac ''ws: upstream rejected upgrade'' (rs_status resp);
                      log_ev (Reply (rs_status resp))
                    } else do {
                      gone \<leftarrow> ask_env (ev_client env);
                      (case gone of
                         Some err \<Rightarrow> ac_responseError ac err 500
                       | None \<Rightarrow> do {
                           ac_response (ac\<lparr>ac_responseHeaders := headerMap (rs_headers resp)\<rparr>) 101;
                           log_ev Tunnel
                         })
                    })
             })
        })
   }"

definition upstream_noted :: "EgressRule \<Rightarrow> string \<Rightarrow> auditCtx \<Rightarrow> auditCtx" where
  "upstream_noted rule dialAddr ac = (if overridden rule then ac\<lparr>ac_upstream := dialAddr\<rparr> else ac)"

text \<open>The request as it is rebuilt for the transport, and the exchange with the upstream.\<close>

definition rebuilt :: "EgressRule \<Rightarrow> string \<Rightarrow> http_req \<Rightarrow> http_req" where
  "rebuilt rule dialAddr r = r\<lparr>hr_scheme := (if hr_scheme r = [] then ''http'' else hr_scheme r),
     hr_urlHost := (if overridden rule then dialAddr else if hr_urlHost r = [] then hr_host r else hr_urlHost r)\<rparr>"

definition exchange :: "'w px_env \<Rightarrow> px_cfg \<Rightarrow> string \<Rightarrow> http_req \<Rightarrow> auditCtx \<Rightarrow> ('w, unit) pxm" where
  "exchange env cfg dialAddr r ac =
     (if IsUpgrade r then handleWebSocket env dialAddr r ac
      else do {
        log_ev (RoundTrip (hr_urlHost r) r);
        answer \<leftarrow> ask_env (ev_roundTrip env r);
        (case answer of
           Inl err \<Rightarrow> do { ac_responseError ac err 502; log_ev (Reply 502) }
         | Inr resp \<Rightarrow> do {
             let resp1 = unwrapBody resp;
             let ac1 = ac\<lparr>ac_responseHeaders := headerMap (rs_headers resp1)\<rparr>;
             log_ev (Reply (rs_status resp));
             ac_response ac1 (rs_status resp);
             chunkForward (rs_chunks resp) ac1 (isTextContentType cfg (header_get ''Content-Type'' (rs_headers resp1)))
           })
      })"

definition whole_body :: "px_cfg \<Rightarrow> http_req \<Rightarrow> auditCtx \<Rightarrow> auditCtx" where
  "whole_body cfg r ac = (case hr_body r of None \<Rightarrow> ac
     | Some b \<Rightarrow> if hr_bodyErr r then ac else ac\<lparr>ac_requestBody := pf_decode cfg (header_get ''Content-Encoding'' (hr_headers r)) b\<rparr>)"

definition rewrites_body :: "EgressRule \<Rightarrow> bool" where
  "rewrites_body rule = (e_OverrideScript rule \<noteq> [] \<or> (case e_Override rule of None \<Rightarrow> False | Some ov \<Rightarrow> ov_Body ov \<noteq> NoBody))"

text \<open>The part of \<^verbatim>\<open>handleHTTP\<close> that follows a positive decision.\<close>

definition serve_allowed :: "'w px_env \<Rightarrow> px_cfg \<Rightarrow> string \<Rightarrow> int \<Rightarrow> http_req \<Rightarrow> auditCtx \<Rightarrow> EgressRule \<Rightarrow> ('w, unit) pxm" where
  "serve_allowed env cfg host port r ac rule =
     (case if e_Access rule = ''allow'' then applyOverride (pf_js cfg) (e_Override rule) r else Some r of
        None \<Rightarrow> log_ev Crash
      | Some r1 \<Rightarrow> do {
          let r2 = (if e_Access rule = ''allow'' \<and> e_OverrideScript rule \<noteq> [] then runOverrideScript (pf_lua cfg) (e_OverrideScript rule) r1 else r1);
          let ac1 = (if e_Access rule = ''allow'' then (if rewrites_body rule then whole_body cfg r2 ac else ac)\<lparr>ac_requestHeaders := headerMap (hr_headers r2)\<rparr> else ac);
          let dialAddr = dialTarget (Some rule) (net_JoinHostPort host (Itoa port));
          let ac2 = upstream_noted rule dialAddr ac1;
          ac_allow ac2;
          exchange env cfg dialAddr (rebuilt rule dialAddr r2) ac2
        })"

definition handleHTTP :: "'w px_env \<Rightarrow> px_cfg \<Rightarrow> string \<Rightarrow> http_req \<Rightarrow> ('w, unit) pxm" where
  "handleHTTP env cfg remoteAddr r = do {
     let (host, port) = splitHostPort (hr_urlHost r) (hr_host r) (if hr_scheme r = ''https'' then 443 else 80);
     ac0 \<leftarrow> beginAudit (srcIPOf remoteAddr) (hr_method r) host (hr_path r) (hr_query r);
     let ac = (whole_body cfg r ac0)\<lparr>ac_requestHeaders := headerMap (hr_headers r)\<rparr>;
     found \<leftarrow> awaitEgress env ac port ''no matching rule'' 403;
     (case found of
        None \<Rightarrow> log_ev (Reply 403)
      | Some rule \<Rightarrow> serve_allowed env cfg host port r ac rule)
   }"

definition handleConnect :: "'w px_env \<Rightarrow> string \<Rightarrow> http_req \<Rightarrow> ('w, unit) pxm" where
  "handleConnect env remoteAddr r = do {
     let (host, port) = splitHostPort [] (hr_host r) 443;
     ac \<leftarrow> beginAudit (srcIPOf remoteAddr) ''CONNECT'' host [] [];
     found \<leftarrow> awaitEgress env ac port ''no matching rule'' 403;
     (case found of
        None \<Rightarrow> log_ev (Reply 403)
      | Some rule \<Rightarrow> do {
          let dialAddr = dialTarget (Some rule) (hr_host r);
          let ac1 = upstream_noted rule dialAddr ac;
          up \<leftarrow> dial env dialAddr;
          (case up of
             Inl err \<Rightarrow> do { ac_deny ac1 (''upstream dial: '' @ err) 502; log_ev (Reply 502) }
           | Inr conn \<Rightarrow> do {
               let ac2 = ac1\<lparr>ac_requestHeaders := headerMap (hr_headers r)\<rparr>;
               ac_allow ac2;
               gone \<leftarrow> ask_env (ev_client env);
               (case gone of
                  Some err \<Rightarrow> ac_responseError ac2 err 500
                | None \<Rightarrow> do { log_ev (Reply 200); log_ev Tunnel; ac_response ac2 200 })
             })
        })
   }"

definition ServeHTTP :: "'w px_env \<Rightarrow> px_cfg \<Rightarrow> string \<Rightarrow> http_req \<Rightarrow> ('w, unit) pxm" where
  "ServeHTTP env cfg remoteAddr r =
     (if hr_method r = ''CONNECT'' then handleConnect env remoteAddr r else handleHTTP env cfg remoteAddr r)"

section \<open>The transparent proxy\<close>

definition handleTransparentHTTP :: "'w px_env \<Rightarrow> px_cfg \<Rightarrow> string \<Rightarrow> string \<Rightarrow> ('w, unit) pxm" where
  "handleTransparentHTTP env cfg remoteAddr origDst = do {
     got \<leftarrow> ask_env (ev_request env);
     (case got of
        Inl _ \<Rightarrow> ret ()
      | Inr (req, _) \<Rightarrow> do {
          let host = (if hr_host req = [] then origDst else hr_host req);
          let hostOnly = fst (splitHostPort [] host 0);
          let port = snd (splitHostPort [] origDst 0);
          ac \<leftarrow> beginAudit (srcIPOf remoteAddr) (hr_method req) hostOnly (hr_path req) (hr_query req);
          ruling \<leftarrow> applyRequestRule env cfg req hostOnly port ac;
          (case ruling of
             Denied \<Rightarrow> log_ev (Reply 403)
           | Crashed \<Rightarrow> ret ()
           | Ruled rule req1 ac1 \<Rightarrow> do {
               up \<leftarrow> dial env (dialTarget (Some rule) (upstreamAddr host origDst));
               (case up of
                  Inl err \<Rightarrow> do { ac_responseError ac1 err 502; log_ev (Reply 502) }
                | Inr conn \<Rightarrow> do { _ \<leftarrow> forwardHTTP env cfg conn req1 None ac1 False; ret () })
             })
        })
   }"

definition handleInnerH2 :: "'w px_env \<Rightarrow> px_cfg \<Rightarrow> string \<Rightarrow> string \<Rightarrow> string \<Rightarrow> http_req \<Rightarrow> ('w, unit) pxm" where
  "handleInnerH2 env cfg sniHost origDst srcIP r = do {
     let host = (if hr_host r = [] then sniHost else hr_host r);
     ac \<leftarrow> beginAudit srcIP (hr_method r) host (hr_path r) (hr_query r);
     if hr_method r = ''CONNECT'' \<or> IsUpgrade r then do { ac_deny ac ''h2 connect/upgrade not supported'' 501; log_ev (Reply 501) }
     else do {
       ruling \<leftarrow> applyRequestRule env cfg r host (snd (splitHostPort [] origDst 0)) ac;
       (case ruling of
          Denied \<Rightarrow> log_ev (Reply 403)
        | Crashed \<Rightarrow> ret ()
        | Ruled rule r1 ac1 \<Rightarrow> do {
            let dialAddr = dialTarget (Some rule) (upstreamAddr host origDst);
            pooled \<leftarrow> from_pool env srcIP dialAddr sniHost;
            up \<leftarrow> (case pooled of Some c \<Rightarrow> ret (Inr c) | None \<Rightarrow> dialUpstreamTLS env dialAddr sniHost False);
            (case up of
               Inl err \<Rightarrow> do { ac_responseError ac1 (''upstream: '' @ err) 502; log_ev (Reply 502) }
             | Inr conn \<Rightarrow> do {
                 again \<leftarrow> forwardH2Upstream env cfg conn r1 ac1;
                 if again then to_pool env srcIP dialAddr sniHost conn else ret ()
               })
          })
     }
   }"

fun serveInnerH2 :: "'w px_env \<Rightarrow> px_cfg \<Rightarrow> string \<Rightarrow> string \<Rightarrow> string \<Rightarrow> http_req list \<Rightarrow> ('w, unit) pxm" where
  "serveInnerH2 env cfg sniHost origDst srcIP [] = ret ()"
| "serveInnerH2 env cfg sniHost origDst srcIP (r # rs) = do {
     handleInnerH2 env cfg sniHost origDst srcIP r; serveInnerH2 env cfg sniHost origDst srcIP rs }"

definition spliceTLS :: "'w px_env \<Rightarrow> string \<Rightarrow> string \<Rightarrow> EgressRule \<Rightarrow> string \<Rightarrow> string \<Rightarrow> ('w, unit) pxm" where
  "spliceTLS env host origDst rule pending srcIP = do {
     ac \<leftarrow> beginAudit srcIP ''TLS'' host [] [];
     up \<leftarrow> fallback_dial env PassthroughHello (dialTarget (Some rule) (upstreamAddr host origDst)) host;
     (case up of
        Inl err \<Rightarrow> ac_deny ac (''upstream tls: '' @ err) 502
      | Inr conn \<Rightarrow> do {
          ac_allow ac;
          ac_response ac 200;
          failed \<leftarrow> (if pending \<noteq> [] then do { log_ev (Sent conn (SentPending pending)); ask_env (ev_write env conn) } else ret None);
          (case failed of Some err \<Rightarrow> ret () | None \<Rightarrow> log_ev Tunnel)
        })
   }"

definition interceptTLS :: "'w px_env \<Rightarrow> px_cfg \<Rightarrow> string \<Rightarrow> string \<Rightarrow> string \<Rightarrow> EgressRule \<Rightarrow> ('w, unit) pxm" where
  "interceptTLS env cfg host origDst srcIP rule0 = do {
     accepted \<leftarrow> ask_env (ev_accept env);
     (case accepted of
        Inl err \<Rightarrow> do { ac \<leftarrow> beginAudit srcIP ''TLS'' host [] []; ac_deny ac (''inner handshake: '' @ err) 0 }
      | Inr h2 \<Rightarrow>
          if h2 then do { rs \<leftarrow> ask_env (ev_streams env); serveInnerH2 env cfg host origDst srcIP rs }
          else do {
            got \<leftarrow> ask_env (ev_request env);
            (case got of
               Inl (err, raw) \<Rightarrow>
                 if raw = [] then ret ()
                 else if e_Access rule0 = ''allow'' \<and> e_Paths rule0 = [] \<and> e_Methods rule0 = [] then spliceTLS env host origDst rule0 raw srcIP
                 else do { ac \<leftarrow> beginAudit srcIP ''TLS'' host [] []; ac_deny ac (''read request: '' @ err) 0 }
             | Inr (req, raw) \<Rightarrow> do {
                 ac \<leftarrow> beginAudit srcIP (hr_method req) host (hr_path req) (hr_query req);
                 ruling \<leftarrow> applyRequestRule env cfg req host (snd (splitHostPort [] origDst 0)) ac;
                 (case ruling of
                    Denied \<Rightarrow> log_ev (Reply 403)
                  | Crashed \<Rightarrow> ret ()
                  | Ruled rule req1 ac1 \<Rightarrow> do {
                      let ws = IsUpgrade req1;
                      let dialAddr = dialTarget (Some rule) (upstreamAddr host origDst);
                      pooled \<leftarrow> (if ws then ret None else from_pool env srcIP dialAddr host);
                      up \<leftarrow> (case pooled of Some c \<Rightarrow> ret (Inr c) | None \<Rightarrow> dialUpstreamTLS env dialAddr host ws);
                      (case up of
                         Inl err \<Rightarrow> ac_responseError ac1 (''upstream: '' @ err) 502
                       | Inr conn \<Rightarrow> do {
                           let verbatim = (if ws \<and> (case e_Override rule of None \<Rightarrow> True | Some ov \<Rightarrow> ov_PrefixPath ov = []) then Some raw else None);
                           again \<leftarrow> forwardHTTP env cfg conn req1 verbatim ac1 (\<not> ws);
                           if again then to_pool env srcIP dialAddr host conn else ret ()
                         })
                    })
               })
          })
   }"

definition rawForwardTLS :: "'w px_env \<Rightarrow> string \<Rightarrow> string \<Rightarrow> string \<Rightarrow> EgressRule \<Rightarrow> ('w, unit) pxm" where
  "rawForwardTLS env remoteAddr host origDst rule = do {
     up \<leftarrow> dial env (dialTarget (Some rule) (upstreamAddr host origDst));
     (case up of
        Inl err \<Rightarrow> do { ac \<leftarrow> beginAudit (srcIPOf remoteAddr) ''TLS'' host [] []; ac_deny ac (''upstream dial: '' @ err) 502 }
      | Inr conn \<Rightarrow> log_ev Tunnel)
   }"

text \<open>\<open>sni\<close> is the server name found in the client's first record.\<close>

definition handleTransparentTLS :: "'w px_env \<Rightarrow> px_cfg \<Rightarrow> string \<Rightarrow> string \<Rightarrow> string \<Rightarrow> ('w, unit) pxm" where
  "handleTransparentTLS env cfg remoteAddr origDst sni = do {
     let host = (if sni = [] then origDst else sni);
     let port = snd (splitHostPort [] origDst 0);
     let srcIP = srcIPOf remoteAddr;
     ac \<leftarrow> beginAudit srcIP ''TLS'' host [] [];
     found \<leftarrow> awaitEgress env ac port ''no matching rule'' 0;
     (case found of
        None \<Rightarrow> log_ev Alert
      | Some rule \<Rightarrow>
          if pf_minter cfg \<and> \<not> e_Passthrough rule \<and> \<not> pf_passthroughAll cfg then interceptTLS env cfg host origDst srcIP rule
          else rawForwardTLS env remoteAddr host origDst rule)
   }"

text \<open>
  \<open>avail\<close> are the bytes the client sends first.  A connection that was not redirected, or that was
  made to the proxy itself, is dropped.
\<close>

definition handleTransparent :: "'w px_env \<Rightarrow> px_cfg \<Rightarrow> string option \<Rightarrow> string \<Rightarrow> string \<Rightarrow> byte list \<Rightarrow> ('w, unit) pxm" where
  "handleTransparent env cfg original localAddr remoteAddr avail =
     (case original of
        None \<Rightarrow> ret ()
      | Some origDst \<Rightarrow>
          if localAddr = origDst then ret ()
          else (case sniffProtocol (fst (Peek 4096 avail 8)) of
                  protoHTTP \<Rightarrow> handleTransparentHTTP env cfg remoteAddr origDst
                | protoTLS \<Rightarrow>
                    (case parseSNI (case peekTLSRecord 4096 avail of None \<Rightarrow> [] | Some hello \<Rightarrow> hello) of
                       None \<Rightarrow> log_ev Crash
                     | Some sni \<Rightarrow> handleTransparentTLS env cfg remoteAddr origDst (bytes_string sni))
                | protoUnknown \<Rightarrow> do {
                    ac \<leftarrow> beginAudit (srcIPOf remoteAddr) ''?'' origDst [] [];
                    ac_deny ac ''unknown protocol'' 0
                  }))"

text \<open>A connection to either listener.\<close>

datatype connection = Explicit string http_req | Transparent "string option" string string "byte list"

fun serve :: "'w px_env \<Rightarrow> px_cfg \<Rightarrow> connection \<Rightarrow> ('w, unit) pxm" where
  "serve env cfg (Explicit remoteAddr req) = ServeHTTP env cfg remoteAddr req"
| "serve env cfg (Transparent original localAddr remoteAddr avail) = handleTransparent env cfg original localAddr remoteAddr avail"

fun source_of :: "connection \<Rightarrow> string" where
  "source_of (Explicit remoteAddr req) = srcIPOf remoteAddr"
| "source_of (Transparent original localAddr remoteAddr avail) = srcIPOf remoteAddr"

section \<open>Facts about every run\<close>

text \<open>
  An entry of the log may depend on the entries before it.  A condition \<open>J\<close> on an entry and its
  past that stays true when the past grows holds for a whole log once every handler writes only
  entries that satisfy it.  \<open>keeps G m\<close> says that \<open>m\<close> does so once the entries \<open>G\<close> have been written.
\<close>

locale log_condition =
  fixes J :: "pxev list \<Rightarrow> pxev \<Rightarrow> bool"
  assumes J_mono: "J l e \<Longrightarrow> set l \<subseteq> set l' \<Longrightarrow> J l' e"
begin

definition log_ok :: "pxev list \<Rightarrow> bool" where
  "log_ok l \<longleftrightarrow> (\<forall>i < length l. J (take i l) (l ! i))"

lemma log_ok_Nil: "log_ok []"
  by (simp add: log_ok_def)

lemma log_ok_snoc: "log_ok (l @ [e]) \<longleftrightarrow> log_ok l \<and> J l e"
  by (auto simp: log_ok_def nth_append less_Suc_eq)

lemma log_ok_split: "log_ok (l @ e # l') \<Longrightarrow> J l e"
  unfolding log_ok_def by (drule spec [of _ "length l"]) simp

definition keeps :: "pxev set \<Rightarrow> ('w, 'a) pxm \<Rightarrow> bool" where
  "keeps G m \<longleftrightarrow> (\<forall>p. log_ok (px_log p) \<longrightarrow> G \<subseteq> set (px_log p) \<longrightarrow>
     wp m (\<lambda>r q. log_ok (px_log q) \<and> set (px_log p) \<subseteq> set (px_log q)) p)"

lemma keepsD: "keeps G m \<Longrightarrow> log_ok (px_log p) \<Longrightarrow> G \<subseteq> set (px_log p) \<Longrightarrow>
    wp m (\<lambda>r q. log_ok (px_log q) \<and> set (px_log p) \<subseteq> set (px_log q)) p"
  by (simp add: keeps_def)

lemma keeps_weaken: "keeps G m \<Longrightarrow> G \<subseteq> H \<Longrightarrow> keeps H m"
  unfolding keeps_def by blast

lemma keeps_ret: "keeps G (ret x)"
  by (simp add: keeps_def wp_def)

lemma keeps_bind:
  fixes m :: "('w, 'a) pxm"
  assumes "keeps G m" "\<And>r. keeps G (f r)"
  shows "keeps G (State_Monad.bind m f)"
  unfolding keeps_def
proof (intro allI impI wp_bind)
  fix p :: "'w px" assume p: "log_ok (px_log p)" "G \<subseteq> set (px_log p)"
  show "wp m (\<lambda>r. wp (f r) (\<lambda>r q. log_ok (px_log q) \<and> set (px_log p) \<subseteq> set (px_log q))) p"
    by (rule wp_mono [OF keepsD [OF assms(1) p]], rule wp_mono [OF keepsD [OF assms(2)]]) (use p(2) in auto)
qed

text \<open>Only the log matters.\<close>

lemma keeps_silent:
  assumes "\<And>p. px_log (snd (run_state m p)) = px_log p" shows "keeps G m"
  using assms by (simp add: keeps_def wp_def split: prod.splits) (metis snd_conv subset_refl)

lemma keeps_ask: "keeps G (ask_env f)"
  by (rule keeps_silent) (simp add: ask_env_def split: prod.splits)

lemma keeps_log: "(\<And>l. G \<subseteq> set l \<Longrightarrow> J l e) \<Longrightarrow> keeps G (log_ev e)"
  by (auto simp: keeps_def wp_def log_ev_def modify_def log_ok_snoc)

text \<open>What comes after an entry may rely on it.\<close>

lemma keeps_log_then:
  fixes m :: "('w, 'a) pxm"
  assumes "\<And>l. G \<subseteq> set l \<Longrightarrow> J l e" "keeps (insert e G) m"
  shows "keeps G (State_Monad.bind (log_ev e) (\<lambda>_. m))"
  unfolding keeps_def
proof (intro allI impI)
  fix p :: "'w px" assume p: "log_ok (px_log p)" "G \<subseteq> set (px_log p)"
  let ?q = "p\<lparr>px_log := px_log p @ [e]\<rparr>"
  have "wp m (\<lambda>r q. log_ok (px_log q) \<and> set (px_log ?q) \<subseteq> set (px_log q)) ?q"
    by (rule keepsD [OF assms(2)]) (use p assms(1) in \<open>auto simp: log_ok_snoc\<close>)
  then show "wp (State_Monad.bind (log_ev e) (\<lambda>_. m)) (\<lambda>r q. log_ok (px_log q) \<and> set (px_log p) \<subseteq> set (px_log q)) p"
    by (intro wp_bind) (auto simp: wp_def log_ev_def modify_def split: prod.splits)
qed

lemma keeps_if: "(b \<Longrightarrow> keeps G m) \<Longrightarrow> (\<not> b \<Longrightarrow> keeps G n) \<Longrightarrow> keeps G (if b then m else n)"
  by simp

lemma keeps_let: "(\<And>y. y = x \<Longrightarrow> keeps G (f y)) \<Longrightarrow> keeps G (let y = x in f y)"
  by simp

lemma keeps_option: "(x = None \<Longrightarrow> keeps G m) \<Longrightarrow> (\<And>y. x = Some y \<Longrightarrow> keeps G (f y)) \<Longrightarrow>
    keeps G (case x of None \<Rightarrow> m | Some y \<Rightarrow> f y)"
  by (cases x) auto

lemma keeps_sum: "(\<And>a. x = Inl a \<Longrightarrow> keeps G (f a)) \<Longrightarrow> (\<And>b. x = Inr b \<Longrightarrow> keeps G (g b)) \<Longrightarrow>
    keeps G (case x of Inl a \<Rightarrow> f a | Inr b \<Rightarrow> g b)"
  by (cases x) auto

lemma keeps_prod: "(\<And>a b. x = (a, b) \<Longrightarrow> keeps G (f a b)) \<Longrightarrow> keeps G (case x of (a, b) \<Rightarrow> f a b)"
  by (cases x) auto

lemma keeps_beginAudit: "keeps G (beginAudit a b c d e)"
  by (rule keeps_silent) (simp add: beginAudit_def modify_def gets_def State_Monad.bind_def)

lemmas keeps_rules = keeps_ret keeps_ask keeps_if keeps_let keeps_option keeps_sum keeps_prod keeps_beginAudit

end

lemma bind_if: "State_Monad.bind (if b then m else n) f = (if b then State_Monad.bind m f else State_Monad.bind n f)"
  by simp

lemma bind_option: "State_Monad.bind (case x of None \<Rightarrow> m | Some y \<Rightarrow> g y) f = (case x of None \<Rightarrow> State_Monad.bind m f | Some y \<Rightarrow> State_Monad.bind (g y) f)"
  by (cases x) simp_all

text \<open>Where an admitted request may be sent, and with which method and path.\<close>

definition prefix_of :: "EgressRule \<Rightarrow> string" where
  "prefix_of r = (case e_Override r of None \<Rightarrow> [] | Some ov \<Rightarrow> TrimSuffix (ov_PrefixPath ov) ''/'')"

definition dest_of :: "egress_request \<Rightarrow> EgressRule \<Rightarrow> string \<Rightarrow> bool" where
  "dest_of q r a \<longleftrightarrow> (\<exists>dflt. a = dialTarget (Some r) dflt \<and>
     (dflt = net_JoinHostPort (q_host q) (Itoa (q_port q)) \<or>
      (q_host q, q_port q) = splitHostPort [] dflt 443 \<or>
      (\<exists>h origDst. dflt = upstreamAddr h origDst \<and> q_host q \<in> {h, fst (splitHostPort [] h 0)} \<and> q_port q = snd (splitHostPort [] origDst 0))))"

definition trip_to :: "egress_request \<Rightarrow> EgressRule \<Rightarrow> string \<Rightarrow> bool" where
  "trip_to q r a \<longleftrightarrow> (if overridden r then dest_of q r a else \<exists>h n. splitHostPort a h n = (q_host q, q_port q))"

definition content_of :: "egress_request \<Rightarrow> EgressRule \<Rightarrow> http_req \<Rightarrow> bool" where
  "content_of q r req \<longleftrightarrow> hr_method req = q_method q \<and> hr_path req = prefix_of r @ q_path q"

definition granted :: "string \<Rightarrow> pxev list \<Rightarrow> egress_request \<Rightarrow> EgressRule \<Rightarrow> bool" where
  "granted src l q r \<longleftrightarrow> q_src q = src \<and> (\<exists>pol. Granted q pol r \<in> set l \<and> allowed_now q pol = Some r)"

fun is_request :: "nat \<Rightarrow> pxev \<Rightarrow> bool" where
  "is_request n (Audited a) = (au_phase a = PhRequest \<and> ac_id (au_ctx a) = n)"
| "is_request n e = False"

lemma override_content:
  assumes "applyOverride js ov req = Some req1"
  shows "hr_method req1 = hr_method req \<and> hr_host req1 = hr_host req \<and> hr_urlHost req1 = hr_urlHost req \<and> hr_path req1 = (case ov of None \<Rightarrow> [] | Some o1 \<Rightarrow> TrimSuffix (ov_PrefixPath o1) ''/'') @ hr_path req"
proof (cases ov)
  case (Some o1)
  have p: "hr_path (override_prefix pre r) = TrimSuffix pre ''/'' @ hr_path r" for pre r
    by (simp add: override_prefix_def Let_def TrimSuffix_def)
  from assms have "applyBodyOverride js (ov_Body o1) (ov_BodyStrategy o1) (override_prefix (ov_PrefixPath o1)
      (req\<lparr>hr_query := override_query (ov_Query o1) (hr_query req), hr_headers := fold (\<lambda>(k, v) h. header_set k v h) (ov_Headers o1) (hr_headers req)\<rparr>)) = Some req1"
    by (simp add: applyOverride_def Some)
  from body_override_keeps [OF this] show ?thesis by (simp add: Some p)
qed (use assms in \<open>simp add: applyOverride_def\<close>)

lemma script_content: "hr_method (runOverrideScript run script r) = hr_method r \<and> hr_host (runOverrideScript run script r) = hr_host r \<and>
    hr_urlHost (runOverrideScript run script r) = hr_urlHost r \<and> hr_path (runOverrideScript run script r) = hr_path r"
  by (simp add: runOverrideScript_def applyScriptHeaders_def applyScriptBody_def Let_def split: option.splits)

lemma captured_keeps [simp]:
  "ac_id (captured cfg req ac) = ac_id ac" "ac_src (captured cfg req ac) = ac_src ac" "ac_method (captured cfg req ac) = ac_method ac"
  "ac_host (captured cfg req ac) = ac_host ac" "ac_path (captured cfg req ac) = ac_path ac"
  by (simp_all add: captured_def split: option.splits)

text \<open>
  A condition every handler serving the source \<open>src\<close> respects: it admits requests in the audit
  stream, answers to earlier requests, decisions of the policy, and contacts that follow such a
  decision.
\<close>

locale serving = log_condition +
  fixes src :: string
  assumes J_request: "au_phase a = PhRequest \<Longrightarrow> J l (Audited a)"
    and J_answer: "e \<in> set l \<Longrightarrow> is_request (ac_id (au_ctx a)) e \<Longrightarrow> J l (Audited a)"
    and J_granted: "allowed_now q pol = Some r \<Longrightarrow> q_src q = src \<Longrightarrow> J l (Granted q pol r)"
    and J_dial: "granted src l q r \<Longrightarrow> dest_of q r d \<Longrightarrow> J l (Dialled d)"
    and J_reuse: "granted src l q r \<Longrightarrow> dest_of q r (k_dialAddr k) \<Longrightarrow> k_srcIP k \<in> {src, []} \<Longrightarrow> J l (Reused k c)"
    and J_roundTrip: "granted src l q r \<Longrightarrow> content_of q r req \<Longrightarrow> trip_to q r d \<Longrightarrow> J l (RoundTrip d req)"
    and J_sent: "granted src l q r \<Longrightarrow> content_of q r req \<Longrightarrow> J l (Sent c (SentRequest req))"
    and J_raw: "granted src l q r \<Longrightarrow> content_of q r req \<Longrightarrow> J l (Sent c (SentRaw req b))"
    and J_pending: "granted src l q r \<Longrightarrow> e_Paths r = [] \<Longrightarrow> e_Methods r = [] \<Longrightarrow> J l (Sent c (SentPending b))"
    and J_tunnel: "granted src l q r \<Longrightarrow> J l Tunnel"
    and J_client: "J l (Reply status)" "J l Alert" "J l Crash"
begin

lemma keeps_request: "au_phase a = PhRequest \<Longrightarrow> keeps G (log_ev (Audited a))"
  by (intro keeps_log J_request)

lemma keeps_answer: "e \<in> G \<Longrightarrow> is_request (ac_id (au_ctx a)) e \<Longrightarrow> keeps G (log_ev (Audited a))"
  by (rule keeps_log, rule J_answer) auto

lemmas audit_defs = ac_denyRequest_def ac_denyResponse_def ac_allow_def ac_response_def ac_streamChunk_def ac_responseError_def audit_def

lemma keeps_deny: "keeps G (ac_deny ac reason status)"
  unfolding ac_deny_def audit_defs
  by (intro keeps_log_then J_request keeps_answer [OF insertI1]) simp_all

lemma keeps_deny_ret: "keeps G (State_Monad.bind (ac_deny ac reason status) f)" if "\<And>u. keeps G (f u)"
  by (intro keeps_bind keeps_deny that)

lemma keeps_await_loop:
  assumes "ac_src ac = src" "e \<in> G" "is_request (ac_id ac) e" "keeps G (f None)"
    "\<And>pol r. allowed_now (request_of ac port) pol = Some r \<Longrightarrow> keeps (insert (Granted (request_of ac port) pol r) G) (f (Some r))"
  shows "keeps G (State_Monad.bind (await_loop ac port reason status pols) f)"
proof (induction pols)
  case Nil
  have "keeps G (ac_denyResponse ac reason status)" unfolding audit_defs using assms by (intro keeps_answer [OF assms(2)]) simp
  then show ?case by (simp add: bind_assoc) (intro keeps_bind assms(4))
next
  case (Cons pol pols)
  have "keeps G (State_Monad.bind (log_ev (Granted (request_of ac port) pol r)) (\<lambda>_. f (Some r)))"
    if "allowed_now (request_of ac port) pol = Some r" for r
    by (rule keeps_log_then [OF J_granted [OF that]]) (simp_all add: assms(1,5) that request_of_def [symmetric], simp add: request_of_def assms(1))
  then show ?case using Cons by (auto simp: bind_assoc split: option.split)
qed

lemma keeps_await:
  assumes "ac_src ac = src" "keeps G (f None)"
    "\<And>pol r. allowed_now (request_of ac port) pol = Some r \<Longrightarrow> keeps (insert (Granted (request_of ac port) pol r) G) (f (Some r))"
  shows "keeps G (State_Monad.bind (awaitEgress env ac port reason status) f)"
proof -
  have now: "keeps G (State_Monad.bind (log_ev (Granted (request_of ac port) pol r)) (\<lambda>_. f (Some r)))"
    if "allowed_now (request_of ac port) pol = Some r" for pol r
    by (rule keeps_log_then [OF J_granted [OF that] assms(3) [OF that]]) (simp add: request_of_def assms(1))
  have later: "keeps G (State_Monad.bind (ac_denyRequest ac reason status) (\<lambda>_. State_Monad.bind (ask_env (ev_waits env))
      (\<lambda>pols. State_Monad.bind (await_loop ac port reason status pols) f)))"
    unfolding ac_denyRequest_def audit_def
    by (intro keeps_log_then J_request keeps_bind [OF keeps_ask] keeps_await_loop [OF assms(1) insertI1] keeps_weaken [OF assms(2)]
        keeps_weaken [OF assms(3)]) auto
  have never: "keeps G (State_Monad.bind (ac_deny ac reason status) (\<lambda>_. f None))" by (intro keeps_deny_ret assms(2))
  show ?thesis
    unfolding awaitEgress_def bind_assoc bind_option bind_if State_Monad.bind_left_identity
    by (intro keeps_bind [OF keeps_ask] keeps_option keeps_if now later never)
qed

lemma keeps_rule:
  assumes "ac_src ac = src" "ac_method ac = hr_method req" "ac_path ac = hr_path req" "keeps G (f Denied)" "keeps G (f Crashed)"
    "\<And>q r req1 ac1 pol e. allowed_now q pol = Some r \<Longrightarrow> q_src q = src \<Longrightarrow> q_host q = ac_host ac \<Longrightarrow> q_port q = port \<Longrightarrow>
       content_of q r req1 \<Longrightarrow> ac_id ac1 = ac_id ac \<Longrightarrow> is_request (ac_id ac) e \<Longrightarrow>
       keeps (insert e (insert (Granted q pol r) G)) (f (Ruled r req1 ac1))"
  shows "keeps G (State_Monad.bind (applyRequestRule env cfg req host port ac) f)"
  unfolding applyRequestRule_def Let_def bind_assoc
proof (rule keeps_await)
  let ?ac = "(captured cfg req ac)\<lparr>ac_requestHeaders := headerMap (hr_headers req)\<rparr>"
  show "ac_src ?ac = src" using assms(1) by simp
  show "keeps G (State_Monad.bind (case None of None \<Rightarrow> ret Denied | Some rule \<Rightarrow> g rule) f)" for g using assms(4) by simp
  fix pol r
  assume r: "allowed_now (request_of ?ac port) pol = Some r"
  let ?q = "request_of ?ac port" let ?G = "insert (Granted ?q pol r) G"
  have go: "keeps ?G (State_Monad.bind (ac_allow ac1) (\<lambda>_. f (Ruled r req1 ac1)))" if "content_of ?q r req1" "ac_id ac1 = ac_id ac" for req1 ac1
    unfolding ac_allow_def audit_def
    by (rule keeps_log_then, rule J_request, simp, rule assms(6) [OF r _ _ _ that]) (simp_all add: request_of_def assms(1) that(2))
  have crash: "keeps ?G (State_Monad.bind (log_ev Crash) (\<lambda>_. f Crashed))"
    by (intro keeps_bind keeps_log J_client(3) keeps_weaken [OF assms(5)]) auto
  have "content_of ?q r req1 \<and> content_of ?q r (runOverrideScript run s req1)"
    if "(if e_Access r = ''allow'' then applyOverride js (e_Override r) req else Some req) = Some req1" for req1 run s js
    using that override_content [of js "e_Override r" req req1] script_content [of run s req1] assms(2,3) match_allow_Some(2) r
    by (auto simp: content_of_def prefix_of_def request_of_def allowed_now_def split: if_splits)
  note c = conjunct1 [OF this] conjunct2 [OF this]
  have id: "ac_id (noted r host port req1 ?ac) = ac_id ac" for req1 by (simp add: noted_def)
  show "keeps ?G (State_Monad.bind (case Some r of None \<Rightarrow> ret Denied
      | Some rule \<Rightarrow> case if e_Access rule = ''allow'' then applyOverride (pf_js cfg) (e_Override rule) req else Some req of
          None \<Rightarrow> State_Monad.bind (log_ev Crash) (\<lambda>_. ret Crashed)
        | Some req1 \<Rightarrow> State_Monad.bind (ac_allow (noted rule host port req1 ?ac)) (\<lambda>_. ret (Ruled rule
            (if e_OverrideScript rule \<noteq> [] then runOverrideScript (pf_lua cfg) (e_OverrideScript rule) req1 else req1)
            (noted rule host port req1 ?ac)))) f)"
    unfolding option.case bind_option bind_assoc State_Monad.bind_left_identity
    by (intro keeps_option crash go) (auto simp: id c)
qed

text \<open>What the entries \<open>G\<close> already establish.\<close>

definition grants :: "pxev set \<Rightarrow> egress_request \<Rightarrow> EgressRule \<Rightarrow> bool" where
  "grants G q r \<longleftrightarrow> q_src q = src \<and> (\<exists>pol. Granted q pol r \<in> G \<and> allowed_now q pol = Some r)"

definition requested :: "pxev set \<Rightarrow> nat \<Rightarrow> bool" where
  "requested G n \<longleftrightarrow> (\<exists>e \<in> G. is_request n e)"

lemma grantedI: "grants G q r \<Longrightarrow> G \<subseteq> set l \<Longrightarrow> granted src l q r"
  by (auto simp: grants_def granted_def)

lemma keeps_answers:
  assumes "requested G (ac_id ac)"
  shows "keeps G (ac_response ac status)" "keeps G (ac_responseError ac reason status)" "keeps G (ac_streamChunk ac body)"
proof -
  obtain e where e: "e \<in> G" "is_request (ac_id ac) e" using assms by (auto simp: requested_def)
  show "keeps G (ac_response ac status)" "keeps G (ac_responseError ac reason status)" "keeps G (ac_streamChunk ac body)"
    unfolding audit_defs by (rule keeps_answer [OF e(1)], simp add: e(2))+
qed

lemma keeps_gets: "(\<And>p. keeps G (g (f p))) \<Longrightarrow> keeps G (State_Monad.bind (gets f) g)"
  unfolding keeps_def by (intro allI impI wp_bind wp_gets) blast

lemma keeps_client: "keeps G (log_ev (Reply status))" "keeps G (log_ev Alert)" "keeps G (log_ev Crash)"
  by (intro keeps_log J_client)+

lemma keeps_tunnel: "grants G q r \<Longrightarrow> keeps G (log_ev Tunnel)"
  by (intro keeps_log J_tunnel grantedI)

lemma keeps_dial: "grants G q r \<Longrightarrow> dest_of q r a \<Longrightarrow> keeps G (dial env a)"
  unfolding dial_def by (intro keeps_bind keeps_ask keeps_log J_dial grantedI)

lemma keeps_chrome: "grants G q r \<Longrightarrow> dest_of q r a \<Longrightarrow> keeps G (chrome_dial env a host)"
  unfolding chrome_dial_def by (intro keeps_bind keeps_rules keeps_dial)

lemma keeps_fallback: "grants G q r \<Longrightarrow> dest_of q r a \<Longrightarrow> keeps G (fallback_dial env hello a host)"
  unfolding fallback_dial_def by (intro keeps_bind keeps_rules keeps_dial keeps_chrome)

lemma keeps_dialTLS: "grants G q r \<Longrightarrow> dest_of q r a \<Longrightarrow> keeps G (dialUpstreamTLS env a host ws)"
  unfolding dialUpstreamTLS_def by (intro keeps_if keeps_fallback keeps_chrome)

lemma keeps_from_pool:
  assumes "grants G q r" "dest_of q r a" shows "keeps G (from_pool env src a host)"
proof -
  have key: "k_dialAddr (keyFor pool src a host) = a" "k_srcIP (keyFor pool src a host) \<in> {src, []}" for pool
    by (simp_all add: keyFor_def)
  have "keeps G (State (\<lambda>p. case pool_get alive now key (px_pool p) of (c, pool) \<Rightarrow> (c, p\<lparr>px_pool := pool\<rparr>)))" for alive now key
    by (rule keeps_silent) (simp split: prod.splits)
  then show ?thesis
    unfolding from_pool_def
    by (intro keeps_bind [OF keeps_ask] keeps_gets, intro keeps_bind keeps_rules keeps_log J_reuse [OF grantedI [OF assms(1)]])
       (use key assms(2) in simp_all)
qed

lemma keeps_to_pool: "keeps G (to_pool env a b c conn)"
  unfolding to_pool_def by (intro keeps_bind keeps_ask keeps_silent) (simp add: modify_def)

lemma keeps_chunks: "requested G (ac_id ac) \<Longrightarrow> keeps G (chunkForward cs ac logBody)"
  by (induction cs) (auto intro!: keeps_bind keeps_ret keeps_answers)

lemma content_headers [simp]: "content_of q r (req\<lparr>hr_headers := h\<rparr>) = content_of q r req"
  by (simp add: content_of_def)

lemma keeps_write: "grants G q r \<Longrightarrow> content_of q r req \<Longrightarrow> keeps G (writeUpstreamRequest env conn req raw ws keepAlive)"
  unfolding writeUpstreamRequest_def Let_def
  by (intro keeps_bind keeps_ask keeps_if keeps_log; cases raw) (auto intro!: J_sent J_raw grantedI)

lemma keeps_forwardHTTP:
  assumes "grants G q r" "content_of q r req" "requested G (ac_id ac)"
  shows "keeps G (forwardHTTP env cfg conn req raw ac allowReuse)"
  unfolding forwardHTTP_def Let_def
  by (intro keeps_bind keeps_rules keeps_write [OF assms(1)] keeps_answers keeps_tunnel [OF assms(1)] keeps_chunks) (simp_all add: assms)

lemma keeps_forwardH2:
  assumes "grants G q r" "content_of q r req" "requested G (ac_id ac)"
  shows "keeps G (forwardH2Upstream env cfg conn req ac)"
  unfolding forwardH2Upstream_def Let_def
  by (intro keeps_bind keeps_rules keeps_write [OF assms(1)] keeps_answers keeps_client keeps_chunks) (simp_all add: assms)

lemma keeps_sent: "grants G q r \<Longrightarrow> content_of q r req \<Longrightarrow> keeps G (log_ev (Sent c (SentRequest req)))"
  by (intro keeps_log J_sent grantedI)

lemma keeps_webSocket:
  assumes "grants G q r" "content_of q r req" "requested G (ac_id ac)" "dest_of q r a"
  shows "keeps G (handleWebSocket env a req ac)"
  unfolding handleWebSocket_def
  by (intro keeps_bind keeps_rules keeps_dial [OF assms(1)] keeps_answers keeps_client keeps_tunnel [OF assms(1)]
      keeps_sent [OF assms(1)]) (simp_all add: assms)

lemma keeps_begin:
  assumes "\<And>ac. ac_src ac = a \<Longrightarrow> ac_method ac = m \<Longrightarrow> ac_host ac = h \<Longrightarrow> ac_path ac = pa \<Longrightarrow> keeps G (f ac)"
  shows "keeps G (State_Monad.bind (beginAudit a m h pa qu) f)"
proof -
  have "keeps G (modify (\<lambda>p. p\<lparr>px_seq := Suc (px_seq p)\<rparr>))" by (rule keeps_silent) (simp add: modify_def)
  then show ?thesis
    unfolding beginAudit_def bind_assoc State_Monad.bind_left_identity by (intro keeps_bind keeps_gets assms) simp_all
qed

lemma grants_insert: "allowed_now q pol = Some r \<Longrightarrow> q_src q = src \<Longrightarrow> grants (insert (Granted q pol r) G) q r"
  "grants G q r \<Longrightarrow> grants (insert e G) q r"
  by (auto simp: grants_def)

lemma requested_insert: "is_request n e \<Longrightarrow> requested (insert e G) n" "requested G n \<Longrightarrow> requested (insert e G) n"
  by (auto simp: requested_def)

text \<open>Once a request is allowed, what follows may answer it.\<close>

lemma keeps_allow_then: "keeps G (State_Monad.bind (ac_allow ac) (\<lambda>_. m))"
  if "\<And>e. is_request (ac_id ac) e \<Longrightarrow> keeps (insert e G) m"
  unfolding ac_allow_def audit_def by (intro keeps_log_then J_request that) simp_all

lemma dest_transparent: "q_host q \<in> {h, fst (splitHostPort [] h 0)} \<Longrightarrow> q_port q = snd (splitHostPort [] origDst 0) \<Longrightarrow>
    dest_of q r (dialTarget (Some r) (upstreamAddr h origDst))"
  unfolding dest_of_def by blast

lemma keeps_transparentHTTP:
  assumes "srcIPOf remoteAddr = src" shows "keeps G (handleTransparentHTTP env cfg remoteAddr origDst)"
  unfolding handleTransparentHTTP_def Let_def
proof (intro keeps_bind [OF keeps_ask] keeps_sum keeps_prod keeps_ret keeps_begin keeps_rule)
  fix req req1 :: http_req and ac ac1 :: auditCtx and q r pol e
  let ?host = "if hr_host req = [] then origDst else hr_host req" let ?G = "insert e (insert (Granted q pol r) G)"
  assume q: "ac_src ac = srcIPOf remoteAddr" "ac_host ac = fst (splitHostPort [] ?host 0)" "allowed_now q pol = Some r" "q_src q = src" "q_host q = ac_host ac"
    "q_port q = snd (splitHostPort [] origDst 0)" "content_of q r req1" "ac_id ac1 = ac_id ac" "is_request (ac_id ac) e"
  have g: "grants ?G q r" "requested ?G (ac_id ac1)" using q by (auto simp: grants_insert requested_insert)
  have d: "dest_of q r (dialTarget (Some r) (upstreamAddr ?host origDst))" using q by (intro dest_transparent) auto
  show "keeps ?G (case Ruled r req1 ac1 of Denied \<Rightarrow> log_ev (Reply 403) | Crashed \<Rightarrow> ret ()
      | Ruled rule req1 ac1 \<Rightarrow> do {
          up \<leftarrow> dial env (dialTarget (Some rule) (upstreamAddr ?host origDst));
          (case up of
             Inl err \<Rightarrow> do { ac_responseError ac1 err 502; log_ev (Reply 502) }
           | Inr conn \<Rightarrow> do { _ \<leftarrow> forwardHTTP env cfg conn req1 None ac1 False; ret () }) })"
    unfolding ruling.case
    by (intro keeps_bind keeps_dial [OF g(1) d] keeps_sum keeps_answers g(2) keeps_client keeps_forwardHTTP [OF g(1) q(7) g(2)] keeps_ret)
qed (auto simp: assms intro: keeps_client keeps_ret)

lemma keeps_innerH2: "keeps G (handleInnerH2 env cfg sniHost origDst src req)"
  unfolding handleInnerH2_def Let_def
proof (intro keeps_begin keeps_if keeps_deny_ret keeps_client keeps_rule)
  fix req1 :: http_req and ac ac1 :: auditCtx and q r pol e
  let ?host = "if hr_host req = [] then sniHost else hr_host req" let ?G = "insert e (insert (Granted q pol r) G)"
  let ?a = "dialTarget (Some r) (upstreamAddr ?host origDst)"
  assume q: "ac_host ac = ?host" "allowed_now q pol = Some r" "q_src q = src" "q_host q = ac_host ac"
    "q_port q = snd (splitHostPort [] origDst 0)" "content_of q r req1" "ac_id ac1 = ac_id ac" "is_request (ac_id ac) e"
  have g: "grants ?G q r" "requested ?G (ac_id ac1)" using q by (auto simp: grants_insert requested_insert)
  have d: "dest_of q r ?a" using q by (intro dest_transparent) auto
  show "keeps ?G (case Ruled r req1 ac1 of Denied \<Rightarrow> log_ev (Reply 403) | Crashed \<Rightarrow> ret ()
      | Ruled rule r1 ac1 \<Rightarrow> do {
            pooled \<leftarrow> from_pool env src (dialTarget (Some rule) (upstreamAddr ?host origDst)) sniHost;
            up \<leftarrow> (case pooled of None \<Rightarrow> dialUpstreamTLS env (dialTarget (Some rule) (upstreamAddr ?host origDst)) sniHost False | Some c \<Rightarrow> ret (Inr c));
            (case up of
               Inl err \<Rightarrow> do { ac_responseError ac1 (''upstream: '' @ err) 502; log_ev (Reply 502) }
             | Inr conn \<Rightarrow> do {
                 again \<leftarrow> forwardH2Upstream env cfg conn r1 ac1;
                 if again then to_pool env src (dialTarget (Some rule) (upstreamAddr ?host origDst)) sniHost conn else ret ()
               }) })"
    unfolding ruling.case
    by (intro keeps_bind keeps_from_pool [OF g(1) d] keeps_option keeps_dialTLS [OF g(1) d] keeps_ret keeps_sum keeps_answers g(2) keeps_client
        keeps_forwardH2 [OF g(1) q(6) g(2)] keeps_if keeps_to_pool)
qed (auto intro: keeps_client keeps_ret)

lemma keeps_serveH2: "keeps G (serveInnerH2 env cfg sniHost origDst src rs)"
  by (induction rs) (auto intro!: keeps_ret keeps_bind keeps_innerH2)

lemma keeps_splice:
  assumes "grants G q r" "e_Paths r = []" "e_Methods r = []" "q_host q = host" "q_port q = snd (splitHostPort [] origDst 0)"
  shows "keeps G (spliceTLS env host origDst r pending a)"
proof -
  have d: "dest_of q r (dialTarget (Some r) (upstreamAddr host origDst))" using assms by (intro dest_transparent) auto
  have pend: "keeps G' (log_ev (Sent conn (SentPending pending)))" if "grants G' q r" for G' conn
    by (rule keeps_log, rule J_pending [OF grantedI [OF that] assms(2,3)])
  show ?thesis
    unfolding spliceTLS_def
    by (intro keeps_begin keeps_bind [OF keeps_fallback [OF assms(1) d]] keeps_sum keeps_deny keeps_allow_then keeps_bind keeps_answers requested_insert(1)
        keeps_if pend grants_insert(2) [OF assms(1)] keeps_ask keeps_ret keeps_option keeps_tunnel [OF grants_insert(2) [OF assms(1)]])
qed

lemma keeps_intercept:
  assumes "grants G q r" "q_host q = host" "q_port q = snd (splitHostPort [] origDst 0)"
  shows "keeps G (interceptTLS env cfg host origDst src r)"
  unfolding interceptTLS_def Let_def
proof (intro keeps_bind [OF keeps_ask] keeps_sum keeps_begin keeps_deny keeps_if keeps_serveH2 keeps_prod keeps_ret keeps_splice [OF assms(1)] keeps_rule)
  fix req1 :: http_req and raw and ac ac1 :: auditCtx and q' r' pol e
  let ?G = "insert e (insert (Granted q' pol r') G)" let ?a = "dialTarget (Some r') (upstreamAddr host origDst)"
  assume q: "ac_host ac = host" "allowed_now q' pol = Some r'" "q_src q' = src" "q_host q' = ac_host ac"
    "q_port q' = snd (splitHostPort [] origDst 0)" "content_of q' r' req1" "ac_id ac1 = ac_id ac" "is_request (ac_id ac) e"
  have g: "grants ?G q' r'" "requested ?G (ac_id ac1)" using q by (auto simp: grants_insert requested_insert)
  have d: "dest_of q' r' ?a" using q by (intro dest_transparent) auto
  show "keeps ?G (case Ruled r' req1 ac1 of Denied \<Rightarrow> log_ev (Reply 403) | Crashed \<Rightarrow> ret ()
      | Ruled rule req1 ac1 \<Rightarrow> do {
            pooled \<leftarrow> (if IsUpgrade req1 then ret None else from_pool env src (dialTarget (Some rule) (upstreamAddr host origDst)) host);
            up \<leftarrow> (case pooled of None \<Rightarrow> dialUpstreamTLS env (dialTarget (Some rule) (upstreamAddr host origDst)) host (IsUpgrade req1) | Some c \<Rightarrow> ret (Inr c));
            (case up of
               Inl err \<Rightarrow> ac_responseError ac1 (''upstream: '' @ err) 502
             | Inr conn \<Rightarrow> do {
                 again \<leftarrow> forwardHTTP env cfg conn req1
                   (if IsUpgrade req1 \<and> (case e_Override rule of None \<Rightarrow> True | Some ov \<Rightarrow> ov_PrefixPath ov = []) then Some raw else None) ac1 (\<not> IsUpgrade req1);
                 if again then to_pool env src (dialTarget (Some rule) (upstreamAddr host origDst)) host conn else ret ()
               }) })"
    unfolding ruling.case
    by (intro keeps_bind keeps_from_pool [OF g(1) d] keeps_option keeps_dialTLS [OF g(1) d] keeps_ret keeps_sum keeps_answers g(2) keeps_client
        keeps_forwardHTTP [OF g(1) q(6) g(2)] keeps_if keeps_to_pool)
qed (use assms in \<open>auto intro: keeps_client keeps_ret\<close>)

lemma keeps_rawForward:
  assumes "grants G q r" "q_host q = host" "q_port q = snd (splitHostPort [] origDst 0)"
  shows "keeps G (rawForwardTLS env remoteAddr host origDst r)"
proof -
  have d: "dest_of q r (dialTarget (Some r) (upstreamAddr host origDst))" using assms by (intro dest_transparent) auto
  show ?thesis
    unfolding rawForwardTLS_def
    by (intro keeps_bind [OF keeps_dial [OF assms(1) d]] keeps_sum keeps_begin keeps_deny keeps_tunnel [OF assms(1)])
qed

lemma keeps_transparentTLS:
  assumes "srcIPOf remoteAddr = src" shows "keeps G (handleTransparentTLS env cfg remoteAddr origDst sni)"
  unfolding handleTransparentTLS_def Let_def assms
proof (intro keeps_begin keeps_await)
  let ?host = "if sni = [] then origDst else sni" let ?port = "snd (splitHostPort [] origDst 0)"
  fix ac :: auditCtx and pol r
  assume ac: "ac_src ac = src" "ac_host ac = ?host" "allowed_now (request_of ac ?port) pol = Some r"
  let ?q = "request_of ac ?port"
  have g: "grants (insert (Granted ?q pol r) G) ?q r" "q_host ?q = ?host" "q_port ?q = ?port"
    using ac by (simp_all add: grants_insert(1) request_of_def)
  show "keeps (insert (Granted ?q pol r) G) (case Some r of None \<Rightarrow> log_ev Alert
      | Some rule \<Rightarrow> if pf_minter cfg \<and> \<not> e_Passthrough rule \<and> \<not> pf_passthroughAll cfg then interceptTLS env cfg ?host origDst src rule
          else rawForwardTLS env remoteAddr ?host origDst rule)"
    unfolding option.case by (intro keeps_if keeps_intercept [OF g] keeps_rawForward [OF g])
qed (simp_all add: keeps_client)

lemma keeps_connect:
  assumes "srcIPOf remoteAddr = src" shows "keeps G (handleConnect env remoteAddr req)"
  unfolding handleConnect_def Let_def assms
proof (intro keeps_prod keeps_begin keeps_await)
  fix host port and ac :: auditCtx and pol r
  assume ac: "splitHostPort [] (hr_host req) 443 = (host, port)" "ac_src ac = src" "ac_host ac = host" "allowed_now (request_of ac port) pol = Some r"
  let ?q = "request_of ac port" let ?G = "insert (Granted ?q pol r) G"
  have g: "grants ?G ?q r" using ac by (intro grants_insert(1)) (simp_all add: request_of_def)
  have d: "dest_of ?q r (dialTarget (Some r) (hr_host req))"
    unfolding dest_of_def using ac by (intro exI [of _ "hr_host req"]) (simp add: request_of_def)
  show "keeps ?G (case Some r of None \<Rightarrow> log_ev (Reply 403)
      | Some rule \<Rightarrow> do {
          up \<leftarrow> dial env (dialTarget (Some rule) (hr_host req));
          (case up of
             Inl err \<Rightarrow> do { ac_deny (upstream_noted rule (dialTarget (Some rule) (hr_host req)) ac) (''upstream dial: '' @ err) 502; log_ev (Reply 502) }
           | Inr conn \<Rightarrow> do {
               ac_allow (upstream_noted rule (dialTarget (Some rule) (hr_host req)) ac\<lparr>ac_requestHeaders := headerMap (hr_headers req)\<rparr>);
               gone \<leftarrow> ask_env (ev_client env);
               (case gone of
                  None \<Rightarrow> do { log_ev (Reply 200); log_ev Tunnel;
                    ac_response (upstream_noted rule (dialTarget (Some rule) (hr_host req)) ac\<lparr>ac_requestHeaders := headerMap (hr_headers req)\<rparr>) 200 }
                | Some err \<Rightarrow> ac_responseError (upstream_noted rule (dialTarget (Some rule) (hr_host req)) ac\<lparr>ac_requestHeaders := headerMap (hr_headers req)\<rparr>) err 500)
             }) })"
    unfolding option.case
    by (intro keeps_bind [OF keeps_dial [OF g d]] keeps_sum keeps_deny_ret keeps_client keeps_allow_then keeps_bind keeps_ask keeps_option
        keeps_tunnel [OF grants_insert(2) [OF g]] keeps_answers requested_insert(1))
qed (simp_all add: keeps_client)

lemma keeps_exchange:
  assumes "grants G q r" "content_of q r req" "requested G (ac_id ac)" "dest_of q r a"
    "trip_to q r (hr_urlHost req)"
  shows "keeps G (exchange env cfg a req ac)"
proof -
  have "keeps G (log_ev (RoundTrip (hr_urlHost req) req))" by (rule keeps_log, rule J_roundTrip [OF grantedI [OF assms(1)] assms(2,5)])
  then show ?thesis
    unfolding exchange_def Let_def
    by (intro keeps_bind keeps_rules keeps_webSocket [OF assms(1,2,3,4)] keeps_answers keeps_client keeps_chunks) (simp_all add: assms(3))
qed

lemma whole_keeps [simp]: "ac_id (whole_body cfg r ac) = ac_id ac" "ac_src (whole_body cfg r ac) = ac_src ac"
  "ac_method (whole_body cfg r ac) = ac_method ac" "ac_host (whole_body cfg r ac) = ac_host ac" "ac_path (whole_body cfg r ac) = ac_path ac"
  by (simp_all add: whole_body_def split: option.splits)

lemma rebuilt_content [simp]: "content_of q r (rebuilt rule a req) = content_of q r req"
  by (simp add: content_of_def rebuilt_def)

lemma rebuilt_host: "\<not> overridden r \<Longrightarrow> hr_urlHost (rebuilt r a x) = (if hr_urlHost x = [] then hr_host x else hr_urlHost x)"
  by (simp add: rebuilt_def)

lemma split_self: "splitHostPort (if u = [] then h else u) h d = splitHostPort u h d"
  by (simp add: splitHostPort_def)

lemma keeps_serve_allowed:
  assumes g: "grants G q r" and q: "q_method q = hr_method req" "q_path q = hr_path req" "q_host q = host" "q_port q = port"
    and split: "splitHostPort (hr_urlHost req) (hr_host req) d = (host, port)"
  shows "keeps G (serve_allowed env cfg host port req ac r)"
  unfolding serve_allowed_def Let_def
proof (intro keeps_option keeps_client keeps_allow_then)
  fix r1 e
  let ?r2 = "if e_Access r = ''allow'' \<and> e_OverrideScript r \<noteq> [] then runOverrideScript (pf_lua cfg) (e_OverrideScript r) r1 else r1"
  let ?a = "dialTarget (Some r) (net_JoinHostPort host (Itoa port))"
  let ?ac = "upstream_noted r ?a (if e_Access r = ''allow'' then (if rewrites_body r then whole_body cfg ?r2 ac else ac)\<lparr>ac_requestHeaders := headerMap (hr_headers ?r2)\<rparr> else ac)"
  assume r1: "(if e_Access r = ''allow'' then applyOverride (pf_js cfg) (e_Override r) req else Some req) = Some r1" and e: "is_request (ac_id ?ac) e"
  have "e_Access r = ''allow''" using g match_allow_Some(2) by (auto simp: grants_def allowed_now_def)
  then have same: "hr_method ?r2 = hr_method req" "hr_host ?r2 = hr_host req" "hr_urlHost ?r2 = hr_urlHost req" "hr_path ?r2 = prefix_of r @ hr_path req"
    using r1 override_content [of "pf_js cfg" "e_Override r" req r1] script_content [of "pf_lua cfg" "e_OverrideScript r" r1]
    by (simp_all add: prefix_of_def)
  have d: "dest_of q r ?a" unfolding dest_of_def by (intro exI [of _ "net_JoinHostPort host (Itoa port)"]) (simp add: q)
  have u: "\<exists>h n. splitHostPort (hr_urlHost (rebuilt r ?a ?r2)) h n = (q_host q, q_port q)" if "\<not> overridden r"
    unfolding rebuilt_host [OF that] same(2,3) using split q(3,4) by (intro exI [of _ "hr_host req"] exI [of _ d]) (simp only: split_self)
  have o: "hr_urlHost (rebuilt r ?a ?r2) = ?a" if "overridden r" using that by (simp add: rebuilt_def)
  show "keeps (insert e G) (exchange env cfg ?a (rebuilt r ?a ?r2) ?ac)"
    using d u o same q by (intro keeps_exchange [OF grants_insert(2) [OF g]] requested_insert(1) e) (auto simp: content_of_def rebuilt_def trip_to_def)
qed

lemma keeps_HTTP:
  assumes "srcIPOf remoteAddr = src" shows "keeps G (handleHTTP env cfg remoteAddr req)"
  unfolding handleHTTP_def Let_def assms
proof (intro keeps_prod keeps_begin keeps_await)
  fix host port and ac :: auditCtx and pol r
  let ?ac = "(whole_body cfg req ac)\<lparr>ac_requestHeaders := headerMap (hr_headers req)\<rparr>"
  let ?q = "request_of ?ac port"
  assume ac: "splitHostPort (hr_urlHost req) (hr_host req) (if hr_scheme req = ''https'' then 443 else 80) = (host, port)" "ac_src ac = src"
    "ac_method ac = hr_method req" "ac_host ac = host" "ac_path ac = hr_path req" "allowed_now ?q pol = Some r"
  show "keeps (insert (Granted ?q pol r) G) (case Some r of None \<Rightarrow> log_ev (Reply 403)
      | Some rule \<Rightarrow> serve_allowed env cfg host port req ?ac rule)"
    unfolding option.case
    by (rule keeps_serve_allowed [OF grants_insert(1) [OF ac(6)] _ _ _ _ ac(1)]) (simp_all add: request_of_def ac)
qed (simp_all add: keeps_client)

lemma keeps_serveHTTP: "srcIPOf remoteAddr = src \<Longrightarrow> keeps G (ServeHTTP env cfg remoteAddr req)"
  unfolding ServeHTTP_def by (intro keeps_if keeps_connect keeps_HTTP)

lemma keeps_transparent:
  assumes "srcIPOf remoteAddr = src" shows "keeps G (handleTransparent env cfg original localAddr remoteAddr avail)"
  unfolding handleTransparent_def
  by (intro keeps_option keeps_ret keeps_if; cases "sniffProtocol (fst (Peek 4096 avail 8))")
     (auto intro!: keeps_begin keeps_deny keeps_option keeps_client keeps_transparentHTTP keeps_transparentTLS assms)

lemma keeps_serve: "source_of cn = src \<Longrightarrow> keeps G (serve env cfg cn)"
  by (cases cn) (simp_all add: keeps_serveHTTP keeps_transparent)

lemma serve_ok:
  assumes "source_of cn = src" "run_state (serve env cfg cn) p = (u, p')" "px_log p = []" "px_log p' = pre @ e # post"
  shows "J pre e"
proof -
  have "wp (serve env cfg cn) (\<lambda>r q. log_ok (px_log q) \<and> set (px_log p) \<subseteq> set (px_log q)) p"
    by (rule keepsD [OF keeps_serve [OF assms(1), of "{}"]]) (simp_all add: assms(3) log_ok_Nil)
  then have "log_ok (px_log p')" by (simp add: wp_def assms(2))
  then show ?thesis using log_ok_split assms(4) by simp
qed

end

section \<open>Enforcement\<close>

text \<open>What an entry of the log of a connection from \<open>src\<close> presupposes.\<close>

fun justified :: "string \<Rightarrow> pxev list \<Rightarrow> pxev \<Rightarrow> bool" where
  "justified src l (Granted q pol r) = (allowed_now q pol = Some r \<and> q_src q = src)"
| "justified src l (Dialled a) = (\<exists>q r. granted src l q r \<and> dest_of q r a)"
| "justified src l (Reused k c) = (\<exists>q r. granted src l q r \<and> dest_of q r (k_dialAddr k) \<and> k_srcIP k \<in> {src, []})"
| "justified src l (RoundTrip a req) = (\<exists>q r. granted src l q r \<and> content_of q r req \<and> trip_to q r a)"
| "justified src l (Sent c (SentRequest req)) = (\<exists>q r. granted src l q r \<and> content_of q r req)"
| "justified src l (Sent c (SentRaw req b)) = (\<exists>q r. granted src l q r \<and> content_of q r req)"
| "justified src l (Sent c (SentPending b)) = (\<exists>q r. granted src l q r \<and> e_Paths r = [] \<and> e_Methods r = [])"
| "justified src l Tunnel = (\<exists>q r. granted src l q r)"
| "justified src l (Audited a) = True"
| "justified src l (Reply n) = True"
| "justified src l Alert = True"
| "justified src l Crash = True"

fun answered :: "pxev list \<Rightarrow> pxev \<Rightarrow> bool" where
  "answered l (Audited a) = (au_phase a = PhRequest \<or> list_ex (is_request (ac_id (au_ctx a))) l)"
| "answered l e = True"

lemma granted_mono: "granted src l q r \<Longrightarrow> set l \<subseteq> set l' \<Longrightarrow> granted src l' q r"
  by (auto simp: granted_def)

lemma justified_mono: "justified src l e \<Longrightarrow> set l \<subseteq> set l' \<Longrightarrow> justified src l' e"
  by (cases "(src, l, e)" rule: justified.cases) (simp_all, (meson granted_mono)+)

interpretation enforced: serving "justified src" src for src
  by unfold_locales (auto intro: justified_mono)

lemma answered_mono: "answered l e \<Longrightarrow> set l \<subseteq> set l' \<Longrightarrow> answered l' e"
  by (cases e) (auto simp: list_ex_iff)

interpretation audited: serving answered src for src
  by unfold_locales (auto simp: list_ex_iff intro: answered_mono)


text \<open>
  C6: every response and every chunk in the audit stream follows a request record of the same
  exchange, for every kind of connection and on every error path.
\<close>

theorem audit_answers_requests:
  assumes "run_state (serve env cfg cn) p = (u, p')" "px_log p = []" "px_log p' = pre @ e # post"
  shows "answered pre e"
  by (rule audited.serve_ok [OF refl assms])

text \<open>A TLS connection under a passthrough rule leaves no audit record at all when it succeeds.\<close>

theorem passthrough_unaudited:
  assumes "ev_dial env (dialTarget (Some r) (upstreamAddr host origDst)) (px_world p) = (Inr conn, w)"
  shows "px_log (snd (run_state (rawForwardTLS env remoteAddr host origDst r) p)) =
    px_log p @ [Dialled (dialTarget (Some r) (upstreamAddr host origDst)), Tunnel]"
  using assms by (simp add: rawForwardTLS_def dial_def log_ev_def modify_def ask_env_def)

text \<open>
  A request without a path, as an absolute target without one has, is admitted by a rule whatever
  methods and paths the rule lists.
\<close>

theorem empty_path_unlimited:
  assumes "e_Access r = ''allow''" "matchHost (e_Host r) host" "matchPort (e_Ports r) port" "host \<noteq> []"
  shows "match_allow (r # rs) method host port [] = Some r"
  using assms by (simp add: match_allow_def MatchEgress_def)

section \<open>A concrete proxy\<close>

definition open_rule :: EgressRule where
  "open_rule = \<lparr>e_Access = ''allow'', e_Host = ''a.io'', e_Ports = [], e_Methods = [], e_Paths = [], e_Override = None, e_OverrideScript = [], e_Passthrough = False\<rparr>"

definition open_policy :: policy_state where
  "open_policy = \<lparr>bySource = Some (\<lambda>s. if s = ''172.16.2.2'' then Some [open_rule] else None), denyWait = None\<rparr>"

definition ok_resp :: http_resp where
  "ok_resp = \<lparr>rs_status = 200, rs_headers = [], rs_gzipOk = True, rs_chunks = [''hi''], rs_residue = 0, rs_bodyErr = False, rs_close = False,
     rs_http11 = True, rs_buffered = 0\<rparr>"

definition live_env :: "unit px_env" where
  "live_env = \<lparr>ev_policy = (\<lambda>w. (open_policy, w)), ev_waits = (\<lambda>w. ([], w)), ev_dial = (\<lambda>a w. (Inr 1, w)), ev_handshake = (\<lambda>h n c w. (None, w)),
     ev_write = (\<lambda>c w. (None, w)), ev_read = (\<lambda>c w. (Inr ok_resp, w)), ev_roundTrip = (\<lambda>r w. (Inr ok_resp, w)), ev_client = (\<lambda>w. (None, w)),
     ev_accept = (\<lambda>w. (Inr False, w)), ev_request = (\<lambda>w. (Inl ([], []), w)), ev_streams = (\<lambda>w. ([], w)), ev_now = (\<lambda>w. (0, w)),
     ev_alive = (\<lambda>w. (\<lambda>_. True, w))\<rparr>"

definition live_cfg :: px_cfg where
  "live_cfg = \<lparr>pf_minter = True, pf_passthroughAll = False, pf_js = no_json, pf_lua = no_script, pf_decode = (\<lambda>e b. b), pf_mediaType = (\<lambda>s. s)\<rparr>"

definition idle_px :: "unit px" where
  "idle_px = \<lparr>px_seq = 0, px_pool = newUpstreamPool False, px_log = [], px_world = ()\<rparr>"

definition connect_req :: http_req where
  "connect_req = plain_req\<lparr>hr_method := ''CONNECT'', hr_host := ''a.io:443''\<rparr>"

definition connected_px :: "unit px" where
  "connected_px = snd (run_state (serve live_env live_cfg (Explicit ''172.16.2.2:4000'' connect_req)) idle_px)"

fun dialled_at :: "pxev \<Rightarrow> string option" where
  "dialled_at (Dialled a) = Some a"
| "dialled_at e = None"

fun response_to :: "pxev \<Rightarrow> nat option" where
  "response_to (Audited a) = (if au_phase a = PhResponse then Some (ac_id (au_ctx a)) else None)"
| "response_to e = None"

lemma connected_run: "run_state (serve live_env live_cfg (Explicit ''172.16.2.2:4000'' connect_req)) idle_px = ((), connected_px)"
  by (simp add: connected_px_def prod_eq_iff)

lemma idle_log: "px_log idle_px = []"
  by (simp add: idle_px_def)

lemma connected_log: "map dialled_at (px_log connected_px) = [None, Some ''a.io:443'', None, None, None, None]"
  "map response_to (px_log connected_px) = [None, None, None, None, None, Some 1]"
  by code_simp+

lemma log_split: "map f l = xs @ Some a # ys \<Longrightarrow> \<exists>pre e post. l = pre @ e # post \<and> f e = Some a"
  by (force simp: map_eq_append_conv map_eq_Cons_conv)


theorem audit_answers_requests_witness:
  "\<exists>pre e post. px_log connected_px = pre @ e # post \<and> response_to e = Some 1 \<and> answered pre e"
proof -
  obtain pre e post where l: "px_log connected_px = pre @ e # post" "response_to e = Some 1"
    using log_split [of response_to "px_log connected_px" "[None, None, None, None, None]"] connected_log(2) by auto
  then show ?thesis using audit_answers_requests [OF connected_run idle_log l(1)] by blast
qed

text \<open>
  A WebSocket upgrade inside an intercepted connection is sent as the agent wrote it: the header the
  override put on the request is not in the bytes the upstream gets.
\<close>

definition upgrade_req :: http_req where
  "upgrade_req = plain_req\<lparr>hr_method := ''GET'', hr_headers := [(''Upgrade'', [''websocket'']), (''Connection'', [''Upgrade''])]\<rparr>"

definition secured_req :: http_req where
  "secured_req = the (applyOverride no_json (Some (key_override\<lparr>ov_PrefixPath := []\<rparr>)) upgrade_req)"

definition upgrade_bytes :: string where
  "upgrade_bytes = ''GET /p HTTP/1.1'' @ crlf @ ''Upgrade: websocket'' @ crlf @ crlf"

fun raw_sent :: "pxev \<Rightarrow> string option" where
  "raw_sent (Sent c (SentRaw req b)) = Some b"
| "raw_sent e = None"

definition blank_ctx :: auditCtx where
  "blank_ctx = \<lparr>ac_id = 1, ac_src = [], ac_method = [], ac_host = [], ac_path = [], ac_query = [], ac_requestHeaders = [], ac_requestBody = [],
     ac_responseHeaders = [], ac_upstream = []\<rparr>"

theorem upgrade_sent_verbatim:
  "header_get ''Authorization'' (hr_headers secured_req) = ''s'' \<and>
   List.map_filter raw_sent (px_log (snd (run_state (forwardHTTP live_env live_cfg 1 secured_req (Some upgrade_bytes) blank_ctx False) idle_px))) = [upgrade_bytes]"
  by code_simp

end
