(* ===== verification/Config_Apply.thy ===== *)
theory Config_Apply
  imports Broker Egress
begin

text \<open>
  Changing the configuration of a running sandbox: the request handler
  (\<^verbatim>\<open>internal/api/handlers/config.go\<close>), the store (\<^verbatim>\<open>internal/api/config_store.go\<close>), the reported
  difference (\<^verbatim>\<open>internal/api/diff.go\<close>), and the goroutine of \<^verbatim>\<open>createPacked\<close>
  (\<^verbatim>\<open>internal/sandboxd/packed.go\<close>) that hears of a change over the sandbox's event broker and carries it
  out.
\<close>

section \<open>The configuration\<close>

text \<open>A file system is a JSON object: the members every variant has, and the others by name and
  text.  \<open>None\<close> are absent members.\<close>

record ACLRule =
  acl_Path :: string
  acl_Access :: string

record FileSystem =
  f_Mount :: string
  f_Backend :: string
  f_Acls :: "ACLRule list option"
  f_Members :: "(string \<times> string) list"

record SandboxConfig =
  c_Cpu :: "string option"
  c_Cwd :: "string option"
  c_Egress :: "EgressRule list option"
  c_EgressDenyWait :: "int option"
  c_Entrypoint :: "string list option"
  c_Env :: "(string \<times> string) list option"
  c_Events :: "string list option"
  c_ExtraHosts :: "string list option"
  c_Fs :: "FileSystem list"
  c_Image :: "string option"
  c_Memory :: "int option"
  c_Mitm :: "bool option"
  c_Snapshot :: "string option"
  c_Ttl :: "int option"
  c_Tty :: "bool option"

definition backend_Valid :: "string \<Rightarrow> bool" where
  "backend_Valid e \<longleftrightarrow> e \<in> set [''azure'', ''external'', ''gcs'', ''gdrive'', ''local'', ''onedrive'', ''s3'']"

definition access_Valid :: "string \<Rightarrow> bool" where
  "access_Valid e \<longleftrightarrow> e \<in> set [''allow'', ''deny'']"

definition event_Valid :: "string \<Rightarrow> bool" where
  "event_Valid e \<longleftrightarrow> e \<in> set [''config.apply'', ''egress.chunk'', ''egress.request'', ''egress.response'', ''exec.request'',
     ''exec.response'', ''fs.request'', ''fs.response'', ''ingress.chunk'', ''ingress.request'', ''ingress.response'',
     ''resource.usage'', ''stdio'', ''system.config-changed'', ''system.fs-sync-request'', ''system.fs-sync-response'',
     ''system.shutdown'', ''system.start'', ''system.vm-resumed'']"

section \<open>The handler's checks\<close>

definition freezeImmutable :: "SandboxConfig \<Rightarrow> SandboxConfig \<Rightarrow> bool \<Rightarrow> SandboxConfig" where
  "freezeImmutable current desired started =
     (let desired = (case c_Image current of
            None \<Rightarrow> desired
          | Some img \<Rightarrow> if img \<noteq> [] then desired\<lparr>c_Image := c_Image current\<rparr> else desired)
      in if started then
           desired\<lparr>c_Cpu := c_Cpu current, c_Memory := c_Memory current, c_Entrypoint := c_Entrypoint current,
             c_Cwd := c_Cwd current, c_Tty := c_Tty current, c_Env := c_Env current\<rparr>
         else desired)"

datatype config_error = MountRequired nat | MountRelative nat string | BackendUnknown nat string
  | AccessInvalid nat string | EventUnknown nat string

fun check_fs :: "nat \<Rightarrow> FileSystem list \<Rightarrow> config_error option" where
  "check_fs i [] = None"
| "check_fs i (f # fs) =
     (if f_Mount f = [] then Some (MountRequired i)
      else if \<not> HasPrefix (f_Mount f) ''/'' then Some (MountRelative i (f_Mount f))
      else if \<not> backend_Valid (f_Backend f) then Some (BackendUnknown i (f_Backend f))
      else check_fs (Suc i) fs)"

fun check_rules :: "nat \<Rightarrow> EgressRule list \<Rightarrow> config_error option" where
  "check_rules i [] = None"
| "check_rules i (r # rs) =
     (if \<not> access_Valid (e_Access r) then Some (AccessInvalid i (e_Access r)) else check_rules (Suc i) rs)"

fun check_events :: "nat \<Rightarrow> string list \<Rightarrow> config_error option" where
  "check_events i [] = None"
| "check_events i (e # es) = (if \<not> event_Valid e then Some (EventUnknown i e) else check_events (Suc i) es)"

definition validateConfig :: "SandboxConfig \<Rightarrow> config_error option" where
  "validateConfig cfg =
     (case check_fs 0 (c_Fs cfg) of
        Some e \<Rightarrow> Some e
      | None \<Rightarrow>
          (case (case c_Egress cfg of None \<Rightarrow> None | Some rs \<Rightarrow> check_rules 0 rs) of
             Some e \<Rightarrow> Some e
           | None \<Rightarrow> (case c_Events cfg of None \<Rightarrow> None | Some es \<Rightarrow> check_events 0 es)))"

text \<open>
  Defaults.  \<open>variant\<close> decodes an object into the structure of its backend and encodes that again; it
  is \<open>None\<close> when the members do not fit.  The configurations are slices, so the entries of the argument
  are replaced in place and the caller's value shows the defaults as well.
\<close>

definition default_rules :: "FileSystem \<Rightarrow> ACLRule list" where
  "default_rules f = [\<lparr>acl_Path = f_Mount f @ ''/**'', acl_Access = ''rw''\<rparr>]"

definition normalize_fs :: "(FileSystem \<Rightarrow> FileSystem option) \<Rightarrow> FileSystem \<Rightarrow> FileSystem" where
  "normalize_fs variant f =
     (if f_Acls f \<noteq> None \<and> f_Acls f \<noteq> Some [] then f
      else if \<not> backend_Valid (f_Backend f) then f
      else (case variant f of None \<Rightarrow> f | Some v \<Rightarrow> v\<lparr>f_Acls := Some (default_rules f)\<rparr>))"

definition normalizeConfig :: "(FileSystem \<Rightarrow> FileSystem option) \<Rightarrow> SandboxConfig \<Rightarrow> SandboxConfig" where
  "normalizeConfig variant cfg = cfg\<lparr>c_Fs := map (normalize_fs variant) (c_Fs cfg)\<rparr>"

section \<open>The difference of two configurations\<close>

record Changes =
  ch_FsAdded :: "FileSystem list"
  ch_FsRemoved :: "FileSystem list"
  ch_EgressAdded :: "EgressRule list"
  ch_EgressRemoved :: "EgressRule list"

text \<open>Later entries of one mount win, as in the map built by the loop.\<close>

definition indexFSByMount :: "FileSystem list \<Rightarrow> string \<rightharpoonup> FileSystem" where
  "indexFSByMount fs = foldl (\<lambda>m f. m(f_Mount f \<mapsto> f)) Map.empty fs"

definition changed_in :: "(string \<rightharpoonup> FileSystem) \<Rightarrow> FileSystem \<Rightarrow> bool" where
  "changed_in byMount f = (case byMount (f_Mount f) of None \<Rightarrow> True | Some g \<Rightarrow> g \<noteq> f)"

definition diffFS :: "FileSystem list \<Rightarrow> FileSystem list \<Rightarrow> FileSystem list \<times> FileSystem list" where
  "diffFS current desired =
     (filter (changed_in (indexFSByMount current)) desired, filter (changed_in (indexFSByMount desired)) current)"

definition containsEgressRule :: "EgressRule list \<Rightarrow> EgressRule \<Rightarrow> bool" where
  "containsEgressRule rules r = list_ex (\<lambda>x. x = r) rules"

definition diffEgress :: "EgressRule list \<Rightarrow> EgressRule list \<Rightarrow> EgressRule list \<times> EgressRule list" where
  "diffEgress current desired =
     (filter (\<lambda>r. \<not> containsEgressRule current r) desired, filter (\<lambda>r. \<not> containsEgressRule desired r) current)"

definition derefEgress :: "EgressRule list option \<Rightarrow> EgressRule list" where
  "derefEgress e = (case e of None \<Rightarrow> [] | Some rs \<Rightarrow> rs)"

definition diffConfig :: "SandboxConfig \<Rightarrow> SandboxConfig \<Rightarrow> Changes" where
  "diffConfig current desired =
     (case diffFS (c_Fs current) (c_Fs desired) of (addedFS, removedFS) \<Rightarrow>
      case diffEgress (derefEgress (c_Egress current)) (derefEgress (c_Egress desired)) of (addedE, removedE) \<Rightarrow>
        \<lparr>ch_FsAdded = addedFS, ch_FsRemoved = removedFS, ch_EgressAdded = addedE, ch_EgressRemoved = removedE\<rparr>)"

section \<open>Requests, store, broker and reconciler\<close>

datatype config_event = ConfigApply bool Changes | ConfigChanged SandboxConfig | OtherEvent string

fun config_kind :: "config_event \<Rightarrow> string option" where
  "config_kind (ConfigApply success changes) = Some ''config.apply''"
| "config_kind (ConfigChanged cfg) = Some ''system.config-changed''"
| "config_kind (OtherEvent typ) = Some typ"

text \<open>A request in flight, by what it has left to do: the frozen configuration is to be applied; its
  filter set; its two events published.\<close>

datatype apply_pc = PcApply SandboxConfig | PcFilter SandboxConfig Changes | PcApplied SandboxConfig Changes | PcChanged SandboxConfig Changes

datatype apply_answer = BadRequest config_error | ApplyConflict | ApplyResult SandboxConfig Changes

record config_sys =
  cs_cfg :: SandboxConfig
  cs_started :: bool
  cs_broker :: "config_event broker"
  cs_requests :: "apply_pc list"
  cs_answers :: "apply_answer list"
  cs_chan :: "nat option"
  cs_enforced :: SandboxConfig
  cs_missed :: bool

text \<open>\<^verbatim>\<open>ApplyConfig\<close> up to the store: the body is checked, the current configuration read and the
  committed members put back.\<close>

definition apply_request :: "SandboxConfig \<Rightarrow> config_sys \<Rightarrow> config_sys" where
  "apply_request desired s =
     (case validateConfig desired of
        Some e \<Rightarrow> s\<lparr>cs_answers := cs_answers s @ [BadRequest e]\<rparr>
      | None \<Rightarrow> s\<lparr>cs_requests := cs_requests s @ [PcApply (freezeImmutable (cs_cfg s) desired (cs_started s))]\<rparr>)"

text \<open>\<^verbatim>\<open>ConfigStore.Apply\<close>, with the lock taken.\<close>

definition store_Apply :: "SandboxConfig \<Rightarrow> config_sys \<Rightarrow> Changes \<times> config_sys" where
  "store_Apply desired s = (diffConfig (cs_cfg s) desired, s\<lparr>cs_cfg := desired\<rparr>)"

definition publish_event :: "config_event \<Rightarrow> int \<Rightarrow> config_sys \<Rightarrow> config_sys" where
  "publish_event ev now s = s\<lparr>cs_broker := snd (Publish config_kind (\<lambda>i t. ev) now (cs_broker s))\<rparr>"

text \<open>The entry the reconciler was offered arrived in its channel.\<close>

definition in_channel :: "config_sys \<Rightarrow> config_event \<Rightarrow> int \<Rightarrow> bool" where
  "in_channel s ev i =
     (case cs_chan s of None \<Rightarrow> False | Some c \<Rightarrow> \<lparr>en_ID = i, en_Event = ev\<rparr> \<in> set (ch_buf (chans (cs_broker s) ! c)))"

definition apply_next :: "(FileSystem \<Rightarrow> FileSystem option) \<Rightarrow> int \<Rightarrow> apply_pc \<Rightarrow> config_sys \<Rightarrow> apply_pc option \<times> config_sys" where
  "apply_next variant now pc s =
     (case pc of
        PcApply desired \<Rightarrow>
          (let desired = normalizeConfig variant desired in
           case store_Apply desired s of (changes, s1) \<Rightarrow> (Some (PcFilter desired changes), s1))
      | PcFilter postState changes \<Rightarrow>
          (Some (PcApplied postState changes), s\<lparr>cs_broker := SetFilter (FilterFromConfig (c_Events postState)) (cs_broker s)\<rparr>)
      | PcApplied postState changes \<Rightarrow>
          (let s1 = publish_event (ConfigApply True changes) now s
           in (Some (PcChanged postState changes),
               s1\<lparr>cs_missed := cs_missed s \<or> \<not> in_channel s1 (ConfigApply True changes) (nextID (cs_broker s1))\<rparr>))
      | PcChanged postState changes \<Rightarrow>
          (let s1 = publish_event (ConfigChanged postState) now s
           in (None, s1\<lparr>cs_answers := cs_answers s1 @ [ApplyResult postState changes]\<rparr>)))"

text \<open>One turn of the reconciler: an entry of its channel; a successful change is carried out from the
  configuration the store has by then, if that can be decoded (\<open>specFromConfig\<close>).\<close>

definition reconcile_turn :: "(SandboxConfig \<Rightarrow> bool) \<Rightarrow> nat \<Rightarrow> config_sys \<Rightarrow> config_sys" where
  "reconcile_turn decodes c s =
     (case receive c (cs_broker s) of
        (None, b) \<Rightarrow> s
      | (Some e, b) \<Rightarrow>
          (case en_Event e of
             ConfigApply True changes \<Rightarrow>
               if decodes (cs_cfg s) then s\<lparr>cs_broker := b, cs_enforced := cs_cfg s\<rparr> else s\<lparr>cs_broker := b\<rparr>
           | _ \<Rightarrow> s\<lparr>cs_broker := b\<rparr>))"

definition reconcile_subscribe :: "config_sys \<Rightarrow> config_sys" where
  "reconcile_subscribe s =
     (case Subscribe 0 (cs_broker s) of ((replay, c, f), b) \<Rightarrow> s\<lparr>cs_broker := b, cs_chan := Some c\<rparr>)"

inductive config_step :: "(FileSystem \<Rightarrow> FileSystem option) \<Rightarrow> (SandboxConfig \<Rightarrow> bool) \<Rightarrow> config_sys \<Rightarrow> config_sys \<Rightarrow> bool"
  for variant decodes where
  cs_request: "config_step variant decodes s (apply_request desired s)"
| cs_refused: "cs_requests s = as @ PcApply d # bs \<Longrightarrow>
    config_step variant decodes s (s\<lparr>cs_requests := as @ bs, cs_answers := cs_answers s @ [ApplyConflict]\<rparr>)"
| cs_advance: "cs_requests s = as @ pc # bs \<Longrightarrow> apply_next variant now pc s = (next, s') \<Longrightarrow>
    config_step variant decodes s (s'\<lparr>cs_requests := as @ (case next of None \<Rightarrow> [] | Some pc' \<Rightarrow> [pc']) @ bs\<rparr>)"
| cs_subscribe: "cs_chan s = None \<Longrightarrow> config_step variant decodes s (reconcile_subscribe s)"
| cs_reconcile: "cs_chan s = Some c \<Longrightarrow> config_step variant decodes s (reconcile_turn decodes c s)"
| cs_traffic: "typ \<noteq> ''config.apply'' \<Longrightarrow> config_step variant decodes s (publish_event (OtherEvent typ) now s)"

text \<open>A created sandbox: its store has the configuration it was created with, which is also what is
  enforced, and its broker filters by it.\<close>

definition config_init :: "SandboxConfig \<Rightarrow> config_sys \<Rightarrow> bool" where
  "config_init cfg s \<longleftrightarrow> (\<exists>now. s = \<lparr>cs_cfg = cfg, cs_started = True,
     cs_broker = snd (PublishSilent config_kind (\<lambda>i t. OtherEvent ''system.start'') now
       (SetFilter (FilterFromConfig (c_Events cfg)) (New DefaultCapacity 0))),
     cs_requests = [], cs_answers = [], cs_chan = None, cs_enforced = cfg, cs_missed = False\<rparr>)"

section \<open>Committed members stay\<close>

text \<open>The members a launched workload has been given, and the image.\<close>

definition committed :: "SandboxConfig \<Rightarrow> SandboxConfig \<Rightarrow> bool" where
  "committed c0 c \<longleftrightarrow> c_Cpu c = c_Cpu c0 \<and> c_Memory c = c_Memory c0 \<and> c_Entrypoint c = c_Entrypoint c0 \<and> c_Cwd c = c_Cwd c0 \<and>
     c_Tty c = c_Tty c0 \<and> c_Env c = c_Env c0 \<and> (c_Image c0 \<noteq> None \<and> c_Image c0 \<noteq> Some [] \<longrightarrow> c_Image c = c_Image c0)"

lemma freeze_committed: "committed c0 cur \<Longrightarrow> committed c0 (freezeImmutable cur d True)"
  by (auto simp: committed_def freezeImmutable_def Let_def split: option.splits)

lemma normalize_committed [simp]: "committed c0 (normalizeConfig v c) = committed c0 c"
  by (simp add: committed_def normalizeConfig_def)

fun pc_config :: "apply_pc \<Rightarrow> SandboxConfig" where
  "pc_config (PcApply c) = c"
| "pc_config (PcFilter c ch) = c"
| "pc_config (PcApplied c ch) = c"
| "pc_config (PcChanged c ch) = c"

definition answer_committed :: "SandboxConfig \<Rightarrow> apply_answer \<Rightarrow> bool" where
  "answer_committed c0 a = (case a of ApplyResult c ch \<Rightarrow> committed c0 c | _ \<Rightarrow> True)"

definition all_committed :: "SandboxConfig \<Rightarrow> config_sys \<Rightarrow> bool" where
  "all_committed c0 s \<longleftrightarrow> cs_started s \<and> committed c0 (cs_cfg s) \<and> list_all (\<lambda>pc. committed c0 (pc_config pc)) (cs_requests s) \<and>
     list_all (answer_committed c0) (cs_answers s) \<and> committed c0 (cs_enforced s)"

lemma apply_next_committed:
  assumes "apply_next v now pc s = (nxt, s')" "all_committed c0 s" "committed c0 (pc_config pc)"
  shows "all_committed c0 (s'\<lparr>cs_requests := cs_requests s\<rparr>) \<and> (\<forall>pc'. nxt = Some pc' \<longrightarrow> committed c0 (pc_config pc'))"
  using assms
  by (cases pc) (auto simp: apply_next_def all_committed_def store_Apply_def publish_event_def answer_committed_def Let_def)

lemma config_step_committed:
  assumes "config_step v dec s t" "all_committed c0 s"
  shows "all_committed c0 t"
  using assms(1)
proof cases
  case (cs_request d)
  then show ?thesis using assms(2) freeze_committed
    by (auto simp: apply_request_def all_committed_def answer_committed_def split: option.splits)
next
  case (cs_refused xs d ys)
  then show ?thesis using assms(2) by (auto simp: all_committed_def answer_committed_def)
next
  case (cs_advance xs pc ys now nxt s')
  have "committed c0 (pc_config pc)" using assms(2) cs_advance(2) by (simp add: all_committed_def)
  then show ?thesis using apply_next_committed [OF cs_advance(3) assms(2)] assms(2) cs_advance(1,2)
    by (auto simp: all_committed_def split: option.splits)
next
  case cs_subscribe
  then show ?thesis using assms(2) by (auto simp: all_committed_def reconcile_subscribe_def split: prod.splits)
next
  case (cs_reconcile c)
  then show ?thesis using assms(2)
    by (auto simp: all_committed_def reconcile_turn_def split: prod.splits option.splits config_event.splits bool.splits)
next
  case (cs_traffic ty now)
  then show ?thesis using assms(2) by (simp add: all_committed_def publish_event_def)
qed

interpretation committing: invariant_system "config_init c0" "config_step v dec" "all_committed c0" for c0 v dec
  by (unfold_locales, (auto simp: config_init_def all_committed_def committed_def)[1], rule config_step_committed)

section \<open>Announced changes\<close>

definition announced :: "config_sys \<Rightarrow> bool" where
  "announced s \<longleftrightarrow> (\<exists>c e ch. cs_chan s = Some c \<and> e \<in> set (ch_buf (chans (cs_broker s) ! c)) \<and> en_Event e = ConfigApply True ch)"

fun to_announce :: "apply_pc \<Rightarrow> bool" where
  "to_announce (PcFilter c ch) = True"
| "to_announce (PcApplied c ch) = True"
| "to_announce _ = False"

definition change_under_way :: "config_sys \<Rightarrow> bool" where
  "change_under_way s \<longleftrightarrow> list_ex to_announce (cs_requests s) \<or> announced s"

definition change_tracked :: "(SandboxConfig \<Rightarrow> bool) \<Rightarrow> config_sys \<Rightarrow> bool" where
  "change_tracked dec s \<longleftrightarrow> cs_missed s \<or> \<not> dec (cs_cfg s) \<or> cs_enforced s = cs_cfg s \<or> change_under_way s"

text \<open>Publishing only adds to the channels.\<close>

lemma offers_extend: "set (ch_buf (cs ! c)) \<subseteq> set (ch_buf (fold (\<lambda>(i, c) cs. cs[c := offer e (cs ! c)]) ss cs ! c))"
proof (induction ss arbitrary: cs)
  case (Cons x xs)
  have "set (ch_buf (cs ! c)) \<subseteq> set (ch_buf (cs[snd x := offer e (cs ! snd x)] ! c))"
    by (cases "snd x = c"; cases "c < length cs") (auto simp: offer_def list_update_beyond)
  then show ?case using Cons [of "cs[snd x := offer e (cs ! snd x)]"] by (auto simp: case_prod_beta)
qed simp

lemma publish_extends: "set (ch_buf (chans b ! c)) \<subseteq> set (ch_buf (chans (snd (Publish disc build now b)) ! c))"
  using offers_extend [of "chans b" c]
  by (auto simp: Publish_def publish_def fan_out_def Let_def split: option.splits)

lemma announced_publish: "announced s \<Longrightarrow> announced (publish_event ev now s)"
  using publish_extends by (fastforce simp: announced_def publish_event_def)

lemma offers_only:
  "x \<in> set (ch_buf (fold (\<lambda>(i, c) cs. cs[c := offer e (cs ! c)]) ss cs ! c)) \<Longrightarrow> x = e \<or> x \<in> set (ch_buf (cs ! c))"
proof (induction ss arbitrary: cs)
  case (Cons y ys)
  let ?cs = "cs[snd y := offer e (cs ! snd y)]"
  have "x = e \<or> x \<in> set (ch_buf (?cs ! c))" using Cons.IH [of ?cs] Cons.prems by (cases y) simp
  then show ?case by (cases "snd y = c"; cases "c < length cs") (auto simp: offer_def list_update_beyond split: if_splits)
qed simp

lemma announced_changed:
  assumes "announced (publish_event (ConfigChanged cfg) now s)"
  shows "announced s"
proof -
  obtain c e ch where e: "cs_chan s = Some c" "e \<in> set (ch_buf (chans (snd (Publish config_kind (\<lambda>i t. ConfigChanged cfg) now (cs_broker s))) ! c))"
    "en_Event e = ConfigApply True ch" using assms by (auto simp: announced_def publish_event_def)
  then have "e \<in> set (ch_buf (chans (cs_broker s) ! c))"
    by (auto simp: Publish_def publish_def fan_out_def Let_def dest!: offers_only split: if_splits)
  then show ?thesis using e by (auto simp: announced_def)
qed

lemma announced_arrived: "in_channel s (ConfigApply True ch) i \<Longrightarrow> announced s"
  by (auto simp: in_channel_def announced_def split: option.splits)

lemma announced_cong:
  "cs_chan t = cs_chan s \<Longrightarrow> chans (cs_broker t) = chans (cs_broker s) \<Longrightarrow> announced t = announced s"
  by (simp add: announced_def)

lemma apply_next_tracked:
  assumes "apply_next v now pc s = (nxt, s')" "cs_requests s = as @ pc # bs" "change_tracked dec s"
  shows "change_tracked dec (s'\<lparr>cs_requests := as @ (case nxt of None \<Rightarrow> [] | Some pc' \<Rightarrow> [pc']) @ bs\<rparr>)"
proof (cases pc)
  case (PcApply d)
  then show ?thesis using assms by (auto simp: apply_next_def store_Apply_def change_tracked_def change_under_way_def Let_def)
next
  case (PcFilter c ch)
  then show ?thesis using assms by (auto simp: apply_next_def change_tracked_def change_under_way_def)
next
  case (PcApplied c ch)
  let ?s1 = "publish_event (ConfigApply True ch) now s"
  show ?thesis
  proof (cases "in_channel ?s1 (ConfigApply True ch) (nextID (cs_broker ?s1))")
    case True
    then have "announced ?s1" by (rule announced_arrived)
    moreover have "nxt = Some (PcChanged c ch)" "cs_chan s' = cs_chan ?s1" "cs_broker s' = cs_broker ?s1"
      using assms(1) PcApplied by (auto simp: apply_next_def Let_def)
    ultimately show ?thesis by (simp add: change_tracked_def change_under_way_def announced_def)
  next
    case False
    then show ?thesis using assms(1) PcApplied by (auto simp: apply_next_def change_tracked_def Let_def)
  qed
next
  case (PcChanged c ch)
  let ?s1 = "publish_event (ConfigChanged c) now s"
  have e: "nxt = None" "cs_chan s' = cs_chan ?s1" "cs_broker s' = cs_broker ?s1" "cs_cfg s' = cs_cfg s"
    "cs_enforced s' = cs_enforced s" "cs_missed s' = cs_missed s"
    using assms(1) PcChanged by (auto simp: apply_next_def publish_event_def Let_def)
  show ?thesis using assms(2,3) e announced_publish [of s "ConfigChanged c" now] PcChanged
    by (auto simp: change_tracked_def change_under_way_def announced_def)
qed

lemma reconcile_tracked:
  assumes "cs_chan s = Some c" "change_tracked dec s"
  shows "change_tracked dec (reconcile_turn dec c s)"
proof (cases "ch_buf (chans (cs_broker s) ! c)")
  case Nil
  then show ?thesis using assms by (simp add: reconcile_turn_def receive_def)
next
  case (Cons e es)
  show ?thesis
  proof (cases "\<exists>ch. en_Event e = ConfigApply True ch")
    case True
    then show ?thesis using assms Cons by (auto simp: reconcile_turn_def receive_def change_tracked_def)
  next
    case False
    let ?t = "s\<lparr>cs_broker := snd (receive c (cs_broker s))\<rparr>"
    have t: "reconcile_turn dec c s = ?t" using Cons False
      by (auto simp: reconcile_turn_def receive_def split: config_event.splits bool.splits)
    have "announced s \<Longrightarrow> announced ?t"
      using Cons False assms(1) by (cases "c < length (chans (cs_broker s))") (auto simp: announced_def receive_def list_update_beyond)
    then show ?thesis using assms(2) unfolding t by (auto simp: change_tracked_def change_under_way_def)
  qed
qed

lemma config_step_tracked:
  assumes "config_step v dec s t" "change_tracked dec s"
  shows "change_tracked dec t"
  using assms(1)
proof cases
  case (cs_request d)
  then show ?thesis using assms(2)
    by (auto simp: apply_request_def change_tracked_def change_under_way_def announced_def split: option.splits)
next
  case (cs_refused xs d ys)
  then show ?thesis using assms(2) by (auto simp: change_tracked_def change_under_way_def announced_def)
next
  case (cs_advance xs pc ys now nxt s')
  then show ?thesis using apply_next_tracked assms(2) by blast
next
  case cs_subscribe
  then show ?thesis using assms(2)
    by (auto simp: reconcile_subscribe_def change_tracked_def change_under_way_def announced_def split: prod.splits)
next
  case (cs_reconcile c)
  then show ?thesis using reconcile_tracked assms(2) by simp
next
  case (cs_traffic ty now)
  then show ?thesis using assms(2) announced_publish [of s "OtherEvent ty" now]
    by (auto simp: change_tracked_def change_under_way_def publish_event_def)
qed

interpretation tracking: invariant_system "config_init c0" "config_step v dec" "change_tracked dec" for c0 v dec
  by (unfold_locales, (auto simp: config_init_def change_tracked_def)[1], rule config_step_tracked)

section \<open>When an announcement arrives\<close>

lemma offers_arrive:
  assumes "c \<in> snd ` set ss" "c < length cs" "length (ch_buf (cs ! c)) < ch_cap (cs ! c)"
  shows "e \<in> set (ch_buf (fold (\<lambda>(i, c) cs. cs[c := offer e (cs ! c)]) ss cs ! c))"
  using assms
proof (induction ss arbitrary: cs)
  case (Cons x xs)
  let ?cs = "cs[snd x := offer e (cs ! snd x)]"
  show ?case
  proof (cases "snd x = c")
    case True
    then have "e \<in> set (ch_buf (?cs ! c))" using Cons.prems by (simp add: offer_def)
    then show ?thesis using offers_extend [of ?cs c e xs] by (cases x) auto
  next
    case False
    then show ?thesis using Cons.IH [of ?cs] Cons.prems by (cases x) auto
  qed
qed simp

lemma announcement_arrives:
  assumes "cs_chan s = Some c" "c \<in> snd ` set (subs (cs_broker s))" "c < length (chans (cs_broker s))"
    and "length (ch_buf (chans (cs_broker s) ! c)) < ch_cap (chans (cs_broker s) ! c)"
    and "Observes (cs_broker s) ''config.apply''"
  shows "in_channel (publish_event (ConfigApply True ch) now s) (ConfigApply True ch) (nextID (cs_broker s) + 1)"
  using assms offers_arrive [OF assms(2-4)]
  by (auto simp: in_channel_def publish_event_def Publish_def publish_def fan_out_def Observes_def observesLocked_def Let_def
      split: option.splits)

lemma filtered_announcement:
  assumes "\<not> Observes (cs_broker s) ''config.apply''"
  shows "chans (cs_broker (publish_event (ConfigApply True ch) now s)) = chans (cs_broker s)"
  using assms by (auto simp: publish_event_def Publish_def publish_def Observes_def observesLocked_def Let_def)

lemma announced_filtered:
  assumes "\<not> Observes (cs_broker s) ''config.apply''"
  shows "announced (publish_event (ConfigApply True ch) now s) = announced s"
  by (rule announced_cong) (simp add: publish_event_def, rule filtered_announcement [OF assms])

section \<open>The reported difference\<close>

lemma index_foldl: "foldl (\<lambda>m f. m(f_Mount f \<mapsto> f)) m fs = m ++ map_of (rev (map (\<lambda>f. (f_Mount f, f)) fs))"
  by (induction fs arbitrary: m) (simp_all add: map_add_def fun_eq_iff split: option.splits)

lemma index_distinct:
  assumes "distinct (map f_Mount fs)"
  shows "indexFSByMount fs m = Some f \<longleftrightarrow> f \<in> set fs \<and> f_Mount f = m"
proof -
  have "map prod.fst (rev (map (\<lambda>f. (f_Mount f, f)) fs)) = rev (map f_Mount fs)" by (simp add: rev_map)
  then have "distinct (map prod.fst (rev (map (\<lambda>f. (f_Mount f, f)) fs)))" using assms by (metis distinct_rev)
  from map_of_eq_Some_iff [OF this] show ?thesis by (auto simp: indexFSByMount_def index_foldl)
qed

lemma changed_in_distinct: "distinct (map f_Mount fs) \<Longrightarrow> changed_in (indexFSByMount fs) f \<longleftrightarrow> f \<notin> set fs"
  using index_distinct [of fs "f_Mount f" f] by (auto simp: changed_in_def split: option.splits)

lemma contains_iff [simp]: "containsEgressRule rules r \<longleftrightarrow> r \<in> set rules"
  by (auto simp: containsEgressRule_def list_ex_iff)

section \<open>Runs\<close>

definition advance :: "(FileSystem \<Rightarrow> FileSystem option) \<Rightarrow> int \<Rightarrow> config_sys \<Rightarrow> config_sys" where
  "advance variant now s =
     (case cs_requests s of
        [] \<Rightarrow> s
      | pc # rest \<Rightarrow> (case apply_next variant now pc s of (nxt, s') \<Rightarrow>
          s'\<lparr>cs_requests := (case nxt of None \<Rightarrow> [] | Some pc' \<Rightarrow> [pc']) @ rest\<rparr>))"

lemma reach_advance:
  assumes "reachable I (config_step v dec) s"
  shows "reachable I (config_step v dec) (advance v now s)"
proof (cases "cs_requests s")
  case Nil
  then show ?thesis using assms by (simp add: advance_def)
next
  case (Cons pc rest)
  obtain nxt s' where n: "apply_next v now pc s = (nxt, s')" by fastforce
  have "config_step v dec s (advance v now s)"
    using cs_advance [where as = "[]" and bs = rest and variant = v and decodes = dec, of s pc now nxt s'] Cons n by (simp add: advance_def)
  then show ?thesis by (rule reach_next [OF assms])
qed

definition apply_run :: "(FileSystem \<Rightarrow> FileSystem option) \<Rightarrow> SandboxConfig \<Rightarrow> config_sys \<Rightarrow> config_sys" where
  "apply_run variant d s = advance variant 4 (advance variant 3 (advance variant 2 (advance variant 1 (apply_request d s))))"

lemma reach_apply_run:
  "reachable I (config_step v dec) s \<Longrightarrow> reachable I (config_step v dec) (apply_run v d s)"
  unfolding apply_run_def by (intro reach_advance, rule reach_next, assumption, rule cs_request)

definition created :: "SandboxConfig \<Rightarrow> config_sys" where
  "created cfg = \<lparr>cs_cfg = cfg, cs_started = True,
     cs_broker = snd (PublishSilent config_kind (\<lambda>i t. OtherEvent ''system.start'') 0
       (SetFilter (FilterFromConfig (c_Events cfg)) (New DefaultCapacity 0))),
     cs_requests = [], cs_answers = [], cs_chan = None, cs_enforced = cfg, cs_missed = False\<rparr>"

lemma reach_created: "reachable (config_init c0) (config_step v dec) (created c0)"
  by (rule reach_init) (auto simp: config_init_def created_def)

lemma reach_subscribed: "reachable (config_init c0) (config_step v dec) (reconcile_subscribe (created c0))"
  by (rule reach_next [OF reach_created cs_subscribe]) (simp add: created_def)

lemmas run_defs = apply_run_def advance_def apply_request_def apply_next_def store_Apply_def publish_event_def
  reconcile_subscribe_def created_def Let_def

section \<open>Properties\<close>



text \<open>
  The difference an application reports takes the old configuration to the new one: the new file
  systems are the old ones without the removed and with the added, and so are the rules as a set;
  nothing is reported as added that was there or as removed that stays.
\<close>

theorem diff_exact:
  assumes "distinct (map f_Mount (c_Fs current))" "distinct (map f_Mount (c_Fs desired))"
  shows "let d = diffConfig current desired in
    set (c_Fs desired) = set (c_Fs current) - set (ch_FsRemoved d) \<union> set (ch_FsAdded d) \<and>
    set (derefEgress (c_Egress desired)) =
      set (derefEgress (c_Egress current)) - set (ch_EgressRemoved d) \<union> set (ch_EgressAdded d) \<and>
    set (ch_FsAdded d) \<inter> set (c_Fs current) = {} \<and> set (ch_FsRemoved d) \<inter> set (c_Fs desired) = {} \<and>
    set (ch_EgressAdded d) \<inter> set (derefEgress (c_Egress current)) = {} \<and>
    set (ch_EgressRemoved d) \<inter> set (derefEgress (c_Egress desired)) = {}"
  using assms by (auto simp: Let_def diffConfig_def diffFS_def diffEgress_def changed_in_distinct)

text \<open>The configurations of the instances.\<close>

definition plain_config :: SandboxConfig where
  "plain_config = \<lparr>c_Cpu = None, c_Cwd = None, c_Egress = None, c_EgressDenyWait = None, c_Entrypoint = None, c_Env = None,
     c_Events = None, c_ExtraHosts = None, c_Fs = [], c_Image = Some ''img'', c_Memory = Some 512, c_Mitm = None, c_Snapshot = None,
     c_Ttl = None, c_Tty = None\<rparr>"

definition allow_rule :: "string \<Rightarrow> EgressRule" where
  "allow_rule h = \<lparr>e_Access = ''allow'', e_Host = h, e_Ports = [], e_Methods = [], e_Paths = [], e_Override = None,
     e_OverrideScript = [], e_Passthrough = False\<rparr>"

definition wider_config :: SandboxConfig where
  "wider_config = plain_config\<lparr>c_Egress := Some [allow_rule ''a.org''], c_Image := Some ''other'', c_Memory := Some 9\<rparr>"

definition applied_run :: config_sys where
  "applied_run = reconcile_turn (\<lambda>_. True) 0 (reconcile_turn (\<lambda>_. True) 0
     (apply_run Some wider_config (reconcile_subscribe (created plain_config))))"

lemma reach_applied_run: "reachable (config_init plain_config) (config_step Some (\<lambda>_. True)) applied_run"
proof -
  let ?s = "apply_run Some wider_config (reconcile_subscribe (created plain_config))"
  have "cs_chan ?s = Some 0" "cs_chan (reconcile_turn (\<lambda>_. True) 0 ?s) = Some 0" by code_simp+
  then show ?thesis unfolding applied_run_def
    by (intro reach_next [OF reach_next [OF reach_apply_run [OF reach_subscribed] cs_reconcile] cs_reconcile])
qed



theorem diff_exact_witness:
  "set (ch_EgressAdded (diffConfig plain_config wider_config)) \<inter> set (derefEgress (c_Egress plain_config)) = {}
   \<and> ch_EgressAdded (diffConfig plain_config wider_config) = [allow_rule ''a.org'']"
  using diff_exact [of plain_config wider_config]
  by (simp add: plain_config_def wider_config_def diffConfig_def diffFS_def diffEgress_def derefEgress_def Let_def)

section \<open>Changes that are accepted and not carried out\<close>

text \<open>
  The reconciler hears of a change through the sandbox's own event stream.  When the new
  configuration limits that stream to types without \<^verbatim>\<open>config.apply\<close>, the filter is set before the
  event is published: the client is told the change was applied, the store reports it, and
  nothing carries it out.
\<close>

theorem unobserved_change_not_enforced:
  assumes "validateConfig d = None" "c_Events d = Some ts" "''config.apply'' \<notin> set ts"
  shows "\<exists>s. reachable (config_init c0) (config_step variant decodes) s \<and> cs_requests s = [] \<and>
    cs_cfg s = normalizeConfig variant (freezeImmutable c0 d True) \<and>
    cs_answers s = [ApplyResult (cs_cfg s) (diffConfig c0 (cs_cfg s))] \<and> cs_enforced s = c0 \<and> \<not> announced s"
proof -
  have "c_Events (freezeImmutable c0 d True) = Some ts"
    using assms(2) by (simp add: freezeImmutable_def Let_def split: option.splits)
  then have ev: "c_Events (normalizeConfig variant (freezeImmutable c0 d True)) = Some ts" by (simp add: normalizeConfig_def)
  let ?c = "normalizeConfig variant (freezeImmutable c0 d True)" and ?s1 = "reconcile_subscribe (created c0)"
  let ?s = "apply_run variant d ?s1" and ?ch = "diffConfig c0 (normalizeConfig variant (freezeImmutable c0 d True))"
  have s1: "cs_cfg ?s1 = c0" "cs_started ?s1" "cs_requests ?s1 = []" "cs_answers ?s1 = []" "cs_enforced ?s1 = c0" "\<not> announced ?s1"
    by (auto simp: reconcile_subscribe_def created_def Subscribe_def PublishSilent_def publish_def SetFilter_def New_def fan_out_def
        announced_def Let_def split: option.splits)
  let ?f = "?s1\<lparr>cs_cfg := ?c, cs_broker := SetFilter (Some ts) (cs_broker ?s1)\<rparr>"
  let ?p = "publish_event (ConfigChanged ?c) 4 (publish_event (ConfigApply True ?ch) 3 ?f)"
  have "\<not> announced ?f" using s1(6) by (simp add: announced_def SetFilter_def)
  moreover have "\<not> Observes (cs_broker ?f) ''config.apply''"
    using assms(3) by (auto simp: Observes_def observesLocked_def SetFilter_def list_ex_iff)
  ultimately have quiet: "\<not> announced ?p"
    using announced_filtered [of ?f ?ch 3] announced_changed by blast
  have run: "cs_requests ?s = []" "cs_cfg ?s = ?c" "cs_answers ?s = [ApplyResult ?c ?ch]" "cs_enforced ?s = c0"
    "cs_chan ?s = cs_chan ?p" "cs_broker ?s = cs_broker ?p"
    using s1 assms(1) ev by (simp_all add: apply_run_def advance_def apply_request_def apply_next_def store_Apply_def FilterFromConfig_def
        publish_event_def Let_def)
  then have "\<not> announced ?s" using quiet by (simp add: announced_def)
  then show ?thesis using run reach_apply_run [OF reach_subscribed] by (intro exI [of _ ?s]) simp
qed

text \<open>
  The reconciler subscribes in its own goroutine and discards what was published before: a change
  accepted earlier is announced to nobody.
\<close>

theorem early_change_not_enforced:
  assumes "validateConfig d = None"
  shows "\<exists>s. reachable (config_init c0) (config_step variant decodes) s \<and> cs_requests s = [] \<and> cs_chan s \<noteq> None \<and>
    cs_cfg s = normalizeConfig variant (freezeImmutable c0 d True) \<and>
    cs_answers s = [ApplyResult (cs_cfg s) (diffConfig c0 (cs_cfg s))] \<and> cs_enforced s = c0 \<and> \<not> announced s"
proof -
  let ?c = "normalizeConfig variant (freezeImmutable c0 d True)"
  let ?a = "apply_run variant d (created c0)"
  have run: "cs_requests ?a = []" "cs_cfg ?a = ?c" "cs_answers ?a = [ApplyResult ?c (diffConfig c0 ?c)]" "cs_enforced ?a = c0" "cs_chan ?a = None"
    using assms by (simp_all add: apply_run_def created_def advance_def apply_request_def apply_next_def store_Apply_def publish_event_def Let_def)
  have "reachable (config_init c0) (config_step variant decodes) (reconcile_subscribe ?a)"
    by (rule reach_next [OF reach_apply_run [OF reach_created] cs_subscribe]) (rule run(5))
  then show ?thesis using run
    by (intro exI [of _ "reconcile_subscribe ?a"]) (auto simp: reconcile_subscribe_def Subscribe_def announced_def nth_append Let_def)
qed

text \<open>Reordering the rules, which decides among them, is reported as no change.\<close>

lemma reorder_unreported:
  "diffConfig (plain_config\<lparr>c_Egress := Some [allow_rule ''a.org'', allow_rule ''*'']\<rparr>)
     (plain_config\<lparr>c_Egress := Some [allow_rule ''*'', allow_rule ''a.org'']\<rparr>) =
   \<lparr>ch_FsAdded = [], ch_FsRemoved = [], ch_EgressAdded = [], ch_EgressRemoved = []\<rparr>"
  by code_simp

text \<open>The extra hosts, documented as fixed at the start, are not put back.\<close>

lemma extra_hosts_not_frozen: "c_ExtraHosts (freezeImmutable current desired started) = c_ExtraHosts desired"
  by (simp add: freezeImmutable_def Let_def split: option.splits)

section \<open>Validation and defaults\<close>

lemma check_fs_None: "check_fs i fs = None \<longleftrightarrow>
    list_all (\<lambda>f. f_Mount f \<noteq> [] \<and> HasPrefix (f_Mount f) ''/'' \<and> backend_Valid (f_Backend f)) fs"
  by (induction i fs rule: check_fs.induct) simp_all

lemma check_rules_None: "check_rules i rs = None \<longleftrightarrow> list_all (\<lambda>r. access_Valid (e_Access r)) rs"
  by (induction i rs rule: check_rules.induct) simp_all

lemma check_events_None: "check_events i es = None \<longleftrightarrow> list_all event_Valid es"
  by (induction i es rule: check_events.induct) simp_all

lemma validateConfig_exact: "validateConfig cfg = None \<longleftrightarrow>
    list_all (\<lambda>f. f_Mount f \<noteq> [] \<and> HasPrefix (f_Mount f) ''/'' \<and> backend_Valid (f_Backend f)) (c_Fs cfg) \<and>
    list_all (\<lambda>r. access_Valid (e_Access r)) (derefEgress (c_Egress cfg)) \<and>
    (\<forall>es. c_Events cfg = Some es \<longrightarrow> list_all event_Valid es)"
  unfolding check_fs_None [of 0, symmetric] check_rules_None [of 0, symmetric] check_events_None [of 0, symmetric]
  by (auto simp: validateConfig_def derefEgress_def split: option.splits)

lemma normalized_has_acls:
  assumes "backend_Valid (f_Backend f)" "variant f \<noteq> None"
  shows "f_Acls (normalize_fs variant f) \<noteq> None \<and> f_Acls (normalize_fs variant f) \<noteq> Some []"
  using assms by (auto simp: normalize_fs_def default_rules_def)

lemma normalize_idem: "backend_Valid (f_Backend f) \<Longrightarrow> variant f \<noteq> None \<Longrightarrow>
   normalize_fs variant (normalize_fs variant f) = normalize_fs variant f"
  using normalized_has_acls [of f variant] by (subst normalize_fs_def) simp

end
