(* ===== verification/Dns_Sink.thy ===== *)
theory Dns_Sink
  imports Bytes
begin

unbundle bit_operations_syntax

text \<open>
  The DNS sinkhole of the proxy (\<^verbatim>\<open>internal/proxy/dns.go\<close>): the parser of a query, the answer, the
  loop over datagrams and the suppression of repeated audit records.  In the parsers an outer
  \<open>None\<close> is an index or slice out of range, which in Go ends the process; an inner \<open>None\<close> is a
  query that is dropped.
\<close>

section \<open>The parser\<close>

definition byte_at :: "byte list \<Rightarrow> nat \<Rightarrow> byte option" where
  "byte_at msg i = (if i < length msg then Some (msg ! i) else None)"

definition slice :: "byte list \<Rightarrow> nat \<Rightarrow> nat \<Rightarrow> byte list option" where
  "slice msg i j = (if i \<le> j \<and> j \<le> length msg then Some (take (j - i) (drop i msg)) else None)"

function parseQName :: "byte list \<Rightarrow> nat \<Rightarrow> byte list \<Rightarrow> (byte list \<times> nat) option option" where
  "parseQName msg off out =
     (if off \<ge> length msg then Some None
      else case byte_at msg off of
        None \<Rightarrow> None
      | Some b \<Rightarrow>
          (let l = unat b in
           if l = 0 then Some (Some (out, off + 1))
           else if b AND 0xC0 \<noteq> 0 then Some None
           else let off1 = off + 1 in
             if off1 + l > length msg \<or> l > 63 then Some None
             else case slice msg off1 (off1 + l) of
               None \<Rightarrow> None
             | Some label \<Rightarrow>
                 (let out1 = (if length out > 0 then out @ [0x2E] else out) @ label in
                  if length out1 > 255 then Some None else parseQName msg (off1 + l) out1)))"
  by pat_completeness auto
termination
  by (relation "measure (\<lambda>(msg, off, out). length msg - off)") auto

declare parseQName.simps [simp del]

definition dnsTypeA :: "16 word" where
  "dnsTypeA = 1"

definition sinkTTL :: "32 word" where
  "sinkTTL = 0"

text \<open>The answer: a pointer to the question, type, class, time to live, length and address.\<close>

definition sink_record :: "byte list \<Rightarrow> byte list" where
  "sink_record sinkIP = [0xC0, 0x0C] @ PutUint16 dnsTypeA @ [0x00, 0x01] @ PutUint32 sinkTTL @ [0x00, 0x04] @ sinkIP"

definition sink_header :: "byte list \<Rightarrow> bool \<Rightarrow> byte list" where
  "sink_header query answer =
     (let hdr = take 12 query; rd = query ! 2 AND 0x01
      in take 2 hdr @ [0x80 OR rd, 0x80] @ PutUint16 1 @ PutUint16 (if answer then 1 else 0) @ PutUint16 0 @ PutUint16 0)"

definition buildSinkResponse :: "byte list \<Rightarrow> byte list \<Rightarrow> (byte list \<times> byte list) option option" where
  "buildSinkResponse query sinkIP =
     (if length query < 12 then Some None
      else case slice query 4 6 of
        None \<Rightarrow> None
      | Some qd \<Rightarrow>
          (if Uint16 qd < 1 then Some None
           else case parseQName query 12 [] of
             None \<Rightarrow> None
           | Some None \<Rightarrow> Some None
           | Some (Some (name, qend)) \<Rightarrow>
               (if qend + 4 > length query then Some None
                else case slice query qend (qend + 2) of
                  None \<Rightarrow> None
                | Some qt \<Rightarrow>
                    (let questionEnd = qend + 4; answer = (Uint16 qt = dnsTypeA) in
                     case slice query 12 questionEnd of
                       None \<Rightarrow> None
                     | Some question \<Rightarrow>
                         Some (Some (sink_header query answer @ question @ (if answer then sink_record sinkIP else []), name))))))"

section \<open>Suppressing repeated records\<close>

text \<open>Times in nanoseconds.\<close>

definition dnsAuditWindow :: int where
  "dnsAuditWindow = 60 * 1000000000"

definition dnsAuditMaxEntries :: nat where
  "dnsAuditMaxEntries = 4096"

definition shouldAudit :: "byte list \<Rightarrow> int \<Rightarrow> (byte list \<times> int) list \<Rightarrow> bool \<times> (byte list \<times> int) list" where
  "shouldAudit name now seen =
     (if (case map_of seen name of Some t \<Rightarrow> now - t < dnsAuditWindow | None \<Rightarrow> False) then (False, seen)
      else if length seen \<ge> dnsAuditMaxEntries then
        (let seen1 = filter (\<lambda>(k, t). \<not> now - t \<ge> dnsAuditWindow) seen
         in if length seen1 \<ge> dnsAuditMaxEntries then (True, seen1) else (True, AList.update name now seen1))
      else (True, AList.update name now seen))"

section \<open>Serving\<close>

record dns_sink =
  dk_seen :: "(byte list \<times> int) list"
  dk_audited :: "(byte list \<times> int) list"
  dk_sent :: "byte list list"

text \<open>\<^verbatim>\<open>auditDNS\<close>: a request record and its response at once, for a name not just audited.\<close>

definition auditDNS :: "byte list \<Rightarrow> int \<Rightarrow> dns_sink \<Rightarrow> dns_sink" where
  "auditDNS name now s =
     (case shouldAudit name now (dk_seen s) of
        (emit, seen) \<Rightarrow> s\<lparr>dk_seen := seen, dk_audited := dk_audited s @ (if emit then [(name, now)] else [])\<rparr>)"

text \<open>
  One turn of \<^verbatim>\<open>serveSinkUDP\<close>: a datagram, cut off at the size of the buffer.  The sink of a pod has
  an audit function; the sinks bound to the gateway of one container have none.
\<close>

definition serve_datagram :: "bool \<Rightarrow> byte list \<Rightarrow> byte list \<times> int \<Rightarrow> dns_sink \<Rightarrow> dns_sink option" where
  "serve_datagram audit sinkIP dt s =
     (case buildSinkResponse (take 1500 (fst dt)) sinkIP of
        None \<Rightarrow> None
      | Some None \<Rightarrow> Some s
      | Some (Some (resp, name)) \<Rightarrow>
          (let s1 = (if audit \<and> name \<noteq> [] then auditDNS name (snd dt) s else s) in Some (s1\<lparr>dk_sent := dk_sent s1 @ [resp]\<rparr>)))"

fun serveSinkUDP :: "bool \<Rightarrow> byte list \<Rightarrow> (byte list \<times> int) list \<Rightarrow> dns_sink \<Rightarrow> dns_sink option" where
  "serveSinkUDP audit sinkIP [] s = Some s"
| "serveSinkUDP audit sinkIP (d # ds) s =
     (case serve_datagram audit sinkIP d s of None \<Rightarrow> None | Some s1 \<Rightarrow> serveSinkUDP audit sinkIP ds s1)"

definition new_sink :: dns_sink where
  "new_sink = \<lparr>dk_seen = [], dk_audited = [], dk_sent = []\<rparr>"

section \<open>The parser is total\<close>

lemma parse_total: "\<exists>r. parseQName msg off out = Some r \<and> (\<forall>name e. r = Some (name, e) \<longrightarrow> off < e \<and> e \<le> length msg \<and> length name \<le> max 255 (length out))"
proof (induction msg off out rule: parseQName.induct)
  case (1 msg off out)
  show ?case
  proof (cases "off < length msg")
    case False
    then show ?thesis by (simp add: parseQName.simps)
  next
    case True
    let ?b = "msg ! off" and ?l = "unat (msg ! off)"
    show ?thesis
    proof (cases "?l = 0 \<or> ?b AND 0xC0 \<noteq> 0 \<or> off + 1 + ?l > length msg \<or> ?l > 63")
      case stop: True
      then show ?thesis using True by (subst parseQName.simps) (auto simp: byte_at_def Let_def)
    next
      case False
      let ?out1 = "(if length out > 0 then out @ [0x2E] else out) @ take ?l (drop (off + 1) msg)"
      have s: "slice msg (off + 1) (off + 1 + ?l) = Some (take ?l (drop (off + 1) msg))" using False by (simp add: slice_def)
      have eq: "parseQName msg off out = (if length ?out1 > 255 then Some None else parseQName msg (off + 1 + ?l) ?out1)"
        using True False s by (subst parseQName.simps) (simp add: byte_at_def Let_def)
      show ?thesis
      proof (cases "length ?out1 > 255")
        case True
        then show ?thesis unfolding eq by simp
      next
        case short: False
        obtain r where r: "parseQName msg (off + 1 + ?l) ?out1 = Some r"
          "\<forall>name e. r = Some (name, e) \<longrightarrow> off + 1 + ?l < e \<and> e \<le> length msg \<and> length name \<le> max 255 (length ?out1)"
          using 1 [of ?b ?l "off + 1" "take ?l (drop (off + 1) msg)" ?out1] True False s short
          by (auto simp: byte_at_def)
        then show ?thesis unfolding eq using short by fastforce
      qed
    qed
  qed
qed

text \<open>The whole reply, byte by byte: the first two bytes of the query, fixed flags but for the copied
  recursion bit, the echoed question, and the fixed record or nothing.\<close>

definition constant_reply :: "byte list \<Rightarrow> byte list \<Rightarrow> byte list \<Rightarrow> bool \<Rightarrow> byte list" where
  "constant_reply ip query question answer =
     take 2 query @ [0x80 OR (query ! 2 AND 0x01), 0x80, 0, 1, 0, (if answer then 1 else 0), 0, 0, 0, 0] @ question @
     (if answer then [0xC0, 0x0C, 0, 1, 0, 1, 0, 0, 0, 0, 0, 4] @ ip else [])"

lemma header_bytes: "sink_header q a = take 2 q @ [0x80 OR (q ! 2 AND 0x01), 0x80, 0, 1, 0, (if a then 1 else 0), 0, 0, 0, 0]"
  by (simp add: sink_header_def PutUint16_def Let_def)

lemma record_bytes: "sink_record ip = [0xC0, 0x0C, 0, 1, 0, 1, 0, 0, 0, 0, 0, 4] @ ip"
  by (simp add: sink_record_def PutUint16_def PutUint32_def dnsTypeA_def sinkTTL_def)

lemma build_total:
  "\<exists>r. buildSinkResponse q ip = Some r \<and> (\<forall>resp name. r = Some (resp, name) \<longrightarrow>
     (\<exists>question answer. resp = constant_reply ip q question answer \<and> prefix question (drop 12 q) \<and> length name \<le> 255))"
proof (cases "length q < 12")
  case True
  then show ?thesis by (simp add: buildSinkResponse_def)
next
  case False
  then have s4: "slice q 4 6 = Some (take 2 (drop 4 q))" by (simp add: slice_def)
  obtain r where r: "parseQName q 12 [] = Some r" "\<forall>name e. r = Some (name, e) \<longrightarrow> 12 < e \<and> e \<le> length q \<and> length name \<le> 255"
    using parse_total [of q 12 "[]"] by auto
  show ?thesis
  proof (cases "r = None \<or> Uint16 (take 2 (drop 4 q)) < 1 \<or> (\<exists>name e. r = Some (name, e) \<and> e + 4 > length q)")
    case True
    then show ?thesis using False s4 r by (auto simp: buildSinkResponse_def)
  next
    case ok: False
    then obtain name e where e: "r = Some (name, e)" "e + 4 \<le> length q" by (cases r) auto
    then have sl: "slice q e (e + 2) = Some (take 2 (drop e q))" "slice q 12 (e + 4) = Some (take (e + 4 - 12) (drop 12 q))"
      using r(2) by (auto simp: slice_def)
    let ?a = "Uint16 (take 2 (drop e q)) = dnsTypeA"
    have "buildSinkResponse q ip = Some (Some (constant_reply ip q (take (e + 4 - 12) (drop 12 q)) ?a, name))"
      using False s4 r(1) ok e sl by (simp add: buildSinkResponse_def constant_reply_def header_bytes record_bytes Let_def)
    then show ?thesis using r(2) e(1) take_is_prefix by fastforce
  qed
qed

lemma serve_total:
  "\<exists>s'. serve_datagram audit ip d s = Some s' \<and> (\<forall>resp \<in> set (dk_sent s') - set (dk_sent s). \<exists>question answer.
     resp = constant_reply ip (take 1500 (fst d)) question answer \<and> prefix question (drop 12 (take 1500 (fst d))))"
proof -
  obtain r where r: "buildSinkResponse (take 1500 (fst d)) ip = Some r" "\<forall>resp name. r = Some (resp, name) \<longrightarrow>
     (\<exists>question answer. resp = constant_reply ip (take 1500 (fst d)) question answer \<and> prefix question (drop 12 (take 1500 (fst d))))"
    using build_total by blast
  have k: "dk_sent (auditDNS n t u) = dk_sent u" for n t u by (simp add: auditDNS_def split: prod.splits)
  show ?thesis
  proof (cases r)
    case (Some x)
    then show ?thesis using r k by (cases x) (auto simp: serve_datagram_def Let_def)
  qed (simp add: serve_datagram_def r)
qed

section \<open>The audit is complete and bounded\<close>

definition audit_ok :: "int \<Rightarrow> dns_sink \<Rightarrow> bool" where
  "audit_ok now s \<longleftrightarrow> length (dk_seen s) \<le> dnsAuditMaxEntries \<and> set (dk_seen s) \<subseteq> set (dk_audited s) \<and>
     (\<forall>(n, t) \<in> set (dk_audited s). t \<le> now)"

lemma update_length: "length (AList.update k v xs) \<le> Suc (length xs)"
  by (induction xs) auto

lemma update_subset: "set (AList.update k v xs) \<subseteq> insert (k, v) (set xs)"
  by (induction xs) auto

lemma shouldAudit_length:
  assumes "length seen \<le> dnsAuditMaxEntries"
  shows "length (snd (shouldAudit name now seen)) \<le> dnsAuditMaxEntries"
proof -
  define f where "f = filter (\<lambda>(k, t). \<not> now - t \<ge> dnsAuditWindow) seen"
  have "length f \<le> length seen" by (simp add: f_def)
  moreover have "length (AList.update name now xs) \<le> dnsAuditMaxEntries" if "\<not> length xs \<ge> dnsAuditMaxEntries" for xs
    using update_length [of name now xs] that by simp
  ultimately show ?thesis using assms unfolding shouldAudit_def Let_def f_def [symmetric] by auto
qed

lemma audit_kept:
  assumes "audit_ok t0 s" "t0 \<le> now"
  shows "audit_ok now (auditDNS name now s) \<and> set (dk_audited s) \<subseteq> set (dk_audited (auditDNS name now s)) \<and>
    (\<exists>t. (name, t) \<in> set (dk_audited (auditDNS name now s)) \<and> t \<le> now \<and> now - t < dnsAuditWindow)"
proof -
  let ?f = "filter (\<lambda>(k, t). \<not> now - t \<ge> dnsAuditWindow) (dk_seen s)"
  obtain emit seen where e: "shouldAudit name now (dk_seen s) = (emit, seen)" by fastforce
  have w: "0 < dnsAuditWindow" by (simp add: dnsAuditWindow_def)
  have len: "length seen \<le> dnsAuditMaxEntries" using shouldAudit_length [of "dk_seen s" name now] e assms(1) by (simp add: audit_ok_def)
  have sub: "set seen \<subseteq> set (dk_audited s) \<union> (if emit then {(name, now)} else {})"
    using e assms(1) update_subset [of name now "dk_seen s"] update_subset [of name now ?f]
    by (auto simp: shouldAudit_def audit_ok_def Let_def split: if_splits)
  have quiet: "\<exists>t. (name, t) \<in> set (dk_audited s) \<and> now - t < dnsAuditWindow" if "\<not> emit"
    using e that assms(1) by (auto simp: shouldAudit_def audit_ok_def Let_def split: if_splits option.splits dest: map_of_SomeD)
  have a: "dk_seen (auditDNS name now s) = seen" "dk_audited (auditDNS name now s) = dk_audited s @ (if emit then [(name, now)] else [])"
    using e by (simp_all add: auditDNS_def)
  have old: "t \<le> now" if "(n, t) \<in> set (dk_audited s)" for n t using assms that by (fastforce simp: audit_ok_def)
  show ?thesis
    using len sub quiet a w old by (cases emit) (auto simp: audit_ok_def)
qed

lemma serve_audits:
  assumes "audit_ok t0 s" "t0 \<le> snd d" "serve_datagram True ip d s = Some s'"
  shows "audit_ok (snd d) s' \<and> set (dk_audited s) \<subseteq> set (dk_audited s') \<and>
    (\<forall>resp name. buildSinkResponse (take 1500 (fst d)) ip = Some (Some (resp, name)) \<and> name \<noteq> [] \<longrightarrow>
       (\<exists>t. (name, t) \<in> set (dk_audited s') \<and> t \<le> snd d \<and> snd d - t < dnsAuditWindow))"
proof -
  have later: "audit_ok (snd d) s" using assms(1,2) by (fastforce simp: audit_ok_def)
  have sent: "audit_ok t (u\<lparr>dk_sent := x\<rparr>) = audit_ok t u" for t u x by (simp add: audit_ok_def)
  show ?thesis
  proof (cases "\<exists>resp name. buildSinkResponse (take 1500 (fst d)) ip = Some (Some (resp, name)) \<and> name \<noteq> []")
    case True
    then obtain resp name where b: "buildSinkResponse (take 1500 (fst d)) ip = Some (Some (resp, name))" "name \<noteq> []" by blast
    then have "s' = (auditDNS name (snd d) s)\<lparr>dk_sent := dk_sent (auditDNS name (snd d) s) @ [resp]\<rparr>"
      using assms(3) by (simp add: serve_datagram_def Let_def)
    then show ?thesis using audit_kept [OF assms(1,2), of name] b(1) by (simp add: sent)
  next
    case False
    then have "dk_seen s' = dk_seen s" "dk_audited s' = dk_audited s"
      using assms(3) by (auto simp: serve_datagram_def Let_def split: option.splits prod.splits if_splits)
    then show ?thesis using later False by (auto simp: audit_ok_def)
  qed
qed

lemma run_audits:
  assumes "audit_ok t0 s" "sorted (map snd ds)" "\<forall>d \<in> set ds. t0 \<le> snd d" "serveSinkUDP True ip ds s = Some s'"
  shows "length (dk_seen s') \<le> dnsAuditMaxEntries \<and> set (dk_audited s) \<subseteq> set (dk_audited s') \<and>
    (\<forall>d \<in> set ds. \<forall>resp name. buildSinkResponse (take 1500 (fst d)) ip = Some (Some (resp, name)) \<and> name \<noteq> [] \<longrightarrow>
       (\<exists>t. (name, t) \<in> set (dk_audited s') \<and> t \<le> snd d \<and> snd d - t < dnsAuditWindow))"
  using assms
proof (induction ds arbitrary: s t0)
  case Nil
  then show ?case by (simp add: audit_ok_def)
next
  case (Cons d ds)
  obtain s1 where s1: "serve_datagram True ip d s = Some s1" "serveSinkUDP True ip ds s1 = Some s'"
    using Cons.prems(4) by (auto split: option.splits)
  note one = serve_audits [OF Cons.prems(1) _ s1(1)]
  have "audit_ok (snd d) s1" "\<forall>x \<in> set ds. snd d \<le> snd x" using one Cons.prems(2,3) by auto
  note rest = Cons.IH [OF this(1) _ this(2) s1(2)]
  show ?case using one rest Cons.prems(2,3) by fastforce
qed

section \<open>Queries as clients write them\<close>

definition enc_labels :: "byte list list \<Rightarrow> byte list" where
  "enc_labels ls = concat (map (\<lambda>l. of_nat (length l) # l) ls) @ [0]"

fun dotted :: "byte list \<Rightarrow> byte list list \<Rightarrow> byte list" where
  "dotted out [] = out"
| "dotted out (l # ls) = dotted ((if length out > 0 then out @ [0x2E] else out) @ l) ls"

lemma small_label: "n < 64 \<Longrightarrow> (of_nat n :: byte) AND 0xC0 = 0"
proof -
  have "list_all (\<lambda>n. (of_nat n :: byte) AND 0xC0 = 0) [0..<64]" by code_simp
  then show "n < 64 \<Longrightarrow> ?thesis" by (auto simp: list_all_iff)
qed

lemma dotted_length: "length out \<le> length (dotted out ls)"
  by (induction out ls rule: dotted.induct) auto

lemma qname_roundtrip:
  assumes "\<forall>l \<in> set ls. 0 < length l \<and> length l \<le> 63" "length (dotted out ls) \<le> 255"
  shows "parseQName (pre @ enc_labels ls @ post) (length pre) out = Some (Some (dotted out ls, length pre + length (enc_labels ls)))"
  using assms
proof (induction out ls arbitrary: pre rule: dotted.induct)
  case (1 out)
  then show ?case by (subst parseQName.simps) (simp add: enc_labels_def byte_at_def nth_append)
next
  case (2 out l ls)
  let ?n = "of_nat (length l) :: byte"
  define msg where "msg = pre @ enc_labels (l # ls) @ post"
  let ?out1 = "(if length out > 0 then out @ [0x2E] else out) @ l"
  have n: "unat ?n = length l" "?n AND 0xC0 = 0" using 2(2) by (simp_all add: unat_of_nat_small small_label)
  have m: "msg = pre @ ?n # l @ enc_labels ls @ post" by (simp add: msg_def enc_labels_def)
  have b: "byte_at msg (length pre) = Some ?n" "slice msg (length pre + 1) (length pre + 1 + length l) = Some l"
    "length pre < length msg" "length pre + 1 + length l \<le> length msg"
    by (auto simp: m byte_at_def slice_def)
  have short: "\<not> length ?out1 > 255" using 2(3) dotted_length [of ?out1 ls] by simp
  have "parseQName msg (length pre) out = parseQName msg (length pre + 1 + length l) ?out1"
    using b n short 2(2) by (subst parseQName.simps) (simp add: Let_def)
  also have "\<dots> = Some (Some (dotted ?out1 ls, length (pre @ ?n # l) + length (enc_labels ls)))"
    using 2(1) [of "pre @ ?n # l"] 2(2,3) by (simp add: m)
  finally show ?case by (simp add: msg_def enc_labels_def)
qed

section \<open>Properties\<close>

lemma run_total:
  "\<exists>s'. serveSinkUDP audit ip ds s = Some s' \<and> (\<forall>resp \<in> set (dk_sent s') - set (dk_sent s). \<exists>d \<in> set ds. \<exists>question answer.
     resp = constant_reply ip (take 1500 (fst d)) question answer \<and> prefix question (drop 12 (take 1500 (fst d))))"
proof (induction ds arbitrary: s)
  case (Cons d ds)
  obtain s1 where s1: "serve_datagram audit ip d s = Some s1" "\<forall>resp \<in> set (dk_sent s1) - set (dk_sent s). \<exists>question answer.
     resp = constant_reply ip (take 1500 (fst d)) question answer \<and> prefix question (drop 12 (take 1500 (fst d)))"
    using serve_total by blast
  obtain s2 where s2: "serveSinkUDP audit ip ds s1 = Some s2" "\<forall>resp \<in> set (dk_sent s2) - set (dk_sent s1). \<exists>d \<in> set ds. \<exists>question answer.
     resp = constant_reply ip (take 1500 (fst d)) question answer \<and> prefix question (drop 12 (take 1500 (fst d)))"
    using Cons by blast
  have "serveSinkUDP audit ip (d # ds) s = Some s2" using s1(1) s2(1) by simp
  moreover have "resp \<in> set (dk_sent s2) - set (dk_sent s) \<Longrightarrow> resp \<in> set (dk_sent s2) - set (dk_sent s1) \<or> resp \<in> set (dk_sent s1) - set (dk_sent s)" for resp
    by blast
  ultimately show ?case using s1(2) s2(2) by (metis (no_types, lifting) list.set_intros(1,2))
qed simp

text \<open>
  C8: whatever datagrams a sandbox sends, a sinkhole goes on (no index out of range), and each reply
  is, byte for byte, the transaction id and recursion bit of a datagram, fixed flags, a piece of
  that datagram echoed back, and for an address query the same fixed record: nothing a reply
  carries comes from anywhere but the query itself.
\<close>

theorem dns_reveals_nothing:
  "\<exists>s. serveSinkUDP audit ip ds new_sink = Some s \<and> (\<forall>resp \<in> set (dk_sent s). \<exists>d \<in> set ds. \<exists>question answer.
     resp = constant_reply ip (take 1500 (fst d)) question answer \<and> prefix question (drop 12 (take 1500 (fst d))))"
  using run_total [of audit ip ds new_sink] by (simp add: new_sink_def)

text \<open>The query for the addresses of \<^verbatim>\<open>a.io\<close>.\<close>

definition sample_query :: "byte list" where
  "sample_query = [0xAB, 0xCD, 1, 0, 0, 1, 0, 0, 0, 0, 0, 0] @ enc_labels [[0x61], [0x69, 0x6F]] @ [0, 1, 0, 1]"

theorem dns_reveals_nothing_witness:
  "\<exists>s. serveSinkUDP True [11, 0, 0, 1] [(sample_query, 0)] new_sink = Some s \<and>
     dk_sent s = [constant_reply [11, 0, 0, 1] sample_query (enc_labels [[0x61], [0x69, 0x6F]] @ [0, 1, 0, 1]) True]"
proof -
  have "map_option dk_sent (serveSinkUDP True [11, 0, 0, 1] [(sample_query, 0)] new_sink) =
      Some [constant_reply [11, 0, 0, 1] sample_query (enc_labels [[0x61], [0x69, 0x6F]] @ [0, 1, 0, 1]) True]" by code_simp
  then show ?thesis using dns_reveals_nothing [of True "[11, 0, 0, 1]" "[(sample_query, 0)]"] by auto
qed



end
