(* ===== verification/Spec2Isabelle.thy ===== *)
theory Spec2Isabelle
  imports Acl Egress Vsock Ws Broker Object_Listing Fuse_Safe Nine_Pump Guestsess Mounts Store_Config Pool
    Tar_Snapshot Egress_Reload Audit_Route Supervisor Proxy_Serve Config_Apply Dns_Sink
begin

text \<open>
  Verification of the core of the hiver sandbox (the Go sources under \<^verbatim>\<open>src/internal\<close> and two of
  the daemons under \<^verbatim>\<open>src/cmd\<close>).

  \<^bold>\<open>The program.\<close>  A pod runs many sandboxes.  Its supervisor (\<^verbatim>\<open>internal/sandboxd\<close>) gives each one a
  network slot, an egress policy, a set of workspace mounts and a workload, and takes all of it
  back at the end.  Three side processes do the work on the data path: a proxy
  (\<^verbatim>\<open>internal/proxy\<close>, \<^verbatim>\<open>cmd/sbxproxy\<close>) that every outgoing connection of a sandbox passes; a FUSE
  daemon (\<^verbatim>\<open>internal/fusefs\<close>, \<^verbatim>\<open>internal/remotefs\<close>, \<^verbatim>\<open>cmd/sbxfuse\<close>) that serves the mounts under
  access rules and writes remote-backed ones back through a journal; and an agent inside the
  guest, reached over framed byte streams (\<^verbatim>\<open>internal/vsockexec\<close>, \<^verbatim>\<open>internal/vsockfile\<close>), that keeps
  terminal sessions (\<^verbatim>\<open>internal/guestsess\<close>, \<^verbatim>\<open>internal/pty\<close>) and a 9p proxy that survives the loss of
  the connection to the host (\<^verbatim>\<open>internal/nineproxy\<close>).  Proxy and FUSE daemon report audit records;
  the supervisor turns them into events of the right sandbox, which the broker
  (\<^verbatim>\<open>internal/events\<close>) numbers, keeps and fans out to subscribers.

  \<^bold>\<open>Shared ground.\<close>
  \<^item> \<open>Prelude\<close>: what the packages use of Go's \<^verbatim>\<open>strings\<close>, \<^verbatim>\<open>path\<close> and maps, with the collections of
    simplification rules and the generic list lemmas; \<open>Bytes\<close>: readers and writers of byte
    streams and big- and little-endian integers; \<open>Monads\<close>: the state monad and its
    weakest-precondition rules; \<open>Histories\<close>: the interface of a bounded history, interpreted by
    the broker's ring and by the terminal's scrollback; \<open>Hostfs\<close>: the host's file system
    as \<^verbatim>\<open>os\<close> and \<^verbatim>\<open>path/filepath\<close> present it.

  \<^bold>\<open>The proxy.\<close>
  \<^item> \<open>Glob\<close> and \<open>Netaddr\<close> (\<^verbatim>\<open>proxy.go\<close>): the wildcard matchers, shown total and equal to a
    declarative relation, and the handling of hosts, ports and local addresses.
  \<^item> \<open>Egress\<close> (\<^verbatim>\<open>proxy.go\<close>): rules, compilation, the decision \<open>MatchEgress\<close> (the first rule that covers
    the request decides, and without one it is denied), per-source policies and the wait for a
    policy of a source that has none yet.
  \<^item> \<open>Override\<close> (\<^verbatim>\<open>proxy.go\<close>, \<^verbatim>\<open>override_script.go\<close>): header, query, path and body rewriting of a rule;
    an override changes what it names and nothing else.
  \<^item> \<open>Tls_Hello\<close> (\<^verbatim>\<open>sniff_protocol_linux.go\<close>, \<^verbatim>\<open>clienthello_linux.go\<close>): telling TLS from HTTP and reading
    the server name of a hello; the parser never reads past its input and finds the name of
    every well-formed hello of at most the size the connection can show.
  \<^item> \<open>Pool\<close> (\<^verbatim>\<open>upstream_pool.go\<close>): warm connections are only handed to the source, destination,
    name and protocol they were dialled for.
  \<^item> \<open>Dns_Sink\<close> (\<^verbatim>\<open>dns.go\<close>): the sinkhole every lookup goes to; it survives any datagram, its replies carry
    nothing but an echo and one constant, and no lookup evades its audit.
  \<^item> \<open>Ws\<close> (\<^verbatim>\<open>internal/wsaudit\<close>): the WebSocket pump forwards every byte unchanged.
  \<^item> \<open>Proxy_Serve\<close> (\<^verbatim>\<open>proxy.go\<close>, \<^verbatim>\<open>forward_http_linux.go\<close>, \<^verbatim>\<open>transparent_*_linux.go\<close>,
    \<^verbatim>\<open>inner_h2_linux.go\<close>, \<^verbatim>\<open>upstream_tls_linux.go\<close>): every handler with its audit log.  The locale
    \<open>log_condition\<close> proves a condition on logs for all handlers from what their primitive steps
    add; it is interpreted for enforcement (nothing goes upstream that no rule allows) and for
    pairing (every audited response belongs to a request recorded before it).

  \<^bold>\<open>Files.\<close>
  \<^item> \<open>Acl\<close> (\<^verbatim>\<open>fusefs/acl.go\<close>): the longest matching prefix decides.
  \<^item> \<open>Fuse\<close> and \<open>Fuse_Safe\<close> (\<^verbatim>\<open>fusefs/fs_linux.go\<close>): all node and handle operations as monadic programs
    that log the host calls they make; every call is authorised, every audited request is
    answered once, and no host path leaves the backend directory.
  \<^item> \<open>Oplog\<close> (\<^verbatim>\<open>fusefs/oplog.go\<close>): the journal of writes to come; its dirty set is exact over
    every interleaving, and a path with nothing outstanding is in the remote store what it is in the
    local buffer, for every store that keeps the contract \<open>object_store\<close> (a locale).  \<open>Statcache\<close> (\<^verbatim>\<open>fusefs/statcache.go\<close>): the cache never contradicts the store.
  \<^item> \<open>Object_Stores\<close>, \<open>Object_Listing\<close> (\<^verbatim>\<open>remotefs/s3.go\<close>, \<^verbatim>\<open>gcs.go\<close>, \<^verbatim>\<open>azblob.go\<close>): all operations of the three
    object stores over a bucket service given as a parameter with its documented laws; they
    interpret \<open>object_store\<close>, touch no object outside the configured prefix, and list exactly what
    they report one by one.
  \<^item> \<open>Sandbox_Spec\<close>, \<open>Store_Config\<close> (\<^verbatim>\<open>spec/spec.go\<close>, \<^verbatim>\<open>remotefs\<close> configuration parsers): validation
    characterised field by field, and the agreement of validation and store construction.
  \<^item> \<open>Mounts\<close> (\<^verbatim>\<open>sandboxd/mounts.go\<close>, \<^verbatim>\<open>reconciler.go\<close>, \<^verbatim>\<open>runc/image.go\<close>): reconciling the mounts with a
    new configuration reaches exactly the configured set.
  \<^item> \<open>Tar_Snapshot\<close> (\<^verbatim>\<open>snapshot/snapshot.go\<close>): capture is atomic, restore writes only
    below its destination (for trees without outward links), and the two are inverse.

  \<^bold>\<open>Guest.\<close>
  \<^item> \<open>Vsock\<close> (\<^verbatim>\<open>vsockexec/proto.go\<close>, \<^verbatim>\<open>vsockfile/proto.go\<close>): sessions decode to what was sent.
  \<^item> \<open>Pty\<close>, \<open>Guestsess\<close>: a viewer sees each chunk of output once, a session has one process.
  \<^item> \<open>Nine\<close>, \<open>Nine_Replay\<close>, \<open>Nine_Resend\<close>, \<open>Nine_Proxy\<close>, \<open>Nine_Pump\<close> (\<^verbatim>\<open>internal/nineproxy\<close>): tracking a 9p
    session, rebuilding it against any server that keeps the protocol (the hypothesis \<open>nine_server\<close>), resending what
    is unanswered, and the interleaving of both pumps with a reconnect.

  \<^bold>\<open>Supervision.\<close>
  \<^item> \<open>Broker\<close> (\<^verbatim>\<open>events/broker.go\<close>): ids, ring, filter, subscribers; a resuming client sees every
    event it missed once and in order.
  \<^item> \<open>Audit_Route\<close> (\<^verbatim>\<open>sandboxd/sidecar.go\<close>, \<^verbatim>\<open>fusecontrol.go\<close>): audit records reach the sandbox they
    belong to and responses carry the event id of their request.
  \<^item> \<open>Slots\<close> (\<^verbatim>\<open>packed.go\<close>, \<^verbatim>\<open>prealloc.go\<close>): no two sandboxes ever hold the same network slot.
  \<^item> \<open>Egress_Reload\<close> (\<^verbatim>\<open>packed.go\<close>, \<^verbatim>\<open>cmd/sbxproxy\<close>): from the change of a sandbox's rules to the proxy that
    enforces them: an acknowledged change is enforced, and reloading settles.
  \<^item> \<open>Launch\<close>, \<open>Supervisor\<close> (\<^verbatim>\<open>packed.go\<close>, \<^verbatim>\<open>run.go\<close>, \<^verbatim>\<open>supervisor.go\<close>): what a sandbox runs, bringing it up,
    reconfiguring it and tearing it down, composed from all of the above; live sandboxes stay
    isolated, teardown returns everything, and a failed creation leaves no sandbox, slot, route or
    policy.

  \<^item> \<open>Config_Apply\<close> (\<^verbatim>\<open>api/handlers/config.go\<close>, \<^verbatim>\<open>api/config_store.go\<close>, \<^verbatim>\<open>api/diff.go\<close>): a change of the
    configuration from the request to the store, the announcement and the reconciler, in every
    interleaving; what a started workload was given never changes, and a change that was accepted
    and announced is carried out.

  \<^bold>\<open>Bounds and fuel.\<close>  Machine integers are words where their width matters (frame lengths, 9p
  sizes, tags and fids); event ids, generations and output counters are natural numbers, since
  64-bit counters do not wrap in the life of a process.  The reader of a whole session
  (\<open>read_frames\<close>) has as fuel the number of frames to read, one more than were written in the round
  trip; the journal's drain at shutdown has the budget of uploads that fit into its
  time, and nothing is claimed of what is left after it.  The
  resolution of symbolic links stops after 40 links, as the kernel does.  A connection shows the
  proxy at most the 4096 bytes its buffered reader peeks.

  \<^bold>\<open>What is idealised.\<close>  Operations that hold a lock are one step; operations that release it
  between phases (the supervisor's creation, the journal's drain, the 9p pumps, the broker's
  subscribers, reload and its signal) are separate steps that interleave freely.
  Letter case is folded for ASCII only.  Times are left out except where a decision
  depends on one.  Background refreshes of the stat cache run at once.  Bytes relayed in a tunnel
  are one event.  The remote stores, the operating system, the 9p server, the started processes,
  the JSON codec, the Lua interpreter and TLS are parameters: arguments or answers of an
  environment, with what the code relies on as named hypotheses and instances that satisfy them.
  Tar and gzip are a pair of an encoder and a decoder.  \<open>Hostfs\<close> has no hard links, time stamps,
  umask or full disk.

  \<^bold>\<open>Not modelled.\<close>  The runtimes that start machines and containers (\<^verbatim>\<open>internal/isolation\<close>,
  \<^verbatim>\<open>internal/firecracker\<close>, \<^verbatim>\<open>internal/uffd\<close>, the bundle writer of \<^verbatim>\<open>internal/runc\<close>) and the
  controller (\<^verbatim>\<open>internal/api/controller\<close>) consist of calls to a hypervisor,
  to kernel interfaces, to Docker or to Kubernetes whose behaviour is not in the repository.  The
  operations on Google Drive, OneDrive and external stores drive web interfaces whose behaviour
  is known only in part; the laws the file system relies on are the hypotheses of \<open>Oplog\<close> and
  \<open>Statcache\<close>.  The HTTP handlers of the sandbox API other than the one for the configuration
  translate requests to operations modelled here.  The
  certificate authority of the proxy is the standard library's X.509.  The command line, the
  browser image, generated code and the client library are outside the core.
\<close>

end
